(* ===== verification/ZtPrelude.thy ===== *)
theory ZtPrelude
  imports Main "HOL-Library.AList" "HOL-Library.Sublist"
begin

text \<open>
  Shared vocabulary of the ZeroTrace development: the representation of Python text, the
  slicing and searching operations the code uses on it, results that may be an error,
  insertion-ordered dictionaries, and the generic lemmas the component theories rest on.

  A Python \<open>str\<close> is a list of code points (\<open>pystr\<close>), so that a character beyond Latin-1
  is one element, as \<open>len\<close> and slicing count it. Identifiers that the code only compares and
  concatenates (tenant ids, header names, group names) are the HOL type \<open>string\<close>.
\<close>

named_theorems zt_defs "definitions that component proofs unfold together"

section \<open>Text\<close>

type_synonym pystr = "nat list"

abbreviation tx :: "string \<Rightarrow> pystr" where
  "tx s \<equiv> map of_char s"

definition slice :: "nat \<Rightarrow> nat \<Rightarrow> 'a list \<Rightarrow> 'a list" where
  \<comment> \<open>Python \<open>xs[i:j]\<close> for non-negative bounds\<close>
  "slice i j xs = take (j - i) (drop i xs)"

definition last_n :: "nat \<Rightarrow> 'a list \<Rightarrow> 'a list" where
  \<comment> \<open>Python \<open>xs[-n:]\<close>; \<open>xs[-0:]\<close> is the whole list\<close>
  "last_n n xs = (if n = 0 then xs else drop (length xs - n) xs)"

lemma length_slice [simp]: "length (slice i j xs) = min (j - i) (length xs - i)"
  by (simp add: slice_def min.commute)

lemma slice_all [simp]: "slice 0 (length xs) xs = xs"
  by (simp add: slice_def)

lemma set_slice: "set (slice i j xs) \<subseteq> set xs"
  unfolding slice_def by (meson set_drop_subset set_take_subset subset_trans)

lemma slice_append_right: "i \<ge> length xs \<Longrightarrow> slice i j (xs @ ys) = slice (i - length xs) (j - length xs) ys"
  by (simp add: slice_def)

lemma slice_split:
  assumes "i \<le> j" "j \<le> length xs"
  shows "xs = take i xs @ slice i j xs @ drop j xs"
proof -
  have "drop i xs = take (j - i) (drop i xs) @ drop (j - i) (drop i xs)"
    by (rule append_take_drop_id [symmetric])
  moreover have "drop (j - i) (drop i xs) = drop j xs" using assms by simp
  ultimately have "drop i xs = slice i j xs @ drop j xs" by (simp only: slice_def)
  then show ?thesis by (metis append_take_drop_id)
qed

lemma length_last_n: "0 < n \<Longrightarrow> length (last_n n xs) = min n (length xs)"
  by (auto simp: last_n_def)

lemma length_last_n_le: "0 < n \<Longrightarrow> length (last_n n xs) \<le> n"
  by (simp add: length_last_n)

lemma last_n_short: "length xs \<le> n \<Longrightarrow> last_n n xs = xs"
  by (simp add: last_n_def)

lemma last_n_suffix: "suffix (last_n n xs) xs"
  by (simp add: last_n_def suffix_drop)

function find_from :: "'a list \<Rightarrow> 'a list \<Rightarrow> nat \<Rightarrow> nat option" where
  \<comment> \<open>Python \<open>hay.find(sub, i)\<close>, with \<open>None\<close> for \<open>-1\<close>\<close>
  "find_from sub hay i =
     (if length hay < i + length sub then None
      else if take (length sub) (drop i hay) = sub then Some i
      else find_from sub hay (Suc i))"
  by pat_completeness auto
termination
  by (relation "measure (\<lambda>(sub, hay, i). Suc (length hay) - i)") auto

declare find_from.simps [simp del]

definition contains :: "'a list \<Rightarrow> 'a list \<Rightarrow> bool" where
  \<comment> \<open>Python \<open>sub in hay\<close> on strings\<close>
  "contains sub hay \<longleftrightarrow> find_from sub hay 0 \<noteq> None"

lemma find_from_Some:
  "find_from sub hay i = Some j \<Longrightarrow>
     i \<le> j \<and> j + length sub \<le> length hay \<and> take (length sub) (drop j hay) = sub
     \<and> (\<forall>k. i \<le> k \<and> k < j \<longrightarrow> take (length sub) (drop k hay) \<noteq> sub)"
proof (induction sub hay i rule: find_from.induct)
  case (1 sub hay i)
  show ?case
  proof (cases "take (length sub) (drop i hay) = sub")
    case True
    with 1 show ?thesis by (auto simp: find_from.simps [of sub hay i] split: if_splits)
  next
    case False
    with 1 have fit: "\<not> length hay < i + length sub" and rec: "find_from sub hay (Suc i) = Some j"
      by (auto simp: find_from.simps [of sub hay i] split: if_splits)
    note ih = "1.IH" [OF fit False rec]
    moreover have "take (length sub) (drop k hay) \<noteq> sub" if "i \<le> k" "k < j" for k
      using ih False that by (cases "k = i") auto
    ultimately show ?thesis by auto
  qed
qed

lemma find_from_None:
  "find_from sub hay i = None \<Longrightarrow> i \<le> k \<Longrightarrow> k + length sub \<le> length hay \<Longrightarrow>
     take (length sub) (drop k hay) \<noteq> sub"
proof (induction sub hay i rule: find_from.induct)
  case (1 sub hay i)
  show ?case
  proof (cases "take (length sub) (drop i hay) = sub")
    case True
    with 1 show ?thesis by (auto simp: find_from.simps [of sub hay i] split: if_splits)
  next
    case False
    with 1 show ?thesis
      by (cases "k = i") (auto simp: find_from.simps [of sub hay i] split: if_splits)
  qed
qed

lemma contains_iff_sublist: "contains sub hay \<longleftrightarrow> (\<exists>xs ys. hay = xs @ sub @ ys)"
proof
  assume "contains sub hay"
  then obtain j where "find_from sub hay 0 = Some j" by (auto simp: contains_def)
  from find_from_Some [OF this] have "take (length sub) (drop j hay) = sub" by simp
  then have "hay = take j hay @ sub @ drop (length sub) (drop j hay)"
    by (metis append_take_drop_id)
  then show "\<exists>xs ys. hay = xs @ sub @ ys" by blast
next
  assume "\<exists>xs ys. hay = xs @ sub @ ys"
  then obtain xs ys where "hay = xs @ sub @ ys" by blast
  then have "take (length sub) (drop (length xs) hay) = sub"
    "length xs + length sub \<le> length hay" by simp_all
  then show "contains sub hay"
    using find_from_None [of sub hay 0 "length xs"] by (auto simp: contains_def)
qed

fun split_on :: "'a \<Rightarrow> 'a list \<Rightarrow> 'a list list" where
  \<comment> \<open>Python \<open>xs.split(c)\<close> for a one-character separator\<close>
  "split_on c [] = [[]]"
| "split_on c (x # xs) =
     (if x = c then [] # split_on c xs
      else (case split_on c xs of [] \<Rightarrow> [[x]] | p # ps \<Rightarrow> (x # p) # ps))"

lemma split_on_nonempty [simp]: "split_on c xs \<noteq> []"
  by (induction xs) (auto split: list.splits)

section \<open>Character classes of code points\<close>

definition is_digit :: "nat \<Rightarrow> bool" where "is_digit c \<longleftrightarrow> 48 \<le> c \<and> c \<le> 57"
definition is_upper :: "nat \<Rightarrow> bool" where "is_upper c \<longleftrightarrow> 65 \<le> c \<and> c \<le> 90"
definition is_lower :: "nat \<Rightarrow> bool" where "is_lower c \<longleftrightarrow> 97 \<le> c \<and> c \<le> 122"
definition is_alpha :: "nat \<Rightarrow> bool" where "is_alpha c \<longleftrightarrow> is_upper c \<or> is_lower c"
definition is_alnum :: "nat \<Rightarrow> bool" where "is_alnum c \<longleftrightarrow> is_digit c \<or> is_alpha c"

definition is_space :: "nat \<Rightarrow> bool" where
  \<comment> \<open>exactly the code points for which \<open>str.isspace\<close> holds\<close>
  "is_space c \<longleftrightarrow> (9 \<le> c \<and> c \<le> 13) \<or> (28 \<le> c \<and> c \<le> 32) \<or> c = 133 \<or> c = 160 \<or> c = 5760
     \<or> (8192 \<le> c \<and> c \<le> 8202) \<or> c = 8232 \<or> c = 8233 \<or> c = 8239 \<or> c = 8287 \<or> c = 12288"

definition to_lower :: "nat \<Rightarrow> nat" where
  "to_lower c = (if is_upper c then c + 32 else c)"

definition to_upper :: "nat \<Rightarrow> nat" where
  "to_upper c = (if is_lower c then c - 32 else c)"

definition digit_val :: "nat \<Rightarrow> nat" where "digit_val c = c - 48"

lemmas char_defs = is_digit_def is_upper_def is_lower_def is_alpha_def is_alnum_def is_space_def
  to_lower_def to_upper_def digit_val_def

definition lstrip :: "pystr \<Rightarrow> pystr" where "lstrip s = dropWhile is_space s"
definition strip :: "pystr \<Rightarrow> pystr" where "strip s = rev (lstrip (rev (lstrip s)))"

lemma is_upper_to_lower [simp]: "\<not> is_upper (to_lower c)"
  by (auto simp: char_defs)

lemma to_lower_idem [simp]: "to_lower (to_lower c) = to_lower c"
  by (auto simp: char_defs)

lemma to_upper_idem [simp]: "to_upper (to_upper c) = to_upper c"
  by (auto simp: char_defs)

lemma dropWhile_idem [simp]: "dropWhile P (dropWhile P xs) = dropWhile P xs"
  by (induction xs) auto

lemma strip_hd: "strip s \<noteq> [] \<Longrightarrow> \<not> is_space (last (strip s))"
  unfolding strip_def lstrip_def by (metis hd_dropWhile last_rev rev_is_Nil_conv)

section \<open>Results that may be an error\<close>

definition rbind :: "'e + 'a \<Rightarrow> ('a \<Rightarrow> 'e + 'b) \<Rightarrow> 'e + 'b" where
  "rbind r f = (case r of Inl e \<Rightarrow> Inl e | Inr a \<Rightarrow> f a)"

lemma rbind_simps [simp]: "rbind (Inl e) f = Inl e" "rbind (Inr a) f = f a"
  by (simp_all add: rbind_def)

lemma rbind_Inr_iff: "rbind r f = Inr b \<longleftrightarrow> (\<exists>a. r = Inr a \<and> f a = Inr b)"
  by (cases r) auto

lemma rbind_Inl_iff: "rbind r f = Inl e \<longleftrightarrow> r = Inl e \<or> (\<exists>a. r = Inr a \<and> f a = Inl e)"
  by (cases r) auto

lemma rbind_InrE:
  assumes "rbind r f = Inr b"
  obtains a where "r = Inr a" "f a = Inr b"
  using assms by (auto simp: rbind_Inr_iff)

fun rmap :: "('a \<Rightarrow> 'e + 'b) \<Rightarrow> 'a list \<Rightarrow> 'e + 'b list" where
  \<comment> \<open>a loop that raises at the first failing element\<close>
  "rmap f [] = Inr []"
| "rmap f (x # xs) = rbind (f x) (\<lambda>y. rbind (rmap f xs) (\<lambda>ys. Inr (y # ys)))"

lemma rmap_Inr: "rmap f xs = Inr ys \<Longrightarrow> list_all2 (\<lambda>x y. f x = Inr y) xs ys"
  by (induction xs arbitrary: ys) (auto simp: rbind_Inr_iff)

lemma isl_Inl_iff: "isl r \<longleftrightarrow> (\<exists>e. r = Inl e)"
  by (cases r) auto

section \<open>Insertion-ordered dictionaries\<close>

text \<open>
  A Python \<open>dict\<close> whose order the code observes is an association list; \<open>d[k] = v\<close> is
  \<open>AList.update\<close>, which keeps the position of an existing key and appends a new one.
\<close>

lemma map_of_update [simp]: "map_of (AList.update k v al) k' = (if k' = k then Some v else map_of al k')"
  by (simp add: update_conv')

section \<open>Lists\<close>

lemma find_Some_hd: "find P xs = Some x \<Longrightarrow> P x \<and> x \<in> set xs"
  by (auto simp: find_Some_iff in_set_conv_nth)

lemma last_index_filter:
  assumes "filter P xs \<noteq> []"
  shows "last (filter P xs) \<in> set xs \<and> P (last (filter P xs))"
  using last_in_set [OF assms] by auto

lemma foldl_max_ge:
  fixes acc :: "'a :: linorder"
  shows "acc \<le> foldl max acc xs \<and> (\<forall>x \<in> set xs. x \<le> foldl max acc xs)"
  by (induction xs arbitrary: acc) (auto simp: max.coboundedI1 max.coboundedI2 dest: max.boundedE)

end
