(* ===== verification/JsonValue.thy ===== *)
theory JsonValue
  imports ZtPrelude "HOL-Library.Char_ord" "HOL-Library.List_Lexorder"
begin

text \<open>
  JSON values and \<open>canonical_json\<close>, the one serialisation both ledgers hash
  (\<^verbatim>\<open>gateway/ledger/chain.py\<close> and \<^verbatim>\<open>Control-DB/zerotrace/ledger/chain.py\<close>): keys sorted, no
  whitespace, \<open>ensure_ascii=False\<close>, UTF-8. A string of a record is represented here by its UTF-8
  bytes, so \<open>char\<close> is a byte and the output is the byte string that is hashed; byte order and code
  point order agree on UTF-8, so the key order is Python's. A float is its \<open>repr\<close> text. The main
  lemma says the serialisation is injective up to the order of keys.
\<close>

section \<open>Values\<close>

datatype json =
    JNull | JBool bool | JInt int | JFloat string | JStr string
  | JList "json list" | JObj "(string \<times> json) list"

fun jget :: "string \<Rightarrow> json \<Rightarrow> json" where
  \<comment> \<open>\<open>payload.get(k)\<close>, with \<open>JNull\<close> for Python's \<open>None\<close>\<close>
  "jget k (JObj kvs) = (case map_of kvs k of Some v \<Rightarrow> v | None \<Rightarrow> JNull)"
| "jget k _ = JNull"

section \<open>Printing\<close>

definition dec_digit :: "nat \<Rightarrow> char" where
  "dec_digit d = ''0123456789'' ! d"

fun pr_nat :: "nat \<Rightarrow> string" where
  "pr_nat n = (if n < 10 then [dec_digit n] else pr_nat (n div 10) @ [dec_digit (n mod 10)])"

declare pr_nat.simps [simp del]

definition pr_int :: "int \<Rightarrow> string" where
  "pr_int i = (if i < 0 then CHR ''-'' # pr_nat (nat (- i)) else pr_nat (nat i))"

definition hex_digit :: "nat \<Rightarrow> char" where
  "hex_digit d = ''0123456789abcdef'' ! d"

definition esc_byte :: "char \<Rightarrow> string" where
  \<comment> \<open>\<open>json.dumps\<close> escapes the quote, the backslash and the control characters\<close>
  "esc_byte c = (let n = (of_char c :: nat) in
     if n = 34 then [CHR 0x5C, CHR 0x22]
     else if n = 92 then [CHR 0x5C, CHR 0x5C]
     else if n = 10 then [CHR 0x5C, CHR ''n'']
     else if n = 13 then [CHR 0x5C, CHR ''r'']
     else if n = 9 then [CHR 0x5C, CHR ''t'']
     else if n = 8 then [CHR 0x5C, CHR ''b'']
     else if n = 12 then [CHR 0x5C, CHR ''f'']
     else if n < 32 then [CHR 0x5C, CHR ''u'', CHR ''0'', CHR ''0'', hex_digit (n div 16), hex_digit (n mod 16)]
     else [c])"

definition pr_str :: "string \<Rightarrow> string" where
  "pr_str s = CHR 0x22 # concat (map esc_byte s) @ [CHR 0x22]"

fun pr_json :: "json \<Rightarrow> string" and pr_items :: "json list \<Rightarrow> string"
  and pr_fields :: "(string \<times> json) list \<Rightarrow> string" where
  "pr_json JNull = ''null''"
| "pr_json (JBool b) = (if b then ''true'' else ''false'')"
| "pr_json (JInt i) = pr_int i"
| "pr_json (JFloat s) = s"
| "pr_json (JStr s) = pr_str s"
| "pr_json (JList js) = CHR ''['' # pr_items js"
| "pr_json (JObj kvs) = CHR ''{'' # pr_fields kvs"
| "pr_items [] = '']''"
| "pr_items (j # js) = pr_json j @ (if js = [] then '']'' else CHR '','' # pr_items js)"
| "pr_fields [] = ''}''"
| "pr_fields ((k, v) # kvs) =
     pr_str k @ CHR '':'' # pr_json v @ (if kvs = [] then ''}'' else CHR '','' # pr_fields kvs)"

fun sort_keys :: "json \<Rightarrow> json" where
  "sort_keys (JList js) = JList (map sort_keys js)"
| "sort_keys (JObj kvs) = JObj (sort_key fst (map (\<lambda>(k, v). (k, sort_keys v)) kvs))"
| "sort_keys j = j"

definition canonical_json :: "json \<Rightarrow> string" where
  "canonical_json j = pr_json (sort_keys j)"

section \<open>Injectivity of printing\<close>

text \<open>
  Printing is uniquely readable: strings end at their closing quote, lists and objects at their
  bracket, and a number ends where a byte that cannot continue a number follows. \<open>stops\<close> says
  that what follows a value cannot be mistaken for more of a number.
\<close>

definition num_byte :: "char \<Rightarrow> bool" where
  "num_byte c \<longleftrightarrow> c \<in> set ''0123456789-+.e''"

fun stops :: "string \<Rightarrow> bool" where
  "stops [] = True"
| "stops (c # cs) = (\<not> num_byte c)"

definition float_text :: "string \<Rightarrow> bool" where
  \<comment> \<open>the shape of a finite float's \<open>repr\<close>: number bytes, and a point or an exponent\<close>
  "float_text s \<longleftrightarrow> (\<forall>c \<in> set s. num_byte c) \<and> (CHR ''.'' \<in> set s \<or> CHR ''e'' \<in> set s)"

fun json_wf :: "json \<Rightarrow> bool" where
  "json_wf (JFloat s) = float_text s"
| "json_wf (JList js) = (\<forall>j \<in> set js. json_wf j)"
| "json_wf (JObj kvs) = (\<forall>kv \<in> set kvs. json_wf (snd kv))"
| "json_wf _ = True"

lemma num_prefix_unique:
  assumes "xs @ x = ys @ y" "\<forall>c \<in> set xs. num_byte c" "\<forall>c \<in> set ys. num_byte c" "stops x" "stops y"
  shows "xs = ys \<and> x = y"
  using assms
proof (induction xs arbitrary: ys)
  case Nil
  then show ?case by (cases ys) auto
next
  case (Cons c cs)
  then show ?case by (cases ys) auto
qed

lemma less_10_cases: "d < 10 \<Longrightarrow> d \<in> {0, 1, 2, 3, 4, 5, 6, 7, 8, 9 :: nat}"
  by auto

lemma dec_digit_facts:
  "d < 10 \<Longrightarrow> num_byte (dec_digit d) \<and> dec_digit d \<notin> set ''.e-'' \<and> of_char (dec_digit d) - 48 = d"
  by (drule less_10_cases) (auto simp: num_byte_def dec_digit_def)

lemma pr_nat_num: "c \<in> set (pr_nat n) \<Longrightarrow> num_byte c \<and> c \<noteq> CHR ''.'' \<and> c \<noteq> CHR ''e'' \<and> c \<noteq> CHR ''-''"
proof (induction n rule: pr_nat.induct)
  case (1 n)
  show ?case
  proof (cases "n < 10")
    case True
    with "1.prems" dec_digit_facts [of n] show ?thesis by (subst (asm) pr_nat.simps) auto
  next
    case False
    with "1.prems" "1.IH" dec_digit_facts [of "n mod 10"] show ?thesis
      by (subst (asm) pr_nat.simps) auto
  qed
qed

fun dec_value :: "string \<Rightarrow> nat" where
  "dec_value s = foldl (\<lambda>a c. 10 * a + (of_char c - 48)) 0 s"

lemma dec_value_pr_nat: "dec_value (pr_nat n) = n"
proof (induction n rule: pr_nat.induct)
  case (1 n)
  show ?case
  proof (cases "n < 10")
    case True
    then show ?thesis by (subst pr_nat.simps) (simp add: dec_digit_facts)
  next
    case False
    with 1 show ?thesis by (subst pr_nat.simps) (simp add: dec_digit_facts)
  qed
qed

lemma pr_nat_inj: "pr_nat m = pr_nat n \<Longrightarrow> m = n"
  by (metis dec_value_pr_nat)

lemma pr_nat_nonempty [simp]: "pr_nat n \<noteq> []"
  by (subst pr_nat.simps) simp

lemma pr_int_num: "c \<in> set (pr_int i) \<Longrightarrow> num_byte c \<and> c \<noteq> CHR ''.'' \<and> c \<noteq> CHR ''e''"
  by (auto simp: pr_int_def num_byte_def [of "CHR ''-''"] dest: pr_nat_num split: if_splits)

lemma pr_int_inj:
  assumes "pr_int i = pr_int j"
  shows "i = j"
proof -
  have minus: "CHR ''-'' # xs \<noteq> pr_nat n" for xs n
    using pr_nat_num [of "CHR ''-''" n] by (metis list.set_intros(1))
  from assms show ?thesis
    by (auto simp: pr_int_def minus minus [symmetric] split: if_splits dest!: pr_nat_inj)
qed

lemma hex_digit_inj:
  assumes "d < 16" "e < 16" "hex_digit d = hex_digit e"
  shows "d = e"
proof -
  have "distinct ''0123456789abcdef''" "length ''0123456789abcdef'' = 16" by simp_all
  with assms show ?thesis unfolding hex_digit_def by (metis nth_eq_iff_index_eq)
qed

lemma esc_byte_hd: "esc_byte c = e # es \<Longrightarrow> e \<noteq> CHR 0x22"
  by (auto simp: esc_byte_def Let_def split: if_splits)

lemma esc_byte_nonempty [simp]: "esc_byte c \<noteq> []"
  by (simp add: esc_byte_def Let_def)

lemma quote_not_esc: "CHR 0x22 # x \<noteq> esc_byte c @ z"
  by (cases "esc_byte c") (auto dest: esc_byte_hd)

text \<open>The second byte of an escape tells the escapes apart.\<close>

definition esc_kind :: "nat \<Rightarrow> char option" where
  "esc_kind n =
     (if n = 34 then Some (CHR 0x22) else if n = 92 then Some (CHR 0x5C) else if n = 10 then Some (CHR ''n'')
      else if n = 13 then Some (CHR ''r'') else if n = 9 then Some (CHR ''t'') else if n = 8 then Some (CHR ''b'')
      else if n = 12 then Some (CHR ''f'') else if n < 32 then Some (CHR ''u'') else None)"

definition esc_rest :: "nat \<Rightarrow> string" where
  "esc_rest n = (if esc_kind n = Some (CHR ''u'') then [CHR ''0'', CHR ''0'', hex_digit (n div 16), hex_digit (n mod 16)] else [])"

lemma esc_byte_alt:
  "esc_byte c = (case esc_kind (of_char c) of None \<Rightarrow> [c] | Some k \<Rightarrow> CHR 0x5C # k # esc_rest (of_char c))"
  by (simp add: esc_byte_def esc_kind_def esc_rest_def Let_def)

lemma esc_kind_None: "esc_kind (of_char c) = None \<Longrightarrow> c \<noteq> CHR 0x5C"
  by (auto simp: esc_kind_def)

lemma esc_kind_u: "esc_kind n = Some (CHR ''u'') \<Longrightarrow> n < 32"
  by (auto simp: esc_kind_def split: if_splits)

lemma esc_kind_other: "esc_kind m = Some k \<Longrightarrow> esc_kind n = Some k \<Longrightarrow> k \<noteq> CHR ''u'' \<Longrightarrow> m = n"
  by (auto simp: esc_kind_def split: if_splits)

lemma esc_byte_unique:
  assumes "esc_byte c @ x = esc_byte d @ y"
  shows "c = d \<and> x = y"
proof -
  have inj: "c = d" if "(of_char c :: nat) = of_char d" using that by simp
  show ?thesis
  proof (cases "esc_kind (of_char c)"; cases "esc_kind (of_char d)")
    fix k l assume k: "esc_kind (of_char c) = Some k" and l: "esc_kind (of_char d) = Some l"
    with assms have kl: "k = l" and rest: "esc_rest (of_char c) @ x = esc_rest (of_char d) @ y"
      by (simp_all add: esc_byte_alt)
    show ?thesis
    proof (cases "k = CHR ''u''")
      case True
      with k l kl have lt: "(of_char c :: nat) < 32" "(of_char d :: nat) < 32" by (auto dest: esc_kind_u)
      from rest True k l kl have "hex_digit (of_char c div 16) = hex_digit (of_char d div 16)"
        "hex_digit (of_char c mod 16) = hex_digit (of_char d mod 16)" "x = y"
        by (simp_all add: esc_rest_def)
      moreover from lt have "(of_char c :: nat) div 16 < 16" "(of_char d :: nat) div 16 < 16" by linarith+
      ultimately have "(of_char c :: nat) div 16 = of_char d div 16" "(of_char c :: nat) mod 16 = of_char d mod 16"
        by (auto intro: hex_digit_inj)
      then have "(of_char c :: nat) = of_char d" by (metis div_mult_mod_eq)
      with inj \<open>x = y\<close> show ?thesis by blast
    next
      case False
      with k l kl have "(of_char c :: nat) = of_char d" by (blast intro: esc_kind_other)
      with inj rest False k l kl show ?thesis by (simp add: esc_rest_def)
    qed
  qed (use assms esc_kind_None [of c] esc_kind_None [of d] in \<open>auto simp: esc_byte_alt\<close>)
qed

lemma pr_str_unique: "pr_str s @ x = pr_str t @ y \<Longrightarrow> s = t \<and> x = y"
proof -
  assume "pr_str s @ x = pr_str t @ y"
  then have "concat (map esc_byte s) @ CHR 0x22 # x = concat (map esc_byte t) @ CHR 0x22 # y"
    by (simp add: pr_str_def)
  then show ?thesis
  proof (induction s arbitrary: t)
    case Nil
    then show ?case by (cases t) (auto simp: quote_not_esc)
  next
    case (Cons c s)
    show ?case
    proof (cases t)
      case Nil
      with Cons.prems show ?thesis by (auto simp: quote_not_esc [symmetric])
    next
      case (Cons d t')
      from Cons.prems have "esc_byte c @ (concat (map esc_byte s) @ CHR 0x22 # x)
          = esc_byte d @ (concat (map esc_byte t') @ CHR 0x22 # y)"
        by (simp add: Cons)
      from esc_byte_unique [OF this] Cons.IH [of t'] show ?thesis by (simp add: Cons)
    qed
  qed
qed

fun lead :: "json \<Rightarrow> nat" where
  \<comment> \<open>what the first byte of a printed value tells\<close>
  "lead JNull = 0" | "lead (JBool True) = 1" | "lead (JBool False) = 2" | "lead (JInt _) = 3"
| "lead (JFloat _) = 3" | "lead (JStr _) = 4" | "lead (JList _) = 5" | "lead (JObj _) = 6"

definition lead_byte :: "char \<Rightarrow> nat" where
  "lead_byte c = (if num_byte c then 3 else if c = CHR ''n'' then 0 else if c = CHR ''t'' then 1
     else if c = CHR ''f'' then 2 else if c = CHR 0x22 then 4 else if c = CHR ''['' then 5
     else if c = CHR ''{'' then 6 else 7)"

lemma pr_int_hd: "\<exists>c cs. pr_int i = c # cs \<and> num_byte c"
proof -
  have "pr_int i \<noteq> []" by (simp add: pr_int_def)
  then obtain c cs where "pr_int i = c # cs" by (cases "pr_int i") auto
  then show ?thesis using pr_int_num [of c i] by auto
qed

lemma num_byte_lead: "num_byte c \<Longrightarrow> lead_byte c = 3"
  by (simp add: lead_byte_def)

lemma lead_bytes [simp]:
  "lead_byte (CHR ''n'') = 0" "lead_byte (CHR ''t'') = 1" "lead_byte (CHR ''f'') = 2"
  "lead_byte (CHR 0x22) = 4" "lead_byte (CHR ''['') = 5" "lead_byte (CHR ''{'') = 6"
  "lead_byte (CHR '']'') = 7" "lead_byte (CHR ''}'') = 7"
  by (simp_all add: lead_byte_def num_byte_def)

lemma pr_json_lead: "json_wf j \<Longrightarrow> \<exists>c cs. pr_json j = c # cs \<and> lead_byte c = lead j"
proof (cases j)
  case (JInt i)
  obtain c cs where "pr_int i = c # cs" "num_byte c" using pr_int_hd by blast
  then show ?thesis by (intro exI [of _ c] exI [of _ cs]) (simp add: JInt num_byte_lead)
next
  case (JFloat s)
  assume "json_wf j"
  then obtain c cs where "s = c # cs" "num_byte c" by (cases s) (auto simp: JFloat float_text_def)
  then show ?thesis by (simp add: JFloat num_byte_lead)
next
  case (JBool b)
  then show ?thesis by (cases b) simp_all
qed (simp_all add: pr_str_def)

lemma number_text:
  assumes "json_wf a" "lead a = 3"
  shows "\<forall>c \<in> set (pr_json a). num_byte c"
  using assms by (cases a rule: lead.cases) (auto simp: float_text_def dest: pr_int_num)

lemma number_text_inj:
  assumes "json_wf a" "json_wf b" "lead a = 3" "lead b = 3" "pr_json a = pr_json b"
  shows "a = b"
proof -
  have mix: "pr_int i \<noteq> s" if "float_text s" for i s
    using that pr_int_num by (auto simp: float_text_def)
  from assms show ?thesis
    by (cases a rule: lead.cases; cases b rule: lead.cases)
      (auto dest: pr_int_inj simp: mix mix [symmetric])
qed

lemma number_unique:
  assumes "json_wf a" "json_wf b" "lead a = 3" "lead b = 3" "stops x" "stops y" "pr_json a @ x = pr_json b @ y"
  shows "a = b \<and> x = y"
proof -
  have "pr_json a = pr_json b \<and> x = y"
    by (rule num_prefix_unique [OF assms(7) number_text number_text assms(5,6)]) (use assms in simp_all)
  with assms number_text_inj show ?thesis by blast
qed

lemma lead_eq:
  assumes "json_wf a" "json_wf b" "pr_json a @ x = pr_json b @ y"
  shows "lead a = lead b"
  using assms pr_json_lead [of a] pr_json_lead [of b] by auto

lemma lead_less_7: "lead j < 7"
  by (cases j rule: lead.cases) auto

lemma stops_sep [simp]: "stops (CHR '','' # x)" "stops (CHR '']'' # x)" "stops (CHR ''}'' # x)"
  by (simp_all add: num_byte_def)

lemma pr_json_unique:
  "json_wf a \<Longrightarrow> json_wf b \<Longrightarrow> stops x \<Longrightarrow> stops y \<Longrightarrow> pr_json a @ x = pr_json b @ y \<Longrightarrow> a = b \<and> x = y"
  "(\<forall>j \<in> set as. json_wf j) \<Longrightarrow> (\<forall>j \<in> set bs. json_wf j) \<Longrightarrow> pr_items as @ x = pr_items bs @ y \<Longrightarrow> as = bs \<and> x = y"
  "(\<forall>f \<in> set fs. json_wf (snd f)) \<Longrightarrow> (\<forall>f \<in> set gs. json_wf (snd f)) \<Longrightarrow> pr_fields fs @ x = pr_fields gs @ y
     \<Longrightarrow> fs = gs \<and> x = y"
proof (induction a and as and fs arbitrary: b x y and bs x y and gs x y rule: pr_json_pr_items_pr_fields.induct)
  case 1
  then show ?case using lead_eq [OF 1(1,2,5)] by (cases b rule: lead.cases) auto
next
  case (2 t)
  then show ?case using lead_eq [OF 2(1,2,5)] by (cases t; cases b rule: lead.cases) auto
next
  case (3 i)
  have "lead (JInt i) = 3" by simp
  moreover have "lead b = 3" using lead_eq [OF 3(1,2,5)] by simp
  ultimately show ?case using number_unique [OF 3(1,2) _ _ 3(3,4,5)] by blast
next
  case (4 s)
  have "lead (JFloat s) = 3" by simp
  moreover have "lead b = 3" using lead_eq [OF 4(1,2,5)] by simp
  ultimately show ?case using number_unique [OF 4(1,2) _ _ 4(3,4,5)] by blast
next
  case (5 s)
  then show ?case using lead_eq [OF 5(1,2,5)] by (cases b rule: lead.cases) (auto dest: pr_str_unique)
next
  case (6 js)
  have "lead b = 5" using lead_eq [OF "6.prems"(1,2,5)] by simp
  then obtain bs where b: "b = JList bs" by (cases b rule: lead.cases) auto
  have "pr_items js @ x = pr_items bs @ y" using "6.prems"(5) by (simp add: b)
  then have "js = bs \<and> x = y" by (rule "6.IH" [rotated 2]) (use "6.prems" b in simp_all)
  then show ?case by (simp add: b)
next
  case (7 kvs)
  have "lead b = 6" using lead_eq [OF "7.prems"(1,2,5)] by simp
  then obtain bs where b: "b = JObj bs" by (cases b rule: lead.cases) auto
  have "pr_fields kvs @ x = pr_fields bs @ y" using "7.prems"(5) by (simp add: b)
  then have "kvs = bs \<and> x = y" by (rule "7.IH" [rotated 2]) (use "7.prems" b in simp_all)
  then show ?case by (simp add: b)
next
  case 8
  then show ?case
  proof (cases bs)
    case (Cons b bs')
    with 8 have "json_wf b" by simp
    then obtain c cs where "pr_json b = c # cs" "lead_byte c = lead b" using pr_json_lead by blast
    with Cons 8 lead_less_7 [of b] show ?thesis by auto
  qed auto
next
  case (9 j js)
  show ?case
  proof (cases bs)
    case Nil
    from "9.prems" have "json_wf j" by simp
    then obtain c cs where "pr_json j = c # cs" "lead_byte c = lead j" using pr_json_lead by blast
    with Nil "9.prems" lead_less_7 [of j] show ?thesis by auto
  next
    case (Cons b bs')
    let ?r = "\<lambda>zs z. (if zs = [] then '']'' else CHR '','' # pr_items zs) @ z"
    have st: "stops (?r zs z)" for zs :: "json list" and z by (simp add: num_byte_def)
    from "9.prems" Cons have "pr_json j @ ?r js x = pr_json b @ ?r bs' y" by simp
    moreover have "json_wf j" "json_wf b" using "9.prems"(1,2) Cons by auto
    ultimately have eq: "j = b \<and> ?r js x = ?r bs' y" using "9.IH"(1) st by blast
    show ?thesis
    proof (cases "js = [] \<or> bs' = []")
      case True
      with eq Cons show ?thesis by (auto split: if_splits)
    next
      case False
      with eq have items: "pr_items js @ x = pr_items bs' @ y" by simp
      have "js = bs' \<and> x = y"
        by (rule "9.IH"(2) [OF _ _ _ items]) (use False "9.prems"(1,2) Cons in simp_all)
      with eq Cons show ?thesis by simp
    qed
  qed
next
  case 10
  then show ?case by (cases gs) (auto simp: pr_str_def)
next
  case (11 k v kvs)
  show ?case
  proof (cases gs)
    case Nil
    with 11 show ?thesis by (auto simp: pr_str_def)
  next
    case (Cons g gs')
    obtain k' v' where g: "g = (k', v')" by fastforce
    let ?r = "\<lambda>zs z. (if zs = [] then ''}'' else CHR '','' # pr_fields zs) @ z"
    have st: "stops (?r zs z)" for zs :: "(string \<times> json) list" and z by (simp add: num_byte_def)
    from "11.prems" Cons g have "pr_str k @ (CHR '':'' # pr_json v @ ?r kvs x) = pr_str k' @ (CHR '':'' # pr_json v' @ ?r gs' y)"
      by simp
    from pr_str_unique [OF this] have k: "k = k'" and "pr_json v @ ?r kvs x = pr_json v' @ ?r gs' y" by simp_all
    moreover have "json_wf v" "json_wf v'" using "11.prems"(1,2) Cons g by auto
    ultimately have eq: "v = v' \<and> ?r kvs x = ?r gs' y" using "11.IH"(1) st by blast
    show ?thesis
    proof (cases "kvs = [] \<or> gs' = []")
      case True
      with eq Cons k g show ?thesis by (auto split: if_splits)
    next
      case False
      with eq have fields: "pr_fields kvs @ x = pr_fields gs' @ y" by simp
      have "kvs = gs' \<and> x = y"
        by (rule "11.IH"(2) [OF _ _ _ fields]) (use False "11.prems"(1,2) Cons in simp_all)
      with eq Cons k g show ?thesis by simp
    qed
  qed
qed

lemma json_wf_sort_keys: "json_wf j \<Longrightarrow> json_wf (sort_keys j)"
  by (induction j rule: sort_keys.induct) (auto simp: split_beta)

theorem canonical_json_inj:
  assumes "json_wf a" "json_wf b" "canonical_json a = canonical_json b"
  shows "sort_keys a = sort_keys b"
  using pr_json_unique(1) [of "sort_keys a" "sort_keys b" "[]" "[]"] assms
  by (simp add: canonical_json_def json_wf_sort_keys)

text \<open>The object both ledgers hash: four fixed keys around the payload.\<close>

lemma sorted_record:
  "sort_keys (JObj [(''tenant_id'', JStr t), (''event_type'', JStr ev), (''payload'', p), (''ts'', JStr ts)])
     = JObj [(''event_type'', JStr ev), (''payload'', sort_keys p), (''tenant_id'', JStr t), (''ts'', JStr ts)]"
  by (simp add: sort_key_def less_char_def)

lemma canonical_record_inj:
  assumes "canonical_json (JObj [(''tenant_id'', JStr t), (''event_type'', JStr ev), (''payload'', p), (''ts'', JStr ts)])
      = canonical_json (JObj [(''tenant_id'', JStr t'), (''event_type'', JStr ev'), (''payload'', p'), (''ts'', JStr ts')])"
    and "json_wf p" "json_wf p'"
  shows "t = t' \<and> ev = ev' \<and> ts = ts' \<and> sort_keys p = sort_keys p'"
proof -
  have "sort_keys (JObj [(''tenant_id'', JStr t), (''event_type'', JStr ev), (''payload'', p), (''ts'', JStr ts)])
      = sort_keys (JObj [(''tenant_id'', JStr t'), (''event_type'', JStr ev'), (''payload'', p'), (''ts'', JStr ts')])"
    by (rule canonical_json_inj [OF _ _ assms(1)]) (use assms(2,3) in simp_all)
  then show ?thesis by (simp only: sorted_record json.inject prod.inject list.inject)
qed

end
