(* ===== verification/HashChain.thy ===== *)
theory HashChain
  imports JsonValue
begin

text \<open>
  What the evidence ledgers share: the digest function is a parameter \<open>H\<close> (SHA-256 of the
  standard library, of which only the value on equal inputs is used), digests are byte strings
  written in hexadecimal, and a chain of records is linked by hashing the previous digest with
  the record's canonical bytes. No theorem assumes that \<open>H\<close> is injective: where tampering could
  go unnoticed, the conclusion exhibits the two inputs on which the link function collides.
\<close>

section \<open>Hexadecimal\<close>

definition to_hex :: "string \<Rightarrow> string" where
  \<comment> \<open>\<open>bytes.hex()\<close>\<close>
  "to_hex bs = concat (map (\<lambda>c. [hex_digit (of_char c div 16), hex_digit (of_char c mod 16)]) bs)"

definition hex_value :: "char \<Rightarrow> nat option" where
  "hex_value c =
     (let n = (of_char c :: nat) in
      if 48 \<le> n \<and> n \<le> 57 then Some (n - 48)
      else if 97 \<le> n \<and> n \<le> 102 then Some (n - 87)
      else if 65 \<le> n \<and> n \<le> 70 then Some (n - 55)
      else None)"

fun from_hex :: "string \<Rightarrow> string option" where
  \<comment> \<open>\<open>bytes.fromhex\<close>, \<open>None\<close> for its \<open>ValueError\<close>; the digests never hold whitespace\<close>
  "from_hex [] = Some []"
| "from_hex (a # b # cs) =
     (case (hex_value a, hex_value b, from_hex cs) of
        (Some h, Some l, Some bs) \<Rightarrow> Some (char_of (16 * h + l) # bs)
      | _ \<Rightarrow> None)"
| "from_hex [a] = None"

lemma less_16_cases: "d < 16 \<Longrightarrow> d \<in> {0, 1, 2, 3, 4, 5, 6, 7, 8, 9, 10, 11, 12, 13, 14, 15 :: nat}"
  by (simp only: insert_iff empty_iff) arith

lemma hex_value_digit: "d < 16 \<Longrightarrow> hex_value (hex_digit d) = Some d"
  by (drule less_16_cases) (auto simp: hex_value_def hex_digit_def)

lemma of_char_less: "(of_char c :: nat) < 256"
  by simp

lemma from_hex_to_hex [simp]: "from_hex (to_hex bs) = Some bs"
proof (induction bs)
  case Nil
  then show ?case by (simp add: to_hex_def)
next
  case (Cons c bs)
  have "(of_char c :: nat) div 16 < 16" using of_char_less [of c] by linarith
  with Cons show ?case by (simp add: to_hex_def hex_value_digit)
qed

lemma to_hex_inj: "to_hex a = to_hex b \<Longrightarrow> a = b"
  by (metis from_hex_to_hex option.inject)

lemma to_hex_eq_iff [simp]: "to_hex a = to_hex b \<longleftrightarrow> a = b"
  using to_hex_inj by blast

section \<open>Linked records\<close>

text \<open>
  A record type is described by three selectors: the digest it claims as its predecessor, its
  own digest, and the bytes that are hashed. \<open>link\<close> is \<open>compute_hash\<close> of both ledgers.
\<close>

definition link :: "(string \<Rightarrow> string) \<Rightarrow> string \<Rightarrow> string \<Rightarrow> string" where
  "link H prev_hash rec = H (prev_hash @ rec)"

fun linked :: "(string \<Rightarrow> string) \<Rightarrow> ('r \<Rightarrow> string) \<Rightarrow> ('r \<Rightarrow> string) \<Rightarrow> ('r \<Rightarrow> string) \<Rightarrow> string \<Rightarrow> 'r list \<Rightarrow> bool" where
  "linked H prev_of hash_of body g [] = True"
| "linked H prev_of hash_of body g (r # rs) =
     (prev_of r = g \<and> hash_of r = link H g (body r) \<and> linked H prev_of hash_of body (hash_of r) rs)"

definition chain_head :: "('r \<Rightarrow> string) \<Rightarrow> string \<Rightarrow> 'r list \<Rightarrow> string" where
  "chain_head hash_of g rs = (if rs = [] then g else hash_of (last rs))"

definition link_inputs :: "('r \<Rightarrow> string) \<Rightarrow> ('r \<Rightarrow> string) \<Rightarrow> 'r list \<Rightarrow> string set" where
  \<comment> \<open>the byte strings a verifier hashes when it walks the records\<close>
  "link_inputs prev_of body rs = (\<lambda>r. prev_of r @ body r) ` set rs"

definition collides :: "(string \<Rightarrow> string) \<Rightarrow> string set \<Rightarrow> string set \<Rightarrow> bool" where
  \<comment> \<open>two different inputs, one in each set, with the same digest\<close>
  "collides H A B \<longleftrightarrow> (\<exists>x \<in> A. \<exists>y \<in> B. x \<noteq> y \<and> H x = H y)"

lemma collides_mono: "collides H A B \<Longrightarrow> A \<subseteq> C \<Longrightarrow> B \<subseteq> D \<Longrightarrow> collides H C D"
  by (auto simp: collides_def)

lemma linked_append:
  "linked H prev_of hash_of body g (rs @ ss) \<longleftrightarrow>
     linked H prev_of hash_of body g rs \<and> linked H prev_of hash_of body (chain_head hash_of g rs) ss"
  by (induction rs arbitrary: g) (auto simp: chain_head_def)

lemma linked_snoc:
  "linked H prev_of hash_of body g (rs @ [r]) \<longleftrightarrow>
     linked H prev_of hash_of body g rs \<and> prev_of r = chain_head hash_of g rs
     \<and> hash_of r = link H (chain_head hash_of g rs) (body r)"
  by (simp add: linked_append)

lemma linked_take: "linked H prev_of hash_of body g rs \<Longrightarrow> linked H prev_of hash_of body g (take n rs)"
  by (metis append_take_drop_id linked_append)

lemma length_chain_head:
  assumes "linked H prev_of hash_of body g rs" "\<And>x. length (H x) = n" "length g = n"
  shows "length (chain_head hash_of g rs) = n"
  using assms by (cases rs rule: rev_cases) (auto simp: chain_head_def linked_snoc link_def)

lemma linked_same_head:
  assumes "linked H prev_of hash_of body g rs" "linked H prev_of hash_of body g ss"
    and "length rs = length ss" "chain_head hash_of g rs = chain_head hash_of g ss"
    and "\<And>x. length (H x) = n" "length g = n"
    and "\<not> collides H (link_inputs prev_of body rs) (link_inputs prev_of body ss)"
  shows "map body rs = map body ss"
  using assms(3,1,2,4,7)
proof (induction rs ss rule: rev_induct2)
  case 1
  then show ?case by simp
next
  case (4 r rs s ss)
  let ?p = "chain_head hash_of g rs" and ?q = "chain_head hash_of g ss"
  have rs: "linked H prev_of hash_of body g rs" "linked H prev_of hash_of body g ss" "length rs = length ss"
    and r: "prev_of r = ?p" "prev_of s = ?q" and eq: "H (?p @ body r) = H (?q @ body s)"
    using 4 by (auto simp: linked_snoc chain_head_def link_def)
  have "\<not> (?p @ body r \<noteq> ?q @ body s)"
    using 4(6) eq r unfolding collides_def link_inputs_def by fastforce
  moreover have "length ?p = length ?q"
    using length_chain_head [OF rs(1) assms(5,6)] length_chain_head [OF rs(2) assms(5,6)] by simp
  ultimately have "?p = ?q \<and> body r = body s" by simp
  moreover have "\<not> collides H (link_inputs prev_of body rs) (link_inputs prev_of body ss)"
    using 4(6) by (auto simp: collides_def link_inputs_def)
  ultimately show ?case using "4.IH" [OF rs(3,1,2)] by simp
qed simp_all

lemma linked_update:
  assumes "linked H prev_of hash_of body g rs" "k < length rs" "linked H prev_of hash_of body g (rs[k := r])"
    and "hash_of r = hash_of (rs ! k)"
    and "\<not> collides H (link_inputs prev_of body rs) (link_inputs prev_of body (rs[k := r]))"
  shows "body r = body (rs ! k)"
proof -
  let ?h = "chain_head hash_of g (take k rs)"
  have split: "rs = take k rs @ rs ! k # drop (Suc k) rs" "rs[k := r] = take k rs @ r # drop (Suc k) rs"
    using assms(2) by (simp_all add: id_take_nth_drop upd_conv_take_nth_drop)
  have old: "prev_of (rs ! k) = ?h" "hash_of (rs ! k) = H (?h @ body (rs ! k))"
    using assms(1) by (subst (asm) split(1), simp add: linked_append link_def)+
  have new: "prev_of r = ?h" "hash_of r = H (?h @ body r)"
    using assms(3) unfolding split(2) by (simp_all add: linked_append link_def)
  have mem: "?h @ body (rs ! k) \<in> link_inputs prev_of body rs"
      "?h @ body r \<in> link_inputs prev_of body (rs[k := r])"
    using imageI [of "rs ! k" "set rs" "\<lambda>r. prev_of r @ body r"] old(1) assms(2)
      imageI [of r "set (rs[k := r])" "\<lambda>r. prev_of r @ body r"] new(1)
    by (simp_all add: link_inputs_def set_update_memI)
  have "H (?h @ body (rs ! k)) = H (?h @ body r)" using old(2) new(2) assms(4) by simp
  with assms(5) mem have "?h @ body (rs ! k) = ?h @ body r" unfolding collides_def by blast
  then show ?thesis by simp
qed

end
