(* ===== verification/LedgerRecords.thy ===== *)
theory LedgerRecords
  imports HashChain
begin

text \<open>
  The record schemas of the control-plane ledger (\<^verbatim>\<open>Control-DB/zerotrace/ledger/records.py\<close>): one
  list of fields per event type, with the field validators the file declares, and \<open>validate\<close>. The
  models are pydantic models; what pydantic itself does with one field, turning a given value into
  one of the declared type or refusing it, is the parameter \<open>co\<close> (its name: coerce). The theorems that
  need it state the documented behaviour as \<open>coerces\<close>: a value that already has the declared type is
  kept, and whatever is produced has the declared type.
\<close>

section \<open>Field types\<close>

datatype ftype = FInt | FStr | FBool | FLit "string list" | FStrList | FOpt ftype

fun has_type :: "ftype \<Rightarrow> json \<Rightarrow> bool" where
  "has_type FInt (JInt _) = True"
| "has_type FStr (JStr _) = True"
| "has_type FBool (JBool _) = True"
| "has_type (FLit ls) (JStr s) = (s \<in> set ls)"
| "has_type FStrList (JList js) = list_all (\<lambda>j. case j of JStr _ \<Rightarrow> True | _ \<Rightarrow> False) js"
| "has_type (FOpt t) j = (j = JNull \<or> has_type t j)"
| "has_type _ _ = False"

type_synonym coercion = "ftype \<Rightarrow> json \<Rightarrow> json option"

definition coerces :: "coercion \<Rightarrow> bool" where
  "coerces co \<longleftrightarrow> (\<forall>t j. has_type t j \<longrightarrow> co t j = Some j) \<and> (\<forall>t j k. co t j = Some k \<longrightarrow> has_type t k)"

definition strict_coercion :: coercion where
  "strict_coercion t j = (if has_type t j then Some j else None)"

lemma strict_coerces: "coerces strict_coercion"
  by (auto simp: coerces_def strict_coercion_def split: if_splits)

section \<open>Models\<close>

type_synonym fields = "(string \<times> json) list"
type_synonym validator = "fields \<Rightarrow> json \<Rightarrow> json option"

record field_spec =
  fs_name :: string
  fs_type :: ftype
  fs_default :: "json option"
  fs_check :: validator \<comment> \<open>given the fields validated so far; \<open>None\<close> is a \<open>ValueError\<close>\<close>

definition no_check :: validator where "no_check data v = Some v"

definition fld :: "string \<Rightarrow> ftype \<Rightarrow> json option \<Rightarrow> validator \<Rightarrow> field_spec" where
  "fld n t d c = \<lparr>fs_name = n, fs_type = t, fs_default = d, fs_check = c\<rparr>"

lemma fld_simps [simp]:
  "fs_name (fld n t d c) = n" "fs_type (fld n t d c) = t" "fs_default (fld n t d c) = d" "fs_check (fld n t d c) = c"
  by (simp_all add: fld_def)

definition hex64 :: "string \<Rightarrow> bool" where
  "hex64 s \<longleftrightarrow> length s = 64 \<and> (\<forall>c \<in> set s. c \<in> set ''0123456789abcdef'')"

definition check_hash :: validator where
  "check_hash data v = (case v of JNull \<Rightarrow> Some v | JStr s \<Rightarrow> if hex64 s then Some v else None | _ \<Rightarrow> Some v)"

definition code_points :: "string \<Rightarrow> nat" where
  \<comment> \<open>\<open>len\<close> of the text whose UTF-8 bytes these are: continuation bytes do not count\<close>
  "code_points s = length (filter (\<lambda>c. \<not> (128 \<le> (of_char c :: nat) \<and> (of_char c :: nat) < 192)) s)"

definition no_free_text :: validator where
  "no_free_text data v =
     (case v of
        JList js \<Rightarrow> if \<exists>j \<in> set js. case j of JStr s \<Rightarrow> code_points s > 200 | _ \<Rightarrow> False then None else Some v
      | _ \<Rightarrow> Some v)"

fun str_of :: "json \<Rightarrow> string" where
  "str_of (JStr s) = s" | "str_of _ = []"

definition sorted_unique :: validator where
  "sorted_unique data v =
     (case v of JList js \<Rightarrow> Some (JList (map JStr (sort (remdups (map str_of js))))) | _ \<Rightarrow> Some v)"

definition must_differ :: validator where
  "must_differ data v = (if map_of data ''chain'' = Some v then None else Some v)"

definition MODE :: ftype where "MODE = FLit [''shadow'', ''enforce'']"
definition DECISION_ACTION :: ftype where
  "DECISION_ACTION = FLit [''allow'', ''warn'', ''tokenize'', ''mask'', ''block'']"
definition APPLIED_ACTION :: ftype where "APPLIED_ACTION = FLit [''allow'', ''warn'', ''mask'', ''block'']"
definition LEG_T :: ftype where "LEG_T = FLit [''outbound'', ''inbound'']"
definition CHAIN_T :: ftype where "CHAIN_T = FLit [''ctl'', ''dp'']"

definition PolicyUpdated :: "field_spec list" where
  "PolicyUpdated =
    [fld ''version'' FInt None no_check,
     fld ''previous_version'' (FOpt FInt) (Some JNull) no_check,
     fld ''published_by'' FStr None no_check,
     fld ''rule_count'' FInt None no_check,
     fld ''content_hash'' FStr None check_hash,
     fld ''diff_summary'' FStrList (Some (JList [])) no_check]"

definition RequestDecided :: "field_spec list" where
  "RequestDecided =
    [fld ''request_id'' FStr None no_check,
     fld ''actor_id'' FStr None no_check,
     fld ''actor_registered'' FBool None no_check,
     fld ''leg'' LEG_T None no_check,
     fld ''decision_action'' DECISION_ACTION None no_check,
     fld ''applied_action'' APPLIED_ACTION None no_check,
     fld ''mode'' MODE None no_check,
     fld ''rule_index'' (FOpt FInt) (Some JNull) no_check,
     fld ''rule_scope'' FStr (Some (JStr ''default'')) no_check,
     fld ''org_policy_version'' FInt None no_check,
     fld ''org_policy_content_hash'' FStr None check_hash,
     fld ''bu_policy_version'' (FOpt FInt) (Some JNull) no_check,
     fld ''bu_policy_content_hash'' (FOpt FStr) (Some JNull) check_hash,
     fld ''exception_applied'' FBool (Some (JBool False)) no_check,
     fld ''finding_classes'' FStrList (Some (JList [])) no_free_text,
     fld ''finding_paths'' FStrList (Some (JList [])) no_free_text,
     fld ''upstream_model'' FStr None no_check,
     fld ''degraded_reasons'' FStrList (Some (JList [])) sorted_unique,
     fld ''truncated'' FBool (Some (JBool False)) no_check]"

definition RequestFailed :: "field_spec list" where
  "RequestFailed =
    [fld ''request_id'' FStr None no_check,
     fld ''stage'' (FLit [''outbound'', ''inbound'', ''upstream'']) None no_check,
     fld ''code'' FStr None no_check,
     fld ''upstream_model'' FStr None no_check,
     fld ''org_policy_version'' FInt None no_check,
     fld ''bu_policy_version'' (FOpt FInt) (Some JNull) no_check]"

definition ChainCrossAnchor :: "field_spec list" where
  "ChainCrossAnchor =
    [fld ''chain'' CHAIN_T None no_check,
     fld ''other_chain'' CHAIN_T None must_differ,
     fld ''other_chain_head_id'' (FOpt FInt) (Some JNull) no_check,
     fld ''other_chain_head_hash'' (FOpt FStr) (Some JNull) check_hash,
     fld ''other_chain_count'' FInt (Some (JInt 0)) no_check]"

definition pget :: "string \<Rightarrow> fields \<Rightarrow> json" where
  \<comment> \<open>\<open>payload.get(k)\<close>; Python's \<open>None\<close> and a JSON null are the same value\<close>
  "pget k p = (case map_of p k of Some v \<Rightarrow> v | None \<Rightarrow> JNull)"

fun int_of :: "json \<Rightarrow> int" where
  "int_of (JInt i) = i" | "int_of _ = 0"

definition head_fields_agree :: "fields \<Rightarrow> bool" where
  "head_fields_agree p \<longleftrightarrow>
     (pget ''other_chain_head_id'' p = JNull) = (pget ''other_chain_head_hash'' p = JNull)
     \<and> \<not> (pget ''other_chain_head_id'' p = JNull \<and> int_of (pget ''other_chain_count'' p) \<noteq> 0)
     \<and> \<not> (pget ''other_chain_head_id'' p \<noteq> JNull \<and> int_of (pget ''other_chain_count'' p) < 1)"

datatype record_error = UnknownEventType string | ValidationFailed string

fun build_model :: "coercion \<Rightarrow> field_spec list \<Rightarrow> fields \<Rightarrow> fields \<Rightarrow> fields option" where
  \<comment> \<open>the fields in declaration order; a default is taken as it is\<close>
  "build_model co [] p data = Some data"
| "build_model co (f # fs) p data =
     (case map_of p (fs_name f) of
        None \<Rightarrow> (case fs_default f of
                   None \<Rightarrow> None
                 | Some d \<Rightarrow> build_model co fs p (data @ [(fs_name f, d)]))
      | Some v \<Rightarrow> (case co (fs_type f) v of
                   None \<Rightarrow> None
                 | Some w \<Rightarrow> (case fs_check f data w of
                     None \<Rightarrow> None
                   | Some x \<Rightarrow> build_model co fs p (data @ [(fs_name f, x)]))))"

definition run_model :: "coercion \<Rightarrow> field_spec list \<Rightarrow> (fields \<Rightarrow> bool) \<Rightarrow> fields \<Rightarrow> fields option" where
  \<comment> \<open>\<open>extra="forbid"\<close>, the fields, then the model validator\<close>
  "run_model co fs post p =
     (if \<exists>k \<in> fst ` set p. k \<notin> fs_name ` set fs then None
      else case build_model co fs p [] of
             None \<Rightarrow> None | Some d \<Rightarrow> if post d then Some d else None)"

definition REGISTRY :: "string \<Rightarrow> (field_spec list \<times> (fields \<Rightarrow> bool)) option" where
  "REGISTRY = map_of
    [(''policy.updated'', (PolicyUpdated, \<lambda>_. True)),
     (''request.decided'', (RequestDecided, \<lambda>_. True)),
     (''request.failed'', (RequestFailed, \<lambda>_. True)),
     (''chain.cross_anchor'', (ChainCrossAnchor, head_fields_agree))]"

definition validate :: "coercion \<Rightarrow> string \<Rightarrow> fields \<Rightarrow> record_error + fields" where
  "validate co event_type payload =
     (case REGISTRY event_type of
        None \<Rightarrow> Inl (UnknownEventType event_type)
      | Some (fs, post) \<Rightarrow>
          (case run_model co fs post payload of
             None \<Rightarrow> Inl (ValidationFailed event_type) | Some p \<Rightarrow> Inr p))"

section \<open>What a validated payload is\<close>

definition spec_ok :: "field_spec \<Rightarrow> bool" where
  \<comment> \<open>the default has the declared type, and the check keeps it\<close>
  "spec_ok f \<longleftrightarrow> (\<forall>d. fs_default f = Some d \<longrightarrow> has_type (fs_type f) d)
     \<and> (\<forall>data v w. has_type (fs_type f) v \<longrightarrow> fs_check f data v = Some w \<longrightarrow> has_type (fs_type f) w)"

lemma build_model_fields:
  assumes "build_model co fs p data = Some d"
  shows "\<exists>d'. d = data @ d' \<and> map fst d' = map fs_name fs"
  using assms
proof (induction fs arbitrary: data)
  case (Cons f fs)
  then show ?case by (fastforce split: option.splits)
qed simp

lemma build_model_Cons:
  assumes "build_model co (f # fs) p data = Some d" "coerces co" "spec_ok f"
  shows "\<exists>x. build_model co fs p (data @ [(fs_name f, x)]) = Some d \<and> has_type (fs_type f) x"
proof (cases "map_of p (fs_name f)")
  case None
  with assms show ?thesis by (cases "fs_default f") (auto simp: spec_ok_def)
next
  case (Some v)
  with assms(1) obtain w x where w: "co (fs_type f) v = Some w" and x: "fs_check f data w = Some x"
    and b: "build_model co fs p (data @ [(fs_name f, x)]) = Some d"
    by (auto split: option.splits)
  from w assms(2) have "has_type (fs_type f) w" unfolding coerces_def by blast
  with x assms(3) have "has_type (fs_type f) x" unfolding spec_ok_def by blast
  with b show ?thesis by blast
qed

lemma build_model_typed:
  assumes "build_model co fs p data = Some (data @ d')" "coerces co" "list_all spec_ok fs"
  shows "list_all2 (\<lambda>f kv. fst kv = fs_name f \<and> has_type (fs_type f) (snd kv)) fs d'"
  using assms(1,3)
proof (induction fs arbitrary: data d')
  case (Cons f fs)
  then obtain x where b: "build_model co fs p (data @ [(fs_name f, x)]) = Some (data @ d')"
    and x: "has_type (fs_type f) x"
    using build_model_Cons [OF Cons.prems(1) assms(2)] by auto
  from build_model_fields [OF b] obtain e where "d' = (fs_name f, x) # e" by auto
  with Cons.IH [of "data @ [(fs_name f, x)]" e] b Cons.prems x show ?case by simp
qed simp

lemma check_keeps:
  "no_check data v = Some w \<Longrightarrow> w = v" "check_hash data v = Some w \<Longrightarrow> w = v"
  "no_free_text data v = Some w \<Longrightarrow> w = v" "must_differ data v = Some w \<Longrightarrow> w = v"
  by (cases v; simp add: no_check_def check_hash_def no_free_text_def must_differ_def split: if_splits)+

lemma sorted_unique_type: "sorted_unique data v = Some w \<Longrightarrow> has_type FStrList v \<Longrightarrow> has_type FStrList w"
  by (cases v) (auto simp: sorted_unique_def list_all_iff)

lemma spec_ok_checks:
  "spec_ok (fld n t None no_check)" "has_type t d \<Longrightarrow> spec_ok (fld n t (Some d) no_check)"
  "spec_ok (fld n t None check_hash)" "has_type t d \<Longrightarrow> spec_ok (fld n t (Some d) check_hash)"
  "has_type t d \<Longrightarrow> spec_ok (fld n t (Some d) no_free_text)"
  "spec_ok (fld n FStrList (Some (JList [])) sorted_unique)"
  "spec_ok (fld n t None must_differ)"
  using sorted_unique_type by (auto simp: spec_ok_def dest: check_keeps)

lemma models_ok:
  "list_all spec_ok PolicyUpdated" "list_all spec_ok RequestDecided" "list_all spec_ok RequestFailed"
  "list_all spec_ok ChainCrossAnchor"
  by (simp_all add: PolicyUpdated_def RequestDecided_def RequestFailed_def ChainCrossAnchor_def spec_ok_checks)

lemma validate_cases:
  assumes "validate co ev p = Inr d"
  shows "\<exists>fs post. REGISTRY ev = Some (fs, post) \<and> build_model co fs p [] = Some d \<and> post d
    \<and> fst ` set p \<subseteq> fs_name ` set fs \<and> list_all spec_ok fs"
proof -
  from assms obtain fs post where r: "REGISTRY ev = Some (fs, post)"
    and b: "build_model co fs p [] = Some d" "post d" "fst ` set p \<subseteq> fs_name ` set fs"
    by (fastforce simp: validate_def run_model_def split: option.splits if_splits)
  from r have "list_all spec_ok fs"
    by (auto simp: REGISTRY_def models_ok split: if_splits)
  with r b show ?thesis by blast
qed

text \<open>A payload that passes \<open>validate\<close> comes back with exactly the fields its event type declares,
  in their order and each once, every value of the declared type: no extra key survives, so no field
  that is not declared can carry text into the ledger.\<close>

theorem validated_payload_shape:
  assumes "validate co ev p = Inr d" "coerces co"
  shows "\<exists>fs post. REGISTRY ev = Some (fs, post) \<and> post d \<and>
    list_all2 (\<lambda>f kv. fst kv = fs_name f \<and> has_type (fs_type f) (snd kv)) fs d"
  using validate_cases [OF assms(1)] build_model_typed [of co _ p "[]" d] assms(2) by fastforce

lemma validated_payload_shape_witness:
  "\<exists>fs post. REGISTRY ''request.failed'' = Some (fs, post) \<and>
    list_all2 (\<lambda>f kv. fst kv = fs_name f \<and> has_type (fs_type f) (snd kv)) fs
      [(''request_id'', JStr ''r1''), (''stage'', JStr ''upstream''), (''code'', JStr ''E''),
       (''upstream_model'', JStr ''m''), (''org_policy_version'', JInt 3), (''bu_policy_version'', JNull)]"
proof -
  have "validate strict_coercion ''request.failed'' [(''stage'', JStr ''upstream''), (''request_id'', JStr ''r1''),
      (''code'', JStr ''E''), (''upstream_model'', JStr ''m''), (''org_policy_version'', JInt 3)]
    = Inr [(''request_id'', JStr ''r1''), (''stage'', JStr ''upstream''), (''code'', JStr ''E''),
       (''upstream_model'', JStr ''m''), (''org_policy_version'', JInt 3), (''bu_policy_version'', JNull)]"
    by code_simp
  from validated_payload_shape [OF this strict_coerces] show ?thesis by blast
qed

end
