(* ===== verification/SpanPaths.thy ===== *)
theory SpanPaths
  imports LedgerRecords
begin

text \<open>
  Addresses inside a payload (\<^verbatim>\<open>Control-DB/zerotrace/spans/paths.py\<close>): the grammar, the printer, and indexing that
  refuses instead of missing. A payload is the JSON value the handler parsed, a dictionary an association list
  in its order. Which bytes spell a decimal digit beyond ASCII is Unicode's and a parameter; no claim uses it.
\<close>

section \<open>The grammar\<close>

datatype segment = SKey string | SIdx nat

datatype path_error =
    SpanPathError
  | TooManyDigits \<comment> \<open>the \<open>ValueError\<close> of \<open>int\<close>\<close>

type_synonym digit_table = "string \<Rightarrow> (nat \<times> nat) option" \<comment> \<open>value, and bytes after the first\<close>

definition name_start :: "char \<Rightarrow> bool" where
  "name_start c \<longleftrightarrow> c \<in> set ''ABCDEFGHIJKLMNOPQRSTUVWXYZabcdefghijklmnopqrstuvwxyz_''"

definition name_char :: "char \<Rightarrow> bool" where
  "name_char c \<longleftrightarrow> name_start c \<or> c \<in> set ''0123456789-''"

definition digit_char :: "char \<Rightarrow> bool" where "digit_char c \<longleftrightarrow> c \<in> set ''0123456789''"

definition digit :: "digit_table \<Rightarrow> string \<Rightarrow> (nat \<times> string) option" where
  "digit ud s =
     (case s of
        [] \<Rightarrow> None
      | c # cs \<Rightarrow>
          if digit_char c then Some (of_char c - 48, cs)
          else if (of_char c :: nat) < 128 then None
          else map_option (\<lambda>(d, n). (d, drop n cs)) (ud s))"

lemma digit_shorter: "digit ud s = Some (d, r) \<Longrightarrow> length r < length s"
  by (auto simp: digit_def split: list.splits if_splits)

function digits :: "digit_table \<Rightarrow> string \<Rightarrow> nat list \<times> string" where
  "digits ud s =
     (case digit ud s of
        None \<Rightarrow> ([], s)
      | Some (d, r) \<Rightarrow> (case digits ud r of (ds, x) \<Rightarrow> (d # ds, x)))"
  by pat_completeness auto
termination by (relation "measure (\<lambda>(ud, s). length s)") (auto dest: digit_shorter)

declare digits.simps [simp del]

lemma digits_shorter: "digits ud s = (ds, r) \<Longrightarrow> length r \<le> length s"
proof (induction ud s arbitrary: ds rule: digits.induct)
  case (1 ud s)
  show ?case
  proof (cases "digit ud s")
    case None
    with "1.prems" show ?thesis by (subst (asm) digits.simps) simp
  next
    case (Some x)
    obtain d q where x: "x = (d, q)" by (cases x)
    with "1.prems" Some obtain es where "digits ud q = (es, r)" by (subst (asm) digits.simps) (auto split: prod.splits)
    with "1.IH" [OF Some [unfolded x] refl] digit_shorter [OF Some [unfolded x]] show ?thesis by fastforce
  qed
qed

definition index :: "digit_table \<Rightarrow> string \<Rightarrow> (nat list \<times> string) option" where
  \<comment> \<open>\<open>\[\d+\]\<close>\<close>
  "index ud s =
     (case s of
        c # cs \<Rightarrow>
          if c = CHR ''['' then
            (case digits ud cs of (ds, r) \<Rightarrow> if ds \<noteq> [] \<and> r \<noteq> [] \<and> hd r = CHR '']'' then Some (ds, tl r) else None)
          else None
      | [] \<Rightarrow> None)"

lemma index_shorter: "index ud s = Some (ds, r) \<Longrightarrow> length r < length s"
  by (auto simp: index_def dest!: digits_shorter split: list.splits if_splits prod.splits)

function indices :: "digit_table \<Rightarrow> string \<Rightarrow> nat list list \<times> string" where
  "indices ud s =
     (case index ud s of
        None \<Rightarrow> ([], s)
      | Some (ds, r) \<Rightarrow> (case indices ud r of (xs, x) \<Rightarrow> (ds # xs, x)))"
  by pat_completeness auto
termination by (relation "measure (\<lambda>(ud, s). length s)") (auto dest: index_shorter)

declare indices.simps [simp del]

definition token :: "digit_table \<Rightarrow> string \<Rightarrow> (string \<times> nat list list) option" where
  \<comment> \<open>\<open>_TOKEN.match\<close>; \<open>$\<close> also matches before a final newline\<close>
  "token ud part =
     (if part = [] \<or> \<not> name_start (hd part) then None
      else case indices ud (dropWhile name_char part) of
        (xs, r) \<Rightarrow> if r = [] \<or> r = [CHR 0x0A] then Some (takeWhile name_char part, xs) else None)"

definition MAX_DIGITS :: nat where "MAX_DIGITS = 4300" \<comment> \<open>of \<open>int\<close>, by default\<close>

definition to_int :: "nat list \<Rightarrow> path_error + nat" where
  "to_int ds = (if MAX_DIGITS < length ds then Inl TooManyDigits else Inr (foldl (\<lambda>n d. 10 * n + d) 0 ds))"

definition part_segments :: "digit_table \<Rightarrow> string \<Rightarrow> path_error + segment list" where
  "part_segments ud part =
     (case token ud part of
        None \<Rightarrow> Inl SpanPathError
      | Some (name, xs) \<Rightarrow> rbind (rmap to_int xs) (\<lambda>ns. Inr (SKey name # map SIdx ns)))"

definition parse :: "digit_table \<Rightarrow> string \<Rightarrow> path_error + segment list" where
  \<comment> \<open>a path of blanks is refused like any other segment that is no token\<close>
  "parse ud path = rbind (rmap (part_segments ud) (split_on CHR ''.'' path)) (\<lambda>ps. Inr (concat ps))"

definition format_segment :: "string \<Rightarrow> segment \<Rightarrow> string" where
  "format_segment out s =
     (case s of
        SIdx i \<Rightarrow> out @ ''['' @ pr_nat i @ '']''
      | SKey k \<Rightarrow> if out \<noteq> [] then out @ ''.'' @ k else k)"

definition format_path :: "segment list \<Rightarrow> string" where
  "format_path segs = foldl format_segment [] segs"

section \<open>Indexing\<close>

fun json_step :: "json \<Rightarrow> segment \<Rightarrow> path_error + json" where
  "json_step (JList js) (SIdx i) = (if i < length js then Inr (js ! i) else Inl SpanPathError)"
| "json_step (JObj kvs) (SKey k) = (case map_of kvs k of Some v \<Rightarrow> Inr v | None \<Rightarrow> Inl SpanPathError)"
| "json_step node s = Inl SpanPathError"

fun get_at :: "json \<Rightarrow> segment list \<Rightarrow> path_error + json" where
  "get_at node [] = Inr node"
| "get_at node (s # segs) = rbind (json_step node s) (\<lambda>child. get_at child segs)"

fun put_child :: "json \<Rightarrow> segment \<Rightarrow> json \<Rightarrow> json" where
  "put_child (JList js) (SIdx i) v = JList (js[i := v])"
| "put_child (JObj kvs) (SKey k) v = JObj (AList.update k v kvs)"
| "put_child node s v = node"

fun set_at :: "json \<Rightarrow> segment list \<Rightarrow> json \<Rightarrow> path_error + json" where
  \<comment> \<open>the payload after the assignment in the node that is reached\<close>
  "set_at node [] v = Inr v"
| "set_at node (s # segs) v = rbind (json_step node s) (\<lambda>child. rbind (set_at child segs v) (\<lambda>x. Inr (put_child node s x)))"

definition get :: "digit_table \<Rightarrow> json \<Rightarrow> string \<Rightarrow> path_error + json" where
  "get ud payload path = rbind (parse ud path) (get_at payload)"

definition set_path :: "digit_table \<Rightarrow> json \<Rightarrow> string \<Rightarrow> json \<Rightarrow> path_error + json" where
  "set_path ud payload path v = rbind (parse ud path) (\<lambda>segs. set_at payload segs v)"

definition exists_path :: "digit_table \<Rightarrow> json \<Rightarrow> string \<Rightarrow> path_error + bool" where
  "exists_path ud payload path =
     (case get ud payload path of Inr _ \<Rightarrow> Inr True | Inl SpanPathError \<Rightarrow> Inr False | Inl e \<Rightarrow> Inl e)"

section \<open>Laws of indexing\<close>

lemma json_step_put:
  assumes "json_step node s = Inr c"
  shows "json_step (put_child node s v) s = Inr v"
  using assms by (cases "(node, s)" rule: json_step.cases) (auto split: if_splits)

lemma json_step_put_other:
  assumes "json_step node s = Inr c" "s \<noteq> u"
  shows "json_step (put_child node s v) u = json_step node u"
  using assms by (cases "(node, s)" rule: json_step.cases; cases u) (auto split: if_splits simp: update_conv')

lemma get_set_same: "set_at node segs v = Inr node' \<Longrightarrow> get_at node' segs = Inr v"
  by (induction segs arbitrary: node node') (auto simp: rbind_Inr_iff json_step_put)

lemma set_at_exists: "(\<exists>x. get_at node segs = Inr x) \<longleftrightarrow> (\<exists>node'. set_at node segs v = Inr node')"
  by (induction segs arbitrary: node) (simp_all add: rbind_Inr_iff, blast)

lemma set_at_keeps:
  assumes "set_at node segs v = Inr node'" "\<not> prefix segs path" "\<not> prefix path segs"
  shows "get_at node' path = get_at node path"
  using assms
proof (induction segs arbitrary: node node' path)
  case (Cons s segs)
  then obtain u rest where path: "path = u # rest" by (cases path) auto
  from Cons.prems(1) obtain child x where x: "json_step node s = Inr child" "set_at child segs v = Inr x" "node' = put_child node s x"
    by (auto simp: rbind_Inr_iff)
  show ?case
  proof (cases "u = s")
    case True
    with Cons.IH [OF x(2), of rest] Cons.prems(2,3) x path json_step_put [OF x(1)] show ?thesis by simp
  next
    case False
    with x path json_step_put_other [OF x(1), of u] show ?thesis by simp
  qed
qed simp

lemma get_at_append: "get_at node (p @ q) = rbind (get_at node p) (\<lambda>x. get_at x q)"
  by (induction p arbitrary: node) (auto simp: rbind_def split: sum.split)

lemma get_below_string: "get_at (JStr s) q = Inr v \<Longrightarrow> q = []"
  by (cases q) auto

section \<open>Printing and parsing\<close>

definition index_text :: "nat \<Rightarrow> string" where "index_text i = ''['' @ pr_nat i @ '']''"

definition part_text :: "string \<times> nat list \<Rightarrow> string" where
  "part_text g = fst g @ concat (map index_text (snd g))"

definition group_segments :: "string \<times> nat list \<Rightarrow> segment list" where
  "group_segments g = SKey (fst g) # map SIdx (snd g)"

definition key_ok :: "string \<Rightarrow> bool" where
  "key_ok k \<longleftrightarrow> k \<noteq> [] \<and> name_start (hd k) \<and> (\<forall>c \<in> set k. name_char c)"

fun printable :: "segment \<Rightarrow> bool" where
  "printable (SKey k) \<longleftrightarrow> key_ok k"
| "printable (SIdx i) \<longleftrightarrow> length (pr_nat i) \<le> MAX_DIGITS"

lemma pr_nat_digits: "c \<in> set (pr_nat n) \<Longrightarrow> digit_char c"
proof (induction n rule: pr_nat.induct)
  case (1 n)
  have "digit_char (dec_digit d)" if "d < 10" for d
    unfolding dec_digit_def digit_char_def by (rule nth_mem) (use that in simp)
  with 1 show ?case by (subst (asm) pr_nat.simps) (auto split: if_splits)
qed

lemma digits_run:
  assumes "\<forall>c \<in> set s. digit_char c"
  shows "digits ud (s @ CHR '']'' # r) = (map (\<lambda>c. of_char c - 48) s, CHR '']'' # r)"
  using assms
proof (induction s)
  case Nil
  show ?case by (subst digits.simps) (simp add: digit_def digit_char_def)
next
  case (Cons c s)
  then show ?case by (subst digits.simps) (simp add: digit_def)
qed

lemma index_index_text: "index ud (index_text i @ r) = Some (map (\<lambda>c. of_char c - 48) (pr_nat i), r)"
  using digits_run [of "pr_nat i" ud r] pr_nat_digits [of _ i] by (simp add: index_def index_text_def)

lemma indices_texts:
  "indices ud (concat (map index_text is)) = (map (\<lambda>i. map (\<lambda>c. of_char c - 48) (pr_nat i)) is, [])"
proof (induction "is")
  case Nil
  show ?case by (subst indices.simps) (simp add: index_def)
next
  case (Cons i "is")
  then show ?case by (subst indices.simps) (simp add: index_index_text)
qed

lemma to_int_digits:
  assumes "length (pr_nat i) \<le> MAX_DIGITS"
  shows "to_int (map (\<lambda>c. of_char c - 48) (pr_nat i)) = Inr i"
  using assms dec_value_pr_nat [of i] by (simp add: to_int_def foldl_map)

lemma to_ints:
  assumes "\<forall>i \<in> set is. length (pr_nat i) \<le> MAX_DIGITS"
  shows "rmap to_int (map (\<lambda>i. map (\<lambda>c. of_char c - 48) (pr_nat i)) is) = Inr is"
  using assms by (induction "is") (simp_all add: to_int_digits)

lemma name_char_bracket: "\<not> name_char (CHR ''['')" "\<not> name_char (CHR ''.'')"
  by (simp_all add: name_char_def name_start_def)

lemma part_segments_text:
  assumes "key_ok (fst g)" "\<forall>i \<in> set (snd g). length (pr_nat i) \<le> MAX_DIGITS"
  shows "part_segments ud (part_text g) = Inr (group_segments g)"
proof -
  obtain k "is" where g: "g = (k, is)" by (cases g)
  have k: "k \<noteq> []" "name_start (hd k)" "\<forall>c \<in> set k. name_char c" using assms(1) g by (simp_all add: key_ok_def)
  let ?r = "concat (map index_text is)"
  have r: "?r = [] \<or> \<not> name_char (hd ?r)" using name_char_bracket by (cases "is") (auto simp: index_text_def)
  then have "dropWhile name_char ?r = ?r" "takeWhile name_char ?r = []"
    by (simp_all only: dropWhile_eq_self_iff takeWhile_eq_Nil_iff)
  with k have "dropWhile name_char (part_text g) = ?r" "takeWhile name_char (part_text g) = k"
    by (simp_all only: part_text_def g fst_conv snd_conv dropWhile_append2 takeWhile_append2 append_Nil2)
  moreover have "part_text g \<noteq> []" "hd (part_text g) = hd k" using k(1) by (simp_all add: part_text_def g)
  ultimately have "token ud (part_text g) = Some (k, map (\<lambda>i. map (\<lambda>c. of_char c - 48) (pr_nat i)) is)"
    using k(2) by (simp add: token_def indices_texts)
  with to_ints [of "is"] assms(2) show ?thesis by (simp add: part_segments_def group_segments_def g)
qed

lemma split_on_joined:
  assumes "c \<notin> set p" "\<forall>q \<in> set ps. c \<notin> set q"
  shows "split_on c (p @ concat (map (Cons c) ps)) = p # ps"
  using assms
proof (induction ps arbitrary: p)
  case Nil
  have "c \<notin> set p \<Longrightarrow> split_on c p = [p]" for p by (induction p) auto
  with Nil show ?case by simp
next
  case (Cons q ps)
  have "c \<notin> set p \<Longrightarrow> split_on c (p @ c # s) = p # split_on c s" for p s by (induction p) auto
  with Cons show ?case by simp
qed

lemma part_text_no_dot:
  assumes "key_ok (fst g)"
  shows "CHR ''.'' \<notin> set (part_text g)"
proof -
  have "CHR ''.'' \<notin> set (fst g)" using assms name_char_bracket(2) by (auto simp: key_ok_def)
  moreover have "CHR ''.'' \<notin> set (index_text i)" for i
    using pr_nat_digits [of "CHR ''.''" i] by (auto simp: index_text_def digit_char_def)
  ultimately show ?thesis by (auto simp: part_text_def)
qed

lemma format_segment_simps [simp]:
  "format_segment out (SIdx i) = out @ index_text i" "format_segment [] (SKey k) = k"
  "out \<noteq> [] \<Longrightarrow> format_segment out (SKey k) = out @ CHR ''.'' # k"
  by (simp_all add: format_segment_def index_text_def)

lemma format_indices: "foldl format_segment out (map SIdx is) = out @ concat (map index_text is)"
  by (induction "is" arbitrary: out) simp_all

lemma format_groups:
  assumes "out \<noteq> []"
  shows "foldl format_segment out (concat (map group_segments gs)) = out @ concat (map (\<lambda>g. CHR ''.'' # part_text g) gs)"
  using assms
proof (induction gs arbitrary: out)
  case (Cons g gs)
  then show ?case by (simp add: group_segments_def format_indices part_text_def)
qed simp

lemma grouped:
  assumes "segs = SKey k # rest"
  shows "\<exists>gs. segs = concat (map group_segments gs) \<and> gs \<noteq> []"
  using assms
proof (induction rest arbitrary: segs k rule: length_induct)
  case (1 rest)
  let ?P = "\<lambda>s. case s of SIdx _ \<Rightarrow> True | _ \<Rightarrow> False"
  let ?here = "takeWhile ?P rest" and ?later = "dropWhile ?P rest"
  have "\<exists>is. takeWhile ?P xs = map SIdx is" for xs
  proof (induction xs)
    case (Cons x xs)
    then obtain "is" where "takeWhile ?P xs = map SIdx is" by blast
    then show ?case by (cases x) (auto intro: exI [of _ "_ # is"])
  qed simp
  then obtain "is" where here: "?here = map SIdx is" by blast
  have eq: "rest = map SIdx is @ ?later" unfolding here [symmetric] by (rule takeWhile_dropWhile_id [symmetric])
  show ?case
  proof (cases ?later)
    case Nil
    with eq have "rest = map SIdx is" by (simp only: append_Nil2)
    then show ?thesis using 1(2) by (intro exI [of _ "[(k, is)]"]) (simp add: group_segments_def)
  next
    case (Cons s later)
    then have "\<not> ?P s" by (simp add: dropWhile_eq_Cons_conv)
    then obtain k' where s: "s = SKey k'" by (cases s) auto
    with eq Cons have eq: "rest = map SIdx is @ SKey k' # later" by (simp only:)
    then have "length later < length rest" by simp
    with 1(1) obtain gs where "SKey k' # later = concat (map group_segments gs)" "gs \<noteq> []" by blast
    then show ?thesis using 1(2) eq by (intro exI [of _ "(k, is) # gs"]) (simp add: group_segments_def [of "(k, is)"])
  qed
qed

lemma parse_format:
  assumes "segs = SKey k # rest" "\<forall>s \<in> set segs. printable s"
  shows "parse ud (format_path segs) = Inr segs"
proof -
  obtain g gs where segs: "segs = concat (map group_segments (g # gs))"
    using grouped [OF assms(1)] by (metis list.exhaust)
  have ok: "key_ok (fst h) \<and> (\<forall>i \<in> set (snd h). length (pr_nat i) \<le> MAX_DIGITS)" if "h \<in> set (g # gs)" for h
  proof -
    from that have "set (group_segments h) \<subseteq> set segs" unfolding segs by auto
    with assms(2) have "\<forall>s \<in> set (group_segments h). printable s" by blast
    then show ?thesis by (simp add: group_segments_def)
  qed
  have ne: "part_text g \<noteq> []" using ok [of g] by (auto simp: part_text_def key_ok_def)
  have "format_path segs = foldl format_segment (part_text g) (concat (map group_segments gs))"
    by (simp add: format_path_def segs group_segments_def format_indices part_text_def)
  then have "format_path segs = part_text g @ concat (map (Cons (CHR ''.'')) (map part_text gs))"
    by (simp add: format_groups [OF ne] comp_def)
  moreover have "\<forall>q \<in> set (map part_text gs). CHR ''.'' \<notin> set q" "CHR ''.'' \<notin> set (part_text g)"
    using ok part_text_no_dot by auto
  ultimately have "split_on (CHR ''.'') (format_path segs) = map part_text (g # gs)"
    using split_on_joined [of "CHR ''.''" "part_text g" "map part_text gs"] by simp
  moreover have "rmap (part_segments ud) (map part_text hs) = Inr (map group_segments hs)" if "set hs \<subseteq> set (g # gs)" for hs
    using that
  proof (induction hs)
    case (Cons h hs)
    with ok [of h] have "part_segments ud (part_text h) = Inr (group_segments h)" by (intro part_segments_text) auto
    with Cons show ?case by simp
  qed simp
  from this [of "g # gs"] have "rmap (part_segments ud) (map part_text (g # gs)) = Inr (map group_segments (g # gs))" by blast
  ultimately show ?thesis by (simp add: parse_def segs)
qed

text \<open>A final newline in a segment is not seen, so two spellings have one address.\<close>

lemma newline_is_ignored: "parse ud (''content'' @ [CHR 0x0A]) = Inr [SKey ''content'']" "parse ud ''content'' = Inr [SKey ''content'']"
  by (simp_all add: parse_def part_segments_def token_def name_start_def name_char_def indices.simps index_def)

end
