(* ===== verification/EntityClasses.thy ===== *)
theory EntityClasses
  imports ZtPrelude
begin

text \<open>
  The closed vocabulary of \<^verbatim>\<open>gateway/contracts/entity_classes.py\<close>: the coarse families, the entity
  classes, the family of each class, the classes that are never tokenised or never enforce
  alone, and \<open>parse_class\<close>, which refuses a name outside the vocabulary.
\<close>

section \<open>Families and classes\<close>

datatype family =
    CREDENTIAL
  | INDIA_ID
  | FINANCIAL
  | CONTACT
  | PERSON_DATA
  | SENSITIVE_CATEGORY
  | LOW_CONFIDENCE
  | COMPOSITE
  | RESERVED

datatype entity_class =
    ANTHROPIC_KEY | OPENAI_KEY | GITHUB_TOKEN | AWS_ACCESS_KEY | AWS_SECRET_KEY
  | GOOGLE_API_KEY | SLACK_TOKEN | STRIPE_KEY | RAZORPAY_KEY | JWT
  | PRIVATE_KEY | SSH_PRIVATE_KEY | DB_URI | GENERIC_SECRET
  | PAN | AADHAAR | GSTIN | IFSC | UPI_VPA
  | VOTER_ID | DL_NUMBER
  | CREDIT_CARD | IBAN | BANK_ACCOUNT
  | EMAIL | PHONE | ADDRESS | PINCODE
  | PERSON | ORG | GPE | DATE_OF_BIRTH | AGE_BAND
  | GENDER
  | SECURITY_FINDING | INCIDENT_REPORT | INFRA_SECRET | SOURCE_CODE_RESTRICTED | CUSTOMER_DATA
  | HR_RECORD | LEGAL_PRIVILEGED | FINANCIAL_RECORD
  | HIGH_ENTROPY_STRING
  | QUASI_IDENTIFIER_SET
  | UNKNOWN

text \<open>The enum in declaration order, and each member's string value (its own name).\<close>

definition all_classes :: "entity_class list" where
  "all_classes = [
     ANTHROPIC_KEY, OPENAI_KEY, GITHUB_TOKEN, AWS_ACCESS_KEY, AWS_SECRET_KEY,
     GOOGLE_API_KEY, SLACK_TOKEN, STRIPE_KEY, RAZORPAY_KEY, JWT,
     PRIVATE_KEY, SSH_PRIVATE_KEY, DB_URI, GENERIC_SECRET,
     PAN, AADHAAR, GSTIN, IFSC, UPI_VPA,
     VOTER_ID, DL_NUMBER,
     CREDIT_CARD, IBAN, BANK_ACCOUNT,
     EMAIL, PHONE, ADDRESS, PINCODE,
     PERSON, ORG, GPE, DATE_OF_BIRTH, AGE_BAND,
     GENDER,
     SECURITY_FINDING, INCIDENT_REPORT, INFRA_SECRET, SOURCE_CODE_RESTRICTED, CUSTOMER_DATA,
     HR_RECORD, LEGAL_PRIVILEGED, FINANCIAL_RECORD,
     HIGH_ENTROPY_STRING,
     QUASI_IDENTIFIER_SET,
     UNKNOWN]"

fun class_value :: "entity_class \<Rightarrow> string" where
    "class_value ANTHROPIC_KEY = ''ANTHROPIC_KEY''"
  | "class_value OPENAI_KEY = ''OPENAI_KEY''"
  | "class_value GITHUB_TOKEN = ''GITHUB_TOKEN''"
  | "class_value AWS_ACCESS_KEY = ''AWS_ACCESS_KEY''"
  | "class_value AWS_SECRET_KEY = ''AWS_SECRET_KEY''"
  | "class_value GOOGLE_API_KEY = ''GOOGLE_API_KEY''"
  | "class_value SLACK_TOKEN = ''SLACK_TOKEN''"
  | "class_value STRIPE_KEY = ''STRIPE_KEY''"
  | "class_value RAZORPAY_KEY = ''RAZORPAY_KEY''"
  | "class_value JWT = ''JWT''"
  | "class_value PRIVATE_KEY = ''PRIVATE_KEY''"
  | "class_value SSH_PRIVATE_KEY = ''SSH_PRIVATE_KEY''"
  | "class_value DB_URI = ''DB_URI''"
  | "class_value GENERIC_SECRET = ''GENERIC_SECRET''"
  | "class_value PAN = ''PAN''"
  | "class_value AADHAAR = ''AADHAAR''"
  | "class_value GSTIN = ''GSTIN''"
  | "class_value IFSC = ''IFSC''"
  | "class_value UPI_VPA = ''UPI_VPA''"
  | "class_value VOTER_ID = ''VOTER_ID''"
  | "class_value DL_NUMBER = ''DL_NUMBER''"
  | "class_value CREDIT_CARD = ''CREDIT_CARD''"
  | "class_value IBAN = ''IBAN''"
  | "class_value BANK_ACCOUNT = ''BANK_ACCOUNT''"
  | "class_value EMAIL = ''EMAIL''"
  | "class_value PHONE = ''PHONE''"
  | "class_value ADDRESS = ''ADDRESS''"
  | "class_value PINCODE = ''PINCODE''"
  | "class_value PERSON = ''PERSON''"
  | "class_value ORG = ''ORG''"
  | "class_value GPE = ''GPE''"
  | "class_value DATE_OF_BIRTH = ''DATE_OF_BIRTH''"
  | "class_value AGE_BAND = ''AGE_BAND''"
  | "class_value GENDER = ''GENDER''"
  | "class_value SECURITY_FINDING = ''SECURITY_FINDING''"
  | "class_value INCIDENT_REPORT = ''INCIDENT_REPORT''"
  | "class_value INFRA_SECRET = ''INFRA_SECRET''"
  | "class_value SOURCE_CODE_RESTRICTED = ''SOURCE_CODE_RESTRICTED''"
  | "class_value CUSTOMER_DATA = ''CUSTOMER_DATA''"
  | "class_value HR_RECORD = ''HR_RECORD''"
  | "class_value LEGAL_PRIVILEGED = ''LEGAL_PRIVILEGED''"
  | "class_value FINANCIAL_RECORD = ''FINANCIAL_RECORD''"
  | "class_value HIGH_ENTROPY_STRING = ''HIGH_ENTROPY_STRING''"
  | "class_value QUASI_IDENTIFIER_SET = ''QUASI_IDENTIFIER_SET''"
  | "class_value UNKNOWN = ''UNKNOWN''"

fun family_value :: "family \<Rightarrow> string" where
    "family_value CREDENTIAL = ''CREDENTIAL''"
  | "family_value INDIA_ID = ''INDIA_ID''"
  | "family_value FINANCIAL = ''FINANCIAL''"
  | "family_value CONTACT = ''CONTACT''"
  | "family_value PERSON_DATA = ''PERSON_DATA''"
  | "family_value SENSITIVE_CATEGORY = ''SENSITIVE_CATEGORY''"
  | "family_value LOW_CONFIDENCE = ''LOW_CONFIDENCE''"
  | "family_value COMPOSITE = ''COMPOSITE''"
  | "family_value RESERVED = ''RESERVED''"

fun FAMILY_OF :: "entity_class \<Rightarrow> family" where
    "FAMILY_OF ANTHROPIC_KEY = CREDENTIAL"
  | "FAMILY_OF OPENAI_KEY = CREDENTIAL"
  | "FAMILY_OF GITHUB_TOKEN = CREDENTIAL"
  | "FAMILY_OF AWS_ACCESS_KEY = CREDENTIAL"
  | "FAMILY_OF AWS_SECRET_KEY = CREDENTIAL"
  | "FAMILY_OF GOOGLE_API_KEY = CREDENTIAL"
  | "FAMILY_OF SLACK_TOKEN = CREDENTIAL"
  | "FAMILY_OF STRIPE_KEY = CREDENTIAL"
  | "FAMILY_OF RAZORPAY_KEY = CREDENTIAL"
  | "FAMILY_OF JWT = CREDENTIAL"
  | "FAMILY_OF PRIVATE_KEY = CREDENTIAL"
  | "FAMILY_OF SSH_PRIVATE_KEY = CREDENTIAL"
  | "FAMILY_OF DB_URI = CREDENTIAL"
  | "FAMILY_OF GENERIC_SECRET = CREDENTIAL"
  | "FAMILY_OF PAN = INDIA_ID"
  | "FAMILY_OF AADHAAR = INDIA_ID"
  | "FAMILY_OF GSTIN = INDIA_ID"
  | "FAMILY_OF IFSC = INDIA_ID"
  | "FAMILY_OF UPI_VPA = INDIA_ID"
  | "FAMILY_OF VOTER_ID = INDIA_ID"
  | "FAMILY_OF DL_NUMBER = INDIA_ID"
  | "FAMILY_OF CREDIT_CARD = FINANCIAL"
  | "FAMILY_OF IBAN = FINANCIAL"
  | "FAMILY_OF BANK_ACCOUNT = FINANCIAL"
  | "FAMILY_OF EMAIL = CONTACT"
  | "FAMILY_OF PHONE = CONTACT"
  | "FAMILY_OF ADDRESS = CONTACT"
  | "FAMILY_OF PINCODE = CONTACT"
  | "FAMILY_OF PERSON = PERSON_DATA"
  | "FAMILY_OF ORG = PERSON_DATA"
  | "FAMILY_OF GPE = PERSON_DATA"
  | "FAMILY_OF DATE_OF_BIRTH = PERSON_DATA"
  | "FAMILY_OF AGE_BAND = PERSON_DATA"
  | "FAMILY_OF GENDER = PERSON_DATA"
  | "FAMILY_OF SECURITY_FINDING = SENSITIVE_CATEGORY"
  | "FAMILY_OF INCIDENT_REPORT = SENSITIVE_CATEGORY"
  | "FAMILY_OF INFRA_SECRET = SENSITIVE_CATEGORY"
  | "FAMILY_OF SOURCE_CODE_RESTRICTED = SENSITIVE_CATEGORY"
  | "FAMILY_OF CUSTOMER_DATA = SENSITIVE_CATEGORY"
  | "FAMILY_OF HR_RECORD = SENSITIVE_CATEGORY"
  | "FAMILY_OF LEGAL_PRIVILEGED = SENSITIVE_CATEGORY"
  | "FAMILY_OF FINANCIAL_RECORD = SENSITIVE_CATEGORY"
  | "FAMILY_OF HIGH_ENTROPY_STRING = LOW_CONFIDENCE"
  | "FAMILY_OF QUASI_IDENTIFIER_SET = COMPOSITE"
  | "FAMILY_OF UNKNOWN = RESERVED"

definition family_of :: "entity_class \<Rightarrow> family" where
  "family_of c = FAMILY_OF c"

definition NEVER_TOKENIZE :: "entity_class set" where
  "NEVER_TOKENIZE = {c. FAMILY_OF c = CREDENTIAL}"

definition NEVER_ENFORCE_ALONE :: "entity_class set" where
  "NEVER_ENFORCE_ALONE = {HIGH_ENTROPY_STRING}"

definition NOT_IN_SKELETON :: "entity_class set" where
  "NOT_IN_SKELETON = {PERSON, ORG, GPE, ADDRESS, QUASI_IDENTIFIER_SET}"

section \<open>Parsing a class name\<close>

datatype vocab_error = UnknownEntityClass string

definition parse_class :: "string \<Rightarrow> vocab_error + entity_class" where
  "parse_class name =
     (case find (\<lambda>c. class_value c = name) all_classes of
        Some c \<Rightarrow> Inr c
      | None \<Rightarrow> Inl (UnknownEntityClass name))"

lemma all_classes_complete [simp]: "c \<in> set all_classes"
  by (cases c) (simp_all add: all_classes_def)

lemma map_class_value_distinct: "distinct (map class_value all_classes)"
  by (simp add: all_classes_def)

lemma class_value_inj: "class_value c = class_value d \<Longrightarrow> c = d"
  using map_class_value_distinct by (auto simp: distinct_map inj_on_def)

lemma parse_class_Inr: "parse_class name = Inr c \<Longrightarrow> class_value c = name"
  by (auto simp: parse_class_def split: option.splits dest: find_Some_hd)

lemma parse_class_value [simp]: "parse_class (class_value c) = Inr c"
proof (cases "find (\<lambda>d. class_value d = class_value c) all_classes")
  case None
  then show ?thesis using all_classes_complete [of c] by (auto simp: find_None_iff)
next
  case (Some d)
  then have "class_value d = class_value c" by (auto dest: find_Some_hd)
  then have "d = c" by (rule class_value_inj)
  with Some show ?thesis by (simp add: parse_class_def)
qed

lemma parse_class_Inl: "parse_class name = Inl e \<longleftrightarrow> name \<notin> range class_value \<and> e = UnknownEntityClass name"
proof (cases "name \<in> range class_value")
  case True
  then obtain c where "name = class_value c" by blast
  then show ?thesis by simp
next
  case False
  then have "find (\<lambda>c. class_value c = name) all_classes = None" by (auto simp: find_None_iff)
  with False show ?thesis by (auto simp: parse_class_def)
qed

lemma never_tokenize_iff: "c \<in> NEVER_TOKENIZE \<longleftrightarrow> family_of c = CREDENTIAL"
  by (simp add: NEVER_TOKENIZE_def family_of_def)

end
