(* ===== verification/Contracts.thy ===== *)
theory Contracts
  imports EntityClasses Complex_Main
begin

text \<open>
  The frozen contract between the tracks, \<^verbatim>\<open>gateway/contracts/types.py\<close>: origins and which of
  them may be rewritten or enforced on, the action lattice, the tiers, and the records that
  travel between the components (\<open>actor\<close>, \<open>finding\<close>, \<open>decision\<close>, \<open>check_result\<close>).
\<close>

section \<open>Legs and origins\<close>

datatype leg = Outbound | Inbound

datatype origin =
    OSystem | OToolDefinition | OUser | OAssistant | OToolCall | OToolResult | OMetadata

definition REDACTABLE_ORIGINS :: "origin set" where
  "REDACTABLE_ORIGINS = {OUser, OAssistant, OToolCall, OToolResult}"

definition SCAN_ONLY_ORIGINS :: "origin set" where
  "SCAN_ONLY_ORIGINS = {OSystem, OToolDefinition}"

definition SKIP_ORIGINS :: "origin set" where
  "SKIP_ORIGINS = {OMetadata}"

lemmas origin_sets = REDACTABLE_ORIGINS_def SCAN_ONLY_ORIGINS_def SKIP_ORIGINS_def

definition may_enforce :: "origin \<Rightarrow> family \<Rightarrow> bool" where
  "may_enforce origin family =
     (if origin \<in> SKIP_ORIGINS then False
      else if origin = OToolDefinition then False
      else if origin \<in> SCAN_ONLY_ORIGINS then family = CREDENTIAL
      else True)"

lemma may_enforce_iff:
  "may_enforce src fam \<longleftrightarrow> src \<in> REDACTABLE_ORIGINS \<or> (src = OSystem \<and> fam = CREDENTIAL)"
  by (cases src) (auto simp: may_enforce_def origin_sets)

section \<open>The action lattice\<close>

datatype action = Allow | Warn | Tokenize | Mask | Block

definition LATTICE :: "action list" where
  "LATTICE = [Allow, Warn, Tokenize, Mask, Block]"

fun index_of :: "'a list \<Rightarrow> 'a \<Rightarrow> nat option" where
  \<comment> \<open>Python \<open>list.index\<close>, with \<open>None\<close> for the \<open>ValueError\<close>\<close>
  "index_of [] a = None"
| "index_of (x # xs) a = (if x = a then Some 0 else map_option Suc (index_of xs a))"

definition rank :: "action \<Rightarrow> nat" where
  "rank a = the (index_of LATTICE a)"

lemma rank_simps [simp]:
  "rank Allow = 0" "rank Warn = 1" "rank Tokenize = 2" "rank Mask = 3" "rank Block = 4"
  by (simp_all add: rank_def LATTICE_def)

lemma rank_inj: "rank a = rank b \<Longrightarrow> a = b"
  by (cases a; cases b) auto

lemma index_of_LATTICE: "index_of LATTICE a = Some (rank a)"
  by (cases a) (simp_all add: LATTICE_def)

definition raised_to :: "action \<Rightarrow> action \<Rightarrow> action" where
  "raised_to self other = (if rank other \<le> rank self then self else other)"

text \<open>The lattice as an instance of the library's order classes: \<open>raised_to\<close> is \<open>max\<close>.\<close>

instantiation action :: linorder
begin

definition less_eq_action :: "action \<Rightarrow> action \<Rightarrow> bool" where
  "a \<le> b \<longleftrightarrow> rank a \<le> rank b"

definition less_action :: "action \<Rightarrow> action \<Rightarrow> bool" where
  "a < b \<longleftrightarrow> rank a < rank b"

instance
  by standard (auto simp: less_eq_action_def less_action_def intro: rank_inj)

end

lemmas action_order = less_eq_action_def less_action_def

lemma raised_to_eq_max: "raised_to a b = max a b"
  by (auto simp: raised_to_def max_def action_order intro: rank_inj)

lemma Allow_least [simp]: "Allow \<le> a"
  by (simp add: action_order)

lemma Block_greatest [simp]: "a \<le> Block"
  by (cases a) (simp_all add: action_order)

section \<open>Tiers and verdicts\<close>

datatype tier = CACHE | DETERMINISTIC | CONTEXT | SEMANTIC

fun tier_int :: "tier \<Rightarrow> nat" where
  "tier_int CACHE = 0" | "tier_int DETERMINISTIC = 1" | "tier_int CONTEXT = 2" | "tier_int SEMANTIC = 3"

instantiation tier :: linorder
begin

definition less_eq_tier :: "tier \<Rightarrow> tier \<Rightarrow> bool" where
  "a \<le> b \<longleftrightarrow> tier_int a \<le> tier_int b"

definition less_tier :: "tier \<Rightarrow> tier \<Rightarrow> bool" where
  "a < b \<longleftrightarrow> tier_int a < tier_int b"

lemma tier_int_inj: "tier_int a = tier_int b \<Longrightarrow> a = b"
  by (cases a; cases b) auto

instance
  by standard (auto simp: less_eq_tier_def less_tier_def intro: tier_int_inj)

end

lemmas tier_order = less_eq_tier_def less_tier_def

fun STAGE_OF :: "tier \<Rightarrow> string" where
  "STAGE_OF CACHE = ''S0''" | "STAGE_OF DETERMINISTIC = ''S0''"
| "STAGE_OF CONTEXT = ''S1''" | "STAGE_OF SEMANTIC = ''S2''"

definition TIER_OF :: "string \<Rightarrow> tier option" where
  "TIER_OF s = map_of [(''S0'', DETERMINISTIC), (''S1'', CONTEXT), (''S2'', SEMANTIC), (''S3'', SEMANTIC)] s"

datatype verdict = GREEN | AMBER | RED

section \<open>Actors, findings, decisions\<close>

datatype channel = ChHttp | ChCli | ChSdk | ChMcp

record actor =
  a_id :: string
  a_tenant_id :: string
  a_role :: string
  a_groups :: "string list"
  a_channel :: channel
  a_session_id :: "string option"

definition is_registered :: "actor \<Rightarrow> bool" where
  "is_registered a \<longleftrightarrow> a_role a \<noteq> ''unregistered''"

record finding =
  f_path :: pystr
  f_start :: nat
  f_end :: nat
  f_class :: entity_class
  f_conf :: rat
  f_leg :: leg
  f_detector_id :: "nat option"
  f_detector :: string
  f_stage :: string
  f_tier :: tier
  f_advisory :: bool

definition f_family :: "finding \<Rightarrow> family" where
  "f_family f = family_of (f_class f)"

datatype finding_error = ConfidenceOutOfRange | BadOffsets | BadEntityClass

text \<open>
  What a detector may pass as \<open>entity_class\<close>: the enum member, or the string value that
  \<open>__post_init__\<close> coerces.
\<close>

datatype class_arg = Member entity_class | ClassName string

definition coerce_class :: "class_arg \<Rightarrow> finding_error + entity_class" where
  "coerce_class c = (case c of
       Member e \<Rightarrow> Inr e
     | ClassName s \<Rightarrow> (case parse_class s of Inr e \<Rightarrow> Inr e | Inl _ \<Rightarrow> Inl BadEntityClass))"

definition sync_stage :: "string \<Rightarrow> tier \<Rightarrow> string \<times> tier" where
  \<comment> \<open>the stage / tier reconciliation of \<open>Finding.__post_init__\<close>\<close>
  "sync_stage stage tier =
     (if stage \<noteq> [] \<and> stage \<noteq> STAGE_OF tier
        then (stage, case TIER_OF stage of Some t \<Rightarrow> t | None \<Rightarrow> tier)
      else if stage = [] then (STAGE_OF tier, tier)
      else (stage, tier))"

definition mk_finding ::
  "pystr \<Rightarrow> int \<Rightarrow> int \<Rightarrow> class_arg \<Rightarrow> rat \<Rightarrow> leg \<Rightarrow> nat option \<Rightarrow> string \<Rightarrow> string \<Rightarrow> tier \<Rightarrow> bool
     \<Rightarrow> finding_error + finding" where
  "mk_finding path start end cls conf leg det_id det stage tier advisory =
     (if \<not> (0 \<le> conf \<and> conf \<le> 1) then Inl ConfidenceOutOfRange
      else if start < 0 \<or> end < start then Inl BadOffsets
      else let (stage', tier') = sync_stage stage tier in
        (case coerce_class cls of Inl e \<Rightarrow> Inl e | Inr c \<Rightarrow>
           Inr \<lparr>f_path = path, f_start = nat start, f_end = nat end, f_class = c, f_conf = conf,
                f_leg = leg, f_detector_id = det_id, f_detector = det, f_stage = stage',
                f_tier = tier', f_advisory = advisory\<rparr>))"

definition finding_wf :: "finding \<Rightarrow> bool" where
  "finding_wf f \<longleftrightarrow> 0 \<le> f_conf f \<and> f_conf f \<le> 1 \<and> f_start f \<le> f_end f \<and> f_stage f \<noteq> []
     \<and> (f_stage f = STAGE_OF (f_tier f) \<or> f_stage f \<notin> range STAGE_OF)"

lemma TIER_OF_STAGE: "TIER_OF s = Some t \<Longrightarrow> s = STAGE_OF t \<or> s = ''S3''"
  by (auto simp: TIER_OF_def split: if_splits)

lemma TIER_OF_None: "TIER_OF s = None \<Longrightarrow> s \<notin> range STAGE_OF"
proof
  assume "TIER_OF s = None" and "s \<in> range STAGE_OF"
  then obtain t where "TIER_OF (STAGE_OF t) = None" by blast
  then show False by (cases t) (simp_all add: TIER_OF_def)
qed

lemma S3_not_stage [simp]: "STAGE_OF t \<noteq> ''S3''"
  by (cases t) simp_all

lemma sync_stage_consistent:
  "sync_stage s t = (s', t') \<Longrightarrow> s' \<noteq> [] \<and> (s' = STAGE_OF t' \<or> s' \<notin> range STAGE_OF)"
proof -
  assume sync: "sync_stage s t = (s', t')"
  show ?thesis
  proof (cases "TIER_OF s")
    case None
    with sync TIER_OF_None show ?thesis
      by (cases t) (auto simp: sync_stage_def split: if_splits)
  next
    case (Some u)
    with sync TIER_OF_STAGE [OF Some] show ?thesis
      by (cases t) (auto simp: sync_stage_def split: if_splits)
  qed
qed

lemma mk_finding_wf:
  "mk_finding path start end cls conf leg det_id det stage tier advisory = Inr f \<Longrightarrow> finding_wf f"
  by (auto simp: mk_finding_def finding_wf_def Let_def split: if_splits sum.splits prod.splits
      dest!: sync_stage_consistent)

record decision =
  d_action :: action
  d_rule_index :: "nat option"
  d_policy_version :: int
  d_exception_applied :: bool
  d_reason :: "string option"

record check_result =
  cr_verdict :: verdict
  cr_confidence :: rat
  cr_tier_reached :: tier
  cr_findings :: "finding list"
  cr_degraded :: "string option"
  cr_cache_hits :: nat
  cr_cache_misses :: nat

definition enforceable_findings :: "check_result \<Rightarrow> finding list" where
  "enforceable_findings r = filter (\<lambda>f. \<not> f_advisory f) (cr_findings r)"

end
