(* ===== verification/PolicySchema.thy ===== *)
theory PolicySchema
  imports Contracts
begin

text \<open>
  The policy model of \<^verbatim>\<open>Control-DB/zerotrace/policy/schema.py\<close> and the control-plane records it
  meets: \<open>Match\<close>, \<open>Clearance\<close>, \<open>Rule\<close>, \<open>Escalation\<close>, \<open>PolicyDraft\<close>, \<open>Policy\<close>, the resolved actor of
  \<^verbatim>\<open>identity/resolve.py\<close> and the finding and decision of \<^verbatim>\<open>spans/model.py\<close>. Parsing YAML into
  these records is PyYAML's and pydantic's work and is a parameter wherever it is used. The
  fields of the control-plane finding that Part A always leaves at their defaults (the vault
  token, the adjudication and console flags, the detector id) are not carried.
\<close>

section \<open>Rules and policies\<close>

record match_spec =
  m_direction :: "leg option"
  m_class :: "string list"
  m_source :: "string list"
  m_destination :: "string list"
  m_composite_risk_gte :: "rat option"

record clearance =
  c_actor_role :: "string list"
  c_actor_group :: "string list"
  c_destination :: "string list"

definition clearance_is_empty :: "clearance \<Rightarrow> bool" where
  "clearance_is_empty b \<longleftrightarrow> \<not> (c_actor_role b \<noteq> [] \<or> c_actor_group b \<noteq> [] \<or> c_destination b \<noteq> [])"

record rule =
  r_match :: match_spec
  r_action :: action
  r_format_preserving :: bool
  r_escalate :: bool
  r_notify :: "string list"
  r_except :: "clearance list"
  r_unless :: "clearance list"
  r_reason :: "string option"

datatype policy_mode = Shadow | Enforce
datatype fail_stance = FailClosed | FailOpen
datatype promotion = PromoteAuto | PromoteApprove

record escalation =
  es_band_lo :: rat
  es_band_hi :: rat
  es_sample_rate :: rat

record policy_draft =
  p_org :: string
  p_business_unit :: "string option"
  p_mode :: policy_mode
  p_default :: action
  p_unregistered_workload :: action
  p_promotion :: promotion
  p_fail :: fail_stance
  p_rules :: "rule list"
  p_escalation :: escalation

definition is_business_unit :: "('a policy_draft_scheme) \<Rightarrow> bool" where
  "is_business_unit d \<longleftrightarrow> p_business_unit d \<noteq> None"

text \<open>A stored policy extends the draft by the server-assigned version.\<close>

record policy = policy_draft +
  p_version :: nat

definition to_policy :: "policy_draft \<Rightarrow> nat \<Rightarrow> policy" where
  "to_policy d v = policy_draft.extend d (policy.fields v)"

lemma to_policy_simps [simp]:
  "p_version (to_policy d v) = v" "p_rules (to_policy d v) = p_rules d"
  "p_org (to_policy d v) = p_org d" "p_default (to_policy d v) = p_default d"
  "p_business_unit (to_policy d v) = p_business_unit d" "p_mode (to_policy d v) = p_mode d"
  "p_unregistered_workload (to_policy d v) = p_unregistered_workload d"
  "p_fail (to_policy d v) = p_fail d" "p_promotion (to_policy d v) = p_promotion d"
  "p_escalation (to_policy d v) = p_escalation d"
  by (simp_all add: to_policy_def policy.defs policy_draft.defs)

section \<open>The resolved actor\<close>

datatype resolution_source = Mtls | Session | InterceptionHeader | UnregisteredSource
datatype actor_scope = ScopeTenant | ScopeOrganisation

record ctl_actor =
  ca_id :: string
  ca_tenant_id :: string
  ca_label :: string
  ca_role :: string
  ca_scope :: actor_scope
  ca_groups :: "string list"
  ca_registered :: bool
  ca_source :: resolution_source
  ca_request_tenant_id :: "string option"

definition request_tenant :: "ctl_actor \<Rightarrow> string" where
  "request_tenant a = (case ca_request_tenant_id a of
       None \<Rightarrow> ca_tenant_id a
     | Some t \<Rightarrow> if t = [] then ca_tenant_id a else t)"

definition is_unregistered :: "ctl_actor \<Rightarrow> bool" where
  "is_unregistered a \<longleftrightarrow> \<not> ca_registered a"

definition in_group :: "ctl_actor \<Rightarrow> string \<Rightarrow> bool" where
  "in_group a name \<longleftrightarrow> name \<in> set (ca_groups a)"

section \<open>Findings and decisions of the control plane\<close>

record ctl_finding =
  cf_class :: string
  cf_path :: string
  cf_leg :: leg
  cf_conf :: rat
  cf_stage :: string
  cf_start :: nat
  cf_end :: nat
  cf_family :: string
  cf_length :: nat

datatype ctl_finding_error = ClassNotInVocabulary | CfConfidence | CfStage | CfOffsets

definition ENTITY_CLASSES :: "string set" where
  "ENTITY_CLASSES = class_value ` set all_classes"

definition is_entity_class :: "string \<Rightarrow> bool" where
  "is_entity_class name \<longleftrightarrow> name \<in> set (map class_value all_classes)"

definition STAGES :: "string list" where
  "STAGES = [''S0'', ''S1'', ''S2'', ''S3'']"

definition family_of_name :: "string \<Rightarrow> ctl_finding_error + string" where
  "family_of_name name = (case parse_class name of
       Inl _ \<Rightarrow> Inl ClassNotInVocabulary | Inr c \<Rightarrow> Inr (family_value (FAMILY_OF c)))"

definition mk_ctl_finding ::
  "string \<Rightarrow> string \<Rightarrow> leg \<Rightarrow> rat \<Rightarrow> string \<Rightarrow> int \<Rightarrow> int \<Rightarrow> ctl_finding_error + ctl_finding" where
  "mk_ctl_finding cls path leg conf stage start end =
     (if \<not> is_entity_class cls then Inl ClassNotInVocabulary
      else if \<not> (0 \<le> conf \<and> conf \<le> 1) then Inl CfConfidence
      else if stage \<notin> set STAGES then Inl CfStage
      else if start < 0 \<or> end < start then Inl CfOffsets
      else rbind (family_of_name cls) (\<lambda>fam.
        Inr \<lparr>cf_class = cls, cf_path = path, cf_leg = leg, cf_conf = conf, cf_stage = stage,
             cf_start = nat start, cf_end = nat end, cf_family = fam,
             cf_length = nat (end - start)\<rparr>))"

lemma is_entity_class_iff: "is_entity_class name \<longleftrightarrow> (\<exists>c. parse_class name = Inr c)"
proof
  assume "is_entity_class name"
  then obtain c where "name = class_value c" by (auto simp: is_entity_class_def)
  then show "\<exists>c. parse_class name = Inr c" by simp
next
  assume "\<exists>c. parse_class name = Inr c"
  then obtain c where "parse_class name = Inr c" by blast
  then have "class_value c = name" by (rule parse_class_Inr)
  then show "is_entity_class name"
    by (auto simp: is_entity_class_def intro: rev_image_eqI [OF all_classes_complete])
qed

datatype rule_scope = ScDefault | ScOrg | ScBu | ScException

datatype trace_step =
    TUnregistered action | TStart action
  | TOrgMatch nat action | TOrgCleared nat clearance action | TOrgNone
  | TBuMatch nat action | TBuCleared nat clearance action | TBuClamped action action action | TBuNone
  | TException string action | TNoException
  | TEscalate bool

record ctl_decision =
  cd_action :: action
  cd_org_policy_version :: nat
  cd_bu_policy_version :: "nat option"
  cd_rule_index :: "nat option"
  cd_rule_scope :: rule_scope
  cd_exception_applied :: bool
  cd_escalate :: bool
  cd_reason :: "string option"
  cd_trace :: "trace_step list"

end
