(* ===== verification/PolicyEngine.thy ===== *)
theory PolicyEngine
  imports PolicySchema
begin

text \<open>
  The policy engine, \<^verbatim>\<open>Control-DB/zerotrace/policy/engine.py\<close>: rule matching, clearance blocks,
  last match wins, the resolution of one finding to one decision (steps 1-6), and the
  publish-time check that a business unit may only raise. \<open>dstate\<close> holds the local variables
  that \<open>decide\<close> updates as it goes.
\<close>

section \<open>Lattice helpers\<close>

definition ctl_rank :: "action \<Rightarrow> nat" where
  "ctl_rank a = the (map_of (zip LATTICE [0..<length LATTICE]) a)"

lemma ctl_rank_eq_rank: "ctl_rank a = rank a"
  by (cases a) (simp_all add: ctl_rank_def LATTICE_def upt_rec)

definition strongest2 :: "action \<Rightarrow> action \<Rightarrow> action" where
  \<comment> \<open>\<open>max([a, b], key=rank)\<close>: the first maximum wins a tie\<close>
  "strongest2 a b = (if ctl_rank a < ctl_rank b then b else a)"

definition strongest :: "action \<Rightarrow> action list \<Rightarrow> action" where
  "strongest a as = foldl strongest2 a as"

definition is_weaker :: "action \<Rightarrow> action \<Rightarrow> bool" where
  "is_weaker candidate flr \<longleftrightarrow> ctl_rank candidate < ctl_rank flr"

lemma strongest2_eq_max: "strongest2 a b = max a b"
  by (auto simp: strongest2_def max_def ctl_rank_eq_rank action_order intro: rank_inj)

lemma is_weaker_iff: "is_weaker a b \<longleftrightarrow> a < b"
  by (simp add: is_weaker_def ctl_rank_eq_rank action_order)

lemma strongest_eq_foldl_max: "strongest a as = foldl max a as"
  unfolding strongest_def by (induction as arbitrary: a) (simp_all add: strongest2_eq_max)

section \<open>Matching\<close>

definition rule_matches :: "rule \<Rightarrow> ctl_finding \<Rightarrow> leg \<Rightarrow> string option \<Rightarrow> bool" where
  "rule_matches rule finding leg destination =
     (let m = r_match rule in
      if (case m_direction m of None \<Rightarrow> False | Some d \<Rightarrow> d \<noteq> leg) then False
      else if m_class m \<noteq> [] \<and> cf_class finding \<notin> set (m_class m) then False
      else if m_destination m \<noteq> [] \<and>
              (case destination of None \<Rightarrow> True | Some d \<Rightarrow> d \<notin> set (m_destination m)) then False
      else True)"

definition clearance_applies :: "clearance \<Rightarrow> ctl_actor \<Rightarrow> string option \<Rightarrow> bool" where
  "clearance_applies block actor destination =
     (if clearance_is_empty block then False
      else if c_actor_group block \<noteq> [] \<and> (\<exists>g \<in> set (c_actor_group block). g \<in> set (ca_groups actor)) then True
      else if c_actor_role block \<noteq> [] \<and> ca_role actor \<in> set (c_actor_role block) then True
      else if c_destination block \<noteq> [] \<and>
              (case destination of None \<Rightarrow> False | Some d \<Rightarrow> d \<in> set (c_destination block)) then True
      else False)"

definition clearance_blocks_for :: "rule \<Rightarrow> leg \<Rightarrow> clearance list" where
  "clearance_blocks_for rule leg = (if leg = Inbound then r_unless rule else r_except rule)"

definition first_clearance :: "rule \<Rightarrow> leg \<Rightarrow> ctl_actor \<Rightarrow> string option \<Rightarrow> clearance option" where
  \<comment> \<open>the \<open>for block in ...: if applies: ...; break\<close> loops of \<open>decide\<close>\<close>
  "first_clearance rule leg actor destination =
     find (\<lambda>b. clearance_applies b actor destination) (clearance_blocks_for rule leg)"

fun last_match_loop ::
  "nat \<Rightarrow> rule list \<Rightarrow> ctl_finding \<Rightarrow> leg \<Rightarrow> string option \<Rightarrow> (nat \<times> rule) option \<Rightarrow> (nat \<times> rule) option" where
  "last_match_loop index [] f leg dst winner = winner"
| "last_match_loop index (rule # rules) f leg dst winner =
     last_match_loop (Suc index) rules f leg dst
       (if rule_matches rule f leg dst then Some (index, rule) else winner)"

definition last_match ::
  "policy option \<Rightarrow> ctl_finding \<Rightarrow> leg \<Rightarrow> string option \<Rightarrow> (nat \<times> rule) option" where
  "last_match policy f leg dst =
     (case policy of None \<Rightarrow> None | Some p \<Rightarrow> last_match_loop 0 (p_rules p) f leg dst None)"

section \<open>The decision\<close>

record dstate =
  ds_action :: action
  ds_rule_index :: "nat option"
  ds_scope :: rule_scope
  ds_reason :: "string option"
  ds_escalate :: bool
  ds_exception :: bool
  ds_trace :: "trace_step list"

definition base_action :: "policy \<Rightarrow> ctl_actor \<Rightarrow> action" where
  "base_action org actor =
     (if is_unregistered actor then p_unregistered_workload org else p_default org)"

definition decide_start :: "policy \<Rightarrow> ctl_actor \<Rightarrow> dstate" where
  "decide_start org actor =
     (let base = base_action org actor in
      \<lparr>ds_action = base, ds_rule_index = None, ds_scope = ScDefault, ds_reason = None,
       ds_escalate = False, ds_exception = False,
       ds_trace = [if is_unregistered actor then TUnregistered base else TStart base]\<rparr>)"

definition decide_org ::
  "policy \<Rightarrow> ctl_actor \<Rightarrow> ctl_finding \<Rightarrow> leg \<Rightarrow> string option \<Rightarrow> dstate \<Rightarrow> dstate" where
  "decide_org org actor f leg dst s =
     (case last_match (Some org) f leg dst of
        None \<Rightarrow> s\<lparr>ds_trace := ds_trace s @ [TOrgNone]\<rparr>
      | Some (i, r) \<Rightarrow>
          let base = base_action org actor;
              s = s\<lparr>ds_action := r_action r, ds_trace := ds_trace s @ [TOrgMatch i (r_action r)]\<rparr>;
              s = (case first_clearance r leg actor dst of
                     None \<Rightarrow> s
                   | Some b \<Rightarrow> s\<lparr>ds_action := base, ds_exception := True,
                                ds_trace := ds_trace s @ [TOrgCleared i b base]\<rparr>);
              s = s\<lparr>ds_rule_index := Some i, ds_scope := ScOrg, ds_reason := r_reason r\<rparr>
          in (if ds_exception s then s else s\<lparr>ds_escalate := ds_escalate s \<or> r_escalate r\<rparr>))"

definition decide_bu ::
  "policy \<Rightarrow> policy option \<Rightarrow> ctl_actor \<Rightarrow> ctl_finding \<Rightarrow> leg \<Rightarrow> string option \<Rightarrow> dstate \<Rightarrow> dstate" where
  "decide_bu org bu actor f leg dst s =
     (if bu = None then s
      else (case last_match bu f leg dst of
        None \<Rightarrow> s\<lparr>ds_trace := ds_trace s @ [TBuNone]\<rparr>
      | Some (j, b) \<Rightarrow>
          let base = base_action org actor;
              s = s\<lparr>ds_trace := ds_trace s @ [TBuMatch j (r_action b)]\<rparr>;
              cl = first_clearance b leg actor dst;
              bu_cleared = (cl \<noteq> None);
              bu_action = (if bu_cleared then base else r_action b);
              s = (case cl of None \<Rightarrow> s
                   | Some blk \<Rightarrow> s\<lparr>ds_exception := True, ds_trace := ds_trace s @ [TBuCleared j blk base]\<rparr>);
              act = ds_action s;
              clamped = strongest2 act bu_action;
              s = (if clamped \<noteq> bu_action
                     then s\<lparr>ds_trace := ds_trace s @ [TBuClamped bu_action act clamped]\<rparr>
                   else if ctl_rank act < ctl_rank bu_action \<or> ds_rule_index s = None
                     then s\<lparr>ds_rule_index := Some j, ds_scope := ScBu, ds_reason := r_reason b,
                            ds_escalate := (if bu_cleared then ds_escalate s else ds_escalate s \<or> r_escalate b)\<rparr>
                   else s)
          in s\<lparr>ds_action := clamped\<rparr>))"

definition decide_exception ::
  "policy \<Rightarrow> ctl_actor \<Rightarrow> ctl_finding \<Rightarrow> string list \<Rightarrow> dstate \<Rightarrow> dstate" where
  "decide_exception org actor f exceptions s =
     (if cf_class f \<in> set exceptions
      then s\<lparr>ds_action := base_action org actor, ds_scope := ScException, ds_exception := True,
             ds_trace := ds_trace s @ [TException (cf_class f) (base_action org actor)]\<rparr>
      else s\<lparr>ds_trace := ds_trace s @ [TNoException]\<rparr>)"

definition decide ::
  "policy \<Rightarrow> ctl_actor \<Rightarrow> ctl_finding \<Rightarrow> leg \<Rightarrow> policy option \<Rightarrow> string option \<Rightarrow> string list \<Rightarrow> ctl_decision" where
  "decide org actor f leg bu dst exceptions =
     (let s = decide_exception org actor f exceptions
                (decide_bu org bu actor f leg dst
                  (decide_org org actor f leg dst (decide_start org actor)))
      in \<lparr>cd_action = ds_action s, cd_org_policy_version = p_version org,
          cd_bu_policy_version = map_option p_version bu, cd_rule_index = ds_rule_index s,
          cd_rule_scope = ds_scope s, cd_exception_applied = ds_exception s,
          cd_escalate = ds_escalate s, cd_reason = ds_reason s,
          cd_trace = ds_trace s @ [TEscalate (ds_escalate s)]\<rparr>)"

definition decide_all ::
  "policy \<Rightarrow> ctl_actor \<Rightarrow> ctl_finding list \<Rightarrow> leg \<Rightarrow> policy option \<Rightarrow> string option \<Rightarrow> string list
     \<Rightarrow> (ctl_finding \<times> ctl_decision) list" where
  "decide_all org actor findings leg bu dst exceptions =
     map (\<lambda>f. (f, decide org actor f leg bu dst exceptions)) findings"

definition overall_action :: "(ctl_finding \<times> ctl_decision) list \<Rightarrow> action \<Rightarrow> action" where
  "overall_action pairs dflt =
     (case pairs of [] \<Rightarrow> dflt
      | p # ps \<Rightarrow> strongest (cd_action (snd p)) (map (\<lambda>q. cd_action (snd q)) ps))"

section \<open>Publish-time validation\<close>

definition matches_overlap :: "match_spec \<Rightarrow> match_spec \<Rightarrow> bool" where
  "matches_overlap a b =
     (if (case (m_direction a, m_direction b) of (Some x, Some y) \<Rightarrow> x \<noteq> y | _ \<Rightarrow> False) then False
      else if m_class a \<noteq> [] \<and> m_class b \<noteq> [] \<and> set (m_class a) \<inter> set (m_class b) = {} then False
      else if m_destination a \<noteq> [] \<and> m_destination b \<noteq> []
              \<and> set (m_destination a) \<inter> set (m_destination b) = {} then False
      else True)"

datatype bu_error = BusinessUnitWeakensOrgRule nat rule

definition org_conflict :: "rule list \<Rightarrow> rule \<Rightarrow> bool" where
  \<comment> \<open>the inner loop: some org rule overlaps and is stricter\<close>
  "org_conflict org_rules b \<longleftrightarrow>
     (\<exists>r \<in> set org_rules. matches_overlap (r_match b) (r_match r) \<and> is_weaker (r_action b) (r_action r))"

fun check_bu_loop :: "nat \<Rightarrow> rule list \<Rightarrow> rule list \<Rightarrow> bu_error + unit" where
  "check_bu_loop j org_rules [] = Inr ()"
| "check_bu_loop j org_rules (b # bs) =
     (if r_unless b \<noteq> [] \<or> r_except b \<noteq> [] then check_bu_loop (Suc j) org_rules bs
      else if org_conflict org_rules b then Inl (BusinessUnitWeakensOrgRule j b)
      else check_bu_loop (Suc j) org_rules bs)"

definition check_bu_may_only_raise :: "policy \<Rightarrow> policy \<Rightarrow> bu_error + unit" where
  "check_bu_may_only_raise org bu = check_bu_loop 0 (p_rules org) (p_rules bu)"

section \<open>Lemmas\<close>

lemma rule_matches_iff:
  "rule_matches r f leg dst \<longleftrightarrow>
     (m_direction (r_match r) = None \<or> m_direction (r_match r) = Some leg)
     \<and> (m_class (r_match r) = [] \<or> cf_class f \<in> set (m_class (r_match r)))
     \<and> (m_destination (r_match r) = [] \<or> (\<exists>d. dst = Some d \<and> d \<in> set (m_destination (r_match r))))"
  by (auto simp: rule_matches_def Let_def split: option.splits)

lemma matches_overlap_iff:
  "matches_overlap a b \<longleftrightarrow>
     (m_direction a = None \<or> m_direction b = None \<or> m_direction a = m_direction b)
     \<and> (m_class a = [] \<or> m_class b = [] \<or> set (m_class a) \<inter> set (m_class b) \<noteq> {})
     \<and> (m_destination a = [] \<or> m_destination b = [] \<or> set (m_destination a) \<inter> set (m_destination b) \<noteq> {})"
  by (simp add: matches_overlap_def split: option.split)

lemma matches_overlap_complete:
  assumes "rule_matches a f leg dst" and "rule_matches b f leg dst"
  shows "matches_overlap (r_match a) (r_match b)"
  unfolding matches_overlap_iff
proof (intro conjI)
  show "m_direction (r_match a) = None \<or> m_direction (r_match b) = None
      \<or> m_direction (r_match a) = m_direction (r_match b)"
    using assms by (auto simp: rule_matches_iff)
  show "m_class (r_match a) = [] \<or> m_class (r_match b) = []
      \<or> set (m_class (r_match a)) \<inter> set (m_class (r_match b)) \<noteq> {}"
    using assms unfolding rule_matches_iff by blast
  show "m_destination (r_match a) = [] \<or> m_destination (r_match b) = []
      \<or> set (m_destination (r_match a)) \<inter> set (m_destination (r_match b)) \<noteq> {}"
    using assms unfolding rule_matches_iff by blast
qed

lemma last_match_loop_Some:
  "last_match_loop k rules f leg dst w = Some (i, r) \<Longrightarrow>
     (\<exists>n < length rules. i = k + n \<and> r = rules ! n \<and> rule_matches r f leg dst
        \<and> (\<forall>m. n < m \<and> m < length rules \<longrightarrow> \<not> rule_matches (rules ! m) f leg dst))
     \<or> (w = Some (i, r) \<and> (\<forall>x \<in> set rules. \<not> rule_matches x f leg dst))"
proof (induction rules arbitrary: k w)
  case Nil
  then show ?case by simp
next
  case (Cons x xs)
  let ?w = "if rule_matches x f leg dst then Some (k, x) else w"
  from Cons.prems have "last_match_loop (Suc k) xs f leg dst ?w = Some (i, r)" by simp
  from Cons.IH [OF this] show ?case
  proof
    assume "\<exists>n<length xs. i = Suc k + n \<and> r = xs ! n \<and> rule_matches r f leg dst
        \<and> (\<forall>m. n < m \<and> m < length xs \<longrightarrow> \<not> rule_matches (xs ! m) f leg dst)"
    then obtain n where "n < length xs" "i = Suc k + n" "r = xs ! n" "rule_matches r f leg dst"
      and later: "\<forall>m. n < m \<and> m < length xs \<longrightarrow> \<not> rule_matches (xs ! m) f leg dst" by blast
    moreover have "\<forall>m. Suc n < m \<and> m < length (x # xs) \<longrightarrow> \<not> rule_matches ((x # xs) ! m) f leg dst"
      using later by (auto simp: nth_Cons split: nat.splits)
    ultimately show ?thesis by (intro disjI1 exI [of _ "Suc n"]) auto
  next
    assume last: "?w = Some (i, r) \<and> (\<forall>y\<in>set xs. \<not> rule_matches y f leg dst)"
    show ?thesis
    proof (cases "rule_matches x f leg dst")
      case True
      with last show ?thesis
        by (intro disjI1 exI [of _ 0]) (auto simp: nth_Cons split: nat.splits)
    next
      case False
      with last show ?thesis by auto
    qed
  qed
qed

lemma last_match_loop_None:
  "last_match_loop k rules f leg dst w = None \<longleftrightarrow>
     w = None \<and> (\<forall>r \<in> set rules. \<not> rule_matches r f leg dst)"
  by (induction rules arbitrary: k w) auto

lemma last_match_Some:
  "last_match (Some p) f leg dst = Some (i, r) \<Longrightarrow>
     i < length (p_rules p) \<and> r = p_rules p ! i \<and> rule_matches r f leg dst
     \<and> (\<forall>m. i < m \<and> m < length (p_rules p) \<longrightarrow> \<not> rule_matches (p_rules p ! m) f leg dst)"
  using last_match_loop_Some [of 0 "p_rules p" f leg dst None i r] by (auto simp: last_match_def)

lemma last_match_None:
  "last_match (Some p) f leg dst = None \<longleftrightarrow> (\<forall>r \<in> set (p_rules p). \<not> rule_matches r f leg dst)"
  by (simp add: last_match_def last_match_loop_None)

text \<open>The action a policy's rules give before any clamping: the specification of steps 1, 2 and 4.\<close>

definition rule_action_for :: "action \<Rightarrow> rule \<Rightarrow> leg \<Rightarrow> ctl_actor \<Rightarrow> string option \<Rightarrow> action" where
  "rule_action_for base r leg actor dst =
     (case first_clearance r leg actor dst of None \<Rightarrow> r_action r | Some _ \<Rightarrow> base)"

lemma rule_action_for_simps [simp]:
  "first_clearance r leg actor dst = None \<Longrightarrow> rule_action_for base r leg actor dst = r_action r"
  "first_clearance r leg actor dst = Some c \<Longrightarrow> rule_action_for base r leg actor dst = base"
  by (simp_all add: rule_action_for_def)

definition layer_action ::
  "action \<Rightarrow> policy option \<Rightarrow> ctl_actor \<Rightarrow> ctl_finding \<Rightarrow> leg \<Rightarrow> string option \<Rightarrow> action option" where
  "layer_action base p actor f leg dst =
     (case last_match p f leg dst of
        None \<Rightarrow> None
      | Some (i, r) \<Rightarrow> Some (rule_action_for base r leg actor dst))"

lemma decide_org_action:
  "ds_action (decide_org org actor f leg dst (decide_start org actor)) =
     (case layer_action (base_action org actor) (Some org) actor f leg dst of
        None \<Rightarrow> base_action org actor | Some a \<Rightarrow> a)"
  by (auto simp: decide_org_def decide_start_def layer_action_def Let_def split: option.splits)

lemma decide_bu_action:
  "ds_action (decide_bu org bu actor f leg dst s) =
     (case layer_action (base_action org actor) bu actor f leg dst of
        None \<Rightarrow> ds_action s | Some a \<Rightarrow> max (ds_action s) a)"
  by (cases bu)
     (auto simp: decide_bu_def layer_action_def Let_def strongest2_eq_max last_match_def
       split: option.splits prod.splits)

lemma decide_action_eq:
  "cd_action (decide org actor f leg bu dst exceptions) =
     (let base = base_action org actor;
          org_act = (case layer_action base (Some org) actor f leg dst of None \<Rightarrow> base | Some a \<Rightarrow> a)
      in if cf_class f \<in> set exceptions then base
         else case layer_action base bu actor f leg dst of None \<Rightarrow> org_act | Some a \<Rightarrow> max org_act a)"
  by (auto simp: decide_def decide_exception_def Let_def decide_bu_action decide_org_action
      split: option.splits)

lemma check_bu_loop_Inr:
  "check_bu_loop j org_rules bs = Inr () \<Longrightarrow> b \<in> set bs \<Longrightarrow> r_unless b = [] \<Longrightarrow> r_except b = [] \<Longrightarrow>
     \<not> org_conflict org_rules b"
  by (induction j org_rules bs rule: check_bu_loop.induct) (auto split: if_splits)

lemma check_bu_loop_Inl:
  "check_bu_loop j org_rules bs = Inl (BusinessUnitWeakensOrgRule k b) \<Longrightarrow>
     j \<le> k \<and> k < j + length bs \<and> b = bs ! (k - j) \<and> r_unless b = [] \<and> r_except b = []
     \<and> org_conflict org_rules b"
  by (induction j org_rules bs rule: check_bu_loop.induct)
     (auto simp: nth_Cons' Suc_diff_Suc split: if_splits)

section \<open>A worked policy pair\<close>

text \<open>The policies and callers the witnesses evaluate on.\<close>

definition any_match :: match_spec where
  "any_match = \<lparr>m_direction = None, m_class = [], m_source = [], m_destination = [], m_composite_risk_gte = None\<rparr>"

definition plain_rule :: "string list \<Rightarrow> action \<Rightarrow> rule" where
  "plain_rule cls a = \<lparr>r_match = any_match\<lparr>m_class := cls\<rparr>, r_action = a, r_format_preserving = False,
     r_escalate = False, r_notify = [], r_except = [], r_unless = [], r_reason = None\<rparr>"

definition group_block :: "string \<Rightarrow> clearance" where
  "group_block g = \<lparr>c_actor_role = [], c_actor_group = [g], c_destination = []\<rparr>"

definition demo_draft :: "rule list \<Rightarrow> policy_draft" where
  "demo_draft rules = \<lparr>p_org = ''acme'', p_business_unit = None, p_mode = Enforce, p_default = Allow,
     p_unregistered_workload = Mask, p_promotion = PromoteAuto, p_fail = FailClosed, p_rules = rules,
     p_escalation = \<lparr>es_band_lo = 35 / 100, es_band_hi = 75 / 100, es_sample_rate = 15 / 100\<rparr>\<rparr>"

definition demo_org :: policy where
  "demo_org = to_policy (demo_draft
     [plain_rule [] Warn, (plain_rule [''HR_RECORD''] Mask)\<lparr>r_unless := [group_block ''hr'']\<rparr>]) 1"

definition demo_bu :: policy where
  "demo_bu = to_policy (demo_draft [plain_rule [''HR_RECORD''] Block]) 1"

definition demo_bu_weak :: policy where
  "demo_bu_weak = to_policy (demo_draft [(plain_rule [''HR_RECORD''] Allow)\<lparr>r_unless := [group_block ''none'']\<rparr>]) 1"

definition demo_actor :: "string list \<Rightarrow> ctl_actor" where
  "demo_actor gs = \<lparr>ca_id = ''a1'', ca_tenant_id = ''acme'', ca_label = ''A'', ca_role = ''engineer'',
     ca_scope = ScopeTenant, ca_groups = gs, ca_registered = True, ca_source = Session,
     ca_request_tenant_id = None\<rparr>"

definition demo_finding :: "string \<Rightarrow> ctl_finding" where
  "demo_finding cls = \<lparr>cf_class = cls, cf_path = ''messages[0].content'', cf_leg = Inbound, cf_conf = 1,
     cf_stage = ''S0'', cf_start = 0, cf_end = 0, cf_family = ''SENSITIVE_CATEGORY'', cf_length = 0\<rparr>"

lemmas demo_defs = demo_org_def demo_bu_def demo_bu_weak_def demo_actor_def demo_finding_def
  demo_draft_def plain_rule_def any_match_def group_block_def

lemma demo_org_match:
  "last_match (Some demo_org) (demo_finding ''HR_RECORD'') Inbound None = Some (1, p_rules demo_org ! 1)"
  by (simp add: last_match_def demo_defs rule_matches_iff)

lemma demo_bu_match:
  "last_match (Some demo_bu) (demo_finding ''HR_RECORD'') Inbound None = Some (0, p_rules demo_bu ! 0)"
  by (simp add: last_match_def demo_defs rule_matches_iff)

section \<open>Properties\<close>

text \<open>What a layer says, from the documented rules alone: which rules are about a finding, whom a rule's blocks clear, and
  that the last rule counts.\<close>

definition about_finding :: "ctl_finding \<Rightarrow> leg \<Rightarrow> string option \<Rightarrow> rule \<Rightarrow> bool" where
  "about_finding f leg dst r \<longleftrightarrow> m_direction (r_match r) \<in> {None, Some leg}
     \<and> (m_class (r_match r) = [] \<or> cf_class f \<in> set (m_class (r_match r)))
     \<and> (m_destination (r_match r) = [] \<or> (\<exists>d. dst = Some d \<and> d \<in> set (m_destination (r_match r))))"

definition cleared_by :: "ctl_actor \<Rightarrow> leg \<Rightarrow> string option \<Rightarrow> rule \<Rightarrow> bool" where
  "cleared_by actor leg dst r \<longleftrightarrow> (\<exists>b \<in> set (if leg = Inbound then r_unless r else r_except r).
     set (c_actor_group b) \<inter> set (ca_groups actor) \<noteq> {} \<or> ca_role actor \<in> set (c_actor_role b)
     \<or> (\<exists>d. dst = Some d \<and> d \<in> set (c_destination b)))"

definition layer_says :: "action \<Rightarrow> policy \<Rightarrow> ctl_actor \<Rightarrow> ctl_finding \<Rightarrow> leg \<Rightarrow> string option \<Rightarrow> action option" where
  "layer_says base p actor f leg dst =
     (let rules = filter (about_finding f leg dst) (p_rules p) in
      if rules = [] then None else Some (if cleared_by actor leg dst (last rules) then base else r_action (last rules)))"

lemma rule_matches_about: "rule_matches r f leg dst \<longleftrightarrow> about_finding f leg dst r"
  by (auto simp: rule_matches_iff about_finding_def)

lemma last_match_loop_last:
  "map_option snd (last_match_loop k rules f leg dst w) =
     (let hits = filter (about_finding f leg dst) rules in if hits = [] then map_option snd w else Some (last hits))"
  by (induction rules arbitrary: k w) (auto simp: Let_def rule_matches_about)

lemma clearance_applies_iff: "clearance_applies b actor dst \<longleftrightarrow>
    set (c_actor_group b) \<inter> set (ca_groups actor) \<noteq> {} \<or> ca_role actor \<in> set (c_actor_role b)
    \<or> (\<exists>d. dst = Some d \<and> d \<in> set (c_destination b))"
proof (cases "clearance_is_empty b")
  case True
  then show ?thesis by (simp add: clearance_applies_def clearance_is_empty_def)
next
  case False
  then show ?thesis by (cases dst) (auto simp: clearance_applies_def)
qed

lemma first_clearance_iff: "first_clearance r leg actor dst \<noteq> None \<longleftrightarrow> cleared_by actor leg dst r"
  unfolding first_clearance_def find_None_iff clearance_applies_iff cleared_by_def clearance_blocks_for_def by blast

lemma layer_action_says: "layer_action base (Some p) actor f leg dst = layer_says base p actor f leg dst"
proof -
  have "layer_action base (Some p) actor f leg dst = map_option (\<lambda>r. rule_action_for base r leg actor dst)
      (map_option snd (last_match (Some p) f leg dst))"
    by (simp add: layer_action_def option.map_comp comp_def split: option.split)
  moreover have "rule_action_for base r leg actor dst = (if cleared_by actor leg dst r then base else r_action r)" for r
    using first_clearance_iff [of r leg actor dst] by (auto simp: rule_action_for_def split: option.split)
  ultimately show ?thesis by (simp add: last_match_def last_match_loop_last layer_says_def Let_def)
qed

text \<open>C30. The action of a decision is exactly what the two rule layers and the exception list determine: an approved
  exception gives the base action, which is the policy's default, or its setting for unregistered callers;
  otherwise the action is the maximum, on the action lattice, of what the organisation's and the business
  unit's rules say, where the last rule about the finding counts, with the base action if one of its blocks
  for this leg clears the actor.\<close>

theorem decide_resolution:
  "cd_action (decide org actor f leg bu dst exceptions) =
     (let base = (if is_unregistered actor then p_unregistered_workload org else p_default org);
          org_act = (case layer_says base org actor f leg dst of None \<Rightarrow> base | Some a \<Rightarrow> a)
      in if cf_class f \<in> set exceptions then base
         else case bu of None \<Rightarrow> org_act
           | Some p \<Rightarrow> (case layer_says base p actor f leg dst of None \<Rightarrow> org_act | Some a \<Rightarrow> max org_act a))"
proof -
  have "layer_action base None actor f leg dst = None" for base by (simp add: layer_action_def last_match_def)
  then show ?thesis
    unfolding decide_action_eq base_action_def [symmetric] Let_def layer_action_says by (cases bu) (simp_all add: layer_action_says)
qed

text \<open>C38. A business unit may raise an action and never lower it: with no approved exception for
  the class, adding a business-unit policy, whatever its rules and clearance blocks, never
  makes the decision weaker than the organisation's own.
\<close>

theorem bu_never_weakens:
  assumes "cf_class f \<notin> set exceptions"
  shows "cd_action (decide org actor f leg None dst exceptions)
           \<le> cd_action (decide org actor f leg (Some bu) dst exceptions)"
proof -
  have "layer_action b None actor f leg dst = None" for b
    by (simp add: layer_action_def last_match_def)
  with assms show ?thesis by (simp add: decide_action_eq Let_def split: option.split)
qed

theorem bu_never_weakens_witness:
  "cd_action (decide demo_org (demo_actor []) (demo_finding ''HR_RECORD'') Inbound None None [])
     \<le> cd_action (decide demo_org (demo_actor []) (demo_finding ''HR_RECORD'') Inbound (Some demo_bu_weak) None [])"
  by (rule bu_never_weakens) simp

lemma decide_org_exception:
  assumes "last_match (Some org) f leg dst = Some (i, r)" and "first_clearance r leg actor dst \<noteq> None"
  shows "ds_exception (decide_org org actor f leg dst s)"
  using assms by (auto simp: decide_org_def Let_def)

lemma decide_bu_exception:
  assumes "last_match (Some bu) f leg dst = Some (j, b)" and "first_clearance b leg actor dst \<noteq> None"
  shows "ds_exception (decide_bu org (Some bu) actor f leg dst s)"
  using assms by (auto simp: decide_bu_def Let_def)

lemma decide_bu_exception_mono: "ds_exception s \<Longrightarrow> ds_exception (decide_bu org bu actor f leg dst s)"
  by (auto simp: decide_bu_def Let_def split: option.splits prod.splits)

lemma cd_exception_iff:
  "cd_exception_applied (decide org actor f leg bu dst exceptions) \<longleftrightarrow>
     cf_class f \<in> set exceptions
     \<or> ds_exception (decide_bu org bu actor f leg dst (decide_org org actor f leg dst (decide_start org actor)))"
  by (simp add: decide_def Let_def decide_exception_def)

text \<open>Lowering leaves a trace: whenever the decided action is weaker than the action of the rule
  that matched last in the org policy, or in the business-unit policy, the decision carries
  \<open>exception_applied\<close>.
\<close>

theorem lowering_is_recorded:
  assumes match: "last_match (Some org) f leg dst = Some (i, r) \<or> (bu \<noteq> None \<and> last_match bu f leg dst = Some (i, r))"
    and lower: "cd_action (decide org actor f leg bu dst exceptions) < r_action r"
  shows "cd_exception_applied (decide org actor f leg bu dst exceptions)"
proof (rule ccontr)
  assume none: "\<not> ?thesis"
  then have noex: "cf_class f \<notin> set exceptions" by (simp add: cd_exception_iff)
  from match show False
  proof
    assume org: "last_match (Some org) f leg dst = Some (i, r)"
    have "\<not> ds_exception (decide_org org actor f leg dst (decide_start org actor))"
      using none decide_bu_exception_mono by (auto simp: cd_exception_iff)
    then have "first_clearance r leg actor dst = None"
      using decide_org_exception [OF org] by blast
    with org have "layer_action (base_action org actor) (Some org) actor f leg dst = Some (r_action r)"
      by (simp add: layer_action_def)
    with noex lower show False
      by (auto simp: decide_action_eq Let_def split: option.splits)
  next
    assume "bu \<noteq> None \<and> last_match bu f leg dst = Some (i, r)"
    then obtain p where bu: "bu = Some p" "last_match (Some p) f leg dst = Some (i, r)" by auto
    have "\<not> ds_exception (decide_bu org bu actor f leg dst (decide_org org actor f leg dst (decide_start org actor)))"
      using none by (simp add: cd_exception_iff)
    then have "first_clearance r leg actor dst = None"
      using decide_bu_exception [OF bu(2)] bu(1) by blast
    with bu have "layer_action (base_action org actor) bu actor f leg dst = Some (r_action r)"
      by (simp add: layer_action_def)
    with noex lower show False
      by (auto simp: decide_action_eq Let_def split: option.splits)
  qed
qed

theorem lowering_is_recorded_witness:
  "cd_exception_applied (decide demo_org (demo_actor [''hr'']) (demo_finding ''HR_RECORD'') Inbound None None [])"
proof -
  have "cd_action (decide demo_org (demo_actor [''hr'']) (demo_finding ''HR_RECORD'') Inbound None None [])
      < r_action (p_rules demo_org ! 1)"
    unfolding decide_action_eq layer_action_def demo_org_match
    by (simp add: demo_defs first_clearance_def clearance_blocks_for_def clearance_applies_def
        clearance_is_empty_def base_action_def is_unregistered_def last_match_def action_order Let_def)
  with demo_org_match show ?thesis by (intro lowering_is_recorded) auto
qed

text \<open>What the publish check buys at run time: when a business-unit policy passed
  \<open>check_bu_may_only_raise\<close>, a rule of it without clearance blocks that decides a finding is
  never clamped by the organisation's deciding rule, so the decision is that rule's own action
  (unless the actor is cleared of the org rule or excepted).
\<close>

theorem published_bu_rule_is_not_clamped:
  assumes "check_bu_may_only_raise org bu = Inr ()"
    and org: "last_match (Some org) f leg dst = Some (i, r)" and "first_clearance r leg actor dst = None"
    and bu: "last_match (Some bu) f leg dst = Some (j, b)" and "r_unless b = []" and "r_except b = []"
    and "cf_class f \<notin> set exceptions"
  shows "r_action r \<le> r_action b \<and> cd_action (decide org actor f leg (Some bu) dst exceptions) = r_action b"
proof -
  have "\<not> org_conflict (p_rules org) b"
    using assms last_match_Some [OF bu] check_bu_loop_Inr [of 0 "p_rules org" "p_rules bu" b]
    by (auto simp: check_bu_may_only_raise_def)
  then have le: "r_action r \<le> r_action b"
    using last_match_Some [OF org] last_match_Some [OF bu] matches_overlap_complete [of b f leg dst r]
    by (auto simp: org_conflict_def is_weaker_iff not_less)
  have "first_clearance b leg actor dst = None"
    using assms by (simp add: first_clearance_def clearance_blocks_for_def)
  with assms le show ?thesis
    by (simp add: decide_action_eq layer_action_def Let_def max_def)
qed

theorem published_bu_rule_is_not_clamped_witness:
  "cd_action (decide demo_org (demo_actor []) (demo_finding ''HR_RECORD'') Inbound (Some demo_bu) None []) = Block"
proof -
  have chk: "check_bu_may_only_raise demo_org demo_bu = Inr ()"
    by (simp add: check_bu_may_only_raise_def demo_defs org_conflict_def is_weaker_iff action_order)
  have clr: "first_clearance (p_rules demo_org ! 1) Inbound (demo_actor []) None = None"
    by (simp add: first_clearance_def clearance_blocks_for_def demo_defs clearance_applies_def)
  have "r_action (p_rules demo_org ! 1) \<le> r_action (p_rules demo_bu ! 0) \<and>
      cd_action (decide demo_org (demo_actor []) (demo_finding ''HR_RECORD'') Inbound (Some demo_bu) None [])
      = r_action (p_rules demo_bu ! 0)"
    by (rule published_bu_rule_is_not_clamped [OF chk demo_org_match clr demo_bu_match])
      (simp_all add: demo_defs)
  then show ?thesis by (simp add: demo_defs)
qed

definition explained ::
  "policy \<Rightarrow> policy option \<Rightarrow> ctl_actor \<Rightarrow> ctl_finding \<Rightarrow> leg \<Rightarrow> string option \<Rightarrow> string list
     \<Rightarrow> rule_scope \<Rightarrow> nat option \<Rightarrow> action \<Rightarrow> bool" where
  "explained org bu actor f leg dst exceptions scope index act =
     (case scope of
        ScDefault \<Rightarrow> index = None \<and> act = base_action org actor
      | ScOrg \<Rightarrow> (\<exists>i r. index = Some i \<and> last_match (Some org) f leg dst = Some (i, r)
          \<and> act = rule_action_for (base_action org actor) r leg actor dst)
      | ScBu \<Rightarrow> (\<exists>i r. index = Some i \<and> last_match bu f leg dst = Some (i, r)
          \<and> act = rule_action_for (base_action org actor) r leg actor dst)
      | ScException \<Rightarrow> cf_class f \<in> set exceptions \<and> act = base_action org actor)"

lemma explained_org:
  "s = decide_org org actor f leg dst (decide_start org actor) \<Longrightarrow>
     explained org bu actor f leg dst exceptions (ds_scope s) (ds_rule_index s) (ds_action s)"
  by (cases "last_match (Some org) f leg dst")
     (auto simp: explained_def decide_org_def decide_start_def Let_def split: option.splits)

lemma explained_bu:
  assumes "explained org bu actor f leg dst exceptions (ds_scope s) (ds_rule_index s) (ds_action s)"
    and "t = decide_bu org bu actor f leg dst s"
  shows "explained org bu actor f leg dst exceptions (ds_scope t) (ds_rule_index t) (ds_action t)"
proof (cases "bu = None \<or> last_match bu f leg dst = None")
  case True
  with assms show ?thesis by (auto simp: decide_bu_def)
next
  case False
  then obtain j b where m: "bu \<noteq> None" "last_match bu f leg dst = Some (j, b)" by auto
  define ba where "ba = rule_action_for (base_action org actor) b leg actor dst"
  have act: "ds_action t = max (ds_action s) ba"
    using m assms(2) by (simp add: decide_bu_action layer_action_def ba_def)
  show ?thesis
  proof (cases "ds_action s \<le> ba \<and> (ds_action s < ba \<or> ds_rule_index s = None)")
    case True
    then have "ds_scope t = ScBu \<and> ds_rule_index t = Some j"
      using m assms(2) by (auto simp: decide_bu_def Let_def strongest2_eq_max ba_def ctl_rank_eq_rank
          action_order max_def split: option.splits if_splits)
    with True act m show ?thesis by (auto simp: explained_def ba_def max_def)
  next
    case False
    then have "ds_scope t = ds_scope s \<and> ds_rule_index t = ds_rule_index s"
      using m assms(2) by (auto simp: decide_bu_def Let_def strongest2_eq_max ba_def ctl_rank_eq_rank
          action_order max_def split: option.splits if_splits)
    moreover have "ds_action t = ds_action s" using False act by (auto simp: max_def)
    ultimately show ?thesis using assms(1) by simp
  qed
qed

text \<open>The rule a decision names explains the action taken, in each scope: \<open>default\<close> means the
  base action; \<open>org\<close> and \<open>bu\<close> name the last matching rule of that policy, whose action (or the
  base action, when a clearance block covered the actor) is the action; \<open>exception\<close> means an
  approved exception for the class and the base action.
\<close>

theorem named_rule_explains_action:
  "let d = decide org actor f leg bu dst exceptions in
   explained org bu actor f leg dst exceptions (cd_rule_scope d) (cd_rule_index d) (cd_action d)"
proof -
  define s where "s = decide_bu org bu actor f leg dst (decide_org org actor f leg dst (decide_start org actor))"
  have "explained org bu actor f leg dst exceptions (ds_scope s) (ds_rule_index s) (ds_action s)"
    unfolding s_def by (rule explained_bu [OF explained_org [OF refl] refl])
  moreover have "explained org bu actor f leg dst exceptions ScException i (base_action org actor)"
    if "cf_class f \<in> set exceptions" for i
    using that by (simp add: explained_def)
  ultimately show ?thesis
    by (cases "cf_class f \<in> set exceptions") (simp_all add: decide_def decide_exception_def s_def [symmetric])
qed

text \<open>
  Two divergences between the schema's words and the engine. A rule may carry \<open>source\<close> and
  \<open>composite_risk_gte\<close>, which the schema accepts, but matching never reads them; and a clearance or
  an approved exception returns the action to the base, which may be stricter than the rule's own
  action, although the schema calls these the constructs that lower an action.
\<close>

theorem match_ignores_source_and_risk:
  "rule_matches (r\<lparr>r_match := (r_match r)\<lparr>m_source := src, m_composite_risk_gte := risk\<rparr>\<rparr>) f leg dst
     = rule_matches r f leg dst"
  by (simp add: rule_matches_iff)

theorem exception_can_strengthen:
  "let stranger = (demo_actor [])\<lparr>ca_registered := False\<rparr> in
     cd_action (decide demo_org stranger (demo_finding ''PAN'') Inbound None None []) = Warn
   \<and> cd_action (decide demo_org stranger (demo_finding ''PAN'') Inbound None None [''PAN'']) = Mask"
  by (simp add: decide_action_eq layer_action_def last_match_def demo_defs rule_matches_iff Let_def
      base_action_def is_unregistered_def first_clearance_def clearance_blocks_for_def)

end
