(* ===== verification/CpRedact.thy ===== *)
theory CpRedact
  imports SpanPaths PolicyEngine
begin

text \<open>
  Applying decisions to a payload and proving the bytes that leave (\<^verbatim>\<open>Control-DB/zerotrace/gateway/redact.py\<close>): edits, the
  spans that were missed, and the check of the serialised body against every edit. \<open>str\<close> of a value that is no
  string, and \<open>json.loads\<close>, are fields of \<open>cp_env\<close>.
\<close>

section \<open>Applying\<close>

definition MASK_CHAR :: string where "MASK_CHAR = [CHR 0xE2, CHR 0x96, CHR 0x88]"
definition MAX_MASK :: nat where "MAX_MASK = 32"
definition BLOCK_NOTICE :: string where "BLOCK_NOTICE = ''[ZeroTrace: blocked by policy]''"

record applied_edit =
  ae_path :: string
  ae_original :: string
  ae_replacement :: json
  ae_decision_action :: action
  ae_applied_action :: action

record redaction =
  rr_payload :: json
  rr_edits :: "applied_edit list"
  rr_degrade :: "string list"
  rr_misses :: "string list"

record cp_env =
  ce_digits :: digit_table
  ce_str :: "json \<Rightarrow> string" \<comment> \<open>\<open>str\<close> of a value that is not a string\<close>
  ce_loads :: "string \<Rightarrow> json option" \<comment> \<open>\<open>json.loads(body.decode())\<close>\<close>

definition mask_text :: "string \<Rightarrow> string" where
  "mask_text v = concat (replicate (min (max (code_points v) 1) MAX_MASK) MASK_CHAR)"

fun redact_node :: "action \<Rightarrow> json \<Rightarrow> json" where
  "redact_node act node =
     (if act = Block then JStr BLOCK_NOTICE
      else case node of
        JStr s \<Rightarrow> JStr (mask_text s)
      | JList js \<Rightarrow> JList (map (redact_node act) js)
      | JObj kvs \<Rightarrow> JObj (map (\<lambda>(k, v). (k, redact_node act v)) kvs)
      | _ \<Rightarrow> JStr (concat (replicate 8 MASK_CHAR)))"

declare redact_node.simps [simp del]

definition text_of :: "cp_env \<Rightarrow> json \<Rightarrow> string" where
  "text_of env v = (case v of JStr s \<Rightarrow> s | _ \<Rightarrow> ce_str env v)"

definition applied_as :: "action \<Rightarrow> action" where
  "applied_as act = (if act = Tokenize then Mask else act)"

definition apply_one :: "cp_env \<Rightarrow> redaction \<Rightarrow> ctl_finding \<times> ctl_decision \<Rightarrow> path_error + redaction" where
  "apply_one env r p =
     (case p of (f, d) \<Rightarrow>
        if cd_action d = Allow \<or> cd_action d = Warn then Inr r
        else
          let act = applied_as (cd_action d);
              r = r\<lparr>rr_degrade := rr_degrade r @ (if cd_action d = Tokenize then [''tokenize_needs_vault''] else [])\<rparr>
          in case get (ce_digits env) (rr_payload r) (cf_path f) of
               Inl SpanPathError \<Rightarrow>
                 Inr (r\<lparr>rr_misses := rr_misses r @ [cf_path f], rr_degrade := rr_degrade r @ [''redaction_span_missing'']\<rparr>)
             | Inl e \<Rightarrow> Inl e
             | Inr v \<Rightarrow>
                 let original = text_of env v; replacement = redact_node act (JStr original)
                 in rbind (set_path (ce_digits env) (rr_payload r) (cf_path f) replacement) (\<lambda>payload.
                      Inr (r\<lparr>rr_payload := payload, rr_edits := rr_edits r @
                        [\<lparr>ae_path = cf_path f, ae_original = original, ae_replacement = replacement,
                          ae_decision_action = cd_action d, ae_applied_action = act\<rparr>]\<rparr>)))"

fun apply_all :: "cp_env \<Rightarrow> redaction \<Rightarrow> (ctl_finding \<times> ctl_decision) list \<Rightarrow> path_error + redaction" where
  "apply_all env r [] = Inr r"
| "apply_all env r (p # ps) = rbind (apply_one env r p) (\<lambda>r. apply_all env r ps)"

definition apply_decisions :: "cp_env \<Rightarrow> json \<Rightarrow> (ctl_finding \<times> ctl_decision) list \<Rightarrow> policy_mode \<Rightarrow> path_error + redaction" where
  "apply_decisions env payload pairs mode =
     (let r = \<lparr>rr_payload = payload, rr_edits = [], rr_degrade = [], rr_misses = []\<rparr>
      in if mode = Shadow then Inr r else apply_all env r pairs)"

section \<open>Verifying\<close>

fun walk_strings :: "json \<Rightarrow> string list" where
  "walk_strings (JStr s) = [s]"
| "walk_strings (JList js) = concat (map walk_strings js)"
| "walk_strings (JObj kvs) = concat (map (\<lambda>(k, v). k # walk_strings v) kvs)"
| "walk_strings _ = []"

definition check_edit :: "cp_env \<Rightarrow> json \<Rightarrow> applied_edit \<Rightarrow> path_error + string list" where
  "check_edit env body e =
     (case get (ce_digits env) body (ae_path e) of
        Inl SpanPathError \<Rightarrow> Inr [ae_path e]
      | Inl err \<Rightarrow> Inl err
      | Inr v \<Rightarrow> Inr (if v \<noteq> ae_replacement e then [ae_path e] else []))"

definition verify_dispatch :: "cp_env \<Rightarrow> string \<Rightarrow> applied_edit list \<Rightarrow> path_error + string list" where
  "verify_dispatch env serialized edits =
     (if edits = [] then Inr []
      else case ce_loads env serialized of
        None \<Rightarrow> Inr (map ae_path edits)
      | Some body \<Rightarrow>
          rbind (rmap (check_edit env body) edits) (\<lambda>fs.
            if concat fs \<noteq> [] then Inr (concat fs)
            else Inr (concat (map (\<lambda>v. map ae_path (filter (\<lambda>e. v = ae_original e) edits)) (walk_strings body)))))"

section \<open>What the check establishes\<close>

lemma redact_text: "redact_node act (JStr s) = JStr (if act = Block then BLOCK_NOTICE else mask_text s)"
  by (simp add: redact_node.simps)

lemma get_in_walk: "get_at node segs = Inr (JStr s) \<Longrightarrow> s \<in> set (walk_strings node)"
proof (induction segs arbitrary: node)
  case (Cons u segs)
  then obtain child where child: "json_step node u = Inr child" "get_at child segs = Inr (JStr s)" by (auto simp: rbind_Inr_iff)
  from Cons.IH [OF child(2)] have s: "s \<in> set (walk_strings child)" .
  show ?case
  proof (cases node)
    case (JList js)
    with child(1) obtain i where "i < length js" "child = js ! i" by (cases u) (auto split: if_splits)
    then have "child \<in> set js" by simp
    with s JList show ?thesis by (simp only: walk_strings.simps set_concat set_map) blast
  next
    case (JObj kvs)
    with child(1) obtain k where "map_of kvs k = Some child" by (cases u) (auto split: option.splits)
    then have "(k, child) \<in> set kvs" by (rule map_of_SomeD)
    moreover have "s \<in> set (case (k, child) of (k, v) \<Rightarrow> k # walk_strings v)" using s by simp
    ultimately show ?thesis using JObj by (simp only: walk_strings.simps set_concat set_map) blast
  qed (use child(1) in \<open>cases u; simp\<close>)+
qed simp

lemma rmap_member: "rmap f xs = Inr ys \<Longrightarrow> x \<in> set xs \<Longrightarrow> \<exists>y \<in> set ys. f x = Inr y"
  by (induction xs arbitrary: ys) (auto simp: rbind_Inr_iff)

lemma verify_sound:
  assumes "verify_dispatch env serialized edits = Inr []" "e \<in> set edits"
  shows "\<exists>body. ce_loads env serialized = Some body \<and> get (ce_digits env) body (ae_path e) = Inr (ae_replacement e)
    \<and> ae_original e \<notin> set (walk_strings body)"
proof -
  from assms obtain body where body: "ce_loads env serialized = Some body"
    by (auto simp: verify_dispatch_def split: if_splits option.splits)
  with assms obtain fs where fs: "rmap (check_edit env body) edits = Inr fs" "concat fs = []"
    and absent: "\<forall>v \<in> set (walk_strings body). \<forall>e \<in> set edits. v \<noteq> ae_original e"
    by (auto simp: verify_dispatch_def rbind_Inr_iff filter_empty_conv split: if_splits)
  from rmap_member [OF fs(1) assms(2)] obtain f where f: "f \<in> set fs" "check_edit env body e = Inr f" by blast
  with fs(2) have "f = []" by simp
  with f(2) have "check_edit env body e = Inr []" by simp
  then have "get (ce_digits env) body (ae_path e) = Inr (ae_replacement e)"
    by (auto simp: check_edit_def split: sum.splits path_error.splits if_splits)
  with body absent assms(2) show ?thesis by blast
qed

section \<open>Edits of a run\<close>

definition acts :: "ctl_decision \<Rightarrow> bool" where "acts d \<longleftrightarrow> cd_action d \<notin> {Allow, Warn}"

definition edited :: "cp_env \<Rightarrow> redaction \<Rightarrow> ctl_finding \<Rightarrow> json \<Rightarrow> segment list \<Rightarrow> redaction \<Rightarrow> bool" where
  \<comment> \<open>one edit: the value found, its address, and the state after\<close>
  "edited env r f v segs r' \<longleftrightarrow>
     (\<exists>e. parse (ce_digits env) (cf_path f) = Inr segs \<and> get_at (rr_payload r) segs = Inr v
        \<and> rr_edits r' = rr_edits r @ [e] \<and> rr_misses r' = rr_misses r \<and> ae_path e = cf_path f \<and> ae_original e = text_of env v
        \<and> (\<exists>t. ae_replacement e = JStr t) \<and> set_at (rr_payload r) segs (ae_replacement e) = Inr (rr_payload r'))"

lemma apply_one_cases:
  assumes "apply_one env r (f, d) = Inr r'"
  obtains (passed) "\<not> acts d" "r' = r"
    | (missed) "acts d" "rr_misses r' = rr_misses r @ [cf_path f]" "rr_payload r' = rr_payload r" "rr_edits r' = rr_edits r"
    | (edit) v segs where "acts d" "edited env r f v segs r'"
proof (cases "acts d")
  case False
  with assms passed show ?thesis by (auto simp: apply_one_def acts_def)
next
  case True
  then have act: "\<not> (cd_action d = Allow \<or> cd_action d = Warn)" by (simp add: acts_def)
  show ?thesis
  proof (cases "get (ce_digits env) (rr_payload r) (cf_path f)")
    case (Inl e)
    with assms act True missed show ?thesis by (cases e) (auto simp: apply_one_def Let_def)
  next
    case (Inr v)
    then obtain segs where segs: "parse (ce_digits env) (cf_path f) = Inr segs" "get_at (rr_payload r) segs = Inr v"
      by (auto simp: get_def rbind_Inr_iff)
    with assms act Inr have "edited env r f v segs r'"
      by (auto simp: apply_one_def Let_def set_path_def rbind_Inr_iff edited_def redact_text)
    with True edit show ?thesis by blast
  qed
qed

lemma apply_all_grows: "apply_all env r ps = Inr r' \<Longrightarrow> prefix (rr_edits r) (rr_edits r') \<and> prefix (rr_misses r) (rr_misses r')"
proof (induction ps arbitrary: r)
  case (Cons p ps)
  obtain f d where p: "p = (f, d)" by (cases p)
  from Cons.prems obtain r1 where r1: "apply_one env r p = Inr r1" "apply_all env r1 ps = Inr r'" by (auto simp: rbind_Inr_iff)
  have "prefix (rr_edits r) (rr_edits r1) \<and> prefix (rr_misses r) (rr_misses r1)"
    using r1(1) unfolding p by (cases rule: apply_one_cases) (auto simp: edited_def)
  with Cons.IH [OF r1(2)] show ?case by (meson prefix_order.trans)
qed simp

definition accounted :: "redaction \<Rightarrow> segment list \<Rightarrow> string \<Rightarrow> bool" where
  \<comment> \<open>the text is still at its address, or an edit has it as original, or the address is gone\<close>
  "accounted r segs s \<longleftrightarrow> get_at (rr_payload r) segs = Inr (JStr s) \<or> s \<in> ae_original ` set (rr_edits r)
     \<or> (\<forall>x. get_at (rr_payload r) segs \<noteq> Inr x)"

lemma edit_accounted:
  assumes "edited env r f v q r'" "accounted r segs s"
  shows "accounted r' segs s"
proof -
  from assms(1) obtain e t where e: "rr_edits r' = rr_edits r @ [e]" "ae_original e = text_of env v" "ae_replacement e = JStr t"
    and q: "get_at (rr_payload r) q = Inr v" "set_at (rr_payload r) q (JStr t) = Inr (rr_payload r')" by (auto simp: edited_def)
  consider (kept) "s \<in> ae_original ` set (rr_edits r)" | (same) "q = segs" | (above) u us where "segs = q @ u # us"
    | (below) u us where "q = segs @ u # us" | (apart) "\<not> prefix q segs" "\<not> prefix segs q"
    by (metis append_Nil2 neq_Nil_conv prefix_def)
  then show ?thesis
  proof cases
    case kept
    with e(1) show ?thesis by (auto simp: accounted_def)
  next
    case same
    with assms(2) q(1) e(1,2) show ?thesis by (auto simp: accounted_def text_of_def)
  next
    case above
    with get_set_same [OF q(2)] show ?thesis by (simp add: accounted_def get_at_append)
  next
    case below
    with q(1) have "\<exists>x. get_at (rr_payload r) segs = Inr x \<and> (\<exists>y. get_at x (u # us) = Inr y)"
      by (auto simp: get_at_append rbind_Inr_iff)
    with assms(2) get_below_string [of s "u # us"] e(1) show ?thesis by (auto simp: accounted_def)
  next
    case apart
    with set_at_keeps [OF q(2), of segs] assms(2) e(1) show ?thesis by (auto simp: accounted_def)
  qed
qed

lemma apply_all_edits:
  assumes "apply_all env r ps = Inr r'" "rr_misses r' = []" "(f, d) \<in> set ps" "acts d"
    and "parse (ce_digits env) (cf_path f) = Inr segs" "accounted r segs s"
  shows "s \<in> ae_original ` set (rr_edits r') \<and> (\<exists>e \<in> set (rr_edits r'). ae_path e = cf_path f)"
  using assms
proof (induction ps arbitrary: r)
  case (Cons p ps)
  obtain g c where p: "p = (g, c)" by (cases p)
  from Cons.prems(1) obtain r1 where r1: "apply_one env r (g, c) = Inr r1" "apply_all env r1 ps = Inr r'"
    by (auto simp: rbind_Inr_iff p)
  note grow = apply_all_grows [OF r1(2)]
  have acc: "accounted r1 segs s"
    using r1(1) by (cases rule: apply_one_cases) (use Cons.prems(6) edit_accounted in \<open>auto simp: accounted_def\<close>)
  show ?case
  proof (cases "(f, d) \<in> set ps")
    case True
    with Cons.IH [OF r1(2) Cons.prems(2) _ Cons.prems(4,5) acc] show ?thesis .
  next
    case False
    with Cons.prems(3) p have eq: "g = f" "c = d" by auto
    from r1(1) show ?thesis
    proof (cases rule: apply_one_cases)
      case passed
      with Cons.prems(4) eq show ?thesis by simp
    next
      case missed
      with grow Cons.prems(2) show ?thesis by auto
    next
      case (edit v q)
      then obtain e where e: "rr_edits r1 = rr_edits r @ [e]" "ae_path e = cf_path f" "ae_original e = text_of env v"
        and q: "q = segs" "get_at (rr_payload r) segs = Inr v" using Cons.prems(5) eq by (auto simp: edited_def)
      have "e \<in> set (rr_edits r')" "set (rr_edits r) \<subseteq> set (rr_edits r')" using grow e(1) by (auto simp: prefix_def)
      moreover from Cons.prems(6) q(2) have "s = ae_original e \<or> s \<in> ae_original ` set (rr_edits r)"
        by (auto simp: accounted_def e(3) text_of_def)
      ultimately show ?thesis using e(2) by blast
    qed
  qed
qed simp

lemma edits_of_acting:
  assumes "apply_decisions env payload pairs Enforce = Inr r" "rr_misses r = []"
    and "(f, d) \<in> set pairs" "acts d" "get (ce_digits env) payload (cf_path f) = Inr (JStr s)"
  shows "s \<in> ae_original ` set (rr_edits r) \<and> (\<exists>e \<in> set (rr_edits r). ae_path e = cf_path f)"
proof -
  let ?r = "\<lparr>rr_payload = payload, rr_edits = [], rr_degrade = [], rr_misses = []\<rparr>"
  from assms(1) have run: "apply_all env ?r pairs = Inr r" by (simp add: apply_decisions_def)
  from assms(5) obtain segs where segs: "parse (ce_digits env) (cf_path f) = Inr segs" "get_at payload segs = Inr (JStr s)"
    by (auto simp: get_def rbind_Inr_iff)
  then have "accounted ?r segs s" by (simp add: accounted_def)
  from apply_all_edits [OF run assms(2,3,4) segs(1) this] show ?thesis .
qed

lemma verified_body_hides_originals:
  assumes "apply_decisions env payload pairs Enforce = Inr r" "rr_misses r = []"
    and "verify_dispatch env serialized (rr_edits r) = Inr []"
    and "(f, d) \<in> set pairs" "acts d" "get (ce_digits env) payload (cf_path f) = Inr (JStr s)"
  shows "\<exists>body. ce_loads env serialized = Some body \<and> s \<notin> set (walk_strings body)
    \<and> (\<exists>e \<in> set (rr_edits r). ae_path e = cf_path f \<and> get (ce_digits env) body (cf_path f) = Inr (ae_replacement e))"
proof -
  from edits_of_acting [OF assms(1,2,4,5,6)] obtain e e' where
    e: "e \<in> set (rr_edits r)" "ae_original e = s" "e' \<in> set (rr_edits r)" "ae_path e' = cf_path f" by auto
  from verify_sound [OF assms(3) e(1)] verify_sound [OF assms(3) e(3)] e show ?thesis by auto
qed

lemma parse_a: "parse ud ''a'' = Inr [SKey ''a'']"
  by (simp add: parse_def part_segments_def token_def name_start_def name_char_def indices.simps index_def)

definition sample_finding :: "string \<Rightarrow> ctl_finding" where
  "sample_finding path = (demo_finding ''PAN'')\<lparr>cf_path := path\<rparr>"

definition sample_decision :: "action \<Rightarrow> ctl_decision" where
  "sample_decision act = \<lparr>cd_action = act, cd_org_policy_version = 1, cd_bu_policy_version = None, cd_rule_index = Some 0,
     cd_rule_scope = ScOrg, cd_exception_applied = False, cd_escalate = False, cd_reason = None, cd_trace = []\<rparr>"

definition sample_payload :: "string \<Rightarrow> json" where
  "sample_payload t = JObj [(''a'', JStr t), (''b'', JStr ''see ABC'')]"

definition span_env :: "json \<Rightarrow> cp_env" where
  "span_env j = \<lparr>ce_digits = \<lambda>_. None, ce_str = \<lambda>_. [], ce_loads = \<lambda>b. if b = pr_json j then Some j else None\<rparr>"

lemma sample_run:
  assumes "cd_action d = Mask" "cf_path f = ''a''"
  shows "\<exists>r. apply_decisions (span_env j) (sample_payload ''ABC'') [(f, d)] Enforce = Inr r
     \<and> rr_payload r = sample_payload (mask_text ''ABC'') \<and> rr_misses r = [] \<and> rr_degrade r = []
     \<and> (\<exists>e. rr_edits r = [e] \<and> ae_path e = ''a'' \<and> ae_original e = ''ABC'' \<and> ae_replacement e = JStr (mask_text ''ABC''))"
  using assms
  by (simp add: apply_decisions_def apply_one_def sample_payload_def span_env_def
      applied_as_def get_def set_path_def parse_a text_of_def redact_text Let_def)

definition masked :: json where "masked = sample_payload (mask_text ''ABC'')"

lemma sample_verifies:
  assumes "cd_action d = Mask" "cf_path f = ''a''"
  shows "\<exists>r. apply_decisions (span_env masked) (sample_payload ''ABC'') [(f, d)] Enforce = Inr r \<and> rr_payload r = masked
     \<and> rr_misses r = [] \<and> rr_degrade r = [] \<and> rr_edits r \<noteq> []
     \<and> verify_dispatch (span_env masked) (pr_json masked) (rr_edits r) = Inr []"
proof -
  obtain r e where r: "apply_decisions (span_env masked) (sample_payload ''ABC'') [(f, d)] Enforce = Inr r"
    "rr_payload r = masked" "rr_misses r = []" "rr_degrade r = []" "rr_edits r = [e]" "ae_path e = ''a''"
    "ae_original e = ''ABC''" "ae_replacement e = JStr (mask_text ''ABC'')"
    using sample_run [OF assms, of masked] by (auto simp: masked_def)
  have "mask_text ''ABC'' \<noteq> ''ABC''" by (simp add: mask_text_def MAX_MASK_def code_points_def MASK_CHAR_def numeral_3_eq_3)
  then have "verify_dispatch (span_env masked) (pr_json masked) (rr_edits r) = Inr []"
    by (simp add: r(5) verify_dispatch_def span_env_def check_edit_def get_def parse_a r(6))
      (simp add: masked_def sample_payload_def r(7,8))
  with r show ?thesis by auto
qed

text \<open>A copy of the text inside a longer string is not looked for: the check passes and the copy leaves.\<close>

lemma copy_inside_text_survives:
  "\<exists>r. apply_decisions (span_env masked) (sample_payload ''ABC'') [(sample_finding ''a'', sample_decision Mask)] Enforce = Inr r
     \<and> verify_dispatch (span_env masked) (pr_json (rr_payload r)) (rr_edits r) = Inr []
     \<and> ''see ABC'' \<in> set (walk_strings (rr_payload r))"
  using sample_verifies [of "sample_decision Mask" "sample_finding ''a''"]
  by (auto simp: sample_decision_def sample_finding_def masked_def sample_payload_def)

text \<open>Two findings on one span cannot both be applied: the second's original is the first's replacement, which is in
  the body because it has to be.\<close>

lemma two_findings_on_a_span_are_refused:
  assumes "apply_decisions env payload [(f, d), (g, c)] Enforce = Inr r" "acts d" "acts c"
    and "cf_path g = cf_path f" "get (ce_digits env) payload (cf_path f) = Inr v"
  shows "verify_dispatch env serialized (rr_edits r) \<noteq> Inr []"
proof
  assume ok: "verify_dispatch env serialized (rr_edits r) = Inr []"
  let ?r = "\<lparr>rr_payload = payload, rr_edits = [], rr_degrade = [], rr_misses = []\<rparr>"
  from assms(1) obtain r1 where r1: "apply_one env ?r (f, d) = Inr r1" "apply_one env r1 (g, c) = Inr r"
    by (auto simp: apply_decisions_def rbind_Inr_iff)
  from assms(5) obtain segs where segs: "parse (ce_digits env) (cf_path f) = Inr segs" "get_at payload segs = Inr v"
    by (auto simp: get_def rbind_Inr_iff)
  from r1(1) obtain e t where e: "rr_edits r1 = [e]" "ae_path e = cf_path f" "ae_replacement e = JStr t"
    and p1: "set_at payload segs (JStr t) = Inr (rr_payload r1)"
  proof (cases rule: apply_one_cases)
    case missed
    with r1(1) assms(2,5) show ?thesis
      by (auto simp: apply_one_def acts_def Let_def set_path_def rbind_Inr_iff split: if_splits)
  next
    case (edit w q)
    with segs(1) that show ?thesis by (auto simp: edited_def)
  qed (use assms(2) in simp)
  from get_set_same [OF p1] have val: "get_at (rr_payload r1) segs = Inr (JStr t)" .
  from r1(2) obtain e' where e': "rr_edits r = [e, e']" "ae_original e' = t"
  proof (cases rule: apply_one_cases)
    case missed
    from val segs(1) assms(4) have "get (ce_digits env) (rr_payload r1) (cf_path g) = Inr (JStr t)" by (simp add: get_def)
    with r1(2) assms(3) missed show ?thesis
      by (auto simp: apply_one_def acts_def Let_def set_path_def rbind_Inr_iff split: if_splits)
  next
    case (edit w q)
    with segs(1) assms(4) val e(1) that show ?thesis by (auto simp: edited_def text_of_def)
  qed (use assms(3) in simp)
  from verify_sound [OF ok, of e] verify_sound [OF ok, of e'] e e' obtain body where
    "get (ce_digits env) body (cf_path f) = Inr (JStr t)" "t \<notin> set (walk_strings body)" by auto
  with segs(1) get_in_walk [of body segs t] show False by (simp add: get_def)
qed

end
