(* ===== verification/DualChain.thy ===== *)
theory DualChain
  imports LedgerRecords
begin

text \<open>
  The control-plane ledger (\<^verbatim>\<open>Control-DB/zerotrace/ledger/chain.py\<close>): two hash chains per tenant in one
  table, every append followed by a cross-anchor that names the other chain's head, and the
  verification that walks both chains and checks the bindings to the other chain and to the stored
  policies. The database is a record of the three tables the module reads; rows stand in the order of
  the id sequence. The tenant lock and the caller's transaction make one \<open>append\<close> one step. SHA-256 is
  the parameter \<open>H\<close>, pydantic's coercion \<open>co\<close>; a time is its ISO text. A policy version is looked up by
  its integer value (a stored \<open>1.0\<close>, which no validated record has, is not treated as 1).
\<close>

section \<open>Tables\<close>

record ledger_row =
  lr_id :: nat
  lr_tenant_id :: string
  lr_chain :: string
  lr_prev_hash :: string
  lr_record_hash :: string
  lr_event_type :: string
  lr_payload :: fields
  lr_ts :: string

record policy_row =
  pr_tenant_id :: string
  pr_version :: int
  pr_yaml :: string

record ledger_db =
  db_ledger :: "ledger_row list"
  db_next_id :: nat
  db_policies :: "policy_row list"
  db_tenants :: "(string \<times> string option) list" \<comment> \<open>id and \<open>parent_id\<close>\<close>

definition CHAINS :: "string list" where
  "CHAINS = [''ctl'', ''dp'']"

definition CHAIN_BY_EVENT :: "string \<Rightarrow> string option" where
  "CHAIN_BY_EVENT = map_of [(''policy.updated'', ''ctl''), (''request.decided'', ''dp''), (''request.failed'', ''dp'')]"

datatype append_error =
    AnchorByCaller
  | NoChainFor string
  | UnknownChain string
  | BadPayload record_error

section \<open>Hashing\<close>

definition dl_genesis :: "(string \<Rightarrow> string) \<Rightarrow> string \<Rightarrow> string" where
  "dl_genesis H tenant_id = H (tenant_id @ ''zerotrace-genesis'')"

definition record_bytes :: "string \<Rightarrow> string \<Rightarrow> fields \<Rightarrow> string \<Rightarrow> string" where
  "record_bytes tenant_id event_type payload ts =
     canonical_json (JObj [(''tenant_id'', JStr tenant_id), (''event_type'', JStr event_type),
       (''payload'', JObj payload), (''ts'', JStr ts)])"

definition compute_hash :: "(string \<Rightarrow> string) \<Rightarrow> string \<Rightarrow> string \<Rightarrow> string" where
  "compute_hash H prev_hash rec = H (prev_hash @ rec)"

definition policy_row_hash :: "(string \<Rightarrow> string) \<Rightarrow> string \<Rightarrow> json \<Rightarrow> string \<Rightarrow> string" where
  "policy_row_hash H tenant_id version yaml =
     to_hex (H (canonical_json (JObj [(''tenant_id'', JStr tenant_id), (''version'', version), (''yaml'', JStr yaml)])))"

section \<open>Appending\<close>

definition chain_rows :: "string \<Rightarrow> string \<Rightarrow> ledger_row list \<Rightarrow> ledger_row list" where
  "chain_rows tenant_id chain rows = filter (\<lambda>r. lr_tenant_id r = tenant_id \<and> lr_chain r = chain) rows"

definition last_row :: "ledger_db \<Rightarrow> string \<Rightarrow> string \<Rightarrow> ledger_row option" where
  "last_row db tenant_id chain =
     (let rows = chain_rows tenant_id chain (db_ledger db) in if rows = [] then None else Some (last rows))"

definition append_one :: "(string \<Rightarrow> string) \<Rightarrow> string \<Rightarrow> ledger_db \<Rightarrow> string \<Rightarrow> string \<Rightarrow> string \<Rightarrow> fields
    \<Rightarrow> ledger_row option \<Rightarrow> ledger_row \<times> ledger_db" where
  \<comment> \<open>\<open>now\<close> is what \<open>clock.now()\<close> returns\<close>
  "append_one H now db tenant_id chain event_type payload previous =
     (let prev_hash = (case previous of Some r \<Rightarrow> lr_record_hash r | None \<Rightarrow> dl_genesis H tenant_id);
          row = \<lparr>lr_id = db_next_id db, lr_tenant_id = tenant_id, lr_chain = chain, lr_prev_hash = prev_hash,
            lr_record_hash = compute_hash H prev_hash (record_bytes tenant_id event_type payload now),
            lr_event_type = event_type, lr_payload = payload, lr_ts = now\<rparr>
      in (row, db\<lparr>db_ledger := db_ledger db @ [row], db_next_id := Suc (db_next_id db)\<rparr>))"

definition other_chain :: "string \<Rightarrow> string" where
  "other_chain chain = (if chain = ''ctl'' then ''dp'' else ''ctl'')"

definition anchor_payload :: "ledger_db \<Rightarrow> string \<Rightarrow> string \<Rightarrow> fields" where
  "anchor_payload db tenant_id chain =
     (let other = other_chain chain; other_head = last_row db tenant_id other
      in [(''chain'', JStr chain), (''other_chain'', JStr other),
          (''other_chain_head_id'', case other_head of Some r \<Rightarrow> JInt (int (lr_id r)) | None \<Rightarrow> JNull),
          (''other_chain_head_hash'', case other_head of Some r \<Rightarrow> JStr (to_hex (lr_record_hash r)) | None \<Rightarrow> JNull),
          (''other_chain_count'', JInt (int (length (chain_rows tenant_id other (db_ledger db)))))])"

definition append_cross_anchor :: "coercion \<Rightarrow> (string \<Rightarrow> string) \<Rightarrow> string \<Rightarrow> ledger_db \<Rightarrow> string \<Rightarrow> string
    \<Rightarrow> ledger_row \<Rightarrow> append_error + ledger_db" where
  "append_cross_anchor co H now db tenant_id chain main_row =
     (case validate co ''chain.cross_anchor'' (anchor_payload db tenant_id chain) of
        Inl e \<Rightarrow> Inl (BadPayload e)
      | Inr p \<Rightarrow> Inr (snd (append_one H now db tenant_id chain ''chain.cross_anchor'' p (Some main_row))))"

definition pick_chain :: "string \<Rightarrow> string option \<Rightarrow> append_error + string" where
  "pick_chain event_type chain_name =
     (if event_type = ''chain.cross_anchor'' then Inl AnchorByCaller
      else rbind (case chain_name of
             Some c \<Rightarrow> Inr c
           | None \<Rightarrow> (case CHAIN_BY_EVENT event_type of None \<Rightarrow> Inl (NoChainFor event_type) | Some c \<Rightarrow> Inr c))
           (\<lambda>c. if c \<in> set CHAINS then Inr c else Inl (UnknownChain c)))"

definition dl_append :: "coercion \<Rightarrow> (string \<Rightarrow> string) \<Rightarrow> string \<Rightarrow> string \<Rightarrow> ledger_db \<Rightarrow> string \<Rightarrow> string
    \<Rightarrow> fields \<Rightarrow> string option \<Rightarrow> append_error + (ledger_row \<times> ledger_db)" where
  \<comment> \<open>\<open>now\<close> and \<open>now'\<close> are the two readings of the clock\<close>
  "dl_append co H now now' db tenant_id event_type payload chain_name =
     rbind (pick_chain event_type chain_name) (\<lambda>chain.
       case validate co event_type payload of
         Inl e \<Rightarrow> Inl (BadPayload e)
       | Inr validated \<Rightarrow>
           (case append_one H now db tenant_id chain event_type validated (last_row db tenant_id chain) of
              (row, db1) \<Rightarrow> rbind (append_cross_anchor co H now' db1 tenant_id chain row) (\<lambda>db2. Inr (row, db2))))"

section \<open>Verifying\<close>

datatype failure =
    PrevHashMismatch nat string string
  | ContentEdited nat
  | AnchorBadOther nat json string
  | AnchorWrongChain nat json string
  | AnchorCount nat json nat
  | AnchorNamesEmptyHead nat
  | AnchorHeadId nat json nat
  | AnchorHeadHash nat
  | PolicyMissing nat json string
  | PolicyEdited nat json
  | CyclicTenants nat

record verify_result =
  vr_tenant_id :: string
  vr_checked :: nat
  vr_ok :: bool
  vr_broken_at :: "nat option"
  vr_detail :: "failure option"
  vr_chain :: "string option"

definition py_int :: "json \<Rightarrow> int option" where
  \<comment> \<open>the integer a JSON value equals in Python; \<open>True == 1\<close>\<close>
  "py_int j = (case j of JInt i \<Rightarrow> Some i | JBool b \<Rightarrow> Some (if b then 1 else 0) | _ \<Rightarrow> None)"

definition cross_anchor_failure :: "ledger_row \<Rightarrow> ledger_row list \<Rightarrow> failure option" where
  "cross_anchor_failure row all_rows =
     (let payload = lr_payload row; other = pget ''other_chain'' payload in
      if other \<notin> JStr ` set CHAINS \<or> other = JStr (lr_chain row) then
        Some (AnchorBadOther (lr_id row) other (lr_chain row))
      else if pget ''chain'' payload \<noteq> JStr (lr_chain row) then
        Some (AnchorWrongChain (lr_id row) (pget ''chain'' payload) (lr_chain row))
      else
        let others = filter (\<lambda>r. lr_chain r = str_of other \<and> lr_id r < lr_id row) all_rows in
        if py_int (pget ''other_chain_count'' payload) \<noteq> Some (int (length others)) then
          Some (AnchorCount (lr_id row) (pget ''other_chain_count'' payload) (length others))
        else if others = [] then
          (if pget ''other_chain_head_id'' payload \<noteq> JNull \<or> pget ''other_chain_head_hash'' payload \<noteq> JNull
           then Some (AnchorNamesEmptyHead (lr_id row)) else None)
        else
          let head = last others in
          if py_int (pget ''other_chain_head_id'' payload) \<noteq> Some (int (lr_id head)) then
            Some (AnchorHeadId (lr_id row) (pget ''other_chain_head_id'' payload) (lr_id head))
          else if pget ''other_chain_head_hash'' payload \<noteq> JStr (to_hex (lr_record_hash head)) then
            Some (AnchorHeadHash (lr_id row))
          else None)"

definition find_policy :: "policy_row list \<Rightarrow> string \<Rightarrow> json \<Rightarrow> policy_row option" where
  \<comment> \<open>\<open>policies.get((tenant_id, version))\<close>; (tenant, version) is the table's unique key\<close>
  "find_policy ps tenant_id version =
     find (\<lambda>p. pr_tenant_id p = tenant_id \<and> Some (pr_version p) = py_int version) ps"

definition policy_updated_failure :: "(string \<Rightarrow> string) \<Rightarrow> ledger_row \<Rightarrow> policy_row list \<Rightarrow> failure option" where
  "policy_updated_failure H row policies =
     (let payload = lr_payload row; declared = pget ''content_hash'' payload; version = pget ''version'' payload in
      if declared = JNull then None
      else case find_policy policies (lr_tenant_id row) version of
             None \<Rightarrow> Some (PolicyMissing (lr_id row) version (lr_tenant_id row))
           | Some p \<Rightarrow>
               if JStr (policy_row_hash H (lr_tenant_id row) version (pr_yaml p)) \<noteq> declared
               then Some (PolicyEdited (lr_id row) version) else None)"

function root_tenant :: "string \<Rightarrow> (string \<times> string option) list \<Rightarrow> string list \<Rightarrow> string option" where
  \<comment> \<open>the loop of \<open>_root_tenant\<close>, with the tenants already seen\<close>
  "root_tenant current tenants seen =
     (case map_of tenants current of
        Some (Some parent) \<Rightarrow> if current \<in> set seen then None else root_tenant parent tenants (current # seen)
      | _ \<Rightarrow> Some current)"
  by pat_completeness auto
termination
proof (relation "measure (\<lambda>(_, ts, seen). card (set (map fst ts) - set seen))")
  fix current :: string and tenants :: "(string \<times> string option) list" and seen o' parent
  assume "map_of tenants current = Some o'" "o' = Some parent" "current \<notin> set seen"
  then have "current \<in> set (map fst tenants)" by (metis domI dom_map_of_conv_image_fst list.set_map)
  then have "card (set (map fst tenants) - set (current # seen)) < card (set (map fst tenants) - set seen)"
    using \<open>current \<notin> set seen\<close> by (intro psubset_card_mono) auto
  then show "((parent, tenants, current # seen), current, tenants, seen)
      \<in> measure (\<lambda>(_, ts, seen). card (set (map fst ts) - set seen))" by simp
qed simp

declare root_tenant.simps [simp del]

definition request_decided_failure :: "(string \<Rightarrow> string) \<Rightarrow> ledger_row \<Rightarrow> policy_row list
    \<Rightarrow> (string \<times> string option) list \<Rightarrow> failure option" where
  "request_decided_failure H row policies tenants =
     (let payload = lr_payload row; org_hash = pget ''org_policy_content_hash'' payload;
          org_version = pget ''org_policy_version'' payload in
      if org_hash = JNull then None
      else case root_tenant (lr_tenant_id row) tenants [] of
        None \<Rightarrow> Some (CyclicTenants (lr_id row))
      | Some root \<Rightarrow>
          (case find_policy policies root org_version of
             None \<Rightarrow> Some (PolicyMissing (lr_id row) org_version root)
           | Some p \<Rightarrow>
               if JStr (policy_row_hash H root org_version (pr_yaml p)) \<noteq> org_hash
               then Some (PolicyEdited (lr_id row) org_version)
               else
                 let bu_hash = pget ''bu_policy_content_hash'' payload; bu_version = pget ''bu_policy_version'' payload in
                 if bu_hash = JNull then None
                 else case find_policy policies (lr_tenant_id row) bu_version of
                        None \<Rightarrow> Some (PolicyMissing (lr_id row) bu_version (lr_tenant_id row))
                      | Some q \<Rightarrow>
                          if JStr (policy_row_hash H (lr_tenant_id row) bu_version (pr_yaml q)) \<noteq> bu_hash
                          then Some (PolicyEdited (lr_id row) bu_version) else None))"

definition binding_failure :: "(string \<Rightarrow> string) \<Rightarrow> ledger_db \<Rightarrow> ledger_row list \<Rightarrow> ledger_row \<Rightarrow> failure option" where
  "binding_failure H db all_rows row =
     (if lr_event_type row = ''chain.cross_anchor'' then cross_anchor_failure row all_rows
      else if lr_event_type row = ''policy.updated'' then policy_updated_failure H row (db_policies db)
      else if lr_event_type row = ''request.decided'' then
        request_decided_failure H row (db_policies db) (db_tenants db)
      else None)"

definition broken :: "string \<Rightarrow> string \<Rightarrow> nat \<Rightarrow> nat \<Rightarrow> failure \<Rightarrow> verify_result" where
  "broken tenant_id chain index at why = \<lparr>vr_tenant_id = tenant_id, vr_checked = index, vr_ok = False,
     vr_broken_at = Some at, vr_detail = Some why, vr_chain = Some chain\<rparr>"

fun hash_walk :: "(string \<Rightarrow> string) \<Rightarrow> string \<Rightarrow> string \<Rightarrow> nat \<Rightarrow> string \<Rightarrow> ledger_row list \<Rightarrow> verify_result option" where
  "hash_walk H tenant_id chain index expected_prev [] = None"
| "hash_walk H tenant_id chain index expected_prev (row # rows) =
     (if lr_prev_hash row \<noteq> expected_prev then
        Some (broken tenant_id chain index (lr_id row)
          (PrevHashMismatch (lr_id row) (take 16 (to_hex (lr_prev_hash row))) (take 16 (to_hex expected_prev))))
      else
        let recomputed = compute_hash H expected_prev
              (record_bytes tenant_id (lr_event_type row) (lr_payload row) (lr_ts row)) in
        if recomputed \<noteq> lr_record_hash row then
          Some (broken tenant_id chain index (lr_id row) (ContentEdited (lr_id row)))
        else hash_walk H tenant_id chain (Suc index) recomputed rows)"

fun binding_walk :: "(string \<Rightarrow> string) \<Rightarrow> ledger_db \<Rightarrow> ledger_row list \<Rightarrow> string \<Rightarrow> string \<Rightarrow> nat \<Rightarrow> ledger_row list
    \<Rightarrow> verify_result option" where
  "binding_walk H db all_rows tenant_id chain index [] = None"
| "binding_walk H db all_rows tenant_id chain index (row # rows) =
     (case binding_failure H db all_rows row of
        Some why \<Rightarrow> Some (broken tenant_id chain index (lr_id row) why)
      | None \<Rightarrow> binding_walk H db all_rows tenant_id chain (Suc index) rows)"

definition walk_chain :: "(string \<Rightarrow> string) \<Rightarrow> ledger_db \<Rightarrow> ledger_row list \<Rightarrow> string \<Rightarrow> string \<Rightarrow> ledger_row list
    \<Rightarrow> verify_result" where
  "walk_chain H db all_rows tenant_id chain rows =
     (case hash_walk H tenant_id chain 0 (dl_genesis H tenant_id) rows of
        Some r \<Rightarrow> r
      | None \<Rightarrow> (case binding_walk H db all_rows tenant_id chain 0 rows of
            Some r \<Rightarrow> r
          | None \<Rightarrow> \<lparr>vr_tenant_id = tenant_id, vr_checked = length rows, vr_ok = True, vr_broken_at = None,
              vr_detail = None, vr_chain = Some chain\<rparr>))"

definition tenant_rows :: "ledger_db \<Rightarrow> string \<Rightarrow> ledger_row list" where
  "tenant_rows db tenant_id = filter (\<lambda>r. lr_tenant_id r = tenant_id) (db_ledger db)"

fun min_by :: "('a \<Rightarrow> nat) \<Rightarrow> 'a \<Rightarrow> 'a list \<Rightarrow> 'a" where
  \<comment> \<open>Python's \<open>min\<close> with a key: the first of the smallest\<close>
  "min_by key a [] = a"
| "min_by key a (x # xs) = min_by key (if key x < key a then x else a) xs"

definition dl_verify :: "(string \<Rightarrow> string) \<Rightarrow> ledger_db \<Rightarrow> string \<Rightarrow> string option \<Rightarrow> verify_result" where
  "dl_verify H db tenant_id chain_name =
     (let all_rows = tenant_rows db tenant_id;
          chains = (case chain_name of None \<Rightarrow> CHAINS | Some c \<Rightarrow> [c]);
          by_chain = (\<lambda>c. filter (\<lambda>r. lr_chain r = c) all_rows);
          results = map (\<lambda>c. walk_chain H db all_rows tenant_id c (by_chain c)) chains;
          failures = filter (\<lambda>r. \<not> vr_ok r) results;
          checked = sum_list (map (\<lambda>c. length (by_chain c)) chains)
      in case failures of
           [] \<Rightarrow> \<lparr>vr_tenant_id = tenant_id, vr_checked = checked, vr_ok = True, vr_broken_at = None,
                   vr_detail = None, vr_chain = chain_name\<rparr>
         | f # fs \<Rightarrow>
             let first = min_by (\<lambda>r. case vr_broken_at r of Some i \<Rightarrow> i | None \<Rightarrow> 0) f fs
             in \<lparr>vr_tenant_id = tenant_id, vr_checked = checked, vr_ok = False, vr_broken_at = vr_broken_at first,
                  vr_detail = vr_detail first, vr_chain = vr_chain first\<rparr>)"

definition verify_or_raise :: "(string \<Rightarrow> string) \<Rightarrow> ledger_db \<Rightarrow> string \<Rightarrow> (nat option \<times> failure option) + verify_result" where
  \<comment> \<open>\<open>Inl\<close> is \<open>LedgerChainBroken\<close> with the row it names\<close>
  "verify_or_raise H db tenant_id =
     (let r = dl_verify H db tenant_id None in if vr_ok r then Inr r else Inl (vr_broken_at r, vr_detail r))"

section \<open>What a verified ledger is\<close>

definition dl_body :: "string \<Rightarrow> ledger_row \<Rightarrow> string" where
  "dl_body tenant_id r = record_bytes tenant_id (lr_event_type r) (lr_payload r) (lr_ts r)"

definition dl_linked :: "(string \<Rightarrow> string) \<Rightarrow> string \<Rightarrow> ledger_row list \<Rightarrow> bool" where
  "dl_linked H t rows = linked H lr_prev_hash lr_record_hash (dl_body t) (dl_genesis H t) rows"

lemma hash_walk_None:
  "hash_walk H t c i g rows = None \<longleftrightarrow> linked H lr_prev_hash lr_record_hash (dl_body t) g rows"
  by (induction rows arbitrary: i g) (auto simp: Let_def link_def compute_hash_def dl_body_def)

lemma hash_walk_broken: "hash_walk H t c i g rows = Some r \<Longrightarrow> \<not> vr_ok r"
  by (induction rows arbitrary: i g) (auto simp: Let_def broken_def split: if_splits)

lemma binding_walk_None:
  "binding_walk H db all_rows t c i rows = None \<longleftrightarrow> (\<forall>r \<in> set rows. binding_failure H db all_rows r = None)"
  by (induction rows arbitrary: i) (auto split: option.splits)

lemma binding_walk_broken: "binding_walk H db all_rows t c i rows = Some r \<Longrightarrow> \<not> vr_ok r"
  by (induction rows arbitrary: i) (auto simp: broken_def split: option.splits)

lemma walk_chain_ok:
  "vr_ok (walk_chain H db all_rows t c rows) \<longleftrightarrow>
     dl_linked H t rows \<and> (\<forall>r \<in> set rows. binding_failure H db all_rows r = None)"
  unfolding walk_chain_def dl_linked_def
  using hash_walk_None [of H t c 0 "dl_genesis H t" rows] binding_walk_None [of H db all_rows t c 0 rows]
    hash_walk_broken [of H t c 0 "dl_genesis H t" rows] binding_walk_broken [of H db all_rows t c 0 rows]
  by (auto split: option.splits)

lemma by_chain_rows: "filter (\<lambda>r. lr_chain r = c) (tenant_rows db t) = chain_rows t c (db_ledger db)"
  by (simp add: tenant_rows_def chain_rows_def conj_commute)

lemma verify_both_iff:
  "vr_ok (dl_verify H db t None) \<longleftrightarrow>
     (\<forall>c \<in> set CHAINS. dl_linked H t (chain_rows t c (db_ledger db)) \<and>
        (\<forall>r \<in> set (chain_rows t c (db_ledger db)). binding_failure H db (tenant_rows db t) r = None))"
proof -
  have "vr_ok (dl_verify H db t None) \<longleftrightarrow>
      filter (\<lambda>r. \<not> vr_ok r) (map (\<lambda>c. walk_chain H db (tenant_rows db t) t c (chain_rows t c (db_ledger db))) CHAINS) = []"
    by (auto simp: dl_verify_def by_chain_rows Let_def split: list.splits)
  then show ?thesis by (simp add: filter_empty_conv walk_chain_ok)
qed

lemma verify_checked:
  "vr_checked (dl_verify H db t None) = sum_list (map (\<lambda>c. length (chain_rows t c (db_ledger db))) CHAINS)"
  by (simp add: dl_verify_def by_chain_rows Let_def split: list.splits)

definition ledger_wf :: "ledger_db \<Rightarrow> bool" where
  \<comment> \<open>ids ascend and stay below the sequence\<close>
  "ledger_wf db \<longleftrightarrow> sorted_wrt (\<lambda>r s. lr_id r < lr_id s) (db_ledger db) \<and> (\<forall>r \<in> set (db_ledger db). lr_id r < db_next_id db)"

lemma append_one_simps:
  assumes "append_one H now db t c ev p prev = (row, db')"
  shows "db_ledger db' = db_ledger db @ [row]" "db_next_id db' = Suc (db_next_id db)"
    "db_policies db' = db_policies db" "db_tenants db' = db_tenants db" "lr_id row = db_next_id db"
    "lr_tenant_id row = t" "lr_chain row = c" "lr_event_type row = ev" "lr_payload row = p" "lr_ts row = now"
    "lr_prev_hash row = (case prev of Some r \<Rightarrow> lr_record_hash r | None \<Rightarrow> dl_genesis H t)"
    "lr_record_hash row = H (lr_prev_hash row @ dl_body t row)"
  using assms by (auto simp: append_one_def Let_def compute_hash_def dl_body_def)

lemma append_one_wf:
  assumes "append_one H now db t c ev p prev = (row, db')" "ledger_wf db"
  shows "ledger_wf db'"
  using assms(2) append_one_simps [OF assms(1)] by (auto simp: ledger_wf_def sorted_wrt_append less_Suc_eq)

lemma chain_rows_snoc:
  "chain_rows t c (rows @ [r]) = chain_rows t c rows @ (if lr_tenant_id r = t \<and> lr_chain r = c then [r] else [])"
  by (simp add: chain_rows_def)

lemma chain_head_last_row:
  "chain_head lr_record_hash (dl_genesis H t) (chain_rows t c (db_ledger db))
     = (case last_row db t c of Some r \<Rightarrow> lr_record_hash r | None \<Rightarrow> dl_genesis H t)"
  by (simp add: chain_head_def last_row_def Let_def)

lemma append_one_linked:
  assumes "append_one H now db t c ev p (last_row db t c) = (row, db')"
    and "dl_linked H u (chain_rows u d (db_ledger db))"
  shows "dl_linked H u (chain_rows u d (db_ledger db'))"
  using assms(2) append_one_simps [OF assms(1)]
  by (auto simp: chain_rows_snoc dl_linked_def linked_snoc chain_head_last_row link_def)

lemma cross_anchor_failure_cong:
  assumes "\<And>c. filter (\<lambda>s. lr_chain s = c \<and> lr_id s < lr_id r) rows = filter (\<lambda>s. lr_chain s = c \<and> lr_id s < lr_id r) rows'"
  shows "cross_anchor_failure r rows = cross_anchor_failure r rows'"
  unfolding cross_anchor_failure_def assms by (rule refl)

lemma binding_failure_earlier:
  assumes "\<forall>s \<in> set new. \<not> lr_id s < lr_id r" "db_policies db' = db_policies db" "db_tenants db' = db_tenants db"
  shows "binding_failure H db' (rows @ new) r = binding_failure H db rows r"
proof -
  have "cross_anchor_failure r (rows @ new) = cross_anchor_failure r rows"
    by (rule cross_anchor_failure_cong) (use assms(1) in \<open>auto simp: filter_empty_conv\<close>)
  then show ?thesis using assms(2,3) by (simp add: binding_failure_def)
qed

lemma tenant_rows_snoc:
  "db_ledger db' = db_ledger db @ [row] \<Longrightarrow>
     tenant_rows db' t = tenant_rows db t @ (if lr_tenant_id row = t then [row] else [])"
  by (simp add: tenant_rows_def)

lemma append_one_bindings:
  assumes a: "append_one H now db t c ev p prev = (row, db')" and "ledger_wf db"
    and old: "\<forall>r \<in> set (tenant_rows db u). binding_failure H db (tenant_rows db u) r = None"
    and new: "u = t \<Longrightarrow> binding_failure H db (tenant_rows db u) row = None"
  shows "\<forall>r \<in> set (tenant_rows db' u). binding_failure H db' (tenant_rows db' u) r = None"
proof -
  note s = append_one_simps [OF a]
  let ?new = "if lr_tenant_id row = u then [row] else []"
  have rows: "tenant_rows db' u = tenant_rows db u @ ?new" by (rule tenant_rows_snoc [OF s(1)])
  have "\<not> lr_id row < lr_id r" if "r \<in> set (tenant_rows db u)" for r
    using that assms(2) s(5) by (auto simp: ledger_wf_def tenant_rows_def)
  then have "binding_failure H db' (tenant_rows db' u) r = None" if "r \<in> set (tenant_rows db u)" for r
    unfolding rows using binding_failure_earlier [of ?new r db' db H "tenant_rows db u"] old that s(3,4) by simp
  moreover have "binding_failure H db' (tenant_rows db' u) row = None" if "lr_tenant_id row = u"
    unfolding rows using binding_failure_earlier [of ?new row db' db H "tenant_rows db u"] new that s by simp
  ultimately show ?thesis by (auto simp: rows split: if_splits)
qed

section \<open>Cross-anchors\<close>

lemma hex64_to_hex:
  assumes "length h = 32"
  shows "hex64 (to_hex h)"
proof -
  have digit: "hex_digit d \<in> set ''0123456789abcdef''" if "d < 16" for d
    unfolding hex_digit_def using that by (intro nth_mem) simp
  have len: "length (to_hex bs) = 2 * length bs" for bs
    unfolding to_hex_def by (induction bs) auto
  have "(of_char c :: nat) div 16 < 16" for c :: char using of_char_less [of c] by linarith
  then have "\<forall>c \<in> set (to_hex h). c \<in> set ''0123456789abcdef''"
    unfolding to_hex_def using digit by auto
  with assms len show ?thesis unfolding hex64_def by simp
qed

lemma last_row_rows: "last_row db t c = Some r \<Longrightarrow> chain_rows t c (db_ledger db) \<noteq> [] \<and> r = last (chain_rows t c (db_ledger db))"
  by (auto simp: last_row_def Let_def split: if_splits)

lemma last_row_None: "last_row db t c = None \<longleftrightarrow> chain_rows t c (db_ledger db) = []"
  by (simp add: last_row_def Let_def)

lemma validate_anchor:
  assumes "coerces co" "c \<in> set CHAINS"
    and "\<And>r. last_row db t (other_chain c) = Some r \<Longrightarrow> length (lr_record_hash r) = 32"
  shows "validate co ''chain.cross_anchor'' (anchor_payload db t c) = Inr (anchor_payload db t c)"
proof -
  have co: "co ty j = Some j" if "has_type ty j" for ty j using assms(1) that by (auto simp: coerces_def)
  have ch: "has_type CHAIN_T (JStr c)" "has_type CHAIN_T (JStr (other_chain c))" "c \<noteq> other_chain c"
    using assms(2) by (auto simp: CHAIN_T_def CHAINS_def other_chain_def)
  show ?thesis
  proof (cases "last_row db t (other_chain c)")
    case None
    then have "chain_rows t (other_chain c) (db_ledger db) = []" by (simp add: last_row_None)
    with None ch show ?thesis
      by (simp add: validate_def REGISTRY_def run_model_def ChainCrossAnchor_def anchor_payload_def co no_check_def
          must_differ_def check_hash_def head_fields_agree_def pget_def)
  next
    case (Some r)
    with last_row_rows have "0 < length (chain_rows t (other_chain c) (db_ledger db))" by blast
    with Some ch hex64_to_hex [OF assms(3) [OF Some]] show ?thesis
      by (simp add: validate_def REGISTRY_def run_model_def ChainCrossAnchor_def anchor_payload_def co no_check_def
          must_differ_def check_hash_def head_fields_agree_def pget_def Let_def Suc_leI)
  qed
qed

lemma anchor_fields:
  "pget ''chain'' (anchor_payload db t c) = JStr c"
  "pget ''other_chain'' (anchor_payload db t c) = JStr (other_chain c)"
  "pget ''other_chain_count'' (anchor_payload db t c) = JInt (int (length (chain_rows t (other_chain c) (db_ledger db))))"
  "pget ''other_chain_head_id'' (anchor_payload db t c)
     = (case last_row db t (other_chain c) of Some r \<Rightarrow> JInt (int (lr_id r)) | None \<Rightarrow> JNull)"
  "pget ''other_chain_head_hash'' (anchor_payload db t c)
     = (case last_row db t (other_chain c) of Some r \<Rightarrow> JStr (to_hex (lr_record_hash r)) | None \<Rightarrow> JNull)"
  by (simp_all add: anchor_payload_def pget_def Let_def)

lemma earlier_rows:
  assumes "ledger_wf db" "lr_id row = db_next_id db"
  shows "filter (\<lambda>r. lr_chain r = c \<and> lr_id r < lr_id row) (tenant_rows db t) = chain_rows t c (db_ledger db)"
  unfolding tenant_rows_def chain_rows_def filter_filter
  by (rule filter_cong) (use assms in \<open>auto simp: ledger_wf_def\<close>)

lemma anchor_binds:
  assumes "ledger_wf db" "c \<in> set CHAINS" "lr_id row = db_next_id db" "lr_chain row = c"
    and "lr_payload row = anchor_payload db t c"
  shows "cross_anchor_failure row (tenant_rows db t) = None"
proof -
  have "other_chain c \<in> set CHAINS" "other_chain c \<noteq> c"
    using assms(2) by (auto simp: CHAINS_def other_chain_def)
  then show ?thesis
    using last_row_rows [of db t "other_chain c"] last_row_None [of db t "other_chain c"]
    by (cases "last_row db t (other_chain c)")
      (auto simp: cross_anchor_failure_def assms(4,5) anchor_fields Let_def py_int_def earlier_rows [OF assms(1,3)])
qed

section \<open>Appending keeps the ledger verified\<close>

definition binds :: "(string \<Rightarrow> string) \<Rightarrow> ledger_db \<Rightarrow> string \<Rightarrow> string \<Rightarrow> fields \<Rightarrow> bool" where
  \<comment> \<open>the policy rows a new record names exist with the hashes it names\<close>
  "binds H db t ev p \<longleftrightarrow>
     (\<forall>row. lr_tenant_id row = t \<and> lr_event_type row = ev \<and> lr_payload row = p \<longrightarrow> binding_failure H db [] row = None)"

lemma binds_row:
  assumes "binds H db t ev p" "lr_tenant_id row = t" "lr_event_type row = ev" "lr_payload row = p"
    and "ev \<noteq> ''chain.cross_anchor''"
  shows "binding_failure H db rows row = None"
proof -
  have "binding_failure H db rows row = binding_failure H db [] row"
    using assms(3,5) by (simp add: binding_failure_def)
  with assms(1-4) show ?thesis unfolding binds_def by auto
qed

lemma binds_request_failed: "binds H db t ''request.failed'' p"
  by (simp add: binds_def binding_failure_def)

lemma pick_chain_Inr: "pick_chain ev cn = Inr c \<Longrightarrow> c \<in> set CHAINS \<and> ev \<noteq> ''chain.cross_anchor''"
  by (auto simp: pick_chain_def rbind_Inr_iff split: if_splits)

lemma tenant_bindings:
  assumes "\<forall>r \<in> set (db_ledger db). lr_chain r \<in> set CHAINS"
  shows "vr_ok (dl_verify H db t None) \<longleftrightarrow>
     (\<forall>c \<in> set CHAINS. dl_linked H t (chain_rows t c (db_ledger db))) \<and>
     (\<forall>r \<in> set (tenant_rows db t). binding_failure H db (tenant_rows db t) r = None)"
  unfolding verify_both_iff using assms by (auto simp: tenant_rows_def chain_rows_def)

definition chains_known :: "ledger_db \<Rightarrow> bool" where
  "chains_known db \<longleftrightarrow> (\<forall>r \<in> set (db_ledger db). lr_chain r \<in> set CHAINS)"

definition dl_good :: "(string \<Rightarrow> string) \<Rightarrow> ledger_db \<Rightarrow> bool" where
  \<comment> \<open>every tenant's ledger verifies, and the table is as the module leaves it\<close>
  "dl_good H db \<longleftrightarrow> ledger_wf db \<and> chains_known db \<and> (\<forall>t. vr_ok (dl_verify H db t None))"

lemma dl_good_iff:
  "dl_good H db \<longleftrightarrow> ledger_wf db \<and> chains_known db \<and>
     (\<forall>t. (\<forall>c \<in> set CHAINS. dl_linked H t (chain_rows t c (db_ledger db))) \<and>
          (\<forall>r \<in> set (tenant_rows db t). binding_failure H db (tenant_rows db t) r = None))"
  unfolding dl_good_def chains_known_def using tenant_bindings [of db] by blast

lemma append_one_good:
  assumes good: "dl_good H db" and a: "append_one H now db t c ev p (last_row db t c) = (row, db')"
    and c: "c \<in> set CHAINS" and new: "binding_failure H db (tenant_rows db t) row = None"
  shows "dl_good H db'"
proof -
  from good have wf: "ledger_wf db" and "chains_known db" unfolding dl_good_iff by blast+
  then have "chains_known db'" using append_one_simps [OF a] c by (auto simp: chains_known_def)
  moreover have "ledger_wf db'" by (rule append_one_wf [OF a wf])
  moreover have "dl_linked H u (chain_rows u d (db_ledger db'))" if "d \<in> set CHAINS" for u d
    by (rule append_one_linked [OF a]) (use good that in \<open>auto simp: dl_good_iff\<close>)
  moreover have "\<forall>r \<in> set (tenant_rows db' u). binding_failure H db' (tenant_rows db' u) r = None" for u
    by (rule append_one_bindings [OF a wf]) (use good new in \<open>auto simp: dl_good_iff\<close>)
  ultimately show ?thesis unfolding dl_good_iff by blast
qed

lemma good_head_length:
  assumes "dl_good H db" "\<And>x. length (H x) = 32" "last_row db t c = Some r"
  shows "length (lr_record_hash r) = 32"
proof -
  from last_row_rows [OF assms(3)] have ne: "chain_rows t c (db_ledger db) \<noteq> []" and r: "r = last (chain_rows t c (db_ledger db))"
    by auto
  then have "r \<in> set (chain_rows t c (db_ledger db))" by simp
  then have "lr_chain r = c" "r \<in> set (db_ledger db)" by (auto simp: chain_rows_def)
  with assms(1) have "c \<in> set CHAINS" by (auto simp: dl_good_def chains_known_def)
  with assms(1) have "dl_linked H t (chain_rows t c (db_ledger db))" by (auto simp: dl_good_iff)
  from length_chain_head [OF this [unfolded dl_linked_def] assms(2)] show ?thesis
    using ne r by (simp add: chain_head_def dl_genesis_def assms(2))
qed

lemma other_chain_rows_same:
  assumes "append_one H now db t c ev p prev = (row, db1)" "c \<in> set CHAINS"
  shows "chain_rows t (other_chain c) (db_ledger db1) = chain_rows t (other_chain c) (db_ledger db)"
  using append_one_simps [OF assms(1)] assms(2) by (auto simp: chain_rows_snoc CHAINS_def other_chain_def)

lemma last_row_appended:
  assumes "append_one H now db t c ev p prev = (row, db1)"
  shows "last_row db1 t c = Some row"
  using append_one_simps [OF assms] by (simp add: last_row_def chain_rows_snoc Let_def)

lemma verify_checked_both:
  "vr_checked (dl_verify H db t None)
     = length (chain_rows t ''ctl'' (db_ledger db)) + length (chain_rows t ''dp'' (db_ledger db))"
  by (simp add: verify_checked CHAINS_def)

lemma dl_append_good:
  assumes good: "dl_good H db" and co: "coerces co" and len: "\<And>x. length (H x) = 32"
    and c: "pick_chain ev cn = Inr c" and v: "validate co ev p = Inr q" and binds: "binds H db t ev q"
  shows "\<exists>row anchor db'. dl_append co H now now' db t ev p cn = Inr (row, db') \<and> dl_good H db'
    \<and> db_ledger db' = db_ledger db @ [row, anchor] \<and> lr_payload row = q \<and> lr_event_type row = ev
    \<and> lr_chain row = c \<and> lr_chain anchor = c \<and> lr_event_type anchor = ''chain.cross_anchor''
    \<and> lr_tenant_id row = t \<and> lr_tenant_id anchor = t
    \<and> db_policies db' = db_policies db \<and> db_tenants db' = db_tenants db"
proof -
  from pick_chain_Inr [OF c] have cc: "c \<in> set CHAINS" and ev: "ev \<noteq> ''chain.cross_anchor''" by auto
  obtain row db1 where a1: "append_one H now db t c ev q (last_row db t c) = (row, db1)" by fastforce
  note s1 = append_one_simps [OF a1]
  have good1: "dl_good H db1"
    by (rule append_one_good [OF good a1 cc]) (rule binds_row [OF binds s1(6,8,9) ev])
  let ?q = "anchor_payload db1 t c"
  have va: "validate co ''chain.cross_anchor'' ?q = Inr ?q"
    by (rule validate_anchor [OF co cc]) (rule good_head_length [OF good1 len])
  obtain anchor db2 where a2: "append_one H now' db1 t c ''chain.cross_anchor'' ?q (Some row) = (anchor, db2)"
    by fastforce
  note s2 = append_one_simps [OF a2]
  have "append_one H now' db1 t c ''chain.cross_anchor'' ?q (last_row db1 t c) = (anchor, db2)"
    using a2 last_row_appended [OF a1] by simp
  from append_one_good [OF good1 this cc] have good2: "dl_good H db2"
    using anchor_binds [OF _ cc s2(5,7,9)] good1 s2(8) by (simp add: binding_failure_def dl_good_def)
  have "dl_append co H now now' db t ev p cn = Inr (row, db2)"
    by (simp add: dl_append_def c v a1 append_cross_anchor_def va a2)
  then show ?thesis using good2 s1 s2 by (intro exI [of _ row] exI [of _ anchor] exI [of _ db2]) simp
qed

text \<open>C29. On a ledger that verifies for every tenant, an append of a well-routed, valid record whose policy
  hashes match the stored policies always succeeds. It writes exactly two rows after the existing ones,
  the record and a cross-anchor of the same chain; afterwards the ledger still verifies for every tenant,
  with two more rows checked for this one.\<close>

theorem append_keeps_ledger_verified:
  assumes good: "dl_good H db" and co: "coerces co" and len: "\<And>x. length (H x) = 32"
    and c: "pick_chain ev cn = Inr c" and v: "validate co ev p = Inr q" and binds: "binds H db t ev q"
  shows "\<exists>row anchor db'. dl_append co H now now' db t ev p cn = Inr (row, db') \<and> dl_good H db'
    \<and> db_ledger db' = db_ledger db @ [row, anchor] \<and> lr_payload row = q \<and> lr_event_type row = ev
    \<and> lr_chain row = c \<and> lr_chain anchor = c \<and> lr_event_type anchor = ''chain.cross_anchor''
    \<and> vr_checked (dl_verify H db' t None) = vr_checked (dl_verify H db t None) + 2"
proof -
  from pick_chain_Inr [OF c] have "c = ''ctl'' \<or> c = ''dp''" by (auto simp: CHAINS_def)
  moreover obtain row anchor db' where r: "dl_append co H now now' db t ev p cn = Inr (row, db')" "dl_good H db'"
      "db_ledger db' = db_ledger db @ [row, anchor]" "lr_payload row = q" "lr_event_type row = ev"
      "lr_chain row = c" "lr_chain anchor = c" "lr_event_type anchor = ''chain.cross_anchor''"
    and t: "lr_tenant_id row = t" "lr_tenant_id anchor = t"
    using dl_append_good [OF assms, of now now'] by blast
  ultimately have "vr_checked (dl_verify H db' t None) = vr_checked (dl_verify H db t None) + 2"
    by (auto simp: verify_checked_both chain_rows_def r t)
  with r show ?thesis by blast
qed

definition empty_db :: "policy_row list \<Rightarrow> (string \<times> string option) list \<Rightarrow> ledger_db" where
  "empty_db ps ts = \<lparr>db_ledger = [], db_next_id = 1, db_policies = ps, db_tenants = ts\<rparr>"

lemma empty_db_good: "dl_good H (empty_db ps ts)"
  by (simp add: dl_good_iff empty_db_def ledger_wf_def chains_known_def chain_rows_def tenant_rows_def dl_linked_def)

definition toy_digest :: "string \<Rightarrow> string" where
  \<comment> \<open>a concrete digest of 32 bytes, used only to evaluate examples\<close>
  "toy_digest x = take 32 (rev x @ replicate 32 (CHR 0x00))"

lemma toy_digest_length: "length (toy_digest x) = 32"
  by (simp add: toy_digest_def)

definition demo_failed :: fields where
  "demo_failed = [(''request_id'', JStr ''r1''), (''stage'', JStr ''upstream''), (''code'', JStr ''E''),
     (''upstream_model'', JStr ''m''), (''org_policy_version'', JInt 3), (''bu_policy_version'', JNull)]"

lemma append_keeps_ledger_verified_witness:
  "\<exists>row anchor db'. dl_append strict_coercion toy_digest ''08:00'' ''08:01'' (empty_db [] []) ''t'' ''request.failed''
      demo_failed None = Inr (row, db')
    \<and> dl_good toy_digest db' \<and> db_ledger db' = [row, anchor] \<and> lr_chain anchor = ''dp''"
proof -
  have c: "pick_chain ''request.failed'' None = Inr ''dp''" by code_simp
  have v: "validate strict_coercion ''request.failed'' demo_failed = Inr demo_failed" by code_simp
  from append_keeps_ledger_verified [OF empty_db_good strict_coerces toy_digest_length c v binds_request_failed]
  show ?thesis by (fastforce simp: empty_db_def)
qed

section \<open>What verification establishes\<close>

definition dl_walked :: "string \<Rightarrow> ledger_row list \<Rightarrow> string set" where
  "dl_walked t rows = link_inputs lr_prev_hash (dl_body t) rows"

definition same_record :: "ledger_row \<Rightarrow> ledger_row \<Rightarrow> bool" where
  "same_record r s \<longleftrightarrow> lr_event_type r = lr_event_type s \<and> lr_ts r = lr_ts s
     \<and> sort_keys (JObj (lr_payload r)) = sort_keys (JObj (lr_payload s))"

definition rows_before :: "ledger_row \<Rightarrow> ledger_db \<Rightarrow> string \<Rightarrow> ledger_row list" where
  \<comment> \<open>the rows of the other chain that precede an anchor\<close>
  "rows_before anchor db t =
     filter (\<lambda>r. lr_chain r = other_chain (lr_chain anchor) \<and> lr_id r < lr_id anchor) (tenant_rows db t)"

lemma dl_body_inj:
  assumes "dl_body t r = dl_body t s" "json_wf (JObj (lr_payload r))" "json_wf (JObj (lr_payload s))"
  shows "same_record r s"
  using canonical_record_inj assms unfolding dl_body_def record_bytes_def same_record_def by blast

lemma filter_id_take:
  assumes "sorted_wrt (\<lambda>r s. lr_id r < lr_id s) rows"
  shows "\<exists>m. filter (\<lambda>r. lr_id r < k) rows = take m rows"
  using assms
proof (induction rows)
  case (Cons r rows)
  then obtain m where m: "filter (\<lambda>r. lr_id r < k) rows = take m rows" by auto
  show ?case
  proof (cases "lr_id r < k")
    case True
    with m show ?thesis by (intro exI [of _ "Suc m"]) simp
  next
    case False
    with Cons.prems have "filter (\<lambda>r. lr_id r < k) (r # rows) = []" by (auto simp: filter_empty_conv)
    then show ?thesis by (intro exI [of _ 0]) simp
  qed
qed simp

lemma rows_before_linked:
  assumes "ledger_wf db" "vr_ok (dl_verify H db t None)" "lr_chain anchor \<in> set CHAINS"
  shows "dl_linked H t (rows_before anchor db t)"
proof -
  let ?c = "other_chain (lr_chain anchor)"
  have "rows_before anchor db t = filter (\<lambda>r. lr_id r < lr_id anchor) (chain_rows t ?c (db_ledger db))"
    by (auto simp: rows_before_def tenant_rows_def chain_rows_def intro!: filter_cong)
  moreover have "sorted_wrt (\<lambda>r s. lr_id r < lr_id s) (chain_rows t ?c (db_ledger db))"
    using assms(1) by (simp add: ledger_wf_def chain_rows_def sorted_wrt_filter)
  ultimately obtain m where "rows_before anchor db t = take m (chain_rows t ?c (db_ledger db))"
    using filter_id_take by metis
  moreover have "?c \<in> set CHAINS" by (auto simp: CHAINS_def other_chain_def)
  ultimately show ?thesis
    using assms(2) linked_take unfolding verify_both_iff dl_linked_def by metis
qed

lemma anchor_names_rows:
  assumes "cross_anchor_failure anchor (tenant_rows db t) = None" "lr_chain anchor \<in> set CHAINS"
  shows "py_int (pget ''other_chain_count'' (lr_payload anchor)) = Some (int (length (rows_before anchor db t)))"
    "rows_before anchor db t \<noteq> [] \<Longrightarrow>
       pget ''other_chain_head_hash'' (lr_payload anchor) = JStr (to_hex (lr_record_hash (last (rows_before anchor db t))))"
proof -
  from assms have "pget ''other_chain'' (lr_payload anchor) = JStr (other_chain (lr_chain anchor))"
    by (auto simp: cross_anchor_failure_def Let_def CHAINS_def other_chain_def split: if_splits)
  with assms(1) show "py_int (pget ''other_chain_count'' (lr_payload anchor)) = Some (int (length (rows_before anchor db t)))"
    "rows_before anchor db t \<noteq> [] \<Longrightarrow>
       pget ''other_chain_head_hash'' (lr_payload anchor) = JStr (to_hex (lr_record_hash (last (rows_before anchor db t))))"
    by (auto simp: cross_anchor_failure_def rows_before_def Let_def split: if_splits)
qed

lemma anchor_checked:
  assumes "vr_ok (dl_verify H db t None)" "anchor \<in> set (tenant_rows db t)" "lr_chain anchor \<in> set CHAINS"
    and "lr_event_type anchor = ''chain.cross_anchor''"
  shows "cross_anchor_failure anchor (tenant_rows db t) = None"
proof -
  from assms(2) have "anchor \<in> set (chain_rows t (lr_chain anchor) (db_ledger db))"
    by (simp add: tenant_rows_def chain_rows_def)
  with assms(1,3) have "binding_failure H db (tenant_rows db t) anchor = None"
    unfolding verify_both_iff by blast
  with assms(4) show ?thesis by (simp add: binding_failure_def)
qed

text \<open>C31. If two ledgers verify and both hold the same cross-anchor row, then the rows of the other chain
  that precede the anchor record the same events, payloads (up to key order) and times in both: one
  chain cannot be rewritten, even with all its digests recomputed, while the other keeps an anchor that
  was made afterwards, unless the two walks hash two different byte strings to the same digest.\<close>

theorem cross_anchor_commits_other_chain:
  assumes "ledger_wf db" "ledger_wf db'" "vr_ok (dl_verify H db t None)" "vr_ok (dl_verify H db' t None)"
    and "anchor \<in> set (tenant_rows db t)" "anchor \<in> set (tenant_rows db' t)"
    and "lr_event_type anchor = ''chain.cross_anchor''" "lr_chain anchor \<in> set CHAINS"
    and "\<And>x. length (H x) = n"
    and "\<forall>r \<in> set (rows_before anchor db t) \<union> set (rows_before anchor db' t). json_wf (JObj (lr_payload r))"
  shows "list_all2 same_record (rows_before anchor db t) (rows_before anchor db' t)
    \<or> collides H (dl_walked t (rows_before anchor db t)) (dl_walked t (rows_before anchor db' t))"
proof (cases "collides H (dl_walked t (rows_before anchor db t)) (dl_walked t (rows_before anchor db' t))")
  case False
  let ?rs = "rows_before anchor db t" and ?ss = "rows_before anchor db' t"
  note ok = anchor_names_rows [OF anchor_checked [OF assms(3,5,8,7)] assms(8)]
    and ok' = anchor_names_rows [OF anchor_checked [OF assms(4,6,8,7)] assms(8)]
  from ok(1) ok'(1) have len: "length ?rs = length ?ss" by simp
  then have "?rs = [] \<longleftrightarrow> ?ss = []" by auto
  then have head: "chain_head lr_record_hash (dl_genesis H t) ?rs = chain_head lr_record_hash (dl_genesis H t) ?ss"
    using ok(2) ok'(2) by (auto simp: chain_head_def)
  have "length (dl_genesis H t) = n" by (simp add: dl_genesis_def assms(9))
  from linked_same_head [OF rows_before_linked [OF assms(1,3,8), unfolded dl_linked_def]
      rows_before_linked [OF assms(2,4,8), unfolded dl_linked_def] len head assms(9) this] False
  have "map (dl_body t) ?rs = map (dl_body t) ?ss" by (simp add: dl_walked_def)
  then have "list_all2 (\<lambda>r s. dl_body t r = dl_body t s) ?rs ?ss"
    by (simp add: list_all2_conv_all_nth list_eq_iff_nth_eq)
  then have "list_all2 same_record ?rs ?ss"
  proof (rule list.rel_mono_strong)
    fix r s assume "r \<in> set ?rs" "s \<in> set ?ss" "dl_body t r = dl_body t s"
    with assms(10) show "same_record r s" by (intro dl_body_inj [of t]) blast+
  qed
  then show ?thesis ..
qed simp

definition demo_one :: ledger_db where
  "demo_one = snd (append_one toy_digest ''1'' (empty_db [] []) ''t'' ''dp'' ''x'' [] None)"

definition demo_anchored :: ledger_db where
  "demo_anchored = snd (append_one toy_digest ''2'' demo_one ''t'' ''ctl'' ''chain.cross_anchor''
     (anchor_payload demo_one ''t'' ''ctl'') None)"

definition demo_grown :: ledger_db where
  "demo_grown = snd (append_one toy_digest ''3'' demo_anchored ''t'' ''dp'' ''x'' [(''n'', JInt 1)]
     (last_row demo_anchored ''t'' ''dp''))"

lemma demo_ledgers:
  "dl_good toy_digest demo_anchored" "dl_good toy_digest demo_grown"
  "\<exists>r a g. db_ledger demo_anchored = [r, a] \<and> db_ledger demo_grown = [r, a, g] \<and> lr_tenant_id r = ''t''
    \<and> lr_chain r = ''dp'' \<and> lr_payload r = [] \<and> lr_id r = 1 \<and> lr_tenant_id a = ''t'' \<and> lr_chain a = ''ctl'' \<and> lr_id a = 2
    \<and> lr_event_type a = ''chain.cross_anchor'' \<and> lr_id g = 3"
proof -
  obtain r d1 where a1: "append_one toy_digest ''1'' (empty_db [] []) ''t'' ''dp'' ''x'' [] None = (r, d1)" by fastforce
  then have d1: "demo_one = d1" by (simp add: demo_one_def)
  obtain a d2 where a2: "append_one toy_digest ''2'' demo_one ''t'' ''ctl'' ''chain.cross_anchor''
     (anchor_payload demo_one ''t'' ''ctl'') None = (a, d2)" by fastforce
  then have d2: "demo_anchored = d2" by (simp add: demo_anchored_def)
  obtain g d3 where a3: "append_one toy_digest ''3'' demo_anchored ''t'' ''dp'' ''x'' [(''n'', JInt 1)]
     (last_row demo_anchored ''t'' ''dp'') = (g, d3)" by fastforce
  then have d3: "demo_grown = d3" by (simp add: demo_grown_def)
  note s = append_one_simps [OF a1] append_one_simps [OF a2] append_one_simps [OF a3]
  have none: "last_row (empty_db [] []) ''t'' ''dp'' = None" "last_row demo_one ''t'' ''ctl'' = None"
    using s unfolding d1 by (simp_all add: last_row_None chain_rows_def empty_db_def)
  have good1: "dl_good toy_digest demo_one"
    using append_one_good [OF empty_db_good a1 [folded none(1)]] s unfolding d1
    by (simp add: CHAINS_def binding_failure_def)
  show good2: "dl_good toy_digest demo_anchored"
    unfolding d2
  proof (rule append_one_good [OF good1 a2 [folded none(2)]])
    show "binding_failure toy_digest demo_one (tenant_rows demo_one ''t'') a = None"
      using anchor_binds [of demo_one "''ctl''" a "''t''"] good1 s by (simp add: binding_failure_def dl_good_def CHAINS_def)
  qed (simp add: CHAINS_def)
  show "dl_good toy_digest demo_grown"
    unfolding d3 by (rule append_one_good [OF good2 a3]) (use s in \<open>simp_all add: CHAINS_def binding_failure_def\<close>)
  show "\<exists>r a g. db_ledger demo_anchored = [r, a] \<and> db_ledger demo_grown = [r, a, g] \<and> lr_tenant_id r = ''t''
    \<and> lr_chain r = ''dp'' \<and> lr_payload r = [] \<and> lr_id r = 1 \<and> lr_tenant_id a = ''t'' \<and> lr_chain a = ''ctl'' \<and> lr_id a = 2
    \<and> lr_event_type a = ''chain.cross_anchor'' \<and> lr_id g = 3"
    using s d1 d2 d3 by (intro exI [of _ r] exI [of _ a] exI [of _ g]) (simp add: empty_db_def)
qed

lemma cross_anchor_commits_other_chain_witness:
  "\<exists>anchor. anchor \<in> set (tenant_rows demo_grown ''t'') \<and> rows_before anchor demo_grown ''t'' \<noteq> []
     \<and> (list_all2 same_record (rows_before anchor demo_anchored ''t'') (rows_before anchor demo_grown ''t'')
        \<or> collides toy_digest (dl_walked ''t'' (rows_before anchor demo_anchored ''t''))
            (dl_walked ''t'' (rows_before anchor demo_grown ''t'')))"
proof -
  from demo_ledgers(3) obtain r a g where l: "db_ledger demo_anchored = [r, a]" "db_ledger demo_grown = [r, a, g]"
    and r: "lr_tenant_id r = ''t''" "lr_chain r = ''dp''" "lr_payload r = []" "lr_id r = 1"
    and a: "lr_tenant_id a = ''t''" "lr_chain a = ''ctl''" "lr_id a = 2" "lr_event_type a = ''chain.cross_anchor''"
    and g: "lr_id g = 3" by blast
  have rows: "rows_before a demo_anchored ''t'' = [r]" "rows_before a demo_grown ''t'' = [r]"
    using r a g by (simp_all add: rows_before_def tenant_rows_def l other_chain_def)
  have mem: "a \<in> set (tenant_rows demo_anchored ''t'')" "a \<in> set (tenant_rows demo_grown ''t'')"
    using a by (simp_all add: tenant_rows_def l)
  have ok: "ledger_wf demo_anchored" "ledger_wf demo_grown" "vr_ok (dl_verify toy_digest demo_anchored ''t'' None)"
    "vr_ok (dl_verify toy_digest demo_grown ''t'' None)"
    using demo_ledgers(1,2) by (simp_all add: dl_good_def)
  have ch: "lr_chain a \<in> set CHAINS" using a by (simp add: CHAINS_def)
  have js: "\<forall>x \<in> set (rows_before a demo_anchored ''t'') \<union> set (rows_before a demo_grown ''t''). json_wf (JObj (lr_payload x))"
    by (simp add: rows r)
  from cross_anchor_commits_other_chain [OF ok mem a(4) ch toy_digest_length js] mem rows show ?thesis by auto
qed

definition policy_bytes :: "string \<Rightarrow> json \<Rightarrow> string \<Rightarrow> string" where
  "policy_bytes t version yaml =
     canonical_json (JObj [(''tenant_id'', JStr t), (''version'', version), (''yaml'', JStr yaml)])"

lemma policy_bytes_inj:
  assumes "policy_bytes t v y = policy_bytes t v y'" "json_wf v"
  shows "y = y'"
proof -
  have "sort_keys (JObj [(''tenant_id'', JStr t), (''version'', v), (''yaml'', JStr y)])
      = sort_keys (JObj [(''tenant_id'', JStr t), (''version'', v), (''yaml'', JStr y')])"
    by (rule canonical_json_inj [OF _ _ assms(1) [unfolded policy_bytes_def]]) (use assms(2) in simp_all)
  then show ?thesis by (simp add: sort_key_def less_char_def)
qed

lemma find_policy_version: "find_policy ps t v = Some p \<Longrightarrow> json_wf v"
  by (cases v) (auto simp: find_policy_def find_Some_iff py_int_def)

lemma policy_updated_bound:
  assumes "vr_ok (dl_verify H db t None)" "row \<in> set (tenant_rows db t)" "lr_chain row \<in> set CHAINS"
    and "lr_event_type row = ''policy.updated''" "pget ''content_hash'' (lr_payload row) \<noteq> JNull"
  shows "\<exists>p. find_policy (db_policies db) t (pget ''version'' (lr_payload row)) = Some p
    \<and> pget ''content_hash'' (lr_payload row) = JStr (to_hex (H (policy_bytes t (pget ''version'' (lr_payload row)) (pr_yaml p))))"
proof -
  from assms(2) have t: "lr_tenant_id row = t" by (simp add: tenant_rows_def)
  from assms(2) have "row \<in> set (chain_rows t (lr_chain row) (db_ledger db))"
    by (simp add: tenant_rows_def chain_rows_def)
  with assms(1,3) have "binding_failure H db (tenant_rows db t) row = None" unfolding verify_both_iff by blast
  with assms(4,5) t show ?thesis
    by (auto simp: binding_failure_def policy_updated_failure_def policy_row_hash_def policy_bytes_def Let_def
        split: option.splits if_splits)
qed

text \<open>A ledger that verifies pins the text of every published policy: if the stored policies are
  replaced and the ledger still verifies, the row a \<open>policy.updated\<close> record names is still there with the
  same YAML text, or the two texts give a digest collision.\<close>

theorem published_policy_text_is_pinned:
  assumes "vr_ok (dl_verify H db t None)" "vr_ok (dl_verify H (db\<lparr>db_policies := ps\<rparr>) t None)"
    and "row \<in> set (tenant_rows db t)" "lr_chain row \<in> set CHAINS"
    and "lr_event_type row = ''policy.updated''" "pget ''content_hash'' (lr_payload row) \<noteq> JNull"
  shows "\<exists>p q. let v = pget ''version'' (lr_payload row) in
      find_policy (db_policies db) t v = Some p \<and> find_policy ps t v = Some q
      \<and> (pr_yaml p = pr_yaml q \<or> collides H {policy_bytes t v (pr_yaml p)} {policy_bytes t v (pr_yaml q)})"
proof -
  let ?v = "pget ''version'' (lr_payload row)"
  from policy_updated_bound [OF assms(1,3-6)] obtain p where p: "find_policy (db_policies db) t ?v = Some p"
    and hp: "pget ''content_hash'' (lr_payload row) = JStr (to_hex (H (policy_bytes t ?v (pr_yaml p))))" by blast
  have "row \<in> set (tenant_rows (db\<lparr>db_policies := ps\<rparr>) t)" using assms(3) by (simp add: tenant_rows_def)
  from policy_updated_bound [OF assms(2) this assms(4-6)] obtain q where q: "find_policy ps t ?v = Some q"
    and hq: "pget ''content_hash'' (lr_payload row) = JStr (to_hex (H (policy_bytes t ?v (pr_yaml q))))" by auto
  from hp hq have "H (policy_bytes t ?v (pr_yaml p)) = H (policy_bytes t ?v (pr_yaml q))" by simp
  moreover have "policy_bytes t ?v (pr_yaml p) = policy_bytes t ?v (pr_yaml q) \<Longrightarrow> pr_yaml p = pr_yaml q"
    using policy_bytes_inj find_policy_version [OF p] by blast
  ultimately show ?thesis using p q unfolding collides_def Let_def by blast
qed

definition demo_publish :: "policy_row list \<Rightarrow> ledger_row \<times> ledger_db" where
  "demo_publish ps = append_one toy_digest ''1'' (empty_db ps []) ''t'' ''ctl'' ''policy.updated''
     [(''content_hash'', JStr (policy_row_hash toy_digest ''t'' (JInt 1) ''r'')), (''version'', JInt 1)] None"

definition demo_policy :: "string \<Rightarrow> policy_row" where
  "demo_policy t = \<lparr>pr_tenant_id = t, pr_version = 1, pr_yaml = ''r''\<rparr>"

lemma demo_publish_good:
  assumes "find_policy ps ''t'' (JInt 1) = Some (demo_policy ''t'')"
  shows "vr_ok (dl_verify toy_digest (snd (demo_publish ps)) ''t'' None)"
proof -
  obtain r d where a: "demo_publish ps = (r, d)" by fastforce
  note s = append_one_simps [OF a [unfolded demo_publish_def]]
  have "last_row (empty_db ps []) ''t'' ''ctl'' = None"
    by (simp add: last_row_None chain_rows_def empty_db_def)
  from append_one_good [OF empty_db_good a [unfolded demo_publish_def, folded this]] have "dl_good toy_digest d"
    using assms s by (simp add: CHAINS_def binding_failure_def policy_updated_failure_def pget_def demo_policy_def empty_db_def)
  with a show ?thesis by (simp add: dl_good_def)
qed

lemma published_policy_text_is_pinned_witness:
  "\<exists>p q. find_policy [demo_policy ''t''] ''t'' (JInt 1) = Some p
     \<and> find_policy [demo_policy ''u'', demo_policy ''t''] ''t'' (JInt 1) = Some q
     \<and> (pr_yaml p = pr_yaml q
        \<or> collides toy_digest {policy_bytes ''t'' (JInt 1) (pr_yaml p)} {policy_bytes ''t'' (JInt 1) (pr_yaml q)})"
proof -
  let ?ps = "[demo_policy ''u'', demo_policy ''t'']"
  obtain r d where a: "demo_publish [demo_policy ''t''] = (r, d)" by fastforce
  note s = append_one_simps [OF a [unfolded demo_publish_def]]
  have d: "d\<lparr>db_policies := ?ps\<rparr> = snd (demo_publish ?ps)"
    using a by (auto simp: demo_publish_def append_one_def empty_db_def Let_def)
  have ok: "vr_ok (dl_verify toy_digest d ''t'' None)" "vr_ok (dl_verify toy_digest (d\<lparr>db_policies := ?ps\<rparr>) ''t'' None)"
    using demo_publish_good [of "[demo_policy ''t'']"] demo_publish_good [of ?ps] a unfolding d
    by (simp_all add: find_policy_def demo_policy_def py_int_def)
  have row: "r \<in> set (tenant_rows d ''t'')" "lr_chain r \<in> set CHAINS" "lr_event_type r = ''policy.updated''"
      "pget ''content_hash'' (lr_payload r) \<noteq> JNull" "pget ''version'' (lr_payload r) = JInt 1"
    using s by (simp_all add: tenant_rows_def CHAINS_def pget_def)
  have ps: "db_policies d = [demo_policy ''t'']" using s by (simp add: empty_db_def)
  from published_policy_text_is_pinned [OF ok row(1-4)] show ?thesis unfolding row(5) ps by (simp only: Let_def)
qed

section \<open>The tenant hierarchy\<close>

definition parents :: "(string \<times> string option) list \<Rightarrow> (string \<times> string) set" where
  "parents ts = {(a, b). map_of ts a = Some (Some b)}"

lemma root_tenant_cases:
  assumes "\<forall>s \<in> set seen. (s, c) \<in> (parents ts)\<^sup>+"
  shows "case root_tenant c ts seen of
      Some r \<Rightarrow> (c, r) \<in> (parents ts)\<^sup>* \<and> r \<notin> Domain (parents ts)
    | None \<Rightarrow> \<exists>x. (c, x) \<in> (parents ts)\<^sup>* \<and> (x, x) \<in> (parents ts)\<^sup>+"
  using assms
proof (induction c ts seen rule: root_tenant.induct)
  case (1 c ts seen)
  show ?case
  proof (cases "map_of ts c")
    case None
    then show ?thesis by (auto simp: root_tenant.simps [of c] parents_def)
  next
    case (Some o')
    show ?thesis
    proof (cases o')
      case None
      with Some show ?thesis by (auto simp: root_tenant.simps [of c] parents_def)
    next
      case (Some p)
      with \<open>map_of ts c = Some o'\<close> have m: "map_of ts c = Some (Some p)" and cp: "(c, p) \<in> parents ts"
        by (simp_all add: parents_def)
      show ?thesis
      proof (cases "c \<in> set seen")
        case True
        with m "1.prems" show ?thesis by (auto simp: root_tenant.simps [of c])
      next
        case False
        have "\<forall>s \<in> set (c # seen). (s, p) \<in> (parents ts)\<^sup>+"
          using "1.prems" cp by (auto intro: trancl_into_trancl)
        from "1.IH" [OF \<open>map_of ts c = Some o'\<close> \<open>o' = Some p\<close> False this]
        have "case root_tenant p ts (c # seen) of
            Some r \<Rightarrow> (p, r) \<in> (parents ts)\<^sup>* \<and> r \<notin> Domain (parents ts)
          | None \<Rightarrow> \<exists>x. (p, x) \<in> (parents ts)\<^sup>* \<and> (x, x) \<in> (parents ts)\<^sup>+" .
        moreover have "root_tenant c ts seen = root_tenant p ts (c # seen)"
          using m False by (simp add: root_tenant.simps [of c])
        ultimately show ?thesis using cp by (auto split: option.splits intro: converse_rtrancl_into_rtrancl)
      qed
    qed
  qed
qed

text \<open>Resolving the organisation of a tenant always ends: it returns the ancestor that has no parent,
  or, exactly when there is none, reports a cycle that the tenant's ancestry runs into.\<close>

theorem root_tenant_correct:
  "case root_tenant t ts [] of
     Some r \<Rightarrow> (t, r) \<in> (parents ts)\<^sup>* \<and> r \<notin> Domain (parents ts)
   | None \<Rightarrow> \<exists>x. (t, x) \<in> (parents ts)\<^sup>* \<and> (x, x) \<in> (parents ts)\<^sup>+"
  by (rule root_tenant_cases) simp

end
