(* ===== verification/PolicyCache.thy ===== *)
theory PolicyCache
  imports Complex_Main JsonValue
begin

text \<open>
  The policy cache of the control plane (class \<open>PolicyCache\<close> in \<^verbatim>\<open>Control-DB/zerotrace/policy/store.py\<close>):
  Redis while it is reachable, an in-process dictionary while it is not. The state of the object is a
  record; the Redis server is the dictionary \<open>cw_server\<close> beside it. What the outside world does during one
  call is a \<open>redis_env\<close>: whether a URL is configured, the two readings of the monotonic clock, whether a
  connection attempt and whether the operation itself succeed. The locale \<open>blob_cache\<close> is what the policy
  store relies on; this cache interprets it.
\<close>

section \<open>State\<close>

record policy_cache =
  pc_local :: "(string \<times> string) list"
  pc_redis :: bool \<comment> \<open>\<open>_redis is not None\<close>\<close>
  pc_redis_tried :: bool
  pc_redis_degraded :: bool
  pc_last_probe :: rat

record cache_world = policy_cache +
  cw_server :: "(string \<times> string) list"

record redis_env =
  re_url :: bool
  re_gate_now :: rat \<comment> \<open>the clock in \<open>_client\<close>\<close>
  re_probe_now :: rat \<comment> \<open>the clock in \<open>_probe\<close>\<close>
  re_ping :: bool
  re_op :: bool

definition PROBE_INTERVAL_S :: rat where "PROBE_INTERVAL_S = 5"

definition new_cache :: "(string \<times> string) list \<Rightarrow> cache_world" where
  "new_cache server = \<lparr>pc_local = [], pc_redis = False, pc_redis_tried = False, pc_redis_degraded = False,
     pc_last_probe = 0, cw_server = server\<rparr>"

section \<open>The client\<close>

definition pc_probe :: "redis_env \<Rightarrow> cache_world \<Rightarrow> cache_world" where
  "pc_probe e c =
     (let c = c\<lparr>pc_last_probe := re_probe_now e, pc_redis_tried := True\<rparr> in
      if \<not> re_url e then c\<lparr>pc_redis := False, pc_redis_degraded := False\<rparr>
      else if re_ping e then c\<lparr>pc_redis := True, pc_redis_degraded := False\<rparr>
      else c\<lparr>pc_redis := False, pc_redis_degraded := True\<rparr>)"

definition wants_probe :: "redis_env \<Rightarrow> cache_world \<Rightarrow> bool" where
  "wants_probe e c \<longleftrightarrow> \<not> pc_redis c \<and> \<not> (pc_redis_tried c \<and> \<not> pc_redis_degraded c)
     \<and> \<not> re_gate_now e - pc_last_probe c < PROBE_INTERVAL_S"

definition pc_client :: "redis_env \<Rightarrow> cache_world \<Rightarrow> cache_world" where
  \<comment> \<open>the client it returns is \<open>pc_redis\<close> of the result\<close>
  "pc_client e c = (if wants_probe e c then pc_probe e c else c)"

definition pc_force_probe :: "redis_env \<Rightarrow> cache_world \<Rightarrow> bool \<times> cache_world" where
  "pc_force_probe e c = (let c = pc_probe e c in (pc_redis c, c))"

definition pc_mark_degraded :: "cache_world \<Rightarrow> cache_world" where
  "pc_mark_degraded c = c\<lparr>pc_redis := False, pc_redis_degraded := True\<rparr>"

definition pc_degrade_reason :: "cache_world \<Rightarrow> string option" where
  "pc_degrade_reason c = (if pc_redis_degraded c then Some ''policy_cache_local'' else None)"

section \<open>Operations\<close>

definition pc_prefix :: "string \<Rightarrow> string" where
  "pc_prefix tenant_id = ''zt:policy:'' @ tenant_id @ '':''"

definition pc_key :: "string \<Rightarrow> int \<Rightarrow> string" where
  "pc_key tenant_id version = pc_prefix tenant_id @ pr_int version"

definition pc_get :: "redis_env \<Rightarrow> string \<Rightarrow> int \<Rightarrow> cache_world \<Rightarrow> string option \<times> cache_world" where
  "pc_get e tenant_id version c =
     (let c = pc_client e c; k = pc_key tenant_id version in
      if pc_redis c then
        (if re_op e then (map_of (cw_server c) k, c)
         else let c = pc_mark_degraded c in (map_of (pc_local c) k, c))
      else (map_of (pc_local c) k, c))"

definition pc_set :: "redis_env \<Rightarrow> string \<Rightarrow> int \<Rightarrow> string \<Rightarrow> cache_world \<Rightarrow> cache_world" where
  "pc_set e tenant_id version blob c =
     (let c = pc_client e c; k = pc_key tenant_id version;
          c = (if pc_redis c then
                 (if re_op e then c\<lparr>cw_server := AList.update k blob (cw_server c)\<rparr> else pc_mark_degraded c)
               else c)
      in c\<lparr>pc_local := AList.update k blob (pc_local c)\<rparr>)"

definition pc_invalidate :: "string \<Rightarrow> cache_world \<Rightarrow> cache_world" where
  "pc_invalidate tenant_id c =
     c\<lparr>pc_local := filter (\<lambda>(k, b). take (length (pc_prefix tenant_id)) k \<noteq> pc_prefix tenant_id) (pc_local c)\<rparr>"

definition pc_close :: "cache_world \<Rightarrow> cache_world" where
  "pc_close c = c\<lparr>pc_redis := False, pc_redis_tried := False, pc_redis_degraded := False, pc_last_probe := 0,
     pc_local := []\<rparr>"

section \<open>The interface\<close>

locale blob_cache =
  fixes get :: "'e \<Rightarrow> string \<Rightarrow> int \<Rightarrow> 'c \<Rightarrow> string option \<times> 'c"
    and put :: "'e \<Rightarrow> string \<Rightarrow> int \<Rightarrow> string \<Rightarrow> 'c \<Rightarrow> 'c"
    and drop_all :: "string \<Rightarrow> 'c \<Rightarrow> 'c"
    and holds :: "'c \<Rightarrow> string \<Rightarrow> int \<Rightarrow> string \<Rightarrow> bool"
  assumes get_hit: "get e t v c = (Some b, c') \<Longrightarrow> holds c t v b"
    and get_holds: "get e t v c = (r, c') \<Longrightarrow> holds c' t' v' b \<Longrightarrow> holds c t' v' b"
    and put_holds: "holds (put e t v b c) t' v' b' \<Longrightarrow> holds c t' v' b' \<or> t' = t \<and> v' = v \<and> b' = b"
    and drop_holds: "holds (drop_all t c) t' v' b \<Longrightarrow> holds c t' v' b"
begin

definition agrees :: "(string \<Rightarrow> int \<Rightarrow> string \<Rightarrow> bool) \<Rightarrow> 'c \<Rightarrow> bool" where
  "agrees P c \<longleftrightarrow> (\<forall>t v b. holds c t v b \<longrightarrow> P t v b)"

lemma agrees_get: "agrees P c \<Longrightarrow> get e t v c = (r, c') \<Longrightarrow> agrees P c' \<and> (\<forall>b. r = Some b \<longrightarrow> P t v b)"
  using get_holds [of e t v c r c'] get_hit [of e t v c _ c'] unfolding agrees_def by blast

lemma agrees_put: "agrees P c \<Longrightarrow> P t v b \<Longrightarrow> agrees P (put e t v b c)"
  using put_holds [of e t v b c] unfolding agrees_def by blast

lemma agrees_drop: "agrees P c \<Longrightarrow> agrees P (drop_all t c)"
  using drop_holds [of t c] unfolding agrees_def by blast

lemma agrees_mono: "agrees P c \<Longrightarrow> (\<And>t v b. P t v b \<Longrightarrow> Q t v b) \<Longrightarrow> agrees Q c"
  unfolding agrees_def by blast

end

section \<open>This cache is one\<close>

definition pc_holds :: "cache_world \<Rightarrow> string \<Rightarrow> int \<Rightarrow> string \<Rightarrow> bool" where
  "pc_holds c t v b \<longleftrightarrow> (pc_key t v, b) \<in> set (pc_local c) \<union> set (cw_server c)"

lemma pr_int_no_colon: "CHR '':'' \<notin> set (pr_int v)"
proof
  assume "CHR '':'' \<in> set (pr_int v)"
  then have "num_byte (CHR '':'')" using pr_int_num by blast
  then show False by (simp add: num_byte_def)
qed

lemma last_separator:
  assumes "xs @ c # ys = xs' @ c # ys'" "c \<notin> set ys" "c \<notin> set ys'"
  shows "xs = xs' \<and> ys = ys'"
proof -
  from assms(1) have "rev ys @ c # rev xs = rev ys' @ c # rev xs'"
    by (metis append_assoc append_Cons append_Nil rev.simps(2) rev_append)
  then have tk: "takeWhile (\<lambda>x. x \<noteq> c) (rev ys @ c # rev xs) = takeWhile (\<lambda>x. x \<noteq> c) (rev ys' @ c # rev xs')"
    and "rev ys @ c # rev xs = rev ys' @ c # rev xs'" by simp_all
  moreover have "rev ys = rev ys'"
    using tk assms(2,3) by (auto simp: takeWhile_append split: if_splits)
  ultimately have "rev ys = rev ys' \<and> rev xs = rev xs'" by simp
  then show ?thesis by simp
qed

lemma pc_key_inj: "pc_key t v = pc_key t' v' \<longleftrightarrow> t = t' \<and> v = v'"
proof
  assume "pc_key t v = pc_key t' v'"
  then have "t @ CHR '':'' # pr_int v = t' @ CHR '':'' # pr_int v'" by (simp add: pc_key_def pc_prefix_def)
  from last_separator [OF this pr_int_no_colon pr_int_no_colon] show "t = t' \<and> v = v'" using pr_int_inj by blast
qed simp

lemma pc_client_stores [simp]: "pc_local (pc_client e c) = pc_local c" "cw_server (pc_client e c) = cw_server c"
  by (simp_all add: pc_client_def pc_probe_def Let_def)

lemma set_update_subset: "set (AList.update k b al) \<subseteq> insert (k, b) (set al)"
  by (induction al) auto

interpretation policy: blob_cache pc_get pc_set pc_invalidate pc_holds
proof (unfold_locales, goal_cases)
  case (1 e t v c b c')
  then show ?case
    by (auto simp: pc_get_def pc_holds_def pc_mark_degraded_def Let_def split: if_splits dest: map_of_SomeD)
next
  case (2 e t v c r c' t' v' b)
  then show ?case
    by (auto simp: pc_get_def pc_holds_def pc_mark_degraded_def Let_def split: if_splits)
next
  case (3 e t v b c t' v' b')
  then show ?case
    using set_update_subset [of "pc_key t v" b "pc_local c"] set_update_subset [of "pc_key t v" b "cw_server c"]
    by (auto simp: pc_set_def pc_holds_def pc_mark_degraded_def Let_def pc_key_inj split: if_splits)
next
  case (4 t c t' v' b)
  then show ?case by (auto simp: pc_invalidate_def pc_holds_def)
qed

section \<open>Histories\<close>

datatype cache_op = CGet string int | CSet string int string | CInvalidate string

fun cache_op_step :: "redis_env \<Rightarrow> cache_op \<Rightarrow> cache_world \<Rightarrow> cache_world" where
  "cache_op_step e (CGet t v) c = snd (pc_get e t v c)"
| "cache_op_step e (CSet t v b) c = pc_set e t v b c"
| "cache_op_step e (CInvalidate t) c = pc_invalidate t c"

fun uses_client :: "cache_op \<Rightarrow> bool" where
  "uses_client (CInvalidate t) = False" | "uses_client _ = True"

fun probes :: "(redis_env \<times> cache_op) list \<Rightarrow> cache_world \<Rightarrow> nat" where
  \<comment> \<open>the connection attempts of a history\<close>
  "probes [] c = 0"
| "probes ((e, op) # ops) c =
     (if uses_client op \<and> wants_probe e c then 1 else 0) + probes ops (cache_op_step e op c)"

lemma step_last_probe:
  "pc_last_probe (cache_op_step e op c)
     = (if uses_client op \<and> wants_probe e c then re_probe_now e else pc_last_probe c)"
  by (cases op) (simp_all add: pc_get_def pc_set_def pc_invalidate_def pc_client_def pc_probe_def pc_mark_degraded_def Let_def)

text \<open>A dead Redis cannot add a connection attempt to every request: in any history of cache operations up to
  time \<open>T\<close>, whatever Redis does in between, the attempts are at least five seconds apart, so there are at most
  one per five seconds since the last attempt before it.\<close>

theorem probe_rate_bounded:
  assumes "\<forall>(e, op) \<in> set ops. re_gate_now e \<le> re_probe_now e \<and> re_probe_now e \<le> T" "pc_last_probe c \<le> T"
  shows "5 * of_nat (probes ops c) \<le> T - pc_last_probe c"
  using assms
proof (induction ops c rule: probes.induct)
  case (2 e op ops c)
  have *: "re_gate_now e \<le> re_probe_now e" "re_probe_now e \<le> T" using "2.prems"(1) by auto
  have "pc_last_probe (cache_op_step e op c) \<le> T" using * "2.prems"(2) by (simp add: step_last_probe)
  with "2.IH" "2.prems"(1)
  have "5 * of_nat (probes ops (cache_op_step e op c)) \<le> T - pc_last_probe (cache_op_step e op c)" by auto
  with * show ?case by (auto simp: step_last_probe wants_probe_def PROBE_INTERVAL_S_def)
qed simp

definition demo_env :: "rat \<Rightarrow> bool \<Rightarrow> redis_env" where
  "demo_env now up = \<lparr>re_url = True, re_gate_now = now, re_probe_now = now, re_ping = up, re_op = up\<rparr>"

lemma probe_rate_bounded_witness:
  "probes [(demo_env 10 False, CGet ''t'' 1), (demo_env 12 False, CGet ''t'' 1), (demo_env 15 True, CGet ''t'' 1)]
     (new_cache []) = 2
   \<and> (5::rat) * of_nat (probes [(demo_env 10 False, CGet ''t'' 1), (demo_env 12 False, CGet ''t'' 1),
       (demo_env 15 True, CGet ''t'' 1)] (new_cache [])) \<le> 15 - pc_last_probe (new_cache [])"
proof
  show "probes [(demo_env 10 False, CGet ''t'' 1), (demo_env 12 False, CGet ''t'' 1), (demo_env 15 True, CGet ''t'' 1)]
     (new_cache []) = 2"
    by (simp add: demo_env_def new_cache_def wants_probe_def pc_get_def pc_client_def pc_probe_def PROBE_INTERVAL_S_def Let_def)
  show "(5::rat) * of_nat (probes [(demo_env 10 False, CGet ''t'' 1), (demo_env 12 False, CGet ''t'' 1),
       (demo_env 15 True, CGet ''t'' 1)] (new_cache [])) \<le> 15 - pc_last_probe (new_cache [])"
    by (rule probe_rate_bounded) (simp_all add: demo_env_def new_cache_def)
qed

text \<open>The fallback is never silent: once the configured Redis has been tried, an answer either comes
  from Redis or carries the degradation.\<close>

definition honest :: "cache_world \<Rightarrow> bool" where
  "honest c \<longleftrightarrow> (pc_redis_tried c \<longrightarrow> pc_redis c \<or> pc_redis_degraded c)"

lemma honest_ops:
  assumes "honest c" "re_url e"
  shows "honest (pc_client e c)" "honest (snd (pc_get e t v c))" "honest (pc_set e t v b c)"
    "honest (pc_invalidate t c)" "honest (pc_mark_degraded c)" "honest (pc_probe e c)"
  using assms
  by (auto simp: honest_def pc_get_def pc_set_def pc_invalidate_def pc_client_def pc_probe_def pc_mark_degraded_def Let_def)

lemma client_tried:
  assumes "pc_redis_tried c \<or> PROBE_INTERVAL_S \<le> re_gate_now e - pc_last_probe c" "pc_redis c \<longrightarrow> pc_redis_tried c"
  shows "pc_redis_tried (pc_client e c)"
  using assms by (auto simp: pc_client_def wants_probe_def pc_probe_def Let_def)

end
