(* ===== verification/PolicyStore.thy ===== *)
theory PolicyStore
  imports PolicyEngine DualChain PolicyCache
begin

text \<open>
  Versioned policies (\<^verbatim>\<open>Control-DB/zerotrace/policy/store.py\<close>): loading the active policy through the cache,
  resolving the two layers of a tenant, and the conditional publish with its checks, its write and its
  ledger record. The store is the table of policy rows in insertion order beside the ledger tables of
  \<open>DualChain\<close>; the tenant lock and the caller's transaction make one operation one step, and a refusal
  (\<open>Inl\<close>) leaves the tables as they were. YAML and pydantic are the parameter \<open>yaml_codec\<close>.
\<close>

section \<open>Tables and parameters\<close>

record table_row =
  pt_tenant_id :: string
  pt_version :: int
  pt_yaml :: string
  pt_content_hash :: string
  pt_active :: bool

record store =
  st_policies :: "table_row list"
  st_ledger :: ledger_db

definition row_of :: "table_row \<Rightarrow> policy_row" where
  "row_of r = \<lparr>pr_tenant_id = pt_tenant_id r, pr_version = pt_version r, pr_yaml = pt_yaml r\<rparr>"

definition ledger_of :: "store \<Rightarrow> ledger_db" where
  \<comment> \<open>the ledger reads the policies from the one table\<close>
  "ledger_of st = (st_ledger st)\<lparr>db_policies := map row_of (st_policies st)\<rparr>"

record yaml_codec =
  ym_keys :: "string \<Rightarrow> string list option" \<comment> \<open>top-level keys, if \<open>safe_load\<close> gives a mapping\<close>
  ym_draft :: "string \<Rightarrow> policy_draft option" \<comment> \<open>\<open>PolicyDraft(**safe_load(text))\<close>\<close>
  ym_policy :: "string \<Rightarrow> policy option" \<comment> \<open>\<open>Policy(**safe_load(text))\<close>\<close>
  ym_dump :: "policy \<Rightarrow> bool \<Rightarrow> string" \<comment> \<open>\<open>safe_dump\<close> of the dumped policy, the flag drops mode and fail\<close>
  ym_unversioned :: "string \<Rightarrow> string" \<comment> \<open>\<open>safe_dump\<close> of the loaded mapping without \<open>version\<close>\<close>

datatype store_error =
    PolicyInvalid
  | OrgWrongName | OrgNamesUnit | ModeNotExplicit | FailNotClosed
  | UnitWrongOrg | UnitWrongName | UnitSetsModeOrFail
  | NoActivePolicy string
  | TenantNotFound string
  | VersionConflict "int option"
  | UnitWeakens bu_error
  | SeveralRows
  | VersionTaken int
  | LedgerRefused append_error

fun sole_row :: "'a list \<Rightarrow> store_error + 'a option" where
  \<comment> \<open>\<open>scalar_one_or_none\<close>\<close>
  "sole_row [] = Inr None"
| "sole_row [x] = Inr (Some x)"
| "sole_row (x # y # xs) = Inl SeveralRows"

definition active_row :: "store \<Rightarrow> string \<Rightarrow> store_error + table_row option" where
  "active_row st tenant_id = sole_row (filter (\<lambda>r. pt_tenant_id r = tenant_id \<and> pt_active r) (st_policies st))"

definition parse_policy :: "yaml_codec \<Rightarrow> string \<Rightarrow> store_error + policy" where
  "parse_policy ym t = (case ym_policy ym t of None \<Rightarrow> Inl PolicyInvalid | Some p \<Rightarrow> Inr p)"

definition parse_draft :: "yaml_codec \<Rightarrow> string \<Rightarrow> store_error + policy_draft" where
  "parse_draft ym t = (case ym_draft ym t of None \<Rightarrow> Inl PolicyInvalid | Some d \<Rightarrow> Inr d)"

section \<open>Loading\<close>

type_synonym loaded = "policy \<times> string option \<times> string"

definition load_blob :: "yaml_codec \<Rightarrow> (string \<Rightarrow> string) \<Rightarrow> string \<Rightarrow> int \<Rightarrow> string \<Rightarrow> cache_world \<Rightarrow> store_error + loaded" where
  \<comment> \<open>the triple both branches of \<open>_load\<close> return\<close>
  "load_blob ym H tenant_id version blob c =
     rbind (parse_policy ym blob) (\<lambda>p. Inr (p, pc_degrade_reason c, policy_row_hash H tenant_id (JInt version) blob))"

definition load :: "yaml_codec \<Rightarrow> (string \<Rightarrow> string) \<Rightarrow> redis_env \<Rightarrow> redis_env \<Rightarrow> store \<Rightarrow> string \<Rightarrow> cache_world
    \<Rightarrow> cache_world \<times> (store_error + loaded)" where
  \<comment> \<open>\<open>_load\<close>; the environments of the cache lookup and of the cache write\<close>
  "load ym H e e' st tenant_id c =
     (case active_row st tenant_id of
        Inl err \<Rightarrow> (c, Inl err)
      | Inr None \<Rightarrow> (c, Inl (NoActivePolicy tenant_id))
      | Inr (Some row) \<Rightarrow>
          (case pc_get e tenant_id (pt_version row) c of
             (Some cached, c) \<Rightarrow> (c, load_blob ym H tenant_id (pt_version row) cached c)
           | (None, c) \<Rightarrow>
               (case parse_policy ym (pt_yaml row) of
                  Inl err \<Rightarrow> (c, Inl err)
                | Inr p \<Rightarrow>
                    let c = pc_set e' tenant_id (pt_version row) (pt_yaml row) c
                    in (c, load_blob ym H tenant_id (pt_version row) (pt_yaml row) c))))"

definition load_active :: "yaml_codec \<Rightarrow> (string \<Rightarrow> string) \<Rightarrow> redis_env \<Rightarrow> redis_env \<Rightarrow> store \<Rightarrow> string \<Rightarrow> cache_world
    \<Rightarrow> cache_world \<times> (store_error + policy)" where
  "load_active ym H e e' st tenant_id c =
     (case load ym H e e' st tenant_id c of (c, r) \<Rightarrow> (c, rbind r (\<lambda>l. Inr (fst l))))"

record resolved_policies =
  rp_org :: policy
  rp_bu :: "policy option"
  rp_org_tenant_id :: string
  rp_bu_tenant_id :: "string option"
  rp_degraded_reasons :: "string list"
  rp_org_policy_content_hash :: string
  rp_bu_policy_content_hash :: "string option"

definition rp_mode :: "resolved_policies \<Rightarrow> policy_mode" where "rp_mode r = p_mode (rp_org r)"
definition rp_fail :: "resolved_policies \<Rightarrow> fail_stance" where "rp_fail r = p_fail (rp_org r)"
definition rp_org_policy_version :: "resolved_policies \<Rightarrow> nat" where
  "rp_org_policy_version r = p_version (rp_org r)"
definition rp_bu_policy_version :: "resolved_policies \<Rightarrow> nat option" where
  "rp_bu_policy_version r = map_option p_version (rp_bu r)"

definition reasons :: "string option \<Rightarrow> string list" where
  \<comment> \<open>\<open>if reason: reasons.append(reason)\<close>\<close>
  "reasons r = (case r of None \<Rightarrow> [] | Some s \<Rightarrow> [s])"

definition load_for_tenant :: "yaml_codec \<Rightarrow> (string \<Rightarrow> string) \<Rightarrow> (nat \<Rightarrow> redis_env) \<Rightarrow> store \<Rightarrow> string \<Rightarrow> cache_world
    \<Rightarrow> cache_world \<times> (store_error + resolved_policies)" where
  \<comment> \<open>\<open>io\<close>: the environments of the up to four cache calls\<close>
  "load_for_tenant ym H io st tenant_id c =
     (case map_of (db_tenants (st_ledger st)) tenant_id of
        None \<Rightarrow> (c, Inl (TenantNotFound tenant_id))
      | Some None \<Rightarrow>
          (case load ym H (io 0) (io 1) st tenant_id c of
             (c, Inl err) \<Rightarrow> (c, Inl err)
           | (c, Inr (org, reason, h)) \<Rightarrow>
               (c, Inr \<lparr>rp_org = org, rp_bu = None, rp_org_tenant_id = tenant_id, rp_bu_tenant_id = None,
                 rp_degraded_reasons = reasons reason, rp_org_policy_content_hash = h, rp_bu_policy_content_hash = None\<rparr>))
      | Some (Some parent) \<Rightarrow>
          (case load ym H (io 0) (io 1) st parent c of
             (c, Inl err) \<Rightarrow> (c, Inl err)
           | (c, Inr (org, reason, h)) \<Rightarrow>
               (case load ym H (io 2) (io 3) st tenant_id c of
                  (c, Inl (NoActivePolicy _)) \<Rightarrow>
                    (c, Inr \<lparr>rp_org = org, rp_bu = None, rp_org_tenant_id = parent, rp_bu_tenant_id = Some tenant_id,
                      rp_degraded_reasons = reasons reason, rp_org_policy_content_hash = h,
                      rp_bu_policy_content_hash = None\<rparr>)
                | (c, Inl err) \<Rightarrow> (c, Inl err)
                | (c, Inr (bu, reason', h')) \<Rightarrow>
                    (c, Inr \<lparr>rp_org = org, rp_bu = Some bu, rp_org_tenant_id = parent, rp_bu_tenant_id = Some tenant_id,
                      rp_degraded_reasons = reasons reason @ reasons reason', rp_org_policy_content_hash = h,
                      rp_bu_policy_content_hash = Some h'\<rparr>))))"

section \<open>The checks of a publish\<close>

definition raw_has_key :: "yaml_codec \<Rightarrow> string \<Rightarrow> string \<Rightarrow> bool" where
  "raw_has_key ym yaml_text key = (case ym_keys ym yaml_text of None \<Rightarrow> False | Some ks \<Rightarrow> key \<in> set ks)"

definition validate_ownership :: "yaml_codec \<Rightarrow> string \<Rightarrow> string option \<Rightarrow> policy_draft \<Rightarrow> string \<Rightarrow> store_error + unit" where
  \<comment> \<open>the tenant's id and its parent\<close>
  "validate_ownership ym tenant_id parent_id draft yaml_text =
     (case parent_id of
        None \<Rightarrow>
          if p_org draft \<noteq> tenant_id then Inl OrgWrongName
          else if p_business_unit draft \<noteq> None then Inl OrgNamesUnit
          else if \<not> raw_has_key ym yaml_text ''mode'' then Inl ModeNotExplicit
          else if p_fail draft \<noteq> FailClosed then Inl FailNotClosed
          else Inr ()
      | Some parent \<Rightarrow>
          if p_org draft \<noteq> parent then Inl UnitWrongOrg
          else if p_business_unit draft \<noteq> Some tenant_id then Inl UnitWrongName
          else if raw_has_key ym yaml_text ''mode'' \<or> raw_has_key ym yaml_text ''fail'' then Inl UnitSetsModeOrFail
          else Inr ())"

definition check_expected_version :: "table_row option \<Rightarrow> int option \<Rightarrow> store_error + unit" where
  "check_expected_version previous expected =
     (case expected of
        None \<Rightarrow> (case previous of Some p \<Rightarrow> Inl (VersionConflict (Some (pt_version p))) | None \<Rightarrow> Inr ())
      | Some v \<Rightarrow>
          (case previous of
             None \<Rightarrow> Inl (VersionConflict None)
           | Some p \<Rightarrow> if pt_version p \<noteq> v then Inl (VersionConflict (Some (pt_version p))) else Inr ()))"

definition is_blank :: "char \<Rightarrow> bool" where
  \<comment> \<open>the ASCII characters \<open>str.rstrip\<close> removes; \<open>safe_dump\<close> escapes all others\<close>
  "is_blank c \<longleftrightarrow> (let n = (of_char c :: nat) in n = 32 \<or> 9 \<le> n \<and> n \<le> 13 \<or> 28 \<le> n \<and> n \<le> 31)"

definition rstrip :: "string \<Rightarrow> string" where
  "rstrip s = rev (dropWhile is_blank (rev s))"

definition stored_policy :: "policy_draft \<Rightarrow> nat \<Rightarrow> bool \<Rightarrow> policy" where
  \<comment> \<open>a business unit's mode and fail are dropped, so the defaults fill in\<close>
  "stored_policy draft version unit =
     (let p = to_policy draft version in if unit then p\<lparr>p_mode := Shadow, p_fail := FailClosed\<rparr> else p)"

definition stored_yaml :: "yaml_codec \<Rightarrow> policy_draft \<Rightarrow> nat \<Rightarrow> bool \<Rightarrow> string" where
  "stored_yaml ym draft version unit = rstrip (ym_dump ym (stored_policy draft version unit) unit) @ [CHR 0x0A]"

definition check_parent :: "yaml_codec \<Rightarrow> (string \<Rightarrow> string) \<Rightarrow> (nat \<Rightarrow> redis_env) \<Rightarrow> store \<Rightarrow> string option
    \<Rightarrow> policy_draft \<Rightarrow> nat \<Rightarrow> cache_world \<Rightarrow> cache_world \<times> (store_error + unit)" where
  "check_parent ym H io st parent_id draft version c =
     (case parent_id of
        None \<Rightarrow> (c, Inr ())
      | Some parent \<Rightarrow>
          (case load_active ym H (io 0) (io 1) st parent c of
             (c, Inl (NoActivePolicy _)) \<Rightarrow> (c, Inr ())
           | (c, Inl err) \<Rightarrow> (c, Inl err)
           | (c, Inr org) \<Rightarrow>
               (c, case check_bu_may_only_raise org (to_policy draft version) of
                     Inl err \<Rightarrow> Inl (UnitWeakens err) | Inr _ \<Rightarrow> Inr ())))"

section \<open>What changed\<close>

fun action_text :: "action \<Rightarrow> string" where
  "action_text Allow = ''allow''"
| "action_text Warn = ''warn''"
| "action_text Tokenize = ''tokenize''"
| "action_text Mask = ''mask''"
| "action_text Block = ''block''"

fun mode_text :: "policy_mode \<Rightarrow> string" where
  "mode_text Shadow = ''shadow''" | "mode_text Enforce = ''enforce''"

definition change :: "string \<Rightarrow> string \<Rightarrow> string \<Rightarrow> string" where
  "change what old new = what @ '' '' @ old @ '' -> '' @ new"

fun rule_notes :: "nat \<Rightarrow> rule list \<Rightarrow> rule list \<Rightarrow> string list" where
  "rule_notes i (a # as) (b # bs) =
     (if r_action a \<noteq> r_action b
      then [change (''rule '' @ pr_nat i @ '' action'') (action_text (r_action a)) (action_text (r_action b))] else [])
     @ rule_notes (Suc i) as bs"
| "rule_notes i _ _ = []"

definition policy_notes :: "policy \<Rightarrow> policy \<Rightarrow> string list" where
  "policy_notes old new =
     (if p_default old \<noteq> p_default new
      then [change ''default'' (action_text (p_default old)) (action_text (p_default new))] else [])
     @ (if p_mode old \<noteq> p_mode new then [change ''mode'' (mode_text (p_mode old)) (mode_text (p_mode new))] else [])
     @ (if p_unregistered_workload old \<noteq> p_unregistered_workload new
        then [change ''unregistered_workload'' (action_text (p_unregistered_workload old))
          (action_text (p_unregistered_workload new))] else [])
     @ (if length (p_rules old) \<noteq> length (p_rules new)
        then [change ''rules'' (pr_nat (length (p_rules old))) (pr_nat (length (p_rules new)))] else [])
     @ rule_notes 0 (p_rules old) (p_rules new)"

definition diff_summary :: "yaml_codec \<Rightarrow> string option \<Rightarrow> string \<Rightarrow> store_error + string list" where
  "diff_summary ym old_yaml new_yaml =
     (case old_yaml of
        None \<Rightarrow> Inr [''initial version'']
      | Some y \<Rightarrow> rbind (parse_policy ym y) (\<lambda>old. rbind (parse_policy ym new_yaml) (\<lambda>new.
          Inr (if policy_notes old new = [] then [''no material change''] else policy_notes old new))))"

section \<open>Publishing\<close>

definition deactivate :: "string \<Rightarrow> table_row list \<Rightarrow> table_row list" where
  "deactivate tenant_id rows =
     map (\<lambda>r. if pt_tenant_id r = tenant_id \<and> pt_active r then r\<lparr>pt_active := False\<rparr> else r) rows"

definition insert_version :: "string \<Rightarrow> table_row \<Rightarrow> table_row list \<Rightarrow> store_error + table_row list" where
  \<comment> \<open>the unique key (tenant, version)\<close>
  "insert_version tenant_id row rows =
     (if \<exists>r \<in> set rows. pt_tenant_id r = tenant_id \<and> pt_version r = pt_version row
      then Inl (VersionTaken (pt_version row)) else Inr (rows @ [row]))"

definition updated_payload :: "table_row \<Rightarrow> table_row option \<Rightarrow> string \<Rightarrow> nat \<Rightarrow> string list \<Rightarrow> fields" where
  "updated_payload row previous published_by rule_count notes =
     [(''version'', JInt (pt_version row)),
      (''previous_version'', case previous of Some p \<Rightarrow> JInt (pt_version p) | None \<Rightarrow> JNull),
      (''published_by'', JStr published_by),
      (''rule_count'', JInt (int rule_count)),
      (''content_hash'', JStr (pt_content_hash row)),
      (''diff_summary'', JList (map JStr notes))]"

definition write_version :: "yaml_codec \<Rightarrow> coercion \<Rightarrow> (string \<Rightarrow> string) \<Rightarrow> string \<Rightarrow> string \<Rightarrow> store \<Rightarrow> table_row option
    \<Rightarrow> string \<Rightarrow> nat \<Rightarrow> string \<Rightarrow> string \<Rightarrow> nat \<Rightarrow> store_error + (table_row \<times> store)" where
  \<comment> \<open>from the update of the old row to the ledger record; \<open>now\<close> and \<open>now'\<close> are the times of the two records\<close>
  "write_version ym co H now now' st previous tenant_id version yaml published_by rule_count =
     (let row = \<lparr>pt_tenant_id = tenant_id, pt_version = int version, pt_yaml = yaml,
            pt_content_hash = policy_row_hash H tenant_id (JInt (int version)) yaml, pt_active = True\<rparr>
      in rbind (insert_version tenant_id row (deactivate tenant_id (st_policies st))) (\<lambda>rows.
         rbind (diff_summary ym (map_option pt_yaml previous) yaml) (\<lambda>notes.
         let st = st\<lparr>st_policies := rows\<rparr> in
         case dl_append co H now now' (ledger_of st) tenant_id ''policy.updated''
             (updated_payload row previous published_by rule_count notes) None of
           Inl err \<Rightarrow> Inl (LedgerRefused err)
         | Inr (_, db) \<Rightarrow> Inr (row, st\<lparr>st_ledger := db\<rparr>))))"

definition next_version :: "table_row option \<Rightarrow> nat" where
  "next_version previous = (case previous of Some p \<Rightarrow> nat (pt_version p + 1) | None \<Rightarrow> 1)"

definition publish :: "yaml_codec \<Rightarrow> coercion \<Rightarrow> (string \<Rightarrow> string) \<Rightarrow> string \<Rightarrow> string \<Rightarrow> (nat \<Rightarrow> redis_env) \<Rightarrow> store
    \<Rightarrow> string \<Rightarrow> string \<Rightarrow> string \<Rightarrow> int option \<Rightarrow> cache_world \<Rightarrow> cache_world \<times> (store_error + (table_row \<times> store))" where
  "publish ym co H now now' io st tenant_id yaml_text published_by expected c =
     (case parse_draft ym yaml_text of
        Inl err \<Rightarrow> (c, Inl err)
      | Inr draft \<Rightarrow>
          (case map_of (db_tenants (st_ledger st)) tenant_id of
             None \<Rightarrow> (c, Inl (TenantNotFound tenant_id))
           | Some parent_id \<Rightarrow>
               (case rbind (validate_ownership ym tenant_id parent_id draft yaml_text) (\<lambda>_.
                     rbind (active_row st tenant_id) (\<lambda>previous.
                     rbind (check_expected_version previous expected) (\<lambda>_. Inr previous))) of
                  Inl err \<Rightarrow> (c, Inl err)
                | Inr previous \<Rightarrow>
                    let version = next_version previous;
                        yaml = stored_yaml ym draft version (parent_id \<noteq> None)
                    in case check_parent ym H io st parent_id draft version c of
                         (c, Inl err) \<Rightarrow> (c, Inl err)
                       | (c, Inr _) \<Rightarrow>
                           (case write_version ym co H now now' st previous tenant_id version yaml published_by
                               (length (p_rules draft)) of
                              Inl err \<Rightarrow> (c, Inl err)
                            | Inr r \<Rightarrow> (pc_invalidate tenant_id c, Inr r)))))"

definition strip_version :: "yaml_codec \<Rightarrow> string \<Rightarrow> store_error + string" where
  "strip_version ym yaml_text =
     (case ym_keys ym yaml_text of None \<Rightarrow> Inl PolicyInvalid | Some _ \<Rightarrow> Inr (ym_unversioned ym yaml_text))"

definition rollback_to :: "yaml_codec \<Rightarrow> coercion \<Rightarrow> (string \<Rightarrow> string) \<Rightarrow> string \<Rightarrow> string \<Rightarrow> (nat \<Rightarrow> redis_env) \<Rightarrow> store
    \<Rightarrow> string \<Rightarrow> int \<Rightarrow> string \<Rightarrow> cache_world \<Rightarrow> cache_world \<times> (store_error + (table_row \<times> store))" where
  "rollback_to ym co H now now' io st tenant_id version published_by c =
     (case rbind (sole_row (filter (\<lambda>r. pt_tenant_id r = tenant_id \<and> pt_version r = version) (st_policies st))) (\<lambda>found.
          case found of
            None \<Rightarrow> Inl (NoActivePolicy tenant_id)
          | Some row \<Rightarrow> rbind (active_row st tenant_id) (\<lambda>active.
              rbind (strip_version ym (pt_yaml row)) (\<lambda>draft. Inr (draft, map_option pt_version active)))) of
        Inl err \<Rightarrow> (c, Inl err)
      | Inr (draft, expected) \<Rightarrow> publish ym co H now now' io st tenant_id draft published_by expected c)"

section \<open>The version history\<close>

definition versions_of :: "string \<Rightarrow> table_row list \<Rightarrow> table_row list" where
  "versions_of t rows = filter (\<lambda>r. pt_tenant_id r = t) rows"

definition history_ok :: "table_row list \<Rightarrow> bool" where
  \<comment> \<open>a tenant's versions are 1, 2, ... without a gap, and exactly the last is active\<close>
  "history_ok rows \<longleftrightarrow> (\<forall>t. let rs = versions_of t rows in
     map pt_version rs = map int [1..<Suc (length rs)] \<and> map pt_active rs = map (\<lambda>i. i = length rs) [1..<Suc (length rs)])"

lemma history_okD:
  assumes "history_ok rows"
  shows "map pt_version (versions_of t rows) = map int [1..<Suc (length (versions_of t rows))]"
    "map pt_active (versions_of t rows) = map (\<lambda>i. i = length (versions_of t rows)) [1..<Suc (length (versions_of t rows))]"
  using assms unfolding history_ok_def Let_def by blast+

lemma versions_of_append: "versions_of t (xs @ ys) = versions_of t xs @ versions_of t ys"
  by (simp add: versions_of_def)

lemma active_versions:
  assumes "map pt_active rs = map (\<lambda>i. i = length rs) [1..<Suc (length rs)]"
  shows "filter pt_active rs = (if rs = [] then [] else [last rs])"
proof (cases rs rule: rev_cases)
  case (snoc ys y)
  from assms have "map pt_active ys @ [pt_active y]
      = map (\<lambda>i. i = Suc (length ys)) [1..<Suc (length ys)] @ [True]" by (simp add: snoc)
  then have "map pt_active ys = map (\<lambda>i. i = Suc (length ys)) [1..<Suc (length ys)]" and "pt_active y" by simp_all
  moreover have "map (\<lambda>i. i = Suc (length ys)) [1..<Suc (length ys)] = map (\<lambda>i. False) [1..<Suc (length ys)]"
    by (rule map_cong) auto
  ultimately have "\<forall>b \<in> set (map pt_active ys). \<not> b" by auto
  then have "filter pt_active ys = []" by (auto simp: filter_empty_conv)
  with \<open>pt_active y\<close> show ?thesis by (simp add: snoc)
qed simp

lemma active_row_history:
  assumes "history_ok (st_policies st)"
  shows "active_row st t = Inr (if versions_of t (st_policies st) = [] then None else Some (last (versions_of t (st_policies st))))"
proof -
  have "filter (\<lambda>r. pt_tenant_id r = t \<and> pt_active r) (st_policies st) = filter pt_active (versions_of t (st_policies st))"
    by (simp add: versions_of_def conj_commute)
  with active_versions [OF history_okD(2) [OF assms, of t]] show ?thesis by (simp add: active_row_def)
qed

lemma last_version:
  assumes "history_ok rows" "versions_of t rows \<noteq> []"
  shows "pt_version (last (versions_of t rows)) = int (length (versions_of t rows))"
proof -
  let ?rs = "versions_of t rows"
  have "last (map pt_version ?rs) = last (map int [1..<Suc (length ?rs)])"
    using history_okD(1) [OF assms(1), of t] by simp
  moreover have "length ?rs \<ge> 1" using assms(2) by (simp add: Suc_leI)
  ultimately show ?thesis using assms(2) by (simp add: last_map)
qed

lemma next_version_history:
  assumes "history_ok (st_policies st)" "active_row st t = Inr previous"
  shows "next_version previous = Suc (length (versions_of t (st_policies st)))"
  using assms(2) last_version [OF assms(1), of t]
  by (auto simp: active_row_history [OF assms(1)] next_version_def split: if_splits)

lemma version_unique:
  assumes "history_ok rows" "r \<in> set rows" "s \<in> set rows" "pt_tenant_id r = pt_tenant_id s" "pt_version r = pt_version s"
  shows "r = s"
proof -
  let ?rs = "versions_of (pt_tenant_id r) rows"
  have "distinct (map pt_version ?rs)"
    unfolding history_okD(1) [OF assms(1)] by (simp add: distinct_map inj_on_def)
  moreover have "r \<in> set ?rs" "s \<in> set ?rs" using assms(2-4) by (simp_all add: versions_of_def)
  ultimately show ?thesis using assms(5) by (auto simp: distinct_map inj_on_def)
qed

lemma versions_bounded:
  assumes "history_ok rows" "r \<in> set rows"
  shows "1 \<le> pt_version r \<and> pt_version r \<le> int (length (versions_of (pt_tenant_id r) rows))"
proof -
  have "pt_version r \<in> set (map pt_version (versions_of (pt_tenant_id r) rows))"
    using assms(2) by (simp add: versions_of_def)
  then show ?thesis unfolding history_okD(1) [OF assms(1)] by auto
qed

lemma deactivate_fields:
  "length (deactivate t rows) = length rows"
  "map pt_version (deactivate t rows) = map pt_version rows"
  "map row_of (deactivate t rows) = map row_of rows"
  by (simp_all add: deactivate_def row_of_def)

lemma versions_of_deactivate:
  "versions_of u (deactivate t rows) = deactivate t (versions_of u rows)"
  by (induction rows) (auto simp: deactivate_def versions_of_def)

lemma deactivate_other: "u \<noteq> t \<Longrightarrow> deactivate t (versions_of u rows) = versions_of u rows"
  by (auto simp: deactivate_def versions_of_def intro: map_idI)

lemma deactivate_own: "map pt_active (deactivate t (versions_of t rows)) = replicate (length (versions_of t rows)) False"
  by (rule nth_equalityI) (auto simp: deactivate_def versions_of_def dest!: nth_mem)

lemma upt_one_Suc: "[1..<Suc (Suc n)] = [1..<Suc n] @ [Suc n]"
  by simp

lemma insert_keeps_history:
  assumes "history_ok rows" "pt_tenant_id row = t" "pt_active row"
    and "pt_version row = int (Suc (length (versions_of t rows)))"
  shows "history_ok (deactivate t rows @ [row])"
  unfolding history_ok_def Let_def
proof
  fix u
  note h = history_okD [OF assms(1), of u]
  show "map pt_version (versions_of u (deactivate t rows @ [row]))
          = map int [1..<Suc (length (versions_of u (deactivate t rows @ [row])))]
      \<and> map pt_active (versions_of u (deactivate t rows @ [row]))
          = map (\<lambda>i. i = length (versions_of u (deactivate t rows @ [row])))
              [1..<Suc (length (versions_of u (deactivate t rows @ [row])))]"
  proof (cases "u = t")
    case False
    then have "versions_of u (deactivate t rows @ [row]) = versions_of u rows"
      using assms(2) by (simp add: versions_of_append versions_of_deactivate deactivate_other) (simp add: versions_of_def)
    with h show ?thesis by simp
  next
    case True
    let ?n = "length (versions_of t rows)"
    have vs: "versions_of u (deactivate t rows @ [row]) = deactivate t (versions_of t rows) @ [row]"
      using assms(2) True by (simp add: versions_of_append versions_of_deactivate) (simp add: versions_of_def)
    have len: "length (versions_of u (deactivate t rows @ [row])) = Suc ?n" by (simp add: vs deactivate_fields)
    have "map pt_version (versions_of u (deactivate t rows @ [row])) = map int [1..<Suc ?n] @ [pt_version row]"
      unfolding vs map_append deactivate_fields(2) using h(1) unfolding True by (simp del: upt_Suc)
    moreover have "map (\<lambda>i. i = Suc ?n) [1..<Suc ?n] = replicate ?n False"
      by (rule nth_equalityI) (auto simp del: upt_Suc)
    then have "map pt_active (versions_of u (deactivate t rows @ [row])) = map (\<lambda>i. i = Suc ?n) [1..<Suc ?n] @ [True]"
      unfolding vs map_append deactivate_own using assms(3) by simp
    ultimately show ?thesis unfolding len assms(4) by (simp only: upt_one_Suc map_append) simp
  qed
qed

end
