(* ===== verification/PolicyHistory.thy ===== *)
theory PolicyHistory
  imports PolicyStore "HOL-Library.Sublist"
begin

text \<open>
  The policy store over time: every sequence of publishes, rollbacks, loads, decisions recorded under the
  loaded policies, Redis failures, evictions and restarts, as a step relation on the tables and the cache.
  The lemmas say what one operation does; the theorems what every reachable state is: a gapless version
  history with one active version per tenant, both hash chains verifying, and a cache that can only serve
  the stored text.
\<close>

section \<open>Policies the ledger can rely on\<close>

lemma find_policy_append: "find_policy ps t v = Some p \<Longrightarrow> find_policy (ps @ qs) t v = Some p"
  unfolding find_policy_def by (induction ps) auto

lemma binding_failure_more_policies:
  assumes "binding_failure H db rows r = None"
  shows "binding_failure H (db\<lparr>db_policies := db_policies db @ ps\<rparr>) rows r = None"
proof -
  have "policy_updated_failure H r (db_policies db @ ps) = None" if "policy_updated_failure H r (db_policies db) = None"
    using that by (auto simp: policy_updated_failure_def Let_def find_policy_append split: option.splits if_splits)
  moreover have "request_decided_failure H r (db_policies db @ ps) (db_tenants db) = None"
    if "request_decided_failure H r (db_policies db) (db_tenants db) = None"
    using that by (auto simp: request_decided_failure_def Let_def find_policy_append split: option.splits if_splits)
  ultimately show ?thesis using assms by (auto simp: binding_failure_def split: if_splits)
qed

lemma dl_good_more_policies:
  assumes "dl_good H db"
  shows "dl_good H (db\<lparr>db_policies := db_policies db @ ps\<rparr>)"
  using assms binding_failure_more_policies [of H db]
  by (simp add: dl_good_iff ledger_wf_def chains_known_def tenant_rows_def)

lemma find_policy_unique:
  assumes "r \<in> set rows" "\<And>s. s \<in> set rows \<Longrightarrow> pt_tenant_id s = pt_tenant_id r \<Longrightarrow> pt_version s = pt_version r \<Longrightarrow> s = r"
  shows "find_policy (map row_of rows) (pt_tenant_id r) (JInt (pt_version r)) = Some (row_of r)"
  using assms
proof (induction rows)
  case (Cons s rows)
  show ?case
  proof (cases "pt_tenant_id s = pt_tenant_id r \<and> pt_version s = pt_version r")
    case True
    with Cons.prems(2) have "s = r" by simp
    then show ?thesis by (simp add: find_policy_def py_int_def row_of_def)
  next
    case False
    with Cons show ?thesis by (auto simp: find_policy_def py_int_def row_of_def)
  qed
qed simp

lemma find_stored_policy:
  assumes "history_ok rows" "r \<in> set rows"
  shows "find_policy (map row_of rows) (pt_tenant_id r) (JInt (pt_version r)) = Some (row_of r)"
  by (rule find_policy_unique [OF assms(2)]) (use version_unique [OF assms(1)] assms(2) in blast)

lemma validate_updated:
  assumes "coerces co" "hex64 (pt_content_hash row)"
  shows "validate co ''policy.updated'' (updated_payload row previous by_whom n nts) = Inr (updated_payload row previous by_whom n nts)"
proof -
  have co: "co ty j = Some j" if "has_type ty j" for ty j using assms(1) that by (auto simp: coerces_def)
  have "co FInt (JInt i) = Some (JInt i)" "co FStr (JStr x) = Some (JStr x)" "co (FOpt FInt) (JInt i) = Some (JInt i)"
    "co (FOpt FInt) JNull = Some JNull" "co FStrList (JList (map JStr ys)) = Some (JList (map JStr ys))" for i x ys
    by (rule co; simp add: list_all_iff)+
  then show ?thesis
    using assms(2)
    by (cases previous)
      (simp_all add: validate_def REGISTRY_def run_model_def PolicyUpdated_def updated_payload_def no_check_def check_hash_def)
qed

section \<open>Well-formed stores\<close>

definition hashes_ok :: "(string \<Rightarrow> string) \<Rightarrow> table_row list \<Rightarrow> bool" where
  "hashes_ok H rows \<longleftrightarrow> (\<forall>r \<in> set rows.
     pt_content_hash r = policy_row_hash H (pt_tenant_id r) (JInt (pt_version r)) (pt_yaml r))"

definition readable :: "yaml_codec \<Rightarrow> table_row list \<Rightarrow> bool" where
  "readable ym rows \<longleftrightarrow> (\<forall>r \<in> set rows. \<exists>p. ym_policy ym (pt_yaml r) = Some p \<and> int (p_version p) = pt_version r)"

definition store_ok :: "yaml_codec \<Rightarrow> (string \<Rightarrow> string) \<Rightarrow> store \<Rightarrow> bool" where
  "store_ok ym H st \<longleftrightarrow> history_ok (st_policies st) \<and> hashes_ok H (st_policies st) \<and> readable ym (st_policies st)
     \<and> dl_good H (ledger_of st)"

definition reads_back :: "yaml_codec \<Rightarrow> bool" where
  \<comment> \<open>what PyYAML and pydantic promise: the stored text of an accepted draft loads as the stored policy\<close>
  "reads_back ym \<longleftrightarrow> (\<forall>text draft version unit. ym_draft ym text = Some draft \<longrightarrow>
     ym_policy ym (stored_yaml ym draft version unit) = Some (stored_policy draft version unit))"

definition stored :: "store \<Rightarrow> string \<Rightarrow> int \<Rightarrow> string \<Rightarrow> bool" where
  "stored st t v b \<longleftrightarrow> (\<exists>r \<in> set (st_policies st). pt_tenant_id r = t \<and> pt_version r = v \<and> pt_yaml r = b)"

lemma stored_policy_version [simp]: "p_version (stored_policy d v unit) = v"
  by (simp add: stored_policy_def Let_def)

lemma ledger_of_simps [simp]:
  "db_policies (ledger_of st) = map row_of (st_policies st)" "db_tenants (ledger_of st) = db_tenants (st_ledger st)"
  "db_ledger (ledger_of st) = db_ledger (st_ledger st)"
  by (simp_all add: ledger_of_def)

section \<open>Loading\<close>

definition load_direct :: "yaml_codec \<Rightarrow> (string \<Rightarrow> string) \<Rightarrow> store \<Rightarrow> string \<Rightarrow> store_error + (policy \<times> string)" where
  \<comment> \<open>the reference: no cache\<close>
  "load_direct ym H st t =
     (case active_row st t of
        Inl err \<Rightarrow> Inl err
      | Inr None \<Rightarrow> Inl (NoActivePolicy t)
      | Inr (Some row) \<Rightarrow> rbind (parse_policy ym (pt_yaml row)) (\<lambda>p.
          Inr (p, policy_row_hash H t (JInt (pt_version row)) (pt_yaml row))))"

definition without_reason :: "store_error + loaded \<Rightarrow> store_error + (policy \<times> string)" where
  "without_reason r = rbind r (\<lambda>(p, reason, h). Inr (p, h))"

lemma sole_row_Some: "sole_row xs = Inr (Some x) \<longleftrightarrow> xs = [x]"
  by (cases xs rule: sole_row.cases) auto

lemma active_row_member:
  assumes "active_row st t = Inr (Some row)"
  shows "row \<in> set (st_policies st) \<and> pt_tenant_id row = t \<and> pt_active row"
proof -
  from assms have "filter (\<lambda>r. pt_tenant_id r = t \<and> pt_active r) (st_policies st) = [row]"
    by (simp add: active_row_def sole_row_Some)
  then have "row \<in> set (filter (\<lambda>r. pt_tenant_id r = t \<and> pt_active r) (st_policies st))" by simp
  then show ?thesis by simp
qed

lemma load_is_direct:
  assumes "history_ok (st_policies st)" "policy.agrees (stored st) c" "load ym H e e' st t c = (c', r)"
  shows "load_direct ym H st t = without_reason r \<and> policy.agrees (stored st) c'
    \<and> (\<forall>p reason h. r = Inr (p, reason, h) \<longrightarrow> reason = pc_degrade_reason c')"
proof (cases "active_row st t")
  case (Inl err)
  with assms(2,3) show ?thesis by (auto simp: load_def load_direct_def without_reason_def)
next
  case (Inr o')
  show ?thesis
  proof (cases o')
    case None
    with Inr assms(2,3) show ?thesis by (auto simp: load_def load_direct_def without_reason_def)
  next
    case (Some row)
    note active = Inr [unfolded Some] and row = active_row_member [OF Inr [unfolded Some]]
    obtain g c1 where g: "pc_get e t (pt_version row) c = (g, c1)" by fastforce
    from policy.agrees_get [OF assms(2) g] have c1: "policy.agrees (stored st) c1"
      and hit: "\<And>b. g = Some b \<Longrightarrow> stored st t (pt_version row) b" by auto
    show ?thesis
    proof (cases g)
      case None
      have "policy.agrees (stored st) (pc_set e' t (pt_version row) (pt_yaml row) c1)"
        by (rule policy.agrees_put [OF c1]) (use row in \<open>auto simp: stored_def\<close>)
      then show ?thesis using assms(3) c1
        by (cases "parse_policy ym (pt_yaml row)")
          (auto simp: load_def load_direct_def without_reason_def active g None load_blob_def Let_def)
    next
      case (Some b)
      from hit [OF this] obtain s where "s \<in> set (st_policies st)" "pt_tenant_id s = t" "pt_version s = pt_version row"
          "pt_yaml s = b" by (auto simp: stored_def)
      with version_unique [OF assms(1), of s row] row have "b = pt_yaml row" by simp
      then show ?thesis using assms(3) c1
        by (cases "parse_policy ym (pt_yaml row)")
          (auto simp: load_def load_direct_def without_reason_def active g Some load_blob_def)
    qed
  qed
qed

lemma load_direct_store_ok:
  assumes "store_ok ym H st" "load_direct ym H st t = Inr (p, h)"
  shows "\<exists>row \<in> set (st_policies st). pt_tenant_id row = t \<and> pt_active row \<and> ym_policy ym (pt_yaml row) = Some p
    \<and> pt_version row = int (p_version p) \<and> h = pt_content_hash row"
proof -
  from assms(2) obtain row where row: "active_row st t = Inr (Some row)" and p: "ym_policy ym (pt_yaml row) = Some p"
    and h: "h = policy_row_hash H t (JInt (pt_version row)) (pt_yaml row)"
    by (auto simp: load_direct_def parse_policy_def split: sum.splits option.splits)
  from active_row_member [OF row] have "row \<in> set (st_policies st)" "pt_tenant_id row = t" "pt_active row" by auto
  with assms(1) p h show ?thesis
    by (intro bexI [of _ row]) (auto simp: store_ok_def hashes_ok_def readable_def)
qed

section \<open>Writing a version\<close>

lemma hashed_hex: "(\<And>x. length (H x) = 32) \<Longrightarrow> hex64 (policy_row_hash H t v y)"
  unfolding policy_row_hash_def by (rule hex64_to_hex)

lemma diff_summary_total:
  assumes "ym_policy ym new = Some p" "\<And>y. old = Some y \<Longrightarrow> ym_policy ym y \<noteq> None"
  shows "\<exists>nts. diff_summary ym old new = Inr nts"
proof (cases old)
  case (Some y)
  with assms(2) obtain q where "ym_policy ym y = Some q" by blast
  with Some assms(1) show ?thesis by (simp add: diff_summary_def parse_policy_def)
qed (simp add: diff_summary_def)

lemma deactivate_member: "r \<in> set (deactivate t rows) \<Longrightarrow> \<exists>s \<in> set rows. pt_tenant_id r = pt_tenant_id s
    \<and> pt_version r = pt_version s \<and> pt_yaml r = pt_yaml s \<and> pt_content_hash r = pt_content_hash s"
  by (auto simp: deactivate_def)

lemma insert_version_fresh:
  assumes "history_ok (st_policies st)" "active_row st t = Inr previous"
    and "pt_version row = int (next_version previous)"
  shows "insert_version t row (deactivate t (st_policies st)) = Inr (deactivate t (st_policies st) @ [row])"
proof -
  have "pt_version r \<noteq> pt_version row" if r: "r \<in> set (deactivate t (st_policies st))" "pt_tenant_id r = t" for r
  proof -
    from deactivate_member [OF r(1)] obtain s where s: "s \<in> set (st_policies st)" "pt_tenant_id s = t"
        "pt_version r = pt_version s" using r(2) by auto
    with versions_bounded [OF assms(1) s(1)] assms(3) next_version_history [OF assms(1,2)] show ?thesis by auto
  qed
  then show ?thesis by (auto simp: insert_version_def)
qed

definition new_row :: "(string \<Rightarrow> string) \<Rightarrow> string \<Rightarrow> nat \<Rightarrow> string \<Rightarrow> table_row" where
  "new_row H t version yaml = \<lparr>pt_tenant_id = t, pt_version = int version, pt_yaml = yaml,
     pt_content_hash = policy_row_hash H t (JInt (int version)) yaml, pt_active = True\<rparr>"

lemma new_row_simps [simp]:
  "pt_tenant_id (new_row H t v y) = t" "pt_version (new_row H t v y) = int v" "pt_yaml (new_row H t v y) = y"
  "pt_content_hash (new_row H t v y) = policy_row_hash H t (JInt (int v)) y" "pt_active (new_row H t v y)"
  by (simp_all add: new_row_def)

lemma inserted_rows_ok:
  assumes ok: "store_ok ym H st" and prev: "active_row st t = Inr previous"
    and y: "ym_policy ym y = Some p" "p_version p = next_version previous"
  defines "rows \<equiv> deactivate t (st_policies st) @ [new_row H t (next_version previous) y]"
  shows "history_ok rows" "hashes_ok H rows" "readable ym rows"
    "dl_good H ((ledger_of st)\<lparr>db_policies := map row_of rows\<rparr>)"
proof -
  from ok have h: "history_ok (st_policies st)" by (simp add: store_ok_def)
  show "history_ok rows" unfolding rows_def
    by (rule insert_keeps_history [OF h]) (simp_all add: next_version_history [OF h prev])
  show "hashes_ok H rows" using ok unfolding rows_def hashes_ok_def store_ok_def by (auto dest!: deactivate_member)
  show "readable ym rows" using ok y unfolding rows_def readable_def store_ok_def by (force dest!: deactivate_member)
  have "map row_of rows = db_policies (ledger_of st) @ [row_of (new_row H t (next_version previous) y)]"
    by (simp add: rows_def deactivate_fields)
  then show "dl_good H ((ledger_of st)\<lparr>db_policies := map row_of rows\<rparr>)"
    using dl_good_more_policies [of H "ledger_of st"] ok by (simp add: store_ok_def)
qed

lemma updated_binds:
  assumes "history_ok rows" "row \<in> set rows" "pt_content_hash row = policy_row_hash H (pt_tenant_id row) (JInt (pt_version row)) (pt_yaml row)"
    and "db_policies db = map row_of rows"
  shows "binds H db (pt_tenant_id row) ''policy.updated'' (updated_payload row previous by_whom n nts)"
  using find_stored_policy [OF assms(1,2)] assms(3,4)
  by (auto simp: binds_def binding_failure_def policy_updated_failure_def updated_payload_def pget_def Let_def row_of_def)

lemma write_version_correct:
  assumes ok: "store_ok ym H st" and prev: "active_row st t = Inr previous" and v: "v = next_version previous"
    and y: "ym_policy ym y = Some p" "p_version p = v"
    and co: "coerces co" and len: "\<And>x. length (H x) = 32"
  shows "\<exists>st' nts rec anchor. write_version ym co H now now' st previous t v y by_whom n = Inr (new_row H t v y, st')
    \<and> store_ok ym H st' \<and> st_policies st' = deactivate t (st_policies st) @ [new_row H t v y]
    \<and> db_tenants (st_ledger st') = db_tenants (st_ledger st)
    \<and> db_ledger (st_ledger st') = db_ledger (st_ledger st) @ [rec, anchor]
    \<and> lr_tenant_id rec = t \<and> lr_event_type rec = ''policy.updated''
    \<and> lr_payload rec = updated_payload (new_row H t v y) previous by_whom n nts"
proof -
  let ?row = "new_row H t v y" and ?rows = "deactivate t (st_policies st) @ [new_row H t v y]"
  let ?st = "st\<lparr>st_policies := ?rows\<rparr>"
  from ok have h: "history_ok (st_policies st)" and rd: "readable ym (st_policies st)" by (simp_all add: store_ok_def)
  note rows = inserted_rows_ok [OF ok prev y(1) y(2) [unfolded v], folded v]
  have ins: "insert_version t ?row (deactivate t (st_policies st)) = Inr ?rows"
    by (rule insert_version_fresh [OF h prev]) (simp add: v)
  have "ym_policy ym q \<noteq> None" if "map_option pt_yaml previous = Some q" for q
  proof -
    from that obtain r where "previous = Some r" "q = pt_yaml r" by auto
    with active_row_member [of st t r] prev rd show ?thesis by (auto simp: readable_def)
  qed
  from diff_summary_total [OF y(1) this] obtain nts where nts: "diff_summary ym (map_option pt_yaml previous) y = Inr nts"
    by blast
  let ?p = "updated_payload ?row previous by_whom n nts"
  have lg: "ledger_of ?st = (ledger_of st)\<lparr>db_policies := map row_of ?rows\<rparr>" by (simp add: ledger_of_def)
  have val: "validate co ''policy.updated'' ?p = Inr ?p"
    by (rule validate_updated [OF co]) (simp add: hashed_hex [OF len])
  have bind: "binds H (ledger_of ?st) t ''policy.updated'' ?p"
    using updated_binds [OF rows(1), of ?row H "ledger_of ?st"] by simp
  have pick: "pick_chain ''policy.updated'' None = Inr ''ctl''"
    by (simp add: pick_chain_def CHAIN_BY_EVENT_def CHAINS_def)
  from dl_append_good [OF rows(4) [folded lg] co len pick val bind, of now now'] obtain rec anchor db where
    app: "dl_append co H now now' (ledger_of ?st) t ''policy.updated'' ?p None = Inr (rec, db)"
    and db: "dl_good H db" "db_ledger db = db_ledger (ledger_of ?st) @ [rec, anchor]" "lr_payload rec = ?p"
      "lr_event_type rec = ''policy.updated''" "lr_tenant_id rec = t" "db_policies db = db_policies (ledger_of ?st)"
      "db_tenants db = db_tenants (ledger_of ?st)" by blast
  let ?st' = "?st\<lparr>st_ledger := db\<rparr>"
  have "write_version ym co H now now' st previous t v y by_whom n = Inr (?row, ?st')"
    using ins nts app by (simp add: write_version_def new_row_def [symmetric] Let_def)
  moreover have "ledger_of ?st' = db" using db(6) by (simp add: ledger_of_def)
  then have "store_ok ym H ?st'" using rows db(1) by (simp add: store_ok_def)
  ultimately show ?thesis
    using db by (intro exI [of _ ?st'] exI [of _ nts] exI [of _ rec] exI [of _ anchor]) simp
qed

section \<open>Publishing\<close>

definition publish_checks :: "yaml_codec \<Rightarrow> store \<Rightarrow> string \<Rightarrow> string \<Rightarrow> int option \<Rightarrow> policy_draft \<Rightarrow> string option
    \<Rightarrow> table_row option \<Rightarrow> bool" where
  \<comment> \<open>every check but the one against the parent's policy\<close>
  "publish_checks ym st t yaml_text expected draft parent previous \<longleftrightarrow>
     parse_draft ym yaml_text = Inr draft \<and> map_of (db_tenants (st_ledger st)) t = Some parent
     \<and> validate_ownership ym t parent draft yaml_text = Inr () \<and> active_row st t = Inr previous
     \<and> check_expected_version previous expected = Inr ()"

lemma publish_passed:
  assumes "publish_checks ym st t text' expected draft parent previous"
  shows "publish ym co H now now' io st t text' by_whom expected c =
    (case check_parent ym H io st parent draft (next_version previous) c of
       (c, Inl err) \<Rightarrow> (c, Inl err)
     | (c, Inr _) \<Rightarrow>
         (case write_version ym co H now now' st previous t (next_version previous)
             (stored_yaml ym draft (next_version previous) (parent \<noteq> None)) by_whom (length (p_rules draft)) of
            Inl err \<Rightarrow> (c, Inl err) | Inr r \<Rightarrow> (pc_invalidate t c, Inr r)))"
  using assms by (simp add: publish_def publish_checks_def Let_def del: not_None_eq)

lemma publish_refused:
  assumes "\<nexists>draft parent previous. publish_checks ym st t text' expected draft parent previous"
  shows "\<exists>err. publish ym co H now now' io st t text' by_whom expected c = (c, Inl err)"
proof (cases "parse_draft ym text'")
  case (Inr draft)
  show ?thesis
  proof (cases "map_of (db_tenants (st_ledger st)) t")
    case (Some parent)
    obtain r where r: "rbind (validate_ownership ym t parent draft text') (\<lambda>_. rbind (active_row st t) (\<lambda>previous.
        rbind (check_expected_version previous expected) (\<lambda>_. Inr previous))) = r" by blast
    show ?thesis
    proof (cases r)
      case (Inl err)
      with r Some \<open>parse_draft ym text' = Inr draft\<close> show ?thesis by (simp add: publish_def)
    next
      case (Inr previous)
      from r [unfolded this] have "publish_checks ym st t text' expected draft parent previous"
        unfolding publish_checks_def using \<open>parse_draft ym text' = Inr draft\<close> Some by (auto simp: rbind_Inr_iff)
      with assms show ?thesis by blast
    qed
  qed (use Inr in \<open>simp add: publish_def\<close>)
qed (simp add: publish_def)

lemma check_parent_cache:
  assumes "history_ok (st_policies st)" "policy.agrees (stored st) c" "check_parent ym H io st parent d v c = (c', r)"
  shows "policy.agrees (stored st) c'"
proof (cases parent)
  case (Some p)
  obtain l c1 where l: "load ym H (io 0) (io 1) st p c = (c1, l)" by fastforce
  have "c' = c1" using assms(3) Some l
    by (auto simp: check_parent_def load_active_def rbind_def split: sum.splits store_error.splits)
  with load_is_direct [OF assms(1,2) l] show ?thesis by simp
qed (use assms in \<open>simp add: check_parent_def\<close>)

definition publishes :: "yaml_codec \<Rightarrow> (string \<Rightarrow> string) \<Rightarrow> store \<Rightarrow> string \<Rightarrow> string \<Rightarrow> int option \<Rightarrow> string
    \<Rightarrow> table_row \<Rightarrow> store \<Rightarrow> bool" where
  \<comment> \<open>what a publish that succeeds has done to the tables\<close>
  "publishes ym H st t yaml_text expected by_whom row st' \<longleftrightarrow>
    (\<exists>draft parent previous nts rec anchor. publish_checks ym st t yaml_text expected draft parent previous
     \<and> row = new_row H t (next_version previous) (stored_yaml ym draft (next_version previous) (parent \<noteq> None))
     \<and> st_policies st' = deactivate t (st_policies st) @ [row]
     \<and> db_tenants (st_ledger st') = db_tenants (st_ledger st)
     \<and> db_ledger (st_ledger st') = db_ledger (st_ledger st) @ [rec, anchor]
     \<and> lr_tenant_id rec = t \<and> lr_event_type rec = ''policy.updated''
     \<and> lr_payload rec = updated_payload row previous by_whom (length (p_rules draft)) nts)"

lemma publish_result:
  assumes ok: "store_ok ym H st" and cache: "policy.agrees (stored st) c" and rb: "reads_back ym"
    and co: "coerces co" and len: "\<And>x. length (H x) = 32"
    and pub: "publish ym co H now now' io st t text' by_whom expected c = (c', r)"
  shows "policy.agrees (stored st) c' \<and>
    (\<forall>row st'. r = Inr (row, st') \<longrightarrow> publishes ym H st t text' expected by_whom row st' \<and> store_ok ym H st')"
proof (cases "\<exists>draft parent previous. publish_checks ym st t text' expected draft parent previous")
  case False
  then obtain err where "publish ym co H now now' io st t text' by_whom expected c = (c, Inl err)"
    using publish_refused by blast
  with pub have "r = Inl err" "c' = c" by simp_all
  with cache show ?thesis by simp
next
  case True
  then obtain draft parent previous where chk: "publish_checks ym st t text' expected draft parent previous" by blast
  let ?v = "next_version previous"
  let ?y = "stored_yaml ym draft ?v (parent \<noteq> None)"
  obtain c1 q where q: "check_parent ym H io st parent draft ?v c = (c1, q)" by fastforce
  from ok have h: "history_ok (st_policies st)" by (simp add: store_ok_def)
  from check_parent_cache [OF h cache q] have c1: "policy.agrees (stored st) c1" .
  show ?thesis
  proof (cases q)
    case (Inl err)
    then have "r = Inl err" "c' = c1"
      using pub publish_passed [OF chk, of co H now now' io by_whom c] q by simp_all
    with c1 show ?thesis by simp
  next
    case (Inr u)
    from chk have "ym_draft ym text' = Some draft" and prev: "active_row st t = Inr previous"
      by (auto simp: publish_checks_def parse_draft_def split: option.splits)
    with rb have y: "ym_policy ym ?y = Some (stored_policy draft ?v (parent \<noteq> None))" unfolding reads_back_def by blast
    from write_version_correct [OF ok prev refl y stored_policy_version co len, of now now' by_whom "length (p_rules draft)"]
    obtain st' nts rec anchor where w: "write_version ym co H now now' st previous t ?v ?y by_whom (length (p_rules draft))
        = Inr (new_row H t ?v ?y, st')" "store_ok ym H st'"
        "st_policies st' = deactivate t (st_policies st) @ [new_row H t ?v ?y]"
        "db_tenants (st_ledger st') = db_tenants (st_ledger st)"
        "db_ledger (st_ledger st') = db_ledger (st_ledger st) @ [rec, anchor]" "lr_tenant_id rec = t"
        "lr_event_type rec = ''policy.updated''"
        "lr_payload rec = updated_payload (new_row H t ?v ?y) previous by_whom (length (p_rules draft)) nts" by blast
    have "r = Inr (new_row H t ?v ?y, st')" "c' = pc_invalidate t c1"
      using pub publish_passed [OF chk, of co H now now' io by_whom c] q Inr w(1) by simp_all
    moreover from this have "policy.agrees (stored st) c'" using policy.agrees_drop [OF c1] by simp
    moreover have "publishes ym H st t text' expected by_whom (new_row H t ?v ?y) st'"
      unfolding publishes_def using chk w(3-) by blast
    ultimately show ?thesis using w(2) by simp
  qed
qed

section \<open>Resolving both layers\<close>

definition resolve_direct :: "yaml_codec \<Rightarrow> (string \<Rightarrow> string) \<Rightarrow> store \<Rightarrow> string
    \<Rightarrow> store_error + ((policy \<times> string) \<times> (policy \<times> string) option)" where
  \<comment> \<open>the reference: both layers straight from the table\<close>
  "resolve_direct ym H st t =
     (case map_of (db_tenants (st_ledger st)) t of
        None \<Rightarrow> Inl (TenantNotFound t)
      | Some None \<Rightarrow> rbind (load_direct ym H st t) (\<lambda>org. Inr (org, None))
      | Some (Some parent) \<Rightarrow> rbind (load_direct ym H st parent) (\<lambda>org.
          case load_direct ym H st t of
            Inl err \<Rightarrow> (if err = NoActivePolicy t then Inr (org, None) else Inl err)
          | Inr bu \<Rightarrow> Inr (org, Some bu)))"

definition layers :: "resolved_policies \<Rightarrow> (policy \<times> string) \<times> (policy \<times> string) option" where
  "layers rp = ((rp_org rp, rp_org_policy_content_hash rp),
     case rp_bu rp of None \<Rightarrow> None | Some p \<Rightarrow> Some (p, the (rp_bu_policy_content_hash rp)))"

definition owners :: "store \<Rightarrow> string \<Rightarrow> resolved_policies \<Rightarrow> bool" where
  \<comment> \<open>which tenants the two layers are taken from\<close>
  "owners st t rp \<longleftrightarrow> (case map_of (db_tenants (st_ledger st)) t of
       None \<Rightarrow> False
     | Some None \<Rightarrow> rp_org_tenant_id rp = t \<and> rp_bu rp = None
     | Some (Some p) \<Rightarrow> rp_org_tenant_id rp = p) \<and> (rp_bu rp = None \<longleftrightarrow> rp_bu_policy_content_hash rp = None)"

lemma load_direct_error: "load_direct ym H st t = Inl (NoActivePolicy u) \<Longrightarrow> u = t"
  by (auto simp: load_direct_def active_row_def parse_policy_def rbind_def split: sum.splits option.splits
      elim: sole_row.elims)

lemma without_reason_simps [simp]:
  "without_reason (Inl err) = Inl err" "without_reason (Inr (p, reason, h)) = Inr (p, h)"
  by (simp_all add: without_reason_def)

lemma reasons_reported: "pc_redis_degraded c \<Longrightarrow> ''policy_cache_local'' \<in> set (reasons (pc_degrade_reason c))"
  by (simp add: reasons_def pc_degrade_reason_def)

lemma load_for_tenant_result:
  assumes h: "history_ok (st_policies st)" and cache: "policy.agrees (stored st) c"
    and l: "load_for_tenant ym H io st t c = (c', r)"
  shows "policy.agrees (stored st) c' \<and> rbind r (\<lambda>rp. Inr (layers rp)) = resolve_direct ym H st t
    \<and> (\<forall>rp. r = Inr rp \<longrightarrow> owners st t rp \<and> (pc_redis_degraded c' \<longrightarrow> ''policy_cache_local'' \<in> set (rp_degraded_reasons rp)))"
proof (cases "map_of (db_tenants (st_ledger st)) t")
  case None
  with l cache have "c' = c" "r = Inl (TenantNotFound t)" by (simp_all add: load_for_tenant_def)
  with None cache show ?thesis by (simp add: resolve_direct_def)
next
  case (Some o')
  show ?thesis
  proof (cases o')
    case None
    obtain a c1 where a: "load ym H (io 0) (io 1) st t c = (c1, a)" by fastforce
    note f = load_is_direct [OF h cache a]
    from l Some None a have "c' = c1" by (simp add: load_for_tenant_def split: sum.splits prod.splits)
    moreover from f have "load_direct ym H st t = without_reason a" by simp
    ultimately show ?thesis using f l Some None a
      by (cases a) (auto simp: load_for_tenant_def resolve_direct_def owners_def layers_def reasons_reported)
  next
    case (Some parent)
    note mo = \<open>map_of (db_tenants (st_ledger st)) t = Some o'\<close> [unfolded Some]
    obtain a c1 where a: "load ym H (io 0) (io 1) st parent c = (c1, a)" by fastforce
    note f = load_is_direct [OF h cache a]
    show ?thesis
    proof (cases a)
      case (Inl err)
      with l mo a have "c' = c1" "r = Inl err" by (simp_all add: load_for_tenant_def)
      with f mo Inl show ?thesis by (simp add: resolve_direct_def)
    next
      case (Inr org)
      then obtain p reason hs where org: "a = Inr (p, reason, hs)" by (cases org) auto
      obtain b c2 where b: "load ym H (io 2) (io 3) st t c1 = (c2, b)" by fastforce
      from f have c1: "policy.agrees (stored st) c1" by blast
      note g = load_is_direct [OF h c1 b]
      have dp: "load_direct ym H st parent = Inr (p, hs)" "reason = pc_degrade_reason c1" using f org by auto
      from l mo a org b have c2: "c' = c2" by (auto simp: load_for_tenant_def split: sum.splits store_error.splits prod.splits)
      show ?thesis
      proof (cases b)
        case (Inr bu)
        then obtain p' reason' hs' where bu: "b = Inr (p', reason', hs')" by (cases bu) auto
        with l mo a org b have "r = Inr \<lparr>rp_org = p, rp_bu = Some p', rp_org_tenant_id = parent, rp_bu_tenant_id = Some t,
            rp_degraded_reasons = reasons reason @ reasons reason', rp_org_policy_content_hash = hs,
            rp_bu_policy_content_hash = Some hs'\<rparr>" by (simp add: load_for_tenant_def)
        with g bu dp mo c2 show ?thesis
          by (auto simp: resolve_direct_def owners_def layers_def reasons_reported)
      next
        case (Inl err)
        show ?thesis
        proof (cases "\<exists>u. err = NoActivePolicy u")
          case True
          then obtain u where u: "err = NoActivePolicy u" by blast
          then have "u = t" using g Inl load_direct_error [of ym H st t u] by auto
          moreover have "r = Inr \<lparr>rp_org = p, rp_bu = None, rp_org_tenant_id = parent, rp_bu_tenant_id = Some t,
              rp_degraded_reasons = reasons reason, rp_org_policy_content_hash = hs, rp_bu_policy_content_hash = None\<rparr>"
            using l mo a org b Inl u by (simp add: load_for_tenant_def)
          moreover have "c2 = c1" using b Inl u
            by (auto simp: load_def load_blob_def parse_policy_def rbind_def Let_def split: sum.splits option.splits prod.splits)
          ultimately show ?thesis using g Inl u dp mo c2
            by (auto simp: resolve_direct_def owners_def layers_def reasons_reported)
        next
          case False
          then have "r = Inl err" using l mo a org b Inl by (cases err) (simp_all add: load_for_tenant_def)
          with False g Inl dp mo c2 show ?thesis by (auto simp: resolve_direct_def)
        qed
      qed
    qed
  qed
qed

section \<open>Every reachable state\<close>

record world =
  w_store :: store
  w_cache :: cache_world
  w_open :: "(string \<times> resolved_policies) list" \<comment> \<open>requests whose policies are loaded\<close>

definition names_policies :: "resolved_policies \<Rightarrow> fields \<Rightarrow> bool" where
  \<comment> \<open>the record carries the versions and hashes of the loaded policies\<close>
  "names_policies rp q \<longleftrightarrow>
     pget ''org_policy_version'' q = JInt (int (rp_org_policy_version rp))
     \<and> pget ''org_policy_content_hash'' q = JStr (rp_org_policy_content_hash rp)
     \<and> pget ''bu_policy_version'' q = (case rp_bu_policy_version rp of None \<Rightarrow> JNull | Some v \<Rightarrow> JInt (int v))
     \<and> pget ''bu_policy_content_hash'' q = (case rp_bu_policy_content_hash rp of None \<Rightarrow> JNull | Some h \<Rightarrow> JStr h)"

definition flat :: "(string \<times> string option) list \<Rightarrow> bool" where
  \<comment> \<open>organisations and their business units, no third level\<close>
  "flat ts \<longleftrightarrow> (\<forall>(t, o') \<in> set ts. case o' of None \<Rightarrow> True | Some p \<Rightarrow> map_of ts p = Some None)"

inductive store_step :: "yaml_codec \<Rightarrow> coercion \<Rightarrow> (string \<Rightarrow> string) \<Rightarrow> world \<Rightarrow> world \<Rightarrow> bool"
  for ym co H where
  published: "publish ym co H now now' io (w_store w) t text' by_whom expected (w_cache w) = (c', Inr (row, st'))
    \<Longrightarrow> store_step ym co H w (w\<lparr>w_store := st', w_cache := c'\<rparr>)"
| refused: "publish ym co H now now' io (w_store w) t text' by_whom expected (w_cache w) = (c', Inl err)
    \<Longrightarrow> store_step ym co H w (w\<lparr>w_cache := c'\<rparr>)"
| rolled_back: "rollback_to ym co H now now' io (w_store w) t v by_whom (w_cache w) = (c', Inr (row, st'))
    \<Longrightarrow> store_step ym co H w (w\<lparr>w_store := st', w_cache := c'\<rparr>)"
| rollback_refused: "rollback_to ym co H now now' io (w_store w) t v by_whom (w_cache w) = (c', Inl err)
    \<Longrightarrow> store_step ym co H w (w\<lparr>w_cache := c'\<rparr>)"
| loaded: "load_for_tenant ym H io (w_store w) t (w_cache w) = (c', Inr rp)
    \<Longrightarrow> store_step ym co H w (w\<lparr>w_cache := c', w_open := (t, rp) # w_open w\<rparr>)"
| load_failed: "load_for_tenant ym H io (w_store w) t (w_cache w) = (c', Inl err)
    \<Longrightarrow> store_step ym co H w (w\<lparr>w_cache := c'\<rparr>)"
| decided: "(t, rp) \<in> set (w_open w) \<Longrightarrow> validate co ''request.decided'' p = Inr q \<Longrightarrow> names_policies rp q
    \<Longrightarrow> dl_append co H now now' (ledger_of (w_store w)) t ''request.decided'' p None = Inr (rec, db)
    \<Longrightarrow> store_step ym co H w (w\<lparr>w_store := (w_store w)\<lparr>st_ledger := db\<rparr>\<rparr>)"
| probed: "pc_force_probe e (w_cache w) = (up, c') \<Longrightarrow> store_step ym co H w (w\<lparr>w_cache := c'\<rparr>)"
| closed: "store_step ym co H w (w\<lparr>w_cache := pc_close (w_cache w)\<rparr>)"
| evicted: "store_step ym co H w (w\<lparr>w_cache := (w_cache w)\<lparr>cw_server := filter kept (cw_server (w_cache w))\<rparr>\<rparr>)"

definition fresh_world :: "(string \<times> string option) list \<Rightarrow> world" where
  "fresh_world ts = \<lparr>w_store = \<lparr>st_policies = [], st_ledger = empty_db [] ts\<rparr>, w_cache = new_cache [], w_open = []\<rparr>"

definition grounded :: "store \<Rightarrow> string \<Rightarrow> resolved_policies \<Rightarrow> bool" where
  \<comment> \<open>the loaded policies are rows of the table\<close>
  "grounded st t rp \<longleftrightarrow> owners st t rp
     \<and> (\<exists>r \<in> set (st_policies st). pt_tenant_id r = rp_org_tenant_id rp \<and> pt_version r = int (rp_org_policy_version rp)
          \<and> pt_content_hash r = rp_org_policy_content_hash rp)
     \<and> (\<forall>p. rp_bu rp = Some p \<longrightarrow> (\<exists>r \<in> set (st_policies st). pt_tenant_id r = t \<and> pt_version r = int (p_version p)
          \<and> rp_bu_policy_content_hash rp = Some (pt_content_hash r)))"

lemma deactivate_keeps: "r \<in> set rows \<Longrightarrow> \<exists>s \<in> set (deactivate t rows). pt_tenant_id s = pt_tenant_id r
    \<and> pt_version s = pt_version r \<and> pt_yaml s = pt_yaml r \<and> pt_content_hash s = pt_content_hash r"
  unfolding deactivate_def
  by (rule bexI [of _ "if pt_tenant_id r = t \<and> pt_active r then r\<lparr>pt_active := False\<rparr> else r"]) auto

lemma publishes_keeps:
  assumes "publishes ym H st t y ex who row st'"
  shows "\<And>r. r \<in> set (st_policies st) \<Longrightarrow> \<exists>s \<in> set (st_policies st'). pt_tenant_id s = pt_tenant_id r
      \<and> pt_version s = pt_version r \<and> pt_yaml s = pt_yaml r \<and> pt_content_hash s = pt_content_hash r"
    "db_tenants (st_ledger st') = db_tenants (st_ledger st)"
  using assms deactivate_keeps [of _ "st_policies st" t] unfolding publishes_def by fastforce+

lemma publishes_stored:
  assumes "publishes ym H st t y ex who row st'" "stored st u v b"
  shows "stored st' u v b"
  using publishes_keeps(1) [OF assms(1)] assms(2) unfolding stored_def by metis

lemma publishes_grounded:
  assumes "publishes ym H st t y ex who row st'" "grounded st u rp"
  shows "grounded st' u rp"
proof -
  note k = publishes_keeps(1) [OF assms(1)] and ts = publishes_keeps(2) [OF assms(1)]
  from assms(2) obtain r where r: "r \<in> set (st_policies st)" "pt_tenant_id r = rp_org_tenant_id rp"
      "pt_version r = int (rp_org_policy_version rp)" "pt_content_hash r = rp_org_policy_content_hash rp"
    unfolding grounded_def by blast
  have "\<exists>r \<in> set (st_policies st'). pt_tenant_id r = u \<and> pt_version r = int (p_version p)
          \<and> rp_bu_policy_content_hash rp = Some (pt_content_hash r)" if p: "rp_bu rp = Some p" for p
  proof -
    from assms(2) p obtain s where "s \<in> set (st_policies st)" "pt_tenant_id s = u" "pt_version s = int (p_version p)"
        "rp_bu_policy_content_hash rp = Some (pt_content_hash s)" unfolding grounded_def by blast
    with k [of s] show ?thesis by metis
  qed
  moreover from k [OF r(1)] r(2-4) have "\<exists>r \<in> set (st_policies st'). pt_tenant_id r = rp_org_tenant_id rp
      \<and> pt_version r = int (rp_org_policy_version rp) \<and> pt_content_hash r = rp_org_policy_content_hash rp" by metis
  ultimately show ?thesis using assms(2) unfolding grounded_def owners_def ts by blast
qed

lemma resolve_direct_layers:
  assumes "resolve_direct ym H st t = Inr (org, bu)" "map_of (db_tenants (st_ledger st)) t = Some o'"
  shows "load_direct ym H st (case o' of None \<Rightarrow> t | Some p \<Rightarrow> p) = Inr org"
    "bu = Some b \<Longrightarrow> load_direct ym H st t = Inr b"
  using assms by (cases o'; cases "load_direct ym H st t";
    auto simp: resolve_direct_def rbind_Inr_iff split: if_splits)+

lemma load_grounded:
  assumes ok: "store_ok ym H st" and cache: "policy.agrees (stored st) c"
    and l: "load_for_tenant ym H io st t c = (c', Inr rp)"
  shows "grounded st t rp"
proof -
  from ok have h: "history_ok (st_policies st)" by (simp add: store_ok_def)
  from load_for_tenant_result [OF h cache l] have res: "resolve_direct ym H st t = Inr (layers rp)" and own: "owners st t rp"
    by auto
  from own obtain o' where m: "map_of (db_tenants (st_ledger st)) t = Some o'" by (auto simp: owners_def split: option.splits)
  with own have "rp_org_tenant_id rp = (case o' of None \<Rightarrow> t | Some p \<Rightarrow> p)"
    by (auto simp: owners_def split: option.splits)
  with resolve_direct_layers(1) [OF res [unfolded layers_def] m]
  have org: "load_direct ym H st (rp_org_tenant_id rp) = Inr (rp_org rp, rp_org_policy_content_hash rp)" by simp
  have "load_direct ym H st t = Inr (p, the (rp_bu_policy_content_hash rp))" if "rp_bu rp = Some p" for p
    by (rule resolve_direct_layers(2) [OF res [unfolded layers_def] m]) (simp add: that)
  with load_direct_store_ok [OF ok] own
  have "\<exists>r \<in> set (st_policies st). pt_tenant_id r = t \<and> pt_version r = int (p_version p)
      \<and> rp_bu_policy_content_hash rp = Some (pt_content_hash r)" if "rp_bu rp = Some p" for p
    using that unfolding owners_def by fastforce
  moreover from load_direct_store_ok [OF ok org]
  have "\<exists>r \<in> set (st_policies st). pt_tenant_id r = rp_org_tenant_id rp \<and> pt_version r = int (rp_org_policy_version rp)
          \<and> pt_content_hash r = rp_org_policy_content_hash rp" by (auto simp: rp_org_policy_version_def)
  ultimately show ?thesis using own by (simp add: grounded_def)
qed

lemma root_of_flat:
  assumes "flat ts" "map_of ts t = Some o'"
  shows "root_tenant t ts [] = Some (case o' of None \<Rightarrow> t | Some p \<Rightarrow> p)"
proof (cases o')
  case None
  with assms(2) show ?thesis by (simp add: root_tenant.simps [of t])
next
  case (Some p)
  from assms(1) map_of_SomeD [OF assms(2)] Some have "map_of ts p = Some None" by (auto simp: flat_def)
  with assms(2) Some show ?thesis by (simp add: root_tenant.simps [of t] root_tenant.simps [of p])
qed

lemma grounded_binds:
  assumes ok: "store_ok ym H st" and "flat (db_tenants (st_ledger st))" and g: "grounded st t rp" and n: "names_policies rp q"
  shows "binds H (ledger_of st) t ''request.decided'' q"
proof -
  from ok have h: "history_ok (st_policies st)" and hs: "hashes_ok H (st_policies st)" by (simp_all add: store_ok_def)
  from g obtain r where r: "r \<in> set (st_policies st)" "pt_tenant_id r = rp_org_tenant_id rp"
      "pt_version r = int (rp_org_policy_version rp)" "pt_content_hash r = rp_org_policy_content_hash rp"
    unfolding grounded_def by blast
  from g obtain o' where m: "map_of (db_tenants (st_ledger st)) t = Some o'" and own: "owners st t rp"
    by (auto simp: grounded_def owners_def split: option.splits)
  from root_of_flat [OF assms(2) m] own m have rt: "root_tenant t (db_tenants (st_ledger st)) [] = Some (rp_org_tenant_id rp)"
    by (auto simp: owners_def split: option.splits)
  from find_stored_policy [OF h r(1)] hs r have fo: "find_policy (map row_of (st_policies st)) (rp_org_tenant_id rp)
      (JInt (int (rp_org_policy_version rp))) = Some (row_of r)"
    and ho: "policy_row_hash H (rp_org_tenant_id rp) (JInt (int (rp_org_policy_version rp))) (pr_yaml (row_of r))
      = rp_org_policy_content_hash rp"
    by (auto simp: hashes_ok_def row_of_def)
  have "request_decided_failure H row (map row_of (st_policies st)) (db_tenants (st_ledger st)) = None"
    if row: "lr_tenant_id row = t" "lr_payload row = q" for row
  proof (cases "rp_bu rp")
    case None
    with own have "rp_bu_policy_content_hash rp = None" by (simp add: owners_def split: option.splits)
    with n row rt fo ho show ?thesis
      by (simp add: request_decided_failure_def names_policies_def Let_def)
  next
    case (Some p)
    with g obtain s where s: "s \<in> set (st_policies st)" "pt_tenant_id s = t" "pt_version s = int (p_version p)"
        "rp_bu_policy_content_hash rp = Some (pt_content_hash s)" unfolding grounded_def by blast
    from find_stored_policy [OF h s(1)] hs s
    have "find_policy (map row_of (st_policies st)) t (JInt (int (p_version p))) = Some (row_of s)"
      and "policy_row_hash H t (JInt (int (p_version p))) (pr_yaml (row_of s)) = pt_content_hash s"
      by (auto simp: hashes_ok_def row_of_def)
    with n row rt fo ho s(4) Some show ?thesis
      by (simp add: request_decided_failure_def names_policies_def rp_bu_policy_version_def Let_def)
  qed
  then show ?thesis by (simp add: binds_def binding_failure_def)
qed

definition from_draft :: "yaml_codec \<Rightarrow> (string \<times> string option) list \<Rightarrow> table_row \<Rightarrow> bool" where
  \<comment> \<open>the row stores a draft its tenant was allowed to publish\<close>
  "from_draft ym ts r \<longleftrightarrow> (\<exists>text d parent. ym_draft ym text = Some d \<and> map_of ts (pt_tenant_id r) = Some parent
     \<and> pt_yaml r = stored_yaml ym d (nat (pt_version r)) (parent \<noteq> None)
     \<and> validate_ownership ym (pt_tenant_id r) parent d text = Inr ())"

definition world_ok :: "yaml_codec \<Rightarrow> (string \<Rightarrow> string) \<Rightarrow> (string \<times> string option) list \<Rightarrow> world \<Rightarrow> bool" where
  "world_ok ym H ts w \<longleftrightarrow> store_ok ym H (w_store w) \<and> policy.agrees (stored (w_store w)) (w_cache w)
     \<and> db_tenants (st_ledger (w_store w)) = ts \<and> (\<forall>(t, rp) \<in> set (w_open w). grounded (w_store w) t rp)
     \<and> (\<forall>r \<in> set (st_policies (w_store w)). from_draft ym ts r)"

lemma world_okD:
  assumes "world_ok ym H ts w"
  shows "store_ok ym H (w_store w)" "policy.agrees (stored (w_store w)) (w_cache w)"
    "db_tenants (st_ledger (w_store w)) = ts" "\<And>t rp. (t, rp) \<in> set (w_open w) \<Longrightarrow> grounded (w_store w) t rp"
    "\<And>r. r \<in> set (st_policies (w_store w)) \<Longrightarrow> from_draft ym ts r" "history_ok (st_policies (w_store w))"
  using assms by (auto simp: world_ok_def store_ok_def)

lemma fresh_world_ok: "world_ok ym H ts (fresh_world ts)"
proof -
  have "ledger_of \<lparr>st_policies = [], st_ledger = empty_db [] ts\<rparr> = empty_db [] ts"
    by (simp add: ledger_of_def empty_db_def)
  moreover have "history_ok []" by (simp add: history_ok_def versions_of_def)
  ultimately show ?thesis
    using empty_db_good [of H "[]" ts]
    by (simp add: world_ok_def fresh_world_def store_ok_def hashes_ok_def readable_def policy.agrees_def pc_holds_def new_cache_def)
      (simp add: empty_db_def)
qed

lemma from_draft_deactivated: "r \<in> set (deactivate t rows) \<Longrightarrow> (\<And>s. s \<in> set rows \<Longrightarrow> from_draft ym ts s) \<Longrightarrow> from_draft ym ts r"
  using deactivate_member [of r t rows] unfolding from_draft_def by metis

lemma publishes_from_draft:
  assumes "publishes ym H st t y ex who row st'" "db_tenants (st_ledger st) = ts"
    and "\<And>r. r \<in> set (st_policies st) \<Longrightarrow> from_draft ym ts r" "r \<in> set (st_policies st')"
  shows "from_draft ym ts r"
proof -
  from assms(1) obtain draft parent previous where
    chk: "publish_checks ym st t y ex draft parent previous"
    and row: "row = new_row H t (next_version previous) (stored_yaml ym draft (next_version previous) (parent \<noteq> None))"
    and st': "st_policies st' = deactivate t (st_policies st) @ [row]" unfolding publishes_def by blast
  from chk assms(2) have "from_draft ym ts row"
    unfolding from_draft_def publish_checks_def row new_row_simps nat_int
    by (intro exI [of _ y] exI [of _ draft] exI [of _ parent]) (auto simp: parse_draft_def split: option.splits)
  with from_draft_deactivated [of r t "st_policies st" ym ts] assms(3,4) st' show ?thesis by auto
qed

lemma publish_keeps_world:
  assumes w: "world_ok ym H ts w" and rb: "reads_back ym" and co: "coerces co" and len: "\<And>x. length (H x) = 32"
    and pub: "publish ym co H now now' io (w_store w) t text' who expected (w_cache w) = (c', r)"
  shows "world_ok ym H ts (case r of Inl err \<Rightarrow> w\<lparr>w_cache := c'\<rparr> | Inr (row, st') \<Rightarrow> w\<lparr>w_store := st', w_cache := c'\<rparr>)"
proof (cases r)
  case (Inl err)
  with publish_result [OF world_okD(1,2) [OF w] rb co len pub] w show ?thesis by (simp add: world_ok_def)
next
  case (Inr x)
  then obtain row st' where r: "r = Inr (row, st')" by (cases x) auto
  from publish_result [OF world_okD(1,2) [OF w] rb co len pub] r have
    p: "publishes ym H (w_store w) t text' expected who row st'" and ok: "store_ok ym H st'"
    and c': "policy.agrees (stored (w_store w)) c'" by auto
  have "policy.agrees (stored st') c'" by (rule policy.agrees_mono [OF c']) (rule publishes_stored [OF p])
  moreover have "from_draft ym ts s" if "s \<in> set (st_policies st')" for s
    by (rule publishes_from_draft [OF p world_okD(3,5) [OF w] that])
  moreover have "grounded st' u rp" if "(u, rp) \<in> set (w_open w)" for u rp
    by (rule publishes_grounded [OF p world_okD(4) [OF w that]])
  ultimately show ?thesis using ok publishes_keeps(2) [OF p] world_okD(3) [OF w] by (auto simp: world_ok_def r)
qed

lemma rollback_publishes:
  assumes "rollback_to ym co H now now' io st t v who c = (c', r)"
  shows "(\<exists>err. r = Inl err \<and> c' = c) \<or> (\<exists>text' ex. publish ym co H now now' io st t text' who ex c = (c', r))"
  using assms unfolding rollback_to_def
  by (cases "rbind (sole_row (filter (\<lambda>r. pt_tenant_id r = t \<and> pt_version r = v) (st_policies st))) (\<lambda>found.
          case found of
            None \<Rightarrow> Inl (NoActivePolicy t)
          | Some row \<Rightarrow> rbind (active_row st t) (\<lambda>active.
              rbind (strip_version ym (pt_yaml row)) (\<lambda>draft. Inr (draft, map_option pt_version active))))")
    (auto split: prod.splits)

lemma rollback_keeps_world:
  assumes w: "world_ok ym H ts w" and rb: "reads_back ym" and co: "coerces co" and len: "\<And>x. length (H x) = 32"
    and pub: "rollback_to ym co H now now' io (w_store w) t v who (w_cache w) = (c', r)"
  shows "world_ok ym H ts (case r of Inl err \<Rightarrow> w\<lparr>w_cache := c'\<rparr> | Inr (row, st') \<Rightarrow> w\<lparr>w_store := st', w_cache := c'\<rparr>)"
  using rollback_publishes [OF pub] publish_keeps_world [OF w rb co len] w by fastforce

lemma pick_decided: "pick_chain ''request.decided'' None = Inr ''dp''"
  by (simp add: pick_chain_def CHAIN_BY_EVENT_def CHAINS_def)

lemma decided_appends:
  assumes w: "world_ok ym H ts w" and co: "coerces co" and len: "\<And>x. length (H x) = 32" and "flat ts"
    and o': "(t, rp) \<in> set (w_open w)" and v: "validate co ''request.decided'' p = Inr q" and n: "names_policies rp q"
  shows "\<exists>rec db. dl_append co H now now' (ledger_of (w_store w)) t ''request.decided'' p None = Inr (rec, db)
    \<and> dl_good H db \<and> db_policies db = map row_of (st_policies (w_store w)) \<and> db_tenants db = ts"
proof -
  have "binds H (ledger_of (w_store w)) t ''request.decided'' q"
    by (rule grounded_binds [OF world_okD(1) [OF w] _ world_okD(4) [OF w o'] n]) (simp add: world_okD(3) [OF w] \<open>flat ts\<close>)
  moreover have "dl_good H (ledger_of (w_store w))" using world_okD(1) [OF w] by (simp add: store_ok_def)
  ultimately show ?thesis
    using dl_append_good [where db = "ledger_of (w_store w)" and t = t and now = now and now' = now',
        OF _ co len pick_decided v] world_okD(3) [OF w] by force
qed

lemma cache_step_agrees:
  "policy.agrees P c \<Longrightarrow> policy.agrees P (snd (pc_force_probe e c))"
  "policy.agrees P c \<Longrightarrow> policy.agrees P (pc_close c)"
  "policy.agrees P c \<Longrightarrow> policy.agrees P (c\<lparr>cw_server := filter kept (cw_server c)\<rparr>)"
  unfolding policy.agrees_def pc_holds_def
  by (auto simp: pc_force_probe_def pc_probe_def pc_close_def Let_def)

lemma store_step_ok:
  assumes "store_step ym co H w w'" "world_ok ym H ts w" "reads_back ym" "coerces co" "\<And>x. length (H x) = 32" "flat ts"
  shows "world_ok ym H ts w'"
  using assms(1)
proof cases
  case (published now now' io t text' by_whom expected c' row st')
  from publish_keeps_world [OF assms(2-5) published(2)] published(1) show ?thesis by simp
next
  case (refused now now' io t text' by_whom expected c' err)
  from publish_keeps_world [OF assms(2-5) refused(2)] refused(1) show ?thesis by simp
next
  case (rolled_back now now' io t v by_whom c' row st')
  from rollback_keeps_world [OF assms(2-5) rolled_back(2)] rolled_back(1) show ?thesis by simp
next
  case (rollback_refused now now' io t v by_whom c' err)
  from rollback_keeps_world [OF assms(2-5) rollback_refused(2)] rollback_refused(1) show ?thesis by simp
next
  case (loaded io t c' rp)
  note d = world_okD [OF assms(2)]
  from load_for_tenant_result [OF d(6,2) loaded(2)] load_grounded [OF d(1,2) loaded(2)] assms(2)
  show ?thesis unfolding loaded(1) by (auto simp: world_ok_def)
next
  case (load_failed io t c' err)
  note d = world_okD [OF assms(2)]
  from load_for_tenant_result [OF d(6,2) load_failed(2)] assms(2)
  show ?thesis unfolding load_failed(1) by (auto simp: world_ok_def)
next
  case (decided t rp p q now now' rec db)
  note d = world_okD [OF assms(2)]
  from decided_appends [OF assms(2,4,5,6) decided(2,3,4), of now now'] decided(5) have db: "dl_good H db"
      "db_policies db = map row_of (st_policies (w_store w))" "db_tenants db = ts" by auto
  then have "ledger_of ((w_store w)\<lparr>st_ledger := db\<rparr>) = db" by (simp add: ledger_of_def)
  moreover have "stored ((w_store w)\<lparr>st_ledger := db\<rparr>) = stored (w_store w)" by (intro ext) (simp add: stored_def)
  moreover have "grounded ((w_store w)\<lparr>st_ledger := db\<rparr>) u s \<longleftrightarrow> grounded (w_store w) u s" for u s
    by (simp add: grounded_def owners_def db(3) d(3))
  ultimately show ?thesis unfolding decided(1) using assms(2) db by (simp add: world_ok_def store_ok_def)
next
  case (probed e up c')
  with cache_step_agrees(1) [OF world_okD(2) [OF assms(2)], of e] assms(2) show ?thesis by (simp add: world_ok_def)
next
  case closed
  with cache_step_agrees(2) [OF world_okD(2) [OF assms(2)]] assms(2) show ?thesis by (simp add: world_ok_def)
next
  case (evicted kept)
  with cache_step_agrees(3) [OF world_okD(2) [OF assms(2)]] assms(2) show ?thesis by (simp add: world_ok_def)
qed

lemma reachable_ok:
  assumes "(store_step ym co H)\<^sup>*\<^sup>* (fresh_world ts) w" "reads_back ym" "coerces co" "\<And>x. length (H x) = 32" "flat ts"
  shows "world_ok ym H ts w"
  using assms(1)
proof (induction rule: rtranclp_induct)
  case (step w w')
  show ?case by (rule store_step_ok [OF step.hyps(2) step.IH assms(2,3,4,5)])
qed (rule fresh_world_ok)

section \<open>A concrete codec\<close>

text \<open>Two drafts, written as two letters: which one, and whether mode and fail are left out. Their stored
  text appends the version.\<close>

definition demo_org_draft :: policy_draft where
  "demo_org_draft = (demo_draft [plain_rule [''HR_RECORD''] Mask])\<lparr>p_mode := Shadow\<rparr>"

definition demo_unit_draft :: policy_draft where
  "demo_unit_draft = (demo_draft [plain_rule [''HR_RECORD''] Block])\<lparr>p_business_unit := Some ''hr'', p_mode := Shadow\<rparr>"

definition demo_codec :: yaml_codec where
  "demo_codec = \<lparr>
     ym_keys = (\<lambda>y. if length y < 2 then None
       else Some (''org'' # (if y ! 1 = CHR ''0'' then [''mode'', ''fail''] else []))),
     ym_draft = (\<lambda>y. if y = ''o0'' \<or> y = ''o1'' then Some demo_org_draft
       else if y = ''u0'' \<or> y = ''u1'' then Some demo_unit_draft else None),
     ym_policy = (\<lambda>y. Some (stored_policy (if hd y = CHR ''o'' then demo_org_draft else demo_unit_draft)
       (dec_value (butlast (drop 2 y))) (y ! 1 = CHR ''1''))),
     ym_dump = (\<lambda>p unit. (if p_business_unit p = None then CHR ''o'' else CHR ''u'')
       # (if unit then CHR ''1'' else CHR ''0'') # pr_nat (p_version p)),
     ym_unversioned = take 2\<rparr>"

lemma rstrip_id: "xs \<noteq> [] \<Longrightarrow> \<not> is_blank (last xs) \<Longrightarrow> rstrip xs = xs"
  by (cases xs rule: rev_cases) (simp_all add: rstrip_def)

lemma num_byte_not_blank: "num_byte c \<Longrightarrow> \<not> is_blank c"
  by (auto simp: num_byte_def is_blank_def Let_def)

lemma demo_stored_yaml:
  "stored_yaml demo_codec d v unit = (if p_business_unit d = None then CHR ''o'' else CHR ''u'')
     # (if unit then CHR ''1'' else CHR ''0'') # pr_nat v @ [CHR 0x0A]"
proof -
  let ?y = "(if p_business_unit d = None then CHR ''o'' else CHR ''u'') # (if unit then CHR ''1'' else CHR ''0'') # pr_nat v"
  have "ym_dump demo_codec (stored_policy d v unit) unit = ?y"
    by (simp add: demo_codec_def stored_policy_def Let_def)
  moreover have "last ?y \<in> set (pr_nat v)" by simp
  then have "\<not> is_blank (last ?y)" using pr_nat_num num_byte_not_blank by blast
  then have "rstrip ?y = ?y" by (intro rstrip_id) simp_all
  ultimately show ?thesis by (simp add: stored_yaml_def)
qed

lemma demo_drafts:
  "ym_draft demo_codec y = Some d \<Longrightarrow> d = demo_org_draft \<or> d = demo_unit_draft"
  "p_business_unit demo_org_draft = None" "p_business_unit demo_unit_draft = Some ''hr''"
  by (auto simp: demo_codec_def demo_org_draft_def demo_unit_draft_def demo_draft_def split: if_splits)

lemma demo_reads_back: "reads_back demo_codec"
  unfolding reads_back_def
proof (intro allI impI)
  fix y d v unit assume "ym_draft demo_codec y = Some d"
  from demo_drafts(1) [OF this] show "ym_policy demo_codec (stored_yaml demo_codec d v unit) = Some (stored_policy d v unit)"
    by (elim disjE; cases unit)
      (simp_all add: demo_stored_yaml demo_drafts(2,3) del: dec_value.simps,
       simp_all add: demo_codec_def dec_value_pr_nat butlast_append del: dec_value.simps)
qed

definition demo_tenants :: "(string \<times> string option) list" where
  "demo_tenants = [(''acme'', None), (''hr'', Some ''acme'')]"

lemma demo_flat: "flat demo_tenants"
  by (simp add: flat_def demo_tenants_def)

lemma demo_checks:
  "publish_checks demo_codec (w_store (fresh_world demo_tenants)) ''acme'' ''o0'' None demo_org_draft None None"
  by (simp add: publish_checks_def parse_draft_def fresh_world_def empty_db_def demo_tenants_def validate_ownership_def
      raw_has_key_def active_row_def check_expected_version_def)
    (simp add: demo_codec_def demo_org_draft_def demo_draft_def)

definition demo_row :: table_row where
  "demo_row = new_row toy_digest ''acme'' 1 (stored_yaml demo_codec demo_org_draft 1 False)"

lemma demo_row_simps [simp]:
  "pt_tenant_id demo_row = ''acme''" "pt_version demo_row = 1" "pt_active demo_row"
  "policy_row_hash toy_digest ''acme'' (JInt 1) (pt_yaml demo_row) = pt_content_hash demo_row"
  by (simp_all add: demo_row_def)

lemma demo_publish_evaluates:
  "\<exists>st. publish demo_codec strict_coercion toy_digest ''1'' ''2'' (\<lambda>_. demo_env 10 True) (w_store (fresh_world demo_tenants))
       ''acme'' ''o0'' ''a1'' None (w_cache (fresh_world demo_tenants)) = (new_cache [], Inr (demo_row, st))
     \<and> st_policies st = [demo_row] \<and> db_tenants (st_ledger st) = demo_tenants"
proof -
  let ?w = "fresh_world demo_tenants" and ?y = "stored_yaml demo_codec demo_org_draft 1 False"
  note d = world_okD [OF fresh_world_ok [of demo_codec toy_digest demo_tenants]]
  have prev: "active_row (w_store ?w) ''acme'' = Inr None" using demo_checks by (simp add: publish_checks_def)
  have "ym_draft demo_codec ''o0'' = Some demo_org_draft" by (simp add: demo_codec_def)
  then have y: "ym_policy demo_codec ?y = Some (stored_policy demo_org_draft 1 False)"
    using demo_reads_back unfolding reads_back_def by blast
  have v: "1 = next_version None" by (simp add: next_version_def)
  from write_version_correct [OF d(1) prev v y stored_policy_version strict_coerces toy_digest_length,
      of "''1''" "''2''" "''a1''" "length (p_rules demo_org_draft)"]
  obtain st' where st': "write_version demo_codec strict_coercion toy_digest ''1'' ''2'' (w_store ?w) None ''acme'' 1 ?y ''a1''
        (length (p_rules demo_org_draft)) = Inr (new_row toy_digest ''acme'' 1 ?y, st')"
      "st_policies st' = deactivate ''acme'' (st_policies (w_store ?w)) @ [new_row toy_digest ''acme'' 1 ?y]"
      "db_tenants (st_ledger st') = db_tenants (st_ledger (w_store ?w))" by blast
  have "publish demo_codec strict_coercion toy_digest ''1'' ''2'' (\<lambda>_. demo_env 10 True) (w_store ?w) ''acme'' ''o0'' ''a1'' None
      (w_cache ?w) = (pc_invalidate ''acme'' (w_cache ?w), Inr (new_row toy_digest ''acme'' 1 ?y, st'))"
    unfolding publish_passed [OF demo_checks] v [symmetric] check_parent_def using st'(1) by simp
  with st'(2,3) show ?thesis
    by (intro exI [of _ st']) (simp add: fresh_world_def deactivate_def pc_invalidate_def new_cache_def demo_row_def empty_db_def)
qed

lemma demo_publish_steps:
  "\<exists>st. store_step demo_codec strict_coercion toy_digest (fresh_world demo_tenants) ((fresh_world demo_tenants)\<lparr>w_store := st\<rparr>)
     \<and> st_policies st = [demo_row] \<and> db_tenants (st_ledger st) = demo_tenants"
proof -
  obtain st where p: "publish demo_codec strict_coercion toy_digest ''1'' ''2'' (\<lambda>_. demo_env 10 True)
       (w_store (fresh_world demo_tenants)) ''acme'' ''o0'' ''a1'' None (w_cache (fresh_world demo_tenants))
       = (new_cache [], Inr (demo_row, st))" and st: "st_policies st = [demo_row]" "db_tenants (st_ledger st) = demo_tenants"
    using demo_publish_evaluates by blast
  from store_step.published [OF p] have "store_step demo_codec strict_coercion toy_digest (fresh_world demo_tenants)
      ((fresh_world demo_tenants)\<lparr>w_store := st\<rparr>)" by (simp add: fresh_world_def)
  with st show ?thesis by blast
qed

section \<open>Properties\<close>

definition frozen :: "table_row \<Rightarrow> table_row" where
  "frozen r = r\<lparr>pt_active := False\<rparr>"

lemma deactivate_frozen: "map frozen (deactivate t rows) = map frozen rows"
  by (simp add: deactivate_def frozen_def)

lemma publish_prefix:
  assumes "world_ok ym H ts w" "reads_back ym" "coerces co" "\<And>x. length (H x) = 32"
    and "publish ym co H now now' io (w_store w) t text' who expected (w_cache w) = (c', Inr (row, st'))"
  shows "prefix (map frozen (st_policies (w_store w))) (map frozen (st_policies st'))"
  using publish_result [OF world_okD(1,2) [OF assms(1)] assms(2-5)]
  by (auto simp: publishes_def deactivate_frozen)

lemma store_step_prefix:
  assumes "store_step ym co H w w'" "world_ok ym H ts w" "reads_back ym" "coerces co" "\<And>x. length (H x) = 32"
  shows "prefix (map frozen (st_policies (w_store w))) (map frozen (st_policies (w_store w')))"
  using assms(1)
proof cases
  case (rolled_back now now' io t v by_whom c' row st')
  from rollback_publishes [OF this(2)] publish_prefix [OF assms(2-5)] rolled_back(1) show ?thesis by fastforce
qed (use publish_prefix [OF assms(2-5)] in auto)

lemma reachable_prefix:
  assumes "(store_step ym co H)\<^sup>*\<^sup>* w w'" "world_ok ym H ts w" "reads_back ym" "coerces co" "\<And>x. length (H x) = 32" "flat ts"
  shows "world_ok ym H ts w' \<and> prefix (map frozen (st_policies (w_store w))) (map frozen (st_policies (w_store w')))"
  using assms(1)
proof (induction rule: rtranclp_induct)
  case (step w1 w2)
  then show ?case
    using store_step_ok [OF step.hyps(2) _ assms(3-6)] store_step_prefix [OF step.hyps(2) _ assms(3-5)] prefix_order.trans by blast
qed (use assms(2) in simp)

text \<open>C1. Whatever is published, rolled back, loaded, decided, evicted or restarted, in any order: every
  tenant's versions stay 1, 2, ... without a gap, exactly the newest is active, no stored version is ever
  changed but for its active flag, and both hash chains of every tenant verify, policy bindings included.\<close>

theorem policy_history_is_kept:
  assumes "reads_back ym" "coerces co" "\<And>x. length (H x) = 32" "flat ts"
    and "(store_step ym co H)\<^sup>*\<^sup>* (fresh_world ts) w" "(store_step ym co H)\<^sup>*\<^sup>* w w'"
  shows "history_ok (st_policies (w_store w')) \<and> hashes_ok H (st_policies (w_store w'))
    \<and> prefix (map frozen (st_policies (w_store w))) (map frozen (st_policies (w_store w')))
    \<and> (\<forall>t. vr_ok (dl_verify H (ledger_of (w_store w')) t None))"
  using reachable_prefix [OF assms(6) reachable_ok [OF assms(5,1,2,3,4)] assms(1-4)]
  by (simp add: world_ok_def store_ok_def dl_good_def)

lemma policy_history_is_kept_witness:
  "\<exists>st. st_policies st = [demo_row] \<and> history_ok (st_policies st) \<and> prefix [] (map frozen (st_policies st))
     \<and> vr_ok (dl_verify toy_digest (ledger_of st) ''acme'' None)"
proof -
  obtain st where w: "store_step demo_codec strict_coercion toy_digest (fresh_world demo_tenants) ((fresh_world demo_tenants)\<lparr>w_store := st\<rparr>)"
    and row: "st_policies st = [demo_row]" using demo_publish_steps by blast
  from policy_history_is_kept [OF demo_reads_back strict_coerces toy_digest_length demo_flat rtranclp.rtrancl_refl
      r_into_rtranclp [of "store_step demo_codec strict_coercion toy_digest", OF w]] row
  show ?thesis by (intro exI [of _ st]) simp
qed

end
