(* ===== verification/KvStore.thy ===== *)
theory KvStore
  imports JsonValue Complex_Main
begin

text \<open>
  The key-value substrate (\<^verbatim>\<open>Control-DB/zerotrace/store/kv.py\<close>): the operations of the in-process store
  \<open>MemoryKV\<close> and of the file store \<open>FileKV\<close>, and the lock built on them. \<open>kv_ops\<close> is the interface \<open>KV\<close>; the
  locale \<open>kv_store\<close> states what its clients rely on, that every operation acts as the in-process one does on
  what the store holds. One operation is one step (the mutex). A file is read and written whole; a file that
  cannot be read counts as empty, as the code has it. \<open>RedisKV\<close> forwards to the Redis client.
\<close>

section \<open>The in-process store\<close>

record kv_data =
  kd_h :: "(string \<times> (string \<times> string) list) list"
  kd_l :: "(string \<times> string list) list"
  kd_s :: "(string \<times> string set) list"
  kd_v :: "(string \<times> string) list"
  kd_locks :: "(string \<times> (string \<times> rat)) list" \<comment> \<open>holder's token and expiry\<close>

definition memory_kv :: kv_data where
  "memory_kv = \<lparr>kd_h = [], kd_l = [], kd_s = [], kd_v = [], kd_locks = []\<rparr>"

definition lookup_or :: "'v \<Rightarrow> ('k \<times> 'v) list \<Rightarrow> 'k \<Rightarrow> 'v" where
  \<comment> \<open>\<open>d.get(key, default)\<close>\<close>
  "lookup_or x m k = (case map_of m k of Some v \<Rightarrow> v | None \<Rightarrow> x)"

definition digits :: "string \<Rightarrow> bool" where
  "digits s \<longleftrightarrow> s \<noteq> [] \<and> (\<forall>c \<in> set s. 48 \<le> (of_char c :: nat) \<and> (of_char c :: nat) \<le> 57)"

definition py_int_text :: "string \<Rightarrow> int option" where
  \<comment> \<open>\<open>int(s)\<close> of plain digits with an optional sign, what \<open>incr\<close> writes; \<open>None\<close> is the \<open>ValueError\<close>\<close>
  "py_int_text s = (case s of
       [] \<Rightarrow> None
     | c # t \<Rightarrow> if c = CHR ''-'' then (if digits t then Some (- int (dec_value t)) else None)
               else if digits s then Some (int (dec_value s)) else None)"

definition py_index :: "nat \<Rightarrow> int \<Rightarrow> nat" where
  \<comment> \<open>a slice bound of a list of \<open>n\<close> items\<close>
  "py_index n i = (if i < 0 then nat (max 0 (int n + i)) else min n (nat i))"

definition py_slice :: "int \<Rightarrow> int option \<Rightarrow> 'a list \<Rightarrow> 'a list" where
  "py_slice start stop xs = (let a = py_index (length xs) start;
     b = (case stop of None \<Rightarrow> length xs | Some j \<Rightarrow> py_index (length xs) j) in drop a (take b xs))"

definition kv_range :: "int \<Rightarrow> int \<Rightarrow> 'a list \<Rightarrow> 'a list" where
  "kv_range start stop xs = py_slice start (if stop = -1 then None else Some (stop + 1)) xs"

definition mk_incr :: "string \<Rightarrow> kv_data \<Rightarrow> (int \<times> kv_data) option" where
  "mk_incr key d = map_option (\<lambda>n. (n + 1, d\<lparr>kd_v := AList.update key (pr_int (n + 1)) (kd_v d)\<rparr>))
     (py_int_text (lookup_or ''0'' (kd_v d) key))"

definition mk_rpush :: "string \<Rightarrow> string \<Rightarrow> kv_data \<Rightarrow> nat \<times> kv_data" where
  "mk_rpush key v d = (let xs = lookup_or [] (kd_l d) key @ [v] in (length xs, d\<lparr>kd_l := AList.update key xs (kd_l d)\<rparr>))"

definition mk_lrange :: "string \<Rightarrow> int \<Rightarrow> int \<Rightarrow> kv_data \<Rightarrow> string list" where
  "mk_lrange key start stop d = kv_range start stop (lookup_or [] (kd_l d) key)"

definition mk_llen :: "string \<Rightarrow> kv_data \<Rightarrow> nat" where
  "mk_llen key d = length (lookup_or [] (kd_l d) key)"

definition dict_update :: "('k \<times> 'v) list \<Rightarrow> ('k \<times> 'v) list \<Rightarrow> ('k \<times> 'v) list" where
  "dict_update m d = foldl (\<lambda>d (k, v). AList.update k v d) d m"

definition mk_hset_many :: "string \<Rightarrow> (string \<times> string) list \<Rightarrow> kv_data \<Rightarrow> kv_data" where
  "mk_hset_many key mapping d = d\<lparr>kd_h := AList.update key (dict_update mapping (lookup_or [] (kd_h d) key)) (kd_h d)\<rparr>"

definition mk_hgetall :: "string \<Rightarrow> kv_data \<Rightarrow> (string \<times> string) list" where
  "mk_hgetall key d = lookup_or [] (kd_h d) key"

definition mk_get :: "string \<Rightarrow> kv_data \<Rightarrow> string option" where
  "mk_get key d = map_of (kd_v d) key"

definition mk_set :: "string \<Rightarrow> string \<Rightarrow> kv_data \<Rightarrow> kv_data" where
  "mk_set key v d = d\<lparr>kd_v := AList.update key v (kd_v d)\<rparr>"

definition mk_sadd :: "string \<Rightarrow> string \<Rightarrow> kv_data \<Rightarrow> kv_data" where
  "mk_sadd key v d = d\<lparr>kd_s := AList.update key (insert v (lookup_or {} (kd_s d) key)) (kd_s d)\<rparr>"

definition mk_smembers :: "string \<Rightarrow> kv_data \<Rightarrow> string set" where
  "mk_smembers key d = lookup_or {} (kd_s d) key"

definition mk_delete :: "string \<Rightarrow> kv_data \<Rightarrow> kv_data" where
  "mk_delete key d = d\<lparr>kd_h := AList.delete key (kd_h d), kd_l := AList.delete key (kd_l d),
     kd_s := AList.delete key (kd_s d), kd_v := AList.delete key (kd_v d)\<rparr>"

definition mk_keys :: "(string \<Rightarrow> bool) \<Rightarrow> kv_data \<Rightarrow> string list" where
  \<comment> \<open>\<open>matches\<close> is \<open>fnmatch\<close> with the pattern\<close>
  "mk_keys matches d = sort (remdups (filter matches
     (map fst (kd_h d) @ map fst (kd_l d) @ map fst (kd_s d) @ map fst (kd_v d))))"

definition mk_acquire :: "rat \<Rightarrow> string \<Rightarrow> string \<Rightarrow> nat \<Rightarrow> kv_data \<Rightarrow> bool \<times> kv_data" where
  "mk_acquire now key token ttl_ms d =
     (case map_of (kd_locks d) key of
        Some (_, expiry) \<Rightarrow>
          if now < expiry then (False, d)
          else (True, d\<lparr>kd_locks := AList.update key (token, now + of_nat ttl_ms / 1000) (kd_locks d)\<rparr>)
      | None \<Rightarrow> (True, d\<lparr>kd_locks := AList.update key (token, now + of_nat ttl_ms / 1000) (kd_locks d)\<rparr>))"

definition mk_release :: "string \<Rightarrow> string \<Rightarrow> kv_data \<Rightarrow> kv_data" where
  "mk_release key token d =
     (case map_of (kd_locks d) key of
        Some (holder, _) \<Rightarrow> if holder = token then d\<lparr>kd_locks := AList.delete key (kd_locks d)\<rparr> else d
      | None \<Rightarrow> d)"

section \<open>The interface\<close>

record 's kv_ops =
  ko_incr :: "string \<Rightarrow> 's \<Rightarrow> (int \<times> 's) option"
  ko_rpush :: "string \<Rightarrow> string \<Rightarrow> 's \<Rightarrow> nat \<times> 's"
  ko_lrange :: "string \<Rightarrow> int \<Rightarrow> int \<Rightarrow> 's \<Rightarrow> string list"
  ko_llen :: "string \<Rightarrow> 's \<Rightarrow> nat"
  ko_hset_many :: "string \<Rightarrow> (string \<times> string) list \<Rightarrow> 's \<Rightarrow> 's"
  ko_hgetall :: "string \<Rightarrow> 's \<Rightarrow> (string \<times> string) list"
  ko_sadd :: "string \<Rightarrow> string \<Rightarrow> 's \<Rightarrow> 's"
  ko_smembers :: "string \<Rightarrow> 's \<Rightarrow> string set"
  ko_acquire :: "rat \<Rightarrow> string \<Rightarrow> string \<Rightarrow> nat \<Rightarrow> 's \<Rightarrow> bool \<times> 's"
  ko_release :: "string \<Rightarrow> string \<Rightarrow> 's \<Rightarrow> 's"

definition memory_ops :: "kv_data kv_ops" where
  "memory_ops = \<lparr>ko_incr = mk_incr, ko_rpush = mk_rpush, ko_lrange = mk_lrange, ko_llen = mk_llen,
     ko_hset_many = mk_hset_many, ko_hgetall = mk_hgetall, ko_sadd = mk_sadd, ko_smembers = mk_smembers,
     ko_acquire = mk_acquire, ko_release = mk_release\<rparr>"

locale kv_store =
  fixes ops :: "'s kv_ops" and view :: "'s \<Rightarrow> kv_data" and ok :: "'s \<Rightarrow> bool"
  assumes incr: "ok s \<Longrightarrow> mk_incr k (view s) = map_option (apsnd view) (ko_incr ops k s)"
    and rpush: "ok s \<Longrightarrow> mk_rpush k v (view s) = apsnd view (ko_rpush ops k v s)"
    and lrange: "ok s \<Longrightarrow> ko_lrange ops k i j s = mk_lrange k i j (view s)"
    and llen: "ok s \<Longrightarrow> ko_llen ops k s = mk_llen k (view s)"
    and hset_many: "ok s \<Longrightarrow> view (ko_hset_many ops k m s) = mk_hset_many k m (view s)"
    and hgetall: "ok s \<Longrightarrow> ko_hgetall ops k s = mk_hgetall k (view s)"
    and sadd: "ok s \<Longrightarrow> view (ko_sadd ops k v s) = mk_sadd k v (view s)"
    and smembers: "ok s \<Longrightarrow> ko_smembers ops k s = mk_smembers k (view s)"
    and acquire: "ok s \<Longrightarrow> mk_acquire now k tok ttl (view s) = apsnd view (ko_acquire ops now k tok ttl s)"
    and release: "ok s \<Longrightarrow> view (ko_release ops k tok s) = mk_release k tok (view s)"
    and ok_incr: "ok s \<Longrightarrow> ko_incr ops k s = Some (n, s') \<Longrightarrow> ok s'"
    and ok_rpush: "ok s \<Longrightarrow> ok (snd (ko_rpush ops k v s))"
    and ok_hset: "ok s \<Longrightarrow> ok (ko_hset_many ops k m s)"
    and ok_sadd: "ok s \<Longrightarrow> ok (ko_sadd ops k v s)"
    and ok_acquire: "ok s \<Longrightarrow> ok (snd (ko_acquire ops now k tok ttl s))"
    and ok_release: "ok s \<Longrightarrow> ok (ko_release ops k tok s)"
begin

lemma held_lock_excludes:
  assumes "ok s" "map_of (kd_locks (view s)) k = Some (holder, expiry)" "now < expiry"
  shows "fst (ko_acquire ops now k tok ttl s) = False \<and> view (snd (ko_acquire ops now k tok ttl s)) = view s"
  using acquire [OF assms(1), of now k tok ttl] assms(2,3)
  by (cases "ko_acquire ops now k tok ttl s") (simp add: mk_acquire_def)

lemma acquired_lock_is_held:
  assumes "ok s" "fst (ko_acquire ops now k tok ttl s)"
  shows "map_of (kd_locks (view (snd (ko_acquire ops now k tok ttl s)))) k = Some (tok, now + of_nat ttl / 1000)"
  using acquire [OF assms(1), of now k tok ttl] assms(2)
  by (cases "ko_acquire ops now k tok ttl s")
    (auto simp: mk_acquire_def split: option.splits if_splits dest!: sym [of "kd_locks_update _ _"] simp: update_conv')

end

interpretation mem: kv_store memory_ops id "\<lambda>_. True"
  by unfold_locales (simp_all add: memory_ops_def option.map_id0)

section \<open>The file store\<close>

datatype file_value = FInt int | FText string

record file_data =
  fd_h :: "(string \<times> (string \<times> string) list) list"
  fd_l :: "(string \<times> string list) list"
  fd_s :: "(string \<times> string list) list"
  fd_v :: "(string \<times> file_value) list"
  fd_locks :: "(string \<times> (string \<times> rat)) list"

record file_kv =
  fk_file :: "file_data option" \<comment> \<open>\<open>None\<close>: no file yet\<close>
  fk_readable :: bool

definition no_file :: file_data where
  "no_file = \<lparr>fd_h = [], fd_l = [], fd_s = [], fd_v = [], fd_locks = []\<rparr>"

definition fk_read :: "file_kv \<Rightarrow> file_data" where
  "fk_read s = (if fk_readable s then (case fk_file s of Some d \<Rightarrow> d | None \<Rightarrow> no_file) else no_file)"

definition fk_write :: "file_data \<Rightarrow> file_kv \<Rightarrow> file_kv" where
  "fk_write d s = s\<lparr>fk_file := Some d\<rparr>"

fun file_int :: "file_value \<Rightarrow> int option" where
  "file_int (FInt n) = Some n"
| "file_int (FText s) = py_int_text s"

fun file_text :: "file_value \<Rightarrow> string" where
  "file_text (FInt n) = pr_int n"
| "file_text (FText s) = s"

definition fk_incr :: "string \<Rightarrow> file_kv \<Rightarrow> (int \<times> file_kv) option" where
  "fk_incr key s = (let d = fk_read s in
     map_option (\<lambda>n. (n + 1, fk_write (d\<lparr>fd_v := AList.update key (FInt (n + 1)) (fd_v d)\<rparr>) s))
       (file_int (lookup_or (FInt 0) (fd_v d) key)))"

definition fk_rpush :: "string \<Rightarrow> string \<Rightarrow> file_kv \<Rightarrow> nat \<times> file_kv" where
  "fk_rpush key v s = (let d = fk_read s; xs = lookup_or [] (fd_l d) key @ [v]
     in (length xs, fk_write (d\<lparr>fd_l := AList.update key xs (fd_l d)\<rparr>) s))"

definition fk_lrange :: "string \<Rightarrow> int \<Rightarrow> int \<Rightarrow> file_kv \<Rightarrow> string list" where
  "fk_lrange key start stop s = kv_range start stop (lookup_or [] (fd_l (fk_read s)) key)"

definition fk_llen :: "string \<Rightarrow> file_kv \<Rightarrow> nat" where
  "fk_llen key s = length (lookup_or [] (fd_l (fk_read s)) key)"

definition fk_hset_many :: "string \<Rightarrow> (string \<times> string) list \<Rightarrow> file_kv \<Rightarrow> file_kv" where
  "fk_hset_many key mapping s = (let d = fk_read s in
     fk_write (d\<lparr>fd_h := AList.update key (dict_update mapping (lookup_or [] (fd_h d) key)) (fd_h d)\<rparr>) s)"

definition fk_hgetall :: "string \<Rightarrow> file_kv \<Rightarrow> (string \<times> string) list" where
  "fk_hgetall key s = lookup_or [] (fd_h (fk_read s)) key"

definition fk_get :: "string \<Rightarrow> file_kv \<Rightarrow> string option" where
  "fk_get key s = map_option file_text (map_of (fd_v (fk_read s)) key)"

definition fk_set :: "string \<Rightarrow> string \<Rightarrow> file_kv \<Rightarrow> file_kv" where
  "fk_set key v s = (let d = fk_read s in fk_write (d\<lparr>fd_v := AList.update key (FText v) (fd_v d)\<rparr>) s)"

definition fk_sadd :: "string \<Rightarrow> string \<Rightarrow> file_kv \<Rightarrow> file_kv" where
  "fk_sadd key v s = (let d = fk_read s; old = lookup_or [] (fd_s d) key;
     members = sort (remdups (if v \<in> set old then old else old @ [v]))
     in fk_write (d\<lparr>fd_s := AList.update key members (fd_s d)\<rparr>) s)"

definition fk_smembers :: "string \<Rightarrow> file_kv \<Rightarrow> string set" where
  "fk_smembers key s = set (lookup_or [] (fd_s (fk_read s)) key)"

definition fk_delete :: "string \<Rightarrow> file_kv \<Rightarrow> file_kv" where
  "fk_delete key s = (let d = fk_read s in fk_write (d\<lparr>fd_h := AList.delete key (fd_h d), fd_l := AList.delete key (fd_l d),
     fd_s := AList.delete key (fd_s d), fd_v := AList.delete key (fd_v d)\<rparr>) s)"

definition fk_keys :: "(string \<Rightarrow> bool) \<Rightarrow> file_kv \<Rightarrow> string list" where
  "fk_keys matches s = (let d = fk_read s in sort (remdups (filter matches
     (map fst (fd_h d) @ map fst (fd_l d) @ map fst (fd_s d) @ map fst (fd_v d)))))"

definition fk_acquire :: "rat \<Rightarrow> string \<Rightarrow> string \<Rightarrow> nat \<Rightarrow> file_kv \<Rightarrow> bool \<times> file_kv" where
  "fk_acquire now key token ttl_ms s = (let d = fk_read s in
     case map_of (fd_locks d) key of
       Some (_, expiry) \<Rightarrow>
         if now < expiry then (False, s)
         else (True, fk_write (d\<lparr>fd_locks := AList.update key (token, now + of_nat ttl_ms / 1000) (fd_locks d)\<rparr>) s)
     | None \<Rightarrow> (True, fk_write (d\<lparr>fd_locks := AList.update key (token, now + of_nat ttl_ms / 1000) (fd_locks d)\<rparr>) s))"

definition fk_release :: "string \<Rightarrow> string \<Rightarrow> file_kv \<Rightarrow> file_kv" where
  "fk_release key token s = (let d = fk_read s in
     case map_of (fd_locks d) key of
       Some (holder, _) \<Rightarrow> if holder = token then fk_write (d\<lparr>fd_locks := AList.delete key (fd_locks d)\<rparr>) s else s
     | None \<Rightarrow> s)"

definition file_ops :: "file_kv kv_ops" where
  "file_ops = \<lparr>ko_incr = fk_incr, ko_rpush = fk_rpush, ko_lrange = fk_lrange, ko_llen = fk_llen,
     ko_hset_many = fk_hset_many, ko_hgetall = fk_hgetall, ko_sadd = fk_sadd, ko_smembers = fk_smembers,
     ko_acquire = fk_acquire, ko_release = fk_release\<rparr>"

definition data_view :: "file_data \<Rightarrow> kv_data" where
  "data_view d = \<lparr>kd_h = fd_h d, kd_l = fd_l d, kd_s = map (apsnd set) (fd_s d), kd_v = map (apsnd file_text) (fd_v d),
     kd_locks = fd_locks d\<rparr>"

definition file_view :: "file_kv \<Rightarrow> kv_data" where
  "file_view s = data_view (fk_read s)"

lemma py_int_text_pr_int: "py_int_text (pr_int n) = Some n"
proof -
  have d: "digits (pr_nat m)" for m
  proof (induction m rule: pr_nat.induct)
    case (1 m)
    have dig: "k < 10 \<Longrightarrow> 48 \<le> (of_char (dec_digit k) :: nat) \<and> (of_char (dec_digit k) :: nat) \<le> 57" for k
      by (drule less_10_cases) (auto simp: dec_digit_def)
    show ?case
      using 1 dig [of m] dig [of "m mod 10"] by (subst pr_nat.simps) (auto simp: digits_def)
  qed
  show ?thesis
  proof (cases "n < 0")
    case True
    then show ?thesis by (simp add: pr_int_def py_int_text_def d dec_value_pr_nat del: dec_value.simps)
  next
    case False
    obtain c t where ct: "pr_nat (nat n) = c # t" by (cases "pr_nat (nat n)") auto
    then have "c \<noteq> CHR ''-''" using pr_nat_num [of c "nat n"] by auto
    with False ct d [of "nat n"] dec_value_pr_nat [of "nat n"] show ?thesis
      by (simp add: pr_int_def py_int_text_def del: dec_value.simps)
  qed
qed

lemma file_int_text: "py_int_text (file_text v) = file_int v"
  by (cases v) (simp_all add: py_int_text_pr_int)

lemma update_map: "AList.update k (g v) (map (apsnd g) m) = map (apsnd g) (AList.update k v m)"
  by (induction m) auto

lemma lookup_or_map: "lookup_or (g x) (map (apsnd g) m) k = g (lookup_or x m k)"
  by (induction m) (auto simp: lookup_or_def)

lemma read_write: "fk_readable s \<Longrightarrow> fk_read (fk_write d s) = d"
  by (simp add: fk_read_def fk_write_def)

lemma fk_write_readable: "fk_readable (fk_write d s) = fk_readable s"
  by (simp add: fk_write_def)

interpretation disk: kv_store file_ops file_view fk_readable
proof (unfold_locales, goal_cases)
  case (1 s k)
  have "lookup_or ''0'' (map (apsnd file_text) m) k = file_text (lookup_or (FInt 0) m k)" for m
    using lookup_or_map [of file_text "FInt 0" m k] by (simp add: pr_int_def pr_nat.simps dec_digit_def)
  with 1 show ?case
    by (simp add: mk_incr_def file_ops_def fk_incr_def file_view_def read_write data_view_def file_int_text Let_def
        option.map_comp comp_def flip: update_map)
next
  case (7 s k v)
  have "lookup_or {} (map (apsnd set) m) k = set (lookup_or [] m k)" for m :: "(string \<times> string list) list"
    using lookup_or_map [of set "[]" m k] by simp
  with 7 show ?case
    by (simp add: mk_sadd_def file_ops_def fk_sadd_def file_view_def read_write data_view_def Let_def insert_absorb flip: update_map)
next
  case (8 s k)
  show ?case
    using lookup_or_map [of set "[]" "fd_s (fk_read s)" k]
    by (simp add: mk_smembers_def file_ops_def fk_smembers_def file_view_def data_view_def)
qed (auto simp: file_ops_def file_view_def read_write data_view_def Let_def fk_write_readable mk_rpush_def fk_rpush_def mk_lrange_def
    fk_lrange_def mk_llen_def fk_llen_def mk_hset_many_def fk_hset_many_def mk_hgetall_def fk_hgetall_def mk_acquire_def fk_acquire_def
    mk_release_def fk_release_def fk_incr_def fk_sadd_def split: option.splits)

text \<open>A file that cannot be read for a moment counts as empty, and the next write replaces everything it held.\<close>

lemma unreadable_file_is_erased:
  assumes "\<not> fk_readable s"
  shows "fk_file (snd (fk_rpush k v s)) = Some (no_file\<lparr>fd_l := [(k, [v])]\<rparr>)"
  using assms by (simp add: fk_rpush_def fk_read_def no_file_def fk_write_def lookup_or_def Let_def)

end
