(* ===== verification/SampleCodec.thy ===== *)
theory SampleCodec
  imports JsonValue
begin

text \<open>
  A text form of JSON values with its reader, used only where a sample needs a concrete codec. The reader
  takes the reader \<open>rd\<close> of integers as an argument.
\<close>

definition put_str :: "string \<Rightarrow> string" where
  "put_str s = concat (map (\<lambda>c. [CHR ''1'', c]) s) @ ''0''"

fun put_json :: "json \<Rightarrow> string" where
  "put_json JNull = ''n''"
| "put_json (JBool b) = (if b then ''t'' else ''f'')"
| "put_json (JInt i) = CHR ''i'' # put_str (pr_int i)"
| "put_json (JFloat s) = CHR ''d'' # put_str s"
| "put_json (JStr s) = CHR ''s'' # put_str s"
| "put_json (JList js) = CHR ''l'' # concat (map (\<lambda>j. CHR ''1'' # put_json j) js) @ ''0''"
| "put_json (JObj kvs) = CHR ''o'' # concat (map (\<lambda>(k, v). CHR ''1'' # put_str k @ put_json v) kvs) @ ''0''"

fun get_str :: "string \<Rightarrow> (string \<times> string) option" where
  "get_str (a # r) =
     (if a = CHR ''0'' then Some ([], r)
      else case r of c # r' \<Rightarrow> map_option (\<lambda>(s, x). (c # s, x)) (get_str r') | [] \<Rightarrow> None)"
| "get_str [] = None"

fun get_json :: "(string \<Rightarrow> int option) \<Rightarrow> nat \<Rightarrow> string \<Rightarrow> (json \<times> string) option"
  and get_items :: "(string \<Rightarrow> int option) \<Rightarrow> nat \<Rightarrow> string \<Rightarrow> (json list \<times> string) option"
  and get_pairs :: "(string \<Rightarrow> int option) \<Rightarrow> nat \<Rightarrow> string \<Rightarrow> ((string \<times> json) list \<times> string) option" where
  "get_json rd (Suc n) (a # r) =
     (if a = CHR ''n'' then Some (JNull, r)
      else if a = CHR ''t'' then Some (JBool True, r)
      else if a = CHR ''f'' then Some (JBool False, r)
      else if a = CHR ''i'' then Option.bind (get_str r) (\<lambda>(s, x). map_option (\<lambda>i. (JInt i, x)) (rd s))
      else if a = CHR ''d'' then map_option (\<lambda>(s, x). (JFloat s, x)) (get_str r)
      else if a = CHR ''s'' then map_option (\<lambda>(s, x). (JStr s, x)) (get_str r)
      else if a = CHR ''l'' then map_option (\<lambda>(js, x). (JList js, x)) (get_items rd n r)
      else if a = CHR ''o'' then map_option (\<lambda>(kvs, x). (JObj kvs, x)) (get_pairs rd n r)
      else None)"
| "get_items rd (Suc n) (a # r) =
     (if a = CHR ''0'' then Some ([], r)
      else Option.bind (get_json rd n r) (\<lambda>(j, x). map_option (\<lambda>(js, y). (j # js, y)) (get_items rd n x)))"
| "get_pairs rd (Suc n) (a # r) =
     (if a = CHR ''0'' then Some ([], r)
      else Option.bind (get_str r) (\<lambda>(k, x). Option.bind (get_json rd n x) (\<lambda>(v, y).
        map_option (\<lambda>(kvs, z). ((k, v) # kvs, z)) (get_pairs rd n y))))"
| "get_json rd _ _ = None"
| "get_items rd _ _ = None"
| "get_pairs rd _ _ = None"

lemma get_put_str: "get_str (put_str s @ r) = Some (s, r)"
  by (induction s) (simp_all add: put_str_def)

lemma get_put_json:
  assumes rd: "\<And>i. rd (pr_int i) = Some i"
  shows "length (put_json j) \<le> n \<Longrightarrow> get_json rd n (put_json j @ r) = Some (j, r)"
proof (induction n arbitrary: j r rule: less_induct)
  case (less n)
  have pos: "0 < length (put_json k)" for k by (cases k) auto
  show ?case
  proof (cases n)
    case 0
    with less.prems pos [of j] show ?thesis by simp
  next
    case (Suc m)
    have items: "get_items rd k (concat (map (\<lambda>j. CHR ''1'' # put_json j) js) @ ''0'' @ r) = Some (js, r)"
      if "length (concat (map (\<lambda>j. CHR ''1'' # put_json j) js)) < k" "k \<le> m" for k js
      using that
    proof (induction js arbitrary: k)
      case Nil
      then show ?case by (cases k) auto
    next
      case (Cons j js)
      then obtain k' where k: "k = Suc k'" by (cases k) auto
      have "get_json rd k' (put_json j @ concat (map (\<lambda>j. CHR ''1'' # put_json j) js) @ ''0'' @ r)
          = Some (j, concat (map (\<lambda>j. CHR ''1'' # put_json j) js) @ ''0'' @ r)"
        by (rule less.IH) (use Cons.prems k Suc in auto)
      with Cons.IH [of k'] Cons.prems k show ?case by simp
    qed
    have pairs: "get_pairs rd k (concat (map (\<lambda>(k, v). CHR ''1'' # put_str k @ put_json v) kvs) @ ''0'' @ r) = Some (kvs, r)"
      if "length (concat (map (\<lambda>(k, v). CHR ''1'' # put_str k @ put_json v) kvs)) < k" "k \<le> m" for k kvs
      using that
    proof (induction kvs arbitrary: k)
      case Nil
      then show ?case by (cases k) auto
    next
      case (Cons kv kvs)
      obtain x v where kv: "kv = (x, v)" by (cases kv)
      obtain k' where k: "k = Suc k'" using Cons.prems by (cases k) auto
      have "get_json rd k' (put_json v @ concat (map (\<lambda>(k, v). CHR ''1'' # put_str k @ put_json v) kvs) @ ''0'' @ r)
          = Some (v, concat (map (\<lambda>(k, v). CHR ''1'' # put_str k @ put_json v) kvs) @ ''0'' @ r)"
        by (rule less.IH) (use Cons.prems k Suc kv in auto)
      with Cons.IH [of k'] Cons.prems k kv show ?case by (simp add: get_put_str)
    qed
    show ?thesis
      using less.prems Suc items [of _ m] pairs [of _ m] by (cases j) (auto simp: get_put_str rd)
  qed
qed

end
