(* ===== verification/KvLedger.thy ===== *)
theory KvLedger
  imports KvStore DualChain SampleCodec "HOL-Library.Monad_Syntax"
begin

text \<open>
  The evidence ledger on the key-value substrate (\<^verbatim>\<open>Control-DB/zerotrace/store/ledger.py\<close>): ids from one
  sequence per tenant, a list of row ids per chain, one hash per row, appends under the tenant lock, and its
  own verification. Hashing, routing and validation are the functions of \<open>DualChain\<close> and \<open>LedgerRecords\<close>, as
  the code imports them. The store is any implementation of \<open>kv_ops\<close>; the JSON text of a payload is written
  and read by the codec \<open>jc\<close>; a time is its ISO text. Waiting for the lock is the list of times at which the
  loop polls before its deadline.
\<close>

section \<open>Rows\<close>

record json_codec =
  jc_dumps :: "fields \<Rightarrow> string"
  jc_loads :: "string \<Rightarrow> fields option"

definition sorted_fields :: "fields \<Rightarrow> fields" where
  "sorted_fields p = sort_key fst (map (\<lambda>(k, v). (k, sort_keys v)) p)"

definition codec_ok :: "json_codec \<Rightarrow> bool" where
  \<comment> \<open>\<open>json.dumps(..., sort_keys=True)\<close> is read back as the same object with its keys sorted\<close>
  "codec_ok jc \<longleftrightarrow> (\<forall>p. jc_loads jc (jc_dumps jc p) = Some (sorted_fields p))"

datatype kl_error =
    Refused append_error
  | RowMissing string
  | BadRow string
  | BadSequence
  | LockTimeout string

definition kl_key :: "string \<Rightarrow> string list \<Rightarrow> string" where
  "kl_key tenant parts = ''zt:'' @ tenant @ concat (map (\<lambda>p. CHR '':'' # p) parts)"

definition TENANT_INDEX :: string where "TENANT_INDEX = ''zt:_index:tenants''"

definition row_key :: "string \<Rightarrow> int \<Rightarrow> string" where
  "row_key tenant i = kl_key tenant [''row'', pr_int i]"

definition encode_row :: "json_codec \<Rightarrow> ledger_row \<Rightarrow> (string \<times> string) list" where
  "encode_row jc r =
     [(''id'', pr_int (int (lr_id r))), (''tenant_id'', lr_tenant_id r), (''chain'', lr_chain r),
      (''prev_hash'', to_hex (lr_prev_hash r)), (''record_hash'', to_hex (lr_record_hash r)),
      (''event_type'', lr_event_type r), (''payload'', jc_dumps jc (lr_payload r)), (''ts'', lr_ts r)]"

definition decode_row :: "json_codec \<Rightarrow> (string \<times> string) list \<Rightarrow> ledger_row option" where
  \<comment> \<open>\<open>None\<close> is a \<open>KeyError\<close> or \<open>ValueError\<close>\<close>
  "decode_row jc raw = do {
     i \<leftarrow> Option.bind (map_of raw ''id'') py_int_text;
     t \<leftarrow> map_of raw ''tenant_id'';
     c \<leftarrow> map_of raw ''chain'';
     prev \<leftarrow> Option.bind (map_of raw ''prev_hash'') from_hex;
     rec \<leftarrow> Option.bind (map_of raw ''record_hash'') from_hex;
     ev \<leftarrow> map_of raw ''event_type'';
     payload \<leftarrow> Option.bind (map_of raw ''payload'') (jc_loads jc);
     ts \<leftarrow> map_of raw ''ts'';
     Some \<lparr>lr_id = nat i, lr_tenant_id = t, lr_chain = c, lr_prev_hash = prev, lr_record_hash = rec,
       lr_event_type = ev, lr_payload = payload, lr_ts = ts\<rparr>
   }"

definition kl_row :: "'s kv_ops \<Rightarrow> json_codec \<Rightarrow> string \<Rightarrow> string \<Rightarrow> 's \<Rightarrow> kl_error + ledger_row" where
  \<comment> \<open>the row with the id a chain list holds as text\<close>
  "kl_row ops jc tenant i s =
     (case py_int_text i of
        None \<Rightarrow> Inl (BadRow i)
      | Some n \<Rightarrow> let raw = ko_hgetall ops (row_key tenant n) s in
          if raw = [] then Inl (RowMissing i)
          else case decode_row jc raw of None \<Rightarrow> Inl (BadRow i) | Some r \<Rightarrow> Inr r)"

section \<open>Reading\<close>

definition chain_key :: "string \<Rightarrow> string \<Rightarrow> string" where
  "chain_key tenant chain = kl_key tenant [''chain'', chain]"

definition kl_head :: "'s kv_ops \<Rightarrow> json_codec \<Rightarrow> string \<Rightarrow> string \<Rightarrow> 's \<Rightarrow> kl_error + ledger_row option" where
  "kl_head ops jc tenant chain s =
     (case ko_lrange ops (chain_key tenant chain) (- 1) (- 1) s of
        [] \<Rightarrow> Inr None
      | i # _ \<Rightarrow> rbind (kl_row ops jc tenant i s) (\<lambda>r. Inr (Some r)))"

definition kl_count :: "'s kv_ops \<Rightarrow> string \<Rightarrow> string \<Rightarrow> 's \<Rightarrow> nat" where
  "kl_count ops tenant chain s = ko_llen ops (chain_key tenant chain) s"

fun kl_row_list :: "'s kv_ops \<Rightarrow> json_codec \<Rightarrow> string \<Rightarrow> string list \<Rightarrow> 's \<Rightarrow> kl_error + ledger_row list" where
  "kl_row_list ops jc tenant [] s = Inr []"
| "kl_row_list ops jc tenant (i # is) s =
     rbind (kl_row ops jc tenant i s) (\<lambda>r. rbind (kl_row_list ops jc tenant is s) (\<lambda>rs. Inr (r # rs)))"

definition kl_rows :: "'s kv_ops \<Rightarrow> json_codec \<Rightarrow> string \<Rightarrow> string \<Rightarrow> 's \<Rightarrow> kl_error + ledger_row list" where
  "kl_rows ops jc tenant chain s = kl_row_list ops jc tenant (ko_lrange ops (chain_key tenant chain) 0 (- 1) s) s"

section \<open>Appending\<close>

definition new_row :: "(string \<Rightarrow> string) \<Rightarrow> string \<Rightarrow> string \<Rightarrow> string \<Rightarrow> string \<Rightarrow> fields \<Rightarrow> ledger_row option \<Rightarrow> int \<Rightarrow> ledger_row" where
  "new_row H now tenant chain event_type payload previous i =
     (let prev_hash = (case previous of Some r \<Rightarrow> lr_record_hash r | None \<Rightarrow> dl_genesis H tenant) in
      \<lparr>lr_id = nat i, lr_tenant_id = tenant, lr_chain = chain, lr_prev_hash = prev_hash,
        lr_record_hash = compute_hash H prev_hash (record_bytes tenant event_type payload now),
        lr_event_type = event_type, lr_payload = payload, lr_ts = now\<rparr>)"

definition kl_put :: "'s kv_ops \<Rightarrow> json_codec \<Rightarrow> (string \<Rightarrow> string) \<Rightarrow> string \<Rightarrow> string \<Rightarrow> string \<Rightarrow> string \<Rightarrow> fields
    \<Rightarrow> ledger_row option \<Rightarrow> 's \<Rightarrow> (kl_error + ledger_row) \<times> 's" where
  \<comment> \<open>the writes of \<open>_append_one\<close>, once the head is known\<close>
  "kl_put ops jc H now tenant chain event_type payload previous s =
     (case ko_incr ops (kl_key tenant [''seq'']) s of
        None \<Rightarrow> (Inl BadSequence, s)
      | Some (i, s1) \<Rightarrow>
          let row = new_row H now tenant chain event_type payload previous i;
              s2 = ko_hset_many ops (row_key tenant i) (encode_row jc row) s1;
              s3 = snd (ko_rpush ops (chain_key tenant chain) (pr_int i) s2)
          in (Inr row, ko_sadd ops TENANT_INDEX tenant s3))"

definition kl_append_one :: "'s kv_ops \<Rightarrow> json_codec \<Rightarrow> (string \<Rightarrow> string) \<Rightarrow> string \<Rightarrow> string \<Rightarrow> string \<Rightarrow> string \<Rightarrow> fields
    \<Rightarrow> 's \<Rightarrow> (kl_error + ledger_row) \<times> 's" where
  "kl_append_one ops jc H now tenant chain event_type payload s =
     (case kl_head ops jc tenant chain s of
        Inl e \<Rightarrow> (Inl e, s)
      | Inr previous \<Rightarrow> kl_put ops jc H now tenant chain event_type payload previous s)"

definition kl_anchor :: "'s kv_ops \<Rightarrow> json_codec \<Rightarrow> coercion \<Rightarrow> (string \<Rightarrow> string) \<Rightarrow> string \<Rightarrow> string \<Rightarrow> string \<Rightarrow> 's
    \<Rightarrow> (kl_error + ledger_row) \<times> 's" where
  "kl_anchor ops jc co H now tenant chain s =
     (let other = other_chain chain in
      case kl_head ops jc tenant other s of
        Inl e \<Rightarrow> (Inl e, s)
      | Inr other_head \<Rightarrow>
          (case validate co ''chain.cross_anchor''
              [(''chain'', JStr chain), (''other_chain'', JStr other),
               (''other_chain_head_id'', case other_head of Some r \<Rightarrow> JInt (int (lr_id r)) | None \<Rightarrow> JNull),
               (''other_chain_head_hash'', case other_head of Some r \<Rightarrow> JStr (to_hex (lr_record_hash r)) | None \<Rightarrow> JNull),
               (''other_chain_count'', JInt (int (kl_count ops tenant other s)))] of
             Inl e \<Rightarrow> (Inl (Refused (BadPayload e)), s)
           | Inr validated \<Rightarrow> kl_append_one ops jc H now tenant chain ''chain.cross_anchor'' validated s))"

fun kl_lock :: "'s kv_ops \<Rightarrow> string \<Rightarrow> string \<Rightarrow> rat list \<Rightarrow> 's \<Rightarrow> bool \<times> 's" where
  \<comment> \<open>\<open>TenantLock.__aenter__\<close> with the default time to live; the list is never empty at the first attempt (\<open>kc_times\<close>)\<close>
  "kl_lock ops key token [] s = (False, s)"
| "kl_lock ops key token (now # polls) s =
     (case ko_acquire ops now key token 10000 s of
        (True, s1) \<Rightarrow> (True, s1)
      | (False, s1) \<Rightarrow> kl_lock ops key token polls s1)"

record kl_call =
  kc_token :: string
  kc_first :: rat \<comment> \<open>the clock at the first attempt on the lock\<close>
  kc_polls :: "rat list" \<comment> \<open>the clock at each later one, until the deadline\<close>
  kc_now :: string
  kc_now' :: string

definition kc_times :: "kl_call \<Rightarrow> rat list" where "kc_times call = kc_first call # kc_polls call"

definition kl_append :: "'s kv_ops \<Rightarrow> json_codec \<Rightarrow> coercion \<Rightarrow> (string \<Rightarrow> string) \<Rightarrow> kl_call \<Rightarrow> string \<Rightarrow> string \<Rightarrow> fields
    \<Rightarrow> string option \<Rightarrow> 's \<Rightarrow> (kl_error + ledger_row) \<times> 's" where
  "kl_append ops jc co H call tenant event_type payload chain_name s =
     (case pick_chain event_type chain_name of
        Inl e \<Rightarrow> (Inl (Refused e), s)
      | Inr chain \<Rightarrow>
        (case validate co event_type payload of
           Inl e \<Rightarrow> (Inl (Refused (BadPayload e)), s)
         | Inr validated \<Rightarrow>
           (let lock = kl_key tenant [''lock''] in
            case kl_lock ops lock (kc_token call) (kc_times call) s of
              (False, s1) \<Rightarrow> (Inl (LockTimeout lock), s1)
            | (True, s1) \<Rightarrow>
                (case kl_append_one ops jc H (kc_now call) tenant chain event_type validated s1 of
                   (Inl e, s2) \<Rightarrow> (Inl e, ko_release ops lock (kc_token call) s2)
                 | (Inr row, s2) \<Rightarrow>
                     (case kl_anchor ops jc co H (kc_now' call) tenant chain s2 of
                        (Inl e, s3) \<Rightarrow> (Inl e, ko_release ops lock (kc_token call) s3)
                      | (Inr _, s3) \<Rightarrow> (Inr row, ko_release ops lock (kc_token call) s3))))))"

section \<open>Verifying\<close>

datatype kl_failure =
    HashMismatch string nat
  | PrevMismatch string nat
  | CountMismatch string nat
  | HeadMismatch string nat

record kl_result =
  kr_ok :: bool
  kr_checked :: nat
  kr_heads :: "(string \<times> string option) list"
  kr_failure :: "kl_failure option"

fun kl_walk :: "(string \<Rightarrow> string) \<Rightarrow> string \<Rightarrow> string \<Rightarrow> nat \<Rightarrow> ledger_row list \<Rightarrow> kl_failure option \<times> nat" where
  \<comment> \<open>the rows of one chain, with the count of rows checked so far\<close>
  "kl_walk H chain expected n [] = (None, n)"
| "kl_walk H chain expected n (row # rows) =
     (if compute_hash H (lr_prev_hash row) (record_bytes (lr_tenant_id row) (lr_event_type row) (lr_payload row) (lr_ts row))
           \<noteq> lr_record_hash row then (Some (HashMismatch chain (lr_id row)), Suc n)
      else if lr_prev_hash row \<noteq> expected then (Some (PrevMismatch chain (lr_id row)), Suc n)
      else kl_walk H chain (lr_record_hash row) (Suc n) rows)"

definition kl_anchor_failure :: "string \<Rightarrow> ledger_row list \<Rightarrow> ledger_row \<Rightarrow> kl_failure option" where
  "kl_anchor_failure chain others row =
     (if lr_event_type row \<noteq> ''chain.cross_anchor'' then None
      else let seen = filter (\<lambda>r. lr_id r < lr_id row) others in
        if py_int (pget ''other_chain_count'' (lr_payload row)) \<noteq> Some (int (length seen))
        then Some (CountMismatch chain (lr_id row))
        else if pget ''other_chain_head_hash'' (lr_payload row)
            \<noteq> (if seen = [] then JNull else JStr (to_hex (lr_record_hash (last seen))))
        then Some (HeadMismatch chain (lr_id row)) else None)"

fun first_failure :: "('a \<Rightarrow> 'f option) \<Rightarrow> 'a list \<Rightarrow> 'f option" where
  "first_failure f [] = None"
| "first_failure f (x # xs) = (case f x of Some e \<Rightarrow> Some e | None \<Rightarrow> first_failure f xs)"

definition head_text :: "ledger_row list \<Rightarrow> string option" where
  "head_text rows = (if rows = [] then None else Some (to_hex (lr_record_hash (last rows))))"

definition kl_verify :: "'s kv_ops \<Rightarrow> json_codec \<Rightarrow> (string \<Rightarrow> string) \<Rightarrow> string \<Rightarrow> 's \<Rightarrow> kl_error + kl_result" where
  \<comment> \<open>\<open>CHAINS\<close> is \<open>ctl\<close>, then \<open>dp\<close>\<close>
  "kl_verify ops jc H tenant s =
     rbind (kl_rows ops jc tenant ''ctl'' s) (\<lambda>ctl. rbind (kl_rows ops jc tenant ''dp'' s) (\<lambda>dp. Inr
       (case kl_walk H ''ctl'' (dl_genesis H tenant) 0 ctl of
          (Some e, n) \<Rightarrow> \<lparr>kr_ok = False, kr_checked = n, kr_heads = [(''ctl'', head_text ctl)], kr_failure = Some e\<rparr>
        | (None, n) \<Rightarrow>
          (let heads = [(''ctl'', head_text ctl), (''dp'', head_text dp)] in
           case kl_walk H ''dp'' (dl_genesis H tenant) n dp of
             (Some e, m) \<Rightarrow> \<lparr>kr_ok = False, kr_checked = m, kr_heads = heads, kr_failure = Some e\<rparr>
           | (None, m) \<Rightarrow>
               let failure = (case first_failure (kl_anchor_failure ''ctl'' dp) ctl of
                     Some e \<Rightarrow> Some e | None \<Rightarrow> first_failure (kl_anchor_failure ''dp'' ctl) dp)
               in \<lparr>kr_ok = (failure = None), kr_checked = m, kr_heads = heads, kr_failure = failure\<rparr>))))"

section \<open>One ledger on every store\<close>

context kv_store
begin

lemma kl_row_view: "ok s \<Longrightarrow> kl_row ops jc t i s = kl_row memory_ops jc t i (view s)"
  by (simp add: kl_row_def hgetall memory_ops_def cong: option.case_cong)

lemma kl_head_view: "ok s \<Longrightarrow> kl_head ops jc t c s = kl_head memory_ops jc t c (view s)"
  by (auto simp: kl_head_def lrange kl_row_view memory_ops_def split: list.splits)

lemma kl_count_view: "ok s \<Longrightarrow> kl_count ops t c s = kl_count memory_ops t c (view s)"
  by (simp add: kl_count_def llen memory_ops_def)

lemma kl_row_list_view: "ok s \<Longrightarrow> kl_row_list ops jc t is s = kl_row_list memory_ops jc t is (view s)"
  by (induction "is") (simp_all add: kl_row_view)

lemma kl_rows_view: "ok s \<Longrightarrow> kl_rows ops jc t c s = kl_rows memory_ops jc t c (view s)"
  by (simp add: kl_rows_def lrange kl_row_list_view) (simp add: memory_ops_def)

lemma kl_verify_view: "ok s \<Longrightarrow> kl_verify ops jc H t s = kl_verify memory_ops jc H t (view s)"
  by (simp add: kl_verify_def kl_rows_view)

lemma kl_put_view:
  assumes "ok s"
  shows "kl_put memory_ops jc H now t c ev p prev (view s) = apsnd view (kl_put ops jc H now t c ev p prev s)
    \<and> ok (snd (kl_put ops jc H now t c ev p prev s))"
proof (cases "ko_incr ops (kl_key t [''seq'']) s")
  case None
  with incr [OF assms] assms show ?thesis by (simp add: kl_put_def memory_ops_def)
next
  case (Some r)
  then obtain i s1 where r: "ko_incr ops (kl_key t [''seq'']) s = Some (i, s1)" by (cases r) auto
  from incr [OF assms, of "kl_key t [''seq'']"] r have i: "mk_incr (kl_key t [''seq'']) (view s) = Some (i, view s1)" by simp
  note ok1 = ok_incr [OF assms r]
  let ?row = "new_row H now t c ev p prev i"
  let ?s2 = "ko_hset_many ops (row_key t i) (encode_row jc ?row) s1"
  let ?s3 = "snd (ko_rpush ops (chain_key t c) (pr_int i) ?s2)"
  note ok2 = ok_hset [OF ok1, of "row_key t i" "encode_row jc ?row"]
  note ok3 = ok_rpush [OF ok2, of "chain_key t c" "pr_int i"]
  have v2: "view ?s2 = mk_hset_many (row_key t i) (encode_row jc ?row) (view s1)" by (rule hset_many [OF ok1])
  have v3: "view ?s3 = snd (mk_rpush (chain_key t c) (pr_int i) (view ?s2))" by (simp add: rpush [OF ok2])
  have v4: "view (ko_sadd ops TENANT_INDEX t ?s3) = mk_sadd TENANT_INDEX t (view ?s3)" by (rule sadd [OF ok3])
  show ?thesis
    using r i v2 v3 v4 ok_sadd [OF ok3, of TENANT_INDEX t] by (simp add: kl_put_def memory_ops_def Let_def)
qed

lemma kl_append_one_view:
  assumes "ok s"
  shows "kl_append_one memory_ops jc H now t c ev p (view s) = apsnd view (kl_append_one ops jc H now t c ev p s)
    \<and> ok (snd (kl_append_one ops jc H now t c ev p s))"
  using assms kl_put_view [OF assms]
  by (auto simp: kl_append_one_def simp flip: kl_head_view split: sum.splits)

lemma kl_anchor_view:
  assumes "ok s"
  shows "kl_anchor memory_ops jc co H now t c (view s) = apsnd view (kl_anchor ops jc co H now t c s)
    \<and> ok (snd (kl_anchor ops jc co H now t c s))"
  using assms kl_append_one_view [OF assms]
  by (auto simp: kl_anchor_def Let_def simp flip: kl_head_view kl_count_view split: sum.splits)

lemma kl_lock_view:
  assumes "ok s"
  shows "kl_lock memory_ops key token polls (view s) = apsnd view (kl_lock ops key token polls s)
    \<and> ok (snd (kl_lock ops key token polls s))"
  using assms
proof (induction polls arbitrary: s)
  case (Cons now polls)
  obtain b s1 where a: "ko_acquire ops now key token 10000 s = (b, s1)" by fastforce
  with acquire [OF Cons.prems, of now key token 10000] have m: "mk_acquire now key token 10000 (view s) = (b, view s1)" by simp
  from ok_acquire [OF Cons.prems, of now key token 10000] a have "ok s1" by simp
  from Cons.IH [OF this] a m this show ?case
    by (cases b) (simp_all add: memory_ops_def)
qed simp

lemma release_view: "ok s \<Longrightarrow> ko_release memory_ops k tok (view s) = view (ko_release ops k tok s)"
  by (simp add: release memory_ops_def)

lemma kl_append_view:
  assumes "ok s"
  shows "kl_append memory_ops jc co H call t ev p cn (view s) = apsnd view (kl_append ops jc co H call t ev p cn s)
    \<and> ok (snd (kl_append ops jc co H call t ev p cn s))"
proof (cases "pick_chain ev cn")
  case (Inl e)
  with assms show ?thesis by (simp add: kl_append_def)
next
  case c: (Inr c)
  show ?thesis
  proof (cases "validate co ev p")
    case (Inl e)
    with assms c show ?thesis by (simp add: kl_append_def)
  next
    case v: (Inr v)
    obtain b s1 where l: "kl_lock ops (kl_key t [''lock'']) (kc_token call) (kc_times call) s = (b, s1)" by fastforce
    with kl_lock_view [OF assms, of "kl_key t [''lock'']" "kc_token call" "kc_times call"]
    have lm: "kl_lock memory_ops (kl_key t [''lock'']) (kc_token call) (kc_times call) (view s) = (b, view s1)"
      and ok1: "ok s1" by auto
    obtain r s2 where a: "kl_append_one ops jc H (kc_now call) t c ev v s1 = (r, s2)" by fastforce
    with kl_append_one_view [OF ok1, of jc H "kc_now call" t c ev v]
    have am: "kl_append_one memory_ops jc H (kc_now call) t c ev v (view s1) = (r, view s2)" and ok2: "ok s2" by auto
    obtain q s3 where x: "kl_anchor ops jc co H (kc_now' call) t c s2 = (q, s3)" by fastforce
    with kl_anchor_view [OF ok2, of jc co H "kc_now' call" t c]
    have xm: "kl_anchor memory_ops jc co H (kc_now' call) t c (view s2) = (q, view s3)" and ok3: "ok s3" by auto
    show ?thesis
      using c v l lm a am x xm ok1 ok_release [OF ok2] ok_release [OF ok3]
      by (auto simp: kl_append_def Let_def release_view [OF ok2] release_view [OF ok3] split: sum.splits bool.splits)
  qed
qed

end

section \<open>Sorted payloads\<close>

lemma insort_map_apsnd: "insort_key fst (k, f v) (map (\<lambda>(k, v). (k, f v)) ys) = map (\<lambda>(k, v). (k, f v)) (insort_key fst (k, v) ys)"
  by (induction ys) auto

lemma sort_map_apsnd: "sort_key fst (map (\<lambda>(k, v). (k, f v)) xs) = map (\<lambda>(k, v). (k, f v)) (sort_key fst xs)"
  by (induction xs) (auto simp: insort_map_apsnd)

lemma sort_keys_idem: "sort_keys (sort_keys j) = sort_keys j"
proof (induction j rule: sort_keys.induct)
  case (2 kvs)
  let ?f = "\<lambda>(k :: string, v). (k, sort_keys v)"
  have twice: "map ?f (map ?f kvs) = map ?f kvs" using 2 by auto
  have "sort_key fst (map ?f (sort_key fst (map ?f kvs))) = sort_key fst (sort_key fst (map ?f (map ?f kvs)))"
    by (simp only: sort_map_apsnd)
  also have "\<dots> = sort_key fst (map ?f kvs)" unfolding twice by (simp add: sort_key_id_if_sorted)
  finally show ?case by simp
qed auto

lemma sort_keys_fields: "sort_keys (JObj (sorted_fields p)) = sort_keys (JObj p)"
  using sort_keys_idem [of "JObj p"] by (simp add: sorted_fields_def)

lemma record_bytes_sorted: "record_bytes t ev (sorted_fields p) now = record_bytes t ev p now"
  by (simp only: record_bytes_def canonical_json_def sorted_record sort_keys_fields)

lemma pget_sorted:
  assumes "distinct (map fst p)"
  shows "pget k (sorted_fields p) = sort_keys (pget k p)"
proof -
  let ?q = "map (\<lambda>(k, v). (k, sort_keys v)) p"
  have "map fst ?q = map fst p" by (induction p) auto
  then have q: "distinct (map fst ?q)" using assms by metis
  then have sorted: "distinct (map fst (sort_key fst ?q))"
    by (simp only: distinct_map distinct_sort set_sort)
  have "set (sort_key fst ?q) = set ?q" by (rule set_sort)
  then have "map_of (sort_key fst ?q) k = map_of ?q k" using map_of_inject_set [OF sorted q] by simp
  also have "map_of ?q k = map_option sort_keys (map_of p k)" by (simp add: map_of_map)
  finally show ?thesis by (simp add: pget_def sorted_fields_def split: option.splits)
qed

definition norm :: "ledger_row \<Rightarrow> ledger_row" where
  \<comment> \<open>a row as it is read back\<close>
  "norm r = r\<lparr>lr_payload := sorted_fields (lr_payload r)\<rparr>"

lemma norm_simps [simp]:
  "lr_id (norm r) = lr_id r" "lr_tenant_id (norm r) = lr_tenant_id r" "lr_chain (norm r) = lr_chain r"
  "lr_prev_hash (norm r) = lr_prev_hash r" "lr_record_hash (norm r) = lr_record_hash r"
  "lr_event_type (norm r) = lr_event_type r" "lr_ts (norm r) = lr_ts r"
  "lr_payload (norm r) = sorted_fields (lr_payload r)"
  by (simp_all add: norm_def)

lemma decode_encode: "codec_ok jc \<Longrightarrow> decode_row jc (encode_row jc r) = Some (norm r)"
  by (simp add: decode_row_def encode_row_def codec_ok_def py_int_text_pr_int norm_def)

lemma dict_update_nil: "distinct (map fst m) \<Longrightarrow> dict_update m [] = m"
proof -
  have "dict_update m d = d @ m" if "distinct (map fst (d @ m))" for d
    using that
  proof (induction m arbitrary: d)
    case (Cons kv m)
    have "AList.update (fst kv) (snd kv) d = d @ [kv]" if "fst kv \<notin> set (map fst d)"
      using that by (induction d) auto
    with Cons.prems have "AList.update (fst kv) (snd kv) d = d @ [kv]" by auto
    with Cons.IH [of "d @ [kv]"] Cons.prems show ?case by (simp add: dict_update_def split_beta)
  qed (simp add: dict_update_def)
  from this [of "[]"] show "distinct (map fst m) \<Longrightarrow> dict_update m [] = m" by simp
qed

lemma encode_distinct: "distinct (map fst (encode_row jc r))"
  by (simp add: encode_row_def)

lemma encode_nonempty: "encode_row jc r \<noteq> []"
  by (simp add: encode_row_def)

section \<open>The store holds a ledger\<close>

definition kl_holds :: "json_codec \<Rightarrow> string \<Rightarrow> kv_data \<Rightarrow> ledger_db \<Rightarrow> bool" where
  \<comment> \<open>the keys of a tenant hold exactly the rows of a ledger\<close>
  "kl_holds jc t d db \<longleftrightarrow> 0 < db_next_id db
     \<and> lookup_or ''0'' (kd_v d) (kl_key t [''seq'']) = pr_int (int (db_next_id db) - 1)
     \<and> (\<forall>c \<in> set CHAINS. lookup_or [] (kd_l d) (chain_key t c) = map (\<lambda>r. pr_int (int (lr_id r))) (chain_rows t c (db_ledger db)))
     \<and> (\<forall>r \<in> set (db_ledger db). lr_tenant_id r = t \<and> lookup_or [] (kd_h d) (row_key t (int (lr_id r))) = encode_row jc r)
     \<and> (\<forall>n. db_next_id db \<le> n \<longrightarrow> lookup_or [] (kd_h d) (row_key t (int n)) = [])"

lemma kl_key_inj: "kl_key t ps = kl_key t qs \<longleftrightarrow> concat (map (\<lambda>p. CHR '':'' # p) ps) = concat (map (\<lambda>p. CHR '':'' # p) qs)"
  by (simp add: kl_key_def)

lemma row_key_inj: "row_key t i = row_key t j \<longleftrightarrow> i = j"
  by (auto simp: row_key_def kl_key_inj dest: pr_int_inj)

lemma chain_key_inj: "chain_key t c = chain_key t d \<longleftrightarrow> c = d"
  by (simp add: chain_key_def kl_key_inj)

lemma lookup_or_update: "lookup_or x (AList.update k v m) k' = (if k' = k then v else lookup_or x m k')"
  by (simp add: lookup_or_def update_conv')

lemma kl_row_held:
  assumes "kl_holds jc t d db" "r \<in> set (db_ledger db)" "codec_ok jc"
  shows "kl_row memory_ops jc t (pr_int (int (lr_id r))) d = Inr (norm r)"
  using assms encode_nonempty [of jc r]
  by (simp add: kl_row_def py_int_text_pr_int memory_ops_def mk_hgetall_def kl_holds_def decode_encode Let_def)

lemma kv_range_last: "kv_range (- 1) (- 1) xs = (if xs = [] then [] else [last xs])"
  by (cases xs rule: rev_cases) (simp_all add: kv_range_def py_slice_def py_index_def)

lemma kv_range_all: "kv_range 0 (- 1) xs = xs"
  by (simp add: kv_range_def py_slice_def py_index_def)

lemma chain_rows_subset: "r \<in> set (chain_rows t c rows) \<Longrightarrow> r \<in> set rows"
  by (simp add: chain_rows_def)

lemma kl_head_held:
  assumes "kl_holds jc t d db" "c \<in> set CHAINS" "codec_ok jc"
  shows "kl_head memory_ops jc t c d = Inr (map_option norm (last_row db t c))"
proof -
  let ?rows = "chain_rows t c (db_ledger db)"
  have l: "lookup_or [] (kd_l d) (chain_key t c) = map (\<lambda>r. pr_int (int (lr_id r))) ?rows"
    using assms(1,2) by (simp add: kl_holds_def)
  show ?thesis
  proof (cases "?rows = []")
    case True
    then show ?thesis by (simp add: kl_head_def memory_ops_def mk_lrange_def l kv_range_last last_row_def)
  next
    case False
    from chain_rows_subset [OF last_in_set [OF False]] have "last ?rows \<in> set (db_ledger db)" .
    from kl_row_held [OF assms(1) this assms(3)] False show ?thesis
      by (simp add: kl_head_def memory_ops_def mk_lrange_def l kv_range_last last_row_def last_map Let_def)
  qed
qed

lemma kl_count_held:
  "kl_holds jc t d db \<Longrightarrow> c \<in> set CHAINS \<Longrightarrow> kl_count memory_ops t c d = length (chain_rows t c (db_ledger db))"
  by (simp add: kl_count_def memory_ops_def mk_llen_def kl_holds_def)

lemma kl_row_list_held:
  assumes "kl_holds jc t d db" "codec_ok jc" "set rs \<subseteq> set (db_ledger db)"
  shows "kl_row_list memory_ops jc t (map (\<lambda>r. pr_int (int (lr_id r))) rs) d = Inr (map norm rs)"
  using assms(3) by (induction rs) (simp_all add: kl_row_held [OF assms(1) _ assms(2)])

lemma kl_rows_held:
  assumes "kl_holds jc t d db" "c \<in> set CHAINS" "codec_ok jc"
  shows "kl_rows memory_ops jc t c d = Inr (map norm (chain_rows t c (db_ledger db)))"
proof -
  have "ko_lrange memory_ops (chain_key t c) 0 (- 1) d = map (\<lambda>r. pr_int (int (lr_id r))) (chain_rows t c (db_ledger db))"
    using assms(1,2) by (simp add: memory_ops_def mk_lrange_def kv_range_all kl_holds_def)
  then show ?thesis
    using kl_row_list_held [OF assms(1,3), of "chain_rows t c (db_ledger db)"] chain_rows_subset
    by (auto simp: kl_rows_def)
qed

lemma kl_put_held:
  assumes h: "kl_holds jc t d db" and wf: "ledger_wf db" and c: "c \<in> set CHAINS"
    and a: "append_one H now db t c ev p prev = (row, db')"
    and p: "kl_put memory_ops jc H now t c ev p (map_option norm prev) d = (res, d')"
  shows "res = Inr row \<and> kl_holds jc t d' db'"
proof -
  let ?i = "int (db_next_id db)"
  note s = append_one_simps [OF a]
  have seq: "lookup_or ''0'' (kd_v d) (kl_key t [''seq'']) = pr_int (?i - 1)" and pos: "0 < db_next_id db"
    using h by (auto simp: kl_holds_def)
  have row: "new_row H now t c ev p (map_option norm prev) ?i = row"
    using a by (cases prev) (simp_all add: new_row_def append_one_def Let_def)
  have free: "lookup_or [] (kd_h d) (row_key t ?i) = []" using h by (simp add: kl_holds_def)
  let ?d1 = "d\<lparr>kd_v := AList.update (kl_key t [''seq'']) (pr_int ?i) (kd_v d)\<rparr>"
  let ?d2 = "?d1\<lparr>kd_h := AList.update (row_key t ?i) (encode_row jc row) (kd_h d)\<rparr>"
  let ?d3 = "?d2\<lparr>kd_l := AList.update (chain_key t c) (lookup_or [] (kd_l d) (chain_key t c) @ [pr_int ?i]) (kd_l d)\<rparr>"
  have i: "mk_incr (kl_key t [''seq'']) d = Some (?i, ?d1)"
    by (simp add: mk_incr_def seq py_int_text_pr_int)
  have d2: "mk_hset_many (row_key t ?i) (encode_row jc row) ?d1 = ?d2"
    by (simp add: mk_hset_many_def free dict_update_nil [OF encode_distinct])
  have d': "res = Inr row" "d' = mk_sadd TENANT_INDEX t ?d3"
    using p by (simp_all add: kl_put_def memory_ops_def i row d2 mk_rpush_def Let_def)
  have ids: "lr_id r < db_next_id db" if "r \<in> set (db_ledger db)" for r
    using wf that by (simp add: ledger_wf_def)
  then have fresh: "lr_id r \<noteq> db_next_id db" if "r \<in> set (db_ledger db)" for r using that by fastforce
  have "kl_holds jc t d' db'"
    unfolding kl_holds_def
  proof (intro conjI ballI allI impI)
    show "0 < db_next_id db'" by (simp add: s)
    show "lookup_or ''0'' (kd_v d') (kl_key t [''seq'']) = pr_int (int (db_next_id db') - 1)"
      by (simp add: d' mk_sadd_def lookup_or_update s)
    show "lookup_or [] (kd_l d') (chain_key t c') = map (\<lambda>r. pr_int (int (lr_id r))) (chain_rows t c' (db_ledger db'))"
      if "c' \<in> set CHAINS" for c'
      using h that c by (simp add: d' mk_sadd_def lookup_or_update chain_key_inj kl_holds_def s chain_rows_snoc)
    show "lr_tenant_id r = t" "lookup_or [] (kd_h d') (row_key t (int (lr_id r))) = encode_row jc r"
      if "r \<in> set (db_ledger db')" for r
      using h that fresh s by (auto simp: d' mk_sadd_def lookup_or_update row_key_inj kl_holds_def)
    show "lookup_or [] (kd_h d') (row_key t (int n)) = []" if "db_next_id db' \<le> n" for n
      using h that s by (simp add: d' mk_sadd_def lookup_or_update row_key_inj kl_holds_def)
  qed
  with d'(1) show ?thesis by simp
qed

section \<open>Appends keep it verified\<close>

definition kl_good :: "(string \<Rightarrow> string) \<Rightarrow> string \<Rightarrow> ledger_db \<Rightarrow> bool" where
  \<comment> \<open>both chains are linked and every cross-anchor names what preceded it\<close>
  "kl_good H t db \<longleftrightarrow> ledger_wf db \<and> chains_known db
     \<and> (\<forall>c \<in> set CHAINS. dl_linked H t (chain_rows t c (db_ledger db)))
     \<and> (\<forall>r \<in> set (tenant_rows db t). lr_event_type r = ''chain.cross_anchor'' \<longrightarrow>
          cross_anchor_failure r (tenant_rows db t) = None \<and> distinct (map fst (lr_payload r))
          \<and> pget ''other_chain'' (lr_payload r) = JStr (other_chain (lr_chain r)))"

lemma kl_append_one_good:
  assumes good: "kl_good H t db" and a: "append_one H now db t c ev p (last_row db t c) = (row, db')" and c: "c \<in> set CHAINS"
    and new: "ev = ''chain.cross_anchor'' \<longrightarrow> cross_anchor_failure row (tenant_rows db t) = None \<and> distinct (map fst p)
      \<and> pget ''other_chain'' p = JStr (other_chain c)"
  shows "kl_good H t db'"
proof -
  note s = append_one_simps [OF a]
  from good have wf: "ledger_wf db" and known: "chains_known db" by (simp_all add: kl_good_def)
  have "chains_known db'" using known s c by (auto simp: chains_known_def)
  moreover have "ledger_wf db'" by (rule append_one_wf [OF a wf])
  moreover have "dl_linked H t (chain_rows t d (db_ledger db'))" if "d \<in> set CHAINS" for d
    by (rule append_one_linked [OF a]) (use good that in \<open>simp add: kl_good_def\<close>)
  moreover have rows: "tenant_rows db' t = tenant_rows db t @ [row]" using tenant_rows_snoc [OF s(1), of t] s(6) by simp
  have later: "\<not> lr_id row < lr_id r" if "r \<in> set (tenant_rows db t)" for r
    using that wf s(5) by (auto simp: ledger_wf_def tenant_rows_def)
  have "cross_anchor_failure r (tenant_rows db' t) = cross_anchor_failure r (tenant_rows db t)"
    if "r \<in> set (tenant_rows db t) \<or> r = row" for r
    unfolding rows by (rule cross_anchor_failure_cong) (use later that in auto)
  ultimately show ?thesis using good new s unfolding kl_good_def rows by auto
qed

lemma kl_head_length:
  assumes "kl_good H t db" "\<And>x. length (H x) = 32" "c \<in> set CHAINS" "last_row db t c = Some r"
  shows "length (lr_record_hash r) = 32"
proof -
  from last_row_rows [OF assms(4)] have ne: "chain_rows t c (db_ledger db) \<noteq> []" and r: "r = last (chain_rows t c (db_ledger db))"
    by auto
  from assms(1,3) have "dl_linked H t (chain_rows t c (db_ledger db))" by (auto simp: kl_good_def)
  from length_chain_head [OF this [unfolded dl_linked_def] assms(2)] show ?thesis
    using ne r by (simp add: chain_head_def dl_genesis_def assms(2))
qed

lemma anchor_distinct: "distinct (map fst (anchor_payload db t c))"
  by (simp add: anchor_payload_def Let_def)

lemma other_chain_known: "c \<in> set CHAINS \<Longrightarrow> other_chain c \<in> set CHAINS"
  by (auto simp: CHAINS_def other_chain_def)

lemma kl_append_one_held:
  assumes "kl_holds jc t d db" "ledger_wf db" "c \<in> set CHAINS" "codec_ok jc"
    and "append_one H now db t c ev p (last_row db t c) = (row, db')"
  shows "\<exists>d'. kl_append_one memory_ops jc H now t c ev p d = (Inr row, d') \<and> kl_holds jc t d' db'"
proof -
  obtain res d' where p: "kl_put memory_ops jc H now t c ev p (map_option norm (last_row db t c)) d = (res, d')" by fastforce
  from kl_put_held [OF assms(1-3,5) p] p kl_head_held [OF assms(1,3,4)] show ?thesis
    by (simp add: kl_append_one_def)
qed

lemma kl_anchor_held:
  assumes h: "kl_holds jc t d db" and good: "kl_good H t db" and c: "c \<in> set CHAINS" and jc: "codec_ok jc"
    and co: "coerces co" and len: "\<And>x. length (H x) = 32"
  shows "\<exists>anchor d' db'. append_one H now db t c ''chain.cross_anchor'' (anchor_payload db t c) (last_row db t c) = (anchor, db')
    \<and> kl_anchor memory_ops jc co H now t c d = (Inr anchor, d') \<and> kl_holds jc t d' db' \<and> kl_good H t db'"
proof -
  note o = other_chain_known [OF c]
  obtain anchor db' where a: "append_one H now db t c ''chain.cross_anchor'' (anchor_payload db t c) (last_row db t c) = (anchor, db')"
    by fastforce
  note s = append_one_simps [OF a]
  have wf: "ledger_wf db" using good by (simp add: kl_good_def)
  have va: "validate co ''chain.cross_anchor'' (anchor_payload db t c) = Inr (anchor_payload db t c)"
    by (rule validate_anchor [OF co c]) (rule kl_head_length [OF good len o])
  have payload: "[(''chain'', JStr c), (''other_chain'', JStr (other_chain c)),
      (''other_chain_head_id'', case map_option norm (last_row db t (other_chain c)) of Some r \<Rightarrow> JInt (int (lr_id r)) | None \<Rightarrow> JNull),
      (''other_chain_head_hash'', case map_option norm (last_row db t (other_chain c)) of
          Some r \<Rightarrow> JStr (to_hex (lr_record_hash r)) | None \<Rightarrow> JNull),
      (''other_chain_count'', JInt (int (kl_count memory_ops t (other_chain c) d)))] = anchor_payload db t c"
    using kl_count_held [OF h o] by (cases "last_row db t (other_chain c)") (simp_all add: anchor_payload_def Let_def)
  from kl_append_one_held [OF h wf c jc a] obtain d' where
    d': "kl_append_one memory_ops jc H now t c ''chain.cross_anchor'' (anchor_payload db t c) d = (Inr anchor, d')" "kl_holds jc t d' db'"
    by blast
  have "kl_anchor memory_ops jc co H now t c d = (Inr anchor, d')"
    unfolding kl_anchor_def Let_def kl_head_held [OF h o jc] sum.case payload va d'(1) ..
  moreover have "kl_good H t db'"
    by (rule kl_append_one_good [OF good a c])
      (use anchor_binds [OF wf c s(5,7,9)] anchor_distinct anchor_fields in auto)
  ultimately show ?thesis using a d'(2) by blast
qed

lemma kl_walk_linked:
  assumes "linked H lr_prev_hash lr_record_hash (dl_body t) g rows" "\<forall>r \<in> set rows. lr_tenant_id r = t"
  shows "kl_walk H c g n (map norm rows) = (None, n + length rows)"
  using assms
proof (induction rows arbitrary: g n)
  case (Cons r rows)
  then have "compute_hash H (lr_prev_hash r) (record_bytes (lr_tenant_id r) (lr_event_type r) (sorted_fields (lr_payload r)) (lr_ts r))
      = lr_record_hash r"
    by (simp add: record_bytes_sorted compute_hash_def link_def dl_body_def)
  with Cons.IH [of "lr_record_hash r" "Suc n"] Cons.prems show ?case by auto
qed simp

lemma kl_anchor_ok:
  assumes good: "kl_good H t db" and r: "r \<in> set (chain_rows t c (db_ledger db))" and c: "c \<in> set CHAINS"
  shows "kl_anchor_failure c' (map norm (chain_rows t (other_chain c) (db_ledger db))) (norm r) = None"
proof (cases "lr_event_type r = ''chain.cross_anchor''")
  case True
  have rc: "lr_chain r = c" and rt: "r \<in> set (tenant_rows db t)" using r by (auto simp: chain_rows_def tenant_rows_def)
  let ?others = "filter (\<lambda>s. lr_chain s = other_chain c \<and> lr_id s < lr_id r) (tenant_rows db t)"
  from good rt True have none: "cross_anchor_failure r (tenant_rows db t) = None" and dist: "distinct (map fst (lr_payload r))"
    and other: "pget ''other_chain'' (lr_payload r) = JStr (other_chain c)"
    by (auto simp: kl_good_def rc)
  have count: "py_int (pget ''other_chain_count'' (lr_payload r)) = Some (int (length ?others))"
    and head: "pget ''other_chain_head_hash'' (lr_payload r)
      = (if ?others = [] then JNull else JStr (to_hex (lr_record_hash (last ?others))))"
    using none by (auto simp: cross_anchor_failure_def other Let_def split: if_splits)
  have seen: "filter (\<lambda>s. lr_id s < lr_id r) (map norm (chain_rows t (other_chain c) (db_ledger db))) = map norm ?others"
    by (simp add: filter_map comp_def tenant_rows_def chain_rows_def conj_ac)
  have pc: "py_int (sort_keys j) = py_int j" for j by (cases j) (simp_all add: py_int_def)
  show ?thesis
    by (simp add: kl_anchor_failure_def seen pget_sorted [OF dist] pc count head last_map Let_def)
qed (simp add: kl_anchor_failure_def)

lemma first_failure_None: "first_failure f xs = None \<longleftrightarrow> (\<forall>x \<in> set xs. f x = None)"
  by (induction xs) (auto split: option.splits)

lemma two_chains:
  assumes "\<forall>r \<in> set rows. lr_tenant_id r = t \<and> lr_chain r \<in> set CHAINS"
  shows "length (chain_rows t ''ctl'' rows) + length (chain_rows t ''dp'' rows) = length rows"
  using assms by (induction rows) (auto simp: chain_rows_def CHAINS_def)

lemma kl_verify_held:
  assumes h: "kl_holds jc t d db" and good: "kl_good H t db" and jc: "codec_ok jc"
  shows "\<exists>r. kl_verify memory_ops jc H t d = Inr r \<and> kr_ok r \<and> kr_checked r = length (db_ledger db)"
proof -
  have c: "''ctl'' \<in> set CHAINS" "''dp'' \<in> set CHAINS" "other_chain ''ctl'' = ''dp''" "other_chain ''dp'' = ''ctl''"
    by (simp_all add: CHAINS_def other_chain_def)
  have ten: "\<forall>r \<in> set (chain_rows t x (db_ledger db)). lr_tenant_id r = t" for x by (simp add: chain_rows_def)
  have walk: "kl_walk H x (dl_genesis H t) n (map norm (chain_rows t x (db_ledger db)))
      = (None, n + length (chain_rows t x (db_ledger db)))" if "x \<in> set CHAINS" for x n
    by (rule kl_walk_linked) (use good that ten in \<open>auto simp: kl_good_def dl_linked_def\<close>)
  have anchors: "first_failure (kl_anchor_failure ''ctl'' (map norm (chain_rows t ''dp'' (db_ledger db))))
        (map norm (chain_rows t ''ctl'' (db_ledger db))) = None"
      "first_failure (kl_anchor_failure ''dp'' (map norm (chain_rows t ''ctl'' (db_ledger db))))
        (map norm (chain_rows t ''dp'' (db_ledger db))) = None"
    using kl_anchor_ok [OF good _ c(1)] kl_anchor_ok [OF good _ c(2)] by (auto simp: first_failure_None c(3,4))
  have total: "length (chain_rows t ''ctl'' (db_ledger db)) + length (chain_rows t ''dp'' (db_ledger db)) = length (db_ledger db)"
    by (rule two_chains) (use h good in \<open>auto simp: kl_holds_def kl_good_def chains_known_def\<close>)
  show ?thesis
    using total by (simp add: kl_verify_def kl_rows_held [OF h _ jc] c(1,2) walk anchors Let_def)
qed

section \<open>Tenants\<close>

definition plain_tenant :: "string \<Rightarrow> bool" where
  "plain_tenant t \<longleftrightarrow> CHR '':'' \<notin> set t"

definition same_for :: "string \<Rightarrow> kv_data \<Rightarrow> kv_data \<Rightarrow> bool" where
  "same_for u d d' \<longleftrightarrow> (\<forall>p ps. let k = kl_key u (p # ps) in
     lookup_or ''0'' (kd_v d') k = lookup_or ''0'' (kd_v d) k \<and> lookup_or [] (kd_l d') k = lookup_or [] (kd_l d) k
     \<and> lookup_or [] (kd_h d') k = lookup_or [] (kd_h d) k)"

lemma kl_key_tenant:
  assumes "plain_tenant t" "plain_tenant u" "kl_key t (p # ps) = kl_key u (q # qs)"
  shows "t = u"
proof -
  have "takeWhile (\<lambda>c. c \<noteq> CHR '':'') (x @ CHR '':'' # xs) = x" if "CHR '':'' \<notin> set x" for x xs :: string
    using that by (induction x) auto
  with assms show ?thesis by (simp add: kl_key_def plain_tenant_def) metis
qed

lemma same_for_trans: "same_for u d d' \<Longrightarrow> same_for u d' d'' \<Longrightarrow> same_for u d d''"
  by (simp add: same_for_def Let_def)

lemma same_for_refl: "same_for u d d" by (simp add: same_for_def Let_def)

lemma kl_holds_same: "kl_holds jc u d db \<Longrightarrow> same_for u d d' \<Longrightarrow> kl_holds jc u d' db"
  by (simp add: kl_holds_def same_for_def row_key_def chain_key_def Let_def)

lemma kl_put_same:
  assumes "plain_tenant t" "plain_tenant u" "t \<noteq> u"
  shows "same_for u d (snd (kl_put memory_ops jc H now t c ev p prev d))"
proof -
  have "kl_key u (q # qs) \<noteq> kl_key t (r # rs)" for q qs r rs using kl_key_tenant [OF assms(1,2)] assms(3) by metis
  then show ?thesis
    by (auto simp: kl_put_def memory_ops_def mk_incr_def mk_hset_many_def mk_rpush_def mk_sadd_def same_for_def row_key_def
        chain_key_def lookup_or_update Let_def split: option.splits)
qed

lemma kl_append_one_same:
  "plain_tenant t \<Longrightarrow> plain_tenant u \<Longrightarrow> t \<noteq> u \<Longrightarrow> same_for u d (snd (kl_append_one memory_ops jc H now t c ev p d))"
  by (simp add: kl_append_one_def same_for_refl kl_put_same split: sum.splits)

lemma kl_anchor_same:
  "plain_tenant t \<Longrightarrow> plain_tenant u \<Longrightarrow> t \<noteq> u \<Longrightarrow> same_for u d (snd (kl_anchor memory_ops jc co H now t c d))"
  by (simp add: kl_anchor_def same_for_refl kl_append_one_same Let_def split: sum.splits)

lemma kl_lock_same: "same_for u d (snd (kl_lock memory_ops key token polls d))"
proof (induction polls arbitrary: d)
  case (Cons now polls)
  obtain b d1 where a: "mk_acquire now key token 10000 d = (b, d1)" by fastforce
  then have "same_for u d d1" by (auto simp: mk_acquire_def same_for_def Let_def split: option.splits if_splits)
  with Cons.IH [of d1] a show ?case by (cases b) (auto simp: memory_ops_def intro: same_for_trans)
qed (simp add: same_for_refl)

lemma release_same: "same_for u d (ko_release memory_ops key token d)"
  by (auto simp: memory_ops_def mk_release_def same_for_def Let_def split: option.splits)

section \<open>Histories\<close>

record kl_request =
  kq_call :: kl_call
  kq_tenant :: string
  kq_event :: string
  kq_payload :: fields
  kq_chain :: "string option"

definition kl_serve :: "'s kv_ops \<Rightarrow> json_codec \<Rightarrow> coercion \<Rightarrow> (string \<Rightarrow> string) \<Rightarrow> kl_request \<Rightarrow> 's \<Rightarrow> (kl_error + ledger_row) \<times> 's" where
  "kl_serve ops jc co H q s = kl_append ops jc co H (kq_call q) (kq_tenant q) (kq_event q) (kq_payload q) (kq_chain q) s"

fun kl_run :: "'s kv_ops \<Rightarrow> json_codec \<Rightarrow> coercion \<Rightarrow> (string \<Rightarrow> string) \<Rightarrow> kl_request list \<Rightarrow> 's
    \<Rightarrow> (kl_error + ledger_row) list \<times> 's" where
  "kl_run ops jc co H [] s = ([], s)"
| "kl_run ops jc co H (q # qs) s =
     (case kl_serve ops jc co H q s of (r, s1) \<Rightarrow> case kl_run ops jc co H qs s1 of (rs, s2) \<Rightarrow> (r # rs, s2))"

fun accepted_rows :: "string \<Rightarrow> kl_request list \<Rightarrow> (kl_error + ledger_row) list \<Rightarrow> nat" where
  \<comment> \<open>how many appends for the tenant succeeded\<close>
  "accepted_rows t (q # qs) (Inr _ # rs) = (if kq_tenant q = t then Suc (accepted_rows t qs rs) else accepted_rows t qs rs)"
| "accepted_rows t (q # qs) (Inl _ # rs) = accepted_rows t qs rs"
| "accepted_rows t _ _ = 0"

definition expected_error :: "kl_error \<Rightarrow> bool" where
  \<comment> \<open>what an append may answer without the store being damaged\<close>
  "expected_error e \<longleftrightarrow> (case e of Refused _ \<Rightarrow> True | LockTimeout _ \<Rightarrow> True | _ \<Rightarrow> False)"

lemma same_for_holds: "kl_holds jc t d db \<Longrightarrow> (\<And>u. same_for u d d') \<Longrightarrow> kl_holds jc t d' db"
  using kl_holds_same by blast

lemma kl_append_held:
  assumes h: "kl_holds jc t d db" and good: "kl_good H t db" and jc: "codec_ok jc"
    and co: "coerces co" and len: "\<And>x. length (H x) = 32"
    and a: "kl_append memory_ops jc co H call t ev p cn d = (res, d')"
  shows "\<exists>db'. kl_holds jc t d' db' \<and> kl_good H t db'
    \<and> (case res of Inl e \<Rightarrow> expected_error e \<and> length (db_ledger db') = length (db_ledger db)
       | Inr row \<Rightarrow> length (db_ledger db') = length (db_ledger db) + 2 \<and> row \<in> set (db_ledger db') \<and> lr_event_type row = ev
           \<and> validate co ev p = Inr (lr_payload row) \<and> pick_chain ev cn = Inr (lr_chain row))
    \<and> (\<exists>new. db_ledger db' = db_ledger db @ new)
    \<and> (isl res \<longrightarrow> isl (pick_chain ev cn) \<or> isl (validate co ev p)
         \<or> \<not> fst (kl_lock memory_ops (kl_key t [''lock'']) (kc_token call) (kc_times call) d))"
proof (cases "pick_chain ev cn")
  case (Inl e)
  with assms show ?thesis by (auto simp: kl_append_def expected_error_def intro!: exI [of _ db])
next
  case c: (Inr c)
  from pick_chain_Inr [OF c] have cc: "c \<in> set CHAINS" and ev: "ev \<noteq> ''chain.cross_anchor''" by auto
  show ?thesis
  proof (cases "validate co ev p")
    case (Inl e)
    with assms c show ?thesis by (auto simp: kl_append_def expected_error_def intro!: exI [of _ db])
  next
    case v: (Inr v)
    let ?lock = "kl_key t [''lock'']"
    obtain b d1 where l: "kl_lock memory_ops ?lock (kc_token call) (kc_times call) d = (b, d1)" by fastforce
    have h1: "kl_holds jc t d1 db"
      by (rule same_for_holds [OF h]) (use kl_lock_same [of _ d ?lock "kc_token call" "kc_times call"] l in simp)
    show ?thesis
    proof (cases b)
      case False
      with a c v l h1 good show ?thesis by (auto simp: kl_append_def expected_error_def Let_def intro!: exI [of _ db])
    next
      case True
      obtain row db1 where a1: "append_one H (kc_now call) db t c ev v (last_row db t c) = (row, db1)" by fastforce
      have wf: "ledger_wf db" using good by (simp add: kl_good_def)
      from kl_append_one_held [OF h1 wf cc jc a1] obtain d2 where
        d2: "kl_append_one memory_ops jc H (kc_now call) t c ev v d1 = (Inr row, d2)" and h2: "kl_holds jc t d2 db1" by blast
      have good1: "kl_good H t db1" by (rule kl_append_one_good [OF good a1 cc]) (use ev in simp)
      from kl_anchor_held [OF h2 good1 cc jc co len] obtain anchor d3 db2 where
        a2: "append_one H (kc_now' call) db1 t c ''chain.cross_anchor'' (anchor_payload db1 t c) (last_row db1 t c) = (anchor, db2)"
        and d3: "kl_anchor memory_ops jc co H (kc_now' call) t c d2 = (Inr anchor, d3)"
        and h3: "kl_holds jc t d3 db2" and good2: "kl_good H t db2" by blast
      have "res = Inr row" and d': "d' = ko_release memory_ops ?lock (kc_token call) d3"
        using a c v l True d2 d3 by (simp_all add: kl_append_def Let_def)
      moreover have "kl_holds jc t d' db2" unfolding d' by (rule same_for_holds [OF h3 release_same])
      ultimately show ?thesis
        using good2 v c append_one_simps [OF a1] append_one_simps [OF a2] by (intro exI [of _ db2]) simp
    qed
  qed
qed

lemma kl_append_same:
  assumes "plain_tenant t" "plain_tenant u" "t \<noteq> u"
  shows "same_for u d (snd (kl_append memory_ops jc co H call t ev p cn d))"
proof (cases "pick_chain ev cn")
  case c: (Inr c)
  show ?thesis
  proof (cases "validate co ev p")
    case v: (Inr v)
    let ?lock = "kl_key t [''lock'']"
    obtain b d1 where l: "kl_lock memory_ops ?lock (kc_token call) (kc_times call) d = (b, d1)" by fastforce
    with kl_lock_same [of u d ?lock "kc_token call" "kc_times call"] have s1: "same_for u d d1" by simp
    obtain r d2 where a: "kl_append_one memory_ops jc H (kc_now call) t c ev v d1 = (r, d2)" by fastforce
    with kl_append_one_same [OF assms, of d1] s1 have s2: "same_for u d d2" by (metis same_for_trans snd_conv)
    obtain q d3 where x: "kl_anchor memory_ops jc co H (kc_now' call) t c d2 = (q, d3)" by fastforce
    with kl_anchor_same [OF assms, of d2] s2 have s3: "same_for u d d3" by (metis same_for_trans snd_conv)
    show ?thesis
      using c v l a x s1 same_for_trans [OF s2 release_same [of u d2 ?lock "kc_token call"]]
        same_for_trans [OF s3 release_same [of u d3 ?lock "kc_token call"]]
      by (simp add: kl_append_def Let_def split: bool.splits sum.splits)
  qed (use c in \<open>simp add: kl_append_def same_for_refl\<close>)
qed (simp add: kl_append_def same_for_refl)

definition all_held :: "json_codec \<Rightarrow> (string \<Rightarrow> string) \<Rightarrow> (string \<Rightarrow> nat) \<Rightarrow> kv_data \<Rightarrow> bool" where
  \<comment> \<open>every tenant's keys hold a good ledger of so many rows\<close>
  "all_held jc H cnt d \<longleftrightarrow> (\<forall>t. plain_tenant t \<longrightarrow>
     (\<exists>db. kl_holds jc t d db \<and> kl_good H t db \<and> length (db_ledger db) = cnt t))"

lemma all_held_empty: "all_held jc H (\<lambda>_. 0) memory_kv"
proof -
  have zero: "''0'' = pr_int 0" by (simp add: pr_int_def pr_nat.simps dec_digit_def)
  have "kl_holds jc t memory_kv (empty_db [] []) \<and> kl_good H t (empty_db [] [])" for t
    by (simp add: kl_holds_def memory_kv_def empty_db_def lookup_or_def chain_rows_def zero kl_good_def ledger_wf_def
        chains_known_def dl_linked_def tenant_rows_def)
  then show ?thesis by (force simp: all_held_def empty_db_def)
qed

lemma kl_run_held:
  assumes "all_held jc H cnt d" "codec_ok jc" "coerces co" "\<And>x. length (H x) = 32" "\<forall>q \<in> set qs. plain_tenant (kq_tenant q)"
    and "kl_run memory_ops jc co H qs d = (rs, d')"
  shows "all_held jc H (\<lambda>t. cnt t + 2 * accepted_rows t qs rs) d' \<and> (\<forall>e. Inl e \<in> set rs \<longrightarrow> expected_error e)"
  using assms(1,5,6)
proof (induction qs arbitrary: cnt d rs)
  case (Cons q qs)
  let ?t = "kq_tenant q"
  obtain r d1 where a: "kl_serve memory_ops jc co H q d = (r, d1)" by fastforce
  obtain rs' where rs: "rs = r # rs'" and run: "kl_run memory_ops jc co H qs d1 = (rs', d')"
    using Cons.prems(3) a by (auto split: prod.splits)
  have pt: "plain_tenant ?t" using Cons.prems(2) by simp
  with Cons.prems(1) obtain db where h: "kl_holds jc ?t d db" "kl_good H ?t db" "length (db_ledger db) = cnt ?t"
    unfolding all_held_def by blast
  from kl_append_held [OF h(1,2) assms(2-4) a [unfolded kl_serve_def]] obtain db' where
    h': "kl_holds jc ?t d1 db'" "kl_good H ?t db'"
    and res: "case r of Inl e \<Rightarrow> expected_error e \<and> length (db_ledger db') = length (db_ledger db)
       | Inr row \<Rightarrow> length (db_ledger db') = length (db_ledger db) + 2 \<and> row \<in> set (db_ledger db') \<and> lr_event_type row = kq_event q
           \<and> validate co (kq_event q) (kq_payload q) = Inr (lr_payload row) \<and> pick_chain (kq_event q) (kq_chain q) = Inr (lr_chain row)"
    by blast
  let ?cnt = "\<lambda>t. cnt t + (if t = ?t \<and> \<not> isl r then 2 else 0)"
  have "all_held jc H ?cnt d1"
    unfolding all_held_def
  proof (intro allI impI)
    fix u assume u: "plain_tenant u"
    show "\<exists>db. kl_holds jc u d1 db \<and> kl_good H u db \<and> length (db_ledger db) = ?cnt u"
    proof (cases "u = ?t")
      case True
      with h' h(3) res show ?thesis by (intro exI [of _ db']) (auto split: sum.splits)
    next
      case False
      then have "same_for u d d1" using kl_append_same [OF pt u] a by (metis kl_serve_def snd_conv)
      with Cons.prems(1) u False kl_holds_same show ?thesis unfolding all_held_def by fastforce
    qed
  qed
  from Cons.IH [OF this _ run] Cons.prems(2)
  have ih: "all_held jc H (\<lambda>t. ?cnt t + 2 * accepted_rows t qs rs') d'" "\<forall>e. Inl e \<in> set rs' \<longrightarrow> expected_error e" by auto
  have "(\<lambda>t. ?cnt t + 2 * accepted_rows t qs rs') = (\<lambda>t. cnt t + 2 * accepted_rows t (q # qs) rs)"
    by (cases r) (auto simp: rs)
  with ih res show ?case by (auto simp: rs split: sum.splits)
qed simp

context kv_store
begin

lemma kl_run_view:
  assumes "ok s"
  shows "kl_run memory_ops jc co H qs (view s) = apsnd view (kl_run ops jc co H qs s) \<and> ok (snd (kl_run ops jc co H qs s))"
  using assms
proof (induction qs arbitrary: s)
  case (Cons q qs)
  obtain r s1 where a: "kl_serve ops jc co H q s = (r, s1)" by fastforce
  with kl_append_view [OF Cons.prems, of jc co H "kq_call q" "kq_tenant q" "kq_event q" "kq_payload q" "kq_chain q"]
  have m: "kl_serve memory_ops jc co H q (view s) = (r, view s1)" "ok s1" by (auto simp: kl_serve_def)
  obtain rs s2 where run: "kl_run ops jc co H qs s1 = (rs, s2)" by fastforce
  from Cons.IH [OF m(2)] run a m(1) show ?case by simp
qed simp

lemma history_verifies:
  assumes "ok s" "view s = memory_kv" "codec_ok jc" "coerces co" "\<And>x. length (H x) = 32"
    and "\<forall>q \<in> set qs. plain_tenant (kq_tenant q)" "plain_tenant t" "kl_run ops jc co H qs s = (rs, s')"
  shows "(\<exists>r. kl_verify ops jc H t s' = Inr r \<and> kr_ok r \<and> kr_checked r = 2 * accepted_rows t qs rs)
    \<and> (\<forall>e. Inl e \<in> set rs \<longrightarrow> expected_error e)"
proof -
  from kl_run_view [OF assms(1), of jc co H qs] assms(2,8)
  have m: "kl_run memory_ops jc co H qs memory_kv = (rs, view s')" "ok s'" by auto
  from kl_run_held [OF all_held_empty assms(3-6) m(1)] assms(7) obtain db where
    "kl_holds jc t (view s') db" "kl_good H t db" "length (db_ledger db) = 2 * accepted_rows t qs rs"
    and e: "\<forall>e. Inl e \<in> set rs \<longrightarrow> expected_error e"
    unfolding all_held_def by auto
  with kl_verify_held [OF this(1,2) assms(3)] e show ?thesis by (simp add: kl_verify_view [OF m(2)])
qed

end

definition new_file :: file_kv where
  "new_file = \<lparr>fk_file = None, fk_readable = True\<rparr>"

lemma new_file_view: "file_view new_file = memory_kv"
  by (simp add: file_view_def fk_read_def new_file_def no_file_def data_view_def memory_kv_def)

text \<open>C23. After any history of appends, refused and timed-out ones included, the ledger on the file store verifies
  for every tenant with exactly two rows for each append it accepted, a refusal is never one of a damaged
  store, and the in-process store gives the same answers throughout. Tenant names hold no colon.\<close>

theorem kv_history_verifies:
  assumes "codec_ok jc" "coerces co" "\<And>x. length (H x) = 32" "\<forall>q \<in> set qs. plain_tenant (kq_tenant q)" "plain_tenant t"
    and "kl_run file_ops jc co H qs new_file = (rs, s')"
  shows "(\<exists>r. kl_verify file_ops jc H t s' = Inr r \<and> kr_ok r \<and> kr_checked r = 2 * accepted_rows t qs rs)
    \<and> (\<forall>e. Inl e \<in> set rs \<longrightarrow> expected_error e) \<and> fst (kl_run memory_ops jc co H qs memory_kv) = rs"
proof -
  have ok: "fk_readable new_file" by (simp add: new_file_def)
  from disk.kl_run_view [OF ok, of jc co H qs] assms(6) have "fst (kl_run memory_ops jc co H qs memory_kv) = rs"
    by (simp add: new_file_view)
  with disk.history_verifies [OF ok new_file_view assms] show ?thesis by blast
qed

section \<open>A lock that has expired\<close>

text \<open>
  The lock's time to live does not end the holder's work. A writer that read the head, was delayed for more
  than ten seconds and then writes, after another took the expired lock and appended, breaks the chain:
  the ledger no longer verifies although nobody tampered with it.
\<close>

lemma expired_lock_is_taken:
  assumes "map_of (kd_locks d) key = Some (holder, expiry)" "expiry \<le> now"
  shows "fst (mk_acquire now key token ttl d)"
  using assms by (simp add: mk_acquire_def)

lemma kl_walk_None:
  assumes "\<forall>r \<in> set rows. lr_tenant_id r = t"
  shows "fst (kl_walk H c g n (map norm rows)) = None \<longleftrightarrow> linked H lr_prev_hash lr_record_hash (dl_body t) g rows"
  using assms
  by (induction rows arbitrary: g n) (auto simp: record_bytes_sorted compute_hash_def link_def dl_body_def)

lemma late_writer_breaks_chain:
  assumes h: "kl_holds jc t d db" and wf: "ledger_wf db" and c: "c \<in> set CHAINS" and jc: "codec_ok jc"
    and p: "kl_put memory_ops jc H now t c ev p (map_option norm stale) d = (res, d')"
    and moved: "(case stale of Some r \<Rightarrow> lr_record_hash r | None \<Rightarrow> dl_genesis H t)
      \<noteq> (case last_row db t c of Some r \<Rightarrow> lr_record_hash r | None \<Rightarrow> dl_genesis H t)"
  shows "\<exists>r. kl_verify memory_ops jc H t d' = Inr r \<and> \<not> kr_ok r"
proof -
  obtain row db' where a: "append_one H now db t c ev p stale = (row, db')" by fastforce
  note s = append_one_simps [OF a]
  from kl_put_held [OF h wf c a p] have h': "kl_holds jc t d' db'" by simp
  have "chain_rows t c (db_ledger db') = chain_rows t c (db_ledger db) @ [row]" by (simp add: s chain_rows_snoc)
  then have broken: "\<not> linked H lr_prev_hash lr_record_hash (dl_body t) (dl_genesis H t) (chain_rows t c (db_ledger db'))"
    using moved s(11) by (auto simp: linked_snoc chain_head_last_row)
  have ten: "\<forall>r \<in> set (chain_rows t x (db_ledger db')). lr_tenant_id r = t" for x by (simp add: chain_rows_def)
  have bad: "fst (kl_walk H c (dl_genesis H t) n (map norm (chain_rows t c (db_ledger db')))) \<noteq> None" for n
    using kl_walk_None [OF ten, of H c "dl_genesis H t" n c] broken by simp
  have cs: "''ctl'' \<in> set CHAINS" "''dp'' \<in> set CHAINS" "c = ''ctl'' \<or> c = ''dp''" using c by (auto simp: CHAINS_def)
  show ?thesis
  proof (cases "kl_walk H ''ctl'' (dl_genesis H t) 0 (map norm (chain_rows t ''ctl'' (db_ledger db')))")
    case walk: (Pair f n)
    show ?thesis
    proof (cases f)
      case None
      with walk bad [of 0] cs(3) have "c = ''dp''" by auto
      with bad [of n] obtain e m where
        "kl_walk H ''dp'' (dl_genesis H t) n (map norm (chain_rows t ''dp'' (db_ledger db'))) = (Some e, m)"
        by (cases "kl_walk H ''dp'' (dl_genesis H t) n (map norm (chain_rows t ''dp'' (db_ledger db')))") auto
      with walk None show ?thesis
        by (simp add: kl_verify_def kl_rows_held [OF h' _ jc] cs(1,2) Let_def)
    next
      case (Some e)
      with walk show ?thesis by (simp add: kl_verify_def kl_rows_held [OF h' _ jc] cs(1,2))
    qed
  qed
qed

section \<open>Samples\<close>

definition sample_codec :: json_codec where
  "sample_codec = \<lparr>jc_dumps = (\<lambda>p. put_json (sort_keys (JObj p))),
     jc_loads = (\<lambda>s. case get_json py_int_text (length s) s of Some (JObj p, []) \<Rightarrow> Some p | _ \<Rightarrow> None)\<rparr>"

lemma sample_codec_ok: "codec_ok sample_codec"
proof -
  have "get_json py_int_text (length (put_json j)) (put_json j) = Some (j, [])" for j
    using get_put_json [of py_int_text j "length (put_json j)" "[]"] by (simp add: py_int_text_pr_int)
  then show ?thesis by (simp add: codec_ok_def sample_codec_def sorted_fields_def del: put_json.simps)
qed

definition demo_append :: "string \<Rightarrow> kl_request" where
  "demo_append t = \<lparr>kq_call = \<lparr>kc_token = ''a'', kc_first = 0, kc_polls = [], kc_now = ''08:00'', kc_now' = ''08:01''\<rparr>, kq_tenant = t,
     kq_event = ''request.failed'', kq_payload = demo_failed, kq_chain = None\<rparr>"

lemma demo_accepted: "\<exists>row s'. kl_run file_ops sample_codec strict_coercion toy_digest [demo_append ''t''] new_file = ([Inr row], s')"
proof -
  let ?q = "demo_append ''t''"
  have ok: "fk_readable new_file" by (simp add: new_file_def)
  obtain res s' where r: "kl_append file_ops sample_codec strict_coercion toy_digest (kq_call ?q) (kq_tenant ?q) (kq_event ?q)
      (kq_payload ?q) (kq_chain ?q) new_file = (res, s')" by fastforce
  with disk.kl_append_view [OF ok, of sample_codec strict_coercion toy_digest "kq_call ?q" "kq_tenant ?q" "kq_event ?q"
      "kq_payload ?q" "kq_chain ?q"]
  have m: "kl_append memory_ops sample_codec strict_coercion toy_digest (kq_call ?q) (kq_tenant ?q) (kq_event ?q) (kq_payload ?q)
      (kq_chain ?q) memory_kv = (res, file_view s')" by (simp add: new_file_view)
  have "plain_tenant ''t''" by (simp add: plain_tenant_def)
  with all_held_empty [of sample_codec toy_digest] obtain db where
    db: "kl_holds sample_codec ''t'' memory_kv db" "kl_good toy_digest ''t'' db" unfolding all_held_def by blast
  have "pick_chain ''request.failed'' None = Inr ''dp''" by code_simp
  moreover have "validate strict_coercion ''request.failed'' demo_failed = Inr demo_failed" by code_simp
  moreover have "fst (kl_lock memory_ops k ''a'' [0] memory_kv)" for k by (simp add: memory_ops_def mk_acquire_def memory_kv_def)
  ultimately have "\<not> isl res"
    using kl_append_held [OF db sample_codec_ok strict_coerces toy_digest_length, of "kq_call ?q" "kq_event ?q" "kq_payload ?q"
        "kq_chain ?q" res "file_view s'"] m
    by (auto simp: demo_append_def kc_times_def)
  with r show ?thesis by (cases res) (auto simp: kl_serve_def)
qed

lemma kv_history_verifies_witness:
  "\<exists>row s' r. kl_run file_ops sample_codec strict_coercion toy_digest [demo_append ''t''] new_file = ([Inr row], s')
     \<and> kl_verify file_ops sample_codec toy_digest ''t'' s' = Inr r \<and> kr_ok r \<and> kr_checked r = 2"
proof -
  obtain row s' where run: "kl_run file_ops sample_codec strict_coercion toy_digest [demo_append ''t''] new_file = ([Inr row], s')"
    using demo_accepted by blast
  have plain: "\<forall>q \<in> set [demo_append ''t'']. plain_tenant (kq_tenant q)" "plain_tenant ''t''"
    by (simp_all add: demo_append_def plain_tenant_def)
  from kv_history_verifies [OF sample_codec_ok strict_coerces toy_digest_length plain run] run show ?thesis
    by (auto simp: demo_append_def)
qed

end
