(* ===== verification/PartAStore.thy ===== *)
theory PartAStore
  imports KvLedger PolicyStore
begin

text \<open>
  The gateway's own copy of the control plane's tables (\<^verbatim>\<open>gateway/part_a/store.py\<close>, and the attach step of
  \<^verbatim>\<open>control.py\<close>): tenants, actors and policies in the key-value store of \<open>KvStore\<close>, read back as the types
  the policy engine works on. The encoding of a list of groups and the YAML reader are parameters.
\<close>

section \<open>Errors and parameters\<close>

datatype pa_error =
    PolicyNotStored string
  | UnknownTenant string
  | BadStored string \<comment> \<open>a key is missing or a text does not parse: \<open>KeyError\<close>, \<open>ValueError\<close>\<close>
  | BadYaml store_error
  | BadFinding ctl_finding_error
  | EvidenceWriteFailed kl_error

record pa_codec =
  pc_dump :: "string list \<Rightarrow> string"
  pc_load :: "string \<Rightarrow> string list option"
  pc_yaml :: yaml_codec

definition groups_ok :: "pa_codec \<Rightarrow> bool" where
  \<comment> \<open>\<open>json.loads(json.dumps(groups))\<close> is the list again, and \<open>json.dumps\<close> is never empty\<close>
  "groups_ok cd \<longleftrightarrow> (\<forall>gs. pc_load cd (pc_dump cd gs) = Some gs \<and> pc_dump cd gs \<noteq> [])"

record pa_policy =
  pp_yaml :: string
  pp_version :: int
  pp_hash :: string

section \<open>Tenants\<close>

definition put_tenant :: "'s kv_ops \<Rightarrow> string \<Rightarrow> string option \<Rightarrow> 's \<Rightarrow> 's" where
  "put_tenant ops tenant parent s =
     ko_sadd ops TENANT_INDEX tenant
       (ko_hset_many ops (kl_key tenant [''tenant'']) [(''id'', tenant), (''parent_id'', case parent of None \<Rightarrow> [] | Some p \<Rightarrow> p)] s)"

definition tenant_exists :: "'s kv_ops \<Rightarrow> string \<Rightarrow> 's \<Rightarrow> bool" where
  "tenant_exists ops tenant s \<longleftrightarrow> ko_hgetall ops (kl_key tenant [''tenant'']) s \<noteq> []"

definition nonempty :: "string option \<Rightarrow> string option" where
  \<comment> \<open>\<open>value or None\<close>\<close>
  "nonempty v = (case v of None \<Rightarrow> None | Some s \<Rightarrow> if s = [] then None else Some s)"

definition parent_of :: "'s kv_ops \<Rightarrow> string \<Rightarrow> 's \<Rightarrow> string option" where
  "parent_of ops tenant s = nonempty (map_of (ko_hgetall ops (kl_key tenant [''tenant'']) s) ''parent_id'')"

section \<open>Actors\<close>

definition or_text :: "string option \<Rightarrow> string \<Rightarrow> string" where
  \<comment> \<open>\<open>value or default\<close>\<close>
  "or_text v d = (case nonempty v of None \<Rightarrow> d | Some s \<Rightarrow> s)"

definition scope_of :: "string \<Rightarrow> actor_scope" where
  \<comment> \<open>the text is kept as it is by the code; only these two are written\<close>
  "scope_of s = (if s = ''organisation'' then ScopeOrganisation else ScopeTenant)"

definition put_actor :: "pa_codec \<Rightarrow> 's kv_ops \<Rightarrow> string \<Rightarrow> string \<Rightarrow> string \<Rightarrow> string \<Rightarrow> string list \<Rightarrow> string \<Rightarrow> 's \<Rightarrow> 's" where
  "put_actor cd ops tenant actor label role groups scope s =
     ko_hset_many ops (kl_key tenant [''actors'', actor])
       [(''id'', actor), (''tenant_id'', tenant), (''label'', if label = [] then actor else label), (''role'', role),
        (''groups'', pc_dump cd groups), (''scope'', scope)] s"

definition get_actor :: "pa_codec \<Rightarrow> 's kv_ops \<Rightarrow> string \<Rightarrow> string \<Rightarrow> 's \<Rightarrow> pa_error + ctl_actor option" where
  "get_actor cd ops tenant actor s =
     (let row = ko_hgetall ops (kl_key tenant [''actors'', actor]) s in
      if row = [] then Inr None
      else case (map_of row ''id'', map_of row ''tenant_id'', pc_load cd (or_text (map_of row ''groups'') ''[]'')) of
        (Some i, Some t, Some gs) \<Rightarrow>
          Inr (Some \<lparr>ca_id = i, ca_tenant_id = t, ca_label = or_text (map_of row ''label'') i,
            ca_role = or_text (map_of row ''role'') ''engineer'', ca_scope = scope_of (or_text (map_of row ''scope'') ''tenant''),
            ca_groups = gs, ca_registered = True, ca_source = Session, ca_request_tenant_id = Some tenant\<rparr>)
      | _ \<Rightarrow> Inl (BadStored actor))"

definition pa_unregistered :: "string \<Rightarrow> string \<Rightarrow> ctl_actor" where
  \<comment> \<open>the code writes the source \<open>synthetic\<close>, which the declared type does not have\<close>
  "pa_unregistered tenant actor =
     \<lparr>ca_id = actor, ca_tenant_id = tenant, ca_label = actor, ca_role = ''unknown'', ca_scope = ScopeTenant, ca_groups = [],
      ca_registered = False, ca_source = UnregisteredSource, ca_request_tenant_id = Some tenant\<rparr>"

section \<open>Policies\<close>

definition put_policy :: "(string \<Rightarrow> string) \<Rightarrow> 's kv_ops \<Rightarrow> string \<Rightarrow> string \<Rightarrow> int \<Rightarrow> 's \<Rightarrow> pa_policy \<times> 's" where
  "put_policy H ops tenant yaml version s =
     (let h = policy_row_hash H tenant (JInt version) yaml in
      (\<lparr>pp_yaml = yaml, pp_version = version, pp_hash = h\<rparr>,
       ko_hset_many ops (kl_key tenant [''policy'']) [(''yaml'', yaml), (''version'', pr_int version), (''content_hash'', h)] s))"

definition get_policy :: "'s kv_ops \<Rightarrow> string \<Rightarrow> 's \<Rightarrow> pa_error + pa_policy option" where
  "get_policy ops tenant s =
     (let row = ko_hgetall ops (kl_key tenant [''policy'']) s in
      if row = [] then Inr None
      else case (map_of row ''yaml'', Option.bind (map_of row ''version'') py_int_text, map_of row ''content_hash'') of
        (Some y, Some v, Some h) \<Rightarrow> Inr (Some \<lparr>pp_yaml = y, pp_version = v, pp_hash = h\<rparr>)
      | _ \<Rightarrow> Inl (BadStored tenant))"

definition parsed :: "pa_codec \<Rightarrow> pa_policy \<Rightarrow> pa_error + policy" where
  "parsed cd p = (case parse_policy (pc_yaml cd) (pp_yaml p) of Inl e \<Rightarrow> Inl (BadYaml e) | Inr q \<Rightarrow> Inr q)"

definition load_policies :: "pa_codec \<Rightarrow> 's kv_ops \<Rightarrow> string \<Rightarrow> 's \<Rightarrow> pa_error + resolved_policies" where
  "load_policies cd ops tenant s =
     rbind (get_policy ops tenant s) (\<lambda>found.
       case found of
         None \<Rightarrow> Inl (PolicyNotStored tenant)
       | Some own \<Rightarrow>
           (case parent_of ops tenant s of
              None \<Rightarrow> rbind (parsed cd own) (\<lambda>org. Inr
                \<lparr>rp_org = org, rp_bu = None, rp_org_tenant_id = tenant, rp_bu_tenant_id = None, rp_degraded_reasons = [],
                 rp_org_policy_content_hash = pp_hash own, rp_bu_policy_content_hash = None\<rparr>)
            | Some parent_id \<Rightarrow> rbind (get_policy ops parent_id s) (\<lambda>above.
                case above of
                  None \<Rightarrow> rbind (parsed cd own) (\<lambda>org. Inr
                    \<lparr>rp_org = org, rp_bu = None, rp_org_tenant_id = tenant, rp_bu_tenant_id = None, rp_degraded_reasons = [],
                     rp_org_policy_content_hash = pp_hash own, rp_bu_policy_content_hash = None\<rparr>)
                | Some up \<Rightarrow> rbind (parsed cd up) (\<lambda>org. rbind (parsed cd own) (\<lambda>bu. Inr
                    \<lparr>rp_org = org, rp_bu = Some bu, rp_org_tenant_id = parent_id, rp_bu_tenant_id = Some tenant,
                     rp_degraded_reasons = [], rp_org_policy_content_hash = pp_hash up,
                     rp_bu_policy_content_hash = Some (pp_hash own)\<rparr>)))))"

section \<open>Attaching\<close>

record remote_actor =
  ra_id :: string
  ra_tenant :: string
  ra_role :: string
  ra_groups :: "string list"
  ra_label :: string

record control_host =
  ch_actor :: "string \<Rightarrow> string \<Rightarrow> remote_actor option" \<comment> \<open>\<open>fetch_actor\<close>; \<open>None\<close> is \<open>ControlUnreachable\<close>\<close>
  ch_policy :: "string \<Rightarrow> string option" \<comment> \<open>\<open>fetch_policy\<close>\<close>

definition attach_hosted :: "pa_codec \<Rightarrow> (string \<Rightarrow> string) \<Rightarrow> 's kv_ops \<Rightarrow> control_host \<Rightarrow> string \<Rightarrow> string \<Rightarrow> 's \<Rightarrow> bool \<times> 's" where
  \<comment> \<open>\<open>initialise_locally\<close> with a hosted control plane; \<open>False\<close> is the exception\<close>
  "attach_hosted cd H ops host actor tenant s =
     (case ch_actor host actor tenant of
        None \<Rightarrow> (False, s)
      | Some r \<Rightarrow>
          (let s1 = put_tenant ops (ra_tenant r) None s;
               s2 = put_actor cd ops (ra_tenant r) (ra_id r) (ra_label r) (ra_role r) (ra_groups r) ''tenant'' s1
           in (True, case ch_policy host (ra_tenant r) of
                None \<Rightarrow> s2
              | Some y \<Rightarrow> if y = [] then s2 else snd (put_policy H ops (ra_tenant r) y 1 s2))))"

section \<open>On every store\<close>

context kv_store
begin

lemma put_tenant_view:
  assumes "ok s"
  shows "view (put_tenant ops t p s) = put_tenant memory_ops t p (view s) \<and> ok (put_tenant ops t p s)"
  using assms by (simp add: put_tenant_def sadd hset_many ok_sadd ok_hset memory_ops_def)

lemma tenant_exists_view: "ok s \<Longrightarrow> tenant_exists ops t s = tenant_exists memory_ops t (view s)"
  by (simp add: tenant_exists_def hgetall memory_ops_def)

lemma parent_of_view: "ok s \<Longrightarrow> parent_of ops t s = parent_of memory_ops t (view s)"
  by (simp add: parent_of_def hgetall memory_ops_def)

lemma put_actor_view:
  assumes "ok s"
  shows "view (put_actor cd ops t a l r g sc s) = put_actor cd memory_ops t a l r g sc (view s) \<and> ok (put_actor cd ops t a l r g sc s)"
  using assms by (simp add: put_actor_def hset_many ok_hset memory_ops_def)

lemma get_actor_view: "ok s \<Longrightarrow> get_actor cd ops t a s = get_actor cd memory_ops t a (view s)"
  by (simp add: get_actor_def hgetall memory_ops_def)

lemma put_policy_view:
  assumes "ok s"
  shows "put_policy H memory_ops t y v (view s) = apsnd view (put_policy H ops t y v s) \<and> ok (snd (put_policy H ops t y v s))"
  using assms by (simp add: put_policy_def Let_def hset_many ok_hset memory_ops_def)

lemma get_policy_view: "ok s \<Longrightarrow> get_policy ops t s = get_policy memory_ops t (view s)"
  by (simp add: get_policy_def hgetall memory_ops_def)

lemma load_policies_view: "ok s \<Longrightarrow> load_policies cd ops t s = load_policies cd memory_ops t (view s)"
  by (simp add: load_policies_def get_policy_view parent_of_view cong: option.case_cong)

end

section \<open>What is stored is what is read\<close>

lemma hgetall_update:
  "ko_hgetall memory_ops k (mk_hset_many k' m d) = (if k = k' then dict_update m (lookup_or [] (kd_h d) k') else lookup_or [] (kd_h d) k)"
  by (simp add: memory_ops_def mk_hgetall_def mk_hset_many_def lookup_or_update)

lemma map_of_dict_update: "distinct (map fst m) \<Longrightarrow> map_of (dict_update m d) = map_of d ++ map_of m"
  unfolding dict_update_def
proof (induction m arbitrary: d)
  case (Cons kv m)
  then have "map_of m (fst kv) = None" by (auto simp: map_of_eq_None_iff)
  with Cons show ?case by (auto simp: update_conv' map_add_def split: option.splits prod.splits)
qed simp

lemma dict_update_Nil_iff: "dict_update m d = [] \<longleftrightarrow> m = [] \<and> d = []"
proof -
  have "AList.update k v d \<noteq> []" for k v and d :: "('a \<times> 'b) list" by (cases d) auto
  then show ?thesis unfolding dict_update_def by (induction m arbitrary: d) (auto split: prod.splits)
qed

lemma get_put_policy:
  "get_policy memory_ops t (snd (put_policy H memory_ops t y v d)) = Inr (Some (fst (put_policy H memory_ops t y v d)))"
proof -
  have s: "snd (put_policy H memory_ops t y v d) = mk_hset_many (kl_key t [''policy''])
      [(''yaml'', y), (''version'', pr_int v), (''content_hash'', policy_row_hash H t (JInt v) y)] d"
    by (simp add: put_policy_def Let_def memory_ops_def)
  show ?thesis unfolding get_policy_def s hgetall_update
    by (simp add: dict_update_Nil_iff map_of_dict_update py_int_text_pr_int put_policy_def Let_def map_add_def)
qed

lemma get_put_actor:
  assumes "groups_ok cd" "role \<noteq> []" "actor \<noteq> []"
  shows "get_actor cd memory_ops t actor (put_actor cd memory_ops t actor label role groups scope d) = Inr (Some
    \<lparr>ca_id = actor, ca_tenant_id = t, ca_label = if label = [] then actor else label, ca_role = role,
     ca_scope = scope_of (if scope = [] then ''tenant'' else scope), ca_groups = groups, ca_registered = True,
     ca_source = Session, ca_request_tenant_id = Some t\<rparr>)"
proof -
  have s: "put_actor cd memory_ops t actor label role groups scope d = mk_hset_many (kl_key t [''actors'', actor])
      [(''id'', actor), (''tenant_id'', t), (''label'', if label = [] then actor else label), (''role'', role),
        (''groups'', pc_dump cd groups), (''scope'', scope)] d"
    by (simp add: put_actor_def memory_ops_def)
  show ?thesis unfolding get_actor_def s hgetall_update using assms
    by (simp add: dict_update_Nil_iff map_of_dict_update map_add_def or_text_def nonempty_def groups_ok_def Let_def)
qed

lemma parent_put_tenant: "parent_of memory_ops t (put_tenant memory_ops t p d) = nonempty p"
proof -
  have "ko_hgetall memory_ops (kl_key t [''tenant'']) (put_tenant memory_ops t p d)
      = ko_hgetall memory_ops (kl_key t [''tenant'']) (mk_hset_many (kl_key t [''tenant'']) [(''id'', t), (''parent_id'', case p of None \<Rightarrow> [] | Some p \<Rightarrow> p)] d)"
    by (simp add: put_tenant_def memory_ops_def mk_sadd_def mk_hgetall_def)
  then show ?thesis unfolding parent_of_def hgetall_update
    by (simp add: map_of_dict_update map_add_def nonempty_def split: option.split)
qed

section \<open>Attaching forgets the parent\<close>

text \<open>
  Attaching as somebody of a business unit writes the unit as a tenant without a parent: from then on the
  unit's policy stands in the place of the organisation's, with the unit's own mode, and the
  organisation's rules are not applied to it.
\<close>

lemma put_other_key:
  assumes "k \<noteq> kl_key t [''tenant'']"
  shows "lookup_or [] (kd_h (put_tenant memory_ops t p d)) k = lookup_or [] (kd_h d) k"
  using assms by (simp add: put_tenant_def memory_ops_def mk_sadd_def mk_hset_many_def lookup_or_update)

lemma attached_unit_has_no_parent:
  assumes "ch_actor host actor t = Some r" "ra_tenant r = t"
  shows "parent_of memory_ops t (snd (attach_hosted cd H memory_ops host actor t d)) = None"
proof -
  have "parent_of memory_ops t (put_actor cd memory_ops t a l ro g sc e) = parent_of memory_ops t e" for a l ro g sc e
    by (simp add: parent_of_def put_actor_def memory_ops_def mk_hset_many_def mk_hgetall_def lookup_or_update kl_key_inj)
  moreover have "parent_of memory_ops t (snd (put_policy H memory_ops t y v e)) = parent_of memory_ops t e" for y v e
    by (simp add: parent_of_def put_policy_def Let_def memory_ops_def mk_hset_many_def mk_hgetall_def lookup_or_update kl_key_inj)
  ultimately show ?thesis using assms parent_put_tenant [of t None d]
    by (simp add: attach_hosted_def Let_def nonempty_def split: option.split)
qed

end
