(* ===== verification/PartAContext.thy ===== *)
theory PartAContext
  imports PartAStore
begin

text \<open>
  One request's pass through the control plane inside the gateway (\<^verbatim>\<open>gateway/part_a/context.py\<close>): who is
  asking, which rules apply, what is applied, and the record that is written before anything is done.
  \<open>pa_env\<close> holds what the process is built with; the mode the context carries is passed along.
\<close>

section \<open>Outcomes\<close>

record pa_env =
  pe_codec :: pa_codec
  pe_json :: json_codec
  pe_coerce :: coercion
  pe_H :: "string \<Rightarrow> string"

record outcome =
  oc_action :: action
  oc_actor :: ctl_actor
  oc_pairs :: "(ctl_finding \<times> ctl_decision) list"
  oc_policies :: resolved_policies
  oc_leg :: leg
  oc_intended :: action
  oc_degraded :: "string list"

definition blocked :: "outcome \<Rightarrow> bool" where "blocked oc \<longleftrightarrow> oc_action oc = Block"

definition finding_classes :: "outcome \<Rightarrow> string list" where
  "finding_classes oc = sort (remdups (map (\<lambda>p. cf_class (fst p)) (oc_pairs oc)))"

definition finding_paths :: "outcome \<Rightarrow> string list" where
  "finding_paths oc = sort (remdups (map (\<lambda>p. cf_path (fst p)) (oc_pairs oc)))"

definition deciding :: "outcome \<Rightarrow> ctl_decision option" where
  \<comment> \<open>the first decision with the intended action\<close>
  "deciding oc = map_option snd (find (\<lambda>p. cd_action (snd p) = oc_intended oc) (oc_pairs oc))"

definition oc_rule_index :: "outcome \<Rightarrow> nat option" where
  "oc_rule_index oc = (case deciding oc of None \<Rightarrow> None | Some d \<Rightarrow> cd_rule_index d)"

definition oc_rule_scope :: "outcome \<Rightarrow> rule_scope" where
  "oc_rule_scope oc = (case deciding oc of None \<Rightarrow> ScDefault | Some d \<Rightarrow> cd_rule_scope d)"

definition oc_exception_applied :: "outcome \<Rightarrow> bool" where
  "oc_exception_applied oc = list_ex (\<lambda>p. cd_exception_applied (snd p)) (oc_pairs oc)"

fun scope_text :: "rule_scope \<Rightarrow> string" where
  "scope_text ScDefault = ''default''"
| "scope_text ScOrg = ''org''"
| "scope_text ScBu = ''bu''"
| "scope_text ScException = ''exception''"

fun leg_text :: "leg \<Rightarrow> string" where
  "leg_text Outbound = ''outbound''" | "leg_text Inbound = ''inbound''"

section \<open>Who and what\<close>

definition pa_resolve :: "pa_env \<Rightarrow> 's kv_ops \<Rightarrow> string \<Rightarrow> string \<Rightarrow> 's \<Rightarrow> pa_error + ctl_actor" where
  "pa_resolve env ops tenant actor s =
     (if \<not> tenant_exists ops tenant s then Inl (UnknownTenant tenant)
      else rbind (get_actor (pe_codec env) ops tenant actor s) (\<lambda>found.
        Inr (case found of Some a \<Rightarrow> a | None \<Rightarrow> pa_unregistered tenant actor)))"

definition applied_action :: "policy_mode \<Rightarrow> action \<Rightarrow> action" where
  "applied_action mode act =
     (let applied = (if act = Tokenize then Mask else act) in
      if mode = Shadow \<and> applied \<in> {Block, Mask} then Allow else applied)"

definition pa_decide :: "pa_env \<Rightarrow> 's kv_ops \<Rightarrow> ctl_finding list \<Rightarrow> ctl_actor \<Rightarrow> leg \<Rightarrow> string option \<Rightarrow> 's
    \<Rightarrow> pa_error + outcome \<times> policy_mode" where
  \<comment> \<open>with the mode the context has from then on\<close>
  "pa_decide env ops findings actor leg dst s =
     rbind (load_policies (pe_codec env) ops (request_tenant actor) s) (\<lambda>policies.
       let pairs = decide_all (rp_org policies) actor findings leg (rp_bu policies) dst [];
           act = overall_action pairs (p_default (rp_org policies));
           mode = p_mode (rp_org policies)
       in Inr (\<lparr>oc_action = applied_action mode act, oc_actor = actor, oc_pairs = pairs, oc_policies = policies,
            oc_leg = leg, oc_intended = act,
            oc_degraded = (if act = Tokenize then [''tokenize_needs_vault''] else []) @ rp_degraded_reasons policies\<rparr>, mode))"

section \<open>Proof\<close>

definition opt_int :: "nat option \<Rightarrow> json" where
  "opt_int v = (case v of None \<Rightarrow> JNull | Some n \<Rightarrow> JInt (int n))"

definition opt_str :: "string option \<Rightarrow> json" where
  "opt_str v = (case v of None \<Rightarrow> JNull | Some s \<Rightarrow> JStr s)"

definition decided_payload :: "outcome \<Rightarrow> string \<Rightarrow> string \<Rightarrow> policy_mode \<Rightarrow> fields" where
  "decided_payload oc request_id model mode =
     (let policies = oc_policies oc in
      [(''request_id'', JStr request_id),
       (''actor_id'', JStr (ca_id (oc_actor oc))),
       (''actor_registered'', JBool (ca_registered (oc_actor oc))),
       (''leg'', JStr (leg_text (oc_leg oc))),
       (''decision_action'', JStr (action_text (oc_intended oc))),
       (''applied_action'', JStr (action_text (oc_action oc))),
       (''mode'', JStr (mode_text mode)),
       (''rule_index'', opt_int (oc_rule_index oc)),
       (''rule_scope'', JStr (scope_text (oc_rule_scope oc))),
       (''org_policy_version'', JInt (int (p_version (rp_org policies)))),
       (''org_policy_content_hash'', JStr (rp_org_policy_content_hash policies)),
       (''bu_policy_version'', opt_int (map_option p_version (rp_bu policies))),
       (''bu_policy_content_hash'', opt_str (rp_bu_policy_content_hash policies)),
       (''exception_applied'', JBool (oc_exception_applied oc)),
       (''finding_classes'', JList (map JStr (finding_classes oc))),
       (''finding_paths'', JList (map JStr (finding_paths oc))),
       (''upstream_model'', JStr model),
       (''degraded_reasons'', JList (map JStr (oc_degraded oc)))])"

definition pa_record :: "pa_env \<Rightarrow> 's kv_ops \<Rightarrow> kl_call \<Rightarrow> outcome \<Rightarrow> string \<Rightarrow> string \<Rightarrow> policy_mode \<Rightarrow> 's
    \<Rightarrow> (pa_error + ledger_row) \<times> 's" where
  "pa_record env ops call oc request_id model mode s =
     (case kl_append ops (pe_json env) (pe_coerce env) (pe_H env) call (request_tenant (oc_actor oc)) ''request.decided''
             (decided_payload oc request_id model mode) None s of
        (Inl e, s1) \<Rightarrow> (Inl (EvidenceWriteFailed e), s1)
      | (Inr row, s1) \<Rightarrow> (Inr row, s1))"

definition failed_payload :: "string \<Rightarrow> string \<Rightarrow> string \<Rightarrow> string \<Rightarrow> int \<Rightarrow> nat option \<Rightarrow> fields" where
  "failed_payload request_id stage code model org_version bu_version =
     [(''request_id'', JStr request_id), (''stage'', JStr stage), (''code'', JStr code), (''upstream_model'', JStr model),
      (''org_policy_version'', JInt org_version), (''bu_policy_version'', opt_int bu_version)]"

definition pa_record_failure :: "pa_env \<Rightarrow> 's kv_ops \<Rightarrow> kl_call \<Rightarrow> string \<Rightarrow> fields \<Rightarrow> 's \<Rightarrow> (kl_error + ledger_row) \<times> 's" where
  "pa_record_failure env ops call tenant payload s =
     kl_append ops (pe_json env) (pe_coerce env) (pe_H env) call tenant ''request.failed'' payload None s"

section \<open>Applied and intended\<close>

lemma applied_action_Enforce: "applied_action Enforce a = (if a = Tokenize then Mask else a)"
  by (simp add: applied_action_def)

lemma applied_action_Shadow: "applied_action Shadow a = (if a = Warn then Warn else Allow)"
  by (cases a) (simp_all add: applied_action_def)

lemma applied_not_token: "applied_action m a \<noteq> Tokenize"
  by (cases m; cases a) (simp_all add: applied_action_def)

lemma applied_Enforce_mono: "a \<le> b \<Longrightarrow> applied_action Enforce a \<le> applied_action Enforce b"
  by (cases a; cases b) (simp_all add: applied_action_Enforce action_order)

lemma applied_Enforce_ge: "a \<le> applied_action Enforce a"
  by (cases a) (simp_all add: applied_action_Enforce action_order)

lemma foldl_max_start: "a \<le> foldl max a as" for a :: "'a :: linorder"
  using foldl_max_ge by blast

lemma foldl_max_member: "x \<in> set as \<Longrightarrow> x \<le> foldl max a as" for a :: "'a :: linorder"
  using foldl_max_ge by blast

lemma foldl_max_in: "foldl max a as \<in> insert a (set as)" for a :: "'a :: linorder"
proof (induction as arbitrary: a)
  case (Cons b as)
  from Cons.IH [of "max a b"] show ?case by (auto simp: max_def split: if_splits)
qed simp

lemma overall_ge:
  assumes "(f, d) \<in> set pairs"
  shows "cd_action d \<le> overall_action pairs dflt"
proof (cases pairs)
  case (Cons p ps)
  with assms have "cd_action d = cd_action (snd p) \<or> cd_action d \<in> set (map (\<lambda>q. cd_action (snd q)) ps)" by force
  with Cons show ?thesis
    by (auto simp: overall_action_def strongest_eq_foldl_max simp del: set_map intro: foldl_max_start foldl_max_member)
qed (use assms in simp)

lemma overall_in: "pairs \<noteq> [] \<Longrightarrow> \<exists>(f, d) \<in> set pairs. overall_action pairs dflt = cd_action d"
proof -
  assume "pairs \<noteq> []"
  then obtain p ps where p: "pairs = p # ps" by (cases pairs) auto
  have "overall_action pairs dflt \<in> insert (cd_action (snd p)) (set (map (\<lambda>q. cd_action (snd q)) ps))"
    unfolding p overall_action_def using foldl_max_in [of "cd_action (snd p)" "map (\<lambda>q. cd_action (snd q)) ps"]
    by (simp add: strongest_eq_foldl_max)
  then show ?thesis by (auto simp: p)
qed

lemma pa_decide_Inr:
  assumes "pa_decide env ops fs a leg dst s = Inr (oc, m)"
  shows "\<exists>policies. load_policies (pe_codec env) ops (request_tenant a) s = Inr policies \<and> oc_policies oc = policies
    \<and> m = p_mode (rp_org policies) \<and> oc_actor oc = a \<and> oc_leg oc = leg
    \<and> oc_pairs oc = decide_all (rp_org policies) a fs leg (rp_bu policies) dst []
    \<and> oc_intended oc = overall_action (oc_pairs oc) (p_default (rp_org policies))
    \<and> oc_action oc = applied_action m (oc_intended oc)
    \<and> oc_degraded oc = (if oc_intended oc = Tokenize then [''tokenize_needs_vault''] else []) @ rp_degraded_reasons policies"
  using assms by (auto simp: pa_decide_def Let_def rbind_def split: sum.splits)

text \<open>The rule a record names is the one whose decision the request's action is.\<close>

lemma deciding_exists:
  assumes "pa_decide env ops fs a leg dst s = Inr (oc, m)" "fs \<noteq> []"
  shows "\<exists>f d. (f, d) \<in> set (oc_pairs oc) \<and> deciding oc = Some d \<and> cd_action d = oc_intended oc"
proof -
  from pa_decide_Inr [OF assms(1)] assms(2) have ne: "oc_pairs oc \<noteq> []"
    and i: "\<exists>x. oc_intended oc = overall_action (oc_pairs oc) x" by (auto simp: decide_all_def)
  then obtain x where "oc_intended oc = overall_action (oc_pairs oc) x" by blast
  with overall_in [OF ne, of x] obtain f d where fd: "(f, d) \<in> set (oc_pairs oc)" "cd_action d = oc_intended oc" by auto
  then obtain p where p: "find (\<lambda>p. cd_action (snd p) = oc_intended oc) (oc_pairs oc) = Some p"
    by (cases "find (\<lambda>p. cd_action (snd p) = oc_intended oc) (oc_pairs oc)") (auto simp: find_None_iff)
  then have "p \<in> set (oc_pairs oc)" "cd_action (snd p) = oc_intended oc" by (auto simp: find_Some_iff)
  with p show ?thesis by (cases p) (auto simp: deciding_def)
qed

end
