(* ===== verification/PartAHistory.thy ===== *)
theory PartAHistory
  imports PartAContext SampleCodec
begin

text \<open>
  Requests and administration over one store: every step is an operation of \<open>PartAStore\<close> or one request as
  \<^verbatim>\<open>part_a/session.py\<close> and the gateway run it, resolve, decide, record, and only then answer. The invariant is
  that each tenant's keys hold a good ledger with the rows of all answers given so far.
\<close>

section \<open>The record a decision leaves\<close>

definition decided_record :: "outcome \<Rightarrow> string \<Rightarrow> string \<Rightarrow> policy_mode \<Rightarrow> fields" where
  "decided_record oc request_id model mode =
     butlast (decided_payload oc request_id model mode)
     @ [(''degraded_reasons'', JList (map JStr (sort (remdups (oc_degraded oc))))), (''truncated'', JBool False)]"

definition recordable :: "outcome \<Rightarrow> bool" where
  \<comment> \<open>the hashes are SHA-256 texts, and no class or path is longer than the schema admits\<close>
  "recordable oc \<longleftrightarrow> hex64 (rp_org_policy_content_hash (oc_policies oc))
     \<and> (case rp_bu_policy_content_hash (oc_policies oc) of None \<Rightarrow> True | Some h \<Rightarrow> hex64 h)
     \<and> (\<forall>(f, d) \<in> set (oc_pairs oc). code_points (cf_class f) \<le> 200 \<and> code_points (cf_path f) \<le> 200)"

lemma coerces_keep: "coerces co \<Longrightarrow> has_type t j \<Longrightarrow> co t j = Some j"
  by (simp add: coerces_def)

lemma no_free_text_strs:
  "no_free_text data (JList (map JStr ss)) = (if \<exists>s \<in> set ss. 200 < code_points s then None else Some (JList (map JStr ss)))"
  by (auto simp: no_free_text_def)

lemma classes_set: "set (finding_classes oc) = cf_class ` fst ` set (oc_pairs oc)"
  by (auto simp: finding_classes_def)

lemma paths_set: "set (finding_paths oc) = cf_path ` fst ` set (oc_pairs oc)"
  by (auto simp: finding_paths_def)

lemma leg_texts: "leg_text l \<in> {''outbound'', ''inbound''}" by (cases l) simp_all
lemma mode_texts: "mode_text m \<in> {''shadow'', ''enforce''}" by (cases m) simp_all
lemma action_texts: "action_text a \<in> {''allow'', ''warn'', ''tokenize'', ''mask'', ''block''}" by (cases a) simp_all
lemma applied_texts: "a \<noteq> Tokenize \<Longrightarrow> action_text a \<in> {''allow'', ''warn'', ''mask'', ''block''}" by (cases a) simp_all
lemma opt_int_type: "has_type (FOpt FInt) (opt_int v)" by (cases v) (simp_all add: opt_int_def)
lemma opt_str_type: "has_type (FOpt FStr) (opt_str v)" by (cases v) (simp_all add: opt_str_def)
lemma strs_type: "has_type FStrList (JList (map JStr ss))" by (simp add: list_all_iff)
lemma str_of_JStr: "map str_of (map JStr ss) = ss" by (induction ss) simp_all

lemma validate_decided:
  assumes co: "coerces co" and act: "oc_action oc \<noteq> Tokenize"
  shows "validate co ''request.decided'' (decided_payload oc rid model mode) =
    (if recordable oc then Inr (decided_record oc rid model mode) else Inl (ValidationFailed ''request.decided''))"
proof -
  note keep = coerces_keep [OF co]
  have types: "co LEG_T (JStr (leg_text l)) = Some (JStr (leg_text l))"
    "co DECISION_ACTION (JStr (action_text a)) = Some (JStr (action_text a))"
    "co APPLIED_ACTION (JStr (action_text (oc_action oc))) = Some (JStr (action_text (oc_action oc)))"
    "co MODE (JStr (mode_text m)) = Some (JStr (mode_text m))"
    "co (FOpt FInt) (opt_int v) = Some (opt_int v)" "co (FOpt FStr) (opt_str w) = Some (opt_str w)"
    "co FStrList (JList (map JStr ss)) = Some (JList (map JStr ss))" "co FStr (JStr s) = Some (JStr s)"
    "co FInt (JInt i) = Some (JInt i)" "co FBool (JBool b) = Some (JBool b)" for l a m v w ss s i b
    by (rule keep; (rule opt_int_type opt_str_type strs_type
      | simp add: LEG_T_def DECISION_ACTION_def APPLIED_ACTION_def MODE_def leg_texts [simplified] action_texts [simplified]
          applied_texts [OF act, simplified] mode_texts [simplified]))+
  have keys: "\<not> (\<exists>k \<in> fst ` set (decided_payload oc rid model mode). k \<notin> fs_name ` set RequestDecided)"
    by (simp add: decided_payload_def Let_def RequestDecided_def)
  have hash: "check_hash data (JStr h) = (if hex64 h then Some (JStr h) else None)"
    "check_hash data (opt_str w) = (if case w of None \<Rightarrow> True | Some h \<Rightarrow> hex64 h then Some (opt_str w) else None)" for data h w
    by (simp_all add: check_hash_def opt_str_def split: option.split)
  have free: "no_free_text data (JList (map JStr (finding_classes oc))) =
      (if \<forall>(f, d) \<in> set (oc_pairs oc). code_points (cf_class f) \<le> 200 then Some (JList (map JStr (finding_classes oc))) else None)"
    "no_free_text data (JList (map JStr (finding_paths oc))) =
      (if \<forall>(f, d) \<in> set (oc_pairs oc). code_points (cf_path f) \<le> 200 then Some (JList (map JStr (finding_paths oc))) else None)" for data
    unfolding no_free_text_strs classes_set paths_set by (auto simp: split_beta not_le [symmetric])
  have sorted: "sorted_unique data (JList (map JStr ss)) = Some (JList (map JStr (sort (remdups ss))))" for data ss
    by (simp add: sorted_unique_def str_of_JStr del: map_map)
  have "validate co ''request.decided'' (decided_payload oc rid model mode) =
    (case build_model co RequestDecided (decided_payload oc rid model mode) [] of
       None \<Rightarrow> Inl (ValidationFailed ''request.decided'') | Some p \<Rightarrow> Inr p)"
    using keys by (simp add: validate_def REGISTRY_def run_model_def split: option.split)
  also have "build_model co RequestDecided (decided_payload oc rid model mode) [] =
    (if recordable oc then Some (decided_record oc rid model mode) else None)"
    unfolding RequestDecided_def decided_payload_def decided_record_def recordable_def Let_def
    by (auto simp: types hash free sorted no_check_def split: option.splits)
  finally show ?thesis by simp
qed

section \<open>Steps\<close>

record pa_request =
  rq_tenant :: string
  rq_actor :: string
  rq_findings :: "ctl_finding list"
  rq_leg :: leg
  rq_dst :: "string option"
  rq_id :: string
  rq_model :: string
  rq_call :: kl_call

definition pa_serve :: "pa_env \<Rightarrow> 's kv_ops \<Rightarrow> pa_request \<Rightarrow> 's \<Rightarrow> (pa_error + outcome \<times> ledger_row) \<times> 's" where
  \<comment> \<open>the answer is the outcome with the row that records it\<close>
  "pa_serve env ops q s =
     (case rbind (pa_resolve env ops (rq_tenant q) (rq_actor q) s)
             (\<lambda>actor. pa_decide env ops (rq_findings q) actor (rq_leg q) (rq_dst q) s) of
        Inl e \<Rightarrow> (Inl e, s)
      | Inr (oc, mode) \<Rightarrow>
          (case pa_record env ops (rq_call q) oc (rq_id q) (rq_model q) mode s of
             (Inl e, s1) \<Rightarrow> (Inl e, s1)
           | (Inr row, s1) \<Rightarrow> (Inr (oc, row), s1)))"

datatype pa_step =
    PutTenant string "string option"
  | PutActor string string string string "string list" string
  | PutPolicy string string int
  | Attach control_host string string
  | Serve pa_request

definition pa_admin :: "pa_env \<Rightarrow> 's kv_ops \<Rightarrow> pa_step \<Rightarrow> 's \<Rightarrow> 's" where
  "pa_admin env ops st s = (case st of
       PutTenant t p \<Rightarrow> put_tenant ops t p s
     | PutActor t a l r g sc \<Rightarrow> put_actor (pe_codec env) ops t a l r g sc s
     | PutPolicy t y v \<Rightarrow> snd (put_policy (pe_H env) ops t y v s)
     | Attach host a t \<Rightarrow> snd (attach_hosted (pe_codec env) (pe_H env) ops host a t s)
     | Serve q \<Rightarrow> s)"

fun pa_run :: "pa_env \<Rightarrow> 's kv_ops \<Rightarrow> pa_step list \<Rightarrow> 's \<Rightarrow> (pa_error + outcome \<times> ledger_row) list \<times> 's" where
  "pa_run env ops [] s = ([], s)"
| "pa_run env ops (Serve q # sts) s =
     (case pa_serve env ops q s of (r, s1) \<Rightarrow> case pa_run env ops sts s1 of (rs, s2) \<Rightarrow> (r # rs, s2))"
| "pa_run env ops (st # sts) s = pa_run env ops sts (pa_admin env ops st s)"

definition named :: "string \<Rightarrow> bool" where
  "named t \<longleftrightarrow> plain_tenant t \<and> t \<noteq> []"

definition plain_step :: "pa_step \<Rightarrow> bool" where
  "plain_step st \<longleftrightarrow> (case st of
       PutTenant t p \<Rightarrow> named t \<and> (case p of None \<Rightarrow> True | Some u \<Rightarrow> u = [] \<or> named u)
     | PutActor t a l r g sc \<Rightarrow> named t
     | PutPolicy t y v \<Rightarrow> named t
     | Attach host a t \<Rightarrow> (\<forall>b u r. ch_actor host b u = Some r \<longrightarrow> named (ra_tenant r))
     | Serve q \<Rightarrow> named (rq_tenant q))"

section \<open>What a step leaves alone\<close>

definition hash_at :: "string \<Rightarrow> kv_data \<Rightarrow> (string \<times> string) list" where
  "hash_at k d = lookup_or [] (kd_h d) k"

definition only_rows :: "string \<Rightarrow> kv_data \<Rightarrow> kv_data \<Rightarrow> bool" where
  \<comment> \<open>no hash but a row of the tenant is written\<close>
  "only_rows t d d' \<longleftrightarrow> (\<forall>k. (\<forall>i. k \<noteq> row_key t i) \<longrightarrow> hash_at k d' = hash_at k d)"

lemma only_rows_trans: "only_rows t d d' \<Longrightarrow> only_rows t d' d'' \<Longrightarrow> only_rows t d d''"
  by (simp add: only_rows_def)

lemma only_rows_refl: "only_rows t d d"
  by (simp add: only_rows_def)

lemma kl_append_one_rows: "only_rows t d (snd (kl_append_one memory_ops jc H now t c ev p d))"
  by (auto simp: kl_append_one_def kl_put_def memory_ops_def mk_incr_def mk_hset_many_def mk_rpush_def mk_sadd_def only_rows_def
      hash_at_def lookup_or_update Let_def split: option.splits sum.splits)

lemma kl_anchor_rows: "only_rows t d (snd (kl_anchor memory_ops jc co H now t c d))"
  by (simp add: kl_anchor_def only_rows_refl kl_append_one_rows Let_def split: sum.splits)

lemma kl_lock_rows: "only_rows t d (snd (kl_lock memory_ops key token polls d))"
proof (induction polls arbitrary: d)
  case (Cons now polls)
  obtain b d1 where a: "mk_acquire now key token 10000 d = (b, d1)" by fastforce
  then have "only_rows t d d1" by (auto simp: mk_acquire_def only_rows_def hash_at_def split: option.splits if_splits)
  with Cons.IH [of d1] a show ?case by (cases b) (auto simp: memory_ops_def intro: only_rows_trans)
qed (simp add: only_rows_refl)

lemma release_rows: "only_rows t d (ko_release memory_ops key token d)"
  by (auto simp: memory_ops_def mk_release_def only_rows_def hash_at_def split: option.splits)

lemma kl_append_rows: "only_rows t d (snd (kl_append memory_ops jc co H call t ev p cn d))"
proof (cases "pick_chain ev cn")
  case c: (Inr c)
  show ?thesis
  proof (cases "validate co ev p")
    case v: (Inr v)
    let ?lock = "kl_key t [''lock'']"
    obtain b d1 where l: "kl_lock memory_ops ?lock (kc_token call) (kc_times call) d = (b, d1)" by fastforce
    with kl_lock_rows [of t d ?lock "kc_token call" "kc_times call"] have s1: "only_rows t d d1" by simp
    obtain r d2 where a: "kl_append_one memory_ops jc H (kc_now call) t c ev v d1 = (r, d2)" by fastforce
    with kl_append_one_rows [of t d1] s1 have s2: "only_rows t d d2" by (metis only_rows_trans snd_conv)
    obtain q d3 where x: "kl_anchor memory_ops jc co H (kc_now' call) t c d2 = (q, d3)" by fastforce
    with kl_anchor_rows [of t d2] s2 have s3: "only_rows t d d3" by (metis only_rows_trans snd_conv)
    show ?thesis
      using c v l a x s1 only_rows_trans [OF s2 release_rows [of t d2 ?lock "kc_token call"]]
        only_rows_trans [OF s3 release_rows [of t d3 ?lock "kc_token call"]]
      by (simp add: kl_append_def Let_def split: bool.splits sum.splits)
  qed (use c in \<open>simp add: kl_append_def only_rows_refl\<close>)
qed (simp add: kl_append_def only_rows_refl)

lemma not_row_key:
  assumes "named t" "named u" "w \<in> {''tenant'', ''actors'', ''policy''}"
  shows "kl_key t (w # ws) \<noteq> row_key u i"
proof
  assume eq: "kl_key t (w # ws) = row_key u i"
  with assms(1,2) kl_key_tenant [of t u w ws "''row''" "[pr_int i]"] have "t = u" by (simp add: row_key_def named_def)
  with eq assms(3) show False by (auto simp: row_key_def kl_key_def)
qed

definition only_names :: "kv_data \<Rightarrow> kv_data \<Rightarrow> bool" where
  \<comment> \<open>counters and chains stay, and so do the rows of every tenant\<close>
  "only_names d d' \<longleftrightarrow> kd_v d' = kd_v d \<and> kd_l d' = kd_l d
     \<and> (\<forall>u i. named u \<longrightarrow> hash_at (row_key u i) d' = hash_at (row_key u i) d)"

lemma only_names_trans: "only_names d d' \<Longrightarrow> only_names d' d'' \<Longrightarrow> only_names d d''"
  by (simp add: only_names_def)

lemma put_names:
  assumes "named t"
  shows "only_names d (put_tenant memory_ops t p d)" "only_names d (put_actor cd memory_ops t a l r g sc d)"
    "only_names d (snd (put_policy H memory_ops t y v d))"
  using not_row_key [OF assms, THEN not_sym]
  by (auto simp: only_names_def hash_at_def put_tenant_def put_actor_def put_policy_def Let_def memory_ops_def mk_sadd_def
      mk_hset_many_def lookup_or_update)

lemma kl_holds_names: "kl_holds jc u d db \<Longrightarrow> named u \<Longrightarrow> only_names d d' \<Longrightarrow> kl_holds jc u d' db"
  by (simp add: kl_holds_def only_names_def hash_at_def)

lemma attach_names:
  assumes "\<And>b u r. ch_actor host b u = Some r \<Longrightarrow> named (ra_tenant r)"
  shows "only_names d (snd (attach_hosted cd H memory_ops host a t d))"
proof (cases "ch_actor host a t")
  case None
  then show ?thesis by (simp add: attach_hosted_def only_names_def)
next
  case (Some r)
  note put = put_names [OF assms [OF Some]]
  from Some show ?thesis
    by (auto simp: attach_hosted_def Let_def split: option.split intro: only_names_trans [OF only_names_trans [OF put(1,2)] put(3)]
        only_names_trans [OF put(1,2)])
qed

section \<open>The invariant\<close>

definition names_ok :: "kv_data \<Rightarrow> bool" where
  \<comment> \<open>stored policies carry a SHA-256 text, parents are tenant names\<close>
  "names_ok d \<longleftrightarrow> (\<forall>t. named t \<longrightarrow>
     (case map_of (hash_at (kl_key t [''policy'']) d) ''content_hash'' of None \<Rightarrow> True | Some h \<Rightarrow> hex64 h)
     \<and> (case nonempty (map_of (hash_at (kl_key t [''tenant'']) d) ''parent_id'') of None \<Rightarrow> True | Some p \<Rightarrow> named p))"

definition pa_inv :: "pa_env \<Rightarrow> kv_data \<Rightarrow> ledger_row list \<Rightarrow> bool" where
  "pa_inv env d rows \<longleftrightarrow> names_ok d \<and> (\<forall>t. named t \<longrightarrow>
     (\<exists>db. kl_holds (pe_json env) t d db \<and> kl_good (pe_H env) t db
        \<and> (\<forall>row \<in> set rows. lr_tenant_id row = t \<longrightarrow> row \<in> set (db_ledger db))))"

definition pa_laws :: "pa_env \<Rightarrow> bool" where
  \<comment> \<open>JSON is read back as written, pydantic keeps what has its type, a digest has 32 bytes\<close>
  "pa_laws env \<longleftrightarrow> codec_ok (pe_json env) \<and> coerces (pe_coerce env) \<and> (\<forall>x. length (pe_H env x) = 32)"

lemma names_ok_same:
  assumes "names_ok d" "\<And>t. hash_at (kl_key t [''policy'']) d' = hash_at (kl_key t [''policy'']) d"
    "\<And>t. hash_at (kl_key t [''tenant'']) d' = hash_at (kl_key t [''tenant'']) d"
  shows "names_ok d'"
  using assms by (simp add: names_ok_def)

lemma hash_at_mk_hset:
  "hash_at k (mk_hset_many k' m d) = (if k = k' then dict_update m (hash_at k' d) else hash_at k d)"
  by (simp add: hash_at_def mk_hset_many_def lookup_or_update)

lemma hash_at_sadd [simp]: "hash_at k (mk_sadd k' v d) = hash_at k d"
  by (simp add: hash_at_def mk_sadd_def)

lemma named_key_eq:
  assumes "named t" "named u"
  shows "kl_key t [w] = kl_key u [x] \<longleftrightarrow> t = u \<and> w = x"
  using assms kl_key_tenant [of t u w "[]" x "[]"] by (auto simp: named_def kl_key_inj)

lemma actor_key_neq:
  assumes "named t" "named u" "w = ''policy'' \<or> w = ''tenant''"
  shows "kl_key u [w] \<noteq> kl_key t [''actors'', a]"
proof
  assume eq: "kl_key u [w] = kl_key t [''actors'', a]"
  with assms(1,2) kl_key_tenant [of u t w "[]" "''actors''" "[a]"] have "t = u" by (simp add: named_def)
  with eq assms(3) show False by (auto simp: kl_key_def)
qed

lemma names_ok_put_tenant:
  assumes "names_ok d" "named t" "case p of None \<Rightarrow> True | Some u \<Rightarrow> u = [] \<or> named u"
  shows "names_ok (put_tenant memory_ops t p d)"
  using assms(1,3) named_key_eq [OF assms(2)] named_key_eq [OF _ assms(2)]
  by (auto simp: names_ok_def put_tenant_def memory_ops_def hash_at_mk_hset map_of_dict_update map_add_def nonempty_def split: option.splits)

lemma names_ok_put_actor:
  assumes "names_ok d" "named t"
  shows "names_ok (put_actor cd memory_ops t a l r g sc d)"
  using assms(1) actor_key_neq [OF assms(2)]
  by (auto simp: names_ok_def put_actor_def memory_ops_def hash_at_mk_hset)

lemma names_ok_put_policy:
  assumes "names_ok d" "named t" "\<And>x. length (H x) = 32"
  shows "names_ok (snd (put_policy H memory_ops t y v d))"
  using assms(1) named_key_eq [OF _ assms(2)] hex64_to_hex [OF assms(3)]
  by (auto simp: names_ok_def put_policy_def Let_def memory_ops_def hash_at_mk_hset map_of_dict_update policy_row_hash_def
      split: option.splits)

lemma names_ok_rows:
  assumes "names_ok d" "only_rows u d d'" "named u"
  shows "names_ok d'"
proof -
  have "hash_at (kl_key t [w]) d' = hash_at (kl_key t [w]) d" if "named t" "w \<in> {''policy'', ''tenant''}" for t w
    using assms(2) not_row_key [OF that(1) assms(3), of w "[]"] that(2) unfolding only_rows_def by blast
  with assms(1) show ?thesis by (simp add: names_ok_def)
qed

lemma pa_admin_inv:
  assumes inv: "pa_inv env d rows" and laws: "pa_laws env" and st: "plain_step st"
  shows "pa_inv env (pa_admin env memory_ops st d) rows"
proof -
  have H: "\<And>x. length (pe_H env x) = 32" using laws by (simp add: pa_laws_def)
  have nm: "names_ok d" using inv by (simp add: pa_inv_def)
  have "names_ok (pa_admin env memory_ops st d) \<and> only_names d (pa_admin env memory_ops st d)"
  proof (cases st)
    case (PutTenant t p)
    with st have "named t" "case p of None \<Rightarrow> True | Some u \<Rightarrow> u = [] \<or> named u" by (simp_all add: plain_step_def)
    with PutTenant show ?thesis using names_ok_put_tenant [OF nm] put_names(1) by (simp add: pa_admin_def)
  next
    case (PutActor t a l r g sc)
    with st have "named t" by (simp add: plain_step_def)
    with PutActor show ?thesis using names_ok_put_actor [OF nm] put_names(2) by (simp add: pa_admin_def)
  next
    case (PutPolicy t y v)
    with st have "named t" by (simp add: plain_step_def)
    with PutPolicy show ?thesis using names_ok_put_policy [OF nm _ H] put_names(3) by (simp add: pa_admin_def)
  next
    case (Attach host a t)
    with st have host: "\<And>b u r. ch_actor host b u = Some r \<Longrightarrow> named (ra_tenant r)" by (simp add: plain_step_def)
    have "names_ok (snd (attach_hosted (pe_codec env) (pe_H env) memory_ops host a t d))"
    proof (cases "ch_actor host a t")
      case (Some r)
      from host [OF Some] have t: "named (ra_tenant r)" .
      let ?d = "put_actor (pe_codec env) memory_ops (ra_tenant r) (ra_id r) (ra_label r) (ra_role r) (ra_groups r) ''tenant''
        (put_tenant memory_ops (ra_tenant r) None d)"
      have "names_ok ?d" using names_ok_put_actor [OF names_ok_put_tenant [OF nm t] t] by simp
      with Some show ?thesis using names_ok_put_policy [OF _ t H] by (auto simp: attach_hosted_def Let_def split: option.split)
    qed (simp add: attach_hosted_def nm)
    with Attach show ?thesis using attach_names [OF host] by (simp add: pa_admin_def)
  next
    case (Serve q)
    then show ?thesis by (simp add: pa_admin_def nm only_names_def)
  qed
  with inv show ?thesis unfolding pa_inv_def by (metis kl_holds_names)
qed

section \<open>One request\<close>

lemma resolved_tenant:
  assumes "pa_resolve env memory_ops t a d = Inr actor" "t \<noteq> []"
  shows "request_tenant actor = t"
  using assms by (auto simp: pa_resolve_def get_actor_def pa_unregistered_def request_tenant_def Let_def rbind_def
      split: if_splits option.splits sum.splits)

lemma names_ok_hash:
  assumes "names_ok d" "named t" "map_of (hash_at (kl_key t [''policy'']) d) ''content_hash'' = Some h"
  shows "hex64 h"
proof -
  from assms(1,2) have "case map_of (hash_at (kl_key t [''policy'']) d) ''content_hash'' of None \<Rightarrow> True | Some h \<Rightarrow> hex64 h"
    unfolding names_ok_def by blast
  with assms(3) show ?thesis by simp
qed

lemma names_ok_parent:
  assumes "names_ok d" "named t" "nonempty (map_of (hash_at (kl_key t [''tenant'']) d) ''parent_id'') = Some p"
  shows "named p"
proof -
  from assms(1,2) have "case nonempty (map_of (hash_at (kl_key t [''tenant'']) d) ''parent_id'') of None \<Rightarrow> True | Some p \<Rightarrow> named p"
    unfolding names_ok_def by blast
  with assms(3) show ?thesis by simp
qed

lemma no_evidence_error:
  "pa_resolve env ops t a s \<noteq> Inl (EvidenceWriteFailed k)" "get_policy ops t s \<noteq> Inl (EvidenceWriteFailed k)"
  "parsed cd p \<noteq> Inl (EvidenceWriteFailed k)" "load_policies cd ops t s \<noteq> Inl (EvidenceWriteFailed k)"
  "pa_decide env ops fs a2 leg dst s \<noteq> Inl (EvidenceWriteFailed k)"
proof -
  show g: "get_policy ops t s \<noteq> Inl (EvidenceWriteFailed k)" for t
    by (simp add: get_policy_def Let_def split: option.split)
  show p: "parsed cd p \<noteq> Inl (EvidenceWriteFailed k)" for cd p by (simp add: parsed_def split: sum.split)
  have "get_actor cd ops t a s \<noteq> Inl (EvidenceWriteFailed k)" for cd by (simp add: get_actor_def Let_def split: option.split)
  then show "pa_resolve env ops t a s \<noteq> Inl (EvidenceWriteFailed k)"
    by (simp add: pa_resolve_def rbind_Inl_iff)
  show l: "load_policies cd ops t s \<noteq> Inl (EvidenceWriteFailed k)" for cd t
    by (simp add: load_policies_def rbind_Inl_iff g p split: option.split)
  show "pa_decide env ops fs a2 leg dst s \<noteq> Inl (EvidenceWriteFailed k)"
    by (simp add: pa_decide_def rbind_Inl_iff l Let_def)
qed

lemma hash_at_hgetall: "ko_hgetall memory_ops k d = hash_at k d"
  by (simp add: memory_ops_def mk_hgetall_def hash_at_def)

lemma stored_hash:
  assumes "names_ok d" "named t" "get_policy memory_ops t d = Inr (Some p)"
  shows "hex64 (pp_hash p)"
  using assms(3) names_ok_hash [OF assms(1,2)] by (auto simp: get_policy_def Let_def hash_at_hgetall split: if_splits option.splits)

lemma stored_parent:
  assumes "names_ok d" "named t" "parent_of memory_ops t d = Some p"
  shows "named p"
  using assms(3) names_ok_parent [OF assms(1,2)] by (simp add: parent_of_def hash_at_hgetall)

lemma loaded_hashes:
  assumes ok: "names_ok d" "named t" and l: "load_policies cd memory_ops t d = Inr r"
  shows "hex64 (rp_org_policy_content_hash r)
    \<and> (case rp_bu_policy_content_hash r of None \<Rightarrow> True | Some h \<Rightarrow> hex64 h)"
proof -
  from l obtain own where own: "get_policy memory_ops t d = Inr (Some own)"
    by (auto simp: load_policies_def rbind_def split: sum.splits option.splits)
  have hex: "hex64 (pp_hash own)" by (rule stored_hash [OF ok own])
  show ?thesis
  proof (cases "parent_of memory_ops t d")
    case None
    with l own hex show ?thesis by (auto simp: load_policies_def rbind_def split: sum.splits)
  next
    case (Some up)
    from stored_parent [OF ok Some] have up: "named up" .
    show ?thesis
    proof (cases "get_policy memory_ops up d")
      case (Inl e)
      with l own Some show ?thesis by (simp add: load_policies_def rbind_def)
    next
      case (Inr above)
      show ?thesis
      proof (cases above)
        case None
        with l own Some Inr hex show ?thesis by (auto simp: load_policies_def rbind_def split: sum.splits)
      next
        case (Some q)
        from stored_hash [OF ok(1) up] Inr Some have "hex64 (pp_hash q)" by simp
        with l own \<open>parent_of memory_ops t d = Some up\<close> Inr Some hex show ?thesis
          by (auto simp: load_policies_def rbind_def split: sum.splits)
      qed
    qed
  qed
qed

definition long_text :: "ctl_finding list \<Rightarrow> bool" where
  "long_text fs \<longleftrightarrow> (\<exists>f \<in> set fs. 200 < code_points (cf_class f) \<or> 200 < code_points (cf_path f))"

definition proves :: "ledger_row \<Rightarrow> outcome \<Rightarrow> bool" where
  \<comment> \<open>the row says what was decided and applied, under which policy text\<close>
  "proves row oc \<longleftrightarrow> lr_tenant_id row = request_tenant (oc_actor oc) \<and> lr_chain row = ''dp''
     \<and> lr_event_type row = ''request.decided'' \<and> (\<exists>rid model mode. lr_payload row = decided_record oc rid model mode)"

lemma pa_serve_held:
  assumes inv: "pa_inv env d rows" and laws: "pa_laws env" and t: "named (rq_tenant q)"
    and a: "pa_serve env memory_ops q d = (r, d')"
  shows "case r of
      Inl e \<Rightarrow> pa_inv env d' rows \<and> (\<forall>k. e = EvidenceWriteFailed k \<longrightarrow> long_text (rq_findings q) \<or> (\<exists>lock. k = LockTimeout lock)
        \<and> \<not> fst (kl_lock memory_ops (kl_key (rq_tenant q) [''lock'']) (kc_token (rq_call q)) (kc_times (rq_call q)) d))
    | Inr (oc, row) \<Rightarrow> pa_inv env d' (row # rows) \<and> proves row oc"
proof -
  have jc: "codec_ok (pe_json env)" and co: "coerces (pe_coerce env)" and H: "\<And>x. length (pe_H env x) = 32"
    using laws by (simp_all add: pa_laws_def)
  show ?thesis
  proof (cases "rbind (pa_resolve env memory_ops (rq_tenant q) (rq_actor q) d)
      (\<lambda>actor. pa_decide env memory_ops (rq_findings q) actor (rq_leg q) (rq_dst q) d)")
    case (Inl e)
    have "e \<noteq> EvidenceWriteFailed k" for k
      using Inl by (auto simp: rbind_Inl_iff no_evidence_error)
    with a Inl inv show ?thesis by (auto simp: pa_serve_def)
  next
    case (Inr om)
    obtain oc m where om: "om = (oc, m)" by (cases om)
    from Inr om obtain actor where res: "pa_resolve env memory_ops (rq_tenant q) (rq_actor q) d = Inr actor"
      and dec: "pa_decide env memory_ops (rq_findings q) actor (rq_leg q) (rq_dst q) d = Inr (oc, m)"
      by (auto simp: rbind_def split: sum.splits)
    have rt: "request_tenant actor = rq_tenant q" by (rule resolved_tenant [OF res]) (use t in \<open>simp add: named_def\<close>)
    from pa_decide_Inr [OF dec] obtain pol where pol: "load_policies (pe_codec env) memory_ops (request_tenant actor) d = Inr pol"
      "oc_policies oc = pol" "oc_actor oc = actor" "oc_action oc = applied_action m (oc_intended oc)"
      "oc_pairs oc = decide_all (rp_org pol) actor (rq_findings q) (rq_leg q) (rp_bu pol) (rq_dst q) []" by blast
    have act: "oc_action oc \<noteq> Tokenize" using pol(4) applied_not_token by simp
    have hashes: "hex64 (rp_org_policy_content_hash pol) \<and> (case rp_bu_policy_content_hash pol of None \<Rightarrow> True | Some h \<Rightarrow> hex64 h)"
      by (rule loaded_hashes [of d]) (use inv pol(1) rt t in \<open>simp_all add: pa_inv_def\<close>)
    have rec: "recordable oc \<or> long_text (rq_findings q)"
      using hashes pol(2,5) by (auto simp: recordable_def long_text_def decide_all_def not_less)
    let ?p = "decided_payload oc (rq_id q) (rq_model q) m" and ?t = "rq_tenant q"
    obtain k d1 where ap: "kl_append memory_ops (pe_json env) (pe_coerce env) (pe_H env) (rq_call q) ?t ''request.decided'' ?p None d = (k, d1)"
      by fastforce
    from inv t obtain db where h: "kl_holds (pe_json env) ?t d db" "kl_good (pe_H env) ?t db"
      and sub: "\<And>row. row \<in> set rows \<Longrightarrow> lr_tenant_id row = ?t \<Longrightarrow> row \<in> set (db_ledger db)" unfolding pa_inv_def by blast
    from kl_append_held [OF h jc co H ap] obtain db' where h': "kl_holds (pe_json env) ?t d1 db'" "kl_good (pe_H env) ?t db'"
      and grow: "\<exists>new. db_ledger db' = db_ledger db @ new"
      and case': "case k of Inl e \<Rightarrow> expected_error e \<and> length (db_ledger db') = length (db_ledger db)
       | Inr row \<Rightarrow> length (db_ledger db') = length (db_ledger db) + 2 \<and> row \<in> set (db_ledger db') \<and> lr_event_type row = ''request.decided''
           \<and> validate (pe_coerce env) ''request.decided'' ?p = Inr (lr_payload row) \<and> pick_chain ''request.decided'' None = Inr (lr_chain row)"
      and fail: "isl k \<longrightarrow> isl (pick_chain ''request.decided'' None) \<or> isl (validate (pe_coerce env) ''request.decided'' ?p)
         \<or> \<not> fst (kl_lock memory_ops (kl_key ?t [''lock'']) (kc_token (rq_call q)) (kc_times (rq_call q)) d)"
      by blast
    have inv': "pa_inv env d1 rows'" if rows': "\<And>row. row \<in> set rows' \<Longrightarrow> row \<in> set rows \<or> row \<in> set (db_ledger db')" for rows'
    proof -
      have same: "only_rows ?t d d1" using kl_append_rows ap by (metis snd_conv)
      have nm: "names_ok d1" by (rule names_ok_rows [OF _ same t]) (use inv in \<open>simp add: pa_inv_def\<close>)
      have "\<exists>db. kl_holds (pe_json env) u d1 db \<and> kl_good (pe_H env) u db
          \<and> (\<forall>row \<in> set rows'. lr_tenant_id row = u \<longrightarrow> row \<in> set (db_ledger db))" if u: "named u" for u
      proof (cases "u = ?t")
        case True
        with h' grow sub rows' show ?thesis by (intro exI [of _ db']) fastforce
      next
        case False
        have s: "same_for u d d1" using kl_append_same [of ?t u d] t u False ap unfolding named_def by (metis snd_conv)
        from inv u obtain db0 where "kl_holds (pe_json env) u d db0" "kl_good (pe_H env) u db0"
          "\<And>row. row \<in> set rows \<Longrightarrow> lr_tenant_id row = u \<Longrightarrow> row \<in> set (db_ledger db0)" unfolding pa_inv_def by blast
        moreover have "lr_tenant_id row = ?t" if "row \<in> set (db_ledger db')" for row
          using h'(1) that by (simp add: kl_holds_def)
        ultimately show ?thesis using kl_holds_same [OF _ s] rows' False by blast
      qed
      with nm show ?thesis by (simp add: pa_inv_def)
    qed
    have pick: "pick_chain ''request.decided'' None = Inr ''dp''"
      by (simp add: pick_chain_def CHAIN_BY_EVENT_def CHAINS_def)
    show ?thesis
    proof (cases k)
      case (Inl e)
      have r: "r = Inl (EvidenceWriteFailed e)" "d' = d1"
        using a Inr om ap Inl rt pol(3) by (simp_all add: pa_serve_def pa_record_def)
      have "long_text (rq_findings q) \<or> (\<exists>lock. e = LockTimeout lock)
        \<and> \<not> fst (kl_lock memory_ops (kl_key ?t [''lock'']) (kc_token (rq_call q)) (kc_times (rq_call q)) d)"
      proof (cases "recordable oc")
        case True
        with validate_decided [OF co act] obtain v where v: "validate (pe_coerce env) ''request.decided'' ?p = Inr v" by simp
        with fail Inl pick have "\<not> fst (kl_lock memory_ops (kl_key ?t [''lock'']) (kc_token (rq_call q)) (kc_times (rq_call q)) d)" by simp
        with ap Inl v pick show ?thesis by (auto simp: kl_append_def Let_def split: prod.splits bool.splits)
      qed (use rec in blast)
      with r inv' show ?thesis by simp
    next
      case (Inr row)
      have r: "r = Inr (oc, row)" "d' = d1"
        using a \<open>_ = Inr om\<close> om ap Inr rt pol(3) by (simp_all add: pa_serve_def pa_record_def)
      from case' Inr have row: "row \<in> set (db_ledger db')" "lr_event_type row = ''request.decided''"
        "validate (pe_coerce env) ''request.decided'' ?p = Inr (lr_payload row)" "lr_chain row = ''dp''" using pick by auto
      from row(3) validate_decided [OF co act] have "lr_payload row = decided_record oc (rq_id q) (rq_model q) m"
        by (simp split: if_splits)
      with row h'(1) rt pol(3) have "proves row oc" by (auto simp: proves_def kl_holds_def)
      moreover have "pa_inv env d1 (row # rows)" by (rule inv') (use row(1) in auto)
      ultimately show ?thesis by (simp add: r)
    qed
  qed
qed

section \<open>Histories\<close>

lemma pa_run_held:
  assumes "pa_inv env d rows" "pa_laws env" "\<forall>st \<in> set sts. plain_step st" "pa_run env memory_ops sts d = (rs, d')"
  shows "\<exists>rows'. pa_inv env d' rows' \<and> set rows \<subseteq> set rows'
    \<and> (\<forall>oc row. Inr (oc, row) \<in> set rs \<longrightarrow> row \<in> set rows' \<and> proves row oc)"
  using assms(1,3,4)
proof (induction sts arbitrary: d rows rs)
  case (Cons st sts)
  have ps: "plain_step st" and sub: "\<forall>st \<in> set sts. plain_step st" using Cons.prems(2) by simp_all
  show ?case
  proof (cases "\<exists>q. st = Serve q")
    case True
    then obtain q where q: "st = Serve q" by blast
    obtain r d1 where a: "pa_serve env memory_ops q d = (r, d1)" by fastforce
    obtain rs' where run: "pa_run env memory_ops sts d1 = (rs', d')" and rs: "rs = r # rs'"
      using Cons.prems(3) a q by (auto split: prod.splits)
    have t: "named (rq_tenant q)" using ps q by (simp add: plain_step_def)
    note step = pa_serve_held [OF Cons.prems(1) assms(2) t a]
    let ?rows = "case r of Inl _ \<Rightarrow> rows | Inr (_, row) \<Rightarrow> row # rows"
    have inv1: "pa_inv env d1 ?rows" using step by (auto split: sum.splits)
    from Cons.IH [OF inv1 sub run] obtain rows' where
      r': "pa_inv env d' rows'" "set ?rows \<subseteq> set rows'" "\<forall>oc row. Inr (oc, row) \<in> set rs' \<longrightarrow> row \<in> set rows' \<and> proves row oc" by blast
    from r' step show ?thesis unfolding rs by (intro exI [of _ rows']) (auto split: sum.splits)
  next
    case False
    then have run: "pa_run env memory_ops sts (pa_admin env memory_ops st d) = (rs, d')"
      using Cons.prems(3) by (cases st) auto
    from Cons.IH [OF pa_admin_inv [OF Cons.prems(1) assms(2) ps] sub run] show ?thesis .
  qed
qed auto

context kv_store
begin

lemma pa_serve_view:
  assumes "ok s"
  shows "pa_serve env memory_ops q (view s) = apsnd view (pa_serve env ops q s) \<and> ok (snd (pa_serve env ops q s))"
proof -
  have res: "pa_resolve env ops t a s = pa_resolve env memory_ops t a (view s)" for t a
    using assms by (simp add: pa_resolve_def tenant_exists_view get_actor_view)
  have dec: "pa_decide env ops fs a leg dst s = pa_decide env memory_ops fs a leg dst (view s)" for fs a leg dst
    using assms by (simp add: pa_decide_def load_policies_view)
  have rec: "pa_record env memory_ops call oc rid model m (view s) = apsnd view (pa_record env ops call oc rid model m s)
      \<and> ok (snd (pa_record env ops call oc rid model m s))" for call oc rid model m
    using kl_append_view [OF assms, of "pe_json env" "pe_coerce env" "pe_H env" call "request_tenant (oc_actor oc)" "''request.decided''"
        "decided_payload oc rid model m" None]
    by (auto simp: pa_record_def split: prod.splits sum.splits)
  show ?thesis
  proof (cases "rbind (pa_resolve env ops (rq_tenant q) (rq_actor q) s) (\<lambda>actor. pa_decide env ops (rq_findings q) actor (rq_leg q) (rq_dst q) s)")
    case (Inl e)
    then show ?thesis using assms by (simp add: pa_serve_def res dec)
  next
    case (Inr om)
    with rec [of "rq_call q" "fst om" "rq_id q" "rq_model q" "snd om"] show ?thesis
      by (auto simp: pa_serve_def res dec split: prod.splits sum.splits)
  qed
qed

lemma attach_view:
  assumes "ok s"
  shows "view (snd (attach_hosted cd H ops host a t s)) = snd (attach_hosted cd H memory_ops host a t (view s))
    \<and> ok (snd (attach_hosted cd H ops host a t s))"
proof (cases "ch_actor host a t")
  case None
  with assms show ?thesis by (simp add: attach_hosted_def)
next
  case (Some r)
  let ?s1 = "put_tenant ops (ra_tenant r) None s"
  let ?s2 = "put_actor cd ops (ra_tenant r) (ra_id r) (ra_label r) (ra_role r) (ra_groups r) ''tenant'' ?s1"
  have s1: "view ?s1 = put_tenant memory_ops (ra_tenant r) None (view s)" "ok ?s1" using put_tenant_view [OF assms] by simp_all
  with put_actor_view [OF s1(2)] have s2: "view ?s2 = put_actor cd memory_ops (ra_tenant r) (ra_id r) (ra_label r) (ra_role r) (ra_groups r) ''tenant''
      (put_tenant memory_ops (ra_tenant r) None (view s))" "ok ?s2" by simp_all
  from put_policy_view [OF s2(2), of H "ra_tenant r" _ 1] Some s2 show ?thesis
    by (auto simp: attach_hosted_def Let_def split: option.split)
qed

lemma pa_admin_view:
  assumes "ok s"
  shows "view (pa_admin env ops st s) = pa_admin env memory_ops st (view s) \<and> ok (pa_admin env ops st s)"
  using put_tenant_view [OF assms] put_actor_view [OF assms] put_policy_view [OF assms] attach_view [OF assms] assms
  by (cases st) (simp_all add: pa_admin_def)

lemma pa_run_view:
  assumes "ok s"
  shows "pa_run env memory_ops sts (view s) = apsnd view (pa_run env ops sts s) \<and> ok (snd (pa_run env ops sts s))"
  using assms
proof (induction sts arbitrary: s)
  case (Cons st sts)
  show ?case
  proof (cases "\<exists>q. st = Serve q")
    case True
    then obtain q where q: "st = Serve q" by blast
    obtain r s1 where a: "pa_serve env ops q s = (r, s1)" by fastforce
    with pa_serve_view [OF Cons.prems, of env q] have m: "pa_serve env memory_ops q (view s) = (r, view s1)" "ok s1" by auto
    from Cons.IH [OF m(2)] m(1) a q show ?thesis by (cases "pa_run env ops sts s1") simp
  next
    case False
    have r: "pa_run env o' (st # sts) x = pa_run env o' sts (pa_admin env o' st x)" for o' :: "'c kv_ops" and x
      using False by (cases st) auto
    from pa_admin_view [OF Cons.prems, of env st] have a: "view (pa_admin env ops st s) = pa_admin env memory_ops st (view s)"
      "ok (pa_admin env ops st s)" by simp_all
    from Cons.IH [OF a(2)] show ?thesis unfolding r a(1) by simp
  qed
qed simp

end

lemma new_store_inv: "pa_inv env memory_kv []"
proof -
  have "names_ok memory_kv" by (simp add: names_ok_def hash_at_def memory_kv_def lookup_or_def nonempty_def)
  then show ?thesis using all_held_empty [of "pe_json env" "pe_H env"] unfolding pa_inv_def all_held_def named_def by auto
qed

lemma reached:
  assumes "pa_laws env" "\<forall>st \<in> set sts. plain_step st" "pa_run env file_ops sts new_file = (rs, s)"
  shows "fk_readable s \<and> (\<exists>rows. pa_inv env (file_view s) rows \<and> (\<forall>oc row. Inr (oc, row) \<in> set rs \<longrightarrow> row \<in> set rows \<and> proves row oc))"
proof -
  have ok: "fk_readable new_file" by (simp add: new_file_def)
  from disk.pa_run_view [OF ok, of env sts] assms(3)
  have m: "pa_run env memory_ops sts memory_kv = (rs, file_view s)" "fk_readable s" by (auto simp: new_file_view)
  from pa_run_held [OF new_store_inv assms(1,2) m(1)] m(2) show ?thesis by auto
qed

definition names_rule :: "outcome \<Rightarrow> fields \<Rightarrow> bool" where
  \<comment> \<open>the rule of the first decision that has the intended action\<close>
  "names_rule oc q \<longleftrightarrow> (case find (\<lambda>(f, d). cd_action d = oc_intended oc) (oc_pairs oc) of
     None \<Rightarrow> pget ''rule_index'' q = JNull \<and> pget ''rule_scope'' q = JStr ''default''
   | Some (f, d) \<Rightarrow> pget ''rule_index'' q = (case cd_rule_index d of None \<Rightarrow> JNull | Some i \<Rightarrow> JInt (int i))
       \<and> pget ''rule_scope'' q = JStr (scope_text (cd_rule_scope d)))"

definition names_outcome :: "outcome \<Rightarrow> fields \<Rightarrow> bool" where
  \<comment> \<open>what was decided and applied, for whom and under which policy versions\<close>
  "names_outcome oc q \<longleftrightarrow>
     pget ''applied_action'' q = JStr (action_text (oc_action oc)) \<and> pget ''decision_action'' q = JStr (action_text (oc_intended oc))
     \<and> pget ''actor_id'' q = JStr (ca_id (oc_actor oc)) \<and> pget ''leg'' q = JStr (leg_text (oc_leg oc))
     \<and> pget ''org_policy_version'' q = JInt (int (p_version (rp_org (oc_policies oc))))
     \<and> pget ''org_policy_content_hash'' q = JStr (rp_org_policy_content_hash (oc_policies oc))
     \<and> pget ''bu_policy_version'' q = (case rp_bu (oc_policies oc) of None \<Rightarrow> JNull | Some p \<Rightarrow> JInt (int (p_version p)))
     \<and> pget ''bu_policy_content_hash'' q = (case rp_bu_policy_content_hash (oc_policies oc) of None \<Rightarrow> JNull | Some h \<Rightarrow> JStr h)"

lemma record_fields:
  "names_outcome oc (sorted_fields (decided_record oc rid model mode))" "names_rule oc (sorted_fields (decided_record oc rid model mode))"
proof -
  have d: "distinct (map fst (decided_record oc rid model mode))"
    by (simp add: decided_record_def decided_payload_def Let_def)
  show "names_outcome oc (sorted_fields (decided_record oc rid model mode))" unfolding names_outcome_def pget_sorted [OF d]
    by (simp add: decided_record_def decided_payload_def Let_def pget_def opt_int_def opt_str_def split: option.split)
  have lam: "(\<lambda>(f, d). cd_action d = oc_intended oc) = (\<lambda>p. cd_action (snd p) = oc_intended oc)" by auto
  show "names_rule oc (sorted_fields (decided_record oc rid model mode))" unfolding names_rule_def lam pget_sorted [OF d]
    by (auto simp: decided_record_def decided_payload_def Let_def pget_def opt_int_def oc_rule_index_def oc_rule_scope_def deciding_def
        split: option.split)
qed

section \<open>Properties\<close>

text \<open>C8. No answer without evidence: after any history of administration, attaching and requests on the file store,
  every decision that was handed out is a row of its tenant's data chain, with the applied and the intended
  action, the actor, the leg, the index and the layer of the rule behind it and the version and hash of both
  layers' policies, and that tenant's ledger verifies.\<close>

theorem answers_are_recorded:
  assumes "pa_laws env" "\<forall>st \<in> set sts. plain_step st" "pa_run env file_ops sts new_file = (rs, s)"
    and "Inr (oc, row) \<in> set rs" "named (request_tenant (oc_actor oc))"
  shows "\<exists>found r x. kl_rows file_ops (pe_json env) (request_tenant (oc_actor oc)) ''dp'' s = Inr found \<and> r \<in> set found
    \<and> lr_id r = lr_id row
    \<and> names_outcome oc (lr_payload r) \<and> names_rule oc (lr_payload r)
    \<and> kl_verify file_ops (pe_json env) (pe_H env) (request_tenant (oc_actor oc)) s = Inr x \<and> kr_ok x"
proof -
  let ?t = "request_tenant (oc_actor oc)"
  have jc: "codec_ok (pe_json env)" using assms(1) by (simp add: pa_laws_def)
  from reached [OF assms(1-3)] obtain rows where ok: "fk_readable s" and inv: "pa_inv env (file_view s) rows"
    and row: "row \<in> set rows" "proves row oc" using assms(4) by blast
  from inv assms(5) obtain db where db: "kl_holds (pe_json env) ?t (file_view s) db" "kl_good (pe_H env) ?t db"
    and "\<And>row. row \<in> set rows \<Longrightarrow> lr_tenant_id row = ?t \<Longrightarrow> row \<in> set (db_ledger db)" unfolding pa_inv_def by blast
  with row have mem: "row \<in> set (chain_rows ?t ''dp'' (db_ledger db))" by (simp add: proves_def chain_rows_def)
  have dp: "''dp'' \<in> set CHAINS" by (simp add: CHAINS_def)
  from row(2) obtain rid model mode where "lr_payload row = decided_record oc rid model mode" by (auto simp: proves_def)
  then have fields: "lr_payload (norm row) = sorted_fields (decided_record oc rid model mode)" by simp
  from kl_verify_held [OF db jc] obtain x where x: "kl_verify memory_ops (pe_json env) (pe_H env) ?t (file_view s) = Inr x" "kr_ok x"
    by blast
  have rows: "kl_rows file_ops (pe_json env) ?t ''dp'' s = Inr (map norm (chain_rows ?t ''dp'' (db_ledger db)))"
    using kl_rows_held [OF db(1) dp jc] by (simp add: disk.kl_rows_view [OF ok])
  have ver: "kl_verify file_ops (pe_json env) (pe_H env) ?t s = Inr x" using x(1) by (simp add: disk.kl_verify_view [OF ok])
  show ?thesis unfolding rows ver
    by (intro exI [of _ "map norm (chain_rows ?t ''dp'' (db_ledger db))"] exI [of _ "norm row"] exI [of _ x])
      (use mem x(2) in \<open>simp add: fields record_fields del: norm_simps(8)\<close>)
qed

text \<open>C9. A business unit can neither weaken its organisation nor change its mode: for a tenant with a parent that has a
  policy, whatever the unit's own policy says, the intended action is at least the one the organisation's
  policy gives alone, the mode is the organisation's, and when that mode enforces the applied action is at
  least the one applied for the organisation alone.\<close>

theorem unit_cannot_weaken:
  assumes "pa_decide env ops fs actor leg dst s = Inr (oc, m)"
    and "parent_of ops (request_tenant actor) s = Some up" "get_policy ops up s = Inr (Some upper)"
  shows "\<exists>org alone. parsed (pe_codec env) upper = Inr org \<and> m = p_mode org
    \<and> alone = overall_action (decide_all org actor fs leg None dst []) (p_default org)
    \<and> alone \<le> oc_intended oc \<and> (m \<noteq> Enforce \<or> applied_action Enforce alone \<le> oc_action oc)"
proof -
  from pa_decide_Inr [OF assms(1)] obtain pol where pol: "load_policies (pe_codec env) ops (request_tenant actor) s = Inr pol"
    "m = p_mode (rp_org pol)" "oc_pairs oc = decide_all (rp_org pol) actor fs leg (rp_bu pol) dst []"
    "oc_intended oc = overall_action (oc_pairs oc) (p_default (rp_org pol))" "oc_action oc = applied_action m (oc_intended oc)" by blast
  from pol(1) assms(2,3) obtain org bu where org: "parsed (pe_codec env) upper = Inr org" "rp_org pol = org" "rp_bu pol = Some bu"
    by (auto simp: load_policies_def rbind_Inr_iff split: option.splits)
  let ?alone = "overall_action (decide_all org actor fs leg None dst []) (p_default org)"
  have le: "?alone \<le> oc_intended oc"
  proof (cases "fs = []")
    case True
    then show ?thesis using pol(3,4) org(2) by (simp add: decide_all_def overall_action_def)
  next
    case False
    then have "decide_all org actor fs leg None dst [] \<noteq> []" by (simp add: decide_all_def)
    from overall_in [OF this, of "p_default org"] obtain f where f: "f \<in> set fs"
      "?alone = cd_action (decide org actor f leg None dst [])" by (auto simp: decide_all_def)
    have "cd_action (decide org actor f leg None dst []) \<le> cd_action (decide org actor f leg (Some bu) dst [])"
    proof -
      have "layer_action b None actor f leg dst = None" for b by (simp add: layer_action_def last_match_def)
      then show ?thesis by (simp add: decide_action_eq Let_def split: option.split)
    qed
    also have "\<dots> \<le> oc_intended oc"
    proof -
      have "(f, decide org actor f leg (Some bu) dst []) \<in> set (oc_pairs oc)" using f(1) unfolding pol(3) org decide_all_def by auto
      then show ?thesis unfolding pol(4) by (rule overall_ge)
    qed
    finally show ?thesis unfolding f(2) .
  qed
  then have "applied_action Enforce ?alone \<le> applied_action Enforce (oc_intended oc)" by (rule applied_Enforce_mono)
  then have "m \<noteq> Enforce \<or> applied_action Enforce ?alone \<le> oc_action oc" by (cases "m = Enforce") (simp_all add: pol(5))
  with le org(1) pol(2) show ?thesis unfolding org(2)
    by (intro exI [of _ org] exI [of _ ?alone] conjI) simp_all
qed

section \<open>What attaching and versions can break\<close>

text \<open>The content hash is computed over the version given to \<open>put_policy\<close>, the recorded version is the one the YAML
  text names: the attach step always stores version 1.\<close>

lemma recorded_version_and_hash:
  assumes "parent_of memory_ops t d = None" "parse_policy (pc_yaml (pe_codec env)) y = Inr org" "request_tenant actor = t"
    and "pa_decide env memory_ops fs actor leg dst (snd (put_policy H memory_ops t y 1 d)) = Inr (oc, m)"
  shows "p_version (rp_org (oc_policies oc)) = p_version org
    \<and> rp_org_policy_content_hash (oc_policies oc) = policy_row_hash H t (JInt 1) y"
proof -
  have par: "parent_of memory_ops t (snd (put_policy H memory_ops t y 1 d)) = None"
    using assms(1)
    by (simp add: parent_of_def put_policy_def Let_def memory_ops_def mk_hset_many_def mk_hgetall_def lookup_or_update kl_key_inj)
  have "load_policies (pe_codec env) memory_ops t (snd (put_policy H memory_ops t y 1 d)) = Inr
      \<lparr>rp_org = org, rp_bu = None, rp_org_tenant_id = t, rp_bu_tenant_id = None, rp_degraded_reasons = [],
       rp_org_policy_content_hash = policy_row_hash H t (JInt 1) y, rp_bu_policy_content_hash = None\<rparr>"
    using assms(2) par get_put_policy [of t H y 1 d] by (simp add: load_policies_def parsed_def put_policy_def Let_def)
  with pa_decide_Inr [OF assms(4)] assms(3) show ?thesis by auto
qed

text \<open>Two findings of one prompt in a shadowed policy: a rule that blocks leaves nothing applied where one that warns
  would have warned.\<close>

lemma shadow_hides_the_stricter_rule: "applied_action Shadow Block < applied_action Shadow Warn"
  by (simp add: applied_action_Shadow action_order)

section \<open>Samples\<close>

definition sample_policies :: yaml_codec where
  "sample_policies = \<lparr>ym_keys = \<lambda>_. None, ym_draft = \<lambda>_. None,
     ym_policy = (\<lambda>y. if y = ''o'' then Some demo_org else if y = ''u'' then Some demo_bu_weak else None),
     ym_dump = \<lambda>_ _. [], ym_unversioned = \<lambda>y. y\<rparr>"

definition sample_env :: pa_env where
  "sample_env = \<lparr>pe_codec = \<lparr>pc_dump = \<lambda>gs. put_json (JList (map JStr gs)),
       pc_load = (\<lambda>s. case get_json py_int_text (length s) s of Some (JList js, []) \<Rightarrow> Some (map str_of js) | _ \<Rightarrow> None),
       pc_yaml = sample_policies\<rparr>,
     pe_json = sample_codec, pe_coerce = strict_coercion, pe_H = toy_digest\<rparr>"

definition sample_request :: "leg \<Rightarrow> string \<Rightarrow> ctl_finding list \<Rightarrow> pa_request" where
  "sample_request leg rid fs = \<lparr>rq_tenant = ''t'', rq_actor = ''a'', rq_findings = fs, rq_leg = leg, rq_dst = None,
     rq_id = rid, rq_model = ''cli'', rq_call = \<lparr>kc_token = ''k'', kc_first = 0, kc_polls = [], kc_now = ''08:00'', kc_now' = ''08:01''\<rparr>\<rparr>"

definition sample_steps :: "pa_step list" where
  "sample_steps = [PutTenant ''t'' None, PutPolicy ''t'' ''o'' 1]"

lemma sample_laws: "pa_laws sample_env"
  by (simp add: pa_laws_def sample_env_def sample_codec_ok strict_coerces toy_digest_length)

lemma sample_plain: "plain_step st" if "st \<in> set (sample_steps @ [Serve (sample_request leg rid fs)])"
  using that by (auto simp: sample_steps_def plain_step_def named_def plain_tenant_def sample_request_def)

lemma sample_decided:
  assumes "d = snd (pa_run sample_env memory_ops sample_steps memory_kv)"
  shows "\<exists>oc m. rbind (pa_resolve sample_env memory_ops ''t'' ''a'' d)
      (\<lambda>actor. pa_decide sample_env memory_ops fs actor leg None d) = Inr (oc, m)" "kd_locks d = []"
proof -
  let ?d0 = "put_tenant memory_ops ''t'' None memory_kv"
  have d: "d = snd (put_policy toy_digest memory_ops ''t'' ''o'' 1 ?d0)"
    by (simp add: assms sample_steps_def pa_admin_def sample_env_def)
  show "kd_locks d = []" unfolding d
    by (simp add: put_policy_def put_tenant_def Let_def memory_ops_def mk_hset_many_def mk_sadd_def memory_kv_def)
  have h: "ko_hgetall memory_ops (kl_key ''t'' [''actors'', ''a'']) d = []"
    "ko_hgetall memory_ops (kl_key ''t'' [''tenant'']) d \<noteq> []" "parent_of memory_ops ''t'' d = None"
    unfolding d parent_of_def
    by (simp_all add: put_policy_def put_tenant_def Let_def memory_ops_def mk_hset_many_def mk_sadd_def mk_hgetall_def
        lookup_or_update kl_key_inj memory_kv_def lookup_or_def dict_update_Nil_iff map_of_dict_update nonempty_def)
  have p: "get_policy memory_ops ''t'' d = Inr (Some (fst (put_policy toy_digest memory_ops ''t'' ''o'' 1 ?d0)))"
    unfolding d by (rule get_put_policy)
  have "pa_resolve sample_env memory_ops ''t'' ''a'' d = Inr (pa_unregistered ''t'' ''a'')"
    using h(1,2) by (simp add: pa_resolve_def tenant_exists_def get_actor_def Let_def)
  moreover have "request_tenant (pa_unregistered ''t'' ''a'') = ''t''" by (simp add: request_tenant_def pa_unregistered_def)
  moreover have "parsed (pe_codec sample_env) (fst (put_policy toy_digest memory_ops ''t'' ''o'' 1 ?d0)) = Inr demo_org"
    by (simp add: parsed_def parse_policy_def put_policy_def Let_def sample_env_def sample_policies_def)
  ultimately show "\<exists>oc m. rbind (pa_resolve sample_env memory_ops ''t'' ''a'' d)
      (\<lambda>actor. pa_decide sample_env memory_ops fs actor leg None d) = Inr (oc, m)"
    using p h(3) by (simp add: pa_decide_def load_policies_def Let_def)
qed

definition sample_file :: file_kv where
  "sample_file = snd (pa_run sample_env file_ops sample_steps new_file)"

lemma sample_file_view:
  "pa_run sample_env file_ops sample_steps new_file = ([], sample_file)" "fk_readable sample_file"
  "file_view sample_file = snd (pa_run sample_env memory_ops sample_steps memory_kv)"
proof -
  have ok: "fk_readable new_file" by (simp add: new_file_def)
  show "pa_run sample_env file_ops sample_steps new_file = ([], sample_file)" by (simp add: sample_file_def sample_steps_def)
  show "fk_readable sample_file" "file_view sample_file = snd (pa_run sample_env memory_ops sample_steps memory_kv)"
    using disk.pa_run_view [OF ok, of sample_env sample_steps] by (auto simp: sample_file_def new_file_view)
qed

lemma sample_served:
  assumes "pa_serve sample_env file_ops (sample_request leg rid fs) sample_file = (r, s')"
  shows "\<not> long_text fs \<longrightarrow> (\<exists>oc row. r = Inr (oc, row) \<and> request_tenant (oc_actor oc) = ''t'')"
proof -
  let ?q = "sample_request leg rid fs" and ?d = "file_view sample_file"
  from disk.pa_serve_view [OF sample_file_view(2), of sample_env ?q] assms
  have m: "pa_serve sample_env memory_ops ?q ?d = (r, file_view s')" by simp
  from sample_decided(1) [OF sample_file_view(3), where fs = fs and leg = leg] sample_decided(2) [OF sample_file_view(3)] obtain oc mode where
    dec: "rbind (pa_resolve sample_env memory_ops ''t'' ''a'' ?d)
      (\<lambda>actor. pa_decide sample_env memory_ops fs actor leg None ?d) = Inr (oc, mode)" and locks: "kd_locks ?d = []" by blast
  have q: "rq_tenant ?q = ''t''" "rq_actor ?q = ''a''" "rq_findings ?q = fs" "rq_leg ?q = leg" "rq_dst ?q = None"
    "kc_times (rq_call ?q) = [0]" by (simp_all add: sample_request_def kc_times_def)
  from dec obtain actor where a: "pa_resolve sample_env memory_ops ''t'' ''a'' ?d = Inr actor"
    "pa_decide sample_env memory_ops fs actor leg None ?d = Inr (oc, mode)" by (auto simp: rbind_Inr_iff)
  have oc: "request_tenant (oc_actor oc) = ''t''" using pa_decide_Inr [OF a(2)] resolved_tenant [OF a(1)] by auto
  have r: "(\<exists>e. r = Inl (EvidenceWriteFailed e)) \<or> (\<exists>row. r = Inr (oc, row))"
    using m dec by (auto simp: pa_serve_def q pa_record_def split: prod.splits sum.splits)
  have inv: "pa_inv sample_env ?d []"
    using pa_admin_inv [OF pa_admin_inv [OF new_store_inv sample_laws] sample_laws] sample_plain
    unfolding sample_file_view(3) by (simp add: sample_steps_def)
  have t: "named (rq_tenant ?q)" by (simp add: q named_def plain_tenant_def)
  note held = pa_serve_held [OF inv sample_laws t m]
  have "fst (kl_lock memory_ops k tok (kc_times (rq_call ?q)) ?d)" for k tok
    unfolding q(6) by (simp add: memory_ops_def mk_acquire_def locks)
  then have "\<exists>row. r = Inr (oc, row)" if "\<not> long_text (rq_findings ?q)"
    using held r that by (auto simp del: kl_lock.simps)
  with oc show ?thesis unfolding q(3) by blast
qed

lemma answers_are_recorded_witness:
  "\<exists>oc row s found r. pa_run sample_env file_ops (sample_steps @ [Serve (sample_request Inbound ''r'' [demo_finding ''HR_RECORD''])]) new_file
      = ([Inr (oc, row)], s)
    \<and> kl_rows file_ops sample_codec ''t'' ''dp'' s = Inr found \<and> r \<in> set found
    \<and> names_outcome oc (lr_payload r) \<and> names_rule oc (lr_payload r)"
proof -
  let ?f = "demo_finding ''HR_RECORD''"
  obtain r s where a: "pa_serve sample_env file_ops (sample_request Inbound ''r'' [?f]) sample_file = (r, s)" by fastforce
  have "\<not> long_text [?f]" by (simp add: long_text_def demo_finding_def code_points_def)
  with sample_served [OF a] obtain oc row where r: "r = Inr (oc, row)" "request_tenant (oc_actor oc) = ''t''" by auto
  have run: "pa_run sample_env file_ops (sample_steps @ [Serve (sample_request Inbound ''r'' [?f])]) new_file = ([Inr (oc, row)], s)"
    using sample_file_view(1) a r(1) by (simp add: sample_steps_def)
  have plain: "\<forall>st \<in> set (sample_steps @ [Serve (sample_request Inbound ''r'' [?f])]). plain_step st" using sample_plain by blast
  have "Inr (oc, row) \<in> set [Inr (oc, row) :: pa_error + outcome \<times> ledger_row]" by simp
  moreover have "named (request_tenant (oc_actor oc))" by (simp add: r(2) named_def plain_tenant_def)
  ultimately obtain found x where "kl_rows file_ops sample_codec ''t'' ''dp'' s = Inr found" "x \<in> set found"
    "names_outcome oc (lr_payload x)" "names_rule oc (lr_payload x)"
    using answers_are_recorded [OF sample_laws plain run] r(2) by (fastforce simp: sample_env_def)
  with run show ?thesis by blast
qed

definition sample_unit :: kv_data where
  "sample_unit = snd (pa_run sample_env memory_ops
     [PutTenant ''t'' None, PutPolicy ''t'' ''o'' 1, PutTenant ''u'' (Some ''t''), PutPolicy ''u'' ''u'' 1] memory_kv)"

lemma unit_cannot_weaken_witness:
  "\<exists>oc m. pa_decide sample_env memory_ops [demo_finding ''HR_RECORD''] (pa_unregistered ''u'' ''a'') Inbound None sample_unit = Inr (oc, m)
    \<and> Mask \<le> oc_action oc"
proof -
  let ?a = "pa_unregistered ''u'' ''a''" and ?f = "demo_finding ''HR_RECORD''"
  let ?d0 = "put_tenant memory_ops ''t'' None memory_kv" let ?d1 = "snd (put_policy toy_digest memory_ops ''t'' ''o'' 1 ?d0)"
  let ?d2 = "put_tenant memory_ops ''u'' (Some ''t'') ?d1"
  have d: "sample_unit = snd (put_policy toy_digest memory_ops ''u'' ''u'' 1 ?d2)"
    by (simp add: sample_unit_def pa_admin_def sample_env_def)
  have tu: "kl_key ''t'' [w] \<noteq> kl_key ''u'' [x]" for w x
    using named_key_eq [of "''t''" "''u''" w x] by (simp add: named_def plain_tenant_def)
  have keep: "hash_at (kl_key ''u'' [''tenant'']) (snd (put_policy H memory_ops ''u'' y v e)) = hash_at (kl_key ''u'' [''tenant'']) e"
    "hash_at (kl_key ''t'' [''policy'']) (snd (put_policy H memory_ops ''u'' y v e)) = hash_at (kl_key ''t'' [''policy'']) e"
    "hash_at (kl_key ''t'' [''policy'']) (put_tenant memory_ops ''u'' p e) = hash_at (kl_key ''t'' [''policy'']) e" for H y v e p
    using tu by (simp_all add: put_policy_def put_tenant_def Let_def memory_ops_def hash_at_mk_hset kl_key_inj)
  have own: "get_policy memory_ops ''u'' sample_unit = Inr (Some (fst (put_policy toy_digest memory_ops ''u'' ''u'' 1 ?d2)))"
    unfolding d by (rule get_put_policy)
  have par: "parent_of memory_ops ''u'' sample_unit = Some ''t''"
    using parent_put_tenant [of "''u''" "Some ''t''" ?d1] by (simp add: d parent_of_def hash_at_hgetall keep nonempty_def)
  have up: "get_policy memory_ops ''t'' sample_unit = Inr (Some (fst (put_policy toy_digest memory_ops ''t'' ''o'' 1 ?d0)))"
    using get_put_policy [of "''t''" toy_digest "''o''" 1 ?d0] by (simp add: get_policy_def d hash_at_hgetall keep)
  have rt: "request_tenant ?a = ''u''" by (simp add: request_tenant_def pa_unregistered_def)
  have org: "parsed (pe_codec sample_env) (fst (put_policy toy_digest memory_ops ''t'' ''o'' 1 ?d0)) = Inr demo_org"
    "parsed (pe_codec sample_env) (fst (put_policy toy_digest memory_ops ''u'' ''u'' 1 ?d2)) = Inr demo_bu_weak"
    by (simp_all add: parsed_def parse_policy_def put_policy_def Let_def sample_env_def sample_policies_def)
  obtain oc m where dec: "pa_decide sample_env memory_ops [?f] ?a Inbound None sample_unit = Inr (oc, m)"
    using own par up org by (simp add: pa_decide_def load_policies_def rt Let_def)
  have "overall_action (decide_all demo_org ?a [?f] Inbound None None []) (p_default demo_org) = Mask"
    using demo_org_match
    by (simp add: overall_action_def decide_all_def decide_action_eq layer_action_def last_match_def [of None] Let_def strongest_def
        pa_unregistered_def demo_defs rule_action_for_def first_clearance_def clearance_blocks_for_def clearance_applies_def
        clearance_is_empty_def)
  moreover have "p_mode demo_org = Enforce" by (simp add: demo_defs)
  moreover have "parent_of memory_ops (request_tenant ?a) sample_unit = Some ''t''" using par by (simp add: rt)
  ultimately have "Mask \<le> oc_action oc"
    using unit_cannot_weaken [OF dec _ up] org(1) by (auto simp: applied_action_Enforce)
  with dec show ?thesis by blast
qed

end
