(* ===== verification/DataPlane.thy ===== *)
theory DataPlane
  imports CpRedact PolicyHistory PartAHistory
begin

text \<open>
  The request path of the control plane (\<^verbatim>\<open>Control-DB/zerotrace/gateway/routes_dataplane.py\<close>, with \<^verbatim>\<open>policy/exceptions.py\<close> and
  the detector and upstream seams): policies are loaded, both legs decided, edited and verified, evidence is
  committed before anything is sent and before anything is delivered. A transaction works on a copy of the
  tables and a commit publishes it; the cache of policies is outside of it. The detector, the upstream, the
  clock and which database call fails are fields of \<open>dp_env\<close>; logging and the encoding of header values are left out.
\<close>

section \<open>Tables\<close>

record session_row =
  se_id :: string
  se_tenant_id :: string
  se_actor_id :: string
  se_channel :: string
  se_last_seen :: int

record request_row =
  rw_id :: string
  rw_session_id :: string
  rw_tenant_id :: string
  rw_upstream_model :: string
  rw_status :: string
  rw_decision_action :: action
  rw_applied_action :: action
  rw_mode :: policy_mode
  rw_org_policy_version :: nat
  rw_bu_policy_version :: "nat option"
  rw_degraded :: "string option"
  rw_latency_ms :: "int option"

record finding_row =
  fw_request_id :: string
  fw_leg :: leg
  fw_span_path :: string
  fw_entity_class :: string
  fw_confidence :: rat
  fw_decision_action :: action
  fw_applied_action :: action

record exception_row =
  ex_id :: nat
  ex_tenant_id :: string
  ex_actor_id :: "string option"
  ex_entity_class :: string
  ex_scope :: json
  ex_reason :: string
  ex_requested_by :: string
  ex_approved_by :: "string option"
  ex_expires_at :: int
  ex_created_from_ledger_id :: "int option"

record tables =
  tb_store :: store
  tb_sessions :: "session_row list"
  tb_requests :: "request_row list"
  tb_findings :: "finding_row list"
  tb_exceptions :: "exception_row list"

section \<open>Exceptions to policy\<close>

definition active_classes :: "exception_row list \<Rightarrow> int \<Rightarrow> string \<Rightarrow> string \<Rightarrow> string list" where
  "active_classes rows now tenant_id actor_id =
     map ex_entity_class (filter (\<lambda>r. ex_tenant_id r = tenant_id \<and> (ex_actor_id r = Some actor_id \<or> ex_actor_id r = None)
       \<and> ex_approved_by r \<noteq> None \<and> now < ex_expires_at r) rows)"

definition request_exception :: "exception_row list \<Rightarrow> nat \<Rightarrow> string \<Rightarrow> string option \<Rightarrow> string \<Rightarrow> string \<Rightarrow> string \<Rightarrow> int
    \<Rightarrow> json option \<Rightarrow> int option \<Rightarrow> exception_row list" where
  \<comment> \<open>\<open>new_id\<close> is the key the database gives\<close>
  "request_exception rows new_id tenant_id actor_id entity_class reason requested_by expires_at scope ledger_id =
     rows @ [\<lparr>ex_id = new_id, ex_tenant_id = tenant_id, ex_actor_id = actor_id, ex_entity_class = entity_class,
       ex_scope = (case scope of None \<Rightarrow> JObj [] | Some s \<Rightarrow> s), ex_reason = reason, ex_requested_by = requested_by,
       ex_approved_by = None, ex_expires_at = expires_at, ex_created_from_ledger_id = ledger_id\<rparr>]"

datatype exception_error = ExceptionNotFound | SelfApproval

definition approve :: "exception_row list \<Rightarrow> nat \<Rightarrow> string \<Rightarrow> exception_error + exception_row list" where
  "approve rows exception_id approved_by =
     (case find (\<lambda>r. ex_id r = exception_id) rows of
        None \<Rightarrow> Inl ExceptionNotFound
      | Some row \<Rightarrow>
          if ex_requested_by row = approved_by then Inl SelfApproval
          else Inr (map (\<lambda>r. if ex_id r = exception_id then r\<lparr>ex_approved_by := Some approved_by\<rparr> else r) rows))"

section \<open>Environment and answers\<close>

datatype db_failure = Operational | OtherFailure

datatype db_point =
    ReadPolicies | ReadExceptions | WriteSession
  | WriteRequest | WriteOut | CommitOut | WriteFailure | CommitFailure | WriteIn | CommitIn

record dp_env =
  de_yaml :: yaml_codec
  de_coerce :: coercion
  de_H :: "string \<Rightarrow> string"
  de_redact :: cp_env
  de_fails :: "db_point \<Rightarrow> db_failure option"
  de_io :: "nat \<Rightarrow> redis_env"
  de_now :: int
  de_stamps :: "db_point \<Rightarrow> string \<times> string" \<comment> \<open>the clock readings of an append\<close>
  de_latency :: int
  de_session_id :: string \<comment> \<open>what \<open>ids.session_id()\<close> returns\<close>
  de_detector_reason :: "string option"
  de_scan :: "json \<Rightarrow> leg \<Rightarrow> ctl_finding list"
  de_upstream_name :: string
  de_upstream_reason :: "string option"
  de_send :: "string \<Rightarrow> string \<Rightarrow> string + json" \<comment> \<open>bytes and model; the code of an \<open>UpstreamError\<close>, or the reply\<close>

record dp_request =
  dq_id :: string
  dq_channel :: "string option"
  dq_destination :: "string option"
  dq_session :: "string option"

record dp_world =
  dw_tables :: tables \<comment> \<open>what is committed\<close>
  dw_cache :: cache_world

datatype refusal =
    PolicyRefused store_error
  | SessionUnknown | SessionActorMismatch
  | DispatchVerificationFailed "string list"
  | LedgerUnavailable | SecurityCoreUnavailable
  | LedgerRecordInvalid append_error
  | InternalError

datatype dp_answer =
    Refused refusal
  | Blocked nat "(string \<times> string) list" \<comment> \<open>403 with the deciding ledger id\<close>
  | UpstreamFailed string nat "(string \<times> string) list" \<comment> \<open>502\<close>
  | Served string "(string \<times> string) list"

definition protected :: "dp_env \<Rightarrow> db_point \<Rightarrow> refusal + unit" where
  \<comment> \<open>inside the \<open>try\<close> blocks of the evidence phases\<close>
  "protected env pt = (if de_fails env pt = None then Inr () else Inl LedgerUnavailable)"

definition unprotected :: "dp_env \<Rightarrow> db_point \<Rightarrow> refusal + unit" where
  \<comment> \<open>left to \<open>get_session\<close>\<close>
  "unprotected env pt =
     (case de_fails env pt of
        None \<Rightarrow> Inr () | Some Operational \<Rightarrow> Inl SecurityCoreUnavailable | Some OtherFailure \<Rightarrow> Inl InternalError)"

section \<open>Detector and upstream\<close>

definition stub_scan :: "json \<Rightarrow> leg \<Rightarrow> ctl_finding list" where "stub_scan payload l = []"
definition stub_detector_reason :: "string option" where "stub_detector_reason = Some ''detection_stub''"

definition fixture_scan :: "ctl_finding list \<Rightarrow> json \<Rightarrow> leg \<Rightarrow> ctl_finding list" where
  "fixture_scan findings payload l = filter (\<lambda>f. cf_leg f = l) findings"

definition STUB_NOTE :: string where
  "STUB_NOTE = ''Patient R. Kumar, born 1979-03-02, has Type 2 diabetes and takes metformin '' @
     ''500mg twice daily. Last HbA1c 7.4% on 2026-06-11.''"

definition stub_send :: "string \<Rightarrow> string \<Rightarrow> string + json" where
  "stub_send serialized model =
     Inr (JObj [(''id'', JStr ''msg_stub''), (''type'', JStr ''message''), (''role'', JStr ''assistant''), (''model'', JStr model),
       (''content'', JList [JObj [(''type'', JStr ''text''), (''text'', JStr STUB_NOTE)]]), (''stop_reason'', JStr ''end_turn'')])"

section \<open>One request\<close>

definition dp_applied :: "action \<Rightarrow> policy_mode \<Rightarrow> action" where
  "dp_applied act mode = (if mode = Shadow then Allow else if act = Tokenize then Mask else act)"

definition truthy_json :: "json \<Rightarrow> bool" where
  "truthy_json v = (case v of
       JNull \<Rightarrow> False | JBool b \<Rightarrow> b | JInt i \<Rightarrow> i \<noteq> 0 | JFloat s \<Rightarrow> s \<notin> {''0.0'', ''-0.0''}
     | JStr s \<Rightarrow> s \<noteq> [] | JList js \<Rightarrow> js \<noteq> [] | JObj kvs \<Rightarrow> kvs \<noteq> [])"

definition model_of :: "dp_env \<Rightarrow> json \<Rightarrow> string" where
  "model_of env payload =
     (let v = jget ''model'' payload in if truthy_json v then text_of (de_redact env) v else ''unknown'')"

definition session_for :: "dp_env \<Rightarrow> tables \<Rightarrow> ctl_actor \<Rightarrow> dp_request \<Rightarrow> refusal + string \<times> tables" where
  "session_for env tb actor q =
     rbind (unprotected env WriteSession) (\<lambda>_.
       case dq_session q of
         Some requested \<Rightarrow>
           (case find (\<lambda>r. se_id r = requested) (tb_sessions tb) of
              None \<Rightarrow> Inl SessionUnknown
            | Some row \<Rightarrow>
                if se_tenant_id row \<noteq> request_tenant actor \<or> se_actor_id row \<noteq> ca_id actor then Inl SessionActorMismatch
                else Inr (se_id row, tb\<lparr>tb_sessions := map (\<lambda>r. if se_id r = requested then r\<lparr>se_last_seen := de_now env\<rparr> else r)
                  (tb_sessions tb)\<rparr>))
       | None \<Rightarrow>
           if de_session_id env \<in> se_id ` set (tb_sessions tb) then Inl InternalError
           else Inr (de_session_id env, tb\<lparr>tb_sessions := tb_sessions tb @
             [\<lparr>se_id = de_session_id env, se_tenant_id = request_tenant actor, se_actor_id = ca_id actor,
               se_channel = (case dq_channel q of None \<Rightarrow> ''http'' | Some c \<Rightarrow> c), se_last_seen = de_now env\<rparr>]\<rparr>))"

definition prepare :: "dp_env \<Rightarrow> dp_request \<Rightarrow> ctl_actor \<Rightarrow> dp_world
    \<Rightarrow> cache_world \<times> (refusal + resolved_policies \<times> string list \<times> string \<times> tables)" where
  \<comment> \<open>policies, exceptions and session; the cache keeps what the load did to it\<close>
  "prepare env q actor w =
     (let tb = dw_tables w; tenant = request_tenant actor in
      case unprotected env ReadPolicies of
        Inl e \<Rightarrow> (dw_cache w, Inl e)
      | Inr _ \<Rightarrow>
          (case load_for_tenant (de_yaml env) (de_H env) (de_io env) (tb_store tb) tenant (dw_cache w) of
             (c, Inl e) \<Rightarrow> (c, Inl (PolicyRefused e))
           | (c, Inr rp) \<Rightarrow>
               (c, rbind (unprotected env ReadExceptions) (\<lambda>_.
                 rbind (session_for env tb actor q) (\<lambda>(sid, tb1).
                   Inr (rp, active_classes (tb_exceptions tb) (de_now env) tenant (ca_id actor), sid, tb1))))))"

definition edited_body :: "dp_env \<Rightarrow> bool \<Rightarrow> policy_mode \<Rightarrow> json \<Rightarrow> (ctl_finding \<times> ctl_decision) list
    \<Rightarrow> refusal + json \<times> applied_edit list \<times> string list" where
  "edited_body env act mode payload pairs =
     (if \<not> act then Inr (payload, [], [])
      else case apply_decisions (de_redact env) payload pairs mode of
        Inl _ \<Rightarrow> Inl InternalError
      | Inr r \<Rightarrow>
          if rr_misses r \<noteq> [] then Inl (DispatchVerificationFailed (rr_misses r))
          else Inr (rr_payload r, rr_edits r, rr_degrade r))"

definition verified_bytes :: "dp_env \<Rightarrow> json \<Rightarrow> applied_edit list \<Rightarrow> refusal + string" where
  "verified_bytes env body edits =
     (let serialized = pr_json body in
      if edits = [] then Inr serialized
      else case verify_dispatch (de_redact env) serialized edits of
        Inl _ \<Rightarrow> Inl InternalError
      | Inr failures \<Rightarrow> if failures \<noteq> [] then Inl (DispatchVerificationFailed failures) else Inr serialized)"

definition outgoing :: "dp_env \<Rightarrow> bool \<Rightarrow> policy_mode \<Rightarrow> json \<Rightarrow> (ctl_finding \<times> ctl_decision) list \<Rightarrow> refusal + string \<times> string list" where
  \<comment> \<open>the bytes one leg hands over, and the reasons its edits add\<close>
  "outgoing env act mode payload pairs =
     rbind (edited_body env act mode payload pairs) (\<lambda>(body, edits, degrade).
       rbind (verified_bytes env body edits) (\<lambda>serialized. Inr (serialized, degrade)))"

definition top_decision :: "(ctl_finding \<times> ctl_decision) list \<Rightarrow> ctl_decision option" where
  \<comment> \<open>\<open>max\<close> by rank keeps the first\<close>
  "top_decision pairs =
     (case map snd pairs of
        [] \<Rightarrow> None
      | d # ds \<Rightarrow> Some (foldl (\<lambda>m d. if ctl_rank (cd_action m) < ctl_rank (cd_action d) then d else m) d ds))"

definition sorted_set :: "string list \<Rightarrow> string list" where "sorted_set xs = sort (remdups xs)"

fun join_comma :: "string list \<Rightarrow> string" where
  "join_comma [] = []" | "join_comma [s] = s" | "join_comma (s # t # ts) = s @ '','' @ join_comma (t # ts)"

definition degraded_text :: "string list \<Rightarrow> string option" where
  "degraded_text rs = (let t = join_comma rs in if t = [] then None else Some t)"

record dp_context =
  cx_id :: string
  cx_tenant :: string
  cx_actor :: ctl_actor
  cx_policies :: resolved_policies
  cx_model :: string
  cx_session :: string

definition cx_mode :: "dp_context \<Rightarrow> policy_mode" where "cx_mode cx = rp_mode (cx_policies cx)"

definition leg_payload :: "dp_context \<Rightarrow> leg \<Rightarrow> (ctl_finding \<times> ctl_decision) list \<Rightarrow> string list \<Rightarrow> fields" where
  "leg_payload cx l pairs degraded =
     (let top = top_decision pairs;
          decision_action = (case top of None \<Rightarrow> Allow | Some d \<Rightarrow> cd_action d);
          policies = cx_policies cx in
      [(''request_id'', JStr (cx_id cx)),
       (''actor_id'', JStr (ca_id (cx_actor cx))),
       (''actor_registered'', JBool (ca_registered (cx_actor cx))),
       (''leg'', JStr (leg_text l)),
       (''decision_action'', JStr (action_text decision_action)),
       (''applied_action'', JStr (action_text (dp_applied decision_action (cx_mode cx)))),
       (''mode'', JStr (mode_text (cx_mode cx))),
       (''rule_index'', opt_int (case top of None \<Rightarrow> None | Some d \<Rightarrow> cd_rule_index d)),
       (''rule_scope'', JStr (case top of None \<Rightarrow> ''default'' | Some d \<Rightarrow> scope_text (cd_rule_scope d))),
       (''org_policy_version'', JInt (int (rp_org_policy_version policies))),
       (''org_policy_content_hash'', JStr (rp_org_policy_content_hash policies)),
       (''bu_policy_version'', opt_int (rp_bu_policy_version policies)),
       (''bu_policy_content_hash'', opt_str (rp_bu_policy_content_hash policies)),
       (''exception_applied'', JBool (case top of None \<Rightarrow> False | Some d \<Rightarrow> cd_exception_applied d)),
       (''finding_classes'', JList (map (\<lambda>(f, d). JStr (cf_class f)) pairs)),
       (''finding_paths'', JList (map (\<lambda>(f, d). JStr (cf_path f)) pairs)),
       (''upstream_model'', JStr (cx_model cx)),
       (''degraded_reasons'', JList (map JStr (sorted_set degraded)))])"

definition leg_findings :: "dp_context \<Rightarrow> leg \<Rightarrow> (ctl_finding \<times> ctl_decision) list \<Rightarrow> finding_row list" where
  "leg_findings cx l pairs = map (\<lambda>(f, d).
     \<lparr>fw_request_id = cx_id cx, fw_leg = l, fw_span_path = cf_path f, fw_entity_class = cf_class f, fw_confidence = cf_conf f,
      fw_decision_action = cd_action d, fw_applied_action = dp_applied (cd_action d) (cx_mode cx)\<rparr>) pairs"

definition append_record :: "dp_env \<Rightarrow> db_point \<Rightarrow> string \<Rightarrow> string \<Rightarrow> fields \<Rightarrow> tables \<Rightarrow> refusal + nat \<times> tables" where
  "append_record env pt tenant event payload tb =
     (case dl_append (de_coerce env) (de_H env) (fst (de_stamps env pt)) (snd (de_stamps env pt)) (ledger_of (tb_store tb))
             tenant event payload None of
        Inl e \<Rightarrow> Inl (LedgerRecordInvalid e)
      | Inr (row, db) \<Rightarrow> Inr (lr_id row, tb\<lparr>tb_store := (tb_store tb)\<lparr>st_ledger := db\<rparr>\<rparr>))"

definition record_leg :: "dp_env \<Rightarrow> db_point \<Rightarrow> dp_context \<Rightarrow> leg \<Rightarrow> (ctl_finding \<times> ctl_decision) list \<Rightarrow> string list \<Rightarrow> tables
    \<Rightarrow> refusal + nat \<times> tables" where
  "record_leg env pt cx l pairs degraded tb =
     rbind (protected env pt) (\<lambda>_.
       append_record env pt (cx_tenant cx) ''request.decided'' (leg_payload cx l pairs degraded)
         (tb\<lparr>tb_findings := tb_findings tb @ leg_findings cx l pairs\<rparr>))"

definition update_request :: "string \<Rightarrow> (request_row \<Rightarrow> request_row) \<Rightarrow> tables \<Rightarrow> tables" where
  "update_request i f tb = tb\<lparr>tb_requests := map (\<lambda>r. if rw_id r = i then f r else r) (tb_requests tb)\<rparr>"

definition write_outbound :: "dp_env \<Rightarrow> dp_context \<Rightarrow> (ctl_finding \<times> ctl_decision) list \<Rightarrow> string list \<Rightarrow> tables
    \<Rightarrow> refusal + nat \<times> tables" where
  \<comment> \<open>the request row, the findings and the record, committed\<close>
  "write_outbound env cx pairs degraded tb =
     (let act = overall_action pairs Allow;
          row = \<lparr>rw_id = cx_id cx, rw_session_id = cx_session cx, rw_tenant_id = cx_tenant cx, rw_upstream_model = cx_model cx,
            rw_status = ''outbound_decided'', rw_decision_action = act, rw_applied_action = dp_applied act (cx_mode cx),
            rw_mode = cx_mode cx, rw_org_policy_version = rp_org_policy_version (cx_policies cx),
            rw_bu_policy_version = rp_bu_policy_version (cx_policies cx), rw_degraded = degraded_text degraded,
            rw_latency_ms = None\<rparr> in
      rbind (protected env WriteRequest) (\<lambda>_.
        if cx_id cx \<in> rw_id ` set (tb_requests tb) then Inl LedgerUnavailable
        else rbind (record_leg env WriteOut cx Outbound pairs degraded (tb\<lparr>tb_requests := tb_requests tb @ [row]\<rparr>)) (\<lambda>(i, tb).
          rbind (protected env CommitOut) (\<lambda>_. Inr (i, tb)))))"

definition write_failure :: "dp_env \<Rightarrow> dp_context \<Rightarrow> string \<Rightarrow> tables \<Rightarrow> refusal + tables" where
  "write_failure env cx code tb =
     rbind (protected env WriteFailure) (\<lambda>_.
       rbind (append_record env WriteFailure (cx_tenant cx) ''request.failed''
           (failed_payload (cx_id cx) ''upstream'' code (cx_model cx) (int (rp_org_policy_version (cx_policies cx)))
             (rp_bu_policy_version (cx_policies cx))) tb) (\<lambda>(i, tb).
         rbind (protected env CommitFailure) (\<lambda>_.
           Inr (update_request (cx_id cx) (\<lambda>r. r\<lparr>rw_status := ''upstream_failed'', rw_latency_ms := Some (de_latency env)\<rparr>) tb))))"

definition write_inbound :: "dp_env \<Rightarrow> dp_context \<Rightarrow> (ctl_finding \<times> ctl_decision) list \<Rightarrow> action \<Rightarrow> string list \<Rightarrow> tables
    \<Rightarrow> refusal + nat \<times> tables" where
  "write_inbound env cx pairs overall degraded tb =
     rbind (record_leg env WriteIn cx Inbound pairs degraded tb) (\<lambda>(i, tb).
       rbind (protected env CommitIn) (\<lambda>_.
         Inr (i, update_request (cx_id cx) (\<lambda>r. r\<lparr>rw_status := ''completed'', rw_decision_action := overall,
           rw_applied_action := dp_applied overall (cx_mode cx), rw_degraded := degraded_text degraded,
           rw_latency_ms := Some (de_latency env)\<rparr>) tb)))"

fun source_text :: "resolution_source \<Rightarrow> string" where
  "source_text Mtls = ''mtls''"
| "source_text Session = ''session''"
| "source_text InterceptionHeader = ''interception_header''"
| "source_text UnregisteredSource = ''unregistered''"

definition build_headers :: "dp_env \<Rightarrow> dp_context \<Rightarrow> action \<Rightarrow> nat \<Rightarrow> nat option \<Rightarrow> string list
    \<Rightarrow> (ctl_finding \<times> ctl_decision) list \<Rightarrow> (ctl_finding \<times> ctl_decision) list \<Rightarrow> (string \<times> string) list" where
  "build_headers env cx overall out_id in_id degraded out_pairs in_pairs =
     [(''X-ZeroTrace-Request-Id'', cx_id cx),
      (''X-ZeroTrace-Session'', cx_session cx),
      (''X-ZeroTrace-Actor'', ca_id (cx_actor cx)),
      (''X-ZeroTrace-Actor-Source'', source_text (ca_source (cx_actor cx))),
      (''X-ZeroTrace-Actor-Registered'', if ca_registered (cx_actor cx) then ''true'' else ''false''),
      (''X-ZeroTrace-Action'', action_text overall),
      (''X-ZeroTrace-Applied-Action'', action_text (dp_applied overall (cx_mode cx))),
      (''X-ZeroTrace-Mode'', mode_text (cx_mode cx)),
      (''X-ZeroTrace-Org-Policy-Version'', pr_nat (rp_org_policy_version (cx_policies cx))),
      (''X-ZeroTrace-Outbound-Ledger-Id'', pr_nat out_id),
      (''X-ZeroTrace-Outbound-Findings'', pr_nat (length out_pairs)),
      (''X-ZeroTrace-Inbound-Findings'', pr_nat (length in_pairs)),
      (''X-ZeroTrace-Upstream'', de_upstream_name env)]
     @ (case rp_bu_policy_version (cx_policies cx) of None \<Rightarrow> [] | Some v \<Rightarrow> [(''X-ZeroTrace-BU-Policy-Version'', pr_nat v)])
     @ (case in_id of None \<Rightarrow> [] | Some i \<Rightarrow> [(''X-ZeroTrace-Inbound-Ledger-Id'', pr_nat i)])
     @ (case top_decision in_pairs of None \<Rightarrow> [] | Some d \<Rightarrow> (case cd_rule_index d of None \<Rightarrow> []
         | Some i \<Rightarrow> [(''X-ZeroTrace-Rule-Index'', pr_nat i), (''X-ZeroTrace-Rule-Scope'', scope_text (cd_rule_scope d))]))
     @ (if in_pairs = [] then []
        else [(''X-ZeroTrace-Inbound-Classes'', join_comma (sorted_set (map (\<lambda>(f, d). cf_class f) in_pairs)))])
     @ (case degraded_text degraded of None \<Rightarrow> [] | Some t \<Rightarrow> [(''X-ZeroTrace-Degraded'', t)])"

definition decide_leg :: "dp_env \<Rightarrow> dp_context \<Rightarrow> string option \<Rightarrow> string list \<Rightarrow> json \<Rightarrow> leg \<Rightarrow> (ctl_finding \<times> ctl_decision) list" where
  "decide_leg env cx dst allowed payload l =
     decide_all (rp_org (cx_policies cx)) (cx_actor cx) (de_scan env payload l) l (rp_bu (cx_policies cx)) dst allowed"

definition deliver :: "dp_env \<Rightarrow> dp_context \<Rightarrow> string option \<Rightarrow> string list \<Rightarrow> string list \<Rightarrow> (ctl_finding \<times> ctl_decision) list \<Rightarrow> nat
    \<Rightarrow> json \<Rightarrow> tables \<Rightarrow> tables \<times> dp_answer" where
  \<comment> \<open>the inbound leg, from the reply on; the tables are those committed before\<close>
  "deliver env cx dst allowed degrade out_pairs out_id reply tb =
     (let in_pairs = decide_leg env cx dst allowed reply Inbound;
          in_action = overall_action in_pairs Allow;
          overall = strongest (overall_action out_pairs Allow) [in_action] in
      case outgoing env (cx_mode cx = Enforce) (cx_mode cx) reply in_pairs of
        Inl e \<Rightarrow> (tb, Refused e)
      | Inr (serialized, extra) \<Rightarrow>
          let degraded = sorted_set (degrade @ extra) in
          (case write_inbound env cx in_pairs overall degraded tb of
             Inl e \<Rightarrow> (tb, Refused e)
           | Inr (in_id, tb) \<Rightarrow>
               let headers = build_headers env cx overall out_id (Some in_id) degraded out_pairs in_pairs
               in (tb, if in_action = Block \<and> cx_mode cx = Enforce then Blocked in_id headers else Served serialized headers)))"

definition context_for :: "dp_env \<Rightarrow> dp_request \<Rightarrow> ctl_actor \<Rightarrow> json \<Rightarrow> resolved_policies \<Rightarrow> string \<Rightarrow> dp_context" where
  "context_for env q actor payload policies sid =
     \<lparr>cx_id = dq_id q, cx_tenant = request_tenant actor, cx_actor = actor, cx_policies = policies,
      cx_model = model_of env payload, cx_session = sid\<rparr>"

definition messages :: "dp_env \<Rightarrow> dp_request \<Rightarrow> ctl_actor \<Rightarrow> json \<Rightarrow> dp_world
    \<Rightarrow> dp_world \<times> (string \<times> tables) option \<times> dp_answer" where
  \<comment> \<open>with the bytes that were sent upstream and what was committed when they were\<close>
  "messages env q actor payload w =
     (case prepare env q actor w of
        (c, Inl e) \<Rightarrow> (w\<lparr>dw_cache := c\<rparr>, None, Refused e)
      | (c, Inr (policies, allowed, sid, tb)) \<Rightarrow>
          let cx = context_for env q actor payload policies sid;
              degrade = reasons (de_detector_reason env) @ reasons (de_upstream_reason env) @ rp_degraded_reasons policies;
              out_pairs = decide_leg env cx (dq_destination q) allowed payload Outbound;
              out_action = overall_action out_pairs Allow;
              blocking = (out_action = Block \<and> cx_mode cx = Enforce);
              stays = w\<lparr>dw_cache := c\<rparr>
          in (case outgoing env (\<not> blocking \<and> cx_mode cx = Enforce) (cx_mode cx) payload out_pairs of
                Inl e \<Rightarrow> (stays, None, Refused e)
              | Inr (serialized, extra) \<Rightarrow>
                  let degrade = degrade @ extra; degraded = sorted_set degrade in
                  (case write_outbound env cx out_pairs degraded tb of
                     Inl e \<Rightarrow> (stays, None, Refused e)
                   | Inr (out_id, tb) \<Rightarrow>
                       let headers = build_headers env cx out_action out_id None degraded out_pairs []
                       in if blocking then (stays\<lparr>dw_tables := tb\<rparr>, None, Blocked out_id headers)
                          else (case de_send env serialized (cx_model cx) of
                            Inl code \<Rightarrow>
                              (case write_failure env cx code tb of
                                 Inl e \<Rightarrow> (stays\<lparr>dw_tables := tb\<rparr>, Some (serialized, tb), Refused e)
                               | Inr tb2 \<Rightarrow> (stays\<lparr>dw_tables := tb2\<rparr>, Some (serialized, tb), UpstreamFailed code out_id headers))
                          | Inr reply \<Rightarrow>
                              (case deliver env cx (dq_destination q) allowed degrade out_pairs out_id reply tb of
                                 (tb2, answer) \<Rightarrow> (stays\<lparr>dw_tables := tb2\<rparr>, Some (serialized, tb), answer))))))"

section \<open>The strongest decision\<close>

lemma foldl_stronger:
  "cd_action (foldl (\<lambda>m d. if ctl_rank (cd_action m) < ctl_rank (cd_action d) then d else m) d ds)
     = foldl strongest2 (cd_action d) (map cd_action ds)"
  by (induction ds arbitrary: d) (simp_all add: strongest2_def)

lemma top_decision_action: "(case top_decision pairs of None \<Rightarrow> Allow | Some d \<Rightarrow> cd_action d) = overall_action pairs Allow"
  by (cases pairs) (simp_all add: top_decision_def overall_action_def strongest_def foldl_stronger comp_def)

lemma dp_applied_text: "dp_applied a m \<noteq> Tokenize"
  by (cases m) (auto simp: dp_applied_def)

section \<open>The record of a leg\<close>

definition leg_record :: "dp_context \<Rightarrow> leg \<Rightarrow> (ctl_finding \<times> ctl_decision) list \<Rightarrow> fields \<Rightarrow> bool" where
  "leg_record cx l pairs q \<longleftrightarrow> names_policies (cx_policies cx) q
     \<and> pget ''request_id'' q = JStr (cx_id cx) \<and> pget ''actor_id'' q = JStr (ca_id (cx_actor cx)) \<and> pget ''leg'' q = JStr (leg_text l)
     \<and> pget ''decision_action'' q = JStr (action_text (overall_action pairs Allow))
     \<and> pget ''applied_action'' q = JStr (action_text (dp_applied (overall_action pairs Allow) (cx_mode cx)))
     \<and> pget ''mode'' q = JStr (mode_text (cx_mode cx))
     \<and> pget ''finding_paths'' q = JList (map (\<lambda>(f, d). JStr (cf_path f)) pairs)"

definition leg_stored :: "dp_context \<Rightarrow> leg \<Rightarrow> (ctl_finding \<times> ctl_decision) list \<Rightarrow> string list \<Rightarrow> fields" where
  \<comment> \<open>the payload as the schema keeps it\<close>
  "leg_stored cx l pairs degraded = butlast (leg_payload cx l pairs degraded)
     @ [(''degraded_reasons'', JList (map JStr (sort (remdups (sorted_set degraded))))), (''truncated'', JBool False)]"

definition recordable_leg :: "dp_context \<Rightarrow> (ctl_finding \<times> ctl_decision) list \<Rightarrow> bool" where
  "recordable_leg cx pairs \<longleftrightarrow> hex64 (rp_org_policy_content_hash (cx_policies cx))
     \<and> (case rp_bu_policy_content_hash (cx_policies cx) of None \<Rightarrow> True | Some h \<Rightarrow> hex64 h)
     \<and> \<not> (\<exists>(f, d) \<in> set pairs. 200 < code_points (cf_class f)) \<and> \<not> (\<exists>(f, d) \<in> set pairs. 200 < code_points (cf_path f))"

lemma validate_leg_iff:
  assumes co: "coerces co"
  shows "validate co ''request.decided'' (leg_payload cx l pairs degraded)
    = (if recordable_leg cx pairs then Inr (leg_stored cx l pairs degraded) else Inl (ValidationFailed ''request.decided''))"
proof -
  note keep = coerces_keep [OF co]
  have types: "co LEG_T (JStr (leg_text l)) = Some (JStr (leg_text l))"
    "co DECISION_ACTION (JStr (action_text a)) = Some (JStr (action_text a))"
    "co APPLIED_ACTION (JStr (action_text (dp_applied a m))) = Some (JStr (action_text (dp_applied a m)))"
    "co MODE (JStr (mode_text m)) = Some (JStr (mode_text m))"
    "co (FOpt ftype.FInt) (opt_int i) = Some (opt_int i)" "co (FOpt ftype.FStr) (opt_str w) = Some (opt_str w)"
    "co FStrList (JList (map JStr ss)) = Some (JList (map JStr ss))" "co ftype.FStr (JStr s) = Some (JStr s)"
    "co ftype.FInt (JInt n) = Some (JInt n)" "co FBool (JBool b) = Some (JBool b)"
    "co FStrList (JList (map (\<lambda>(f, d). JStr (g f)) ps)) = Some (JList (map (\<lambda>(f, d). JStr (g f)) ps))"
    for l a m i w ss s n b and g :: "ctl_finding \<Rightarrow> string" and ps :: "(ctl_finding \<times> ctl_decision) list"
    by (rule keep; (rule opt_int_type opt_str_type strs_type
      | simp add: LEG_T_def DECISION_ACTION_def APPLIED_ACTION_def MODE_def leg_texts [simplified] action_texts [simplified]
          applied_texts [OF dp_applied_text, simplified] mode_texts [simplified] list_all_iff split: prod.split))+
  have keys: "\<not> (\<exists>k \<in> fst ` set (leg_payload cx l pairs degraded). k \<notin> fs_name ` set RequestDecided)"
    by (simp add: leg_payload_def Let_def RequestDecided_def)
  have hash: "check_hash data (JStr h) = (if hex64 h then Some (JStr h) else None)"
    "check_hash data (opt_str w) = (if case w of None \<Rightarrow> True | Some h \<Rightarrow> hex64 h then Some (opt_str w) else None)" for data h w
    by (simp_all add: check_hash_def opt_str_def split: option.split)
  have free: "no_free_text data (JList (map (\<lambda>(f, d). JStr (g f)) ps)) =
      (if \<exists>(f, d) \<in> set ps. 200 < code_points (g f) then None else Some (JList (map (\<lambda>(f, d). JStr (g f)) ps)))"
    for data and g :: "ctl_finding \<Rightarrow> string" and ps :: "(ctl_finding \<times> ctl_decision) list"
    by (auto simp: no_free_text_def split: prod.splits)
  have sorted: "sorted_unique data (JList (map JStr ss)) = Some (JList (map JStr (sort (remdups ss))))" for data ss
    by (simp add: sorted_unique_def str_of_JStr del: map_map)
  have "validate co ''request.decided'' (leg_payload cx l pairs degraded) =
    (case build_model co RequestDecided (leg_payload cx l pairs degraded) [] of
       None \<Rightarrow> Inl (ValidationFailed ''request.decided'') | Some p \<Rightarrow> Inr p)"
    using keys by (simp add: validate_def REGISTRY_def run_model_def split: option.split)
  also have "build_model co RequestDecided (leg_payload cx l pairs degraded) []
      = (if recordable_leg cx pairs then Some (leg_stored cx l pairs degraded) else None)"
    unfolding RequestDecided_def leg_payload_def leg_stored_def recordable_leg_def Let_def
    by (auto simp: types hash free sorted no_check_def split: option.splits)
  finally show ?thesis by simp
qed

lemma validate_leg:
  assumes "coerces co" "validate co ''request.decided'' (leg_payload cx l pairs degraded) = Inr q"
  shows "leg_record cx l pairs q"
proof -
  from assms(2) have "q = leg_stored cx l pairs degraded" unfolding validate_leg_iff [OF assms(1)] by (simp split: if_splits)
  then show ?thesis
    unfolding leg_record_def names_policies_def leg_stored_def leg_payload_def Let_def top_decision_action
    by (simp add: pget_def opt_int_def opt_str_def)
qed

section \<open>What every step keeps\<close>

definition env_ok :: "dp_env \<Rightarrow> bool" where
  "env_ok env \<longleftrightarrow> coerces (de_coerce env) \<and> (\<forall>x. length (de_H env x) = 32)"

definition tables_ok :: "dp_env \<Rightarrow> tables \<Rightarrow> bool" where
  "tables_ok env tb \<longleftrightarrow> store_ok (de_yaml env) (de_H env) (tb_store tb) \<and> flat (db_tenants (st_ledger (tb_store tb)))"

definition dp_ok :: "dp_env \<Rightarrow> dp_world \<Rightarrow> bool" where
  "dp_ok env w \<longleftrightarrow> tables_ok env (dw_tables w) \<and> policy.agrees (stored (tb_store (dw_tables w))) (dw_cache w)"

definition records :: "tables \<Rightarrow> ledger_row list" where "records tb = db_ledger (st_ledger (tb_store tb))"

definition grows :: "tables \<Rightarrow> tables \<Rightarrow> bool" where
  "grows tb tb' \<longleftrightarrow> st_policies (tb_store tb') = st_policies (tb_store tb)
     \<and> db_tenants (st_ledger (tb_store tb')) = db_tenants (st_ledger (tb_store tb)) \<and> prefix (records tb) (records tb')"

definition since :: "tables \<Rightarrow> tables \<Rightarrow> ledger_row list" where "since tb tb' = drop (length (records tb)) (records tb')"

definition holds_leg :: "ledger_row list \<Rightarrow> nat \<Rightarrow> dp_context \<Rightarrow> leg \<Rightarrow> (ctl_finding \<times> ctl_decision) list \<Rightarrow> bool" where
  "holds_leg rows i cx l pairs \<longleftrightarrow> (\<exists>row \<in> set rows. lr_id row = i \<and> lr_tenant_id row = cx_tenant cx
     \<and> lr_event_type row = ''request.decided'' \<and> leg_record cx l pairs (lr_payload row))"

lemma grows_refl: "grows tb tb" by (simp add: grows_def)

lemma grows_trans: "grows tb tb' \<Longrightarrow> grows tb' tb'' \<Longrightarrow> grows tb tb''"
  by (auto simp: grows_def intro: prefix_order.trans)

lemma grows_same: "tb_store tb' = tb_store tb \<Longrightarrow> grows tb tb'"
  by (simp add: grows_def records_def)

lemma holds_mono: "set rows \<subseteq> set rows' \<Longrightarrow> holds_leg rows i cx l pairs \<Longrightarrow> holds_leg rows' i cx l pairs"
  unfolding holds_leg_def by blast

lemma since_split: "grows tb tb' \<Longrightarrow> grows tb' tb'' \<Longrightarrow> since tb tb'' = since tb tb' @ since tb' tb''"
  by (auto simp: grows_def since_def prefix_def)

lemma since_same: "tb_store tb1 = tb_store tb \<Longrightarrow> since tb1 tb' = since tb tb'" "tb_store tb1 = tb_store tb \<Longrightarrow> since tb' tb1 = since tb' tb"
  by (simp_all add: since_def records_def)

lemma grows_grounded: "grows tb tb' \<Longrightarrow> grounded (tb_store tb) t rp \<Longrightarrow> grounded (tb_store tb') t rp"
  by (simp add: grows_def grounded_def owners_def)

lemma grows_stored: "grows tb tb' \<Longrightarrow> stored (tb_store tb') = stored (tb_store tb)"
  by (intro ext) (simp add: grows_def stored_def)

lemma tables_okD: "tables_ok env tb \<Longrightarrow> store_ok (de_yaml env) (de_H env) (tb_store tb) \<and> flat (db_tenants (st_ledger (tb_store tb)))"
  by (simp add: tables_ok_def)

lemma tables_ok_same: "tb_store tb' = tb_store tb \<Longrightarrow> tables_ok env tb' = tables_ok env tb"
  by (simp add: tables_ok_def)

lemma append_record_ok:
  assumes env: "env_ok env" and tb: "tables_ok env tb"
    and a: "append_record env pt t ev payload tb = Inr (i, tb')" and c: "pick_chain ev None = Inr c"
    and b: "\<And>q. validate (de_coerce env) ev payload = Inr q \<Longrightarrow> binds (de_H env) (ledger_of (tb_store tb)) t ev q"
  shows "tables_ok env tb' \<and> grows tb tb' \<and> tb_requests tb' = tb_requests tb
    \<and> (\<exists>row \<in> set (since tb tb'). \<exists>q. lr_id row = i \<and> lr_tenant_id row = t \<and> lr_event_type row = ev
         \<and> validate (de_coerce env) ev payload = Inr q \<and> lr_payload row = q)"
proof -
  let ?st = "tb_store tb"
  from tables_okD [OF tb] have ok: "store_ok (de_yaml env) (de_H env) ?st" "flat (db_tenants (st_ledger ?st))" by auto
  from ok(1) have good: "dl_good (de_H env) (ledger_of ?st)" by (simp add: store_ok_def)
  from env have co: "coerces (de_coerce env)" and len: "\<And>x. length (de_H env x) = 32" by (auto simp: env_ok_def)
  from a obtain row db where d: "dl_append (de_coerce env) (de_H env) (fst (de_stamps env pt)) (snd (de_stamps env pt)) (ledger_of ?st)
      t ev payload None = Inr (row, db)" and r: "i = lr_id row" "tb' = tb\<lparr>tb_store := ?st\<lparr>st_ledger := db\<rparr>\<rparr>"
    by (auto simp: append_record_def split: sum.splits)
  from d c obtain q where q: "validate (de_coerce env) ev payload = Inr q"
    by (auto simp: dl_append_def split: sum.splits)
  from dl_append_good [OF good co len c q b [OF q], of "fst (de_stamps env pt)" "snd (de_stamps env pt)"] d obtain anchor where
    n: "dl_good (de_H env) db" "db_ledger db = db_ledger (ledger_of ?st) @ [row, anchor]" "lr_payload row = q" "lr_event_type row = ev"
      "lr_tenant_id row = t" "db_policies db = db_policies (ledger_of ?st)" "db_tenants db = db_tenants (ledger_of ?st)" by auto
  have "ledger_of (?st\<lparr>st_ledger := db\<rparr>) = db" using n(6) by (simp add: ledger_of_def)
  with n(1) ok n(7) have "tables_ok env tb'" by (simp add: tables_ok_def store_ok_def r(2))
  moreover have "grows tb tb'" using n(2,7) by (simp add: grows_def records_def r(2))
  moreover have "row \<in> set (since tb tb')" using n(2) by (simp add: since_def records_def r(2))
  ultimately show ?thesis using q n(3-5) r by auto
qed

lemma record_leg_ok:
  assumes env: "env_ok env" and tb: "tables_ok env tb" and g: "grounded (tb_store tb) (cx_tenant cx) (cx_policies cx)"
    and a: "record_leg env pt cx l pairs degraded tb = Inr (i, tb')"
  shows "tables_ok env tb' \<and> grows tb tb' \<and> holds_leg (since tb tb') i cx l pairs"
proof -
  let ?tb = "tb\<lparr>tb_findings := tb_findings tb @ leg_findings cx l pairs\<rparr>"
  from a have a: "append_record env pt (cx_tenant cx) ''request.decided'' (leg_payload cx l pairs degraded) ?tb = Inr (i, tb')"
    by (auto simp: record_leg_def rbind_Inr_iff)
  have tb': "tables_ok env ?tb" using tb by (simp add: tables_ok_def)
  from env have co: "coerces (de_coerce env)" by (simp add: env_ok_def)
  have "binds (de_H env) (ledger_of (tb_store ?tb)) (cx_tenant cx) ''request.decided'' q"
    if "validate (de_coerce env) ''request.decided'' (leg_payload cx l pairs degraded) = Inr q" for q
    using grounded_binds [of "de_yaml env" "de_H env" "tb_store tb" "cx_tenant cx" "cx_policies cx" q] tables_okD [OF tb] g
      validate_leg [OF co that] by (simp add: leg_record_def)
  from append_record_ok [OF env tb' a pick_decided this] validate_leg [OF co] show ?thesis
    unfolding holds_leg_def using grows_same [of ?tb tb] grows_trans [of tb ?tb tb'] since_same(1) [of ?tb tb tb'] by fastforce
qed

lemma write_outbound_ok:
  assumes "env_ok env" "tables_ok env tb" "grounded (tb_store tb) (cx_tenant cx) (cx_policies cx)"
    and "write_outbound env cx pairs degraded tb = Inr (i, tb')"
  shows "tables_ok env tb' \<and> grows tb tb' \<and> holds_leg (since tb tb') i cx Outbound pairs"
proof -
  from assms(4) obtain rows where r: "record_leg env WriteOut cx Outbound pairs degraded (tb\<lparr>tb_requests := rows\<rparr>) = Inr (i, tb')"
    by (auto simp: write_outbound_def Let_def rbind_Inr_iff split: if_splits)
  let ?tb = "tb\<lparr>tb_requests := rows\<rparr>"
  have same: "tb_store ?tb = tb_store tb" by simp
  from record_leg_ok [OF assms(1) _ _ r] assms(2,3) grows_same [OF same] since_same(1) [OF same, of tb'] show ?thesis
    by (auto simp: tables_ok_def intro: grows_trans)
qed

lemma write_failure_ok:
  assumes "env_ok env" "tables_ok env tb" "write_failure env cx code tb = Inr tb'"
  shows "tables_ok env tb' \<and> grows tb tb'"
proof -
  from assms(3) obtain i tb1 payload where tb1: "append_record env WriteFailure (cx_tenant cx) ''request.failed'' payload tb = Inr (i, tb1)"
    "tb_store tb' = tb_store tb1" by (auto simp: write_failure_def rbind_Inr_iff update_request_def)
  have "pick_chain ''request.failed'' None = Inr ''dp''" by (simp add: pick_chain_def CHAIN_BY_EVENT_def CHAINS_def)
  from append_record_ok [OF assms(1,2) tb1(1) this binds_request_failed] tb1(2) show ?thesis
    using grows_same [OF tb1(2)] by (auto simp: tables_ok_def intro: grows_trans)
qed

lemma write_inbound_ok:
  assumes "env_ok env" "tables_ok env tb" "grounded (tb_store tb) (cx_tenant cx) (cx_policies cx)"
    and "write_inbound env cx pairs overall degraded tb = Inr (i, tb')"
  shows "tables_ok env tb' \<and> grows tb tb' \<and> holds_leg (since tb tb') i cx Inbound pairs"
proof -
  from assms(4) obtain tb1 where tb1: "record_leg env WriteIn cx Inbound pairs degraded tb = Inr (i, tb1)" "tb_store tb' = tb_store tb1"
    by (auto simp: write_inbound_def rbind_Inr_iff update_request_def)
  from record_leg_ok [OF assms(1-3) tb1(1)] grows_same [OF tb1(2)] since_same(2) [OF tb1(2), of tb] tb1(2) show ?thesis
    by (auto simp: tables_ok_def intro: grows_trans)
qed

lemma prepare_ok:
  assumes w: "dp_ok env w" and p: "prepare env q actor w = (c, r)"
  shows "policy.agrees (stored (tb_store (dw_tables w))) c"
    and "r = Inr (rp, allowed, sid, tb) \<Longrightarrow> grounded (tb_store tb) (request_tenant actor) rp \<and> tb_store tb = tb_store (dw_tables w)"
proof -
  let ?st = "tb_store (dw_tables w)" and ?t = "request_tenant actor"
  from w have ok: "store_ok (de_yaml env) (de_H env) ?st" and ag: "policy.agrees (stored ?st) (dw_cache w)"
    by (auto simp: dp_ok_def tables_ok_def)
  from ok have h: "history_ok (st_policies ?st)" by (simp add: store_ok_def)
  obtain c' l where l: "load_for_tenant (de_yaml env) (de_H env) (de_io env) ?st ?t (dw_cache w) = (c', l)" by fastforce
  note res = load_for_tenant_result [OF h ag l]
  show "policy.agrees (stored ?st) c"
    using p res ag l by (auto simp: prepare_def Let_def split: sum.splits)
  assume r: "r = Inr (rp, allowed, sid, tb)"
  with p l have "l = Inr rp" and s: "session_for env (dw_tables w) actor q = Inr (sid, tb)"
    by (auto simp: prepare_def Let_def rbind_Inr_iff split: sum.splits)
  with l load_grounded [OF ok ag] have "grounded ?st ?t rp" by blast
  moreover have "tb_store tb = ?st" using s
    by (auto simp: session_for_def rbind_Inr_iff split: option.splits if_splits)
  ultimately show "grounded (tb_store tb) ?t rp \<and> tb_store tb = ?st" by simp
qed

lemma deliver_ok:
  assumes "env_ok env" "tables_ok env tb" "grounded (tb_store tb) (cx_tenant cx) (cx_policies cx)"
    and "deliver env cx dst allowed degrade out_pairs out_id reply tb = (tb', answer)"
  shows "tables_ok env tb' \<and> grows tb tb'"
proof (cases "outgoing env (cx_mode cx = Enforce) (cx_mode cx) reply (decide_leg env cx dst allowed reply Inbound)")
  case (Inl e)
  with assms(2,4) show ?thesis by (simp add: deliver_def Let_def grows_refl)
next
  case (Inr x)
  obtain serialized extra where x: "x = (serialized, extra)" by (cases x)
  let ?w = "write_inbound env cx (decide_leg env cx dst allowed reply Inbound)
    (strongest (overall_action out_pairs Allow) [overall_action (decide_leg env cx dst allowed reply Inbound) Allow])
    (sorted_set (degrade @ extra)) tb"
  show ?thesis
  proof (cases ?w)
    case w: (Inl e)
    with Inr x assms(2,4) show ?thesis by (simp add: deliver_def Let_def grows_refl)
  next
    case w: (Inr y)
    obtain i tb1 where y: "y = (i, tb1)" by (cases y)
    with w Inr x assms(4) have "tb' = tb1" by (simp add: deliver_def Let_def split: if_splits)
    with write_inbound_ok [OF assms(1-3) w [unfolded y]] show ?thesis by simp
  qed
qed

section \<open>Runs\<close>

record dp_run =
  ru_cx :: dp_context
  ru_allowed :: "string list"
  ru_before :: tables \<comment> \<open>the transaction after \<open>prepare\<close>\<close>
  ru_bytes :: string
  ru_extra :: "string list"
  ru_out_id :: nat
  ru_committed :: tables

definition ru_pairs :: "dp_env \<Rightarrow> dp_request \<Rightarrow> json \<Rightarrow> dp_run \<Rightarrow> (ctl_finding \<times> ctl_decision) list" where
  "ru_pairs env q payload ru = decide_leg env (ru_cx ru) (dq_destination q) (ru_allowed ru) payload Outbound"

definition ru_blocking :: "dp_env \<Rightarrow> dp_request \<Rightarrow> json \<Rightarrow> dp_run \<Rightarrow> bool" where
  "ru_blocking env q payload ru \<longleftrightarrow> overall_action (ru_pairs env q payload ru) Allow = Block \<and> cx_mode (ru_cx ru) = Enforce"

definition runs_to :: "dp_env \<Rightarrow> dp_request \<Rightarrow> ctl_actor \<Rightarrow> json \<Rightarrow> dp_world \<Rightarrow> dp_world \<Rightarrow> dp_run \<Rightarrow> bool" where
  \<comment> \<open>a request whose outbound evidence is committed\<close>
  "runs_to env q actor payload w w' ru \<longleftrightarrow>
     (\<exists>rp sid. prepare env q actor w = (dw_cache w', Inr (rp, ru_allowed ru, sid, ru_before ru))
        \<and> ru_cx ru = context_for env q actor payload rp sid)
     \<and> outgoing env (\<not> ru_blocking env q payload ru \<and> cx_mode (ru_cx ru) = Enforce) (cx_mode (ru_cx ru)) payload
         (ru_pairs env q payload ru) = Inr (ru_bytes ru, ru_extra ru)
     \<and> (\<exists>degraded. write_outbound env (ru_cx ru) (ru_pairs env q payload ru) degraded (ru_before ru) = Inr (ru_out_id ru, ru_committed ru))"

lemma messages_cases:
  assumes "messages env q actor payload w = (w', sent, answer)"
  obtains (early) e r where "prepare env q actor w = (dw_cache w', r)" "dw_tables w' = dw_tables w" "sent = None" "answer = Refused e"
  | (blocked) ru h where "runs_to env q actor payload w w' ru" "ru_blocking env q payload ru" "sent = None"
      "dw_tables w' = ru_committed ru" "answer = Blocked (ru_out_id ru) h"
  | (failed) ru code e where "runs_to env q actor payload w w' ru" "\<not> ru_blocking env q payload ru"
      "sent = Some (ru_bytes ru, ru_committed ru)" "dw_tables w' = ru_committed ru" "answer = Refused e"
      "de_send env (ru_bytes ru) (cx_model (ru_cx ru)) = Inl code"
  | (upstream) ru code tb h where "runs_to env q actor payload w w' ru" "\<not> ru_blocking env q payload ru"
      "sent = Some (ru_bytes ru, ru_committed ru)" "write_failure env (ru_cx ru) code (ru_committed ru) = Inr tb"
      "dw_tables w' = tb" "answer = UpstreamFailed code (ru_out_id ru) h" "de_send env (ru_bytes ru) (cx_model (ru_cx ru)) = Inl code"
  | (delivered) ru reply degrade where "runs_to env q actor payload w w' ru" "\<not> ru_blocking env q payload ru"
      "sent = Some (ru_bytes ru, ru_committed ru)" "de_send env (ru_bytes ru) (cx_model (ru_cx ru)) = Inr reply"
      "deliver env (ru_cx ru) (dq_destination q) (ru_allowed ru) degrade (ru_pairs env q payload ru) (ru_out_id ru) reply (ru_committed ru)
         = (dw_tables w', answer)"
proof -
  obtain c r where p: "prepare env q actor w = (c, r)" by fastforce
  show thesis
  proof (cases r)
    case (Inl e)
    with assms p show ?thesis by (intro early [of r e]) (auto simp: messages_def)
  next
    case r: (Inr x)
    obtain rp allowed sid tb where x: "x = (rp, allowed, sid, tb)" by (cases x)
    let ?cx = "context_for env q actor payload rp sid"
    let ?pairs = "decide_leg env ?cx (dq_destination q) allowed payload Outbound"
    let ?blocking = "overall_action ?pairs Allow = Block \<and> cx_mode ?cx = Enforce"
    let ?degrade = "reasons (de_detector_reason env) @ reasons (de_upstream_reason env) @ rp_degraded_reasons rp"
    note m = assms [unfolded messages_def p r x prod.case sum.case Let_def]
    show ?thesis
    proof (cases "outgoing env (\<not> ?blocking \<and> cx_mode ?cx = Enforce) (cx_mode ?cx) payload ?pairs")
      case (Inl e)
      with m p show ?thesis by (intro early [of r e]) auto
    next
      case out: (Inr y)
      obtain bytes extra where y: "y = (bytes, extra)" by (cases y)
      let ?w = "write_outbound env ?cx ?pairs (sorted_set (?degrade @ extra)) tb"
      show ?thesis
      proof (cases ?w)
        case (Inl e)
        with m p out y show ?thesis by (intro early [of r e]) auto
      next
        case wr: (Inr z)
        obtain out_id tb1 where z: "z = (out_id, tb1)" by (cases z)
        let ?ru = "\<lparr>ru_cx = ?cx, ru_allowed = allowed, ru_before = tb, ru_bytes = bytes, ru_extra = extra, ru_out_id = out_id,
          ru_committed = tb1\<rparr>"
        have pairs: "ru_pairs env q payload ?ru = ?pairs" and bl: "ru_blocking env q payload ?ru = ?blocking"
          by (simp_all add: ru_pairs_def ru_blocking_def)
        note m = m [unfolded out wr y z prod.case sum.case]
        have c: "dw_cache w' = c" using m by (auto split: if_splits sum.splits prod.splits)
        have run: "runs_to env q actor payload w w' ?ru"
          using p r x out y wr z c by (auto simp: runs_to_def pairs bl)
        show ?thesis
        proof (cases ?blocking)
          case True
          with m show ?thesis by (intro blocked [OF run]) (auto simp: bl)
        next
          case False
          note m = m [unfolded if_not_P [OF False]]
          show ?thesis
          proof (cases "de_send env bytes (cx_model ?cx)")
            case s: (Inl code)
            show ?thesis
            proof (cases "write_failure env ?cx code tb1")
              case (Inl e)
              with m s False show ?thesis by (intro failed [OF run, of e code]) (auto simp: bl)
            next
              case (Inr tb2)
              with m s False show ?thesis by (intro upstream [OF run, of code tb2]) (auto simp: bl)
            qed
          next
            case (Inr reply)
            with m False show ?thesis
              by (intro delivered [OF run, of reply "?degrade @ extra"]) (auto simp: bl pairs split: prod.splits)
          qed
        qed
      qed
    qed
  qed
qed

lemma runs_ok:
  assumes "env_ok env" "dp_ok env w" "runs_to env q actor payload w w' ru"
  shows "tables_ok env (ru_committed ru)" "grows (dw_tables w) (ru_committed ru)"
    "holds_leg (since (dw_tables w) (ru_committed ru)) (ru_out_id ru) (ru_cx ru) Outbound (ru_pairs env q payload ru)"
    "grounded (tb_store (ru_committed ru)) (cx_tenant (ru_cx ru)) (cx_policies (ru_cx ru))"
    "policy.agrees (stored (tb_store (dw_tables w))) (dw_cache w')"
proof -
  from assms(3) obtain rp sid degraded where p: "prepare env q actor w = (dw_cache w', Inr (rp, ru_allowed ru, sid, ru_before ru))"
    and cx: "ru_cx ru = context_for env q actor payload rp sid"
    and wr: "write_outbound env (ru_cx ru) (ru_pairs env q payload ru) degraded (ru_before ru) = Inr (ru_out_id ru, ru_committed ru)"
    by (auto simp: runs_to_def)
  from prepare_ok(2) [OF assms(2) p refl] have g: "grounded (tb_store (ru_before ru)) (cx_tenant (ru_cx ru)) (cx_policies (ru_cx ru))"
    and same: "tb_store (ru_before ru) = tb_store (dw_tables w)" by (auto simp: cx context_for_def)
  from assms(2) same have "tables_ok env (ru_before ru)" by (simp add: dp_ok_def tables_ok_def)
  note o' = write_outbound_ok [OF assms(1) this g wr]
  show "tables_ok env (ru_committed ru)" using o' by simp
  show "grows (dw_tables w) (ru_committed ru)" using o' grows_same [OF same] by (blast intro: grows_trans)
  show "holds_leg (since (dw_tables w) (ru_committed ru)) (ru_out_id ru) (ru_cx ru) Outbound (ru_pairs env q payload ru)"
    using o' since_same(1) [OF same] by simp
  show "grounded (tb_store (ru_committed ru)) (cx_tenant (ru_cx ru)) (cx_policies (ru_cx ru))"
    using o' g grows_grounded by blast
  show "policy.agrees (stored (tb_store (dw_tables w))) (dw_cache w')" by (rule prepare_ok(1) [OF assms(2) p])
qed

lemma messages_keep:
  assumes "env_ok env" "dp_ok env w" "messages env q actor payload w = (w', sent, answer)"
  shows "dp_ok env w' \<and> grows (dw_tables w) (dw_tables w')"
  using assms(3)
proof (cases rule: messages_cases)
  case (early e r)
  with assms(2) prepare_ok(1) [OF assms(2) early(1)] show ?thesis by (simp add: dp_ok_def grows_refl)
next
  case (blocked ru h)
  with runs_ok [OF assms(1,2) blocked(1)] grows_stored [of "dw_tables w" "dw_tables w'"] show ?thesis by (simp add: dp_ok_def)
next
  case (failed ru code e)
  with runs_ok [OF assms(1,2) failed(1)] grows_stored [of "dw_tables w" "dw_tables w'"] show ?thesis by (simp add: dp_ok_def)
next
  case (upstream ru code tb h)
  note r = runs_ok [OF assms(1,2) upstream(1)]
  from write_failure_ok [OF assms(1) r(1) upstream(4)] r(2) have "tables_ok env (dw_tables w')" "grows (dw_tables w) (dw_tables w')"
    using upstream(5) by (auto intro: grows_trans)
  with r(5) grows_stored [of "dw_tables w" "dw_tables w'"] show ?thesis by (simp add: dp_ok_def)
next
  case (delivered ru reply degrade)
  note r = runs_ok [OF assms(1,2) delivered(1)]
  from deliver_ok [OF assms(1) r(1,4) delivered(5)] r(2) have "tables_ok env (dw_tables w')" "grows (dw_tables w) (dw_tables w')"
    by (auto intro: grows_trans)
  with r(5) grows_stored [of "dw_tables w" "dw_tables w'"] show ?thesis by (simp add: dp_ok_def)
qed

section \<open>Requests that go through\<close>

lemma grounded_hex:
  assumes "store_ok ym H st" "\<And>x. length (H x) = 32" "grounded st t rp"
  shows "hex64 (rp_org_policy_content_hash rp) \<and> (case rp_bu_policy_content_hash rp of None \<Rightarrow> True | Some h \<Rightarrow> hex64 h)"
proof -
  have hex: "hex64 (pt_content_hash r)" if "r \<in> set (st_policies st)" for r
    using assms(1) that hashed_hex [of H, OF assms(2)] by (auto simp: store_ok_def hashes_ok_def)
  moreover from assms(3) have "rp_bu_policy_content_hash rp \<noteq> None \<Longrightarrow> rp_bu rp \<noteq> None" by (auto simp: grounded_def owners_def)
  ultimately show ?thesis using assms(3) by (fastforce simp: grounded_def split: option.split)
qed

lemma record_leg_succeeds:
  assumes env: "env_ok env" and tb: "tables_ok env tb" and g: "grounded (tb_store tb) (cx_tenant cx) (cx_policies cx)"
    and "de_fails env pt = None" "\<forall>(f, d) \<in> set pairs. code_points (cf_class f) \<le> 200 \<and> code_points (cf_path f) \<le> 200"
  shows "\<exists>i tb'. record_leg env pt cx l pairs degraded tb = Inr (i, tb')"
proof -
  let ?st = "tb_store tb"
  from env have co: "coerces (de_coerce env)" and len: "\<And>x. length (de_H env x) = 32" by (auto simp: env_ok_def)
  from tables_okD [OF tb] have ok: "store_ok (de_yaml env) (de_H env) ?st" "flat (db_tenants (st_ledger ?st))" by auto
  have "recordable_leg cx pairs"
    using grounded_hex [OF ok(1) len g] assms(5) by (fastforce simp: recordable_leg_def)
  then have v: "validate (de_coerce env) ''request.decided'' (leg_payload cx l pairs degraded) = Inr (leg_stored cx l pairs degraded)"
    by (simp add: validate_leg_iff [OF co])
  from grounded_binds [OF ok g] validate_leg [OF co v]
  have b: "binds (de_H env) (ledger_of ?st) (cx_tenant cx) ''request.decided'' (leg_stored cx l pairs degraded)"
    by (simp add: leg_record_def)
  from ok(1) have "dl_good (de_H env) (ledger_of ?st)" by (simp add: store_ok_def)
  from dl_append_good [OF this co len pick_decided v b, of "fst (de_stamps env pt)" "snd (de_stamps env pt)"] obtain row db where
    "dl_append (de_coerce env) (de_H env) (fst (de_stamps env pt)) (snd (de_stamps env pt)) (ledger_of ?st) (cx_tenant cx)
      ''request.decided'' (leg_payload cx l pairs degraded) None = Inr (row, db)" by blast
  then show ?thesis by (simp add: record_leg_def protected_def assms(4) append_record_def)
qed

definition short_findings :: "dp_env \<Rightarrow> bool" where
  "short_findings env \<longleftrightarrow> (\<forall>p l. \<forall>f \<in> set (de_scan env p l). code_points (cf_class f) \<le> 200 \<and> code_points (cf_path f) \<le> 200)"

lemma leg_short: "short_findings env \<Longrightarrow> \<forall>(f, d) \<in> set (decide_leg env cx dst allowed p l). code_points (cf_class f) \<le> 200 \<and> code_points (cf_path f) \<le> 200"
  by (auto simp: short_findings_def decide_leg_def decide_all_def)

lemma write_outbound_succeeds:
  assumes "env_ok env" "tables_ok env tb" "grounded (tb_store tb) (cx_tenant cx) (cx_policies cx)"
    and "\<And>pt. de_fails env pt = None" "\<forall>(f, d) \<in> set pairs. code_points (cf_class f) \<le> 200 \<and> code_points (cf_path f) \<le> 200"
    and "cx_id cx \<notin> rw_id ` set (tb_requests tb)"
  shows "\<exists>i tb'. write_outbound env cx pairs degraded tb = Inr (i, tb')"
proof -
  have "\<exists>rows. write_outbound env cx pairs degraded tb =
      rbind (record_leg env WriteOut cx Outbound pairs degraded (tb\<lparr>tb_requests := rows\<rparr>)) (\<lambda>(i, tb). Inr (i, tb))"
    unfolding write_outbound_def Let_def protected_def assms(4) using assms(6) by (simp only: rbind_simps if_True if_False simp_thms) blast
  then obtain rows where rows: "write_outbound env cx pairs degraded tb =
      rbind (record_leg env WriteOut cx Outbound pairs degraded (tb\<lparr>tb_requests := rows\<rparr>)) (\<lambda>(i, tb). Inr (i, tb))" by blast
  have "\<exists>i tb'. record_leg env WriteOut cx Outbound pairs degraded (tb\<lparr>tb_requests := rows\<rparr>) = Inr (i, tb')"
    by (rule record_leg_succeeds [OF assms(1)]) (use assms(2-5) in \<open>simp_all add: tables_ok_def\<close>)
  with rows show ?thesis by auto
qed

lemma write_inbound_succeeds:
  assumes "env_ok env" "tables_ok env tb" "grounded (tb_store tb) (cx_tenant cx) (cx_policies cx)"
    and "\<And>pt. de_fails env pt = None" "\<forall>(f, d) \<in> set pairs. code_points (cf_class f) \<le> 200 \<and> code_points (cf_path f) \<le> 200"
  shows "\<exists>i tb'. write_inbound env cx pairs overall degraded tb = Inr (i, tb')"
  using record_leg_succeeds [OF assms(1-3) assms(4) assms(5), of WriteIn Inbound degraded]
  by (auto simp: write_inbound_def protected_def assms(4))

lemma deliver_succeeds:
  defines "backs env cx dst allowed reply \<equiv> decide_leg env cx dst allowed reply Inbound"
  assumes out: "outgoing env (cx_mode cx = Enforce) (cx_mode cx) reply (backs env cx dst allowed reply) = Inr (served, extra)"
    and nb: "\<not> (overall_action (backs env cx dst allowed reply) Allow = Block \<and> cx_mode cx = Enforce)"
    and w: "write_inbound env cx (backs env cx dst allowed reply)
      (strongest (overall_action outs Allow) [overall_action (backs env cx dst allowed reply) Allow]) (sorted_set (degrade @ extra)) tb
      = Inr (i, tb2)"
  shows "\<exists>h. deliver env cx dst allowed degrade outs out_id reply tb = (tb2, Served served h)"
  using nb unfolding deliver_def Let_def backs_def [symmetric] out sum.case prod.case w by auto

lemma request_goes_through:
  fixes payload :: json
  assumes env: "env_ok env" and w: "dp_ok env w" and sound: "\<And>pt. de_fails env pt = None" "short_findings env"
    and l: "load_for_tenant (de_yaml env) (de_H env) (de_io env) (tb_store (dw_tables w)) (request_tenant actor) (dw_cache w) = (c, Inr rp)"
    and new: "dq_session q = None" "de_session_id env \<notin> se_id ` set (tb_sessions (dw_tables w))"
      "dq_id q \<notin> rw_id ` set (tb_requests (dw_tables w))"
  defines "cx \<equiv> context_for env q actor payload rp (de_session_id env)"
  defines "allowed \<equiv> active_classes (tb_exceptions (dw_tables w)) (de_now env) (request_tenant actor) (ca_id actor)"
  defines "pairs p k \<equiv> decide_leg env cx (dq_destination q) allowed p k"
  assumes out: "outgoing env (cx_mode cx = Enforce) (cx_mode cx) payload (pairs payload Outbound) = Inr (bytes, extra)"
      "\<not> (overall_action (pairs payload Outbound) Allow = Block \<and> cx_mode cx = Enforce)"
    and reply: "de_send env bytes (model_of env payload) = Inr reply"
      "outgoing env (cx_mode cx = Enforce) (cx_mode cx) reply (pairs reply Inbound) = Inr (served, extra')"
      "\<not> (overall_action (pairs reply Inbound) Allow = Block \<and> cx_mode cx = Enforce)"
  shows "\<exists>w' tb h. messages env q actor payload w = (w', Some (bytes, tb), Served served h)"
proof -
  let ?row = "\<lparr>se_id = de_session_id env, se_tenant_id = request_tenant actor, se_actor_id = ca_id actor,
    se_channel = (case dq_channel q of None \<Rightarrow> ''http'' | Some ch \<Rightarrow> ch), se_last_seen = de_now env\<rparr>"
  let ?tb = "(dw_tables w)\<lparr>tb_sessions := tb_sessions (dw_tables w) @ [?row]\<rparr>"
  have p: "prepare env q actor w = (c, Inr (rp, allowed, de_session_id env, ?tb))"
    using l new by (simp add: prepare_def unprotected_def sound session_for_def Let_def allowed_def)
  from prepare_ok(2) [OF w p refl] have g: "grounded (tb_store ?tb) (cx_tenant cx) (cx_policies cx)"
    by (simp add: cx_def context_for_def)
  have tb: "tables_ok env ?tb" using w by (simp add: dp_ok_def tables_ok_def)
  let ?degrade = "reasons (de_detector_reason env) @ reasons (de_upstream_reason env) @ rp_degraded_reasons rp @ extra"
  let ?outs = "pairs payload Outbound" and ?backs = "pairs reply Inbound"
  have "\<exists>i tb1. write_outbound env cx ?outs degraded ?tb = Inr (i, tb1)" for degraded
    by (rule write_outbound_succeeds [OF env tb g]) (use new(3) sound leg_short in \<open>auto simp: pairs_def cx_def context_for_def\<close>)
  then obtain i tb1 where i: "write_outbound env cx ?outs (sorted_set ?degrade) ?tb = Inr (i, tb1)" by blast
  note o' = write_outbound_ok [OF env tb g i]
  have "\<exists>i' tb2. write_inbound env cx ?backs overall degraded tb1 = Inr (i', tb2)" for overall degraded
    by (rule write_inbound_succeeds [OF env]) (use o' g grows_grounded sound leg_short in \<open>auto simp: pairs_def\<close>)
  then obtain i' tb2 where "write_inbound env cx ?backs (strongest (overall_action ?outs Allow) [overall_action ?backs Allow])
      (sorted_set (?degrade @ extra')) tb1 = Inr (i', tb2)" by blast
  from deliver_succeeds [OF reply(2,3) [unfolded pairs_def] this [unfolded pairs_def], of i] obtain h where
    d: "deliver env cx (dq_destination q) allowed ?degrade ?outs i reply tb1 = (tb2, Served served h)" unfolding pairs_def by blast
  have "(\<not> (overall_action ?outs Allow = Block \<and> cx_mode cx = Enforce) \<and> cx_mode cx = Enforce) = (cx_mode cx = Enforce)"
    and "cx_model cx = model_of env payload"
    using out(2) by (auto simp: cx_def context_for_def)
  then show ?thesis
    unfolding messages_def p prod.case sum.case Let_def cx_def [symmetric] pairs_def [symmetric] append_assoc
    by (simp only: out(1) i d if_not_P [OF out(2)] reply(1) prod.case sum.case append_assoc) blast
qed

section \<open>Evidence first\<close>

lemma text_injective: "action_text a = action_text b \<longleftrightarrow> a = b" "mode_text m = mode_text n \<longleftrightarrow> m = n" "leg_text l = leg_text k \<longleftrightarrow> l = k"
proof -
  show "action_text a = action_text b \<longleftrightarrow> a = b" by (cases a; cases b; simp)
  show "mode_text m = mode_text n \<longleftrightarrow> m = n" by (cases m; cases n; simp)
  show "leg_text l = leg_text k \<longleftrightarrow> l = k" by (cases l; cases k; simp)
qed

definition decided_row :: "dp_request \<Rightarrow> ctl_actor \<Rightarrow> leg \<Rightarrow> ledger_row \<Rightarrow> bool" where
  \<comment> \<open>a record of one leg of this request\<close>
  "decided_row q actor l row \<longleftrightarrow> lr_tenant_id row = request_tenant actor \<and> lr_event_type row = ''request.decided''
     \<and> pget ''request_id'' (lr_payload row) = JStr (dq_id q) \<and> pget ''actor_id'' (lr_payload row) = JStr (ca_id actor)
     \<and> pget ''leg'' (lr_payload row) = JStr (leg_text l)"

lemma runs_names:
  assumes "runs_to env q actor payload w w' ru"
  shows "cx_tenant (ru_cx ru) = request_tenant actor \<and> cx_id (ru_cx ru) = dq_id q \<and> cx_actor (ru_cx ru) = actor"
  using assms by (auto simp: runs_to_def context_for_def)

lemma runs_loaded:
  assumes "runs_to env q actor payload w w' ru"
    and "load_for_tenant (de_yaml env) (de_H env) (de_io env) (tb_store (dw_tables w)) (request_tenant actor) (dw_cache w) = (c, Inr rp)"
  shows "cx_policies (ru_cx ru) = rp \<and> cx_mode (ru_cx ru) = p_mode (rp_org rp) \<and> cx_actor (ru_cx ru) = actor
    \<and> cx_model (ru_cx ru) = model_of env payload
    \<and> ru_allowed ru = active_classes (tb_exceptions (dw_tables w)) (de_now env) (request_tenant actor) (ca_id actor)"
  using assms by (auto simp: runs_to_def context_for_def cx_mode_def rp_mode_def prepare_def Let_def rbind_Inr_iff split: sum.splits)

lemma runs_load:
  assumes "runs_to env q actor payload w w' ru"
  shows "\<exists>c rp. load_for_tenant (de_yaml env) (de_H env) (de_io env) (tb_store (dw_tables w)) (request_tenant actor) (dw_cache w) = (c, Inr rp)"
  using assms by (auto simp: runs_to_def prepare_def Let_def rbind_Inr_iff split: sum.splits prod.splits)

definition decided_by :: "dp_env \<Rightarrow> dp_request \<Rightarrow> ctl_actor \<Rightarrow> dp_world \<Rightarrow> resolved_policies \<Rightarrow> json \<Rightarrow> leg \<Rightarrow> (ctl_finding \<times> ctl_decision) list" where
  \<comment> \<open>each finding of one leg with what these policies and the caller's live exceptions decide\<close>
  "decided_by env q actor w rp payload l = map (\<lambda>f. (f, decide (rp_org rp) actor f l (rp_bu rp) (dq_destination q)
     (active_classes (tb_exceptions (dw_tables w)) (de_now env) (request_tenant actor) (ca_id actor)))) (de_scan env payload l)"

definition evidence :: "resolved_policies \<Rightarrow> (ctl_finding \<times> ctl_decision) list \<Rightarrow> fields \<Rightarrow> bool" where
  \<comment> \<open>the record names the policies, their mode, what they decided in all and where the findings are\<close>
  "evidence rp pairs q \<longleftrightarrow> names_policies rp q \<and> pget ''mode'' q = JStr (mode_text (p_mode (rp_org rp)))
     \<and> pget ''decision_action'' q = JStr (action_text (overall_action pairs Allow))
     \<and> pget ''finding_paths'' q = JList (map (\<lambda>(f, d). JStr (cf_path f)) pairs)"

text \<open>C2. Nothing is sent before its evidence is durable: whenever bytes go to the upstream, the committed tables at that
  moment hold a new record of this request's outbound leg, with the loaded policies, their mode, the strongest
  of what they decide on the findings and where those are; that decision is not one that blocks in enforce
  mode; every tenant's ledger verifies then, and what is committed stays a prefix of what the request leaves.\<close>

theorem nothing_leaves_without_evidence:
  assumes "env_ok env" "dp_ok env w" "messages env q actor payload w = (w', Some (bytes, tb), answer)"
  shows "(\<exists>c rp. load_for_tenant (de_yaml env) (de_H env) (de_io env) (tb_store (dw_tables w)) (request_tenant actor) (dw_cache w) = (c, Inr rp)
      \<and> \<not> (overall_action (decided_by env q actor w rp payload Outbound) Allow = Block \<and> p_mode (rp_org rp) = Enforce)
      \<and> (\<exists>row \<in> set (since (dw_tables w) tb). decided_row q actor Outbound row
           \<and> evidence rp (decided_by env q actor w rp payload Outbound) (lr_payload row)))
    \<and> (\<forall>u. vr_ok (dl_verify (de_H env) (ledger_of (tb_store tb)) u None))
    \<and> grows (dw_tables w) tb \<and> grows tb (dw_tables w')"
proof -
  obtain ru where ru: "runs_to env q actor payload w w' ru" "\<not> ru_blocking env q payload ru" "tb = ru_committed ru"
    and later: "grows tb (dw_tables w')"
    using assms(3)
  proof (cases rule: messages_cases)
    case (upstream ru code tb2 h)
    with write_failure_ok [OF assms(1) _ upstream(4)] runs_ok [OF assms(1,2) upstream(1)] that [of ru] show ?thesis by auto
  next
    case (delivered ru reply degrade)
    with deliver_ok [OF assms(1) _ _ delivered(5)] runs_ok [OF assms(1,2) delivered(1)] that [of ru] show ?thesis by auto
  qed (use that grows_refl in auto)
  note r = runs_ok [OF assms(1,2) ru(1)]
  from runs_load [OF ru(1)] obtain c rp where l: "load_for_tenant (de_yaml env) (de_H env) (de_io env) (tb_store (dw_tables w))
    (request_tenant actor) (dw_cache w) = (c, Inr rp)" by blast
  note cx = runs_loaded [OF ru(1) l] runs_names [OF ru(1)]
  have pairs: "ru_pairs env q payload ru = decided_by env q actor w rp payload Outbound"
    using cx by (simp add: ru_pairs_def decide_leg_def decide_all_def decided_by_def)
  from r(3) obtain row where row: "row \<in> set (since (dw_tables w) tb)" "lr_tenant_id row = cx_tenant (ru_cx ru)"
    "lr_event_type row = ''request.decided''" "leg_record (ru_cx ru) Outbound (ru_pairs env q payload ru) (lr_payload row)"
    unfolding holds_leg_def ru(3) by blast
  have "decided_row q actor Outbound row \<and> evidence rp (decided_by env q actor w rp payload Outbound) (lr_payload row)"
    using row(2-4) cx by (simp add: decided_row_def evidence_def leg_record_def pairs)
  moreover have "\<not> (overall_action (decided_by env q actor w rp payload Outbound) Allow = Block \<and> p_mode (rp_org rp) = Enforce)"
    using ru(2) cx by (simp add: ru_blocking_def pairs)
  moreover from r(1) ru(3) have "vr_ok (dl_verify (de_H env) (ledger_of (tb_store tb)) u None)" for u
    by (simp add: tables_ok_def store_ok_def dl_good_def)
  ultimately show ?thesis using l row(1) r(2) ru(3) later by blast
qed

text \<open>C6. Evidence is refused only for over-long text: under loaded policies and while no database call fails, the findings
  and the record of a leg are written, and every ledger still verifies, exactly when no finding has a class or a
  path of more than 200 characters; otherwise the record is refused and nothing is kept.\<close>

theorem leg_is_recorded_unless_long:
  assumes "env_ok env" "tables_ok env tb" "policy.agrees (stored (tb_store tb)) c" "de_fails env pt = None"
    and "load_for_tenant (de_yaml env) (de_H env) (de_io env) (tb_store tb) (cx_tenant cx) c = (c', Inr (cx_policies cx))"
  shows "record_leg env pt cx l pairs degraded tb =
      Inl (LedgerRecordInvalid (BadPayload (ValidationFailed ''request.decided'')))
      \<and> (\<exists>(f, d) \<in> set pairs. 200 < code_points (cf_class f) \<or> 200 < code_points (cf_path f))
    \<or> (\<exists>i tb'. record_leg env pt cx l pairs degraded tb = Inr (i, tb') \<and> holds_leg (since tb tb') i cx l pairs
          \<and> (\<forall>u. vr_ok (dl_verify (de_H env) (ledger_of (tb_store tb')) u None)))
      \<and> (\<forall>(f, d) \<in> set pairs. code_points (cf_class f) \<le> 200 \<and> code_points (cf_path f) \<le> 200)"
proof -
  have g: "grounded (tb_store tb) (cx_tenant cx) (cx_policies cx)"
    using load_grounded [OF _ assms(3,5)] assms(2) by (simp add: tables_ok_def)
  show ?thesis
  proof (cases "\<forall>(f, d) \<in> set pairs. code_points (cf_class f) \<le> 200 \<and> code_points (cf_path f) \<le> 200")
    case True
    from record_leg_succeeds [OF assms(1,2) g assms(4) True] obtain i tb' where
      ok: "record_leg env pt cx l pairs degraded tb = Inr (i, tb')" by blast
    from record_leg_ok [OF assms(1,2) g ok] ok True show ?thesis by (simp add: tables_ok_def store_ok_def dl_good_def)
  next
    case False
    then have long: "\<exists>(f, d) \<in> set pairs. 200 < code_points (cf_class f) \<or> 200 < code_points (cf_path f)" by fastforce
    then have "\<not> recordable_leg cx pairs" by (fastforce simp: recordable_leg_def)
    with assms(1,4) have "record_leg env pt cx l pairs degraded tb = Inl (LedgerRecordInvalid (BadPayload (ValidationFailed ''request.decided'')))"
      by (simp add: record_leg_def protected_def append_record_def dl_append_def pick_decided validate_leg_iff env_ok_def)
    with long show ?thesis by blast
  qed
qed

lemma holds_rows:
  assumes "holds_leg rows i cx l pairs" "cx_tenant cx = request_tenant actor \<and> cx_id cx = dq_id q \<and> cx_actor cx = actor"
  shows "\<exists>row \<in> set rows. decided_row q actor l row \<and> lr_id row = i \<and> pget ''mode'' (lr_payload row) = JStr (mode_text (cx_mode cx))
    \<and> pget ''decision_action'' (lr_payload row) = JStr (action_text (overall_action pairs Allow))"
  using assms by (fastforce simp: holds_leg_def decided_row_def leg_record_def)

lemma deliver_record:
  assumes "env_ok env" "tables_ok env tb" "grounded (tb_store tb) (cx_tenant cx) (cx_policies cx)"
    and "deliver env cx dst allowed degrade out_pairs out_id reply tb = (tb', answer)"
  shows "case answer of
      Served body h \<Rightarrow> \<exists>i pairs. holds_leg (since tb tb') i cx Inbound pairs \<and> \<not> (overall_action pairs Allow = Block \<and> cx_mode cx = Enforce)
    | Blocked i h \<Rightarrow> \<exists>pairs. holds_leg (since tb tb') i cx Inbound pairs \<and> overall_action pairs Allow = Block \<and> cx_mode cx = Enforce
    | UpstreamFailed code i h \<Rightarrow> False
    | Refused e \<Rightarrow> True"
proof (cases "outgoing env (cx_mode cx = Enforce) (cx_mode cx) reply (decide_leg env cx dst allowed reply Inbound)")
  case (Inl e)
  with assms(4) show ?thesis by (auto simp: deliver_def Let_def)
next
  case (Inr x)
  obtain serialized extra where x: "x = (serialized, extra)" by (cases x)
  let ?pairs = "decide_leg env cx dst allowed reply Inbound"
  let ?w = "write_inbound env cx ?pairs (strongest (overall_action out_pairs Allow) [overall_action ?pairs Allow])
    (sorted_set (degrade @ extra)) tb"
  show ?thesis
  proof (cases ?w)
    case (Inl e)
    with Inr x assms(4) show ?thesis by (auto simp: deliver_def Let_def)
  next
    case w: (Inr y)
    obtain i tb1 where y: "y = (i, tb1)" by (cases y)
    note m = assms(4) [unfolded deliver_def Let_def Inr x prod.case sum.case w y]
    from m have "tb' = tb1" by (auto split: if_splits)
    with write_inbound_ok [OF assms(1-3) w [unfolded y]] have holds: "holds_leg (since tb tb') i cx Inbound ?pairs" by simp
    show ?thesis
    proof (cases "overall_action ?pairs Allow = Block \<and> cx_mode cx = Enforce")
      case True
      with m holds show ?thesis by auto
    next
      case False
      with m obtain body h where "answer = Served body h" by auto
      with holds False show ?thesis by (simp only: dp_answer.case) blast
    qed
  qed
qed

text \<open>C3. What the client receives has its record: a body is served only after something was sent, with new records of both
  legs of this request, neither blocked; a refusal by policy names the id of a new record of this request whose
  decision is to block, in enforce mode; and an upstream failure names the outbound record.\<close>

theorem every_answer_has_its_record:
  assumes "env_ok env" "dp_ok env w" "messages env q actor payload w = (w', sent, answer)"
  shows "case answer of
      Served body h \<Rightarrow> sent \<noteq> None \<and> (\<forall>l. \<exists>row \<in> set (since (dw_tables w) (dw_tables w')). decided_row q actor l row
        \<and> \<not> (pget ''mode'' (lr_payload row) = JStr ''enforce'' \<and> pget ''decision_action'' (lr_payload row) = JStr ''block''))
    | Blocked i h \<Rightarrow> \<exists>l. \<exists>row \<in> set (since (dw_tables w) (dw_tables w')). decided_row q actor l row \<and> lr_id row = i
        \<and> pget ''mode'' (lr_payload row) = JStr ''enforce'' \<and> pget ''decision_action'' (lr_payload row) = JStr ''block''
    | UpstreamFailed code i h \<Rightarrow> sent \<noteq> None \<and> (\<exists>row \<in> set (since (dw_tables w) (dw_tables w')). decided_row q actor Outbound row \<and> lr_id row = i)
    | Refused e \<Rightarrow> True"
  using assms(3)
proof (cases rule: messages_cases)
  case (blocked ru h)
  from holds_rows [OF runs_ok(3) [OF assms(1,2) blocked(1)] runs_names [OF blocked(1)]] blocked(2,4) obtain row where
    "row \<in> set (since (dw_tables w) (dw_tables w'))" "decided_row q actor Outbound row" "lr_id row = ru_out_id ru"
    "pget ''mode'' (lr_payload row) = JStr (mode_text Enforce)" "pget ''decision_action'' (lr_payload row) = JStr (action_text Block)"
    by (auto simp: ru_blocking_def)
  with blocked(5) show ?thesis by auto
next
  case (upstream ru code tb h)
  note r = runs_ok [OF assms(1,2) upstream(1)]
  from write_failure_ok [OF assms(1) r(1) upstream(4)] have g: "grows (ru_committed ru) (dw_tables w')" using upstream(5) by simp
  from holds_rows [OF r(3) runs_names [OF upstream(1)]] since_split [OF r(2) g] upstream(3,6) show ?thesis by auto
next
  case (delivered ru reply degrade)
  note r = runs_ok [OF assms(1,2) delivered(1)] and names = runs_names [OF delivered(1)]
  note d = deliver_record [OF assms(1) r(1,4) delivered(5)]
  from deliver_ok [OF assms(1) r(1,4) delivered(5)] since_split [OF r(2)]
  have new: "since (dw_tables w) (dw_tables w') = since (dw_tables w) (ru_committed ru) @ since (ru_committed ru) (dw_tables w')" by blast
  show ?thesis
  proof (cases answer)
    case (Served body h)
    with d obtain i in_pairs where i: "holds_leg (since (ru_committed ru) (dw_tables w')) i (ru_cx ru) Inbound in_pairs"
      "\<not> (overall_action in_pairs Allow = Block \<and> cx_mode (ru_cx ru) = Enforce)" by auto
    have "\<exists>row \<in> set (since (dw_tables w) (dw_tables w')). decided_row q actor l row
        \<and> \<not> (pget ''mode'' (lr_payload row) = JStr (mode_text Enforce) \<and> pget ''decision_action'' (lr_payload row) = JStr (action_text Block))" for l
      using holds_rows [OF r(3) names] holds_rows [OF i(1) names] i(2) delivered(2) new
      by (cases l) (auto simp: ru_blocking_def text_injective simp del: mode_text.simps action_text.simps)
    with Served delivered(3) show ?thesis by simp
  next
    case (Blocked i h)
    with d obtain in_pairs where i: "holds_leg (since (ru_committed ru) (dw_tables w')) i (ru_cx ru) Inbound in_pairs"
      "overall_action in_pairs Allow = Block \<and> cx_mode (ru_cx ru) = Enforce" by auto
    from holds_rows [OF i(1) names] i(2) new Blocked show ?thesis by (auto intro!: exI [of _ Inbound])
  qed (use d in auto)
qed simp_all

section \<open>Edits and modes\<close>

lemma outgoing_hides:
  assumes "outgoing env True Enforce payload pairs = Inr (bytes, extra)" "(f, d) \<in> set pairs" "acts d"
    and "get (ce_digits (de_redact env)) payload (cf_path f) = Inr (JStr s)"
  shows "\<exists>body. ce_loads (de_redact env) bytes = Some body \<and> s \<notin> set (walk_strings body)"
proof -
  from assms(1) obtain r where r: "apply_decisions (de_redact env) payload pairs Enforce = Inr r" "rr_misses r = []"
    and v: "verified_bytes env (rr_payload r) (rr_edits r) = Inr bytes"
    by (auto simp: outgoing_def edited_body_def rbind_Inr_iff split: sum.splits if_splits)
  from edits_of_acting [OF r assms(2,3,4)] have "rr_edits r \<noteq> []" by auto
  with v have "verify_dispatch (de_redact env) bytes (rr_edits r) = Inr []"
    by (auto simp: verified_bytes_def Let_def split: sum.splits if_splits)
  from verified_body_hides_originals [OF r this assms(2-4)] show ?thesis by blast
qed

lemma outgoing_shadow: "outgoing env act Shadow payload pairs = Inr (pr_json payload, [])"
  by (simp add: outgoing_def edited_body_def apply_decisions_def verified_bytes_def Let_def)

lemma deliver_served:
  assumes "deliver env cx dst allowed degrade out_pairs out_id reply tb = (tb', Served body h)"
  shows "\<exists>extra. outgoing env (cx_mode cx = Enforce) (cx_mode cx) reply (decide_leg env cx dst allowed reply Inbound) = Inr (body, extra)"
  using assms by (auto simp: deliver_def Let_def split: sum.splits prod.splits if_splits)

text \<open>C4. In enforce mode neither leg carries what was to be hidden: for a finding that the loaded policies decide to mask,
  tokenise or block, the text it points at is no string of the bytes sent upstream, nor of the bytes served to the
  client, whatever the detector, the upstream and the exceptions are.\<close>

theorem enforced_legs_are_clean:
  assumes "messages env q actor payload w = (w', Some (bytes, tb), answer)"
    and "load_for_tenant (de_yaml env) (de_H env) (de_io env) (tb_store (dw_tables w)) (request_tenant actor) (dw_cache w) = (c, Inr rp)"
    and "p_mode (rp_org rp) = Enforce"
    and "\<And>l f. verdict l f = decide (rp_org rp) actor f l (rp_bu rp) (dq_destination q)
      (active_classes (tb_exceptions (dw_tables w)) (de_now env) (request_tenant actor) (ca_id actor))"
  shows "(\<forall>f s. f \<in> set (de_scan env payload Outbound) \<and> acts (verdict Outbound f)
        \<and> get (ce_digits (de_redact env)) payload (cf_path f) = Inr (JStr s)
        \<longrightarrow> (\<exists>body. ce_loads (de_redact env) bytes = Some body \<and> s \<notin> set (walk_strings body)))
    \<and> (\<forall>reply served h f s. de_send env bytes (model_of env payload) = Inr reply \<and> answer = Served served h
        \<and> f \<in> set (de_scan env reply Inbound) \<and> acts (verdict Inbound f)
        \<and> get (ce_digits (de_redact env)) reply (cf_path f) = Inr (JStr s)
        \<longrightarrow> (\<exists>body. ce_loads (de_redact env) served = Some body \<and> s \<notin> set (walk_strings body)))"
proof -
  obtain ru where ru: "runs_to env q actor payload w w' ru" "\<not> ru_blocking env q payload ru" "bytes = ru_bytes ru"
    and d: "\<And>served h. answer = Served served h \<Longrightarrow> \<exists>reply degrade. de_send env bytes (cx_model (ru_cx ru)) = Inr reply
      \<and> deliver env (ru_cx ru) (dq_destination q) (ru_allowed ru) degrade (ru_pairs env q payload ru) (ru_out_id ru) reply tb
         = (dw_tables w', answer)"
    using assms(1) by (cases rule: messages_cases) auto
  note l = runs_loaded [OF ru(1) assms(2)]
  have mode: "cx_mode (ru_cx ru) = Enforce" using l assms(3) by simp
  have leg: "decide_leg env (ru_cx ru) (dq_destination q) (ru_allowed ru) p k = map (\<lambda>f. (f, verdict k f)) (de_scan env p k)" for p k
    using l by (simp add: decide_leg_def decide_all_def assms(4))
  from ru(1) have out: "outgoing env (\<not> ru_blocking env q payload ru \<and> cx_mode (ru_cx ru) = Enforce) (cx_mode (ru_cx ru)) payload
      (ru_pairs env q payload ru) = Inr (ru_bytes ru, ru_extra ru)" by (simp add: runs_to_def)
  then have out: "outgoing env True Enforce payload (ru_pairs env q payload ru) = Inr (bytes, ru_extra ru)"
    using ru(2,3) by (simp add: mode)
  have sent: "\<exists>body. ce_loads (de_redact env) bytes = Some body \<and> s \<notin> set (walk_strings body)"
    if "f \<in> set (de_scan env payload Outbound)" "acts (verdict Outbound f)"
      "get (ce_digits (de_redact env)) payload (cf_path f) = Inr (JStr s)" for f s
    using outgoing_hides [OF out _ that(2,3)] that(1) by (auto simp: ru_pairs_def leg)
  have returned: "\<exists>body. ce_loads (de_redact env) served = Some body \<and> s \<notin> set (walk_strings body)"
    if "de_send env bytes (model_of env payload) = Inr reply" "answer = Served served h" "f \<in> set (de_scan env reply Inbound)"
      "acts (verdict Inbound f)" "get (ce_digits (de_redact env)) reply (cf_path f) = Inr (JStr s)" for reply served h f s
  proof -
    note given = that
    from d [OF given(2)] given(1,2) l obtain degrade where
      "deliver env (ru_cx ru) (dq_destination q) (ru_allowed ru) degrade (ru_pairs env q payload ru) (ru_out_id ru) reply tb
        = (dw_tables w', Served served h)" by auto
    from deliver_served [OF this] obtain extra where "outgoing env True Enforce reply
        (decide_leg env (ru_cx ru) (dq_destination q) (ru_allowed ru) reply Inbound) = Inr (served, extra)" by (auto simp: mode)
    from outgoing_hides [OF this _ given(4,5)] given(3) show ?thesis by (auto simp: leg)
  qed
  show ?thesis
    by (intro conjI allI impI; (elim conjE)?) (rule sent, assumption+, rule returned, assumption+)
qed


section \<open>A request that goes through\<close>

definition sample_policy :: "policy_mode \<Rightarrow> policy" where
  "sample_policy m = to_policy ((demo_draft [plain_rule [''HR_RECORD''] Mask])\<lparr>p_mode := m\<rparr>) 1"

definition sample_row :: table_row where
  "sample_row = \<lparr>pt_tenant_id = ''acme'', pt_version = 1, pt_yaml = ''y'',
     pt_content_hash = policy_row_hash toy_digest ''acme'' (JInt 1) ''y'', pt_active = True\<rparr>"

definition sample_world :: dp_world where
  "sample_world = \<lparr>dw_tables = \<lparr>tb_store = \<lparr>st_policies = [sample_row], st_ledger = empty_db [] [(''acme'', None)]\<rparr>,
     tb_sessions = [], tb_requests = [], tb_findings = [], tb_exceptions = []\<rparr>, dw_cache = new_cache []\<rparr>"

definition hr_finding :: ctl_finding where
  "hr_finding = (demo_finding ''HR_RECORD'')\<lparr>cf_path := ''a'', cf_leg := Outbound\<rparr>"

definition sample_dp :: "policy_mode \<Rightarrow> dp_env" where
  \<comment> \<open>one finding in the request; the upstream answers \<open>null\<close>\<close>
  "sample_dp m = \<lparr>de_yaml = \<lparr>ym_keys = \<lambda>_. None, ym_draft = \<lambda>_. None, ym_policy = \<lambda>_. Some (sample_policy m), ym_dump = \<lambda>_ _. [],
       ym_unversioned = \<lambda>y. y\<rparr>,
     de_coerce = strict_coercion, de_H = toy_digest, de_redact = span_env masked, de_fails = \<lambda>_. None, de_io = \<lambda>_. demo_env 10 False,
     de_now = 0, de_stamps = \<lambda>_. (''1'', ''2''), de_latency = 3, de_session_id = ''s1'', de_detector_reason = None,
     de_scan = \<lambda>p l. if l = Outbound then [hr_finding] else [], de_upstream_name = ''sample'', de_upstream_reason = None,
     de_send = \<lambda>bytes model. Inr JNull\<rparr>"

definition sample_request :: dp_request where
  "sample_request = \<lparr>dq_id = ''r1'', dq_channel = None, dq_destination = None, dq_session = None\<rparr>"

lemma sample_dp_simps [simp]:
  "de_coerce (sample_dp m) = strict_coercion" "de_H (sample_dp m) = toy_digest" "de_redact (sample_dp m) = span_env masked"
  "de_fails (sample_dp m) pt = None" "de_session_id (sample_dp m) = ''s1''"
  "de_scan (sample_dp m) p l = (if l = Outbound then [hr_finding] else [])" "de_send (sample_dp m) bytes model = Inr JNull"
  "dw_cache sample_world = new_cache []" "tb_sessions (dw_tables sample_world) = []" "tb_requests (dw_tables sample_world) = []"
  "tb_exceptions (dw_tables sample_world) = []" "dq_id sample_request = ''r1''" "dq_session sample_request = None"
  "dq_destination sample_request = None" "request_tenant (demo_actor []) = ''acme''"
  "tb_store (dw_tables sample_world) = \<lparr>st_policies = [sample_row], st_ledger = empty_db [] [(''acme'', None)]\<rparr>"
  by (simp_all add: sample_dp_def sample_world_def sample_request_def demo_actor_def request_tenant_def)

lemma sample_dp_ok: "env_ok (sample_dp m)" "dp_ok (sample_dp m) sample_world" "short_findings (sample_dp m)"
proof -
  show "env_ok (sample_dp m)" by (simp add: env_ok_def strict_coerces toy_digest_length)
  have "history_ok [sample_row]"
    by (simp add: history_ok_def versions_of_def sample_row_def Let_def)
  moreover have "dl_good toy_digest (ledger_of \<lparr>st_policies = [sample_row], st_ledger = empty_db [] [(''acme'', None)]\<rparr>)"
    using empty_db_good [of toy_digest "[row_of sample_row]" "[(''acme'', None)]"] by (simp add: ledger_of_def empty_db_def)
  ultimately show "dp_ok (sample_dp m) sample_world"
    by (simp add: dp_ok_def tables_ok_def store_ok_def hashes_ok_def readable_def policy.agrees_def pc_holds_def new_cache_def
        sample_dp_def sample_policy_def flat_def empty_db_def) (simp add: sample_row_def)
  show "short_findings (sample_dp m)"
    by (simp add: short_findings_def hr_finding_def demo_finding_def code_points_def)
qed

lemma sample_loads:
  "\<exists>c rp. load_for_tenant (de_yaml (sample_dp m)) toy_digest (de_io (sample_dp m)) (tb_store (dw_tables sample_world)) ''acme''
     (new_cache []) = (c, Inr rp) \<and> rp_org rp = sample_policy m \<and> rp_bu rp = None"
proof -
  let ?ym = "de_yaml (sample_dp m)" and ?st = "tb_store (dw_tables sample_world)"
  obtain c r where l: "load_for_tenant ?ym toy_digest (de_io (sample_dp m)) ?st ''acme'' (new_cache []) = (c, r)" by fastforce
  have "history_ok (st_policies ?st)" "policy.agrees (stored ?st) (new_cache [])"
    using sample_dp_ok(2) [of m] by (auto simp: dp_ok_def tables_ok_def store_ok_def)
  note res = load_for_tenant_result [OF this l]
  have "resolve_direct ?ym toy_digest ?st ''acme'' = Inr ((sample_policy m, pt_content_hash sample_row), None)"
    by (simp add: resolve_direct_def load_direct_def active_row_def parse_policy_def empty_db_def sample_row_def sample_dp_def)
  with res l show ?thesis by (fastforce simp: rbind_Inr_iff layers_def split: option.splits)
qed

lemma sample_policy_mode: "p_mode (sample_policy m) = m"
  by (simp add: sample_policy_def to_policy_def demo_draft_def policy_draft.defs policy.defs)

lemma sample_decides: "cd_action (decide (sample_policy m) (demo_actor []) hr_finding Outbound None None []) = Mask"
  by (cases m) code_simp+

lemma sample_sends:
  assumes "rp_org rp = sample_policy m" "rp_bu rp = None"
  defines "cx \<equiv> context_for (sample_dp m) sample_request (demo_actor []) (sample_payload ''ABC'') rp ''s1''"
  shows "\<exists>bytes. outgoing (sample_dp m) (cx_mode cx = Enforce) (cx_mode cx) (sample_payload ''ABC'')
       (decide_leg (sample_dp m) cx None [] (sample_payload ''ABC'') Outbound) = Inr (bytes, [])"
    "overall_action (decide_leg (sample_dp m) cx None [] (sample_payload ''ABC'') Outbound) Allow \<noteq> Block"
    "outgoing (sample_dp m) (cx_mode cx = Enforce) (cx_mode cx) JNull (decide_leg (sample_dp m) cx None [] JNull Inbound)
       = Inr (pr_json JNull, [])"
    "decide_leg (sample_dp m) cx None [] JNull Inbound = []"
proof -
  let ?d = "decide (sample_policy m) (demo_actor []) hr_finding Outbound None None []"
  have mode: "cx_mode cx = m" by (simp add: cx_def context_for_def cx_mode_def rp_mode_def assms(1) sample_policy_mode)
  have pairs: "decide_leg (sample_dp m) cx None [] (sample_payload ''ABC'') Outbound = [(hr_finding, ?d)]"
    by (simp add: decide_leg_def decide_all_def cx_def context_for_def assms(1,2))
  show none: "decide_leg (sample_dp m) cx None [] JNull Inbound = []" by (simp add: decide_leg_def decide_all_def)
  show "overall_action (decide_leg (sample_dp m) cx None [] (sample_payload ''ABC'') Outbound) Allow \<noteq> Block"
    by (simp add: pairs overall_action_def strongest_def sample_decides)
  show "outgoing (sample_dp m) (cx_mode cx = Enforce) (cx_mode cx) JNull (decide_leg (sample_dp m) cx None [] JNull Inbound)
       = Inr (pr_json JNull, [])"
    by (simp add: none outgoing_def edited_body_def apply_decisions_def verified_bytes_def Let_def)
  show "\<exists>bytes. outgoing (sample_dp m) (cx_mode cx = Enforce) (cx_mode cx) (sample_payload ''ABC'')
       (decide_leg (sample_dp m) cx None [] (sample_payload ''ABC'') Outbound) = Inr (bytes, [])"
  proof (cases m)
    case Shadow
    have "outgoing (sample_dp m) False Shadow (sample_payload ''ABC'') [(hr_finding, ?d)] = Inr (pr_json (sample_payload ''ABC''), [])"
      by (rule outgoing_shadow)
    then show ?thesis unfolding mode pairs using Shadow by simp
  next
    case Enforce
    have "cf_path hr_finding = ''a''" by (simp add: hr_finding_def)
    with sample_verifies [OF sample_decides] obtain r where
      "apply_decisions (span_env masked) (sample_payload ''ABC'') [(hr_finding, ?d)] Enforce = Inr r" "rr_payload r = masked"
      "rr_misses r = []" "rr_degrade r = []" "verify_dispatch (span_env masked) (pr_json masked) (rr_edits r) = Inr []" by blast
    then have "outgoing (sample_dp m) True Enforce (sample_payload ''ABC'') [(hr_finding, ?d)] = Inr (pr_json masked, [])"
      by (simp add: outgoing_def edited_body_def verified_bytes_def Let_def)
    then show ?thesis unfolding mode pairs using Enforce by simp
  qed
qed

lemma sample_goes_through:
  "\<exists>w' bytes tb served h. messages (sample_dp m) sample_request (demo_actor []) (sample_payload ''ABC'') sample_world
     = (w', Some (bytes, tb), Served served h)"
proof -
  obtain c rp where l: "load_for_tenant (de_yaml (sample_dp m)) toy_digest (de_io (sample_dp m)) (tb_store (dw_tables sample_world))
      ''acme'' (new_cache []) = (c, Inr rp)" "rp_org rp = sample_policy m" "rp_bu rp = None"
    using sample_loads by blast
  note s = sample_sends [OF l(2,3)]
  from s(1) obtain bytes where "outgoing (sample_dp m)
      (cx_mode (context_for (sample_dp m) sample_request (demo_actor []) (sample_payload ''ABC'') rp ''s1'') = Enforce)
      (cx_mode (context_for (sample_dp m) sample_request (demo_actor []) (sample_payload ''ABC'') rp ''s1'')) (sample_payload ''ABC'')
      (decide_leg (sample_dp m) (context_for (sample_dp m) sample_request (demo_actor []) (sample_payload ''ABC'') rp ''s1'') None []
        (sample_payload ''ABC'') Outbound) = Inr (bytes, [])" by blast
  with request_goes_through [OF sample_dp_ok(1,2) _ sample_dp_ok(3), of m "demo_actor []" c rp sample_request "sample_payload ''ABC''" bytes "[]"
      JNull "pr_json JNull" "[]"] l(1) s(2-4)
  show ?thesis by (fastforce simp: active_classes_def overall_action_def)
qed

lemma sample_loaded_mode:
  "\<exists>c rp. load_for_tenant (de_yaml (sample_dp m)) (de_H (sample_dp m)) (de_io (sample_dp m)) (tb_store (dw_tables sample_world))
     (request_tenant (demo_actor [])) (dw_cache sample_world) = (c, Inr rp) \<and> rp_org rp = sample_policy m \<and> rp_bu rp = None
     \<and> p_mode (rp_org rp) = m"
  using sample_loads [of m] by (auto simp: sample_policy_mode)

lemma nothing_leaves_without_evidence_witness:
  "\<exists>w' bytes tb answer. messages (sample_dp Enforce) sample_request (demo_actor []) (sample_payload ''ABC'') sample_world
     = (w', Some (bytes, tb), answer)
     \<and> (\<exists>row \<in> set (since (dw_tables sample_world) tb). decided_row sample_request (demo_actor []) Outbound row)"
proof -
  obtain w' bytes tb served h where run: "messages (sample_dp Enforce) sample_request (demo_actor []) (sample_payload ''ABC'') sample_world
     = (w', Some (bytes, tb), Served served h)" using sample_goes_through by blast
  from nothing_leaves_without_evidence [OF sample_dp_ok(1,2) run] run show ?thesis by blast
qed

lemma leg_is_recorded_unless_long_witness:
  "\<exists>rp i tb. record_leg (sample_dp Enforce) WriteOut
     (context_for (sample_dp Enforce) sample_request (demo_actor []) (sample_payload ''ABC'') rp ''s1'') Outbound [] [] (dw_tables sample_world)
     = Inr (i, tb)"
proof -
  obtain c rp where l: "load_for_tenant (de_yaml (sample_dp Enforce)) (de_H (sample_dp Enforce)) (de_io (sample_dp Enforce))
      (tb_store (dw_tables sample_world)) (request_tenant (demo_actor [])) (dw_cache sample_world) = (c, Inr rp)"
    using sample_loaded_mode by blast
  let ?cx = "context_for (sample_dp Enforce) sample_request (demo_actor []) (sample_payload ''ABC'') rp ''s1''"
  have cx: "cx_tenant ?cx = request_tenant (demo_actor [])" "cx_policies ?cx = rp" by (simp_all only: context_for_def dp_context.simps)
  have ok: "tables_ok (sample_dp Enforce) (dw_tables sample_world)"
    "policy.agrees (stored (tb_store (dw_tables sample_world))) (dw_cache sample_world)"
    using sample_dp_ok(2) [of Enforce] unfolding dp_ok_def by blast+
  have "de_fails (sample_dp Enforce) WriteOut = None" by simp
  from leg_is_recorded_unless_long [OF sample_dp_ok(1) ok this, of ?cx c Outbound "[]" "[]"] l show ?thesis
    unfolding cx by fastforce
qed

lemma every_answer_has_its_record_witness:
  "\<exists>w' sent body h. messages (sample_dp Enforce) sample_request (demo_actor []) (sample_payload ''ABC'') sample_world
     = (w', sent, Served body h) \<and> (\<forall>l. \<exists>row \<in> set (since (dw_tables sample_world) (dw_tables w')).
         decided_row sample_request (demo_actor []) l row)"
proof -
  obtain w' bytes tb served h where run: "messages (sample_dp Enforce) sample_request (demo_actor []) (sample_payload ''ABC'') sample_world
     = (w', Some (bytes, tb), Served served h)" using sample_goes_through by blast
  have "\<forall>l. \<exists>row \<in> set (since (dw_tables sample_world) (dw_tables w')). decided_row sample_request (demo_actor []) l row"
    using every_answer_has_its_record [OF sample_dp_ok(1,2) run] unfolding dp_answer.case by blast
  with run show ?thesis by blast
qed

lemma enforced_legs_are_clean_witness:
  "\<exists>w' bytes tb answer body. messages (sample_dp Enforce) sample_request (demo_actor []) (sample_payload ''ABC'') sample_world
     = (w', Some (bytes, tb), answer) \<and> ce_loads (span_env masked) bytes = Some body \<and> ''ABC'' \<notin> set (walk_strings body)"
proof -
  obtain w' bytes tb served h where run: "messages (sample_dp Enforce) sample_request (demo_actor []) (sample_payload ''ABC'') sample_world
     = (w', Some (bytes, tb), Served served h)" using sample_goes_through by blast
  obtain c rp where l: "load_for_tenant (de_yaml (sample_dp Enforce)) (de_H (sample_dp Enforce)) (de_io (sample_dp Enforce))
      (tb_store (dw_tables sample_world)) (request_tenant (demo_actor [])) (dw_cache sample_world) = (c, Inr rp)"
      "rp_org rp = sample_policy Enforce" "rp_bu rp = None" "p_mode (rp_org rp) = Enforce" using sample_loaded_mode by blast
  have "get (ce_digits (de_redact (sample_dp Enforce))) (sample_payload ''ABC'') (cf_path hr_finding) = Inr (JStr ''ABC'')"
    by (simp add: hr_finding_def get_def parse_a sample_payload_def)
  moreover have "acts (decide (rp_org rp) (demo_actor []) hr_finding Outbound (rp_bu rp) (dq_destination sample_request)
      (active_classes (tb_exceptions (dw_tables sample_world)) (de_now (sample_dp Enforce)) (request_tenant (demo_actor [])) (ca_id (demo_actor []))))"
    using sample_decides [of Enforce] by (simp add: acts_def l(2,3) active_classes_def)
  ultimately show ?thesis
    using enforced_legs_are_clean [OF run l(1,4) refl, THEN conjunct1, rule_format, of hr_finding "''ABC''"] run by auto
qed


end
