(* ===== verification/PyText.thy ===== *)
theory PyText
  imports ZtPrelude
begin

text \<open>
  How the source's text becomes bytes and back: UTF-8 as \<open>str.encode\<close> and \<open>bytes.decode\<close> do it, and the
  body of a JSON string literal as \<open>json.dumps(text, ensure_ascii=False)[1:-1]\<close> writes it and
  \<open>json.loads\<close> reads it. A byte buffer is a list of numbers below 256.
\<close>

type_synonym pybytes = "nat list"

section \<open>UTF-8\<close>

definition is_surrogate :: "nat \<Rightarrow> bool" where
  "is_surrogate c \<longleftrightarrow> 55296 \<le> c \<and> c \<le> 57343"

definition code_point :: "nat \<Rightarrow> bool" where
  "code_point c \<longleftrightarrow> c < 1114112"

definition encodable :: "nat \<Rightarrow> bool" where
  "encodable c \<longleftrightarrow> code_point c \<and> \<not> is_surrogate c"

definition utf8_cp :: "nat \<Rightarrow> pybytes" where
  "utf8_cp c =
     (if c < 128 then [c]
      else if c < 2048 then [192 + c div 64, 128 + c mod 64]
      else if c < 65536 then [224 + c div 4096, 128 + c div 64 mod 64, 128 + c mod 64]
      else [240 + c div 262144, 128 + c div 4096 mod 64, 128 + c div 64 mod 64, 128 + c mod 64])"

definition utf8_encode :: "pystr \<Rightarrow> pybytes option" where
  \<comment> \<open>\<open>None\<close> is the \<open>UnicodeEncodeError\<close> of a lone surrogate\<close>
  "utf8_encode s = (if \<forall>c \<in> set s. encodable c then Some (concat (map utf8_cp s)) else None)"

definition is_cont :: "nat \<Rightarrow> bool" where
  "is_cont b \<longleftrightarrow> 128 \<le> b \<and> b < 192"

definition cont_val :: "nat \<Rightarrow> nat" where "cont_val b = b - 128"

fun decode1 :: "pybytes \<Rightarrow> (nat \<times> pybytes) option" where
  \<comment> \<open>one strict UTF-8 sequence off the front\<close>
  "decode1 [] = None"
| "decode1 (b # bs) =
     (if b < 128 then Some (b, bs)
      else if 194 \<le> b \<and> b < 224 then
        (case bs of
           b1 # r \<Rightarrow> if is_cont b1 then Some ((b - 192) * 64 + cont_val b1, r) else None
         | _ \<Rightarrow> None)
      else if 224 \<le> b \<and> b < 240 then
        (case bs of
           b1 # b2 # r \<Rightarrow>
             (let c = (b - 224) * 4096 + cont_val b1 * 64 + cont_val b2
              in if is_cont b1 \<and> is_cont b2 \<and> 2048 \<le> c \<and> \<not> is_surrogate c then Some (c, r) else None)
         | _ \<Rightarrow> None)
      else if 240 \<le> b \<and> b < 245 then
        (case bs of
           b1 # b2 # b3 # r \<Rightarrow>
             (let c = (b - 240) * 262144 + cont_val b1 * 4096 + cont_val b2 * 64 + cont_val b3
              in if is_cont b1 \<and> is_cont b2 \<and> is_cont b3 \<and> 65536 \<le> c \<and> code_point c then Some (c, r) else None)
         | _ \<Rightarrow> None)
      else None)"

lemma decode1_shorter: "decode1 bs = Some (c, r) \<Longrightarrow> length r < length bs"
  by (cases bs) (auto split: if_splits list.splits simp: Let_def)

function utf8_decode :: "pybytes \<Rightarrow> pystr option" where
  \<comment> \<open>\<open>bytes.decode("utf-8")\<close>; \<open>None\<close> is \<open>UnicodeDecodeError\<close>\<close>
  "utf8_decode bs =
     (if bs = [] then Some []
      else case decode1 bs of
             None \<Rightarrow> None
           | Some (c, r) \<Rightarrow> map_option (Cons c) (utf8_decode r))"
  by pat_completeness auto
termination by (relation "measure length") (auto dest: decode1_shorter)

declare utf8_decode.simps [simp del]

lemma mod_sum: "c = c div 64 * 64 + c mod (64 :: nat)"
  by simp

lemma sum4:
  fixes c :: nat
  assumes "c = a * 64 + x" "a = b * 64 + y" "b = d * 64 + z"
  shows "d * 262144 + z * 4096 + y * 64 + x = c"
  using assms by simp

lemma decode1_utf8_cp:
  assumes "encodable c"
  shows "decode1 (utf8_cp c @ r) = Some (c, r)"
proof -
  have b: "c < 1114112" "\<not> is_surrogate c" using assms by (auto simp: encodable_def code_point_def)
  consider "c < 128" | "128 \<le> c" "c < 2048" | "2048 \<le> c" "c < 65536" | "65536 \<le> c" by linarith
  then show ?thesis
  proof cases
    case 1
    then show ?thesis by (simp add: utf8_cp_def)
  next
    case 2
    have "c div 64 * 64 + c mod 64 = c" by simp
    moreover have "2 \<le> c div 64" "c div 64 < 32" "c mod 64 < 64" using 2 by auto
    ultimately show ?thesis using 2 by (simp add: utf8_cp_def is_cont_def cont_val_def)
  next
    case 3
    have "c div 4096 = c div 64 div 64" by (simp flip: div_mult2_eq)
    then have "c div 4096 * 4096 + c div 64 mod 64 * 64 + c mod 64 = c"
      using mod_sum [of c] mod_sum [of "c div 64"] by linarith
    moreover have "c div 4096 < 16" "c div 64 mod 64 < 64" "c mod 64 < 64" using 3 by auto
    ultimately show ?thesis using 3 b by (simp add: utf8_cp_def is_cont_def cont_val_def Let_def)
  next
    case 4
    have "c div 4096 = c div 64 div 64" "c div 262144 = c div 64 div 64 div 64" by (simp_all flip: div_mult2_eq)
    then have "c div 262144 * 262144 + c div 4096 mod 64 * 4096 + c div 64 mod 64 * 64 + c mod 64 = c"
      by (simp only:) (rule sum4 [OF mod_sum mod_sum mod_sum])
    moreover have "c div 262144 < 5" "c div 4096 mod 64 < 64" "c div 64 mod 64 < 64" "c mod 64 < 64" using b by auto
    ultimately show ?thesis using 4 b by (simp add: utf8_cp_def is_cont_def cont_val_def Let_def code_point_def)
  qed
qed

lemma utf8_cp_nonempty [simp]: "utf8_cp c \<noteq> []"
  by (simp add: utf8_cp_def)

lemma utf8_decode_concat: "\<forall>c \<in> set s. encodable c \<Longrightarrow> utf8_decode (concat (map utf8_cp s)) = Some s"
proof (induction s)
  case Nil
  then show ?case by (simp add: utf8_decode.simps)
next
  case (Cons c s)
  then show ?case by (subst utf8_decode.simps) (simp add: decode1_utf8_cp)
qed

lemma utf8_decode_encode: "utf8_encode s = Some bs \<Longrightarrow> utf8_decode bs = Some s"
  by (auto simp: utf8_encode_def utf8_decode_concat split: if_splits)

text \<open>\<open>errors="replace"\<close>: a malformed sequence becomes U+FFFD and its longest valid prefix is skipped.\<close>

definition second_ok :: "nat \<Rightarrow> nat \<Rightarrow> bool" where
  "second_ok b b1 \<longleftrightarrow> is_cont b1 \<and> (b = 224 \<longrightarrow> 160 \<le> b1) \<and> (b = 237 \<longrightarrow> b1 < 160) \<and> (b = 240 \<longrightarrow> 144 \<le> b1)
     \<and> (b = 244 \<longrightarrow> b1 < 144)"

definition bad_len :: "pybytes \<Rightarrow> nat" where
  "bad_len bs =
     (case bs of
        b # b1 # r \<Rightarrow>
          if 224 \<le> b \<and> b < 240 \<and> second_ok b b1 then 2
          else if 240 \<le> b \<and> b < 245 \<and> second_ok b b1 then
            (case r of b2 # _ \<Rightarrow> if is_cont b2 then 3 else 2 | [] \<Rightarrow> 2)
          else 1
      | _ \<Rightarrow> 1)"

lemma bad_len_pos: "0 < bad_len bs"
  by (simp add: bad_len_def split: list.splits)

function decode_replace :: "pybytes \<Rightarrow> pystr" where
  "decode_replace bs =
     (if bs = [] then []
      else case decode1 bs of
             Some (c, r) \<Rightarrow> c # decode_replace r
           | None \<Rightarrow> 65533 # decode_replace (drop (bad_len bs) bs))"
  by pat_completeness auto
termination
  by (relation "measure length") (auto dest: decode1_shorter simp: bad_len_pos)

declare decode_replace.simps [simp del]

lemma decode_replace_valid: "utf8_decode bs = Some s \<Longrightarrow> decode_replace bs = s"
proof (induction bs arbitrary: s rule: utf8_decode.induct)
  case (1 bs)
  show ?case
  proof (cases "bs = []")
    case True
    with 1 show ?thesis by (simp add: utf8_decode.simps decode_replace.simps)
  next
    case False
    with "1.prems" obtain c r t where d: "decode1 bs = Some (c, r)" and "utf8_decode r = Some t" "s = c # t"
      by (subst (asm) utf8_decode.simps) (auto split: option.splits)
    with "1.IH" [OF False d refl] show ?thesis using False by (subst decode_replace.simps) simp
  qed
qed

section \<open>The body of a JSON string literal\<close>

definition hex_cp :: "nat \<Rightarrow> nat" where
  "hex_cp d = (if d < 10 then 48 + d else 87 + d)"

definition esc_cp :: "nat \<Rightarrow> pystr" where
  \<comment> \<open>\<open>json.dumps\<close> of one character, \<open>ensure_ascii=False\<close>\<close>
  "esc_cp c =
     (if c = 34 then [92, 34]
      else if c = 92 then [92, 92]
      else if c = 10 then [92, 110]
      else if c = 13 then [92, 114]
      else if c = 9 then [92, 116]
      else if c = 12 then [92, 102]
      else if c = 8 then [92, 98]
      else if c < 32 then [92, 117, 48, 48, hex_cp (c div 16), hex_cp (c mod 16)]
      else [c])"

definition json_escape :: "pystr \<Rightarrow> pystr" where
  "json_escape s = concat (map esc_cp s)"

definition unhex_cp :: "nat \<Rightarrow> nat option" where
  "unhex_cp c = (if is_digit c then Some (c - 48)
     else if 97 \<le> c \<and> c \<le> 102 then Some (c - 87)
     else if 65 \<le> c \<and> c \<le> 70 then Some (c - 55) else None)"

fun hex4 :: "pystr \<Rightarrow> (nat \<times> pystr) option" where
  "hex4 (a # b # c # d # r) =
     (case (unhex_cp a, unhex_cp b, unhex_cp c, unhex_cp d) of
        (Some w, Some x, Some y, Some z) \<Rightarrow> Some (w * 4096 + x * 256 + y * 16 + z, r)
      | _ \<Rightarrow> None)"
| "hex4 _ = None"

lemma hex4_shorter: "hex4 s = Some (n, r) \<Longrightarrow> length r + 4 = length s"
  by (cases s rule: hex4.cases) (auto split: option.splits)

definition low_surrogate :: "pystr \<Rightarrow> (nat \<times> pystr) option" where
  \<comment> \<open>a \<open>\uDC00-\uDFFF\<close> escape off the front\<close>
  "low_surrogate s =
     (if take 2 s = [92, 117] then
        (case hex4 (drop 2 s) of
           Some (n, r) \<Rightarrow> if 56320 \<le> n \<and> n \<le> 57343 then Some (n, r) else None
         | None \<Rightarrow> None)
      else None)"

lemma low_surrogate_shorter: "low_surrogate s = Some (n, r) \<Longrightarrow> length r < length s"
  by (auto simp: low_surrogate_def dest: hex4_shorter split: list.splits option.splits if_splits)

definition simple_escape :: "nat \<Rightarrow> nat option" where
  "simple_escape e = map_of [(34, 34), (92, 92), (47, 47), (98, 8), (102, 12), (110, 10), (114, 13), (116, 9)] e"

definition unesc1 :: "pystr \<Rightarrow> (nat \<times> pystr) option" where
  \<comment> \<open>one character of a string body off the front, strictly; a quote or a control character is an error\<close>
  "unesc1 s =
     (case s of
        [] \<Rightarrow> None
      | c # t \<Rightarrow>
          if c = 34 \<or> c < 32 then None
          else if c \<noteq> 92 then Some (c, t)
          else (case t of
              [] \<Rightarrow> None
            | e # u \<Rightarrow>
                if e = 117 then
                  (case hex4 u of
                     None \<Rightarrow> None
                   | Some (n, r) \<Rightarrow>
                       if 55296 \<le> n \<and> n \<le> 56319 then
                         (case low_surrogate r of
                            Some (m, q) \<Rightarrow> Some (65536 + (n - 55296) * 1024 + (m - 56320), q)
                          | None \<Rightarrow> Some (n, r))
                       else Some (n, r))
                else map_option (\<lambda>d. (d, u)) (simple_escape e)))"

lemma unesc1_shorter: "unesc1 s = Some (c, r) \<Longrightarrow> length r < length s"
  unfolding unesc1_def
  by (fastforce dest: hex4_shorter low_surrogate_shorter split: list.splits if_splits option.splits)

function json_unescape :: "pystr \<Rightarrow> pystr option" where
  \<comment> \<open>\<open>json.loads\<close> of the quoted body; \<open>None\<close> is its \<open>ValueError\<close>\<close>
  "json_unescape s =
     (if s = [] then Some []
      else case unesc1 s of None \<Rightarrow> None | Some (c, r) \<Rightarrow> map_option (Cons c) (json_unescape r))"
  by pat_completeness auto
termination by (relation "measure length") (auto dest: unesc1_shorter)

declare json_unescape.simps [simp del]

lemma unhex_hex: "d < 16 \<Longrightarrow> unhex_cp (hex_cp d) = Some d"
  by (simp add: unhex_cp_def hex_cp_def is_digit_def)

lemma unhex_zero: "unhex_cp 48 = Some 0"
  by (simp add: unhex_cp_def is_digit_def)

lemma unesc1_esc_cp: "unesc1 (esc_cp c @ r) = Some (c, r)"
proof (cases "c < 32 \<and> c \<notin> {8, 9, 10, 12, 13}")
  case True
  then have "unhex_cp (hex_cp (c div 16)) = Some (c div 16)" "unhex_cp (hex_cp (c mod 16)) = Some (c mod 16)"
    by (intro unhex_hex; simp)+
  with True show ?thesis
    by (simp add: esc_cp_def unesc1_def unhex_zero)
qed (auto simp: esc_cp_def unesc1_def simple_escape_def)

lemma esc_cp_nonempty [simp]: "esc_cp c \<noteq> []"
  by (simp add: esc_cp_def)

lemma json_unescape_escape [simp]: "json_unescape (json_escape s) = Some s"
proof (induction s)
  case Nil
  then show ?case by (simp add: json_escape_def json_unescape.simps)
next
  case (Cons c s)
  then show ?case by (subst json_unescape.simps) (simp add: json_escape_def unesc1_esc_cp)
qed

lemma encodable_ascii: "c < 128 \<Longrightarrow> encodable c"
  by (simp add: encodable_def code_point_def is_surrogate_def)

lemma esc_cp_encodable: "(\<forall>d \<in> set (esc_cp c). encodable d) \<longleftrightarrow> encodable c"
  by (auto simp: esc_cp_def hex_cp_def intro!: encodable_ascii)

end
