(* ===== verification/SpanModel.thy ===== *)
theory SpanModel
  imports Contracts PyText
begin

text \<open>
  Spans, the span tree and its byte-splice serialiser (\<^verbatim>\<open>gateway/spans/model.py\<close>). A tree keeps the
  original bytes and records planned edits in characters of a span's decoded text; \<open>serialise\<close>
  re-encodes only the edited values and splices them into the buffer from right to left.
\<close>

section \<open>The tree\<close>

record span =
  sp_path :: pystr
  sp_text :: pystr
  sp_origin :: origin
  sp_leg :: leg
  sp_byte_start :: int
  sp_byte_end :: int
  sp_lang_hint :: "pystr option"
  sp_parent_path :: "pystr option"
  sp_parent_char_offset :: nat

definition NO_BYTE_RANGE :: int where "NO_BYTE_RANGE = -1"

definition is_nested :: "span \<Rightarrow> bool" where
  "is_nested s \<longleftrightarrow> sp_parent_path s \<noteq> None"

definition has_byte_range :: "span \<Rightarrow> bool" where
  "has_byte_range s \<longleftrightarrow> sp_byte_start s \<noteq> NO_BYTE_RANGE \<and> sp_byte_end s \<noteq> NO_BYTE_RANGE"

datatype span_error =
    SpanNotFound pystr
  | SpanOffsetError pystr
  | OverlappingEdits
  | EncodeError \<comment> \<open>the \<open>UnicodeEncodeError\<close> of a lone surrogate\<close>

record edit =
  ed_path :: pystr
  ed_start :: nat
  ed_end :: nat
  ed_replacement :: pystr

record span_tree =
  tr_raw :: pybytes
  tr_spans :: "span list"
  tr_edits :: "edit list"

definition span_tree :: "pybytes \<Rightarrow> span list \<Rightarrow> span_tree" where
  "span_tree raw spans = \<lparr>tr_raw = raw, tr_spans = spans, tr_edits = []\<rparr>"

definition by_path :: "span_tree \<Rightarrow> pystr \<Rightarrow> span option" where
  \<comment> \<open>the dictionary keeps the last span of a path\<close>
  "by_path t path = find (\<lambda>s. sp_path s = path) (rev (tr_spans t))"

definition total_chars :: "span_tree \<Rightarrow> nat" where
  "total_chars t = sum_list (map (\<lambda>s. length (sp_text s)) (filter (\<lambda>s. \<not> is_nested s) (tr_spans t)))"

definition replace :: "span_tree \<Rightarrow> pystr \<Rightarrow> int \<Rightarrow> int \<Rightarrow> pystr \<Rightarrow> span_error + span_tree" where
  "replace t path start end replacement =
     (case by_path t path of
        None \<Rightarrow> Inl (SpanNotFound path)
      | Some s \<Rightarrow>
          if \<not> (0 \<le> start \<and> start \<le> end \<and> end \<le> int (length (sp_text s))) then Inl (SpanOffsetError path)
          else (case sp_parent_path s of
              Some pp \<Rightarrow>
                (case by_path t pp of
                   None \<Rightarrow> Inl (SpanNotFound pp)
                 | Some parent \<Rightarrow>
                     Inr (t\<lparr>tr_edits := tr_edits t @ [\<lparr>ed_path = sp_path parent,
                       ed_start = sp_parent_char_offset s + nat start,
                       ed_end = sp_parent_char_offset s + nat end, ed_replacement = replacement\<rparr>]\<rparr>))
            | None \<Rightarrow>
                Inr (t\<lparr>tr_edits := tr_edits t @ [\<lparr>ed_path = path, ed_start = nat start, ed_end = nat end,
                  ed_replacement = replacement\<rparr>]\<rparr>)))"

section \<open>Writing\<close>

definition splice :: "nat \<Rightarrow> nat \<Rightarrow> 'a list \<Rightarrow> 'a list \<Rightarrow> 'a list" where
  \<comment> \<open>\<open>out[i:j] = new\<close>, and \<open>out[:i] + new + out[j:]\<close>, for \<open>i <= j\<close>\<close>
  "splice i j new out = take i out @ new @ drop (max i j) out"

fun overlapping :: "edit list \<Rightarrow> bool" where
  "overlapping (e # f # es) = (ed_start e < ed_end f \<or> overlapping (f # es))"
| "overlapping _ = False"

definition right_to_left :: "edit list \<Rightarrow> edit list" where
  \<comment> \<open>\<open>sorted(..., reverse=True)\<close> keeps the order of equal keys\<close>
  "right_to_left es = sort_key (\<lambda>e. - int (ed_start e)) es"

definition apply_char_edits :: "pystr \<Rightarrow> edit list \<Rightarrow> span_error + pystr" where
  "apply_char_edits txt edits =
     (let ordered = right_to_left edits in
      if overlapping ordered then Inl OverlappingEdits
      else Inr (foldl (\<lambda>out e. splice (ed_start e) (ed_end e) (ed_replacement e) out) txt ordered))"

type_synonym patch = "int \<times> int \<times> pybytes"

fun keep_first :: "'a list \<Rightarrow> 'a list" where
  \<comment> \<open>the keys of a dictionary filled in this order\<close>
  "keep_first [] = []"
| "keep_first (x # xs) = x # keep_first (filter (\<lambda>y. y \<noteq> x) xs)"

definition patch_for :: "span_tree \<Rightarrow> pystr \<Rightarrow> span_error + patch" where
  "patch_for t path =
     (case by_path t path of
        None \<Rightarrow> Inl (SpanNotFound path)
      | Some s \<Rightarrow>
          if \<not> has_byte_range s then Inl (SpanOffsetError path)
          else rbind (apply_char_edits (sp_text s) (filter (\<lambda>e. ed_path e = path) (tr_edits t))) (\<lambda>txt.
            case utf8_encode (json_escape txt) of
              None \<Rightarrow> Inl EncodeError
            | Some bs \<Rightarrow> Inr (sp_byte_start s, sp_byte_end s, bs)))"

definition apply_patches :: "pybytes \<Rightarrow> patch list \<Rightarrow> pybytes" where
  "apply_patches raw ps =
     foldl (\<lambda>out p. splice (nat (fst p)) (nat (fst (snd p))) (snd (snd p)) out) raw (sort_key (\<lambda>p. - fst p) ps)"

definition serialise :: "span_tree \<Rightarrow> span_error + pybytes" where
  "serialise t =
     (if tr_edits t = [] then Inr (tr_raw t)
      else rbind (rmap (patch_for t) (keep_first (map ed_path (tr_edits t)))) (\<lambda>ps.
        Inr (apply_patches (tr_raw t) ps)))"

section \<open>Splicing from right to left\<close>

text \<open>
  The reference for both levels of splicing: walk the buffer once from left to right, copying what lies
  between the replaced ranges and writing each replacement in its place.
\<close>

fun weave :: "nat \<Rightarrow> 'a list \<Rightarrow> (nat \<times> nat \<times> 'a list) list \<Rightarrow> 'a list" where
  "weave pos xs [] = drop pos xs"
| "weave pos xs ((i, j, new) # es) = slice pos i xs @ new @ weave j xs es"

fun disjoint_from :: "nat \<Rightarrow> nat \<Rightarrow> (nat \<times> nat \<times> 'a list) list \<Rightarrow> bool" where
  \<comment> \<open>ascending, pairwise disjoint ranges between \<open>pos\<close> and \<open>n\<close>\<close>
  "disjoint_from pos n [] = (pos \<le> n)"
| "disjoint_from pos n ((i, j, new) # es) = (pos \<le> i \<and> i \<le> j \<and> disjoint_from j n es)"

abbreviation splice3 :: "nat \<times> nat \<times> 'a list \<Rightarrow> 'a list \<Rightarrow> 'a list" where
  "splice3 p \<equiv> splice (fst p) (fst (snd p)) (snd (snd p))"

lemma disjoint_from_le: "disjoint_from pos n es \<Longrightarrow> pos \<le> n"
  by (induction pos n es rule: disjoint_from.induct) auto

lemma foldr_splice_weave:
  "disjoint_from pos (length xs) es \<Longrightarrow> foldr splice3 es xs = take pos xs @ weave pos xs es"
proof (induction pos "length xs" es rule: disjoint_from.induct)
  case (2 pos i j new es)
  then have le: "pos \<le> i" "i \<le> j" "disjoint_from j (length xs) es" by auto
  from le(3) have j: "j \<le> length xs" by (rule disjoint_from_le)
  have step: "foldr splice3 ((i, j, new) # es) xs = splice i j new (foldr splice3 es xs)" by simp
  have tk: "take i xs = take pos xs @ slice pos i xs"
    using le by (simp add: slice_def flip: take_add)
  have "foldr splice3 es xs = take j xs @ weave j xs es" using 2 le by simp
  then show ?case unfolding step using le j tk by (simp add: splice_def max_def min_def)
qed simp

corollary foldr_splice_weave_0:
  "disjoint_from 0 (length xs) es \<Longrightarrow> foldr splice3 es xs = weave 0 xs es"
  by (simp add: foldr_splice_weave)

lemma weave_outside:
  "disjoint_from pos (length xs) es \<Longrightarrow>
     \<exists>gaps. length gaps = Suc (length es) \<and> drop pos xs = concat (map2 (@) gaps (map (\<lambda>p. slice (fst p) (fst (snd p)) xs) es @ [[]]))
       \<and> weave pos xs es = concat (map2 (@) gaps (map (\<lambda>p. snd (snd p)) es @ [[]]))"
proof (induction pos "length xs" es rule: disjoint_from.induct)
  case (1 pos)
  then show ?case by (intro exI [of _ "[drop pos xs]"]) simp
next
  case (2 pos i j new es)
  then have le: "pos \<le> i" "i \<le> j" "disjoint_from j (length xs) es" by auto
  from le(3) have j: "j \<le> length xs" by (rule disjoint_from_le)
  from 2 le obtain gaps where g: "length gaps = Suc (length es)"
    "drop j xs = concat (map2 (@) gaps (map (\<lambda>p. slice (fst p) (fst (snd p)) xs) es @ [[]]))"
    "weave j xs es = concat (map2 (@) gaps (map (\<lambda>p. snd (snd p)) es @ [[]]))" by blast
  have "drop pos xs = slice pos i xs @ slice i j xs @ drop j xs"
    unfolding slice_def using le by (metis append_take_drop_id drop_drop le_add_diff_inverse2)
  with g show ?case by (intro exI [of _ "slice pos i xs # gaps"]) simp
qed

section \<open>Character edits\<close>

definition ranges :: "edit list \<Rightarrow> (nat \<times> nat \<times> pystr) list" where
  "ranges es = map (\<lambda>e. (ed_start e, ed_end e, ed_replacement e)) es"

definition edit_wf :: "nat \<Rightarrow> edit \<Rightarrow> bool" where
  \<comment> \<open>what \<open>replace\<close> has checked\<close>
  "edit_wf n e \<longleftrightarrow> ed_start e \<le> ed_end e \<and> ed_end e \<le> n"

lemma right_to_left_set [simp]: "set (right_to_left es) = set es"
  by (simp add: right_to_left_def)

lemma right_to_left_sorted: "sorted_wrt (\<lambda>e f. ed_start f \<le> ed_start e) (right_to_left es)"
  using sorted_sort_key [of "\<lambda>e. - int (ed_start e)" es]
  by (simp add: right_to_left_def sorted_map sorted_wrt_iff_nth_less)

lemma overlapping_Cons: "overlapping (e # es) \<longleftrightarrow> (es \<noteq> [] \<and> ed_start e < ed_end (hd es)) \<or> overlapping es"
  by (cases es) auto

lemma not_overlapping_disjoint:
  assumes "sorted_wrt (\<lambda>e f. ed_start f \<le> ed_start e) es" "\<not> overlapping es" "\<forall>e \<in> set es. edit_wf n e"
    and "es \<noteq> [] \<Longrightarrow> ed_end (hd es) \<le> m" "m \<le> n"
  shows "disjoint_from 0 m (rev (ranges es))"
proof -
  have snoc: "disjoint_from p m (xs @ [(i, j, new)]) \<longleftrightarrow> disjoint_from p i xs \<and> i \<le> j \<and> j \<le> m"
    for p m i j and new :: pystr and xs
    by (induction xs arbitrary: p) auto
  from assms show ?thesis
  proof (induction es arbitrary: m)
    case (Cons e es)
    have "disjoint_from 0 (ed_start e) (rev (ranges es))"
    proof (rule Cons.IH)
      show "ed_end (hd es) \<le> ed_start e" if "es \<noteq> []"
        using Cons.prems(2) that by (auto simp: overlapping_Cons)
    qed (use Cons.prems in \<open>auto simp: overlapping_Cons edit_wf_def\<close>)
    with Cons.prems show ?case by (simp add: ranges_def snoc edit_wf_def)
  qed (simp add: ranges_def)
qed

lemma apply_char_edits_weave:
  assumes "apply_char_edits txt es = Inr out" "\<forall>e \<in> set es. edit_wf (length txt) e"
  shows "disjoint_from 0 (length txt) (rev (ranges (right_to_left es)))"
    "out = weave 0 txt (rev (ranges (right_to_left es)))"
proof -
  let ?o = "right_to_left es"
  from assms(1) have no: "\<not> overlapping ?o"
    and out: "out = foldl (\<lambda>out e. splice (ed_start e) (ed_end e) (ed_replacement e) out) txt ?o"
    by (auto simp: apply_char_edits_def Let_def split: if_splits)
  show dis: "disjoint_from 0 (length txt) (rev (ranges ?o))"
    by (rule not_overlapping_disjoint [OF right_to_left_sorted no, of "length txt"])
      (use assms(2) right_to_left_set [of es] in \<open>auto simp: edit_wf_def simp del: right_to_left_set\<close>)
  have "foldl (\<lambda>out e. splice (ed_start e) (ed_end e) (ed_replacement e) out) t es = foldr splice3 (rev (ranges es)) t" for t es
    by (induction es arbitrary: t) (auto simp: ranges_def)
  then show "out = weave 0 txt (rev (ranges ?o))"
    using foldr_splice_weave_0 [OF dis] out by simp
qed

section \<open>Well-formed trees\<close>

definition byte_range_ok :: "pybytes \<Rightarrow> span \<Rightarrow> bool" where
  "byte_range_ok raw s \<longleftrightarrow> 0 \<le> sp_byte_start s \<and> sp_byte_start s \<le> sp_byte_end s \<and> sp_byte_end s \<le> int (length raw)"

definition separated :: "span \<Rightarrow> span \<Rightarrow> bool" where
  \<comment> \<open>two string contents of one buffer have at least their quotes between them\<close>
  "separated s s' \<longleftrightarrow> sp_byte_end s < sp_byte_start s' \<or> sp_byte_end s' < sp_byte_start s"

definition edit_ok :: "span_tree \<Rightarrow> edit \<Rightarrow> bool" where
  "edit_ok t e \<longleftrightarrow> (\<exists>s. by_path t (ed_path e) = Some s \<and> \<not> is_nested s \<and> edit_wf (length (sp_text s)) e)"

definition spans_wf :: "span_tree \<Rightarrow> bool" where
  "spans_wf t \<longleftrightarrow>
     (\<forall>p s. by_path t p = Some s \<and> \<not> is_nested s \<longrightarrow> byte_range_ok (tr_raw t) s) \<and>
     (\<forall>p q s s'. by_path t p = Some s \<and> by_path t q = Some s' \<and> \<not> is_nested s \<and> \<not> is_nested s' \<and> p \<noteq> q \<longrightarrow> separated s s') \<and>
     (\<forall>p s pp. by_path t p = Some s \<and> sp_parent_path s = Some pp \<longrightarrow>
        (\<exists>parent. by_path t pp = Some parent \<and> \<not> is_nested parent
          \<and> sp_parent_char_offset s + length (sp_text s) \<le> length (sp_text parent)))"

definition tree_wf :: "span_tree \<Rightarrow> bool" where
  "tree_wf t \<longleftrightarrow> spans_wf t \<and> (\<forall>e \<in> set (tr_edits t). edit_ok t e)"

lemma by_path_path: "by_path t p = Some s \<Longrightarrow> sp_path s = p"
  unfolding by_path_def by (drule find_Some_hd) simp

lemma by_path_edits [simp]: "by_path (t\<lparr>tr_edits := es\<rparr>) = by_path t"
  by (simp add: by_path_def fun_eq_iff)

lemma edit_ok_edits [simp]: "edit_ok (t\<lparr>tr_edits := es\<rparr>) e = edit_ok t e"
  by (simp add: edit_ok_def)

lemma replace_cases:
  assumes "replace t path i j new = Inr t'"
  obtains s e where "by_path t path = Some s" "0 \<le> i" "i \<le> j" "j \<le> int (length (sp_text s))"
    "t' = t\<lparr>tr_edits := tr_edits t @ [e]\<rparr>" "ed_replacement e = new"
    "ed_end e - ed_start e = nat j - nat i"
    "tree_wf t \<Longrightarrow> edit_ok t e"
proof -
  from assms obtain s where s: "by_path t path = Some s" and r: "0 \<le> i" "i \<le> j" "j \<le> int (length (sp_text s))"
    by (auto simp: replace_def split: option.splits if_splits)
  show thesis
  proof (cases "sp_parent_path s")
    case None
    let ?e = "\<lparr>ed_path = path, ed_start = nat i, ed_end = nat j, ed_replacement = new\<rparr>"
    have "t' = t\<lparr>tr_edits := tr_edits t @ [?e]\<rparr>" using assms s r None by (simp add: replace_def)
    then show thesis
      by (rule that [OF s r]) (use s r None in \<open>auto simp: edit_ok_def edit_wf_def is_nested_def\<close>)
  next
    case (Some pp)
    with assms s r obtain parent where par: "by_path t pp = Some parent"
      and t': "t' = t\<lparr>tr_edits := tr_edits t @ [\<lparr>ed_path = sp_path parent, ed_start = sp_parent_char_offset s + nat i,
          ed_end = sp_parent_char_offset s + nat j, ed_replacement = new\<rparr>]\<rparr>"
      by (auto simp: replace_def split: option.splits)
    show thesis
    proof (rule that [OF s r t'])
      assume "tree_wf t"
      then obtain parent' where "by_path t pp = Some parent'" "\<not> is_nested parent'"
          "sp_parent_char_offset s + length (sp_text s) \<le> length (sp_text parent')"
        using s Some unfolding tree_wf_def spans_wf_def by blast
      with par have "\<not> is_nested parent" "sp_parent_char_offset s + length (sp_text s) \<le> length (sp_text parent)"
        by simp_all
      with par r by_path_path [OF par] show "edit_ok t \<lparr>ed_path = sp_path parent, ed_start = sp_parent_char_offset s + nat i,
          ed_end = sp_parent_char_offset s + nat j, ed_replacement = new\<rparr>"
        by (auto simp: edit_ok_def edit_wf_def)
    qed simp_all
  qed
qed

lemma replace_wf:
  assumes "replace t path i j new = Inr t'" "tree_wf t"
  shows "tree_wf t'"
proof -
  have sw: "spans_wf (t\<lparr>tr_edits := es\<rparr>) = spans_wf t" for es by (simp add: spans_wf_def)
  obtain e where t': "t' = t\<lparr>tr_edits := tr_edits t @ [e]\<rparr>" and "edit_ok t e"
    by (rule replace_cases [OF assms(1)]) (use assms(2) in blast)
  with assms(2) show ?thesis unfolding tree_wf_def t' sw by simp
qed

section \<open>The serialised buffer\<close>

definition edited_text :: "span_tree \<Rightarrow> span \<Rightarrow> pystr" where
  \<comment> \<open>the reference: one pass over the decoded text\<close>
  "edited_text t s =
     weave 0 (sp_text s) (rev (ranges (right_to_left (filter (\<lambda>e. ed_path e = sp_path s) (tr_edits t)))))"

definition edited_spans :: "span_tree \<Rightarrow> span list" where
  "edited_spans t = map (\<lambda>p. the (by_path t p)) (keep_first (map ed_path (tr_edits t)))"

definition fill :: "'a list list \<Rightarrow> 'a list list \<Rightarrow> 'a list" where
  \<comment> \<open>the gaps with one value after each but the last\<close>
  "fill gaps vals = concat (map2 (@) gaps (vals @ [[]]))"

lemma keep_first_set [simp]: "set (keep_first xs) = set xs"
  by (induction xs rule: keep_first.induct) auto

lemma keep_first_distinct [simp]: "distinct (keep_first xs)"
  by (induction xs rule: keep_first.induct) auto

lemma sorted_separate_disjoint:
  assumes "sorted_wrt (\<lambda>p q. fst (snd p) \<le> fst q) ps" "\<forall>p \<in> set ps. fst p \<le> fst (snd p) \<and> fst (snd p) \<le> n"
    and "m \<le> n" "\<forall>p \<in> set ps. m \<le> fst p"
  shows "disjoint_from m n ps"
  using assms
proof (induction ps arbitrary: m)
  case (Cons p ps)
  obtain i j new where p: "p = (i, j, new)" by (metis prod_cases3)
  have "disjoint_from j n ps" by (rule Cons.IH) (use Cons.prems p in auto)
  with Cons.prems p show ?case by simp
qed simp

definition as_nat :: "patch \<Rightarrow> nat \<times> nat \<times> pybytes" where
  "as_nat p = (nat (fst p), nat (fst (snd p)), snd (snd p))"

lemma apply_patches_weave:
  assumes "distinct ps" "\<forall>p \<in> set ps. 0 \<le> fst p \<and> fst p \<le> fst (snd p) \<and> fst (snd p) \<le> int (length raw)"
    and "\<forall>p \<in> set ps. \<forall>q \<in> set ps. p \<noteq> q \<longrightarrow> fst (snd p) < fst q \<or> fst (snd q) < fst p"
  defines "asc \<equiv> map as_nat (rev (sort_key (\<lambda>p. - fst p) ps))"
  shows "disjoint_from 0 (length raw) asc" "apply_patches raw ps = weave 0 raw asc"
proof -
  let ?d = "sort_key (\<lambda>p. - fst p) ps"
  have "sorted_wrt (\<lambda>p q. fst q \<le> fst p) ?d"
    using sorted_sort_key [of "\<lambda>p. - fst p" ps] by (simp add: sorted_map)
  moreover have "distinct ?d" using assms(1) by simp
  ultimately have "sorted_wrt (\<lambda>p q. fst q \<le> fst p \<and> p \<noteq> q) ?d"
    by (induction ?d) (auto simp: sorted_wrt_iff_nth_less nth_eq_iff_index_eq)
  then have "sorted_wrt (\<lambda>p q. fst (snd q) \<le> fst p) ?d"
    by (rule sorted_wrt_mono_rel [rotated]) (use assms(2,3) in fastforce)
  then have "sorted_wrt (\<lambda>p q. fst (snd p) \<le> fst q) (rev ?d)"
    by (simp add: sorted_wrt_rev)
  then have "sorted_wrt (\<lambda>p q. fst (snd p) \<le> fst q) asc"
    unfolding asc_def sorted_wrt_map as_nat_def
    by (rule sorted_wrt_mono_rel [rotated]) (auto simp: nat_mono)
  then show dis: "disjoint_from 0 (length raw) asc"
    by (rule sorted_separate_disjoint) (use assms(2) in \<open>auto simp: asc_def as_nat_def\<close>)
  have "foldl (\<lambda>out p. splice (nat (fst p)) (nat (fst (snd p))) (snd (snd p)) out) r ds = foldr splice3 (map as_nat (rev ds)) r"
    for r ds by (induction ds arbitrary: r) (auto simp: as_nat_def)
  then show "apply_patches raw ps = weave 0 raw asc"
    using foldr_splice_weave_0 [OF dis] by (simp add: apply_patches_def asc_def)
qed

lemma edited_span:
  assumes "tree_wf t" "path \<in> set (keep_first (map ed_path (tr_edits t)))"
  shows "\<exists>s. by_path t path = Some s \<and> \<not> is_nested s \<and> byte_range_ok (tr_raw t) s \<and> sp_path s = path"
proof -
  from assms obtain e where "e \<in> set (tr_edits t)" "ed_path e = path" by auto
  with assms(1) obtain s where "by_path t path = Some s" "\<not> is_nested s"
    unfolding tree_wf_def edit_ok_def by blast
  with assms(1) by_path_path show ?thesis unfolding tree_wf_def spans_wf_def by blast
qed

lemma distinct_of_map: "distinct (map f xs) \<Longrightarrow> distinct xs"
  by (simp add: distinct_map)

lemma edited_spans_paths: "tree_wf t \<Longrightarrow> map sp_path (edited_spans t) = keep_first (map ed_path (tr_edits t))"
  unfolding edited_spans_def map_map by (rule map_idI) (use edited_span in fastforce)

lemma edited_spans_distinct: "tree_wf t \<Longrightarrow> distinct (edited_spans t)"
  by (metis distinct_of_map edited_spans_paths keep_first_distinct)

lemma edited_spans_mem:
  assumes "tree_wf t" "s \<in> set (edited_spans t)"
  shows "by_path t (sp_path s) = Some s \<and> \<not> is_nested s \<and> byte_range_ok (tr_raw t) s"
proof -
  from assms(2) obtain p where p: "p \<in> set (keep_first (map ed_path (tr_edits t)))" "s = the (by_path t p)"
    unfolding edited_spans_def by auto
  from edited_span [OF assms(1) p(1)] p(2) show ?thesis by auto
qed

lemma patch_for_span:
  assumes wf: "tree_wf t" and path: "path \<in> set (keep_first (map ed_path (tr_edits t)))" and p: "patch_for t path = Inr p"
  shows "\<exists>s bs. s = the (by_path t path) \<and> p = (sp_byte_start s, sp_byte_end s, bs) \<and> utf8_encode (json_escape (edited_text t s)) = Some bs"
proof -
  from edited_span [OF wf path] obtain s where s: "by_path t path = Some s" "sp_path s = path" by blast
  from p s obtain out where ap: "apply_char_edits (sp_text s) (filter (\<lambda>e. ed_path e = path) (tr_edits t)) = Inr out"
    and bs: "\<exists>bs. utf8_encode (json_escape out) = Some bs \<and> p = (sp_byte_start s, sp_byte_end s, bs)"
    by (auto simp: patch_for_def rbind_Inr_iff split: if_splits option.splits)
  have "\<forall>e \<in> set (filter (\<lambda>e. ed_path e = path) (tr_edits t)). edit_wf (length (sp_text s)) e"
    using wf s unfolding tree_wf_def edit_ok_def by fastforce
  from apply_char_edits_weave(2) [OF ap this] s(2) have "out = edited_text t s" by (simp add: edited_text_def)
  with bs s(1) show ?thesis by auto
qed

lemma serialise_patches:
  assumes wf: "tree_wf t" and "tr_edits t \<noteq> []" "serialise t = Inr out"
  obtains ps where "list_all2 (\<lambda>s p. \<exists>bs. p = (sp_byte_start s, sp_byte_end s, bs)
      \<and> utf8_encode (json_escape (edited_text t s)) = Some bs) (edited_spans t) ps" "out = apply_patches (tr_raw t) ps"
proof -
  let ?paths = "keep_first (map ed_path (tr_edits t))"
  from assms obtain ps where ps: "rmap (patch_for t) ?paths = Inr ps" and out: "out = apply_patches (tr_raw t) ps"
    by (auto simp: serialise_def rbind_Inr_iff)
  from rmap_Inr [OF ps] have "list_all2 (\<lambda>x y. patch_for t x = Inr y) ?paths ps" .
  then have "list_all2 (\<lambda>x p. \<exists>bs. p = (sp_byte_start (the (by_path t x)), sp_byte_end (the (by_path t x)), bs)
      \<and> utf8_encode (json_escape (edited_text t (the (by_path t x)))) = Some bs) ?paths ps"
    by (rule list.rel_mono_strong) (use patch_for_span [OF wf] in blast)
  then show thesis
    by (intro that [OF _ out]) (simp add: edited_spans_def list_all2_map1)
qed

lemma serialise_fill:
  assumes wf: "tree_wf t" and out: "serialise t = Inr out"
  shows "\<exists>ss gaps vals. distinct ss \<and> set ss = set (edited_spans t) \<and> length gaps = Suc (length ss)
    \<and> tr_raw t = fill gaps (map (\<lambda>s. slice (nat (sp_byte_start s)) (nat (sp_byte_end s)) (tr_raw t)) ss)
    \<and> out = fill gaps vals
    \<and> list_all2 (\<lambda>s v. utf8_encode (json_escape (edited_text t s)) = Some v) ss vals"
proof (cases "tr_edits t = []")
  case True
  with out have "out = tr_raw t" by (simp add: serialise_def)
  with True show ?thesis
    by (intro exI [of _ "[]"] exI [of _ "[tr_raw t]"]) (simp add: edited_spans_def fill_def)
next
  case False
  let ?raw = "tr_raw t" and ?es = "edited_spans t"
  define Q where "Q s p \<longleftrightarrow> (\<exists>bs. p = (sp_byte_start s, sp_byte_end s, bs)
      \<and> utf8_encode (json_escape (edited_text t s)) = Some bs)" for s and p :: patch
  from serialise_patches [OF wf False out] obtain ps where ps: "list_all2 Q ?es ps" and o: "out = apply_patches ?raw ps"
    unfolding Q_def by blast
  have okspan: "byte_range_ok ?raw s \<and> (\<forall>s' \<in> set ?es. s' \<noteq> s \<longrightarrow> separated s s')" if "s \<in> set ?es" for s
  proof -
    have nn: "by_path t (sp_path x) = Some x \<and> \<not> is_nested x \<and> byte_range_ok ?raw x" if "x \<in> set ?es" for x
      using edited_spans_mem [OF wf that] .
    with that wf show ?thesis unfolding tree_wf_def spans_wf_def by (metis option.inject)
  qed
  have starts: "map fst ps = map sp_byte_start ?es"
    using ps by (induction rule: list_all2_induct) (auto simp: Q_def)
  have "inj_on sp_byte_start (set ?es)"
  proof (rule inj_onI, rule ccontr)
    fix x y assume "x \<in> set ?es" "y \<in> set ?es" "sp_byte_start x = sp_byte_start y" "x \<noteq> y"
    with okspan [of x] okspan [of y] have "separated x y" "byte_range_ok ?raw x" "byte_range_ok ?raw y" by auto
    with \<open>sp_byte_start x = sp_byte_start y\<close> show False by (auto simp: separated_def byte_range_ok_def)
  qed
  with edited_spans_distinct [OF wf] have "distinct (map fst ps)" by (simp add: starts distinct_map)
  then have dps: "distinct ps" by (rule distinct_of_map)
  have of_ps: "\<exists>s \<in> set ?es. Q s p" if "p \<in> set ps" for p
    using ps that by (induction rule: list_all2_induct) auto
  have rng: "\<forall>p \<in> set ps. 0 \<le> fst p \<and> fst p \<le> fst (snd p) \<and> fst (snd p) \<le> int (length ?raw)"
    using of_ps okspan by (fastforce simp: Q_def byte_range_ok_def)
  have sep: "\<forall>p \<in> set ps. \<forall>q \<in> set ps. p \<noteq> q \<longrightarrow> fst (snd p) < fst q \<or> fst (snd q) < fst p"
  proof (intro ballI impI)
    fix p q assume "p \<in> set ps" "q \<in> set ps" "p \<noteq> q"
    from of_ps [OF this(1)] of_ps [OF this(2)] obtain s s' where s: "s \<in> set ?es" "Q s p" "s' \<in> set ?es" "Q s' q" by blast
    with \<open>p \<noteq> q\<close> have "s \<noteq> s'" by (auto simp: Q_def)
    with okspan [OF s(1)] s(3) have "separated s s'" by metis
    with s(2,4) show "fst (snd p) < fst q \<or> fst (snd q) < fst p" by (auto simp: Q_def separated_def)
  qed
  define asc where "asc = rev (sort_key (\<lambda>p. - fst p) ps)"
  define ss where "ss = map (\<lambda>p. SOME s. s \<in> set ?es \<and> Q s p) asc"
  have sets: "set asc = set ps" by (simp add: asc_def)
  have choose: "(SOME s. s \<in> set ?es \<and> Q s p) \<in> set ?es \<and> Q (SOME s. s \<in> set ?es \<and> Q s p) p" if "p \<in> set asc" for p
  proof -
    have "\<exists>s. s \<in> set ?es \<and> Q s p" using of_ps [of p] that sets by blast
    then show ?thesis by (rule someI_ex)
  qed
  then have rel: "list_all2 (\<lambda>s p. s \<in> set ?es \<and> Q s p) ss asc"
    by (simp add: ss_def list_all2_map1 list_all2_same)
  have "map sp_byte_start ss = map fst asc"
    using rel by (induction rule: list_all2_induct) (auto simp: Q_def)
  moreover have "distinct (map fst asc)"
    using \<open>distinct (map fst ps)\<close> by (simp add: asc_def rev_map [symmetric] distinct_map)
  ultimately have dss: "distinct ss" by (metis distinct_of_map)
  moreover have "set ss \<subseteq> set ?es" using choose by (auto simp: ss_def)
  moreover have "length ss = length ?es" using list_all2_lengthD [OF ps] by (simp add: ss_def asc_def)
  ultimately have set_ss: "set ss = set ?es"
    using edited_spans_distinct [OF wf] by (metis card_subset_eq distinct_card finite_set)
  note w = apply_patches_weave [OF dps rng sep, folded asc_def]
  from weave_outside [OF w(1)] obtain gaps where g: "length gaps = Suc (length (map as_nat asc))"
    "?raw = fill gaps (map (\<lambda>p. slice (fst p) (fst (snd p)) ?raw) (map as_nat asc))"
    "weave 0 ?raw (map as_nat asc) = fill gaps (map (\<lambda>p. snd (snd p)) (map as_nat asc))"
    unfolding fill_def by auto
  have "map (\<lambda>p. slice (fst p) (fst (snd p)) ?raw) (map as_nat asc)
      = map (\<lambda>s. slice (nat (sp_byte_start s)) (nat (sp_byte_end s)) ?raw) ss"
    using rel by (induction rule: list_all2_induct) (auto simp: Q_def as_nat_def)
  moreover have "list_all2 (\<lambda>s v. utf8_encode (json_escape (edited_text t s)) = Some v) ss (map (\<lambda>p. snd (snd p)) (map as_nat asc))"
    using rel by (induction rule: list_all2_induct) (auto simp: Q_def as_nat_def)
  moreover have "length gaps = Suc (length ss)" using g(1) by (simp add: ss_def)
  ultimately show ?thesis
    using dss set_ss g(2,3) o w(2)
    by (intro exI [of _ ss] exI [of _ gaps] exI [of _ "map (\<lambda>p. snd (snd p)) (map as_nat asc)"]) simp
qed

definition reads_back :: "pybytes \<Rightarrow> pystr \<Rightarrow> bool" where
  \<comment> \<open>the bytes between two quotes are a JSON string whose value is the text\<close>
  "reads_back bs txt \<longleftrightarrow> Option.bind (utf8_decode bs) json_unescape = Some txt"

lemma encoded_reads_back: "utf8_encode (json_escape txt) = Some bs \<Longrightarrow> reads_back bs txt"
  by (simp add: reads_back_def utf8_decode_encode)

text \<open>C28. On a well-formed tree, the serialised body is the original buffer in which the content of each
  edited string, and nothing else, is replaced: everything between the edited strings is kept byte for
  byte, and each new content is a complete JSON string body that reads back as the span's text with its
  edits applied in one pass - so no replacement can end its string early or disturb another value.\<close>

theorem serialise_replaces_only_edited_strings:
  assumes "tree_wf t" "serialise t = Inr out"
  shows "\<exists>ss gaps vals. distinct ss \<and> set ss = set (edited_spans t) \<and> length gaps = Suc (length ss)
    \<and> tr_raw t = fill gaps (map (\<lambda>s. slice (nat (sp_byte_start s)) (nat (sp_byte_end s)) (tr_raw t)) ss)
    \<and> out = fill gaps vals
    \<and> list_all2 (\<lambda>s v. reads_back v (edited_text t s)) ss vals"
  using serialise_fill [OF assms] list.rel_mono_strong [OF _ encoded_reads_back] by fast

definition demo_tree :: span_tree where
  \<comment> \<open>the body \<^verbatim>\<open>{"a":"xy"}\<close> with one user string\<close>
  "demo_tree = span_tree (tx ''{'' @ [34] @ tx ''a'' @ [34] @ tx '':'' @ [34] @ tx ''xy'' @ [34] @ tx ''}'')
     [\<lparr>sp_path = tx ''a'', sp_text = tx ''xy'', sp_origin = OUser, sp_leg = Outbound, sp_byte_start = 6, sp_byte_end = 8,
       sp_lang_hint = None, sp_parent_path = None, sp_parent_char_offset = 0\<rparr>]"

definition demo_edited :: span_tree where
  "demo_edited = demo_tree\<lparr>tr_edits := [\<lparr>ed_path = tx ''a'', ed_start = 1, ed_end = 2, ed_replacement = [34, 8982]\<rparr>]\<rparr>"

lemma demo_edited_replace: "replace demo_tree (tx ''a'') 1 2 [34, 8982] = Inr demo_edited"
  by code_simp

lemma demo_by_path:
  "by_path demo_tree p = (if p = tx ''a'' then Some (hd (tr_spans demo_tree)) else None)"
  by (simp add: by_path_def demo_tree_def span_tree_def)

lemma demo_tree_wf: "tree_wf demo_tree"
  unfolding tree_wf_def spans_wf_def demo_by_path
  by (simp add: demo_tree_def span_tree_def byte_range_ok_def)

lemma serialise_replaces_only_edited_strings_witness:
  "\<exists>out ss gaps vals. serialise demo_edited = Inr out \<and> distinct ss \<and> set ss = set (edited_spans demo_edited)
    \<and> out = fill gaps vals \<and> list_all2 (\<lambda>s v. reads_back v (edited_text demo_edited s)) ss vals"
proof -
  have "serialise demo_edited = Inr (tx ''{'' @ [34] @ tx ''a'' @ [34] @ tx '':'' @ [34] @ tx ''x'' @ [92, 34, 226, 140, 150] @ [34] @ tx ''}'')"
    by (simp add: serialise_def demo_edited_def patch_for_def by_path_def apply_char_edits_def right_to_left_def
        has_byte_range_def NO_BYTE_RANGE_def splice_def json_escape_def esc_cp_def utf8_encode_def encodable_def
        code_point_def is_surrogate_def utf8_cp_def apply_patches_def demo_tree_def span_tree_def)
  note out = this
  from serialise_replaces_only_edited_strings [OF replace_wf [OF demo_edited_replace demo_tree_wf] out]
  obtain ss gaps vals where "distinct ss" "set ss = set (edited_spans demo_edited)"
    "tx ''{'' @ [34] @ tx ''a'' @ [34] @ tx '':'' @ [34] @ tx ''x'' @ [92, 34, 226, 140, 150] @ [34] @ tx ''}'' = fill gaps vals"
    "list_all2 (\<lambda>s v. reads_back v (edited_text demo_edited s)) ss vals" by (elim exE conjE)
  with out show ?thesis by (intro exI conjI)
qed

text \<open>Recording a replacement never corrupts the tree: an accepted edit keeps it well-formed, and
  \<open>replace\<close> refuses an unknown path or a range outside the span's text instead of ignoring it.\<close>

theorem replace_total_and_safe:
  assumes "tree_wf t"
  shows "case replace t path i j new of
      Inl e \<Rightarrow> by_path t path = None \<and> e = SpanNotFound path
        \<or> (\<exists>s. by_path t path = Some s \<and> e = SpanOffsetError path \<and> \<not> (0 \<le> i \<and> i \<le> j \<and> j \<le> int (length (sp_text s))))
    | Inr t' \<Rightarrow> tree_wf t' \<and> (\<exists>e. tr_edits t' = tr_edits t @ [e] \<and> ed_replacement e = new \<and> ed_end e - ed_start e = nat j - nat i)"
proof (cases "replace t path i j new")
  case (Inr t')
  obtain e where "t' = t\<lparr>tr_edits := tr_edits t @ [e]\<rparr>" "ed_replacement e = new" "ed_end e - ed_start e = nat j - nat i"
    by (rule replace_cases [OF Inr]) blast
  with replace_wf [OF Inr assms] show ?thesis by (simp add: Inr)
next
  case (Inl e)
  have par: "by_path t pp \<noteq> None" if "sp_parent_path s = Some pp" "by_path t path = Some s" for s pp
    using assms that unfolding tree_wf_def spans_wf_def by (metis option.distinct(1))
  show ?thesis
  proof (cases "by_path t path")
    case None
    with Inl show ?thesis by (simp add: replace_def)
  next
    case (Some s)
    with Inl par [OF _ Some] show ?thesis
      by (cases "sp_parent_path s") (auto simp: replace_def split: if_splits)
  qed
qed

lemma replace_total_and_safe_witness:
  "tree_wf demo_edited \<and> replace demo_tree (tx ''a'') 1 3 [] = Inl (SpanOffsetError (tx ''a''))"
proof -
  have "replace demo_tree (tx ''a'') 1 3 [] = Inl (SpanOffsetError (tx ''a''))" by code_simp
  with replace_total_and_safe [OF demo_tree_wf, of "tx ''a''" 1 2 "[34, 8982]"] show ?thesis
    unfolding demo_edited_replace by simp
qed

end
