(* ===== verification/CallState.thy ===== *)
theory CallState
  imports PyText Complex_Main
begin

text \<open>
  State carried between hook invocations (\<^verbatim>\<open>gateway/base/window.py\<close>): the fragments of one tool call
  (\<open>CallWindow\<close>), the pieces written to one destination (\<open>SinkAssembly\<close>), the tail of the last prompts
  (\<open>PromptWindow\<close>), and the functions that find a call's destination and payload. The state directory is a
  dictionary from file names to a modification time and the JSON value in the file; \<open>io_env\<close> says what the
  file system and the clock do during one operation. SHA-256 is the parameter \<open>H\<close>, \<open>uw\<close> the regular
  expression class \<^verbatim>\<open>\w\<close> and \<open>rp\<close> Python's \<open>str\<close> of a list or dictionary. \<open>None\<close> is the
  \<open>UnicodeEncodeError\<close> of an identifier with a lone surrogate.
\<close>

section \<open>Runs of credential characters\<close>

definition DEFAULT_WINDOW :: nat where "DEFAULT_WINDOW = 64"
definition MAX_FRAGMENTS :: nat where "MAX_FRAGMENTS = 3"
definition MAX_CANDIDATES :: nat where "MAX_CANDIDATES = 24"
definition DEFAULT_TTL_S :: nat where "DEFAULT_TTL_S = 3600"
definition MAX_PIECES :: nat where "MAX_PIECES = 12"
definition MAX_ASSEMBLY :: nat where "MAX_ASSEMBLY = 512"
definition MAX_PROMPT_TURNS :: nat where "MAX_PROMPT_TURNS = 3"

definition ANCHOR_HEADS :: "pystr list" where
  "ANCHOR_HEADS = map (\<lambda>s. tx s)
     [''sk-ant-'', ''ghp_'', ''gho_'', ''ghu_'', ''ghs_'', ''ghr_'', ''AKIA'', ''ASIA'', ''rzp_live_'', ''rzp_test_'',
      ''xox'', ''AIza'', ''sk_live_'', ''sk_test_'', ''rk_live_'', ''rk_test_'', ''eyJ'', ''-----BEGIN'']"

definition run_char :: "nat \<Rightarrow> bool" where
  "run_char c \<longleftrightarrow> is_alnum c \<or> c \<in> set (tx ''+/=_.-'')"

function runs :: "(nat \<Rightarrow> bool) \<Rightarrow> pystr \<Rightarrow> pystr list" where
  \<comment> \<open>\<open>finditer\<close> of \<open>[...]+\<close>: the maximal runs, left to right\<close>
  "runs P s = (case dropWhile (\<lambda>c. \<not> P c) s of
       [] \<Rightarrow> [] | c # t \<Rightarrow> (c # takeWhile P t) # runs P (dropWhile P t))"
  by pat_completeness auto
termination
proof (relation "measure (\<lambda>(P, s). length s)")
  fix P :: "nat \<Rightarrow> bool" and s c t
  assume "dropWhile (\<lambda>c. \<not> P c) s = c # t"
  then have "length (c # t) \<le> length s" using length_dropWhile_le [of "\<lambda>c. \<not> P c" s] by simp
  moreover have "length (dropWhile P t) \<le> length t" by (rule length_dropWhile_le)
  ultimately show "((P, dropWhile P t), P, s) \<in> measure (\<lambda>(P, s). length s)" by simp
qed simp

declare runs.simps [simp del]

definition run_matches :: "pystr \<Rightarrow> pystr list" where
  "run_matches text = filter (\<lambda>r. 4 \<le> length r) (runs run_char text)"

definition starts_with :: "pystr \<Rightarrow> pystr \<Rightarrow> bool" where
  "starts_with p s \<longleftrightarrow> take (length p) s = p"

definition ends_with :: "pystr \<Rightarrow> pystr \<Rightarrow> bool" where
  "ends_with p s \<longleftrightarrow> length p \<le> length s \<and> drop (length s - length p) s = p"

definition partial_anchor :: "pystr \<Rightarrow> bool" where
  "partial_anchor run \<longleftrightarrow>
     list_ex (\<lambda>a. starts_with a run \<or> list_ex (\<lambda>cut. ends_with (take cut a) run) [2..<length a]) ANCHOR_HEADS"

definition or_limit :: "nat option \<Rightarrow> nat" where
  \<comment> \<open>\<open>limit or MAX_FRAGMENTS\<close>\<close>
  "or_limit limit = (case limit of None \<Rightarrow> MAX_FRAGMENTS | Some n \<Rightarrow> if n = 0 then MAX_FRAGMENTS else n)"

definition fragments_of :: "pystr \<Rightarrow> nat \<Rightarrow> nat option \<Rightarrow> pystr list" where
  "fragments_of text window limit =
     take (or_limit limit) (filter partial_anchor
       (map (\<lambda>r. if window < length r then last_n window r else r) (run_matches text)))"

definition candidates_of :: "pystr \<Rightarrow> nat \<Rightarrow> pystr list" where
  "candidates_of text window = take MAX_CANDIDATES (filter (\<lambda>r. 4 \<le> length r) (map (take window) (run_matches text)))"

section \<open>The state directory\<close>

datatype file_doc =
    FragDoc "pystr list" \<comment> \<open>a JSON list; its items as \<open>str\<close> reads them\<close>
  | TailDoc pystr nat \<comment> \<open>an object with \<open>tail\<close> and \<open>turns\<close>\<close>
  | OtherDoc \<comment> \<open>JSON of another shape\<close>
  | BrokenDoc \<comment> \<open>not JSON\<close>

record state_file =
  sf_mtime :: rat
  sf_doc :: file_doc

type_synonym state_dir = "(pystr \<times> state_file) list"

record io_env =
  io_now :: rat
  io_read :: bool
  io_unlink :: bool
  io_write :: bool

definition digest16 :: "(pybytes \<Rightarrow> pybytes) \<Rightarrow> pystr \<Rightarrow> pystr option" where
  "digest16 H s = map_option (\<lambda>b. take 16 (concat (map (\<lambda>b. [hex_cp (b div 16), hex_cp (b mod 16)]) (H b)))) (utf8_encode s)"

definition unlink :: "io_env \<Rightarrow> pystr \<Rightarrow> state_dir \<Rightarrow> state_dir" where
  "unlink io p dir = (if io_unlink io then AList.delete p dir else dir)"

definition write_file :: "io_env \<Rightarrow> pystr \<Rightarrow> file_doc \<Rightarrow> state_dir \<Rightarrow> state_dir" where
  "write_file io p doc dir =
     (if io_write io then AList.update p \<lparr>sf_mtime = io_now io, sf_doc = doc\<rparr> dir else dir)"

definition read_file :: "io_env \<Rightarrow> nat \<Rightarrow> pystr \<Rightarrow> state_dir \<Rightarrow> file_doc option \<times> state_dir" where
  \<comment> \<open>the common part of the three \<open>_load\<close>s: a missing, unreadable or stale file gives nothing, a stale one goes\<close>
  "read_file io ttl p dir =
     (case map_of dir p of
        None \<Rightarrow> (None, dir)
      | Some f \<Rightarrow>
          if \<not> io_read io then (None, dir)
          else if of_nat ttl < io_now io - sf_mtime f then (None, unlink io p dir)
          else (Some (sf_doc f), dir))"

section \<open>Fragments between consecutive calls\<close>

definition frag_path :: "(pybytes \<Rightarrow> pybytes) \<Rightarrow> pystr \<Rightarrow> pystr option" where
  "frag_path H session = map_option (\<lambda>d. d @ tx ''.frag'') (digest16 H (if session = [] then tx ''-'' else session))"

definition frag_load :: "io_env \<Rightarrow> nat \<Rightarrow> pystr \<Rightarrow> state_dir \<Rightarrow> pystr list \<times> state_dir" where
  "frag_load io ttl p dir =
     (case read_file io ttl p dir of
        (None, dir) \<Rightarrow> ([], dir)
      | (Some BrokenDoc, dir) \<Rightarrow> ([], dir)
      | (Some doc, dir) \<Rightarrow> ((case doc of FragDoc xs \<Rightarrow> take MAX_FRAGMENTS xs | _ \<Rightarrow> []), unlink io p dir))"

definition frag_bridge :: "(pybytes \<Rightarrow> pybytes) \<Rightarrow> io_env \<Rightarrow> nat \<Rightarrow> nat \<Rightarrow> pystr \<Rightarrow> pystr \<Rightarrow> nat option \<Rightarrow> state_dir
    \<Rightarrow> (pystr list \<times> state_dir) option" where
  "frag_bridge H io window ttl session text limit dir =
     map_option (\<lambda>p. case frag_load io ttl p dir of (xs, dir) \<Rightarrow>
       (concat (map (\<lambda>frag. map (\<lambda>run. frag @ run) (candidates_of text window)) (take (or_limit limit) xs)), dir))
       (frag_path H session)"

definition frag_remember :: "(pybytes \<Rightarrow> pybytes) \<Rightarrow> io_env \<Rightarrow> nat \<Rightarrow> pystr \<Rightarrow> pystr \<Rightarrow> nat option \<Rightarrow> state_dir
    \<Rightarrow> state_dir option" where
  "frag_remember H io window session text limit dir =
     map_option (\<lambda>p. let frags = fragments_of text window limit in
       if frags = [] then unlink io p dir else write_file io p (FragDoc frags) dir) (frag_path H session)"

definition frag_clear :: "(pybytes \<Rightarrow> pybytes) \<Rightarrow> io_env \<Rightarrow> pystr \<Rightarrow> state_dir \<Rightarrow> state_dir option" where
  "frag_clear H io session dir = map_option (\<lambda>p. unlink io p dir) (frag_path H session)"

section \<open>Pieces written to one destination\<close>

definition sink_path :: "(pybytes \<Rightarrow> pybytes) \<Rightarrow> pystr \<Rightarrow> pystr \<Rightarrow> pystr option" where
  "sink_path H session sink = map_option (\<lambda>d. d @ tx ''.sink'') (digest16 H (session @ tx ''|'' @ sink))"

definition sink_load :: "io_env \<Rightarrow> nat \<Rightarrow> pystr \<Rightarrow> state_dir \<Rightarrow> pystr list \<times> state_dir" where
  "sink_load io ttl p dir =
     (case read_file io ttl p dir of (doc, dir) \<Rightarrow> ((case doc of Some (FragDoc xs) \<Rightarrow> xs | _ \<Rightarrow> []), dir))"

definition total_length :: "pystr list \<Rightarrow> nat" where
  "total_length pieces = sum_list (map length pieces)"

fun trim_pieces :: "pystr list \<Rightarrow> pystr list" where
  \<comment> \<open>\<open>while sum(...) > MAX_ASSEMBLY and len(pieces) > 1: pieces.pop(0)\<close>\<close>
  "trim_pieces (p # q # ps) =
     (if MAX_ASSEMBLY < total_length (p # q # ps) then trim_pieces (q # ps) else p # q # ps)"
| "trim_pieces ps = ps"

definition sink_add :: "(pybytes \<Rightarrow> pybytes) \<Rightarrow> io_env \<Rightarrow> nat \<Rightarrow> pystr \<Rightarrow> pystr \<Rightarrow> pystr \<Rightarrow> state_dir
    \<Rightarrow> (pystr option \<times> state_dir) option" where
  "sink_add H io ttl session sink payload dir =
     (if sink = [] \<or> strip payload = [] then Some (None, dir)
      else map_option (\<lambda>p.
        case sink_load io ttl p dir of (pieces, dir) \<Rightarrow>
          if pieces = [] \<and> fragments_of payload DEFAULT_WINDOW None = [] then (None, dir)
          else
            let pieces = trim_pieces (last_n MAX_PIECES (pieces @ [take MAX_ASSEMBLY payload]));
                dir = write_file io p (FragDoc pieces) dir
            in (if length pieces < 2 then None else Some (concat pieces), dir))
        (sink_path H session sink))"

definition sink_clear :: "(pybytes \<Rightarrow> pybytes) \<Rightarrow> io_env \<Rightarrow> pystr \<Rightarrow> pystr \<Rightarrow> state_dir \<Rightarrow> state_dir option" where
  "sink_clear H io session sink dir = map_option (\<lambda>p. unlink io p dir) (sink_path H session sink)"

section \<open>The tail of the last prompts\<close>

definition prompt_path :: "(pybytes \<Rightarrow> pybytes) \<Rightarrow> pystr \<Rightarrow> pystr option" where
  "prompt_path H session = map_option (\<lambda>d. d @ tx ''.prompt'') (digest16 H (if session = [] then tx ''-'' else session))"

definition prompt_load :: "io_env \<Rightarrow> nat \<Rightarrow> nat \<Rightarrow> pystr \<Rightarrow> state_dir \<Rightarrow> (pystr \<times> nat) \<times> state_dir" where
  "prompt_load io window ttl p dir =
     (case read_file io ttl p dir of (doc, dir) \<Rightarrow>
        ((case doc of Some (TailDoc tail turns) \<Rightarrow> (last_n window tail, turns) | _ \<Rightarrow> ([], 0)), dir))"

definition prompt_bridge :: "(pybytes \<Rightarrow> pybytes) \<Rightarrow> io_env \<Rightarrow> nat \<Rightarrow> nat \<Rightarrow> pystr \<Rightarrow> pystr \<Rightarrow> state_dir
    \<Rightarrow> (pystr \<times> state_dir) option" where
  "prompt_bridge H io window ttl session text dir =
     map_option (\<lambda>p. case prompt_load io window ttl p dir of ((tail, _), dir) \<Rightarrow>
       (if tail = [] \<or> strip text = [] then [] else tail @ take window text, dir)) (prompt_path H session)"

definition prompt_remember :: "(pybytes \<Rightarrow> pybytes) \<Rightarrow> io_env \<Rightarrow> nat \<Rightarrow> nat \<Rightarrow> nat \<Rightarrow> pystr \<Rightarrow> pystr \<Rightarrow> state_dir
    \<Rightarrow> state_dir option" where
  "prompt_remember H io window ttl max_turns session text dir =
     (if strip text = [] then Some dir
      else map_option (\<lambda>p. case prompt_load io window ttl p dir of ((tail, turns), dir) \<Rightarrow>
        let (tail, turns) = (if max_turns \<le> turns then ([], 0) else (tail, turns))
        in write_file io p (TailDoc (last_n window (tail @ text)) (turns + 1)) dir) (prompt_path H session))"

definition prompt_clear :: "(pybytes \<Rightarrow> pybytes) \<Rightarrow> io_env \<Rightarrow> pystr \<Rightarrow> state_dir \<Rightarrow> state_dir option" where
  "prompt_clear H io session dir = map_option (\<lambda>p. unlink io p dir) (prompt_path H session)"

section \<open>Where a call writes, and what\<close>

datatype pyval =
    PStr pystr
  | PList "pyval list"
  | PDict "(pystr \<times> pyval) list"
  | PAtom pystr bool \<comment> \<open>a number, boolean or null: its \<open>str\<close> and its truth\<close>

fun py_true :: "pyval \<Rightarrow> bool" where
  "py_true (PStr s) = (s \<noteq> [])"
| "py_true (PList xs) = (xs \<noteq> [])"
| "py_true (PDict d) = (d \<noteq> [])"
| "py_true (PAtom s b) = b"

fun py_str :: "(pyval \<Rightarrow> pystr) \<Rightarrow> pyval \<Rightarrow> pystr" where
  "py_str rp (PStr s) = s"
| "py_str rp (PAtom s b) = s"
| "py_str rp v = rp v"

type_synonym tool_args = "(pystr \<times> pyval) list"

definition str_or :: "(pyval \<Rightarrow> pystr) \<Rightarrow> string list \<Rightarrow> tool_args \<Rightarrow> pystr" where
  \<comment> \<open>\<open>str(args.get(k1) or args.get(k2) or "")\<close>\<close>
  "str_or rp ks args =
     (case filter (\<lambda>v. py_true v) (List.map_filter (\<lambda>k. map_of args (tx k)) ks) of [] \<Rightarrow> [] | v # _ \<Rightarrow> py_str rp v)"

definition str_get :: "(pyval \<Rightarrow> pystr) \<Rightarrow> string \<Rightarrow> tool_args \<Rightarrow> pystr" where
  \<comment> \<open>\<open>str(args.get(k, ""))\<close>\<close>
  "str_get rp k args = (case map_of args (tx k) of None \<Rightarrow> [] | Some v \<Rightarrow> py_str rp v)"

definition word_of :: "pystr \<Rightarrow> pystr option" where
  \<comment> \<open>\<^verbatim>\<open>\s*(\S+)\<close>\<close>
  "word_of s = (let t = dropWhile is_space s in if t = [] then None else Some (takeWhile (\<lambda>c. \<not> is_space c) t))"

fun sink_redirect :: "pystr \<Rightarrow> pystr option" where
  \<comment> \<open>\<^verbatim>\<open>>>?\s*(\S+)\<close>: the second \<open>>\<close> is given back when nothing follows it\<close>
  "sink_redirect (c # r) =
     (if c \<noteq> 62 then None
      else case r of
        d # t \<Rightarrow> if d = 62 \<and> word_of t \<noteq> None then word_of t else word_of r
      | [] \<Rightarrow> None)"
| "sink_redirect [] = None"

definition sink_tee :: "(nat \<Rightarrow> bool) \<Rightarrow> nat option \<Rightarrow> pystr \<Rightarrow> pystr option" where
  \<comment> \<open>\<^verbatim>\<open>\btee\s+(?:-a\s+)?(\S+)\<close>\<close>
  "sink_tee uw prev s =
     (if (case prev of Some c \<Rightarrow> uw c | None \<Rightarrow> False) \<or> \<not> starts_with (tx ''tee'') s then None
      else case drop 3 s of
        [] \<Rightarrow> None
      | c # r \<Rightarrow>
          if \<not> is_space c then None
          else let t = dropWhile is_space r in
            if starts_with (tx ''-a'') t \<and> (case drop 2 t of d # u \<Rightarrow> is_space d \<and> word_of u \<noteq> None | [] \<Rightarrow> False)
            then word_of (drop 2 t) else word_of t)"

definition sink_flag :: "pystr \<Rightarrow> pystr option" where
  \<comment> \<open>\<^verbatim>\<open>--?o(?:utput)?[=\s]\s*(\S+)\<close>\<close>
  "sink_flag s =
     (case s of
        c # r \<Rightarrow>
          if c \<noteq> 45 then None
          else let r = (case r of d # t \<Rightarrow> if d = 45 then t else r | [] \<Rightarrow> r) in
            (case r of
               d # t \<Rightarrow>
                 if d \<noteq> 111 then None
                 else (case (if starts_with (tx ''utput'') t then drop 5 t else t) of
                         e # u \<Rightarrow> if e = 61 \<or> is_space e then word_of u else None
                       | [] \<Rightarrow> None)
             | [] \<Rightarrow> None)
      | [] \<Rightarrow> None)"

definition sink_at :: "(nat \<Rightarrow> bool) \<Rightarrow> nat option \<Rightarrow> pystr \<Rightarrow> pystr option" where
  \<comment> \<open>the alternatives of \<open>_SINK\<close> at one position; the flag stands at the start or after a blank\<close>
  "sink_at uw prev s =
     (case sink_redirect s of
        Some g \<Rightarrow> Some g
      | None \<Rightarrow> (case sink_tee uw prev s of
          Some g \<Rightarrow> Some g
        | None \<Rightarrow> (case (if prev = None then sink_flag s else None) of
            Some g \<Rightarrow> Some g
          | None \<Rightarrow> (case s of c # r \<Rightarrow> if is_space c then sink_flag r else None | [] \<Rightarrow> None))))"

fun find_sink :: "(nat \<Rightarrow> bool) \<Rightarrow> nat option \<Rightarrow> pystr \<Rightarrow> pystr option" where
  "find_sink uw prev [] = None"
| "find_sink uw prev (c # r) = (case sink_at uw prev (c # r) of Some g \<Rightarrow> Some g | None \<Rightarrow> find_sink uw (Some c) r)"

definition sink_of :: "(nat \<Rightarrow> bool) \<Rightarrow> (pyval \<Rightarrow> pystr) \<Rightarrow> pystr \<Rightarrow> tool_args \<Rightarrow> pystr" where
  "sink_of uw rp tool args =
     (if tool = tx ''Write'' \<or> tool = tx ''Edit'' \<or> tool = tx ''NotebookEdit'' then
        str_or rp [''file_path'', ''notebook_path''] args
      else if tool = tx ''Bash'' then
        (case find_sink uw None (str_get rp ''command'' args) of None \<Rightarrow> [] | Some g \<Rightarrow> g)
      else [])"

function quoted :: "pystr \<Rightarrow> pystr list" where
  \<comment> \<open>\<open>findall\<close> of the quoted strings, single or double\<close>
  "quoted [] = []"
| "quoted (c # r) =
     (if (c = 39 \<or> c = 34) \<and> c \<in> set r
      then takeWhile (\<lambda>d. d \<noteq> c) r # quoted (tl (dropWhile (\<lambda>d. d \<noteq> c) r))
      else quoted r)"
  by pat_completeness auto
termination
  by (relation "measure length") (auto simp: less_Suc_eq_le intro: le_trans [OF diff_le_self length_dropWhile_le])

definition is_format :: "pystr \<Rightarrow> bool" where
  "is_format p = (case p of [c, d] \<Rightarrow> c = 37 \<and> is_lower d | _ \<Rightarrow> False)"

definition payload_of :: "(pyval \<Rightarrow> pystr) \<Rightarrow> pystr \<Rightarrow> tool_args \<Rightarrow> pystr" where
  "payload_of rp tool args =
     (if tool = tx ''Write'' \<or> tool = tx ''NotebookEdit'' then str_or rp [''content'', ''new_source''] args
      else if tool = tx ''Edit'' then str_or rp [''new_string''] args
      else if tool = tx ''Bash'' then
        concat (filter (\<lambda>p. p \<noteq> [] \<and> \<not> is_format p) (quoted (str_get rp ''command'' args)))
      else [])"

end
