(* ===== verification/JsonSpan.thy ===== *)
theory JsonSpan
  imports SpanModel CallState JsonValue "HOL-Library.Code_Target_Nat"
begin

text \<open>
  The JSON span parser (\<^verbatim>\<open>gateway/spans/jsonspan.py\<close>): every string value of a body with the byte range of its content,
  and the strings of documents that are themselves string values. The position in the buffer goes with the rest of
  it; calls are bounded by fuel, of which the length of the buffer is enough, and by the frames the interpreter
  allows. \<open>json.loads\<close> of a whole body, which only the origins depend on, is the parameter \<open>loads\<close>.
\<close>

section \<open>Decoding\<close>

definition decode1_pass :: "pybytes \<Rightarrow> (nat \<times> pybytes) option" where
  \<comment> \<open>with \<open>surrogatepass\<close>, as \<open>json.loads\<close> decodes bytes\<close>
  "decode1_pass bs =
     (case decode1 bs of
        Some x \<Rightarrow> Some x
      | None \<Rightarrow> (case bs of
          b # b1 # b2 # r \<Rightarrow> if b = 237 \<and> 160 \<le> b1 \<and> is_cont b1 \<and> is_cont b2
            then Some ((b - 224) * 4096 + cont_val b1 * 64 + cont_val b2, r) else None
        | _ \<Rightarrow> None))"

lemma decode1_pass_shorter: "decode1_pass bs = Some (c, r) \<Longrightarrow> length r < length bs"
  by (auto simp: decode1_pass_def dest: decode1_shorter split: option.splits list.splits if_splits)

function utf8_pass :: "pybytes \<Rightarrow> pystr option" where
  "utf8_pass bs =
     (if bs = [] then Some []
      else case decode1_pass bs of None \<Rightarrow> None | Some (c, r) \<Rightarrow> map_option (Cons c) (utf8_pass r))"
  by pat_completeness auto
termination by (relation "measure length") (auto dest: decode1_pass_shorter)

declare utf8_pass.simps [simp del]

function decode_ignore :: "pybytes \<Rightarrow> pystr" where
  \<comment> \<open>\<open>errors="ignore"\<close>\<close>
  "decode_ignore bs =
     (if bs = [] then []
      else case decode1 bs of
             Some (c, r) \<Rightarrow> c # decode_ignore r
           | None \<Rightarrow> decode_ignore (drop (bad_len bs) bs))"
  by pat_completeness auto
termination
  by (relation "measure length") (auto dest: decode1_shorter simp: bad_len_pos)

declare decode_ignore.simps [simp del]

section \<open>Tokens\<close>

datatype json_error =
    Malformed
  | TooDeep \<comment> \<open>\<open>RecursionError\<close>\<close>
  | NoFuel

fun skip_ws :: "nat \<Rightarrow> pybytes \<Rightarrow> nat \<times> pybytes" where
  "skip_ws p (c # cs) = (if c \<in> {32, 9, 10, 13} then skip_ws (Suc p) cs else (p, c # cs))"
| "skip_ws p [] = (p, [])"

fun string_content :: "pybytes \<Rightarrow> (pybytes \<times> pybytes) option" where
  \<comment> \<open>up to the closing quote, and what follows it\<close>
  "string_content [] = None"
| "string_content (c # cs) =
     (if c = 92 then (case cs of [] \<Rightarrow> None | d # ds \<Rightarrow> map_option (\<lambda>(x, r). (c # d # x, r)) (string_content ds))
      else if c = 34 then Some ([], cs)
      else map_option (\<lambda>(x, r). (c # x, r)) (string_content cs))"

definition json_text :: "pybytes \<Rightarrow> pystr option" where
  \<comment> \<open>\<open>json.loads\<close> of the quoted content\<close>
  "json_text content = Option.bind (utf8_pass content) json_unescape"

definition string_token :: "nat \<Rightarrow> pybytes \<Rightarrow> json_error + (pystr \<times> nat \<times> nat) \<times> nat \<times> pybytes" where
  "string_token p rest =
     (case rest of
        [] \<Rightarrow> Inl Malformed
      | c # cs \<Rightarrow>
          if c \<noteq> 34 then Inl Malformed
          else (case string_content cs of
             None \<Rightarrow> Inl Malformed
           | Some (content, r) \<Rightarrow>
               (case json_text content of
                  None \<Rightarrow> Inl Malformed
                | Some t \<Rightarrow> Inr ((t, p + 1, p + 1 + length content), p + 2 + length content, r))))"

definition expect :: "nat \<Rightarrow> nat \<Rightarrow> pybytes \<Rightarrow> json_error + nat \<times> pybytes" where
  "expect ch p rest = (case rest of c # cs \<Rightarrow> if c = ch then Inr (p + 1, cs) else Inl Malformed | [] \<Rightarrow> Inl Malformed)"

fun scalar_chars :: "pybytes \<Rightarrow> nat" where
  "scalar_chars (c # cs) = (if c \<in> {44, 93, 125, 32, 9, 10, 13} then 0 else Suc (scalar_chars cs))"
| "scalar_chars [] = 0"

definition skip_scalar :: "nat \<Rightarrow> pybytes \<Rightarrow> json_error + nat \<times> pybytes" where
  \<comment> \<open>whatever stands before the next delimiter\<close>
  "skip_scalar p rest = (let n = scalar_chars rest in if n = 0 then Inl Malformed else Inr (p + n, drop n rest))"

section \<open>Paths and origins\<close>

definition child_path :: "pystr \<Rightarrow> pystr \<Rightarrow> pystr" where
  "child_path path key = (if path = [] then key else path @ 46 # key)"

definition item_path :: "pystr \<Rightarrow> nat \<Rightarrow> pystr" where
  "item_path path i = path @ 91 # tx (pr_nat i) @ [93]"

definition ROOT_ORIGINS :: "(pystr \<times> origin) list" where
  "ROOT_ORIGINS = [(tx ''tools'', OToolDefinition), (tx ''tool_choice'', OToolDefinition), (tx ''functions'', OToolDefinition),
     (tx ''system'', OSystem), (tx ''instructions'', OSystem)]"

definition METADATA_KEYS :: "pystr list" where
  "METADATA_KEYS = map (\<lambda>s. tx s)
     [''role'', ''type'', ''id'', ''model'', ''object'', ''created'', ''status'', ''index'', ''cache_control'', ''anthropic_version'',
      ''stop_reason'', ''finish_reason'', ''usage'', ''service_tier'', ''previous_response_id'', ''schema'', ''format'',
      ''prompt_cache_key'', ''prompt_cache_options'', ''prompt_cache_retention'', ''prompt_cache_breakpoint'']"

definition origin_for :: "pystr \<Rightarrow> pystr \<Rightarrow> origin \<Rightarrow> origin" where
  "origin_for path key inherited =
     (case map_of ROOT_ORIGINS (takeWhile (\<lambda>c. c \<noteq> 91) (takeWhile (\<lambda>c. c \<noteq> 46) path)) of
        Some o1 \<Rightarrow> o1
      | None \<Rightarrow>
          if key \<in> set (map (\<lambda>s. tx s) [''tool_result'', ''tool_use'', ''toolResult'', ''output'', ''function_call_output'']) then OToolResult
          else if key \<in> set (map (\<lambda>s. tx s) [''tool_calls'', ''tool_call'', ''function_call'', ''arguments'']) then OToolCall
          else if key \<in> set METADATA_KEYS then OMetadata
          else inherited)"

section \<open>Roles of messages\<close>

record json_env =
  je_loads :: "pybytes \<Rightarrow> pyval option" \<comment> \<open>\<open>json.loads\<close>; \<open>None\<close> is its \<open>ValueError\<close>\<close>
  je_lower :: "pystr \<Rightarrow> pystr"
  je_leg :: leg

definition ROLE_ORIGINS :: "(pystr \<times> origin) list" where
  "ROLE_ORIGINS = [(tx ''system'', OSystem), (tx ''developer'', OSystem), (tx ''user'', OUser), (tx ''assistant'', OAssistant),
     (tx ''tool'', OToolResult), (tx ''function'', OToolResult)]"

definition role_of :: "json_env \<Rightarrow> pyval \<Rightarrow> origin option" where
  "role_of je item =
     (case item of
        PDict m \<Rightarrow> (case map_of m (tx ''role'') of Some (PStr r) \<Rightarrow> map_of ROLE_ORIGINS (je_lower je r) | _ \<Rightarrow> None)
      | _ \<Rightarrow> None)"

definition message_roles :: "json_env \<Rightarrow> pybytes \<Rightarrow> (pystr \<times> origin) list" where
  "message_roles je raw =
     (case je_loads je raw of
        Some (PDict d) \<Rightarrow>
          concat (map (\<lambda>field. case map_of d field of
              Some (PList items) \<Rightarrow>
                List.map_filter (\<lambda>(i, item). map_option (Pair (item_path field i)) (role_of je item)) (zip [0..<length items] items)
            | _ \<Rightarrow> []) [tx ''messages'', tx ''input''])
      | _ \<Rightarrow> [])"

definition role_origin :: "(pystr \<times> origin) list \<Rightarrow> span \<Rightarrow> span" where
  "role_origin roles s =
     (if sp_origin s \<in> {OMetadata, OToolDefinition, OToolCall, OToolResult} then s
      else case find (\<lambda>(prefix, _). sp_path s = prefix \<or> starts_with (prefix @ [46]) (sp_path s)) roles of
        None \<Rightarrow> s | Some (_, o1) \<Rightarrow> s\<lparr>sp_origin := o1\<rparr>)"

definition apply_message_roles :: "json_env \<Rightarrow> pybytes \<Rightarrow> span list \<Rightarrow> span list" where
  "apply_message_roles je raw spans = map (role_origin (message_roles je raw)) spans"

section \<open>Values\<close>

definition MIN_NESTED_LEN :: nat where "MIN_NESTED_LEN = 8"
definition MAX_NESTED_DEPTH :: nat where "MAX_NESTED_DEPTH = 2"

definition leaf_span :: "json_env \<Rightarrow> pystr \<Rightarrow> origin \<Rightarrow> pystr \<Rightarrow> nat \<Rightarrow> nat \<Rightarrow> span" where
  "leaf_span je path org t i j =
     \<lparr>sp_path = path, sp_text = t, sp_origin = org, sp_leg = je_leg je, sp_byte_start = int i, sp_byte_end = int j,
      sp_lang_hint = None, sp_parent_path = None, sp_parent_char_offset = 0\<rparr>"

definition nested_span :: "json_env \<Rightarrow> pystr \<Rightarrow> nat \<Rightarrow> nat \<Rightarrow> pybytes \<Rightarrow> span \<Rightarrow> span" where
  "nested_span je parent i j source s =
     \<lparr>sp_path = parent @ tx ''$json'' @ (if sp_path s = [] then [] else 46 # sp_path s), sp_text = sp_text s, sp_origin = sp_origin s,
      sp_leg = je_leg je, sp_byte_start = int i, sp_byte_end = int j, sp_lang_hint = None, sp_parent_path = Some parent,
      sp_parent_char_offset = length (decode_ignore (take (nat (sp_byte_start s)) source))\<rparr>"

function json_value :: "nat \<Rightarrow> json_env \<Rightarrow> nat \<Rightarrow> pystr \<Rightarrow> origin \<Rightarrow> nat \<Rightarrow> nat \<Rightarrow> pybytes \<Rightarrow> json_error + span list \<times> nat \<times> pybytes"
and json_members :: "nat \<Rightarrow> json_env \<Rightarrow> nat \<Rightarrow> pystr \<Rightarrow> origin \<Rightarrow> nat \<Rightarrow> nat \<Rightarrow> pybytes \<Rightarrow> json_error + span list \<times> nat \<times> pybytes"
and json_items :: "nat \<Rightarrow> json_env \<Rightarrow> nat \<Rightarrow> pystr \<Rightarrow> origin \<Rightarrow> nat \<Rightarrow> nat \<Rightarrow> nat \<Rightarrow> pybytes \<Rightarrow> json_error + span list \<times> nat \<times> pybytes"
and json_document :: "nat \<Rightarrow> json_env \<Rightarrow> nat \<Rightarrow> origin \<Rightarrow> pybytes \<Rightarrow> json_error + span list"
and json_nested :: "nat \<Rightarrow> json_env \<Rightarrow> nat \<Rightarrow> pystr \<Rightarrow> nat \<Rightarrow> nat \<Rightarrow> origin \<Rightarrow> pystr \<Rightarrow> json_error + span list" where
  \<comment> \<open>fuel, environment, frames left, path, origin, depth, position, rest\<close>
  "json_value 0 je frames path org depth p rest = Inl NoFuel"
| "json_value (Suc n) je frames path org depth p rest =
     (if frames = 0 then Inl TooDeep
      else case skip_ws p rest of
        (p, []) \<Rightarrow> Inl Malformed
      | (p, c # cs) \<Rightarrow>
          if c = 34 then
            rbind (string_token p (c # cs)) (\<lambda>((t, i, j), p, r).
              if depth < MAX_NESTED_DEPTH then
                rbind (json_nested n je frames path i j org t) (\<lambda>more. Inr (leaf_span je path org t i j # more, p, r))
              else Inr ([leaf_span je path org t i j], p, r))
          else if c = 123 then
            (case skip_ws (p + 1) cs of
               (p, d # ds) \<Rightarrow> if d = 125 then Inr ([], p + 1, ds) else json_members n je frames path org depth p (d # ds)
             | (p, []) \<Rightarrow> json_members n je frames path org depth p [])
          else if c = 91 then
            (case skip_ws (p + 1) cs of
               (p, d # ds) \<Rightarrow> if d = 93 then Inr ([], p + 1, ds) else json_items n je frames path org depth 0 p (d # ds)
             | (p, []) \<Rightarrow> json_items n je frames path org depth 0 p [])
          else rbind (skip_scalar p (c # cs)) (\<lambda>(p, r). Inr ([], p, r)))"
| "json_members 0 je frames path org depth p rest = Inl NoFuel"
| "json_members (Suc n) je frames path org depth p rest =
     (case skip_ws p rest of (p, rest) \<Rightarrow>
        rbind (string_token p rest) (\<lambda>((key, _, _), p, rest).
          case skip_ws p rest of (p, rest) \<Rightarrow>
            rbind (expect 58 p rest) (\<lambda>(p, rest).
              let child = child_path path key in
              rbind (json_value n je (frames - 1) child (origin_for child key org) depth p rest) (\<lambda>(spans, p, rest).
                case skip_ws p rest of (p, rest) \<Rightarrow>
                  if rest \<noteq> [] \<and> hd rest = 44
                  then rbind (json_members n je frames path org depth (p + 1) (tl rest)) (\<lambda>(more, p, rest). Inr (spans @ more, p, rest))
                  else rbind (expect 125 p rest) (\<lambda>(p, rest). Inr (spans, p, rest))))))"
| "json_items 0 je frames path org depth k p rest = Inl NoFuel"
| "json_items (Suc n) je frames path org depth k p rest =
     rbind (json_value n je (frames - 1) (item_path path k) org depth p rest) (\<lambda>(spans, p, rest).
       case skip_ws p rest of (p, rest) \<Rightarrow>
         if rest \<noteq> [] \<and> hd rest = 44
         then rbind (json_items n je frames path org depth (k + 1) (p + 1) (tl rest)) (\<lambda>(more, p, rest). Inr (spans @ more, p, rest))
         else rbind (expect 93 p rest) (\<lambda>(p, rest). Inr (spans, p, rest)))"
| "json_document 0 je frames org raw = Inl NoFuel"
| "json_document (Suc n) je frames org raw =
     (case skip_ws 0 raw of (p, rest) \<Rightarrow>
        rbind (json_value n je frames [] org 0 p rest) (\<lambda>(spans, p, rest).
          case skip_ws p rest of (p, rest) \<Rightarrow>
            if rest \<noteq> [] then Inl Malformed else Inr (apply_message_roles je raw spans)))"
| "json_nested 0 je frames parent i j org t = Inl NoFuel"
| "json_nested (Suc n) je frames parent i j org t =
     (if length t < MIN_NESTED_LEN \<or> take 1 (lstrip t) \<notin> {[123], [91]} then Inr []
      else case utf8_encode t of
        None \<Rightarrow> Inr []
      | Some source \<Rightarrow>
          (case json_document n je (frames - 3) org source of
             Inl e \<Rightarrow> if e = NoFuel then Inl NoFuel else Inr []
           | Inr spans \<Rightarrow> Inr (map (nested_span je parent i j source) spans)))"

  by pat_completeness auto
termination
  by (relation "measure (\<lambda>x. case x of Inl (Inl (n, _)) \<Rightarrow> n | Inl (Inr (n, _)) \<Rightarrow> n | Inr (Inl (n, _)) \<Rightarrow> n
    | Inr (Inr (Inl (n, _))) \<Rightarrow> n | Inr (Inr (Inr (n, _))) \<Rightarrow> n)") simp_all

definition fuel_for :: "pybytes \<Rightarrow> nat" where "fuel_for raw = 3 * length raw + 3"

definition extract_spans :: "json_env \<Rightarrow> nat \<Rightarrow> origin \<Rightarrow> pybytes \<Rightarrow> json_error + span list" where
  "extract_spans je frames org raw = json_document (fuel_for raw) je frames org raw"

section \<open>What is consumed\<close>

lemma skip_ws_split: "skip_ws p rest = (p', r) \<Longrightarrow> \<exists>ws. rest = ws @ r \<and> p' = p + length ws"
proof (induction p rest rule: skip_ws.induct)
  case (1 p c cs)
  show ?case
  proof (cases "c \<in> {32, 9, 10, 13}")
    case True
    with 1 obtain ws where "cs = ws @ r" "p' = Suc p + length ws" by auto
    then show ?thesis by (intro exI [of _ "c # ws"]) simp
  qed (use 1(2) in simp)
qed simp

lemma string_content_split: "string_content cs = Some (x, r) \<Longrightarrow> cs = x @ 34 # r"
  by (induction cs arbitrary: x rule: string_content.induct) (auto split: if_splits list.splits)

lemma string_token_split:
  assumes "string_token p rest = Inr ((t, i, j), p', r)"
  shows "\<exists>x. rest = 34 # x @ 34 # r \<and> i = p + 1 \<and> j = p + 1 + length x \<and> p' = p + 2 + length x \<and> json_text x = Some t"
  using assms string_content_split by (fastforce simp: string_token_def split: list.splits if_splits option.splits)

lemma expect_split: "expect ch p rest = Inr (p', r) \<Longrightarrow> rest = ch # r \<and> p' = p + 1"
  by (auto simp: expect_def split: list.splits if_splits)

lemma scalar_chars_le: "scalar_chars rest \<le> length rest"
  by (induction rest rule: scalar_chars.induct) auto

lemma skip_scalar_split: "skip_scalar p rest = Inr (p', r) \<Longrightarrow> \<exists>x. rest = x @ r \<and> p' = p + length x \<and> x \<noteq> []"
  using scalar_chars_le [of rest]
  by (intro exI [of _ "take (scalar_chars rest) rest"]) (auto simp: skip_scalar_def Let_def split: if_splits)

definition family :: "pybytes \<Rightarrow> nat \<Rightarrow> span list \<Rightarrow> bool" where
  \<comment> \<open>the spans of one string with content \<open>x\<close> at \<open>i\<close>: its own and those of the document in it\<close>
  "family x i f \<longleftrightarrow> (\<exists>s ns. f = s # ns \<and> sp_parent_path s = None \<and> sp_byte_start s = int i \<and> sp_byte_end s = int (i + length x)
     \<and> json_text x = Some (sp_text s)
     \<and> (\<forall>u \<in> set ns. sp_parent_path u = Some (sp_path s) \<and> sp_byte_start u = int i \<and> sp_byte_end u = int (i + length x)
          \<and> sp_parent_char_offset u + length (sp_text u) \<le> length (sp_text s)))"

inductive laid :: "nat \<Rightarrow> pybytes \<Rightarrow> span list list \<Rightarrow> bool" where
  \<comment> \<open>the families lie in the bytes that start at a position, each between its quotes\<close>
  laid_Nil: "laid p gap []"
| laid_Cons: "family x (p + length gap + 1) f \<Longrightarrow> laid (p + length gap + length x + 2) c fams
    \<Longrightarrow> laid p (gap @ 34 # x @ 34 # c) (f # fams)"

inductive_cases laid_ConsE: "laid p c (f # fams)"

lemma laid_gap: "laid (p + length gap) c fams \<Longrightarrow> laid p (gap @ c) fams"
proof (cases fams)
  case (Cons f fs)
  assume "laid (p + length gap) c fams"
  then obtain x g d where "c = g @ 34 # x @ 34 # d" "family x (p + length gap + length g + 1) f"
    "laid (p + length gap + length g + length x + 2) d fs" unfolding Cons by (auto elim: laid_ConsE)
  then show ?thesis using laid_Cons [of x p "gap @ g" f d fs] Cons by (simp add: add.assoc)
qed (simp add: laid_Nil)

lemma laid_append: "laid p c fams \<Longrightarrow> laid (p + length c) d fams' \<Longrightarrow> laid p (c @ d) (fams @ fams')"
proof (induction p c fams rule: laid.induct)
  case (laid_Nil p gap)
  then show ?case by (simp add: laid_gap)
next
  case (laid_Cons x p gap f c fams)
  then have "laid (p + length gap + length x + 2) (c @ d) (fams @ fams')" by (simp add: add_ac)
  from laid.laid_Cons [OF laid_Cons(1) this] show ?case by simp
qed

lemma role_origin_simps [simp]:
  "sp_path (role_origin roles s) = sp_path s" "sp_text (role_origin roles s) = sp_text s"
  "sp_byte_start (role_origin roles s) = sp_byte_start s" "sp_byte_end (role_origin roles s) = sp_byte_end s"
  "sp_parent_path (role_origin roles s) = sp_parent_path s"
  "sp_parent_char_offset (role_origin roles s) = sp_parent_char_offset s"
  by (auto simp: role_origin_def split: option.split)

lemma family_roles: "family x i f \<Longrightarrow> family x i (map (role_origin roles) f)"
  by (auto simp: family_def)

lemma laid_roles: "laid p c fams \<Longrightarrow> laid p c (map (map (role_origin roles)) fams)"
proof (induction p c fams rule: laid.induct)
  case (laid_Cons x p gap f c fams)
  from laid.laid_Cons [OF family_roles [OF laid_Cons(1)] laid_Cons(3)] show ?case by simp
qed (simp add: laid_Nil)

section \<open>Offsets in a document that is a string\<close>

abbreviation enc :: "pystr \<Rightarrow> pybytes" where "enc t \<equiv> concat (map utf8_cp t)"

lemma quote_in_cp: "34 \<in> set (utf8_cp c) \<longleftrightarrow> c = 34"
  by (auto simp: utf8_cp_def split: if_splits)

lemma enc_split: "enc t = a @ 34 # b \<Longrightarrow> \<exists>u v. t = u @ 34 # v \<and> a = enc u \<and> b = enc v"
proof (induction t arbitrary: a)
  case (Cons c t)
  show ?case
  proof (cases "c = 34")
    case True
    then have "utf8_cp c = [34]" by (simp add: utf8_cp_def)
    with Cons.prems have eq: "34 # enc t = a @ 34 # b" by simp
    show ?thesis
    proof (cases a)
      case Nil
      with eq True show ?thesis by (intro exI [of _ "[]"] exI [of _ t]) simp
    next
      case (Cons d a')
      with eq have "enc t = a' @ 34 # b" by simp
      from Cons.IH [OF this] obtain u v where "t = u @ 34 # v" "a' = enc u" "b = enc v" by blast
      with eq Cons True \<open>utf8_cp c = [34]\<close> show ?thesis by (intro exI [of _ "c # u"] exI [of _ v]) simp
    qed
  next
    case False
    then have no: "34 \<notin> set (utf8_cp c)" by (simp add: quote_in_cp)
    from Cons.prems have "utf8_cp c @ enc t = a @ 34 # b" by simp
    then consider us where "utf8_cp c @ us = a" "enc t = us @ 34 # b" | us where "utf8_cp c = a @ us" "us @ enc t = 34 # b"
      by (auto simp: append_eq_append_conv2)
    then show ?thesis
    proof cases
      case 1
      from Cons.IH [OF 1(2)] obtain u v where "t = u @ 34 # v" "us = enc u" "b = enc v" by blast
      with 1(1) show ?thesis by (intro exI [of _ "c # u"] exI [of _ v]) auto
    next
      case 2
      show ?thesis
      proof (cases us)
        case Nil
        with 2 have "enc t = [] @ 34 # b" "a = utf8_cp c" by simp_all
        from Cons.IH [OF this(1)] this(2) show ?thesis by (metis append_Cons append_Nil2 concat.simps(2) list.simps(9) concat_eq_Nil_conv map_is_Nil_conv append_is_Nil_conv list.distinct(1) utf8_cp_nonempty concat.simps(1) list.simps(8))
      next
        case (Cons d us')
        with 2 have "34 \<in> set (utf8_cp c)" by auto
        with no show ?thesis by simp
      qed
    qed
  qed
qed simp

lemma utf8_pass_enc: "\<forall>c \<in> set t. encodable c \<Longrightarrow> utf8_pass (enc t) = Some t"
proof (induction t)
  case (Cons c t)
  then show ?case by (subst utf8_pass.simps) (simp add: decode1_pass_def decode1_utf8_cp)
qed (simp add: utf8_pass.simps)

lemma decode_ignore_enc: "\<forall>c \<in> set t. encodable c \<Longrightarrow> decode_ignore (enc t) = t"
proof (induction t)
  case (Cons c t)
  then show ?case by (subst decode_ignore.simps) (simp add: decode1_utf8_cp)
qed (simp add: decode_ignore.simps)

lemma json_unescape_shorter: "json_unescape s = Some t \<Longrightarrow> length t \<le> length s"
proof (induction s arbitrary: t rule: json_unescape.induct)
  case (1 s)
  show ?case
  proof (cases "s = []")
    case True
    with 1(2) show ?thesis by (simp add: json_unescape.simps)
  next
    case False
    with 1(2) obtain c r u where u: "unesc1 s = Some (c, r)" "json_unescape r = Some u" "t = c # u"
      by (subst (asm) json_unescape.simps) (auto split: option.splits)
    from 1(1) [OF False u(1) refl u(2)] unesc1_shorter [OF u(1)] u(3) show ?thesis by simp
  qed
qed

lemma laid_offsets:
  assumes "laid p c fams" "p = length (enc u)" "c = enc v" "\<forall>d \<in> set (u @ v). encodable d" "s \<in> set (concat fams)"
  shows "0 \<le> sp_byte_start s
    \<and> length (decode_ignore (take (nat (sp_byte_start s)) (enc u @ c))) + length (sp_text s) \<le> length (u @ v)"
  using assms
proof (induction p c fams arbitrary: u v rule: laid.induct)
  case (laid_Cons x p gap f c fams)
  from enc_split [OF laid_Cons.prems(2) [symmetric]] obtain v1 w where w: "v = v1 @ 34 # w" "gap = enc v1" "x @ 34 # c = enc w" by blast
  from enc_split [OF w(3) [symmetric]] obtain v2 v3 where v: "w = v2 @ 34 # v3" "x = enc v2" "c = enc v3" by blast
  have q: "utf8_cp 34 = [34]" by (simp add: utf8_cp_def)
  let ?u = "u @ v1 @ [34] @ v2 @ [34]"
  have src: "enc u @ gap @ 34 # x @ 34 # c = enc ?u @ c" by (simp add: w(2) v(2) q)
  have all: "\<forall>d \<in> set (?u @ v3). encodable d" using laid_Cons.prems(3) w(1) v(1) by simp
  show ?case
  proof (cases "s \<in> set f")
    case True
    from laid_Cons.hyps(1) obtain s0 ns where f: "f = s0 # ns" "sp_byte_start s0 = int (p + length gap + 1)" "json_text x = Some (sp_text s0)"
      "\<forall>u \<in> set ns. sp_byte_start u = int (p + length gap + 1) \<and> sp_parent_char_offset u + length (sp_text u) \<le> length (sp_text s0)"
      unfolding family_def by blast
    with True have start: "sp_byte_start s = int (p + length gap + 1)" and len: "length (sp_text s) \<le> length (sp_text s0)" by auto
    have "utf8_pass x = Some v2" unfolding v(2) by (rule utf8_pass_enc) (use all in simp)
    with f(3) json_unescape_shorter have short: "length (sp_text s0) \<le> length v2" by (simp add: json_text_def)
    have "take (p + length gap + 1) (enc u @ gap @ 34 # x @ 34 # c) = enc (u @ v1 @ [34])"
      using laid_Cons.prems(1) by (simp add: w(2) q)
    moreover have "decode_ignore (enc (u @ v1 @ [34])) = u @ v1 @ [34]" by (rule decode_ignore_enc) (use all in auto)
    ultimately have "length (decode_ignore (take (nat (sp_byte_start s)) (enc u @ gap @ 34 # x @ 34 # c))) = length (u @ v1 @ [34])"
      by (simp add: start nat_add_distrib del: append.simps)
    with len short w(1) v(1) start show ?thesis by simp
  next
    case False
    have "p + length gap + length x + 2 = length (enc ?u)" using laid_Cons.prems(1) by (simp add: w(2) v(2) q)
    moreover have "s \<in> set (concat fams)" using False laid_Cons.prems(4) by simp
    ultimately have "0 \<le> sp_byte_start s
      \<and> length (decode_ignore (take (nat (sp_byte_start s)) (enc ?u @ c))) + length (sp_text s) \<le> length (?u @ v3)"
      by (rule laid_Cons.IH [OF _ v(3) all])
    moreover have "length (?u @ v3) = length (u @ v)" using w(1) v(1) by simp
    ultimately show ?thesis unfolding src by simp
  qed
qed simp

section \<open>Where the spans lie\<close>

definition laid_chunk :: "span list \<Rightarrow> nat \<Rightarrow> pybytes \<Rightarrow> nat \<Rightarrow> pybytes \<Rightarrow> bool" where
  "laid_chunk spans p rest p' r \<longleftrightarrow>
     (\<exists>c fams. rest = c @ r \<and> p' = p + length c \<and> c \<noteq> [] \<and> spans = concat fams \<and> laid p c fams)"

lemma laid_chunk_gap:
  assumes "rest = gap @ rest1" "laid_chunk spans (p + length gap) rest1 p' r"
  shows "laid_chunk spans p rest p' r"
proof -
  from assms(2) obtain c fams where c: "rest1 = c @ r" "p' = p + length gap + length c" "c \<noteq> []" "spans = concat fams"
    "laid (p + length gap) c fams" unfolding laid_chunk_def by blast
  with assms(1) laid_gap [OF c(5)] show ?thesis
    unfolding laid_chunk_def by (intro exI [of _ "gap @ c"] exI [of _ fams]) simp
qed

lemma laid_chunk_end:
  assumes "laid_chunk spans p rest p1 (gap @ r)"
  shows "laid_chunk spans p rest (p1 + length gap) r"
proof -
  from assms obtain c fams where c: "rest = c @ gap @ r" "p1 = p + length c" "c \<noteq> []" "spans = concat fams" "laid p c fams"
    unfolding laid_chunk_def by blast
  from laid_append [OF c(5) laid_Nil] c show ?thesis
    unfolding laid_chunk_def by (intro exI [of _ "c @ gap"] exI [of _ fams]) simp
qed

lemma laid_chunk_append:
  assumes "laid_chunk spans p rest p1 r1" "laid_chunk spans' p1 r1 p2 r2"
  shows "laid_chunk (spans @ spans') p rest p2 r2"
proof -
  from assms(1) obtain c fams where c: "rest = c @ r1" "p1 = p + length c" "c \<noteq> []" "spans = concat fams" "laid p c fams"
    unfolding laid_chunk_def by blast
  from assms(2) obtain d gams where d: "r1 = d @ r2" "p2 = p1 + length d" "spans' = concat gams" "laid p1 d gams"
    unfolding laid_chunk_def by blast
  from laid_append [OF c(5), of d gams] c d show ?thesis
    unfolding laid_chunk_def by (intro exI [of _ "c @ d"] exI [of _ "fams @ gams"]) simp
qed

lemma laid_chunk_none: "rest = c @ r \<Longrightarrow> p' = p + length c \<Longrightarrow> c \<noteq> [] \<Longrightarrow> laid_chunk [] p rest p' r"
  unfolding laid_chunk_def by (intro exI [of _ c] exI [of _ "[]"]) (simp add: laid_Nil)

definition inside :: "pystr \<Rightarrow> nat \<Rightarrow> nat \<Rightarrow> pystr \<Rightarrow> span list \<Rightarrow> bool" where
  "inside parent i j t spans \<longleftrightarrow> (\<forall>u \<in> set spans. sp_parent_path u = Some parent \<and> sp_byte_start u = int i \<and> sp_byte_end u = int j
     \<and> sp_parent_char_offset u + length (sp_text u) \<le> length t)"

lemma laid_chunk_string:
  assumes "json_text x = Some t" "inside path (p + 1) (p + 1 + length x) t ns"
  shows "laid_chunk (leaf_span je path org t (p + 1) (p + 1 + length x) # ns) p (34 # x @ 34 # r) (p + 2 + length x) r"
proof -
  let ?f = "leaf_span je path org t (p + 1) (p + 1 + length x) # ns"
  have "family x (p + length ([] :: pybytes) + 1) ?f"
    using assms unfolding family_def inside_def by (simp add: leaf_span_def)
  from laid_Cons [OF this laid_Nil, of "[]"] show ?thesis
    unfolding laid_chunk_def by (intro exI [of _ "34 # x @ [34]"] exI [of _ "[?f]"]) simp
qed

lemma nested_inside:
  assumes "laid 0 source fams" "utf8_encode t = Some source" "spans = concat fams"
  shows "inside parent i j t (map (nested_span je parent i j source) spans)"
proof -
  have e: "source = enc t" "\<forall>c \<in> set t. encodable c" using assms(2) by (auto simp: utf8_encode_def split: if_splits)
  show ?thesis
    using laid_offsets [OF assms(1), of "[]" t] e assms(3) by (auto simp: inside_def nested_span_def)
qed

definition layouts :: "nat \<Rightarrow> bool" where
  \<comment> \<open>what the five functions return with one amount of fuel\<close>
  "layouts n \<longleftrightarrow>
     (\<forall>je frames path org depth p rest spans p' r.
        json_value n je frames path org depth p rest = Inr (spans, p', r) \<longrightarrow> laid_chunk spans p rest p' r)
   \<and> (\<forall>je frames path org depth p rest spans p' r.
        json_members n je frames path org depth p rest = Inr (spans, p', r) \<longrightarrow> laid_chunk spans p rest p' r)
   \<and> (\<forall>je frames path org depth k p rest spans p' r.
        json_items n je frames path org depth k p rest = Inr (spans, p', r) \<longrightarrow> laid_chunk spans p rest p' r)
   \<and> (\<forall>je frames org raw spans. json_document n je frames org raw = Inr spans \<longrightarrow> (\<exists>fams. spans = concat fams \<and> laid 0 raw fams))
   \<and> (\<forall>je frames parent i j org t spans. json_nested n je frames parent i j org t = Inr spans \<longrightarrow> inside parent i j t spans)"

lemma layoutsD:
  assumes "layouts n"
  shows "json_value n je frames path org depth p rest = Inr (spans, p', r) \<Longrightarrow> laid_chunk spans p rest p' r"
    and "json_members n je frames path org depth p rest = Inr (spans, p', r) \<Longrightarrow> laid_chunk spans p rest p' r"
    and "json_items n je frames path org depth k p rest = Inr (spans, p', r) \<Longrightarrow> laid_chunk spans p rest p' r"
    and "json_document n je frames org raw = Inr spans \<Longrightarrow> \<exists>fams. spans = concat fams \<and> laid 0 raw fams"
    and "json_nested n je frames parent i j org t = Inr spans \<Longrightarrow> inside parent i j t spans"
  using assms unfolding layouts_def by simp_all

lemma value_layout:
  assumes "layouts n" "json_value (Suc n) je frames path org depth p rest = Inr (spans, p', r)"
  shows "laid_chunk spans p rest p' r"
proof -
  obtain p1 rest1 where ws: "skip_ws p rest = (p1, rest1)" by fastforce
  from skip_ws_split [OF ws] obtain gap where gap: "rest = gap @ rest1" "p1 = p + length gap" by blast
  from assms(2) ws obtain c cs where r1: "rest1 = c # cs" by (cases rest1) (auto split: if_splits)
  note run = assms(2) [unfolded json_value.simps ws r1]
  obtain p2 rest2 where inner: "skip_ws (p1 + 1) cs = (p2, rest2)" by fastforce
  from skip_ws_split [OF inner] obtain gap2 where gap2: "cs = gap2 @ rest2" "p2 = p1 + 1 + length gap2" by blast
  have opened: "laid_chunk spans p1 rest1 p' r" if "laid_chunk spans p2 rest2 p' r"
    by (rule laid_chunk_gap [where gap = "c # gap2"]) (use that gap2 r1 in simp_all)
  have closed: "laid_chunk spans p1 rest1 p' r" if "spans = []" "rest2 = d # r" "p' = p2 + 1" for d
    using that laid_chunk_none [of rest1 "c # gap2 @ [d]" r p' p1] gap2 r1 by simp
  have "laid_chunk spans p1 rest1 p' r"
  proof -
    consider (string) "c = 34" | (object) "c = 123" | (arr) "c = 91" | (scalar) "c \<notin> {34, 123, 91}" by blast
    then show ?thesis
    proof cases
      case string
      with run obtain t i j p3 r3 where tok: "string_token p1 (c # cs) = Inr ((t, i, j), p3, r3)"
        by (auto simp: rbind_Inr_iff split: if_splits)
      from string_token_split [OF tok] obtain x where x: "c # cs = 34 # x @ 34 # r3" "i = p1 + 1" "j = p1 + 1 + length x"
        "p3 = p1 + 2 + length x" "json_text x = Some t" by blast
      obtain ns where ns: "inside path i j t ns" "spans = leaf_span je path org t i j # ns" "p' = p3" "r = r3"
      proof (cases "depth < MAX_NESTED_DEPTH")
        case True
        with run string tok obtain ns where "json_nested n je frames path i j org t = Inr ns"
          "spans = leaf_span je path org t i j # ns" "p' = p3" "r = r3" by (auto simp: rbind_Inr_iff split: if_splits)
        with layoutsD(5) [OF assms(1)] show thesis by (intro that)
      next
        case False
        with run string tok show thesis by (intro that [of "[]"]) (auto simp: inside_def split: if_splits)
      qed
      from laid_chunk_string [OF x(5), of path p1 ns je org r3] ns x r1 show ?thesis by simp
    next
      case object
      show ?thesis
      proof (cases "\<exists>ds. rest2 = 125 # ds")
        case True
        with run object inner closed show ?thesis by (auto split: if_splits)
      next
        case False
        with run object inner have "json_members n je frames path org depth p2 rest2 = Inr (spans, p', r)"
          by (cases rest2) (auto split: if_splits)
        with opened layoutsD(2) [OF assms(1)] show ?thesis by simp
      qed
    next
      case arr
      show ?thesis
      proof (cases "\<exists>ds. rest2 = 93 # ds")
        case True
        with run arr inner closed show ?thesis by (auto split: if_splits)
      next
        case False
        with run arr inner have "json_items n je frames path org depth 0 p2 rest2 = Inr (spans, p', r)"
          by (cases rest2) (auto split: if_splits)
        with opened layoutsD(3) [OF assms(1)] show ?thesis by simp
      qed
    next
      case scalar
      with run obtain p3 r3 where "skip_scalar p1 (c # cs) = Inr (p3, r3)" "spans = []" "p' = p3" "r = r3"
        by (auto simp: rbind_Inr_iff split: if_splits)
      with skip_scalar_split laid_chunk_none r1 show ?thesis by blast
    qed
  qed
  with laid_chunk_gap [OF gap(1)] gap(2) show ?thesis by simp
qed

lemma tail_layout:
  \<comment> \<open>after one value: a comma and more of them, or the closing bracket\<close>
  assumes "laid_chunk spans1 p rest p1 rest1" "skip_ws p1 rest1 = (p2, rest2)"
    and "rest2 \<noteq> [] \<and> hd rest2 = 44 \<Longrightarrow> \<exists>spans2. spans = spans1 @ spans2 \<and> laid_chunk spans2 (p2 + 1) (tl rest2) p' r"
    and "\<not> (rest2 \<noteq> [] \<and> hd rest2 = 44) \<Longrightarrow> spans = spans1 \<and> expect ch p2 rest2 = Inr (p', r)"
  shows "laid_chunk spans p rest p' r"
proof -
  from skip_ws_split [OF assms(2)] obtain gap where gap: "rest1 = gap @ rest2" "p2 = p1 + length gap" by blast
  show ?thesis
  proof (cases "rest2 \<noteq> [] \<and> hd rest2 = 44")
    case True
    from assms(3) [OF True] obtain spans2 where s: "spans = spans1 @ spans2" "laid_chunk spans2 (p2 + 1) (tl rest2) p' r" by blast
    from True have "rest1 = (gap @ [44]) @ tl rest2" using gap(1) by (cases rest2) auto
    from laid_chunk_gap [OF this, of spans2 p1 p' r] s gap(2) have "laid_chunk spans2 p1 rest1 p' r" by simp
    from laid_chunk_append [OF assms(1) this] s(1) show ?thesis by simp
  next
    case False
    from assms(4) [OF False] have s: "spans = spans1" "rest2 = ch # r" "p' = p2 + 1" using expect_split by blast+
    with laid_chunk_end [of spans1 p rest p1 "gap @ [ch]" r] assms(1) gap show ?thesis by simp
  qed
qed

lemma members_layout:
  assumes "layouts n" "json_members (Suc n) je frames path org depth p rest = Inr (spans, p', r)"
  shows "laid_chunk spans p rest p' r"
proof -
  obtain p1 rest1 where ws1: "skip_ws p rest = (p1, rest1)" by fastforce
  from assms(2) ws1 obtain key i j p2 rest2 where key: "string_token p1 rest1 = Inr ((key, i, j), p2, rest2)"
    by (cases "string_token p1 rest1") auto
  obtain p3 rest3 where ws2: "skip_ws p2 rest2 = (p3, rest3)" by fastforce
  from assms(2) ws1 key ws2 obtain p4 rest4 where colon: "expect 58 p3 rest3 = Inr (p4, rest4)"
    by (cases "expect 58 p3 rest3") auto
  let ?child = "child_path path key"
  from assms(2) ws1 key ws2 colon obtain spans1 p5 rest5 where
    v: "json_value n je (frames - 1) ?child (origin_for ?child key org) depth p4 rest4 = Inr (spans1, p5, rest5)"
    by (cases "json_value n je (frames - 1) ?child (origin_for ?child key org) depth p4 rest4") (auto simp: Let_def)
  obtain p6 rest6 where ws3: "skip_ws p5 rest5 = (p6, rest6)" by fastforce
  from layoutsD(1) [OF assms(1) v] have "laid_chunk spans1 p4 rest4 p5 rest5" .
  then have "laid_chunk spans p4 rest4 p' r"
  proof (rule tail_layout [OF _ ws3, where ch = 125])
    assume comma: "rest6 \<noteq> [] \<and> hd rest6 = 44"
    with assms(2) ws1 key ws2 colon v ws3 obtain spans2 where
      "json_members n je frames path org depth (p6 + 1) (tl rest6) = Inr (spans2, p', r)" "spans = spans1 @ spans2"
      by (auto simp: rbind_Inr_iff Let_def)
    with layoutsD(2) [OF assms(1)] show "\<exists>spans2. spans = spans1 @ spans2 \<and> laid_chunk spans2 (p6 + 1) (tl rest6) p' r"
      by simp
  next
    assume "\<not> (rest6 \<noteq> [] \<and> hd rest6 = 44)"
    with assms(2) ws1 key ws2 colon v ws3 show "spans = spans1 \<and> expect 125 p6 rest6 = Inr (p', r)"
      by (auto simp: rbind_Inr_iff Let_def split: if_splits)
  qed
  moreover from skip_ws_split [OF ws1] obtain g1 where g1: "rest = g1 @ rest1" "p1 = p + length g1" by blast
  moreover from string_token_split [OF key] obtain x where x: "rest1 = 34 # x @ 34 # rest2" "p2 = p1 + 2 + length x" by blast
  moreover from skip_ws_split [OF ws2] obtain g2 where g2: "rest2 = g2 @ rest3" "p3 = p2 + length g2" by blast
  moreover from expect_split [OF colon] have "rest3 = 58 # rest4" "p4 = p3 + 1" by simp_all
  ultimately have "rest = (g1 @ 34 # x @ 34 # g2 @ [58]) @ rest4" "laid_chunk spans (p + length (g1 @ 34 # x @ 34 # g2 @ [58])) rest4 p' r"
    by (simp_all add: add.assoc)
  then show ?thesis by (rule laid_chunk_gap)
qed

lemma items_layout:
  assumes "layouts n" "json_items (Suc n) je frames path org depth k p rest = Inr (spans, p', r)"
  shows "laid_chunk spans p rest p' r"
proof -
  from assms(2) obtain spans1 p5 rest5 where
    v: "json_value n je (frames - 1) (item_path path k) org depth p rest = Inr (spans1, p5, rest5)"
    by (auto simp: rbind_Inr_iff)
  obtain p6 rest6 where ws3: "skip_ws p5 rest5 = (p6, rest6)" by fastforce
  from layoutsD(1) [OF assms(1) v] have "laid_chunk spans1 p rest p5 rest5" .
  then show ?thesis
  proof (rule tail_layout [OF _ ws3, where ch = 93])
    assume comma: "rest6 \<noteq> [] \<and> hd rest6 = 44"
    with assms(2) v ws3 obtain spans2 where
      "json_items n je frames path org depth (k + 1) (p6 + 1) (tl rest6) = Inr (spans2, p', r)" "spans = spans1 @ spans2"
      by (auto simp: rbind_Inr_iff)
    with layoutsD(3) [OF assms(1)] show "\<exists>spans2. spans = spans1 @ spans2 \<and> laid_chunk spans2 (p6 + 1) (tl rest6) p' r"
      by simp
  next
    assume "\<not> (rest6 \<noteq> [] \<and> hd rest6 = 44)"
    with assms(2) v ws3 show "spans = spans1 \<and> expect 93 p6 rest6 = Inr (p', r)"
      by (auto simp: rbind_Inr_iff split: if_splits)
  qed
qed

lemma document_layout:
  assumes "layouts n" "json_document (Suc n) je frames org raw = Inr spans"
  shows "\<exists>fams. spans = concat fams \<and> laid 0 raw fams"
proof -
  obtain p rest where ws: "skip_ws 0 raw = (p, rest)" by fastforce
  from assms(2) ws obtain found p1 rest1 where v: "json_value n je frames [] org 0 p rest = Inr (found, p1, rest1)"
    by (cases "json_value n je frames [] org 0 p rest") auto
  obtain p2 rest2 where ws2: "skip_ws p1 rest1 = (p2, rest2)" by fastforce
  with assms(2) ws v have "rest2 = []" and spans: "spans = apply_message_roles je raw found" by (auto split: if_splits)
  with skip_ws_split [OF ws] skip_ws_split [OF ws2] obtain g1 g2 where g: "raw = g1 @ rest" "p = length g1" "rest1 = g2" by auto
  from layoutsD(1) [OF assms(1) v] have "laid_chunk found p rest p1 rest1" .
  with laid_chunk_gap [OF g(1), of found 0] g(2) have "laid_chunk found 0 raw p1 (g2 @ [])" using g(3) by simp
  from laid_chunk_end [OF this] obtain fams where f: "found = concat fams" "laid 0 raw fams" unfolding laid_chunk_def by auto
  have "spans = concat (map (map (role_origin (message_roles je raw))) fams)"
    by (simp add: spans f(1) apply_message_roles_def map_concat)
  with laid_roles [OF f(2)] show ?thesis by blast
qed

lemma nested_layout:
  assumes "layouts n" "json_nested (Suc n) je frames parent i j org t = Inr spans"
  shows "inside parent i j t spans"
proof (cases "spans = []")
  case False
  with assms(2) obtain source inner where s: "utf8_encode t = Some source" "json_document n je (frames - 3) org source = Inr inner"
    "spans = map (nested_span je parent i j source) inner" by (auto split: if_splits option.splits sum.splits)
  from layoutsD(4) [OF assms(1) s(2)] obtain fams where "inner = concat fams" "laid 0 source fams" by blast
  with nested_inside s(1,3) show ?thesis by blast
qed (simp add: inside_def)

lemma parsed_layouts: "layouts n"
proof (induction n)
  case 0
  then show ?case by (simp add: layouts_def)
next
  case (Suc n)
  show ?case
    unfolding layouts_def [of "Suc n"]
    using value_layout [OF Suc] members_layout [OF Suc] items_layout [OF Suc] document_layout [OF Suc] nested_layout [OF Suc]
    by blast
qed

section \<open>Parsed trees\<close>

lemma laid_ranges:
  assumes "laid p c fams"
  shows "(\<forall>f \<in> set fams. \<exists>x i. family x i f \<and> p < i \<and> i + length x < p + length c \<and> x = slice (i - p) (i - p + length x) c)
    \<and> sorted_wrt (\<lambda>f g. sp_byte_end (hd f) < sp_byte_start (hd g)) fams"
  using assms
proof (induction p c fams rule: laid.induct)
  case (laid_Cons x p gap f c fams)
  let ?q = "p + length gap + length x + 2" and ?c = "gap @ 34 # x @ 34 # c"
  have head: "family x (p + length gap + 1) f \<and> p < p + length gap + 1 \<and> p + length gap + 1 + length x < p + length ?c
    \<and> x = slice (p + length gap + 1 - p) (p + length gap + 1 - p + length x) ?c"
    using laid_Cons.hyps(1) by (simp add: slice_def)
  have tail: "\<exists>y i. family y i g \<and> ?q < i \<and> i + length y < p + length ?c \<and> y = slice (i - p) (i - p + length y) ?c" if "g \<in> set fams" for g
  proof -
    from laid_Cons.IH that obtain y i where y: "family y i g" "?q < i" "i + length y < ?q + length c"
      "y = slice (i - ?q) (i - ?q + length y) c" by blast
    from y(2) obtain k where k: "i = ?q + k" using less_imp_add_positive by blast
    let ?front = "gap @ 34 # x @ [34]"
    have "slice (i - p) (i - p + length y) (?front @ c) = slice (i - p - length ?front) (i - p + length y - length ?front) c"
      by (rule slice_append_right) (simp add: k)
    then have "slice (i - p) (i - p + length y) ?c = slice (i - ?q) (i - ?q + length y) c"
      by (simp add: k)
    with y show ?thesis by (intro exI [of _ y] exI [of _ i]) simp
  qed
  have "sp_byte_end (hd f) < sp_byte_start (hd g)" if "g \<in> set fams" for g
  proof -
    from tail [OF that] obtain y i where "family y i g" "?q < i" by blast
    with laid_Cons.hyps(1) show ?thesis by (auto simp: family_def)
  qed
  with head tail laid_Cons.IH show ?case by fastforce
qed simp

lemma family_members:
  assumes "family x i f"
  shows "hd f \<in> set f \<and> \<not> is_nested (hd f) \<and> json_text x = Some (sp_text (hd f)) \<and> sp_byte_start (hd f) = int i
    \<and> sp_byte_end (hd f) = int (i + length x)"
    and "s \<in> set f \<Longrightarrow> \<not> is_nested s \<Longrightarrow> s = hd f"
    and "s \<in> set f \<Longrightarrow> sp_parent_path s = Some pp \<Longrightarrow> pp = sp_path (hd f) \<and> sp_parent_char_offset s + length (sp_text s) \<le> length (sp_text (hd f))"
  using assms by (auto simp: family_def is_nested_def)

lemma by_path_distinct:
  assumes "distinct (map sp_path spans)"
  shows "by_path (span_tree raw spans) p = Some s \<longleftrightarrow> s \<in> set spans \<and> sp_path s = p"
proof
  assume "by_path (span_tree raw spans) p = Some s"
  then show "s \<in> set spans \<and> sp_path s = p" unfolding by_path_def span_tree_def by (auto dest: find_Some_hd)
next
  assume s: "s \<in> set spans \<and> sp_path s = p"
  then obtain u where u: "find (\<lambda>s. sp_path s = p) (rev spans) = Some u"
    by (cases "find (\<lambda>s. sp_path s = p) (rev spans)") (auto simp: find_None_iff)
  from find_Some_hd [OF u] s have "u = s" using assms by (auto simp: distinct_map inj_on_def)
  with u show "by_path (span_tree raw spans) p = Some s" by (simp add: by_path_def span_tree_def)
qed

lemma document_families:
  assumes "json_document n je frames org raw = Inr spans"
  shows "\<exists>fams. spans = concat fams \<and> laid 0 raw fams"
  by (rule layoutsD(4) [OF parsed_layouts assms])

text \<open>C26. The parser's trees are well-formed: when a body parses and no two of its spans share a path, the span tree
  built from it satisfies everything \<open>replace\<close> and \<open>serialise\<close> rely on, and each top-level span's byte range is
  exactly a string literal of the body whose value is the span's text.\<close>

theorem parsed_tree_is_well_formed:
  assumes "extract_spans je frames org raw = Inr spans" "distinct (map sp_path spans)"
  shows "tree_wf (span_tree raw spans)
    \<and> (\<forall>s \<in> set spans. is_nested s \<or> json_text (slice (nat (sp_byte_start s)) (nat (sp_byte_end s)) raw) = Some (sp_text s))"
proof -
  from document_families [OF assms(1) [unfolded extract_spans_def]] obtain fams where
    fams: "spans = concat fams" "laid 0 raw fams" by blast
  note ranges = laid_ranges [OF fams(2)]
  have member: "\<exists>f \<in> set fams. \<exists>x i. s \<in> set f \<and> family x i f \<and> 0 < i \<and> i + length x < length raw \<and> x = slice i (i + length x) raw"
    if "s \<in> set spans" for s
  proof -
    from that fams(1) obtain f where "f \<in> set fams" "s \<in> set f" by auto
    with ranges show ?thesis by fastforce
  qed
  note bp = by_path_distinct [OF assms(2), of raw]
  have "spans_wf (span_tree raw spans)" unfolding spans_wf_def bp
  proof (intro conjI allI impI)
    fix p s assume "(s \<in> set spans \<and> sp_path s = p) \<and> \<not> is_nested s"
    with member [of s] family_members show "byte_range_ok (tr_raw (span_tree raw spans)) s"
      by (fastforce simp: byte_range_ok_def span_tree_def)
  next
    fix p q s u assume *: "(s \<in> set spans \<and> sp_path s = p) \<and> (u \<in> set spans \<and> sp_path u = q) \<and> \<not> is_nested s \<and> \<not> is_nested u \<and> p \<noteq> q"
    with member [of s] member [of u] obtain f g where f: "f \<in> set fams" "s = hd f" and g: "g \<in> set fams" "u = hd g"
      using family_members(2) by metis
    with * have "f \<noteq> g" by blast
    with f(1) g(1) ranges have "sp_byte_end (hd f) < sp_byte_start (hd g) \<or> sp_byte_end (hd g) < sp_byte_start (hd f)"
      unfolding sorted_wrt_iff_nth_less in_set_conv_nth by (metis linorder_neqE_nat)
    with f(2) g(2) show "separated s u" by (simp add: separated_def)
  next
    fix p s pp assume *: "(s \<in> set spans \<and> sp_path s = p) \<and> sp_parent_path s = Some pp"
    with member [of s] obtain f x i where f: "f \<in> set fams" "s \<in> set f" "family x i f" by blast
    with fams(1) family_members(1) [OF f(3)] have "hd f \<in> set spans" by auto
    with family_members(1) [OF f(3)] family_members(3) [OF f(3,2)] *
    show "\<exists>parent. (parent \<in> set spans \<and> sp_path parent = pp) \<and> \<not> is_nested parent
        \<and> sp_parent_char_offset s + length (sp_text s) \<le> length (sp_text parent)" by blast
  qed
  then have "tree_wf (span_tree raw spans)" by (simp add: tree_wf_def span_tree_def)
  moreover have "json_text (slice (nat (sp_byte_start s)) (nat (sp_byte_end s)) raw) = Some (sp_text s)"
    if "s \<in> set spans" "\<not> is_nested s" for s
  proof -
    from member [OF that(1)] obtain f x i where f: "s \<in> set f" "family x i f" "x = slice i (i + length x) raw" by blast
    with family_members(2) [OF f(2,1) that(2)] family_members(1) [OF f(2)]
    show ?thesis by (simp add: nat_int_add)
  qed
  ultimately show ?thesis by blast
qed

definition plain_env :: json_env where
  "plain_env = \<lparr>je_loads = \<lambda>_. None, je_lower = id, je_leg = Outbound\<rparr>"

theorem parsed_tree_is_well_formed_witness:
  "case extract_spans plain_env 100 OUser [123, 34, 107, 34, 58, 34, 97, 98, 34, 44, 34, 106, 34, 58, 91, 34, 123, 92, 34, 120, 92, 34, 58, 92, 34, 121, 92, 34, 125, 34, 93, 125] of
     Inr spans \<Rightarrow> length spans = 3 \<and> tree_wf (span_tree [123, 34, 107, 34, 58, 34, 97, 98, 34, 44, 34, 106, 34, 58, 91, 34, 123, 92, 34, 120, 92, 34, 58, 92, 34, 121, 92, 34, 125, 34, 93, 125] spans)
   | Inl e \<Rightarrow> False"
proof -
  let ?raw = "[123, 34, 107, 34, 58, 34, 97, 98, 34, 44, 34, 106, 34, 58, 91, 34, 123, 92, 34, 120, 92, 34, 58, 92, 34, 121, 92, 34, 125, 34, 93, 125] :: pybytes"
  have *: "case extract_spans plain_env 100 OUser ?raw of Inr spans \<Rightarrow> length spans = 3 \<and> distinct (map sp_path spans) | Inl e \<Rightarrow> False"
    by code_simp
  show ?thesis
  proof (cases "extract_spans plain_env 100 OUser ?raw")
    case (Inr spans)
    with * parsed_tree_is_well_formed [OF Inr] show ?thesis by simp
  qed (use * in simp)
qed

section \<open>Enough fuel\<close>

lemma utf8_cp_length: "length (utf8_cp c) \<le> 4" "c < 128 \<Longrightarrow> length (utf8_cp c) = 1"
  "c < 2048 \<Longrightarrow> length (utf8_cp c) \<le> 2" "c < 65536 \<Longrightarrow> length (utf8_cp c) \<le> 3" "1 \<le> length (utf8_cp c)"
  by (auto simp: utf8_cp_def)

lemma decode1_length: "decode1 bs = Some (c, r) \<Longrightarrow> length (utf8_cp c) + length r \<le> length bs"
  using utf8_cp_length(1) [of c] utf8_cp_length(2-4) [of c]
  by (cases bs) (auto simp: is_cont_def cont_val_def Let_def split: if_splits list.splits)

lemma decode1_pass_length: "decode1_pass bs = Some (c, r) \<Longrightarrow> length (utf8_cp c) + length r \<le> length bs"
  using decode1_length [of bs c r] utf8_cp_length(4) [of c]
  by (auto simp: decode1_pass_def is_cont_def cont_val_def is_surrogate_def split: option.splits list.splits if_splits)

lemma utf8_pass_length: "utf8_pass bs = Some t \<Longrightarrow> length (enc t) \<le> length bs"
proof (induction bs arbitrary: t rule: utf8_pass.induct)
  case (1 bs)
  show ?case
  proof (cases "bs = []")
    case True
    with 1(2) show ?thesis by (simp add: utf8_pass.simps)
  next
    case False
    with 1(2) obtain c r u where u: "decode1_pass bs = Some (c, r)" "utf8_pass r = Some u" "t = c # u"
      by (subst (asm) utf8_pass.simps) (auto split: option.splits)
    from 1(1) [OF False u(1) refl u(2)] decode1_pass_length [OF u(1)] u(3) show ?thesis by simp
  qed
qed

lemma hex4_enc: "hex4 s = Some (n, r) \<Longrightarrow> length (enc r) + 4 \<le> length (enc s)"
proof (induction s rule: hex4.induct)
  case (1 a b c d r')
  then have "r = r'" by (auto split: option.splits)
  moreover have "1 \<le> length (utf8_cp e)" for e by (rule utf8_cp_length)
  from this [of a] this [of b] this [of c] this [of d] have "4 \<le> length (enc [a, b, c, d])" by simp
  ultimately show ?case by simp
qed simp_all

lemma low_surrogate_enc:
  assumes "low_surrogate s = Some (n, r)"
  shows "length (enc r) \<le> length (enc s)"
proof -
  from assms have "hex4 (drop 2 s) = Some (n, r)" by (auto simp: low_surrogate_def split: if_splits option.splits)
  from hex4_enc [OF this] have "length (enc r) \<le> length (enc (drop 2 s))" by simp
  also have "\<dots> \<le> length (enc (take 2 s @ drop 2 s))" unfolding map_append concat_append by simp
  finally show ?thesis by simp
qed

lemma unesc1_enc:
  assumes "unesc1 s = Some (c, r)"
  shows "length (utf8_cp c) + length (enc r) \<le> length (enc s)"
proof (cases s)
  case Nil
  with assms show ?thesis by (simp add: unesc1_def)
next
  case (Cons d t)
  show ?thesis
  proof (cases "d = 92")
    case False
    with assms Cons show ?thesis by (auto simp: unesc1_def split: if_splits)
  next
    case True
    have b: "length (utf8_cp 92) = 1" "length (utf8_cp 117) = 1" by (simp_all add: utf8_cp_def)
    from assms Cons True obtain e u where t: "t = e # u" by (auto simp: unesc1_def split: list.splits)
    show ?thesis
    proof (cases "e = 117")
      case False
      with assms Cons True t have m: "simple_escape e = Some c" "r = u" by (auto simp: unesc1_def)
      then have "c < 128" by (auto simp: simple_escape_def split: if_splits)
      with m utf8_cp_length(2) [of c] utf8_cp_length(5) [of e] b show ?thesis by (simp add: Cons t True)
    next
      case u: True
      with assms Cons True t obtain n q where h: "hex4 u = Some (n, q)" by (auto simp: unesc1_def split: option.splits)
      with assms Cons True t u have "r = q \<or> (\<exists>m. low_surrogate q = Some (m, r))"
        by (auto simp: unesc1_def split: if_splits option.splits)
      with low_surrogate_enc have "length (enc r) \<le> length (enc q)" by auto
      with hex4_enc [OF h] utf8_cp_length(1) [of c] b show ?thesis by (simp add: Cons t True u)
    qed
  qed
qed

lemma json_unescape_enc: "json_unescape s = Some t \<Longrightarrow> length (enc t) \<le> length (enc s)"
proof (induction s arbitrary: t rule: json_unescape.induct)
  case (1 s)
  show ?case
  proof (cases "s = []")
    case True
    with 1(2) show ?thesis by (simp add: json_unescape.simps)
  next
    case False
    with 1(2) obtain c r u where u: "unesc1 s = Some (c, r)" "json_unescape r = Some u" "t = c # u"
      by (subst (asm) json_unescape.simps) (auto split: option.splits)
    from 1(1) [OF False u(1) refl u(2)] unesc1_enc [OF u(1)] u(3) show ?thesis by simp
  qed
qed

lemma json_text_length: "json_text x = Some t \<Longrightarrow> utf8_encode t = Some source \<Longrightarrow> length source \<le> length x"
  using json_unescape_enc utf8_pass_length
  by (fastforce simp: json_text_def utf8_encode_def bind_eq_Some_conv split: if_splits)

definition fueled :: "nat \<Rightarrow> bool" where
  "fueled n \<longleftrightarrow>
     (\<forall>je frames path org depth p rest. 3 * length rest + 1 \<le> n \<longrightarrow> json_value n je frames path org depth p rest \<noteq> Inl NoFuel)
   \<and> (\<forall>je frames path org depth p rest. 3 * length rest + 1 \<le> n \<longrightarrow> json_members n je frames path org depth p rest \<noteq> Inl NoFuel)
   \<and> (\<forall>je frames path org depth k p rest. 3 * length rest + 2 \<le> n \<longrightarrow> json_items n je frames path org depth k p rest \<noteq> Inl NoFuel)
   \<and> (\<forall>je frames org raw. 3 * length raw + 2 \<le> n \<longrightarrow> json_document n je frames org raw \<noteq> Inl NoFuel)
   \<and> (\<forall>je frames parent i j org t source. utf8_encode t = Some source \<longrightarrow> 3 * length source + 3 \<le> n
        \<longrightarrow> json_nested n je frames parent i j org t \<noteq> Inl NoFuel)"

lemma fueledD:
  assumes "fueled n"
  shows "3 * length rest + 1 \<le> n \<Longrightarrow> json_value n je frames path org depth p rest \<noteq> Inl NoFuel"
    and "3 * length rest + 1 \<le> n \<Longrightarrow> json_members n je frames path org depth p rest \<noteq> Inl NoFuel"
    and "3 * length rest + 2 \<le> n \<Longrightarrow> json_items n je frames path org depth k p rest \<noteq> Inl NoFuel"
    and "3 * length raw + 2 \<le> n \<Longrightarrow> json_document n je frames org raw \<noteq> Inl NoFuel"
    and "utf8_encode t = Some source \<Longrightarrow> 3 * length source + 3 \<le> n \<Longrightarrow> json_nested n je frames parent i j org t \<noteq> Inl NoFuel"
  using assms unfolding fueled_def by simp_all

lemma token_errors: "string_token p rest \<noteq> Inl NoFuel" "expect ch p rest \<noteq> Inl NoFuel" "skip_scalar p rest \<noteq> Inl NoFuel"
  by (auto simp: string_token_def expect_def skip_scalar_def Let_def split: list.splits option.splits)

lemma skip_ws_shorter: "skip_ws p rest = (p', r) \<Longrightarrow> length r \<le> length rest"
  using skip_ws_split by fastforce

lemma value_shorter: "json_value n je frames path org depth p rest = Inr (spans, p', r) \<Longrightarrow> length r < length rest"
  using layoutsD(1) [OF parsed_layouts] by (fastforce simp: laid_chunk_def)

lemma nested_no_encoding: "utf8_encode t = None \<Longrightarrow> json_nested (Suc n) je frames parent i j org t \<noteq> Inl NoFuel"
  by simp

lemma value_fueled:
  assumes "fueled n" "3 * length rest + 1 \<le> Suc n"
  shows "json_value (Suc n) je frames path org depth p rest \<noteq> Inl NoFuel"
proof
  assume run: "json_value (Suc n) je frames path org depth p rest = Inl NoFuel"
  obtain p1 rest1 where ws: "skip_ws p rest = (p1, rest1)" by fastforce
  from run ws obtain c cs where r1: "rest1 = c # cs" by (cases rest1) (auto split: if_splits)
  note run = run [unfolded json_value.simps ws r1]
  obtain p2 rest2 where inner: "skip_ws (p1 + 1) cs = (p2, rest2)" by fastforce
  have short: "length rest2 + 1 \<le> length rest" "3 * length rest \<le> n"
    using skip_ws_shorter [OF ws] skip_ws_shorter [OF inner] r1 assms(2) by auto
  consider (string) "c = 34" | (object) "c = 123" | (arr) "c = 91" | (scalar) "c \<notin> {34, 123, 91}" by blast
  then show False
  proof cases
    case string
    with run token_errors obtain t i j p3 r3 where tok: "string_token p1 (c # cs) = Inr ((t, i, j), p3, r3)"
      and nest: "json_nested n je frames path i j org t = Inl NoFuel"
      by (auto simp: rbind_Inl_iff split: if_splits)
    from string_token_split [OF tok] obtain x where x: "c # cs = 34 # x @ 34 # r3" "json_text x = Some t" by blast
    from x(1) have "length (c # cs) = length x + 2 + length r3" by simp
    then have len: "length x + 2 \<le> length rest" using skip_ws_shorter [OF ws] r1 by simp
    show False
    proof (cases "utf8_encode t")
      case None
      with nest short len show False by (cases n) (auto split: if_splits)
    next
      case (Some source)
      from json_text_length [OF x(2) Some] len short(2) have "3 * length source + 3 \<le> n" by linarith
      with fueledD(5) [OF assms(1) Some] nest show False by blast
    qed
  next
    case object
    with run inner have "json_members n je frames path org depth p2 rest2 = Inl NoFuel"
      by (cases rest2) (auto split: if_splits)
    moreover have "3 * length rest2 + 1 \<le> n" using short by linarith
    ultimately show False using fueledD(2) [OF assms(1)] by blast
  next
    case arr
    with run inner have "json_items n je frames path org depth 0 p2 rest2 = Inl NoFuel"
      by (cases rest2) (auto split: if_splits)
    moreover have "3 * length rest2 + 2 \<le> n" using short by linarith
    ultimately show False using fueledD(3) [OF assms(1)] by blast
  next
    case scalar
    with run token_errors show False by (auto simp: rbind_Inl_iff split: if_splits)
  qed
qed

lemma members_fueled:
  assumes "fueled n" "3 * length rest + 1 \<le> Suc n"
  shows "json_members (Suc n) je frames path org depth p rest \<noteq> Inl NoFuel"
proof
  assume run: "json_members (Suc n) je frames path org depth p rest = Inl NoFuel"
  obtain p1 rest1 where ws1: "skip_ws p rest = (p1, rest1)" by fastforce
  from run ws1 obtain key i j p2 rest2 where key: "string_token p1 rest1 = Inr ((key, i, j), p2, rest2)"
    using token_errors(1) [of p1 rest1] by (cases "string_token p1 rest1") auto
  obtain p3 rest3 where ws2: "skip_ws p2 rest2 = (p3, rest3)" by fastforce
  from run ws1 key ws2 obtain p4 rest4 where colon: "expect 58 p3 rest3 = Inr (p4, rest4)"
    using token_errors(2) [of 58 p3 rest3] by (cases "expect 58 p3 rest3") auto
  let ?child = "child_path path key"
  have short: "length rest4 + 1 \<le> length rest"
    using skip_ws_shorter [OF ws1] string_token_split [OF key] skip_ws_shorter [OF ws2] expect_split [OF colon] by fastforce
  then have "json_value n je (frames - 1) ?child (origin_for ?child key org) depth p4 rest4 \<noteq> Inl NoFuel"
    using assms(2) by (intro fueledD(1) [OF assms(1)]) linarith
  with run ws1 key ws2 colon obtain spans1 p5 rest5 where
    v: "json_value n je (frames - 1) ?child (origin_for ?child key org) depth p4 rest4 = Inr (spans1, p5, rest5)"
    by (cases "json_value n je (frames - 1) ?child (origin_for ?child key org) depth p4 rest4") (auto simp: Let_def)
  obtain p6 rest6 where ws3: "skip_ws p5 rest5 = (p6, rest6)" by fastforce
  from run ws1 key ws2 colon v ws3 have "json_members n je frames path org depth (p6 + 1) (tl rest6) = Inl NoFuel"
    using token_errors(2) [of 125 p6 rest6] by (auto simp: Let_def rbind_Inl_iff split: if_splits)
  moreover have "3 * length (tl rest6) + 1 \<le> n"
    using short value_shorter [OF v] skip_ws_shorter [OF ws3] assms(2) by simp
  ultimately show False using fueledD(2) [OF assms(1)] by blast
qed

lemma items_fueled:
  assumes "fueled n" "3 * length rest + 2 \<le> Suc n"
  shows "json_items (Suc n) je frames path org depth k p rest \<noteq> Inl NoFuel"
proof
  assume run: "json_items (Suc n) je frames path org depth k p rest = Inl NoFuel"
  have "json_value n je (frames - 1) (item_path path k) org depth p rest \<noteq> Inl NoFuel"
    using assms(2) by (intro fueledD(1) [OF assms(1)]) linarith
  with run obtain spans1 p5 rest5 where
    v: "json_value n je (frames - 1) (item_path path k) org depth p rest = Inr (spans1, p5, rest5)"
    by (cases "json_value n je (frames - 1) (item_path path k) org depth p rest") auto
  obtain p6 rest6 where ws3: "skip_ws p5 rest5 = (p6, rest6)" by fastforce
  from run v ws3 have "json_items n je frames path org depth (k + 1) (p6 + 1) (tl rest6) = Inl NoFuel"
    using token_errors(2) [of 93 p6 rest6] by (auto simp: rbind_Inl_iff split: if_splits)
  moreover have "3 * length (tl rest6) + 2 \<le> n"
    using value_shorter [OF v] skip_ws_shorter [OF ws3] assms(2) by simp
  ultimately show False using fueledD(3) [OF assms(1)] by blast
qed

lemma document_fueled:
  assumes "fueled n" "3 * length raw + 2 \<le> Suc n"
  shows "json_document (Suc n) je frames org raw \<noteq> Inl NoFuel"
proof
  assume run: "json_document (Suc n) je frames org raw = Inl NoFuel"
  obtain p rest where ws: "skip_ws 0 raw = (p, rest)" by fastforce
  have "json_value n je frames [] org 0 p rest \<noteq> Inl NoFuel"
    using assms(2) skip_ws_shorter [OF ws] by (intro fueledD(1) [OF assms(1)]) linarith
  with run ws obtain found p1 rest1 where v: "json_value n je frames [] org 0 p rest = Inr (found, p1, rest1)"
    by (cases "json_value n je frames [] org 0 p rest") auto
  obtain p2 rest2 where "skip_ws p1 rest1 = (p2, rest2)" by fastforce
  with run ws v show False by (auto split: if_splits)
qed

lemma nested_fueled:
  assumes "fueled n" "utf8_encode t = Some source" "3 * length source + 3 \<le> Suc n"
  shows "json_nested (Suc n) je frames parent i j org t \<noteq> Inl NoFuel"
proof -
  have "json_document n je (frames - 3) org source \<noteq> Inl NoFuel"
    using assms(3) by (intro fueledD(4) [OF assms(1)]) linarith
  with assms(2) show ?thesis by (auto split: sum.split)
qed

lemma all_fueled: "fueled n"
proof (induction n)
  case 0
  then show ?case by (simp add: fueled_def)
next
  case (Suc n)
  show ?case
    unfolding fueled_def [of "Suc n"]
    using value_fueled [OF Suc] members_fueled [OF Suc] items_fueled [OF Suc] document_fueled [OF Suc] nested_fueled [OF Suc]
    by simp
qed

text \<open>C27. Parsing ends: with the fuel its length gives, a buffer always parses or is refused, for malformed JSON or for
  nesting the interpreter's stack does not admit, however its strings nest documents in documents.\<close>

theorem parsing_terminates: "extract_spans je frames org raw \<noteq> Inl NoFuel"
  unfolding extract_spans_def fuel_for_def by (rule fueledD(4) [OF all_fueled]) simp

end
