(* ===== verification/JsonLeaves.thy ===== *)
theory JsonLeaves
  imports JsonSpan
begin

text \<open>
  No string of a body is missed: a document is written down as a JSON encoder writes it (\<open>render\<close>, with any blanks after
  the separators), and the parser of \<^verbatim>\<open>gateway/spans/jsonspan.py\<close> gives back every string value of it, under its path and
  in its order.
\<close>

section \<open>Documents\<close>

datatype jtree =
    JText pystr
  | JPlain pybytes \<comment> \<open>a number, \<open>true\<close>, \<open>false\<close> or \<open>null\<close>\<close>
  | JArr "jtree list"
  | JDoc "jmember list"
and jmember = JMember pystr jtree

definition quoted_bytes :: "pystr \<Rightarrow> pybytes" where
  "quoted_bytes t = 34 # enc (json_escape t) @ [34]"

fun comma_bytes :: "pybytes \<Rightarrow> pybytes list \<Rightarrow> pybytes" where
  "comma_bytes w [] = []"
| "comma_bytes w [b] = b"
| "comma_bytes w (b # c # bs) = b @ 44 # w @ comma_bytes w (c # bs)"

fun render :: "pybytes \<Rightarrow> jtree \<Rightarrow> pybytes"
and render_member :: "pybytes \<Rightarrow> jmember \<Rightarrow> pybytes" where
  "render w (JText t) = quoted_bytes t"
| "render w (JPlain b) = b"
| "render w (JArr ts) = 91 # comma_bytes w (map (render w) ts) @ [93]"
| "render w (JDoc ms) = 123 # comma_bytes w (map (render_member w) ms) @ [125]"
| "render_member w (JMember k t) = quoted_bytes k @ 58 # w @ render w t"

fun leaves :: "pystr \<Rightarrow> jtree \<Rightarrow> (pystr \<times> pystr) list"
and item_leaves :: "pystr \<Rightarrow> nat \<Rightarrow> jtree list \<Rightarrow> (pystr \<times> pystr) list"
and member_leaves :: "pystr \<Rightarrow> jmember \<Rightarrow> (pystr \<times> pystr) list" where
  "leaves path (JText t) = [(path, t)]"
| "leaves path (JPlain b) = []"
| "leaves path (JArr ts) = item_leaves path 0 ts"
| "leaves path (JDoc ms) = concat (map (member_leaves path) ms)"
| "item_leaves path k [] = []"
| "item_leaves path k (t # ts) = leaves (item_path path k) t @ item_leaves path (Suc k) ts"
| "member_leaves path (JMember k t) = leaves (child_path path k) t"

definition blank_byte :: "nat \<Rightarrow> bool" where "blank_byte c \<longleftrightarrow> c \<in> {32, 9, 10, 13}"
definition delimiter :: "nat \<Rightarrow> bool" where "delimiter c \<longleftrightarrow> c \<in> {44, 93, 125, 32, 9, 10, 13}"

fun writable :: "nat \<Rightarrow> jtree \<Rightarrow> bool"
and writable_member :: "nat \<Rightarrow> jmember \<Rightarrow> bool" where
  \<comment> \<open>texts that can be encoded, scalars of their own bytes, nested in at most so many levels\<close>
  "writable d (JText t) \<longleftrightarrow> 0 < d \<and> (\<forall>c \<in> set t. encodable c)"
| "writable d (JPlain b) \<longleftrightarrow> 0 < d \<and> b \<noteq> [] \<and> hd b \<notin> {34, 123, 91} \<and> (\<forall>c \<in> set b. \<not> delimiter c)"
| "writable d (JArr ts) \<longleftrightarrow> 0 < d \<and> (\<forall>t \<in> set ts. writable (d - 1) t)"
| "writable d (JDoc ms) \<longleftrightarrow> 0 < d \<and> (\<forall>m \<in> set ms. writable_member (d - 1) m)"
| "writable_member d (JMember k t) \<longleftrightarrow> (\<forall>c \<in> set k. encodable c) \<and> writable d t"

section \<open>Reading back\<close>

definition tops :: "span list \<Rightarrow> (pystr \<times> pystr) list" where
  \<comment> \<open>path and text of the spans that are not in a nested document\<close>
  "tops spans = map (\<lambda>s. (sp_path s, sp_text s)) (filter (\<lambda>s. \<not> is_nested s) spans)"

lemma tops_append [simp]: "tops (xs @ ys) = tops xs @ tops ys"
  by (simp add: tops_def)

lemma skip_ws_stop: "rest = [] \<or> \<not> blank_byte (hd rest) \<Longrightarrow> skip_ws p rest = (p, rest)"
  by (cases rest) (auto simp: blank_byte_def)

lemma skip_ws_blanks: "\<forall>c \<in> set w. blank_byte c \<Longrightarrow> skip_ws p (w @ rest) = skip_ws (p + length w) rest"
  by (induction w arbitrary: p) (auto simp: blank_byte_def)

lemma string_content_plain: "\<forall>c \<in> set b. c \<noteq> 34 \<and> c \<noteq> 92 \<Longrightarrow> string_content (b @ s) = map_option (\<lambda>(x, r). (b @ x, r)) (string_content s)"
  by (induction b) (auto simp: option.map_comp comp_def case_prod_unfold option.map_ident)

lemma string_content_esc: "string_content (enc (esc_cp c) @ s) = map_option (\<lambda>(x, r). (enc (esc_cp c) @ x, r)) (string_content s)"
proof (cases "c = 34 \<or> c = 92 \<or> c < 32")
  case True
  have hex: "hex_cp d \<notin> {34, 92} \<and> hex_cp d < 128" if "d < 16" for d using that by (auto simp: hex_cp_def)
  have b: "utf8_cp d = [d]" if "d < 128" for d using that by (simp add: utf8_cp_def)
  have "\<exists>d ds. esc_cp c = 92 # d # ds \<and> d < 128 \<and> (\<forall>e \<in> set ds. e \<noteq> 34 \<and> e \<noteq> 92 \<and> e < 128)"
    using True hex [of "c div 16"] hex [of "c mod 16"] by (auto simp: esc_cp_def)
  then obtain d ds where e: "esc_cp c = 92 # d # ds" "d < 128" "\<forall>e \<in> set ds. e \<noteq> 34 \<and> e \<noteq> 92 \<and> e < 128" by blast
  have "concat (map utf8_cp ds) = ds" using e(3) b by (induction ds) auto
  with e b have "enc (esc_cp c) = 92 # d # ds" by simp
  with string_content_plain [of ds s] e(3) show ?thesis
    by (auto simp: option.map_comp comp_def case_prod_unfold)
next
  case False
  then have "esc_cp c = [c]" by (simp add: esc_cp_def)
  moreover have "\<forall>b \<in> set (utf8_cp c). b \<noteq> 34 \<and> b \<noteq> 92"
    using False by (auto simp: utf8_cp_def split: if_splits)
  ultimately show ?thesis using string_content_plain [of "utf8_cp c" s] by simp
qed

lemma string_content_escape: "string_content (enc (json_escape t) @ 34 # r) = Some (enc (json_escape t), r)"
proof (induction t)
  case (Cons c t)
  have "enc (json_escape (c # t)) = enc (esc_cp c) @ enc (json_escape t)" by (simp add: json_escape_def)
  with string_content_esc [of c "enc (json_escape t) @ 34 # r"] Cons show ?case by simp
qed (simp add: json_escape_def)

lemma json_text_escape: "\<forall>c \<in> set t. encodable c \<Longrightarrow> json_text (enc (json_escape t)) = Some t"
proof -
  assume "\<forall>c \<in> set t. encodable c"
  then have "\<forall>c \<in> set (json_escape t). encodable c" by (auto simp: json_escape_def esc_cp_encodable)
  then show ?thesis by (simp add: json_text_def utf8_pass_enc)
qed

lemma string_token_quoted:
  assumes "\<forall>c \<in> set t. encodable c"
  shows "string_token p (quoted_bytes t @ r)
    = Inr ((t, p + 1, p + 1 + length (enc (json_escape t))), p + length (quoted_bytes t), r)"
  using string_content_escape [of t r] json_text_escape [OF assms] by (simp add: string_token_def quoted_bytes_def)

lemma nested_tops:
  assumes "3 * length rest \<le> n" "rest = quoted_bytes t @ r" "\<forall>c \<in> set t. encodable c"
  shows "\<exists>ns. json_nested n je frames path i j org t = Inr ns \<and> tops ns = []"
proof -
  have e: "utf8_encode t = Some (enc t)" using assms(3) by (simp add: utf8_encode_def)
  have "length (enc t) \<le> length (enc (json_escape t))" by (rule json_text_length [OF json_text_escape [OF assms(3)] e])
  then have "3 * length (enc t) + 3 \<le> n" using assms(1,2) by (simp add: quoted_bytes_def)
  then have "json_nested n je frames path i j org t \<noteq> Inl NoFuel" by (rule fueledD(5) [OF all_fueled e])
  then obtain ns where ns: "json_nested n je frames path i j org t = Inr ns"
    by (cases n) (auto split: if_splits option.splits sum.splits)
  with layoutsD(5) [OF parsed_layouts ns] show ?thesis by (auto simp: inside_def tops_def is_nested_def filter_empty_conv)
qed

lemma render_first:
  assumes "writable d t"
  shows "\<exists>c cs. render w t = c # cs \<and> \<not> blank_byte c \<and> \<not> delimiter c"
  using assms by (cases t; cases "case t of JPlain b \<Rightarrow> b | _ \<Rightarrow> []") (auto simp: quoted_bytes_def blank_byte_def delimiter_def)

definition reads_tree :: "pybytes \<Rightarrow> jtree \<Rightarrow> bool" where
  "reads_tree w t \<longleftrightarrow> (\<forall>n je frames path org p r. writable frames t \<and> 3 * length (render w t @ r) + 1 \<le> n \<and> (r = [] \<or> delimiter (hd r))
     \<longrightarrow> (\<exists>spans. json_value n je frames path org 0 p (render w t @ r) = Inr (spans, p + length (render w t), r) \<and> tops spans = leaves path t))"

lemma reads_treeD:
  assumes "reads_tree w t" "writable frames t" "3 * length (render w t @ r) + 1 \<le> n" "r = [] \<or> delimiter (hd r)"
  obtains spans where "json_value n je frames path org 0 p (render w t @ r) = Inr (spans, p + length (render w t), r)"
    "tops spans = leaves path t"
  using assms unfolding reads_tree_def by blast

lemma value_blanks:
  "\<forall>c \<in> set w. blank_byte c \<Longrightarrow> json_value n je frames path org depth p (w @ rest) = json_value n je frames path org depth (p + length w) rest"
  by (cases n) (simp_all add: skip_ws_blanks)

lemma items_blanks:
  "\<forall>c \<in> set w. blank_byte c \<Longrightarrow> json_items n je frames path org depth k p (w @ rest) = json_items n je frames path org depth k (p + length w) rest"
  by (cases n) (simp_all add: value_blanks)

lemma members_blanks:
  "\<forall>c \<in> set w. blank_byte c \<Longrightarrow> json_members n je frames path org depth p (w @ rest) = json_members n je frames path org depth (p + length w) rest"
  by (cases n) (simp_all add: skip_ws_blanks)

lemma comma_bytes_Cons: "comma_bytes w (b # bs) = b @ (if bs = [] then [] else 44 # w @ comma_bytes w bs)"
  by (cases bs) simp_all

lemma reads_items:
  assumes "\<forall>c \<in> set w. blank_byte c" "ts \<noteq> []" "\<forall>t \<in> set ts. reads_tree w t" "\<forall>t \<in> set ts. writable (frames - 1) t"
    and "3 * length (comma_bytes w (map (render w) ts) @ 93 # r) + 2 \<le> n"
  shows "\<exists>spans. json_items n je frames path org 0 k p (comma_bytes w (map (render w) ts) @ 93 # r)
      = Inr (spans, p + length (comma_bytes w (map (render w) ts)) + 1, r) \<and> tops spans = item_leaves path k ts"
  using assms(2-5)
proof (induction ts arbitrary: k p n)
  case (Cons t ts)
  then obtain m where m: "n = Suc m" by (cases n) auto
  let ?more = "comma_bytes w (map (render w) ts)"
  let ?r = "if ts = [] then 93 # r else 44 # w @ ?more @ 93 # r"
  have rest: "comma_bytes w (map (render w) (t # ts)) @ 93 # r = render w t @ ?r" by (simp add: comma_bytes_Cons)
  have delim: "?r = [] \<or> delimiter (hd ?r)" by (simp add: delimiter_def)
  from Cons.prems(4) m have "3 * length (render w t @ ?r) + 1 \<le> m" by (simp only: rest)
  with reads_treeD [of w t "frames - 1" ?r m je "item_path path k" org p] Cons.prems(2,3) delim obtain spans1 where
    v: "json_value m je (frames - 1) (item_path path k) org 0 p (render w t @ ?r) = Inr (spans1, p + length (render w t), ?r)"
      "tops spans1 = leaves (item_path path k) t" by auto
  have stop: "skip_ws q ?r = (q, ?r)" for q by (rule skip_ws_stop) (simp add: blank_byte_def)
  show ?case
  proof (cases "ts = []")
    case True
    with v stop [of "p + length (render w t)"] m show ?thesis by (simp add: expect_def)
  next
    case False
    have "3 * length (?more @ 93 # r) + 2 \<le> m" using Cons.prems(4) m False by (simp add: comma_bytes_Cons)
    from Cons.IH [OF False _ _ this, of "Suc k" "Suc (p + length (render w t) + length w)"] Cons.prems(2,3) obtain spans2 where
      "json_items m je frames path org 0 (Suc k) (Suc (p + length (render w t) + length w)) (?more @ 93 # r)
        = Inr (spans2, Suc (p + length (render w t) + length w) + length ?more + 1, r)" "tops spans2 = item_leaves path (Suc k) ts" by auto
    with v stop [of "p + length (render w t)"] m False items_blanks [OF assms(1)] show ?thesis
      unfolding rest by (simp add: comma_bytes_Cons add_ac)
  qed
qed simp

lemma members_step:
  assumes "\<forall>c \<in> set key. encodable c" "\<forall>c \<in> set w. blank_byte c"
    and v: "json_value m je (frames - 1) (child_path path key) (origin_for (child_path path key) key org) 0
      (p + length (quoted_bytes key) + 1 + length w) (b @ s) = Inr (spans1, q, s)"
    and stop: "\<And>q. skip_ws q s = (q, s)"
  shows "json_members (Suc m) je frames path org 0 p (quoted_bytes key @ 58 # w @ b @ s) =
      (if s \<noteq> [] \<and> hd s = 44 then rbind (json_members m je frames path org 0 (q + 1) (tl s)) (\<lambda>(more, p, rest). Inr (spans1 @ more, p, rest))
       else rbind (expect 125 q s) (\<lambda>(p, rest). Inr (spans1, p, rest)))"
proof -
  obtain cs where cs: "quoted_bytes key @ 58 # w @ b @ s = 34 # cs" by (simp add: quoted_bytes_def)
  have "skip_ws p (quoted_bytes key @ 58 # w @ b @ s) = (p, quoted_bytes key @ 58 # w @ b @ s)" unfolding cs by simp
  moreover have "skip_ws i (58 # w @ b @ s) = (i, 58 # w @ b @ s)" for i by simp
  moreover have "expect 58 i (58 # w @ b @ s) = Inr (i + 1, w @ b @ s)" for i by (simp add: expect_def)
  moreover note string_token_quoted [OF assms(1), of p "58 # w @ b @ s"]
  moreover have "json_value m je (frames - 1) (child_path path key) (origin_for (child_path path key) key org) 0
      (p + length (quoted_bytes key) + 1) (w @ b @ s) = Inr (spans1, q, s)"
    using v unfolding value_blanks [OF assms(2)] .
  ultimately show ?thesis unfolding json_members.simps Let_def by (simp only: prod.case rbind_simps stop)
qed

lemma reads_members:
  assumes "\<forall>c \<in> set w. blank_byte c" "ms \<noteq> []" "\<forall>m \<in> set ms. case m of JMember k t \<Rightarrow> reads_tree w t"
    and "\<forall>m \<in> set ms. writable_member (frames - 1) m"
    and "3 * length (comma_bytes w (map (render_member w) ms) @ 125 # r) + 1 \<le> n"
  shows "\<exists>spans. json_members n je frames path org 0 p (comma_bytes w (map (render_member w) ms) @ 125 # r)
      = Inr (spans, p + length (comma_bytes w (map (render_member w) ms)) + 1, r) \<and> tops spans = concat (map (member_leaves path) ms)"
  using assms(2-5)
proof (induction ms arbitrary: p n)
  case (Cons mem ms)
  then obtain m where m: "n = Suc m" by (cases n) auto
  obtain key t where mem: "mem = JMember key t" by (cases mem)
  let ?more = "comma_bytes w (map (render_member w) ms)"
  let ?r = "if ms = [] then 125 # r else 44 # w @ ?more @ 125 # r"
  let ?child = "child_path path key" and ?q = "p + length (quoted_bytes key) + 1 + length w"
  have rest: "comma_bytes w (map (render_member w) (mem # ms)) @ 125 # r = quoted_bytes key @ 58 # w @ render w t @ ?r"
    by (simp add: comma_bytes_Cons mem)
  have delim: "?r = [] \<or> delimiter (hd ?r)" by (simp add: delimiter_def)
  have key: "\<forall>c \<in> set key. encodable c" and t: "reads_tree w t" "writable (frames - 1) t" using Cons.prems(2,3) mem by auto
  from Cons.prems(4) m have "3 * length (render w t @ ?r) + 1 \<le> m" unfolding rest by simp
  from reads_treeD [OF t this delim, of je ?child "origin_for ?child key org" ?q] obtain spans1 where
    v: "json_value m je (frames - 1) ?child (origin_for ?child key org) 0 ?q (render w t @ ?r) = Inr (spans1, ?q + length (render w t), ?r)"
      "tops spans1 = leaves ?child t" by blast
  have stop: "skip_ws q ?r = (q, ?r)" for q by (rule skip_ws_stop) (simp add: blank_byte_def)
  note step = members_step [OF key assms(1) v(1) stop, folded m]
  show ?case
  proof (cases "ms = []")
    case True
    with step v(2) show ?thesis unfolding rest by (simp add: mem comma_bytes_Cons expect_def)
  next
    case False
    have "3 * length (?more @ 125 # r) + 1 \<le> m" using Cons.prems(4) m False unfolding rest by simp
    from Cons.IH [OF False _ _ this, of "?q + length (render w t) + 1 + length w"] Cons.prems(2,3) obtain spans2 where
      "json_members m je frames path org 0 (?q + length (render w t) + 1 + length w) (?more @ 125 # r)
        = Inr (spans2, ?q + length (render w t) + 1 + length w + length ?more + 1, r)" "tops spans2 = concat (map (member_leaves path) ms)"
      by auto
    with step v(2) False members_blanks [OF assms(1)] show ?thesis
      unfolding rest by (simp add: mem comma_bytes_Cons add_ac)
  qed
qed simp

lemma all_trees:
  assumes "\<forall>c \<in> set w. blank_byte c"
  shows "reads_tree w t" and "case m of JMember k u \<Rightarrow> reads_tree w u"
proof (induction t and m)
  case (JText t)
  show ?case unfolding reads_tree_def
  proof (intro allI impI)
    fix n je frames path org p r
    assume *: "writable frames (JText t) \<and> 3 * length (render w (JText t) @ r) + 1 \<le> n \<and> (r = [] \<or> delimiter (hd r))"
    then obtain m where m: "n = Suc m" by (cases n) auto
    have t: "\<forall>c \<in> set t. encodable c" "frames \<noteq> 0" using * by auto
    let ?i = "p + 1" and ?j = "p + 1 + length (enc (json_escape t))"
    have "3 * length (quoted_bytes t @ r) \<le> m" using * m by simp
    from nested_tops [OF this refl t(1), of je frames path ?i ?j org] obtain ns where
      ns: "json_nested m je frames path ?i ?j org t = Inr ns" "tops ns = []" by blast
    obtain cs where cs: "quoted_bytes t @ r = 34 # cs" by (simp add: quoted_bytes_def)
    have ws: "skip_ws p (quoted_bytes t @ r) = (p, 34 # cs)" unfolding cs by simp
    have "json_value n je frames path org 0 p (quoted_bytes t @ r) = Inr (leaf_span je path org t ?i ?j # ns, p + length (quoted_bytes t), r)"
      using ns(1) t(2) string_token_quoted [OF t(1), of p r] unfolding m json_value.simps ws cs
      by (simp add: MAX_NESTED_DEPTH_def)
    with ns(2) show "\<exists>spans. json_value n je frames path org 0 p (render w (JText t) @ r) = Inr (spans, p + length (render w (JText t)), r)
        \<and> tops spans = leaves path (JText t)"
      by (auto simp: tops_def leaf_span_def is_nested_def)
  qed
next
  case (JPlain b)
  show ?case unfolding reads_tree_def
  proof (intro allI impI)
    fix n je frames path org p r
    assume *: "writable frames (JPlain b) \<and> 3 * length (render w (JPlain b) @ r) + 1 \<le> n \<and> (r = [] \<or> delimiter (hd r))"
    then obtain m where m: "n = Suc m" by (cases n) auto
    from * obtain c cs where b: "b = c # cs" "c \<notin> {34, 123, 91}" "\<forall>c \<in> set b. \<not> delimiter c" "frames \<noteq> 0" by (cases b) auto
    have "scalar_chars (x @ r) = length x" if "\<forall>c \<in> set x. \<not> delimiter c" for x
      using that * by (induction x; cases r) (auto simp: delimiter_def)
    from this [OF b(3)] have "skip_scalar p (b @ r) = Inr (p + length b, r)" using b(1) by (simp only: skip_scalar_def Let_def) simp
    moreover have "skip_ws p (c # cs @ r) = (p, c # cs @ r)" using b(1,3) by (auto simp: delimiter_def)
    ultimately show "\<exists>spans. json_value n je frames path org 0 p (render w (JPlain b) @ r) = Inr (spans, p + length (render w (JPlain b)), r)
        \<and> tops spans = leaves path (JPlain b)"
      using b m by (auto simp: tops_def)
  qed
next
  case (JArr ts)
  show ?case unfolding reads_tree_def
  proof (intro allI impI)
    fix n je frames path org p r
    assume *: "writable frames (JArr ts) \<and> 3 * length (render w (JArr ts) @ r) + 1 \<le> n \<and> (r = [] \<or> delimiter (hd r))"
    then obtain m where m: "n = Suc m" by (cases n) auto
    from * have frames: "frames \<noteq> 0" by simp
    let ?body = "comma_bytes w (map (render w) ts) @ 93 # r"
    have src: "render w (JArr ts) @ r = 91 # ?body" by simp
    show "\<exists>spans. json_value n je frames path org 0 p (render w (JArr ts) @ r) = Inr (spans, p + length (render w (JArr ts)), r)
        \<and> tops spans = leaves path (JArr ts)"
    proof (cases "ts = []")
      case True
      with m frames show ?thesis by (simp add: tops_def)
    next
      case False
      then obtain x xs where x: "ts = x # xs" by (cases ts) auto
      from * x have "writable (frames - 1) x" by simp
      from render_first [OF this, of w] have "\<exists>c cs. render w x = c # cs \<and> \<not> blank_byte c \<and> \<not> delimiter c" .
      then obtain c cs where c: "?body = c # cs" "\<not> blank_byte c" "\<not> delimiter c" by (auto simp: x comma_bytes_Cons)
      then have "skip_ws (p + 1) ?body = (p + 1, c # cs)" "c \<noteq> 93"
        using skip_ws_stop [of "c # cs" "p + 1"] by (auto simp: delimiter_def)
      then have "json_value n je frames path org 0 p (render w (JArr ts) @ r) = json_items m je frames path org 0 0 (p + 1) ?body"
        unfolding src m json_value.simps using frames by (simp add: c(1))
      moreover have "3 * length ?body + 2 \<le> m" using * m unfolding src by simp
      from reads_items [OF assms False _ _ this, where je = je and path = path and org = org and k = 0 and p = "p + 1" and frames = frames] * JArr obtain spans where
        "json_items m je frames path org 0 0 (p + 1) ?body = Inr (spans, p + 1 + length (comma_bytes w (map (render w) ts)) + 1, r)"
        "tops spans = leaves path (JArr ts)" by auto
      ultimately show ?thesis by simp
    qed
  qed
next
  case (JDoc ms)
  show ?case unfolding reads_tree_def
  proof (intro allI impI)
    fix n je frames path org p r
    assume *: "writable frames (JDoc ms) \<and> 3 * length (render w (JDoc ms) @ r) + 1 \<le> n \<and> (r = [] \<or> delimiter (hd r))"
    then obtain m where m: "n = Suc m" by (cases n) auto
    from * have frames: "frames \<noteq> 0" by simp
    let ?body = "comma_bytes w (map (render_member w) ms) @ 125 # r"
    have src: "render w (JDoc ms) @ r = 123 # ?body" by simp
    show "\<exists>spans. json_value n je frames path org 0 p (render w (JDoc ms) @ r) = Inr (spans, p + length (render w (JDoc ms)), r)
        \<and> tops spans = leaves path (JDoc ms)"
    proof (cases "ms = []")
      case True
      with m frames show ?thesis by (simp add: tops_def)
    next
      case False
      then obtain x xs where x: "ms = x # xs" by (cases ms) auto
      have "\<exists>c cs. render_member w x = c # cs \<and> \<not> blank_byte c \<and> \<not> delimiter c"
        by (cases x) (simp add: quoted_bytes_def blank_byte_def delimiter_def)
      then obtain c cs where c: "?body = c # cs" "\<not> blank_byte c" "\<not> delimiter c" by (auto simp: x comma_bytes_Cons)
      then have "skip_ws (p + 1) ?body = (p + 1, c # cs)" "c \<noteq> 125"
        using skip_ws_stop [of "c # cs" "p + 1"] by (auto simp: delimiter_def)
      then have "json_value n je frames path org 0 p (render w (JDoc ms) @ r) = json_members m je frames path org 0 (p + 1) ?body"
        unfolding src m json_value.simps using frames by (simp add: c(1))
      moreover have "3 * length ?body + 1 \<le> m" using * m unfolding src by simp
      from reads_members [OF assms False _ _ this, where je = je and path = path and org = org and p = "p + 1" and frames = frames] * JDoc obtain spans where
        "json_members m je frames path org 0 (p + 1) ?body = Inr (spans, p + 1 + length (comma_bytes w (map (render_member w) ms)) + 1, r)"
        "tops spans = leaves path (JDoc ms)" by auto
      ultimately show ?thesis by simp
    qed
  qed
next
  case (JMember k u)
  then show ?case by simp
qed

lemma role_origin_tops: "tops (apply_message_roles je raw spans) = tops spans"
proof -
  have "sp_path (role_origin ros s) = sp_path s \<and> sp_text (role_origin ros s) = sp_text s \<and> is_nested (role_origin ros s) = is_nested s"
    for ros s by (auto simp: role_origin_def is_nested_def split: option.split)
  then show ?thesis by (simp add: tops_def apply_message_roles_def filter_map comp_def)
qed

text \<open>C25. Scanning misses no string: the body of any document a JSON encoder can write, whatever blanks it puts between the
  parts, is parsed to its end, and the spans outside nested documents are exactly the document's string values, each with
  its decoded text under its path, in the order of the document.\<close>

theorem every_string_is_found:
  assumes "\<forall>c \<in> set w. blank_byte c" "writable frames t"
  shows "\<exists>spans. extract_spans je frames org (render w t) = Inr spans \<and> tops spans = leaves [] t"
proof -
  let ?raw = "render w t"
  obtain c cs where first: "?raw = c # cs" "\<not> blank_byte c" using render_first [OF assms(2)] by blast
  then have ws: "skip_ws 0 ?raw = (0, ?raw)" by (intro skip_ws_stop) simp
  let ?n = "3 * length ?raw + 2"
  obtain spans where v: "json_value ?n je frames [] org 0 0 (?raw @ []) = Inr (spans, 0 + length ?raw, [])" "tops spans = leaves [] t"
    by (rule reads_treeD [OF all_trees(1) [OF assms(1)] assms(2), of "[]" ?n je "[]" org 0]) auto
  have "fuel_for ?raw = Suc ?n" by (simp add: fuel_for_def)
  with v(1) ws have "extract_spans je frames org ?raw = Inr (apply_message_roles je ?raw spans)"
    unfolding extract_spans_def by (simp del: json_value.simps)
  moreover have "tops (apply_message_roles je ?raw spans) = leaves [] t" using v(2) by (simp add: role_origin_tops)
  ultimately show ?thesis by blast
qed

definition example_document :: jtree where
  "example_document = JDoc [JMember (tx ''model'') (JText (tx ''m'')), JMember (tx ''stream'') (JPlain [116, 114, 117, 101]),
     JMember (tx ''input'') (JArr [JText (tx ''hi''), JText [34, 955]])]"

theorem every_string_is_found_witness:
  "\<exists>spans. extract_spans \<lparr>je_loads = \<lambda>_. None, je_lower = id, je_leg = Outbound\<rparr> 100 OUser (render [32] example_document) = Inr spans
     \<and> tops spans = [(tx ''model'', tx ''m''), (tx ''input[0]'', tx ''hi''), (tx ''input[1]'', [34, 955])]"
proof -
  have "writable 100 example_document"
    by (simp add: example_document_def delimiter_def encodable_def is_surrogate_def code_point_def)
  moreover have "leaves [] example_document = [(tx ''model'', tx ''m''), (tx ''input[0]'', tx ''hi''), (tx ''input[1]'', [34, 955])]"
    by (simp add: example_document_def child_path_def item_path_def pr_nat.simps dec_digit_def)
  ultimately show ?thesis using every_string_is_found [of "[32]" 100 example_document] by (simp add: blank_byte_def)
qed

end
