(* ===== verification/JsonCorners.thy ===== *)
theory JsonCorners
  imports JsonSpan
begin

text \<open>
  What \<^verbatim>\<open>gateway/spans/jsonspan.py\<close> does at the corners of its grammar: values of a nested document that contain an escape,
  documents nested more than two levels deep, keys that spell a path, scalars that are none.
\<close>

definition found :: "pybytes \<Rightarrow> (pystr \<times> pystr) list option" where
  "found raw = (case extract_spans plain_env 100 OUser raw of Inl e \<Rightarrow> None | Inr spans \<Rightarrow> Some (map (\<lambda>s. (sp_path s, sp_text s)) spans))"

text \<open>A value of a nested document that has an escape before the finding: the edit of \<open>ab\<close> lands two characters to its
  left, the escape is replaced, and \<open>ab\<close> stays in the body.\<close>

definition escaped_body :: pybytes where "escaped_body = [91, 34, 91, 92, 34, 92, 92, 110, 92, 92, 110, 97, 98, 92, 34, 93, 34, 93]" \<comment> \<open>["[\"\\n\\nab\"]"]\<close>

lemma escape_shifts_nested_edit:
  "(case extract_spans plain_env 100 OUser escaped_body of Inl e \<Rightarrow> None | Inr spans \<Rightarrow>
     (case spans of [parent, nested] \<Rightarrow>
        (case replace (span_tree escaped_body spans) (sp_path nested) 2 4 [42] of
           Inr t \<Rightarrow> Some (slice 2 4 (sp_text nested), map (\<lambda>e. slice (ed_start e) (ed_end e) (sp_text parent)) (tr_edits t))
         | Inl e \<Rightarrow> None)
      | _ \<Rightarrow> None)) = Some ([97, 98], [[92, 110]])"
  by code_simp

text \<open>Three documents in one another are all read, although \<open>_MAX_NESTED_DEPTH\<close> is two: the depth is the caller's only for
  the first of them.\<close>

definition deep_body :: pybytes where "deep_body = [91, 34, 91, 92, 34, 91, 92, 92, 92, 34, 91, 92, 92, 92, 92, 92, 92, 92, 34, 97, 98, 99, 100, 101, 102, 103, 104, 92, 92, 92, 92, 92, 92, 92, 34, 93, 92, 92, 92, 34, 93, 92, 34, 93, 34, 93]"

lemma nested_depth_is_not_counted:
  "map_option (map fst) (found deep_body) = Some (map (\<lambda>p. map of_char p) [''[0]'', ''[0]$json.[0]'', ''[0]$json.[0]$json.[0]'', ''[0]$json.[0]$json.[0]$json.[0]''])"
  by code_simp

text \<open>A value in a document that is itself nested is given the place of the string that holds it, so its edit overwrites the
  delimiters before the value and leaves the value's end.\<close>

definition second_body :: pybytes where "second_body = [91, 34, 91, 92, 34, 91, 92, 92, 92, 34, 97, 98, 99, 100, 101, 102, 103, 104, 92, 92, 92, 34, 93, 92, 34, 93, 34, 93]"

lemma second_level_is_misplaced:
  "(case extract_spans plain_env 100 OUser second_body of Inl e \<Rightarrow> None | Inr spans \<Rightarrow>
     (case spans of [parent, first, second] \<Rightarrow>
        (case replace (span_tree second_body spans) (sp_path second) 0 8 [42] of
           Inr t \<Rightarrow> Some (sp_text second, map (\<lambda>e. slice (ed_start e) (ed_end e) (sp_text parent)) (tr_edits t))
         | Inl e \<Rightarrow> None)
      | _ \<Rightarrow> None)) = Some ([97, 98, 99, 100, 101, 102, 103, 104], [[91, 92, 34, 97, 98, 99, 100, 101]])"
  by code_simp

text \<open>Keys may spell a path, and a scalar is any run of bytes.\<close>

lemma keys_share_path: "found [123, 34, 97, 46, 98, 34, 58, 34, 120, 34, 44, 34, 97, 34, 58, 123, 34, 98, 34, 58, 34, 121, 34, 125, 125] = Some [([97, 46, 98], [120]), ([97, 46, 98], [121])]"
  by code_simp

lemma scalars_are_not_read: "found [91, 64, 93] = Some []"
  by code_simp

end
