(* ===== verification/ReadPaths.thy ===== *)
theory ReadPaths
  imports CallState "HOL-Library.Code_Target_Nat"
begin

text \<open>
  Which files a tool call would put in front of the model (\<^verbatim>\<open>part_a/reading.py\<close>, \<open>candidate_paths\<close>): the path arguments
  of reading tools and the file arguments of reading commands in a shell line, with \<open>shlex.split(posix=False)\<close> as the
  state machine it is. The file system is the record \<open>path_env\<close>; paths are POSIX paths, in normal form once a
  \<open>Path\<close> is made of them.
\<close>

section \<open>Words of a command line\<close>

datatype lex_state = Blank | Word pystr | Quote nat pystr

definition lex_space :: "nat \<Rightarrow> bool" where "lex_space c \<longleftrightarrow> c \<in> {32, 9, 13, 10}"

fun lex :: "lex_state \<Rightarrow> pystr \<Rightarrow> pystr list option" where
  \<comment> \<open>\<open>None\<close>: no closing quotation\<close>
  "lex Blank [] = Some []"
| "lex (Word t) [] = Some [t]"
| "lex (Quote q t) [] = None"
| "lex Blank (c # cs) =
     (if lex_space c then lex Blank cs else if c = 34 \<or> c = 39 then lex (Quote c [c]) cs else lex (Word [c]) cs)"
| "lex (Word t) (c # cs) = (if lex_space c then map_option ((#) t) (lex Blank cs) else lex (Word (t @ [c])) cs)"
| "lex (Quote q t) (c # cs) =
     (if c = q then map_option ((#) (t @ [c])) (lex Blank cs) else lex (Quote q (t @ [c])) cs)"

definition shell_words :: "pystr \<Rightarrow> pystr list option" where "shell_words s = lex Blank s"

fun split_pair :: "nat \<Rightarrow> pystr \<Rightarrow> pystr list" where
  \<comment> \<open>\<open>s.split(c + c)\<close>\<close>
  "split_pair c (x # y # s) =
     (if x = c \<and> y = c then [] # split_pair c s
      else (case split_pair c (y # s) of [] \<Rightarrow> [[x]] | p # ps \<Rightarrow> (x # p) # ps))"
| "split_pair c s = [s]"

definition split_commands :: "pystr \<Rightarrow> pystr list" where
  \<comment> \<open>at \<open>&&\<close>, \<open>||\<close>, \<open>;\<close>, \<open>|\<close> and line ends\<close>
  "split_commands command =
     (let parts = concat (map (split_pair 124) (split_pair 38 command));
          parts = concat (map (split_on 10) (concat (map (split_on 124) (concat (map (split_on 59) parts)))))
      in filter (\<lambda>p. p \<noteq> []) (map strip parts))"

section \<open>Paths\<close>

datatype home_path = Expanded pystr | BadPath | NoHome \<comment> \<open>\<open>OSError\<close> or \<open>ValueError\<close>; \<open>RuntimeError\<close>\<close>

datatype file_kind = RegularFile | Directory | Other

record path_env =
  px_lower :: "pystr \<Rightarrow> pystr"
  px_repr :: "pyval \<Rightarrow> pystr"
  px_home :: "pystr \<Rightarrow> home_path" \<comment> \<open>\<open>Path(text).expanduser()\<close>\<close>
  px_stat :: "pystr \<Rightarrow> file_kind option" \<comment> \<open>\<open>None\<close> is an \<open>OSError\<close> that \<open>is_file\<close> passes on\<close>
  px_tree :: "pystr \<Rightarrow> pystr list option" \<comment> \<open>\<open>sorted(path.rglob("*"))\<close>\<close>

definition MAX_FILES :: nat where "MAX_FILES = 64"

definition READERS :: "pystr list" where
  "READERS = map (\<lambda>s. tx s)
     [''cat'', ''bat'', ''head'', ''tail'', ''less'', ''more'', ''nl'', ''strings'', ''xxd'', ''od'', ''grep'', ''egrep'', ''fgrep'', ''rg'',
      ''ag'', ''ack'', ''jq'', ''yq'', ''column'', ''tac'', ''type'', ''get-content'', ''gc'']"

definition PATH_KEYS :: "pystr list" where
  "PATH_KEYS = map (\<lambda>s. tx s) [''file_path'', ''filepath'', ''path'', ''notebook_path'', ''file'', ''filename'', ''target_file'']"

definition READ_TOOLS :: "pystr list" where
  "READ_TOOLS = map (\<lambda>s. tx s) [''Read'', ''NotebookRead'', ''Grep'']"

definition READ_VERBS :: "pystr list" where
  "READ_VERBS = map (\<lambda>s. tx s)
     [''read'', ''cat'', ''open'', ''fetch'', ''get_file'', ''get_document'', ''load'', ''view'', ''search'', ''grep'', ''find_in'']"

definition BINARY_SUFFIXES :: "pystr list" where
  "BINARY_SUFFIXES = map (\<lambda>s. tx s)
     [''.png'', ''.jpg'', ''.jpeg'', ''.gif'', ''.webp'', ''.ico'', ''.pdf'', ''.zip'', ''.gz'', ''.tar'', ''.whl'', ''.exe'', ''.dll'', ''.so'',
      ''.dylib'', ''.pyc'', ''.woff'', ''.woff2'', ''.ttf'', ''.mp4'']"

fun after_last :: "pystr \<Rightarrow> pystr option" where
  \<comment> \<open>what follows the last \<open>__\<close>\<close>
  "after_last [] = None"
| "after_last (c # s) =
     (case after_last s of Some r \<Rightarrow> Some r | None \<Rightarrow> if starts_with (tx ''__'') (c # s) then Some (tl s) else None)"

definition is_read_tool :: "path_env \<Rightarrow> pystr \<Rightarrow> bool" where
  "is_read_tool px tool \<longleftrightarrow>
     (if tool \<in> set READ_TOOLS then True
      else if starts_with (tx ''mcp__'') tool then
        let name = px_lower px (case after_last tool of Some r \<Rightarrow> r | None \<Rightarrow> tool)
        in list_ex (\<lambda>verb. contains verb name) READ_VERBS
      else False)"

definition path_name :: "pystr \<Rightarrow> pystr" where
  \<comment> \<open>\<open>Path(text).name\<close>\<close>
  "path_name s = (let parts = filter (\<lambda>p. p \<noteq> [] \<and> p \<noteq> [46]) (split_on 47 s) in if parts = [] then [] else last parts)"

definition path_suffix :: "pystr \<Rightarrow> pystr" where
  \<comment> \<open>from the last dot of the name, unless the name starts or ends with it\<close>
  "path_suffix s =
     (let name = path_name s; stem = rev (dropWhile (\<lambda>c. c \<noteq> 46) (rev name))
      in if length stem \<le> 1 \<or> length stem = length name then [] else drop (length stem - 1) name)"

definition readable :: "path_env \<Rightarrow> pystr \<Rightarrow> bool" where
  "readable px p \<longleftrightarrow> px_lower px (path_suffix p) \<notin> set BINARY_SUFFIXES"

definition strip_char :: "nat \<Rightarrow> pystr \<Rightarrow> pystr" where
  "strip_char c s = rev (dropWhile (\<lambda>d. d = c) (rev (dropWhile (\<lambda>d. d = c) s)))"

definition expand_dir :: "path_env \<Rightarrow> pystr \<Rightarrow> pystr list" where
  \<comment> \<open>one entry that cannot be examined makes the whole directory empty\<close>
  "expand_dir px p =
     (case px_tree px p of
        None \<Rightarrow> []
      | Some tree \<Rightarrow>
          let entries = take (MAX_FILES * 4) tree in
          if list_ex (\<lambda>e. px_stat px e = None) entries then []
          else take MAX_FILES (filter (\<lambda>e. px_stat px e = Some RegularFile \<and> readable px e) entries))"

definition expand_item :: "path_env \<Rightarrow> pystr \<Rightarrow> pystr list option" where
  \<comment> \<open>\<open>_expand\<close>; \<open>None\<close> when it raises\<close>
  "expand_item px item =
     (let t = strip (strip_char 39 (strip_char 34 (strip item))) in
      if t = [] then Some []
      else case px_home px t of
        BadPath \<Rightarrow> Some []
      | NoHome \<Rightarrow> None
      | Expanded p \<Rightarrow> Some
          (case px_stat px p of
             Some RegularFile \<Rightarrow> if readable px p then [p] else []
           | Some Directory \<Rightarrow> expand_dir px p
           | _ \<Rightarrow> []))"

section \<open>Shell lines\<close>

fun redirect_sources :: "pystr list \<Rightarrow> pystr list" where
  "redirect_sources [] = []"
| "redirect_sources (t # ts) =
     (if t = [60] \<and> ts \<noteq> [] then [hd ts]
      else if starts_with [60] t \<and> 1 < length t \<and> \<not> starts_with [60, 60] t then [tl t] else [])
     @ redirect_sources ts"

fun reader_arguments :: "bool \<Rightarrow> pystr list \<Rightarrow> pystr list" where
  \<comment> \<open>the flag is \<open>skip_next\<close>\<close>
  "reader_arguments skip [] = []"
| "reader_arguments skip (t # ts) =
     (if skip then reader_arguments False ts
      else if t \<in> {[62], [62, 62], [49, 62], [50, 62], [38, 62], [124]} then reader_arguments (t \<noteq> [124]) ts
      else if starts_with [62] t then reader_arguments False ts
      else if starts_with [45] t \<or> t = [60] then reader_arguments False ts
      else t # reader_arguments False ts)"

definition part_paths :: "path_env \<Rightarrow> pystr \<Rightarrow> pystr list" where
  "part_paths px part =
     (case shell_words part of
        None \<Rightarrow> []
      | Some tokens \<Rightarrow>
          (case tokens of
             [] \<Rightarrow> []
           | t # ts \<Rightarrow>
               redirect_sources tokens
               @ (if px_lower px (path_name (strip_char 39 (strip_char 34 t))) \<in> set READERS then reader_arguments False ts else [])))"

definition bash_paths :: "path_env \<Rightarrow> pystr \<Rightarrow> pystr list" where
  "bash_paths px command = concat (map (part_paths px) (split_commands command))"

section \<open>Candidates\<close>

definition raw_paths :: "path_env \<Rightarrow> pystr \<Rightarrow> tool_args \<Rightarrow> pystr list" where
  "raw_paths px tool args =
     (if tool = tx ''Bash'' \<or> tool = tx ''shell'' then bash_paths px (str_or (px_repr px) [''command''] args)
      else if is_read_tool px tool then
        List.map_filter (\<lambda>(k, v). case v of
          PStr s \<Rightarrow> if px_lower px k \<in> set PATH_KEYS \<and> strip s \<noteq> [] then Some s else None | _ \<Rightarrow> None) args
      else [])"

fun add_paths :: "pystr list \<Rightarrow> pystr list \<Rightarrow> pystr list \<times> bool" where
  \<comment> \<open>with whether the ceiling is reached\<close>
  "add_paths found [] = (found, False)"
| "add_paths found (p # ps) =
     (let found = (if p \<in> set found then found else found @ [p])
      in if MAX_FILES \<le> length found then (found, True) else add_paths found ps)"

fun collect :: "path_env \<Rightarrow> pystr list \<Rightarrow> pystr list \<Rightarrow> pystr list option" where
  "collect px found [] = Some found"
| "collect px found (item # rest) =
     (case expand_item px item of
        None \<Rightarrow> None
      | Some ps \<Rightarrow> (case add_paths found ps of (found, full) \<Rightarrow> if full then Some found else collect px found rest))"

definition candidate_paths :: "path_env \<Rightarrow> pystr \<Rightarrow> tool_args \<Rightarrow> pystr list option" where
  \<comment> \<open>\<open>None\<close> when a home directory cannot be found\<close>
  "candidate_paths px tool args = collect px [] (raw_paths px tool args)"

section \<open>The ceiling\<close>

definition served_file :: "path_env \<Rightarrow> pystr \<Rightarrow> bool" where
  "served_file px p \<longleftrightarrow> px_stat px p = Some RegularFile \<and> readable px p"

lemma expand_item_files: "expand_item px item = Some ps \<Longrightarrow> p \<in> set ps \<Longrightarrow> served_file px p"
  by (auto simp: expand_item_def expand_dir_def served_file_def Let_def
      split: if_splits home_path.splits option.splits file_kind.splits dest!: in_set_takeD)

lemma add_paths_grow:
  assumes "add_paths found ps = (found', full)"
  shows "set found \<subseteq> set found' \<and> set found' \<subseteq> set found \<union> set ps \<and> (distinct found \<longrightarrow> distinct found')
    \<and> (\<not> full \<longrightarrow> set ps \<subseteq> set found')
    \<and> (length found < MAX_FILES \<longrightarrow> (if full then length found' = MAX_FILES else length found' < MAX_FILES))"
  using assms
proof (induction found ps rule: add_paths.induct)
  case (2 found p ps)
  let ?found = "if p \<in> set found then found else found @ [p]"
  show ?case
  proof (cases "MAX_FILES \<le> length ?found")
    case True
    with 2(2) show ?thesis by (auto simp: Let_def split: if_splits)
  next
    case False
    with 2(2) have rest: "add_paths ?found ps = (found', full)" by (simp add: Let_def)
    from 2(1) [OF refl False rest] False show ?thesis by (auto split: if_splits)
  qed
qed simp

lemma collect_files:
  assumes "collect px found items = Some ps" "\<forall>p \<in> set found. served_file px p" "distinct found" "length found < MAX_FILES"
  shows "set found \<subseteq> set ps \<and> (\<forall>p \<in> set ps. served_file px p) \<and> distinct ps \<and> length ps \<le> MAX_FILES
    \<and> (\<forall>item \<in> set items. \<forall>qs. expand_item px item = Some qs \<longrightarrow> set qs \<subseteq> set ps \<or> length ps = MAX_FILES)"
  using assms
proof (induction px found items rule: collect.induct)
  case (2 px found item rest)
  from 2(2) obtain qs found' full where q: "expand_item px item = Some qs" "add_paths found qs = (found', full)"
    by (cases "expand_item px item") (auto split: prod.splits)
  from add_paths_grow [OF q(2)] 2(3-5) expand_item_files [OF q(1)]
  have step: "set found \<subseteq> set found'" "\<forall>p \<in> set found'. served_file px p" "distinct found'"
    "\<not> full \<longrightarrow> set qs \<subseteq> set found'" "if full then length found' = MAX_FILES else length found' < MAX_FILES" by auto
  show ?case
  proof (cases full)
    case True
    with 2(2) q step show ?thesis by auto
  next
    case False
    with 2(2) q have "collect px found' rest = Some ps" by simp
    from 2(1) [OF q(1) q(2) [symmetric] False this] step False q(1) show ?thesis by auto
  qed
qed auto

text \<open>What a read is judged on is bounded and is what is read: the candidates of a tool call are distinct, at most
  64, and each is a regular file that is not skipped for its suffix; every file that an argument stands for is
  among them unless the ceiling is reached.\<close>

theorem candidates_are_files:
  assumes "candidate_paths px tool args = Some ps"
  shows "distinct ps \<and> length ps \<le> 64 \<and> (\<forall>p \<in> set ps. served_file px p)
    \<and> (\<forall>item \<in> set (raw_paths px tool args). \<forall>qs. expand_item px item = Some qs \<longrightarrow> set qs \<subseteq> set ps \<or> length ps = 64)"
  using collect_files [of px "[]" "raw_paths px tool args" ps] assms by (simp add: candidate_paths_def MAX_FILES_def)

section \<open>Plain command lines\<close>

definition plain_chars :: "pystr \<Rightarrow> bool" where
  \<comment> \<open>no blank, quote, \<open>&\<close>, \<open>|\<close>, \<open>;\<close>, \<open><\<close> or \<open>>\<close>\<close>
  "plain_chars w \<longleftrightarrow> w \<noteq> [] \<and> (\<forall>c \<in> set w. \<not> is_space c \<and> c \<notin> {34, 39, 38, 124, 59, 60, 62})"

definition plain_word :: "pystr \<Rightarrow> bool" where
  "plain_word w \<longleftrightarrow> plain_chars w \<and> hd w \<noteq> 45"

fun command_line :: "pystr list \<Rightarrow> pystr" where
  "command_line [] = []"
| "command_line [w] = w"
| "command_line (w # v # ws) = w @ 32 # command_line (v # ws)"

lemma split_pair_absent: "c \<notin> set s \<Longrightarrow> split_pair c s = [s]"
  by (induction c s rule: split_pair.induct) auto

lemma split_on_absent: "c \<notin> set s \<Longrightarrow> split_on c s = [s]"
  by (induction s) auto

lemma in_spaced: "c \<in> set (command_line ws) \<Longrightarrow> c = 32 \<or> (\<exists>w \<in> set ws. c \<in> set w)"
  by (induction ws rule: command_line.induct) auto

lemma spaced_Cons: "command_line (w # ws) = w @ (if ws = [] then [] else 32 # command_line ws)"
  by (cases ws) simp_all

lemma plain_not_space: "plain_chars w \<Longrightarrow> c \<in> set w \<Longrightarrow> \<not> is_space c \<and> \<not> lex_space c"
proof -
  have "lex_space c \<Longrightarrow> is_space c" unfolding lex_space_def is_space_def by auto
  moreover assume "plain_chars w" "c \<in> set w"
  then have "\<not> is_space c" unfolding plain_chars_def by blast
  ultimately show ?thesis by blast
qed

lemma strip_plain: "plain_chars w \<Longrightarrow> strip w = w"
proof -
  assume w: "plain_chars w"
  then have ends: "w \<noteq> []" "\<not> is_space (hd w)" "\<not> is_space (last w)" by (simp_all add: plain_chars_def)
  then have "lstrip w = w" by (cases w) (simp_all add: lstrip_def)
  moreover have "lstrip (rev w) = rev w" using ends by (cases w rule: rev_cases) (simp_all add: lstrip_def)
  ultimately show ?thesis by (simp add: strip_def)
qed

lemma strip_char_plain: "plain_chars w \<Longrightarrow> c \<in> {34, 39} \<Longrightarrow> strip_char c w = w"
proof -
  assume w: "plain_chars w" and c: "c \<in> {34, 39}"
  then have "c \<notin> set w" by (auto simp: plain_chars_def)
  then have "dropWhile (\<lambda>d. d = c) v = v" if "set v \<subseteq> set w" for v
    using that by (cases v) auto
  then show ?thesis by (simp add: strip_char_def)
qed

lemma lex_word: "(\<forall>c \<in> set w. \<not> lex_space c) \<Longrightarrow>
    lex (Word t) (w @ r) = (if r = [] then Some [t @ w] else lex (Word (t @ w)) r)"
proof (induction w arbitrary: t)
  case Nil
  then show ?case by (cases r) simp_all
next
  case (Cons c w)
  from Cons.IH [of "t @ [c]"] Cons.prems show ?case by simp
qed

lemma shell_words_spaced:
  assumes "\<forall>w \<in> set ws. plain_chars w"
  shows "shell_words (command_line ws) = Some ws"
  using assms unfolding shell_words_def
proof (induction ws)
  case (Cons w ws)
  from Cons.prems have w: "plain_chars w" by simp
  then obtain c v where cv: "w = c # v" "\<not> lex_space c" "c \<noteq> 34" "c \<noteq> 39" "\<forall>d \<in> set v. \<not> lex_space d"
    using plain_not_space [OF w] by (cases w) (auto simp: plain_chars_def)
  have "lex Blank (command_line (w # ws)) = lex (Word [c]) (v @ (if ws = [] then [] else 32 # command_line ws))"
    unfolding spaced_Cons using cv(2-4) by (simp add: cv(1))
  also have "\<dots> = (if ws = [] then Some [w] else lex (Word w) (32 # command_line ws))"
    using cv(1,5) by (simp add: lex_word)
  also have "\<dots> = Some (w # ws)" using Cons by (simp add: lex_space_def)
  finally show ?case .
qed simp

lemma strip_spaced:
  assumes "\<forall>w \<in> set ws. plain_chars w" "ws \<noteq> []"
  shows "strip (command_line ws) = command_line ws \<and> command_line ws \<noteq> []"
proof -
  have ends: "command_line ws \<noteq> [] \<and> \<not> is_space (hd (command_line ws)) \<and> \<not> is_space (last (command_line ws))"
    using assms
  proof (induction ws rule: command_line.induct)
    case (3 w v ws)
    then have w: "w \<noteq> []" "\<not> is_space (hd w)" and "command_line (v # ws) \<noteq> []" "\<not> is_space (last (command_line (v # ws)))"
      by (simp_all add: plain_chars_def)
    then show ?case by simp
  qed (simp_all add: plain_chars_def)
  then have "lstrip (command_line ws) = command_line ws" by (cases "command_line ws") (simp_all add: lstrip_def)
  moreover have "lstrip (rev (command_line ws)) = rev (command_line ws)"
    using ends by (cases "command_line ws" rule: rev_cases) (simp_all add: lstrip_def)
  ultimately show ?thesis using ends by (simp add: strip_def)
qed

lemma split_commands_spaced:
  assumes "\<forall>w \<in> set ws. plain_chars w" "ws \<noteq> []"
  shows "split_commands (command_line ws) = [command_line ws]"
proof -
  have "c \<notin> set (command_line ws)" if "c \<in> {38, 124, 59, 10}" for c
  proof
    assume "c \<in> set (command_line ws)"
    with that in_spaced [of c ws] obtain w where "w \<in> set ws" "c \<in> set w" by auto
    with assms(1) have "\<not> is_space c" "c \<notin> {38, 124, 59}" unfolding plain_chars_def by auto
    with that show False by (auto simp: is_space_def)
  qed
  then show ?thesis using strip_spaced [OF assms] by (simp add: split_commands_def split_pair_absent split_on_absent)
qed

lemma plain_first:
  assumes "plain_chars w" "c \<in> {60, 62, 124}"
  shows "\<not> starts_with [c] w" "w \<noteq> c # r"
  using assms by (cases w; auto simp: plain_chars_def starts_with_def)+

lemma redirect_sources_plain: "\<forall>w \<in> set ws. plain_chars w \<Longrightarrow> redirect_sources ws = []"
  by (induction ws) (simp_all add: plain_first)

lemma plain_argument:
  assumes "plain_word w"
  shows "w \<notin> {[62], [62, 62], [49, 62], [50, 62], [38, 62], [124]} \<and> \<not> starts_with [62] w \<and> \<not> starts_with [45] w \<and> w \<noteq> [60]"
proof -
  from assms have "w \<noteq> []" "62 \<notin> set w" "124 \<notin> set w" "60 \<notin> set w" "hd w \<noteq> 45"
    unfolding plain_word_def plain_chars_def by auto
  then show ?thesis by (cases w) (auto simp: starts_with_def)
qed

lemma reader_arguments_plain: "\<forall>w \<in> set ws. plain_word w \<Longrightarrow> reader_arguments False ws = ws"
proof (induction ws)
  case (Cons w ws)
  with plain_argument [of w] show ?case by simp
qed simp

lemma bash_paths_plain:
  assumes "plain_chars verb" "px_lower px (path_name verb) \<in> set READERS" "\<forall>w \<in> set ws. plain_word w"
  shows "bash_paths px (command_line (verb # ws)) = ws"
proof -
  have plain: "\<forall>w \<in> set (verb # ws). plain_chars w" using assms(1,3) by (auto simp: plain_word_def)
  have "split_commands (command_line (verb # ws)) = [command_line (verb # ws)]" by (rule split_commands_spaced [OF plain]) simp
  moreover have "part_paths px (command_line (verb # ws)) = ws"
    using assms(1,2) reader_arguments_plain [OF assms(3)]
    by (simp add: part_paths_def shell_words_spaced [OF plain] redirect_sources_plain [OF plain] strip_char_plain
        del: redirect_sources.simps)
  ultimately show ?thesis by (simp add: bash_paths_def)
qed

lemma expand_plain:
  assumes "plain_word w" "px_home px w = Expanded p" "served_file px p"
  shows "expand_item px w = Some [p]"
  using assms by (auto simp: plain_word_def expand_item_def strip_plain strip_char_plain served_file_def Let_def plain_chars_def)

lemma collect_Some: "\<forall>item \<in> set items. expand_item px item \<noteq> None \<Longrightarrow> \<exists>ps. collect px found items = Some ps"
proof (induction items arbitrary: found)
  case (Cons item items)
  then show ?case by (cases "add_paths found (the (expand_item px item))") auto
qed simp

text \<open>A file named in a plain reading command is judged: when the command line is a reading command with words free
  of quotes, operators and options, and each \<open>~\<close> in it is a known home, then every readable file one of the words
  stands for is among the candidates, unless there are 64 already.\<close>

lemma named_file_is_candidate:
  assumes "plain_chars verb" "px_lower px (path_name verb) \<in> set READERS" "\<forall>w \<in> set ws. plain_word w \<and> px_home px w \<noteq> NoHome"
    and "str_or (px_repr px) [''command''] args = command_line (verb # ws)"
    and "w \<in> set ws" "px_home px w = Expanded p" "served_file px p"
  shows "\<exists>ps. candidate_paths px (tx ''Bash'') args = Some ps \<and> (p \<in> set ps \<or> length ps = 64)"
proof -
  have raw: "raw_paths px (tx ''Bash'') args = ws"
    using bash_paths_plain [OF assms(1,2)] assms(3,4) by (simp add: raw_paths_def)
  have "expand_item px v \<noteq> None" if "v \<in> set ws" for v
    using that assms(3)
    by (auto simp: expand_item_def strip_plain strip_char_plain plain_word_def Let_def split: home_path.splits)
  then obtain ps where ps: "candidate_paths px (tx ''Bash'') args = Some ps"
    using collect_Some [of ws px "[]"] unfolding candidate_paths_def raw by blast
  have "expand_item px w = Some [p]" using assms(3,5-7) by (simp add: expand_plain)
  moreover have "\<forall>item \<in> set ws. \<forall>qs. expand_item px item = Some qs \<longrightarrow> set qs \<subseteq> set ps \<or> length ps = MAX_FILES"
    using collect_files [OF ps [unfolded candidate_paths_def raw]] by (simp add: MAX_FILES_def)
  ultimately show ?thesis using assms(5) ps by (auto simp: MAX_FILES_def)
qed

section \<open>Samples\<close>

definition sample_paths :: path_env where
  \<comment> \<open>every file exists, \<open>~u\<close> is nobody's home\<close>
  "sample_paths = \<lparr>px_lower = map to_lower, px_repr = \<lambda>_. [], px_home = \<lambda>s. if s = tx ''~u'' then NoHome else Expanded s,
     px_stat = \<lambda>s. if s = tx ''dir'' then Some Directory else if s = tx ''locked'' then None else Some RegularFile,
     px_tree = \<lambda>_. Some [tx ''a.txt'', tx ''locked'']\<rparr>"

definition sample_line :: "string \<Rightarrow> tool_args" where
  "sample_line s = [(tx ''command'', PStr (tx s))]"

lemma candidates_are_files_witness:
  "\<exists>ps. candidate_paths sample_paths (tx ''Bash'') (sample_line ''cat a.txt b.png'') = Some ps \<and> ps = [tx ''a.txt''] \<and> distinct ps \<and> length ps \<le> 64"
proof -
  have "candidate_paths sample_paths (tx ''Bash'') (sample_line ''cat a.txt b.png'') = Some [tx ''a.txt'']" by code_simp
  with candidates_are_files [OF this] show ?thesis by blast
qed

section \<open>What hides a file\<close>

text \<open>An operator inside quotes splits the command, so the quotes do not close and the part is passed over.\<close>

lemma quoted_operator_hides_file:
  "candidate_paths sample_paths (tx ''Bash'') (sample_line ''grep KEY .env'') = Some [tx ''KEY'', tx ''.env'']"
  "candidate_paths sample_paths (tx ''Bash'') (sample_line ''grep 'KEY|TOKEN' .env'') = Some []"
  by code_simp+

text \<open>A redirect that follows its command without a blank is part of one word, and no redirect.\<close>

lemma glued_redirect_hides_file:
  "candidate_paths sample_paths (tx ''Bash'') (sample_line ''cat < .env'') = Some [tx ''.env'']"
  "candidate_paths sample_paths (tx ''Bash'') (sample_line ''cat<.env'') = Some []"
  by code_simp+

text \<open>An argument with an unknown home raises past \<open>_expand\<close>, and with it every other file of the call is lost.\<close>

lemma unknown_home_hides_all_files:
  "candidate_paths sample_paths (tx ''Bash'') (sample_line ''cat ~u .env'') = None"
  by code_simp

text \<open>One entry that cannot be examined hides the directory it is in.\<close>

lemma locked_entry_hides_directory:
  assumes "px_tree px p = Some tree" "e \<in> set (take (MAX_FILES * 4) tree)" "px_stat px e = None"
  shows "expand_dir px p = []"
  using assms by (auto simp: expand_dir_def list_ex_iff Let_def)

end
