(* ===== verification/Daemon.thy ===== *)
theory Daemon
  imports CallState
begin

text \<open>
  What the warm checker answers (\<open>check\<close> and \<open>check_tool\<close> of \<^verbatim>\<open>gateway/daemon.py\<close>, \<open>harvest\<close> of
  \<^verbatim>\<open>hooks/zt_pretool.py\<close>): a prompt or a tool call is scanned by itself and then joined with what the
  session carried, the tail of the last prompts or the pieces written to the same destination. One scan of
  a text is the parameter \<open>scan\<close> (the checker and the learning plane behind it are modelled elsewhere or
  cannot change the answer); requests come one at a time.
\<close>

section \<open>Harvesting a call's text\<close>

definition INTERESTING :: "(pystr \<times> string list) list" where
  "INTERESTING =
     [(tx ''Bash'', [''command'']), (tx ''Write'', [''content'', ''file_path'']), (tx ''Edit'', [''new_string'', ''old_string'']),
      (tx ''NotebookEdit'', [''new_source'']), (tx ''WebFetch'', [''url'', ''prompt'']), (tx ''WebSearch'', [''query'']),
      (tx ''apply_patch'', [''command''])]"

definition SKIP :: "pystr set" where
  "SKIP = {tx ''Read'', tx ''Glob'', tx ''Grep'', tx ''TodoWrite'', tx ''Task''}"

fun strings_of :: "nat \<Rightarrow> pyval \<Rightarrow> pystr list" where
  \<comment> \<open>\<open>_strings\<close>, with \<open>5 - depth\<close> as the levels left\<close>
  "strings_of 0 v = []"
| "strings_of (Suc n) (PStr s) = [s]"
| "strings_of (Suc n) (PDict d) = concat (map (\<lambda>kv. strings_of n (snd kv)) d)"
| "strings_of (Suc n) (PList xs) = concat (map (strings_of n) xs)"
| "strings_of (Suc n) (PAtom s b) = []"

fun join_lines :: "pystr list \<Rightarrow> pystr" where
  "join_lines [] = []"
| "join_lines [s] = s"
| "join_lines (s # ss) = s @ 10 # join_lines ss"

definition harvest :: "pystr \<Rightarrow> tool_args \<Rightarrow> pystr" where
  "harvest tool args =
     (if tool \<in> SKIP then []
      else case map_of INTERESTING tool of
        None \<Rightarrow> if starts_with (tx ''mcp__'') tool then join_lines (strings_of 5 (PDict args)) else []
      | Some names \<Rightarrow>
          join_lines (List.map_filter (\<lambda>f. case map_of args (tx f) of Some (PStr s) \<Rightarrow> Some s | _ \<Rightarrow> None) names))"

section \<open>Answers\<close>

record daemon_answer =
  an_allow :: bool
  an_reason :: pystr
  an_classes :: "pystr list"
  an_split :: bool

definition nothing_found :: daemon_answer where
  "nothing_found = \<lparr>an_allow = True, an_reason = [], an_classes = [], an_split = False\<rparr>"

record daemon_env =
  de_scan :: "pystr \<Rightarrow> daemon_answer"
  de_H :: "pybytes \<Rightarrow> pybytes"
  de_uw :: "nat \<Rightarrow> bool"
  de_repr :: "pyval \<Rightarrow> pystr"

definition prompt_bridged :: "daemon_env \<Rightarrow> io_env \<Rightarrow> pystr \<Rightarrow> pystr \<Rightarrow> state_dir \<Rightarrow> pystr \<times> state_dir" where
  \<comment> \<open>\<open>window.bridge\<close>, with any exception read as nothing carried\<close>
  "prompt_bridged de io session text dir =
     (case prompt_bridge (de_H de) io DEFAULT_WINDOW DEFAULT_TTL_S session text dir of None \<Rightarrow> ([], dir) | Some r \<Rightarrow> r)"

definition prompt_remembered :: "daemon_env \<Rightarrow> io_env \<Rightarrow> pystr \<Rightarrow> pystr \<Rightarrow> state_dir \<Rightarrow> state_dir" where
  "prompt_remembered de io session text dir =
     (case prompt_remember (de_H de) io DEFAULT_WINDOW DEFAULT_TTL_S MAX_PROMPT_TURNS session text dir of
        None \<Rightarrow> dir | Some d \<Rightarrow> d)"

definition check_prompt :: "daemon_env \<Rightarrow> io_env \<Rightarrow> pystr \<Rightarrow> pystr \<Rightarrow> state_dir \<Rightarrow> daemon_answer \<times> state_dir" where
  \<comment> \<open>\<open>check\<close>; the clear succeeds whenever the bridge found the file\<close>
  "check_prompt de io text session dir =
     (if strip text = [] then (nothing_found, dir)
      else let result = de_scan de text in
        if \<not> an_allow result \<or> session = [] then (result, dir)
        else case prompt_bridged de io session text dir of
          (joined, dir) \<Rightarrow>
            if joined \<noteq> [] \<and> \<not> an_allow (de_scan de joined)
            then ((de_scan de joined)\<lparr>an_split := True\<rparr>,
              case prompt_clear (de_H de) io session dir of None \<Rightarrow> dir | Some d \<Rightarrow> d)
            else (result, prompt_remembered de io session text dir))"

definition check_tool :: "daemon_env \<Rightarrow> io_env \<Rightarrow> pystr \<Rightarrow> tool_args \<Rightarrow> pystr \<Rightarrow> state_dir \<Rightarrow> daemon_answer \<times> state_dir" where
  "check_tool de io tool args session dir =
     (let text = harvest tool args in
      if strip text = [] then (nothing_found, dir)
      else let result = de_scan de text in
        if \<not> an_allow result \<or> session = [] then (result, dir)
        else case sink_add (de_H de) io DEFAULT_TTL_S session (sink_of (de_uw de) (de_repr de) tool args)
            (payload_of (de_repr de) tool args) dir of
          Some (Some joined, dir) \<Rightarrow>
            if joined \<noteq> [] \<and> \<not> an_allow (de_scan de joined) then ((de_scan de joined)\<lparr>an_split := True\<rparr>, dir) else (result, dir)
        | Some (None, dir) \<Rightarrow> (result, dir)
        | None \<Rightarrow> (result, dir))"

datatype request = Prompt pystr pystr | ToolCall pystr tool_args pystr

fun serve :: "daemon_env \<Rightarrow> io_env \<times> request \<Rightarrow> state_dir \<Rightarrow> daemon_answer \<times> state_dir" where
  "serve de (io, Prompt text session) dir = check_prompt de io text session dir"
| "serve de (io, ToolCall tool args session) dir = check_tool de io tool args session dir"

fun serve_all :: "daemon_env \<Rightarrow> (io_env \<times> request) list \<Rightarrow> state_dir \<Rightarrow> daemon_answer list \<times> state_dir" where
  "serve_all de [] dir = ([], dir)"
| "serve_all de (r # rs) dir =
     (case serve de r dir of (a, dir) \<Rightarrow> case serve_all de rs dir of (as, dir) \<Rightarrow> (a # as, dir))"

section \<open>What is kept on disk is small\<close>

fun doc_small :: "file_doc \<Rightarrow> bool" where
  "doc_small (FragDoc ps) \<longleftrightarrow> length ps \<le> MAX_PIECES \<and> total_length ps \<le> MAX_ASSEMBLY"
| "doc_small (TailDoc tail turns) \<longleftrightarrow> length tail \<le> DEFAULT_WINDOW \<and> turns \<le> MAX_PROMPT_TURNS"
| "doc_small d = True"

definition dir_small :: "state_dir \<Rightarrow> bool" where
  "dir_small dir \<longleftrightarrow> (\<forall>p f. map_of dir p = Some f \<longrightarrow> doc_small (sf_doc f))"

lemma dir_small_unlink: "dir_small dir \<Longrightarrow> dir_small (unlink io p dir)"
  by (auto simp: dir_small_def unlink_def delete_conv split: if_splits)

lemma dir_small_write: "dir_small dir \<Longrightarrow> doc_small doc \<Longrightarrow> dir_small (write_file io p doc dir)"
  by (auto simp: dir_small_def write_file_def split: if_splits)

lemma read_file_small:
  assumes "read_file io ttl p dir = (r, dir')" "dir_small dir"
  shows "dir_small dir' \<and> (\<forall>d. r = Some d \<longrightarrow> doc_small d)"
  using assms by (auto simp: read_file_def dir_small_unlink split: option.splits if_splits) (auto simp: dir_small_def)

lemma total_length_simps [simp]:
  "total_length [] = 0" "total_length (p # ps) = length p + total_length ps"
  "total_length (xs @ ys) = total_length xs + total_length ys"
  by (simp_all add: total_length_def)

lemma trim_pieces_small:
  "\<forall>p \<in> set ps. length p \<le> MAX_ASSEMBLY \<Longrightarrow> total_length (trim_pieces ps) \<le> MAX_ASSEMBLY \<and> length (trim_pieces ps) \<le> length ps"
proof (induction ps rule: trim_pieces.induct)
  case (1 p q ps)
  then show ?case by auto
qed auto

lemma piece_le_total: "p \<in> set ps \<Longrightarrow> length p \<le> total_length ps"
  by (induction ps) auto

lemma set_last_n: "set (last_n n xs) \<subseteq> set xs"
  by (auto simp: last_n_def dest: in_set_dropD)

lemma sink_add_small:
  assumes "sink_add H io ttl session sink payload dir = Some (j, dir')" "dir_small dir"
  shows "dir_small dir'"
proof (cases "sink = [] \<or> strip payload = []")
  case False
  with assms(1) obtain p where p: "sink_path H session sink = Some p" by (auto simp: sink_add_def)
  obtain doc dir1 where r: "read_file io ttl p dir = (doc, dir1)" by fastforce
  from read_file_small [OF r assms(2)] have d1: "dir_small dir1" and small: "\<And>d. doc = Some d \<Longrightarrow> doc_small d" by auto
  let ?pieces = "case doc of Some (FragDoc xs) \<Rightarrow> xs | _ \<Rightarrow> []"
  have old: "length q \<le> MAX_ASSEMBLY" if "q \<in> set ?pieces" for q
  proof -
    from that obtain xs where "doc = Some (FragDoc xs)" "q \<in> set xs" by (auto split: option.splits file_doc.splits)
    with small piece_le_total [of q xs] show ?thesis by fastforce
  qed
  have "length q \<le> MAX_ASSEMBLY" if "q \<in> set (last_n MAX_PIECES (?pieces @ [take MAX_ASSEMBLY payload]))" for q
  proof -
    from that set_last_n have "q \<in> set (?pieces @ [take MAX_ASSEMBLY payload])" by (rule rev_subsetD)
    then have "q \<in> set ?pieces \<or> q = take MAX_ASSEMBLY payload" by (simp only: set_append list.set Un_iff singleton_iff)
    then show ?thesis
    proof
      assume "q \<in> set ?pieces"
      then show ?thesis by (rule old)
    qed simp
  qed
  then have "\<forall>q \<in> set (last_n MAX_PIECES (?pieces @ [take MAX_ASSEMBLY payload])). length q \<le> MAX_ASSEMBLY" by (rule ballI)
  from trim_pieces_small [OF this] length_last_n_le [of MAX_PIECES "?pieces @ [take MAX_ASSEMBLY payload]"]
  have "doc_small (FragDoc (trim_pieces (last_n MAX_PIECES (?pieces @ [take MAX_ASSEMBLY payload]))))"
    by (simp add: MAX_PIECES_def)
  from dir_small_write [OF d1 this] assms(1) False p r d1 show ?thesis
    by (auto simp: sink_add_def sink_load_def Let_def split: if_splits)
qed (use assms in \<open>auto simp: sink_add_def\<close>)

lemma length_last_n_window: "length (last_n DEFAULT_WINDOW xs) \<le> DEFAULT_WINDOW"
  by (rule length_last_n_le) (simp add: DEFAULT_WINDOW_def)

lemma prompt_load_small:
  assumes "prompt_load io DEFAULT_WINDOW ttl p dir = ((tail, turns), dir')" "dir_small dir"
  shows "dir_small dir' \<and> turns \<le> MAX_PROMPT_TURNS"
proof -
  obtain doc d where r: "read_file io ttl p dir = (doc, d)" by fastforce
  from read_file_small [OF r assms(2)] assms(1) show ?thesis
    by (auto simp: prompt_load_def r split: option.splits file_doc.splits)
qed

lemma prompt_bridged_small: "dir_small dir \<Longrightarrow> dir_small (snd (prompt_bridged de io session text dir))"
  unfolding prompt_bridged_def prompt_bridge_def
  using prompt_load_small by (auto split: option.splits prod.splits)

lemma prompt_remembered_small:
  assumes "dir_small dir"
  shows "dir_small (prompt_remembered de io session text dir)"
proof (cases "strip text = [] \<or> prompt_path (de_H de) session = None")
  case False
  then obtain p where p: "prompt_path (de_H de) session = Some p" by auto
  obtain tail turns d where l: "prompt_load io DEFAULT_WINDOW DEFAULT_TTL_S p dir = ((tail, turns), d)"
    using prod.exhaust by metis
  from prompt_load_small [OF l assms] have d: "dir_small d" "turns \<le> MAX_PROMPT_TURNS" by auto
  obtain tail' turns' where t: "(if MAX_PROMPT_TURNS \<le> turns then ([], 0) else (tail, turns)) = (tail', turns')"
    by fastforce
  with d(2) have "turns' + 1 \<le> MAX_PROMPT_TURNS" by (auto simp: MAX_PROMPT_TURNS_def split: if_splits)
  then have "doc_small (TailDoc (last_n DEFAULT_WINDOW (tail' @ text)) (turns' + 1))" by (simp add: length_last_n_window)
  from dir_small_write [OF d(1) this] show ?thesis
    using False by (simp add: prompt_remembered_def prompt_remember_def p l t)
qed (use assms in \<open>auto simp: prompt_remembered_def prompt_remember_def\<close>)

lemma serve_small: "dir_small dir \<Longrightarrow> dir_small (snd (serve de r dir))"
proof (induction de r dir rule: serve.induct)
  case (1 de io prompt session dir)
  obtain j d where b: "prompt_bridged de io session prompt dir = (j, d)" by fastforce
  with prompt_bridged_small [OF 1, of de io session prompt] have "dir_small d" by simp
  with 1 b show ?case
    by (auto simp: check_prompt_def prompt_clear_def prompt_remembered_small dir_small_unlink Let_def split: option.splits)
next
  case (2 de io tool args session dir)
  then show ?case
    using sink_add_small [of "de_H de" io DEFAULT_TTL_S session "sink_of (de_uw de) (de_repr de) tool args"
        "payload_of (de_repr de) tool args" dir]
    by (auto simp: check_tool_def Let_def split: option.splits)
qed

text \<open>C19. However many prompts and tool calls are checked, and whatever the file system does meanwhile, every
  state file stays small: at most twelve pieces of together at most 512 characters for a destination, a
  tail of at most 64 characters spanning at most three prompts for a session.\<close>

theorem carried_state_is_bounded:
  "dir_small (snd (serve_all de rs []))"
proof -
  have all: "dir_small dir \<Longrightarrow> dir_small (snd (serve_all de rs dir))" for dir
  proof (induction rs arbitrary: dir)
    case (Cons r rs)
    from serve_small [OF Cons.prems, of de r] Cons.IH show ?case by (auto split: prod.splits) (metis snd_conv)
  qed simp
  show ?thesis by (rule all) (simp add: dir_small_def)
qed

section \<open>A credential split across requests is seen whole\<close>

definition reliable :: "io_env \<Rightarrow> bool" where
  "reliable io \<longleftrightarrow> io_read io \<and> io_write io"

definition flags :: "daemon_env \<Rightarrow> pystr \<Rightarrow> bool" where
  \<comment> \<open>the scanner stops every text the credential occurs in\<close>
  "flags de k \<longleftrightarrow> (\<forall>x. contains k x \<longrightarrow> \<not> an_allow (de_scan de x))"

lemma last_n_suffix_kept: "length ys \<le> n \<Longrightarrow> \<exists>zs. last_n n (xs @ ys) = zs @ ys"
  by (auto simp: last_n_def)

lemma last_n_idem: "last_n n (last_n n xs) = last_n n xs"
  by (auto simp: last_n_def)

lemma contains_middle: "contains k (xs @ k @ ys)"
  unfolding contains_iff_sublist by blast

lemma strip_nonempty: "strip s \<noteq> [] \<Longrightarrow> s \<noteq> []"
  by (auto simp: strip_def lstrip_def)

lemma prompt_remembered_tail:
  assumes "prompt_path (de_H de) session = Some p" "strip prompt \<noteq> []" "reliable io"
  shows "\<exists>tail turns. map_of (prompt_remembered de io session prompt dir) p
    = Some \<lparr>sf_mtime = io_now io, sf_doc = TailDoc (last_n DEFAULT_WINDOW (tail @ prompt)) turns\<rparr>"
proof -
  obtain tail turns d where l: "prompt_load io DEFAULT_WINDOW DEFAULT_TTL_S p dir = ((tail, turns), d)"
    using prod.exhaust by metis
  obtain tail' turns' where t: "(if MAX_PROMPT_TURNS \<le> turns then ([], 0) else (tail, turns)) = (tail', turns')"
    by fastforce
  have "prompt_remembered de io session prompt dir
      = write_file io p (TailDoc (last_n DEFAULT_WINDOW (tail' @ prompt)) (turns' + 1)) d"
    using assms(2) by (simp add: prompt_remembered_def prompt_remember_def assms(1) l t)
  then show ?thesis using assms(3)
    by (intro exI [of _ tail'] exI [of _ "turns' + 1"]) (simp add: write_file_def reliable_def)
qed

text \<open>C18. A credential typed in two halves at the end of one prompt and the start of the next is stopped, though
  neither prompt is stopped by itself: if the scanner stops every text the whole credential occurs in, one
  of the two answers is a refusal, provided the halves fit the window and the prompts come within an hour.\<close>

theorem split_prompt_is_stopped:
  assumes "flags de (k1 @ k2)" "length k1 \<le> DEFAULT_WINDOW" "length k2 \<le> DEFAULT_WINDOW"
    and "strip (a @ k1) \<noteq> []" "strip (k2 @ b) \<noteq> []" "session \<noteq> []" "prompt_path (de_H de) session \<noteq> None"
    and "reliable io" "reliable io'" "io_now io' - io_now io \<le> of_nat DEFAULT_TTL_S"
  shows "\<exists>x \<in> set (fst (serve_all de [(io, Prompt (a @ k1) session), (io', Prompt (k2 @ b) session)] dir)). \<not> an_allow x"
proof -
  from assms(7) obtain p where p: "prompt_path (de_H de) session = Some p" by auto
  obtain x1 d1 where c1: "check_prompt de io (a @ k1) session dir = (x1, d1)" by fastforce
  obtain x2 d2 where c2: "check_prompt de io' (k2 @ b) session d1 = (x2, d2)" by fastforce
  have "\<not> an_allow x1 \<or> \<not> an_allow x2"
  proof (rule ccontr)
    assume "\<not> ?thesis"
    then have ok: "an_allow x1" "an_allow x2" by simp_all
    obtain j e where j: "prompt_bridged de io session (a @ k1) dir = (j, e)" by fastforce
    from c1 ok(1) assms(4,6) j have "d1 = prompt_remembered de io session (a @ k1) e"
      by (auto simp: check_prompt_def Let_def split: if_splits)
    with prompt_remembered_tail [OF p assms(4,8), of e] obtain tail turns where
      f: "map_of d1 p = Some \<lparr>sf_mtime = io_now io, sf_doc = TailDoc (last_n DEFAULT_WINDOW (tail @ a @ k1)) turns\<rparr>" by auto
    from last_n_suffix_kept [OF assms(2), of "tail @ a"] obtain zs where zs: "last_n DEFAULT_WINDOW (tail @ a @ k1) = zs @ k1" by auto
    have "length (zs @ k1) = min DEFAULT_WINDOW (length (tail @ a @ k1))"
      unfolding zs [symmetric] by (rule length_last_n) (simp add: DEFAULT_WINDOW_def)
    with strip_nonempty [OF assms(4)] have ne: "zs @ k1 \<noteq> []" by (auto simp: DEFAULT_WINDOW_def min_def split: if_splits)
    have "prompt_bridged de io' session (k2 @ b) d1 = ((zs @ k1) @ take DEFAULT_WINDOW (k2 @ b), d1)"
      using f p ne assms(5,9,10) last_n_idem [of DEFAULT_WINDOW "tail @ a @ k1"]
      by (auto simp: prompt_bridged_def prompt_bridge_def prompt_load_def read_file_def reliable_def zs)
    moreover have "(zs @ k1) @ take DEFAULT_WINDOW (k2 @ b) = zs @ (k1 @ k2) @ take (DEFAULT_WINDOW - length k2) b"
      using assms(3) by simp
    moreover have "\<not> an_allow (de_scan de (zs @ (k1 @ k2) @ take (DEFAULT_WINDOW - length k2) b))"
      using assms(1) contains_middle unfolding flags_def by blast
    ultimately have "\<not> an_allow x2"
      using c2 ne assms(5,6) by (auto simp: check_prompt_def Let_def split: if_splits)
    with ok(2) show False by simp
  qed
  then show ?thesis by (auto simp: c1 c2)
qed

definition writes_to :: "daemon_env \<Rightarrow> pystr \<Rightarrow> pystr \<Rightarrow> io_env \<times> request \<Rightarrow> pystr \<Rightarrow> bool" where
  \<comment> \<open>a tool call of the session that writes this payload to this destination\<close>
  "writes_to de session sink r payload \<longleftrightarrow> reliable (fst r) \<and> strip payload \<noteq> [] \<and>
     (\<exists>tool args. snd r = ToolCall tool args session \<and> sink_of (de_uw de) (de_repr de) tool args = sink
        \<and> payload_of (de_repr de) tool args = payload \<and> strip (harvest tool args) \<noteq> [])"

fun spaced :: "(io_env \<times> request) list \<Rightarrow> bool" where
  "spaced (r # s # rs) \<longleftrightarrow> io_now (fst s) - io_now (fst r) \<le> of_nat DEFAULT_TTL_S \<and> spaced (s # rs)"
| "spaced rs = True"

definition stored_pieces :: "pystr \<Rightarrow> pystr list \<Rightarrow> rat \<Rightarrow> state_dir \<Rightarrow> bool" where
  "stored_pieces p ps now dir \<longleftrightarrow>
     (if ps = [] then map_of dir p = None
      else \<exists>f. map_of dir p = Some f \<and> sf_doc f = FragDoc ps \<and> now - sf_mtime f \<le> of_nat DEFAULT_TTL_S)"

lemma trim_pieces_id: "total_length ps \<le> MAX_ASSEMBLY \<Longrightarrow> trim_pieces ps = ps"
  by (cases ps rule: trim_pieces.cases) auto

lemma sink_load_stored:
  "stored_pieces p ps (io_now io) dir \<Longrightarrow> reliable io \<Longrightarrow> sink_load io DEFAULT_TTL_S p dir = (ps, dir)"
  by (auto simp: stored_pieces_def sink_load_def read_file_def reliable_def split: if_splits)

lemma sink_add_next:
  assumes st: "stored_pieces p ps (io_now io) dir" and io: "reliable io" and path: "sink_path H session sink = Some p"
    and "sink \<noteq> []" "strip payload \<noteq> []" "ps = [] \<longrightarrow> fragments_of payload DEFAULT_WINDOW None \<noteq> []"
    and small: "length (ps @ [payload]) \<le> MAX_PIECES" "total_length (ps @ [payload]) \<le> MAX_ASSEMBLY"
  shows "sink_add H io DEFAULT_TTL_S session sink payload dir
    = Some (if ps = [] then None else Some (concat (ps @ [payload])), write_file io p (FragDoc (ps @ [payload])) dir)"
proof -
  have "take MAX_ASSEMBLY payload = payload" using small(2) by simp
  moreover have "last_n MAX_PIECES (ps @ [payload]) = ps @ [payload]" by (rule last_n_short [OF small(1)])
  ultimately show ?thesis
    using assms(4-6) path sink_load_stored [OF st io] trim_pieces_id [OF small(2)]
    by (cases ps) (auto simp: sink_add_def Let_def)
qed

lemma written_pieces: "reliable io \<Longrightarrow> now - io_now io \<le> of_nat DEFAULT_TTL_S \<Longrightarrow> ps \<noteq> []
    \<Longrightarrow> stored_pieces p ps now (write_file io p (FragDoc ps) dir)"
  by (simp add: stored_pieces_def write_file_def reliable_def)

lemma split_write_steps:
  assumes "flags de k" "list_all2 (writes_to de session sink) rs ps" "spaced rs"
    and "sink \<noteq> []" "session \<noteq> []" "sink_path (de_H de) session sink = Some p"
    and "stored_pieces p sofar (io_now (fst (hd rs))) dir" "ps \<noteq> []" "2 \<le> length (sofar @ ps)"
    and "sofar = [] \<longrightarrow> fragments_of (hd ps) DEFAULT_WINDOW None \<noteq> []"
    and "length (sofar @ ps) \<le> MAX_PIECES" "total_length (sofar @ ps) \<le> MAX_ASSEMBLY" "contains k (concat (sofar @ ps))"
  shows "\<exists>x \<in> set (fst (serve_all de rs dir)). \<not> an_allow x"
  using assms(2,3,7-13)
proof (induction ps arbitrary: rs sofar dir rule: list.induct)
  case (Cons payload ps)
  then obtain r rs' where rs: "rs = r # rs'" and w: "writes_to de session sink r payload"
    and rest: "list_all2 (writes_to de session sink) rs' ps" by (auto simp: list_all2_Cons2)
  obtain io q where r: "r = (io, q)" by (cases r)
  from w obtain tool args where q: "q = ToolCall tool args session"
    and sink: "sink_of (de_uw de) (de_repr de) tool args = sink" and pl: "payload_of (de_repr de) tool args = payload"
    and txt': "strip (harvest tool args) \<noteq> []" and io: "reliable io" and ne: "strip payload \<noteq> []"
    by (auto simp: writes_to_def r)
  have st: "stored_pieces p sofar (io_now io) dir" using Cons.prems(3) by (simp add: rs r)
  have frag: "sofar = [] \<longrightarrow> fragments_of payload DEFAULT_WINDOW None \<noteq> []" using Cons.prems(6) by simp
  have small: "length (sofar @ [payload]) \<le> MAX_PIECES" "total_length (sofar @ [payload]) \<le> MAX_ASSEMBLY"
    using Cons.prems(7,8) by simp_all
  note add = sink_add_next [OF st io assms(6,4) ne frag small]
  obtain x d where c: "check_tool de io tool args session dir = (x, d)" by fastforce
  show ?case
  proof (cases "an_allow x")
    case False
    then show ?thesis by (auto simp: rs r q c split: prod.splits)
  next
    case True
    with c add txt' assms(5) have d: "d = write_file io p (FragDoc (sofar @ [payload])) dir"
      by (auto simp: check_tool_def Let_def sink pl split: if_splits)
    have joined: "an_allow (de_scan de (concat (sofar @ [payload])))" if "sofar \<noteq> []"
      using True c add txt' assms(5) that strip_nonempty [OF ne]
      by (auto simp: check_tool_def Let_def sink pl split: if_splits)
    have "ps \<noteq> []"
    proof
      assume "ps = []"
      with Cons.prems(5) have "sofar \<noteq> []" by auto
      with joined Cons.prems(9) \<open>ps = []\<close> assms(1) show False by (auto simp: flags_def)
    qed
    with rest obtain r' rs'' where rs': "rs' = r' # rs''" by (cases rs') auto
    have "spaced rs'" and gap: "io_now (fst (hd rs')) - io_now io \<le> of_nat DEFAULT_TTL_S"
      using Cons.prems(2) by (simp_all add: rs r rs')
    have "\<exists>x \<in> set (fst (serve_all de rs' d)). \<not> an_allow x"
      by (rule Cons.IH [OF rest \<open>spaced rs'\<close>, of "sofar @ [payload]"])
        (use written_pieces [OF io gap] \<open>ps \<noteq> []\<close> Cons.prems d in \<open>cases ps; simp\<close>)+
    then show ?thesis by (auto simp: rs r q c split: prod.splits)
  qed
qed simp

text \<open>C17. A credential written to one destination in up to twelve pieces is stopped though no single call is: if
  the scanner stops every text the whole credential occurs in, the first piece looks like the start of a
  credential and the calls come within an hour of each other, one of the answers is a refusal.\<close>

theorem split_write_is_stopped:
  assumes "flags de k" "list_all2 (writes_to de session sink) rs ps" "spaced rs" "sink \<noteq> []" "session \<noteq> []"
    and "sink_path (de_H de) session sink = Some p" "map_of dir p = None" "2 \<le> length ps" "length ps \<le> MAX_PIECES"
    and "total_length ps \<le> MAX_ASSEMBLY" "fragments_of (hd ps) DEFAULT_WINDOW None \<noteq> []" "contains k (concat ps)"
  shows "\<exists>x \<in> set (fst (serve_all de rs dir)). \<not> an_allow x"
  by (rule split_write_steps [OF assms(1-6), of "[]"]) (use assms in \<open>auto simp: stored_pieces_def\<close>)

definition demo_key :: pystr where
  "demo_key = tx ''ghp_abcdef12''"

definition demo_daemon :: daemon_env where
  "demo_daemon = \<lparr>de_scan = (\<lambda>x. nothing_found\<lparr>an_allow := \<not> contains demo_key x\<rparr>), de_H = (\<lambda>b. b), de_uw = is_alnum,
     de_repr = (\<lambda>v. [])\<rparr>"

definition demo_io :: "rat \<Rightarrow> io_env" where
  "demo_io now = \<lparr>io_now = now, io_read = True, io_unlink = True, io_write = True\<rparr>"

lemma demo_flags: "flags demo_daemon demo_key"
  by (simp add: flags_def demo_daemon_def nothing_found_def)

lemma demo_reliable: "reliable (demo_io t)"
  by (simp add: reliable_def demo_io_def)

lemma demo_short: "length x < 12 \<Longrightarrow> an_allow (de_scan demo_daemon x)"
  by (auto simp: demo_daemon_def demo_key_def contains_iff_sublist nothing_found_def)

lemma demo_paths: "prompt_path (de_H demo_daemon) (tx ''s'') \<noteq> None" "sink_path (de_H demo_daemon) (tx ''s'') (tx ''f'') \<noteq> None"
  by (simp_all add: prompt_path_def sink_path_def digest16_def utf8_encode_def encodable_def is_surrogate_def code_point_def)

lemma split_prompt_is_stopped_witness:
  "an_allow (de_scan demo_daemon (tx ''a ghp_'')) \<and> an_allow (de_scan demo_daemon (tx ''abcdef12 b''))
   \<and> (\<exists>x \<in> set (fst (serve_all demo_daemon [(demo_io 0, Prompt (tx ''a '' @ tx ''ghp_'') (tx ''s'')),
        (demo_io 5, Prompt (tx ''abcdef12'' @ tx '' b'') (tx ''s''))] [])). \<not> an_allow x)"
proof (intro conjI)
  show "an_allow (de_scan demo_daemon (tx ''a ghp_''))" "an_allow (de_scan demo_daemon (tx ''abcdef12 b''))"
    by (simp_all add: demo_short)
  have gap: "io_now (demo_io 5) - io_now (demo_io 0) \<le> of_nat DEFAULT_TTL_S"
    by (simp add: demo_io_def DEFAULT_TTL_S_def)
  have "flags demo_daemon (tx ''ghp_'' @ tx ''abcdef12'')" using demo_flags by (simp add: demo_key_def)
  then show "\<exists>x \<in> set (fst (serve_all demo_daemon [(demo_io 0, Prompt (tx ''a '' @ tx ''ghp_'') (tx ''s'')),
        (demo_io 5, Prompt (tx ''abcdef12'' @ tx '' b'') (tx ''s''))] [])). \<not> an_allow x"
  proof (rule split_prompt_is_stopped [OF _ _ _ _ _ _ _ _ _ gap])
    show "strip (tx ''a '' @ tx ''ghp_'') \<noteq> []" "strip (tx ''abcdef12'' @ tx '' b'') \<noteq> []" "tx ''s'' \<noteq> []"
      by (simp_all add: strip_def lstrip_def is_space_def)
  qed (use demo_paths(1) in \<open>simp_all add: DEFAULT_WINDOW_def demo_reliable\<close>)
qed

definition demo_command :: "pystr \<Rightarrow> pystr" where
  \<comment> \<open>a quoted payload redirected to the file \<open>f\<close>\<close>
  "demo_command piece = 39 # piece @ [39, 62, 102]"

definition demo_write :: "rat \<Rightarrow> string \<Rightarrow> io_env \<times> request" where
  "demo_write t piece = (demo_io t, ToolCall (tx ''Bash'') [(tx ''command'', PStr (demo_command (tx piece)))] (tx ''s''))"

lemma find_sink_plain: "c \<notin> {62, 116, 45} \<Longrightarrow> \<not> is_space c \<Longrightarrow> find_sink uw prev (c # r) = find_sink uw (Some c) r"
  by (auto simp: sink_at_def sink_tee_def sink_flag_def starts_with_def)

lemma find_sink_redirect: "word_of (d # t) = Some g \<Longrightarrow> d \<noteq> 62 \<Longrightarrow> find_sink uw prev (62 # d # t) = Some g"
  by (simp add: sink_at_def)

lemma demo_writes:
  assumes "piece \<in> {''ghp_'', ''abcd'', ''ef12''}"
  shows "writes_to demo_daemon (tx ''s'') (tx ''f'') (demo_write t piece) (tx piece)"
proof -
  let ?args = "[(tx ''command'', PStr (demo_command (tx piece)))]"
  have "find_sink uw None (demo_command (tx piece)) = Some (tx ''f'')" for uw
    using assms
    by (auto simp: demo_command_def find_sink_plain find_sink_redirect is_space_def word_of_def simp del: find_sink.simps)
  then have "sink_of (de_uw demo_daemon) (de_repr demo_daemon) (tx ''Bash'') ?args = tx ''f''"
    by (simp add: sink_of_def str_get_def del: find_sink.simps)
  moreover have "payload_of (de_repr demo_daemon) (tx ''Bash'') ?args = tx piece"
    using assms by (auto simp: payload_of_def str_get_def demo_command_def is_format_def)
  moreover have "strip (harvest (tx ''Bash'') ?args) \<noteq> []" "strip (tx piece) \<noteq> []"
    using assms
    by (auto simp: harvest_def SKIP_def INTERESTING_def List.map_filter_def strip_def lstrip_def is_space_def demo_command_def)
  ultimately show ?thesis by (auto simp: writes_to_def demo_write_def demo_reliable)
qed

lemma split_write_is_stopped_witness:
  "an_allow (de_scan demo_daemon (tx ''ghp_'')) \<and> an_allow (de_scan demo_daemon (tx ''abcd'')) \<and> an_allow (de_scan demo_daemon (tx ''ef12''))
   \<and> (\<exists>x \<in> set (fst (serve_all demo_daemon [demo_write 0 ''ghp_'', demo_write 5 ''abcd'', demo_write 9 ''ef12''] [])). \<not> an_allow x)"
proof (intro conjI)
  show "an_allow (de_scan demo_daemon (tx ''ghp_''))" "an_allow (de_scan demo_daemon (tx ''abcd''))"
    "an_allow (de_scan demo_daemon (tx ''ef12''))" by (simp_all add: demo_short)
  obtain p where p: "sink_path (de_H demo_daemon) (tx ''s'') (tx ''f'') = Some p" using demo_paths(2) by auto
  let ?rs = "[demo_write 0 ''ghp_'', demo_write 5 ''abcd'', demo_write 9 ''ef12'']"
  let ?ps = "[tx ''ghp_'', tx ''abcd'', tx ''ef12'']"
  have rs: "list_all2 (writes_to demo_daemon (tx ''s'') (tx ''f'')) ?rs ?ps"
    by (simp only: list_all2_Cons list_all2_Nil) (blast intro: demo_writes)
  have gaps: "spaced ?rs" by (simp add: demo_write_def demo_io_def DEFAULT_TTL_S_def)
  have frag: "fragments_of (hd ?ps) DEFAULT_WINDOW None \<noteq> []" by code_simp
  have key: "contains demo_key (concat ?ps)" using contains_middle [of demo_key "[]" "[]"] by (simp add: demo_key_def)
  show "\<exists>x \<in> set (fst (serve_all demo_daemon ?rs [])). \<not> an_allow x"
    by (rule split_write_is_stopped [OF demo_flags rs gaps _ _ p _ _ _ _ frag key])
      (simp_all add: MAX_PIECES_def MAX_ASSEMBLY_def)
qed

section \<open>Limits\<close>

text \<open>A word that merely ends in the first letters of an anchor is taken for a fragment and kept on disk.\<close>

lemma ordinary_word_is_a_fragment:
  "fragments_of (tx ''make task'') DEFAULT_WINDOW None = [tx ''task'']"
  by code_simp

text \<open>Of a long payload the first 512 characters are kept, so the half of a credential at its end, the half the
  next append continues, is dropped.\<close>

lemma long_payload_loses_its_end:
  assumes "sink_path H session sink = Some p" "map_of dir p = None" "sink \<noteq> []" "strip payload \<noteq> []"
    and "fragments_of payload DEFAULT_WINDOW None \<noteq> []" "io_write io"
  shows "\<exists>dir' f. sink_add H io DEFAULT_TTL_S session sink payload dir = Some (None, dir')
    \<and> map_of dir' p = Some f \<and> sf_doc f = FragDoc [take MAX_ASSEMBLY payload]"
  using assms by (simp add: sink_add_def sink_load_def read_file_def last_n_def MAX_PIECES_def write_file_def Let_def)

text \<open>However many fragments the risk band allows, no more than three of a stored file are read.\<close>

lemma wider_limit_has_no_effect:
  assumes "3 \<le> n"
  shows "frag_bridge H io window ttl session prompt (Some n) dir = frag_bridge H io window ttl session prompt (Some 3) dir"
proof -
  have "take n (fst (frag_load io ttl p dir)) = take 3 (fst (frag_load io ttl p dir))" for p
  proof -
    have "length (fst (frag_load io ttl p dir)) \<le> 3"
      by (auto simp: frag_load_def MAX_FRAGMENTS_def split: prod.splits option.splits file_doc.splits)
    with assms show ?thesis by simp
  qed
  with assms show ?thesis
    by (auto simp: frag_bridge_def or_limit_def split: prod.splits intro!: map_option_cong) (metis fst_conv)
qed

end
