(* ===== verification/Scanner.thy ===== *)
theory Scanner
  imports SpanModel "HOL-Library.List_Lexorder" "HOL-Library.Product_Lexorder"
begin

text \<open>
  The deterministic scan: deadlines and limits (\<^verbatim>\<open>gateway/base/budget.py\<close>), what a detector must declare
  (\<^verbatim>\<open>gateway/base/detector.py\<close>) and the pack with its three tiers (\<^verbatim>\<open>gateway/base/scanner.py\<close>). The
  readings of \<open>time.perf_counter\<close> are the parameter \<open>clock\<close>, one per checkpoint passed; the position in
  it is threaded through the scan. The regular expression engine is the parameter that a pack's
  \<open>pk_shape\<close> holds; the automaton is the source's own fallback when \<open>build_pack\<close> makes the pack. A
  detector's \<open>confirm\<close> is any function that may also read the clock or raise.
\<close>

section \<open>Deadlines and limits\<close>

record deadline =
  dl_ceiling_ms :: rat
  dl_started :: rat
  dl_cancelled :: bool

record scan_limits =
  sl_max_span_chars :: nat
  sl_max_request_chars :: nat
  sl_chunk_chars :: nat

definition default_limits :: scan_limits where
  "default_limits = \<lparr>sl_max_span_chars = 65536, sl_max_request_chars = 2000000, sl_chunk_chars = 8192\<rparr>"

definition elapsed_ms :: "deadline \<Rightarrow> rat \<Rightarrow> rat" where
  "elapsed_ms d now = (now - dl_started d) * 1000"

definition remaining_ms :: "deadline \<Rightarrow> rat \<Rightarrow> rat" where
  "remaining_ms d now = max 0 (dl_ceiling_ms d - elapsed_ms d now)"

definition expired :: "deadline \<Rightarrow> rat \<Rightarrow> bool" where
  "expired d now \<longleftrightarrow> dl_cancelled d \<or> dl_ceiling_ms d \<le> elapsed_ms d now"

definition cancel :: "deadline \<Rightarrow> deadline" where
  "cancel d = d\<lparr>dl_cancelled := True\<rparr>"

datatype checkpoint =
    CpSpan pystr | CpScanner pystr | CpConfirm pystr | CpChunk pystr nat

datatype scan_error =
    BudgetExceeded checkpoint
  | FindingRefused finding_error
  | KeyEncodeError \<comment> \<open>the \<open>UnicodeEncodeError\<close> of the cache key\<close>
  | OutOfFuel \<comment> \<open>the recursion of the model was not given enough steps\<close>

definition deadline_check :: "deadline \<Rightarrow> (nat \<Rightarrow> rat) \<Rightarrow> nat \<Rightarrow> checkpoint \<Rightarrow> scan_error + nat" where
  \<comment> \<open>reads the clock once; the result is the next reading\<close>
  "deadline_check d clock n cp =
     (if dl_cancelled d then Inl (BudgetExceeded cp)
      else if dl_ceiling_ms d \<le> elapsed_ms d (clock n) then Inl (BudgetExceeded cp)
      else Inr (Suc n))"

record stage_timer =
  tm_stages :: "(string \<times> rat) list"
  tm_stack :: "(string \<times> rat) list"

definition timer_start :: "stage_timer \<Rightarrow> string \<Rightarrow> rat \<Rightarrow> stage_timer" where
  "timer_start t stage now = t\<lparr>tm_stack := (stage, now) # tm_stack t\<rparr>"

definition timer_exit :: "stage_timer \<Rightarrow> rat \<Rightarrow> stage_timer option" where
  \<comment> \<open>\<open>None\<close> is the \<open>IndexError\<close> of popping an empty stack\<close>
  "timer_exit t now = (case tm_stack t of
       [] \<Rightarrow> None
     | (stage, started) # rest \<Rightarrow>
         let before = (case map_of (tm_stages t) stage of Some ms \<Rightarrow> ms | None \<Rightarrow> 0) in
         Some (t\<lparr>tm_stages := AList.update stage (before + (now - started) * 1000) (tm_stages t), tm_stack := rest\<rparr>))"

definition total_ms :: "stage_timer \<Rightarrow> rat" where
  "total_ms t = sum_list (map snd (tm_stages t))"

definition over_budget :: "stage_timer \<Rightarrow> (string \<Rightarrow> rat option) \<Rightarrow> (string \<times> rat \<times> rat) list" where
  "over_budget t budgets =
     concat (map (\<lambda>(s, ms). case budgets s of None \<Rightarrow> [] | Some b \<Rightarrow> if b < ms then [(s, ms, b)] else []) (tm_stages t))"

section \<open>Detectors\<close>

record match =
  ma_start :: int
  ma_end :: int
  ma_conf :: rat
  ma_class :: "entity_class option"

definition match_ok :: "match \<Rightarrow> bool" where
  \<comment> \<open>\<open>Match.__post_init__\<close> does not raise\<close>
  "match_ok m \<longleftrightarrow> ma_start m < ma_end m \<and> 0 \<le> ma_conf m \<and> ma_conf m \<le> 1"

datatype confirm_result = Confirms match | Rejects | Raises

datatype class_attr = ClassMember entity_class | ClassWrongType | ClassMissing

type_synonym confirm_fn = "pystr \<Rightarrow> nat \<Rightarrow> nat \<Rightarrow> (nat \<Rightarrow> scan_error + nat) \<Rightarrow> nat \<Rightarrow> confirm_result \<times> nat"
  \<comment> \<open>text, candidate range, the deadline's check, the position in the clock\<close>

record detector =
  det_name :: string
  det_class :: class_attr
  det_tier :: tier
  det_anchors :: "pystr list"
  det_pattern :: "pystr option"
  det_max_span :: int
  det_advisory :: bool
  det_confirm :: confirm_fn

datatype definition_error =
    NameRequired | EntityClassRequired | NotAnEntityClass | NeedsAnchorsOrPattern | EmptyAnchor
  | MaxSpanNotPositive | MustBeAdvisory | PatternTooLong | UnsafePattern string | PatternMatchesAll
  | DuplicateNames

definition UNSAFE :: "string list" where
  "UNSAFE = [''(?='', ''(?!'', ''(?<'', [CHR 0x5C, CHR ''1''], [CHR 0x5C, CHR ''2'']]"

definition MAX_PATTERN_LEN :: nat where "MAX_PATTERN_LEN = 200"

definition reject_unsafe_pattern :: "pystr \<Rightarrow> definition_error + unit" where
  "reject_unsafe_pattern pattern =
     (if length pattern > MAX_PATTERN_LEN then Inl PatternTooLong
      else case find (\<lambda>token. contains (tx token) pattern) UNSAFE of
             Some token \<Rightarrow> Inl (UnsafePattern token)
           | None \<Rightarrow> if prefix (tx ''.*'') pattern then Inl PatternMatchesAll else Inr ())"

definition validate_detector :: "detector \<Rightarrow> definition_error + unit" where
  "validate_detector d =
     (if det_name d = [] then Inl NameRequired
      else case det_class d of
        ClassMissing \<Rightarrow> Inl EntityClassRequired
      | ClassWrongType \<Rightarrow> Inl NotAnEntityClass
      | ClassMember c \<Rightarrow>
          if det_anchors d = [] \<and> (det_pattern d = None \<or> det_pattern d = Some []) then Inl NeedsAnchorsOrPattern
          else if [] \<in> set (det_anchors d) then Inl EmptyAnchor
          else if det_max_span d \<le> 0 then Inl MaxSpanNotPositive
          else if c \<in> NEVER_ENFORCE_ALONE \<and> \<not> det_advisory d then Inl MustBeAdvisory
          else case det_pattern d of None \<Rightarrow> Inr () | Some p \<Rightarrow> reject_unsafe_pattern p)"

section \<open>The automaton\<close>

function occurrences :: "pystr \<Rightarrow> pystr \<Rightarrow> nat \<Rightarrow> nat list" where
  \<comment> \<open>the \<open>while\<close> loop of \<open>_FallbackAutomaton.iter\<close> for one anchor\<close>
  "occurrences anchor txt i =
     (case find_from anchor txt i of None \<Rightarrow> [] | Some j \<Rightarrow> j # occurrences anchor txt (Suc j))"
  by pat_completeness auto
termination
  by (relation "measure (\<lambda>(a, txt, i). Suc (length txt) - i)") (auto dest: find_from_Some)

declare occurrences.simps [simp del]

definition automaton_build :: "pystr list \<Rightarrow> pystr list" where
  \<comment> \<open>longest first, stable\<close>
  "automaton_build anchors = sort_key (\<lambda>a. - int (length a)) anchors"

definition automaton_iter :: "pystr list \<Rightarrow> pystr \<Rightarrow> (nat \<times> nat \<times> pystr) list" where
  "automaton_iter needles txt =
     concat (map (\<lambda>a. map (\<lambda>i. (i, i + length a, a)) (occurrences a txt 0)) needles)"

definition py_aho_iter :: "(pystr \<times> 'v) list \<Rightarrow> pystr \<Rightarrow> (int \<times> 'v) list" where
  \<comment> \<open>\<open>_FallbackPyAho\<close>: the inclusive end of each occurrence, and the word's value\<close>
  "py_aho_iter words txt =
     concat (map (\<lambda>(w, v). map (\<lambda>i. (int i + int (length w) - 1, v)) (occurrences w txt 0))
       (sort_key (\<lambda>(w, v). - int (length w)) words))"

section \<open>The pack\<close>

record pack =
  pk_version :: nat
  pk_detectors :: "detector list"
  pk_scanners :: "(span \<Rightarrow> finding list option) list" \<comment> \<open>\<open>None\<close> when the function raises\<close>
  pk_iter :: "pystr \<Rightarrow> (nat \<times> nat \<times> pystr) list"
  pk_shape :: "(pystr \<Rightarrow> (string option \<times> nat \<times> nat) list) option"
    \<comment> \<open>group name, start and end of each match of the compiled alternation\<close>
  pk_by_anchor :: "(pystr \<times> detector list) list"
  pk_by_group :: "(string \<times> detector) list"

definition add_anchor :: "detector \<Rightarrow> (pystr \<times> detector list) list \<Rightarrow> pystr \<Rightarrow> (pystr \<times> detector list) list" where
  \<comment> \<open>\<open>by_anchor.setdefault(anchor, []).append(d)\<close>\<close>
  "add_anchor d m anchor =
     AList.update anchor ((case map_of m anchor of Some ds \<Rightarrow> ds | None \<Rightarrow> []) @ [d]) m"

definition anchor_table :: "detector list \<Rightarrow> (pystr \<times> detector list) list" where
  "anchor_table ds = foldl (\<lambda>m d. foldl (add_anchor d) m (det_anchors d)) [] ds"

fun nat_digits :: "nat \<Rightarrow> string" where
  "nat_digits n = (if n < 10 then [char_of (48 + n)] else nat_digits (n div 10) @ [char_of (48 + n mod 10)])"

declare nat_digits.simps [simp del]

definition group_name :: "nat \<Rightarrow> string" where
  "group_name i = ''d'' @ nat_digits i"

definition group_table :: "detector list \<Rightarrow> (string \<times> pystr \<times> detector) list" where
  \<comment> \<open>the group, the pattern and the detector of every detector with a candidate pattern\<close>
  "group_table ds =
     concat (map (\<lambda>(i, d). case det_pattern d of
         None \<Rightarrow> [] | Some p \<Rightarrow> if p = [] then [] else [(group_name i, p, d)]) (enumerate 0 ds))"

definition build_pack ::
  "((string \<times> pystr) list \<Rightarrow> pystr \<Rightarrow> (string option \<times> nat \<times> nat) list) \<Rightarrow> detector list \<Rightarrow> nat
     \<Rightarrow> (span \<Rightarrow> finding list option) list \<Rightarrow> definition_error + pack" where
  \<comment> \<open>\<open>compile\<close> is the engine on the alternation of the named groups\<close>
  "build_pack compile detectors version scanners =
     (let good = filter (\<lambda>d. validate_detector d = Inr ()) detectors; groups = group_table good in
      if \<not> distinct (map det_name good) then Inl DuplicateNames
      else Inr \<lparr>pk_version = version, pk_detectors = good, pk_scanners = scanners,
        pk_iter = automaton_iter (automaton_build (map fst (anchor_table good))),
        pk_shape = (if groups = [] then None else Some (compile (map (\<lambda>(g, p, d). (g, p)) groups))),
        pk_by_anchor = anchor_table good, pk_by_group = map (\<lambda>(g, p, d). (g, d)) groups\<rparr>)"

section \<open>Scanning a span\<close>

record scan_env =
  se_deadline :: deadline
  se_clock :: "nat \<Rightarrow> rat"
  se_limits :: scan_limits
  se_pack :: pack
  se_max_tier :: tier

definition check_at :: "scan_env \<Rightarrow> nat \<Rightarrow> checkpoint \<Rightarrow> scan_error + nat" where
  "check_at env n cp = deadline_check (se_deadline env) (se_clock env) n cp"

definition anchor_candidates :: "scan_env \<Rightarrow> pystr \<Rightarrow> (detector \<times> nat \<times> nat) list" where
  "anchor_candidates env txt =
     concat (map (\<lambda>(s, e, anchor).
       map (\<lambda>d. (d, s, e)) (filter (\<lambda>d. det_tier d \<le> se_max_tier env)
         (case map_of (pk_by_anchor (se_pack env)) anchor of Some ds \<Rightarrow> ds | None \<Rightarrow> [])))
       (pk_iter (se_pack env) txt))"

definition shape_candidates :: "scan_env \<Rightarrow> pystr \<Rightarrow> (detector \<times> nat \<times> nat) list" where
  "shape_candidates env txt =
     (case pk_shape (se_pack env) of
        None \<Rightarrow> []
      | Some finditer \<Rightarrow>
          concat (map (\<lambda>(g, s, e). case g of None \<Rightarrow> [] | Some name \<Rightarrow>
            (case map_of (pk_by_group (se_pack env)) name of None \<Rightarrow> []
             | Some d \<Rightarrow> if det_tier d \<le> se_max_tier env then [(d, s, e)] else [])) (finditer txt)))"

fun run_scanners :: "scan_env \<Rightarrow> span \<Rightarrow> nat \<Rightarrow> (span \<Rightarrow> finding list option) list \<Rightarrow> scan_error + (finding list \<times> nat)" where
  "run_scanners env sp n [] = Inr ([], n)"
| "run_scanners env sp n (fn # fns) =
     rbind (check_at env n (CpScanner (sp_path sp))) (\<lambda>n1.
     rbind (run_scanners env sp n1 fns) (\<lambda>(rest, n2).
       Inr ((case fn sp of None \<Rightarrow> [] | Some fs \<Rightarrow> fs) @ rest, n2)))"

definition to_finding :: "detector \<Rightarrow> match \<Rightarrow> span \<Rightarrow> finding_error + finding" where
  "to_finding d m sp =
     mk_finding (sp_path sp) (ma_start m) (ma_end m)
       (case ma_class m of Some c \<Rightarrow> Member c
        | None \<Rightarrow> (case det_class d of ClassMember c \<Rightarrow> Member c | _ \<Rightarrow> ClassName []))
       (ma_conf m) (sp_leg sp) None (det_name d) [] (det_tier d) (det_advisory d)"

definition confirm_at :: "scan_env \<Rightarrow> pystr \<Rightarrow> nat \<Rightarrow> detector \<times> nat \<times> nat \<Rightarrow> match option \<times> nat" where
  \<comment> \<open>one call of \<open>confirm\<close>: whatever it raises, the deadline's own exception included, is logged and skipped\<close>
  "confirm_at env txt n cand = (case cand of (d, s, e) \<Rightarrow>
     (case det_confirm d txt s e (\<lambda>k. check_at env k (CpConfirm [])) n of
        (Confirms m, n1) \<Rightarrow> (if match_ok m then Some m else None, n1)
      | (_, n1) \<Rightarrow> (None, n1)))"

fun confirm_all :: "scan_env \<Rightarrow> span \<Rightarrow> nat \<Rightarrow> (detector \<times> nat \<times> nat) list \<Rightarrow> scan_error + (finding list \<times> nat)" where
  "confirm_all env sp n [] = Inr ([], n)"
| "confirm_all env sp n (c # cs) =
     (case confirm_at env (sp_text sp) n c of
        (None, n1) \<Rightarrow> confirm_all env sp n1 cs
      | (Some m, n1) \<Rightarrow>
          (case to_finding (fst c) m sp of
             Inl e \<Rightarrow> Inl (FindingRefused e)
           | Inr f \<Rightarrow> rbind (confirm_all env sp n1 cs) (\<lambda>(fs, n2). Inr (f # fs, n2))))"

type_synonym finding_key = "pystr \<times> nat \<times> nat \<times> entity_class"

definition finding_key :: "finding \<Rightarrow> finding_key" where
  "finding_key f = (f_path f, f_start f, f_end f, f_class f)"

definition keep_best :: "(finding_key \<times> finding) list \<Rightarrow> finding \<Rightarrow> (finding_key \<times> finding) list" where
  "keep_best best f =
     (case map_of best (finding_key f) of
        None \<Rightarrow> AList.update (finding_key f) f best
      | Some cur \<Rightarrow> if f_conf cur < f_conf f then AList.update (finding_key f) f best else best)"

definition dedupe :: "finding list \<Rightarrow> finding list" where
  "dedupe fs = sort_key (\<lambda>f. (f_path f, f_start f)) (map snd (foldl keep_best [] fs))"

definition scan_whole :: "scan_env \<Rightarrow> span \<Rightarrow> nat \<Rightarrow> scan_error + (finding list \<times> nat)" where
  "scan_whole env sp n =
     (let candidates = anchor_candidates env (sp_text sp) @ shape_candidates env (sp_text sp) in
      rbind (run_scanners env sp n (pk_scanners (se_pack env))) (\<lambda>(extra, n1).
        if candidates = [] then Inr (dedupe extra, n1)
        else rbind (check_at env n1 (CpConfirm (sp_path sp))) (\<lambda>n2.
             rbind (confirm_all env sp n2 candidates) (\<lambda>(findings, n3). Inr (dedupe (findings @ extra), n3)))))"

definition overlap_of :: "pack \<Rightarrow> nat" where
  "overlap_of pk = (case pk_detectors pk of [] \<Rightarrow> 512
     | d # ds \<Rightarrow> nat (foldl max (det_max_span d) (map det_max_span ds)))"

definition chunk_piece :: "scan_env \<Rightarrow> span \<Rightarrow> nat \<Rightarrow> span" where
  "chunk_piece env sp pos =
     sp\<lparr>sp_text := slice pos (pos + sl_chunk_chars (se_limits env) + overlap_of (se_pack env)) (sp_text sp),
        sp_lang_hint := None\<rparr>"

definition shift_finding :: "nat \<Rightarrow> finding \<Rightarrow> finding_error + finding" where
  "shift_finding pos f =
     mk_finding (f_path f) (int (f_start f) + int pos) (int (f_end f) + int pos) (Member (f_class f)) (f_conf f)
       (f_leg f) None (f_detector f) [] (f_tier f) (f_advisory f)"

fun shift_all :: "nat \<Rightarrow> finding list \<Rightarrow> scan_error + finding list" where
  "shift_all pos [] = Inr []"
| "shift_all pos (f # fs) = (case shift_finding pos f of
       Inl e \<Rightarrow> Inl (FindingRefused e)
     | Inr g \<Rightarrow> rbind (shift_all pos fs) (\<lambda>gs. Inr (g # gs)))"

fun scan_span :: "nat \<Rightarrow> scan_env \<Rightarrow> span \<Rightarrow> nat \<Rightarrow> scan_error + (finding list \<times> nat)"
  and scan_chunks :: "nat \<Rightarrow> scan_env \<Rightarrow> span \<Rightarrow> nat \<Rightarrow> nat \<Rightarrow> scan_error + (finding list \<times> nat)" where
  \<comment> \<open>\<open>fuel\<close> bounds the recursion of \<open>scan_span\<close> and \<open>_scan_chunked\<close> and the iterations of its loop\<close>
  "scan_span 0 env sp n = Inl OutOfFuel"
| "scan_span (Suc fuel) env sp n =
     (if sp_text sp = [] then Inr ([], n)
      else if sl_max_span_chars (se_limits env) < length (sp_text sp) then
        rbind (scan_chunks fuel env sp 0 n) (\<lambda>(out, n1). Inr (dedupe out, n1))
      else scan_whole env sp n)"
| "scan_chunks 0 env sp pos n = Inl OutOfFuel"
| "scan_chunks (Suc fuel) env sp pos n =
     (if length (sp_text sp) \<le> pos then Inr ([], n)
      else rbind (check_at env n (CpChunk (sp_path sp) pos)) (\<lambda>n1.
           rbind (scan_span fuel env (chunk_piece env sp pos) n1) (\<lambda>(fs, n2).
           rbind (shift_all pos fs) (\<lambda>gs.
           rbind (scan_chunks fuel env sp (pos + sl_chunk_chars (se_limits env)) n2) (\<lambda>(rest, n3).
             Inr (gs @ rest, n3))))))"

section \<open>The fallback automata\<close>

definition occurs_at :: "pystr \<Rightarrow> pystr \<Rightarrow> nat \<Rightarrow> bool" where
  "occurs_at a txt i \<longleftrightarrow> i + length a \<le> length txt \<and> take (length a) (drop i txt) = a"

lemma set_occurrences: "set (occurrences a s i) = {j. i \<le> j \<and> occurs_at a s j}"
proof (induction a s i rule: occurrences.induct)
  case (1 a s i)
  show ?case
  proof (cases "find_from a s i")
    case None
    with find_from_None [OF None] show ?thesis
      by (auto simp: occurrences.simps [of a s i] occurs_at_def)
  next
    case (Some j)
    note j = find_from_Some [OF Some]
    have "set (occurrences a s i) = insert j {k. Suc j \<le> k \<and> occurs_at a s k}"
      using 1 [OF Some] Some by (simp add: occurrences.simps [of a s i])
    also have "\<dots> = {k. i \<le> k \<and> occurs_at a s k}"
      using j by (auto simp: occurs_at_def not_less_eq_eq)
    finally show ?thesis .
  qed
qed

lemma automaton_iter_set:
  "set (automaton_iter needles txt) = {(i, i + length a, a) | i a. a \<in> set needles \<and> occurs_at a txt i}"
  by (auto simp: automaton_iter_def set_occurrences)

text \<open>The pure-Python automata miss nothing and invent nothing: the matches they report are exactly the
  occurrences of the registered anchors, at every offset, overlapping ones included - as half-open ranges
  with the anchor for the pack's automaton, as inclusive ends with the word's value for the stand-in that
  speaks pyahocorasick's interface.\<close>

theorem fallback_automata_find_every_occurrence:
  "set (automaton_iter (automaton_build anchors) txt)
     = {(i, i + length a, a) | i a. a \<in> set anchors \<and> occurs_at a txt i}
   \<and> set (py_aho_iter words txt)
     = {(int i + int (length w) - 1, v) | i w v. (w, v) \<in> set words \<and> occurs_at w txt i}"
  by (auto simp: automaton_iter_set automaton_build_def py_aho_iter_def set_occurrences)

section \<open>Deduplication\<close>

definition best_ok :: "(finding_key \<times> finding) list \<Rightarrow> bool" where
  "best_ok m \<longleftrightarrow> distinct (map fst m) \<and> (\<forall>k f. map_of m k = Some f \<longrightarrow> k = finding_key f)"

lemma best_ok_key: "best_ok m \<Longrightarrow> map_of m k = Some f \<Longrightarrow> finding_key f = k"
  unfolding best_ok_def by metis

lemma keep_best_range: "map_of (keep_best m f) k = Some g \<Longrightarrow> map_of m k = Some g \<or> g = f \<and> k = finding_key f"
  by (auto simp: keep_best_def split: option.splits if_splits)

lemma keep_best_ok: "best_ok m \<Longrightarrow> best_ok (keep_best m f)"
proof -
  assume ok: "best_ok m"
  then have "distinct (map fst (keep_best m f))"
    by (auto simp: keep_best_def best_ok_def distinct_update split: option.splits)
  moreover have "k = finding_key g" if "map_of (keep_best m f) k = Some g" for k g
    using keep_best_range [OF that] best_ok_key [OF ok] by blast
  ultimately show ?thesis unfolding best_ok_def by blast
qed

lemma keep_best_grows:
  "map_of m k = Some g \<Longrightarrow> \<exists>h. map_of (keep_best m f) k = Some h \<and> f_conf g \<le> f_conf h"
  by (auto simp: keep_best_def split: option.splits)

lemma keep_best_new: "\<exists>h. map_of (keep_best m f) (finding_key f) = Some h \<and> f_conf f \<le> f_conf h"
  by (auto simp: keep_best_def split: option.splits)

lemma foldl_keep_best_ok: "best_ok m \<Longrightarrow> best_ok (foldl keep_best m fs)"
  by (induction fs arbitrary: m) (simp_all add: keep_best_ok)

lemma foldl_keep_best_range: "map_of (foldl keep_best m fs) k = Some g \<Longrightarrow> map_of m k = Some g \<or> g \<in> set fs"
proof (induction fs arbitrary: m)
  case (Cons f fs)
  then have "map_of (keep_best m f) k = Some g \<or> g \<in> set fs" by simp
  then show ?case using keep_best_range [of m f k g] by auto
qed simp

lemma foldl_keep_best_grows:
  "map_of m k = Some g \<Longrightarrow> \<exists>h. map_of (foldl keep_best m fs) k = Some h \<and> f_conf g \<le> f_conf h"
proof (induction fs arbitrary: m g)
  case (Cons f fs)
  then show ?case using keep_best_grows [OF Cons.prems, of f] by (fastforce intro: order_trans)
qed auto

lemma foldl_keep_best_new:
  "f \<in> set fs \<Longrightarrow> \<exists>h. map_of (foldl keep_best m fs) (finding_key f) = Some h \<and> f_conf f \<le> f_conf h"
proof (induction fs arbitrary: m)
  case (Cons g fs)
  show ?case
  proof (cases "f = g")
    case True
    then obtain h where "map_of (keep_best m g) (finding_key f) = Some h" "f_conf f \<le> f_conf h"
      using keep_best_new by blast
    then show ?thesis using foldl_keep_best_grows [of "keep_best m g" "finding_key f" h fs]
      by (auto intro: order_trans)
  next
    case False
    then show ?thesis using Cons by simp
  qed
qed simp

lemma best_ok_Nil: "best_ok []"
  by (simp add: best_ok_def)

lemma dedupe_mem: "g \<in> set (dedupe fs) \<longleftrightarrow> map_of (foldl keep_best [] fs) (finding_key g) = Some g"
proof -
  have ok: "best_ok (foldl keep_best [] fs)" by (rule foldl_keep_best_ok [OF best_ok_Nil])
  then show ?thesis by (auto simp: dedupe_def best_ok_def intro: rev_image_eqI dest: map_of_SomeD)
qed

lemma dedupe_subset: "g \<in> set (dedupe fs) \<Longrightarrow> g \<in> set fs"
  using foldl_keep_best_range [of "[]" fs] by (auto simp: dedupe_mem)

lemma dedupe_covers:
  assumes "f \<in> set fs"
  shows "\<exists>g \<in> set (dedupe fs). finding_key g = finding_key f \<and> f_conf f \<le> f_conf g"
proof -
  from foldl_keep_best_new [OF assms] obtain h
    where h: "map_of (foldl keep_best [] fs) (finding_key f) = Some h" "f_conf f \<le> f_conf h" by blast
  moreover have "finding_key h = finding_key f"
    using best_ok_key [OF foldl_keep_best_ok [OF best_ok_Nil] h(1)] .
  ultimately show ?thesis by (auto simp: dedupe_mem)
qed

lemma dedupe_sorted: "sorted (map (\<lambda>f. (f_path f, f_start f)) (dedupe fs))"
  by (simp add: dedupe_def)

lemma dedupe_distinct: "distinct (map finding_key (dedupe fs))"
proof -
  let ?m = "foldl keep_best [] fs"
  have ok: "best_ok ?m" by (rule foldl_keep_best_ok [OF best_ok_Nil])
  have dist: "distinct (map fst ?m)" using ok by (simp add: best_ok_def)
  have "finding_key (snd x) = fst x" if "x \<in> set ?m" for x
    using best_ok_key [OF ok, of "fst x" "snd x"] that dist by simp
  then have "map (finding_key \<circ> snd) ?m = map fst ?m" by simp
  with dist have "distinct (map finding_key (map snd ?m))" by (simp only: map_map)
  then show ?thesis unfolding dedupe_def by (auto simp: distinct_map inj_on_def)
qed

text \<open>The key of a finding has no advisory flag, so an advisory finding can displace an enforceable one.\<close>

lemma dedupe_can_drop_enforceable:
  assumes "finding_key f = finding_key g" "\<not> f_advisory f" "f_advisory g" "f_conf f < f_conf g"
  shows "dedupe [f, g] = [g]" and "filter (\<lambda>h. \<not> f_advisory h) (dedupe [f, g]) = []"
  using assms by (simp_all add: dedupe_def keep_best_def)

section \<open>The pack\<close>

definition anchored :: "(pystr \<times> detector list) list \<Rightarrow> pystr \<Rightarrow> detector set" where
  "anchored m a = set (case map_of m a of Some ds \<Rightarrow> ds | None \<Rightarrow> [])"

lemma anchored_add: "anchored (add_anchor d m a) b = anchored m b \<union> (if a = b then {d} else {})"
  by (auto simp: anchored_def add_anchor_def split: option.splits)

lemma anchored_add_all: "anchored (foldl (add_anchor d) m as) b = anchored m b \<union> (if b \<in> set as then {d} else {})"
  by (induction as arbitrary: m) (auto simp: anchored_add)

lemma anchored_table: "anchored (anchor_table ds) a = {d \<in> set ds. a \<in> set (det_anchors d)}"
proof -
  have "anchored (foldl (\<lambda>m d. foldl (add_anchor d) m (det_anchors d)) m ds) a
      = anchored m a \<union> {d \<in> set ds. a \<in> set (det_anchors d)}" for m
    by (induction ds arbitrary: m) (auto simp: anchored_add_all)
  then show ?thesis by (simp add: anchor_table_def anchored_def)
qed

lemma anchored_key: "d \<in> anchored m a \<Longrightarrow> a \<in> fst ` set m"
  by (cases "map_of m a") (auto simp: anchored_def dest!: map_of_SomeD intro: rev_image_eqI)

lemma build_pack_Inr:
  assumes "build_pack compile ds v scs = Inr pk"
  shows "pk_detectors pk = filter (\<lambda>d. validate_detector d = Inr ()) ds"
    and "pk_by_anchor pk = anchor_table (pk_detectors pk)"
    and "pk_iter pk = automaton_iter (automaton_build (map fst (anchor_table (pk_detectors pk))))"
    and "distinct (map det_name (pk_detectors pk))" and "pk_scanners pk = scs" and "pk_version pk = v"
proof -
  let ?good = "filter (\<lambda>d. validate_detector d = Inr ()) ds"
  have dist: "distinct (map det_name ?good)"
    using assms unfolding build_pack_def Let_def by (metis Inl_Inr_False)
  then obtain f g where pk: "pk = \<lparr>pk_version = v, pk_detectors = ?good, pk_scanners = scs,
        pk_iter = automaton_iter (automaton_build (map fst (anchor_table ?good))), pk_shape = f,
        pk_by_anchor = anchor_table ?good, pk_by_group = g\<rparr>"
    using assms unfolding build_pack_def Let_def by (metis Inr_inject)
  show "pk_detectors pk = ?good" "pk_by_anchor pk = anchor_table (pk_detectors pk)"
    "pk_iter pk = automaton_iter (automaton_build (map fst (anchor_table (pk_detectors pk))))"
    "distinct (map det_name (pk_detectors pk))" "pk_scanners pk = scs" "pk_version pk = v"
    using dist unfolding pk by simp_all
qed

lemma anchor_candidates_complete:
  assumes "build_pack compile ds v scs = Inr (se_pack env)" "d \<in> set (pk_detectors (se_pack env))"
    and "a \<in> set (det_anchors d)" "occurs_at a s i" "det_tier d \<le> se_max_tier env"
  shows "(d, i, i + length a) \<in> set (anchor_candidates env s)"
proof -
  let ?pk = "se_pack env"
  have mem: "d \<in> anchored (pk_by_anchor ?pk) a"
    using assms(2,3) by (simp add: build_pack_Inr(2) [OF assms(1)] anchored_table)
  have "(i, i + length a, a) \<in> set (pk_iter ?pk s)"
    using anchored_key [OF mem] assms(4)
    by (auto simp: build_pack_Inr(2,3) [OF assms(1)] automaton_iter_set automaton_build_def)
  moreover have "(d, i, i + length a) \<in> (\<lambda>d. (d, i, i + length a)) ` {x \<in> anchored (pk_by_anchor ?pk) a. det_tier x \<le> se_max_tier env}"
    using mem assms(5) by (intro image_eqI) auto
  ultimately show ?thesis
    by (fastforce simp: anchor_candidates_def anchored_def intro!: bexI [of _ "(i, i + length a, a)"])
qed

lemma confirm_all_complete:
  assumes "confirm_all env sp n cs = Inr (fs, n')" "c \<in> set cs" "\<forall>k. fst (confirm_at env (sp_text sp) k c) = Some m"
  shows "\<exists>f \<in> set fs. to_finding (fst c) m sp = Inr f"
  using assms(1,2)
proof (induction cs arbitrary: n fs n')
  case (Cons b cs)
  obtain r n1 where r: "confirm_at env (sp_text sp) n b = (r, n1)" by (cases "confirm_at env (sp_text sp) n b")
  show ?case
  proof (cases r)
    case None
    with r assms(3) have "b \<noteq> c" by (metis fst_conv option.distinct(1))
    with Cons r None show ?thesis by simp
  next
    case (Some m')
    with Cons.prems(1) r obtain f gs where f: "to_finding (fst b) m' sp = Inr f"
        "confirm_all env sp n1 cs = Inr (gs, n')" "fs = f # gs"
      by (auto simp: rbind_Inr_iff split: sum.splits)
    show ?thesis
    proof (cases "b = c")
      case True
      with r Some assms(3) have "m' = m" by (metis fst_conv option.inject)
      with True f show ?thesis by simp
    next
      case False
      with Cons.IH [OF f(2)] Cons.prems(2) f(3) show ?thesis by auto
    qed
  qed
qed simp

lemma mk_finding_Inr:
  assumes "mk_finding p s e (Member c) conf l i det st t adv = Inr f"
  shows "f_path f = p \<and> f_start f = nat s \<and> f_end f = nat e \<and> f_class f = c \<and> f_conf f = conf \<and> f_leg f = l
     \<and> f_detector f = det \<and> f_advisory f = adv \<and> (st = [] \<longrightarrow> f_tier f = t \<and> f_stage f = STAGE_OF t) \<and> f_detector_id f = i"
  using assms by (auto simp: mk_finding_def coerce_class_def sync_stage_def Let_def split: if_splits prod.splits)

definition match_class :: "detector \<Rightarrow> match \<Rightarrow> entity_class option" where
  "match_class d m = (case ma_class m of Some c \<Rightarrow> Some c
     | None \<Rightarrow> (case det_class d of ClassMember c \<Rightarrow> Some c | _ \<Rightarrow> None))"

lemma to_finding_Inr:
  assumes "to_finding d m sp = Inr f" "match_class d m = Some c"
  shows "f_path f = sp_path sp \<and> f_start f = nat (ma_start m) \<and> f_end f = nat (ma_end m) \<and> f_class f = c
     \<and> f_conf f = ma_conf m"
proof -
  have "mk_finding (sp_path sp) (ma_start m) (ma_end m) (Member c) (ma_conf m) (sp_leg sp) None (det_name d) []
      (det_tier d) (det_advisory d) = Inr f"
    using assms by (auto simp: to_finding_def match_class_def split: option.splits class_attr.splits)
  from mk_finding_Inr [OF this] show ?thesis by simp
qed

lemma validated_class: "validate_detector d = Inr () \<Longrightarrow> \<exists>c. match_class d m = Some c"
  by (auto simp: validate_detector_def match_class_def split: if_splits class_attr.splits option.splits)

text \<open>C32. No confirmed candidate is lost. In a pack that was built successfully, take a valid detector of a tier
  that runs and an occurrence of one of its anchors in a span scanned in one piece. If \<open>confirm\<close> answers the
  same match there whatever the clock says, then every scan that completes reports a finding with the match's
  range and class, at least as confident as the match.\<close>

theorem scan_reports_confirmed_anchors:
  assumes "build_pack compile ds v scs = Inr (se_pack env)" "d \<in> set ds" "validate_detector d = Inr ()"
    and "a \<in> set (det_anchors d)" "occurs_at a (sp_text sp) i" "det_tier d \<le> se_max_tier env"
    and "\<forall>k. fst (confirm_at env (sp_text sp) k (d, i, i + length a)) = Some m"
    and "length (sp_text sp) \<le> sl_max_span_chars (se_limits env)" "scan_span (Suc fuel) env sp n = Inr (fs, n')"
  shows "\<exists>f \<in> set fs. f_path f = sp_path sp \<and> f_start f = nat (ma_start m) \<and> f_end f = nat (ma_end m)
     \<and> match_class d m = Some (f_class f) \<and> ma_conf m \<le> f_conf f"
proof -
  let ?cs = "anchor_candidates env (sp_text sp) @ shape_candidates env (sp_text sp)"
  have "d \<in> set (pk_detectors (se_pack env))"
    using assms(2,3) by (simp add: build_pack_Inr(1) [OF assms(1)])
  from anchor_candidates_complete [OF assms(1) this assms(4-6)]
  have c: "(d, i, i + length a) \<in> set ?cs" by simp
  have "a \<noteq> []" using assms(3,4) by (auto simp: validate_detector_def split: if_splits class_attr.splits)
  then have "sp_text sp \<noteq> []" using assms(5) by (auto simp: occurs_at_def)
  with assms(8,9) have "scan_whole env sp n = Inr (fs, n')" by simp
  then obtain extra n1 n2 gs n3 where gs: "confirm_all env sp n2 ?cs = Inr (gs, n3)" "fs = dedupe (gs @ extra)"
    using c by (auto simp: scan_whole_def Let_def rbind_Inr_iff split: if_splits)
  from confirm_all_complete [OF gs(1) c assms(7)] obtain f where f: "f \<in> set gs" "to_finding d m sp = Inr f"
    by auto
  obtain cl where cl: "match_class d m = Some cl" using validated_class [OF assms(3)] by blast
  note ff = to_finding_Inr [OF f(2) cl]
  from f(1) have "f \<in> set (gs @ extra)" by simp
  from dedupe_covers [OF this] gs(2) obtain g
    where "g \<in> set fs" "finding_key g = finding_key f" "f_conf f \<le> f_conf g" by blast
  with ff cl show ?thesis by (intro bexI [of _ g]) (auto simp: finding_key_def)
qed

section \<open>Chunks\<close>

text \<open>\<open>g\<close> is \<open>f\<close> found \<open>pos\<close> characters further on.\<close>

definition shifted :: "nat \<Rightarrow> finding \<Rightarrow> finding \<Rightarrow> bool" where
  "shifted pos f g \<longleftrightarrow> f_path g = f_path f \<and> f_start g = f_start f + pos \<and> f_end g = f_end f + pos
     \<and> f_class g = f_class f \<and> f_conf g = f_conf f"

lemma shift_finding_Inr: "shift_finding pos f = Inr g \<Longrightarrow> shifted pos f g"
  unfolding shift_finding_def by (drule mk_finding_Inr) (simp add: shifted_def nat_add_distrib)

lemma shift_all_Inr: "shift_all pos fs = Inr gs \<Longrightarrow> list_all2 (shifted pos) fs gs"
  by (induction fs arbitrary: gs) (auto simp: rbind_Inr_iff shift_finding_Inr split: sum.splits)

lemma scan_chunks_step:
  assumes "scan_chunks fuel env sp pos n = Inr (fs, n')" "pos < length (sp_text sp)"
  obtains k n1 n2 cs gs rest where "fuel = Suc k" "scan_span k env (chunk_piece env sp pos) n1 = Inr (cs, n2)"
    "list_all2 (shifted pos) cs gs" "scan_chunks k env sp (pos + sl_chunk_chars (se_limits env)) n2 = Inr (rest, n')"
    "fs = gs @ rest"
proof (cases fuel)
  case 0
  with assms show ?thesis by simp
next
  case (Suc k)
  let ?next = "\<lambda>n2. scan_chunks k env sp (pos + sl_chunk_chars (se_limits env)) n2"
  from assms Suc have "rbind (check_at env n (CpChunk (sp_path sp) pos)) (\<lambda>n1.
      rbind (scan_span k env (chunk_piece env sp pos) n1) (\<lambda>(fs, n2). rbind (shift_all pos fs) (\<lambda>gs.
        rbind (?next n2) (\<lambda>(rest, n3). Inr (gs @ rest, n3))))) = Inr (fs, n')"
    by simp
  then obtain n1 where "rbind (scan_span k env (chunk_piece env sp pos) n1) (\<lambda>(fs, n2). rbind (shift_all pos fs)
      (\<lambda>gs. rbind (?next n2) (\<lambda>(rest, n3). Inr (gs @ rest, n3)))) = Inr (fs, n')"
    by (rule rbind_InrE)
  then obtain r where "scan_span k env (chunk_piece env sp pos) n1 = Inr r"
      "(case r of (fs, n2) \<Rightarrow> rbind (shift_all pos fs) (\<lambda>gs. rbind (?next n2) (\<lambda>(rest, n3). Inr (gs @ rest, n3))))
        = Inr (fs, n')"
    by (rule rbind_InrE)
  then obtain cs n2 where c: "scan_span k env (chunk_piece env sp pos) n1 = Inr (cs, n2)"
      and g: "rbind (shift_all pos cs) (\<lambda>gs. rbind (?next n2) (\<lambda>(rest, n3). Inr (gs @ rest, n3))) = Inr (fs, n')"
    by (cases r) simp
  from g obtain gs where gs: "shift_all pos cs = Inr gs"
      and t: "rbind (?next n2) (\<lambda>(rest, n3). Inr (gs @ rest, n3)) = Inr (fs, n')"
    by (rule rbind_InrE)
  from t obtain rest where "?next n2 = Inr (rest, n')" "fs = gs @ rest" by (cases "?next n2") auto
  with that Suc c shift_all_Inr [OF gs] show ?thesis by blast
qed

text \<open>Every chunk start up to the end of the text is scanned.\<close>

lemma scan_chunks_covers:
  assumes "scan_chunks fuel env sp pos n = Inr (fs, n')" "p = pos + j * sl_chunk_chars (se_limits env)" "p < length (sp_text sp)"
  shows "\<exists>k n1 n2 cs gs. scan_span k env (chunk_piece env sp p) n1 = Inr (cs, n2)
     \<and> list_all2 (shifted p) cs gs \<and> set gs \<subseteq> set fs"
  using assms
proof (induction j arbitrary: fuel pos n fs)
  case 0
  then have "pos < length (sp_text sp)" "p = pos" by simp_all
  from 0(1) this(1) obtain k n1 n2 cs gs rest where "scan_span k env (chunk_piece env sp pos) n1 = Inr (cs, n2)"
      "list_all2 (shifted pos) cs gs" "fs = gs @ rest"
    by (rule scan_chunks_step)
  then have "scan_span k env (chunk_piece env sp p) n1 = Inr (cs, n2) \<and> list_all2 (shifted p) cs gs
      \<and> set gs \<subseteq> set fs"
    using \<open>p = pos\<close> by simp
  then show ?case by blast
next
  case (Suc j)
  from Suc.prems(2,3) have lt: "pos < length (sp_text sp)" by simp
  from Suc.prems(1) lt obtain k n1 n2 cs gs rest where
    step: "scan_chunks k env sp (pos + sl_chunk_chars (se_limits env)) n2 = Inr (rest, n')" "fs = gs @ rest"
    by (rule scan_chunks_step)
  have "p = pos + sl_chunk_chars (se_limits env) + j * sl_chunk_chars (se_limits env)"
    using Suc.prems(2) by simp
  from Suc.IH [OF step(1) this Suc.prems(3)] obtain k n1 n2 cs hs
    where h: "scan_span k env (chunk_piece env sp p) n1 = Inr (cs, n2)" "list_all2 (shifted p) cs hs" "set hs \<subseteq> set rest"
    by blast
  from h(3) step(2) have "set hs \<subseteq> set fs" by auto
  with h(1,2) show ?case by blast
qed

text \<open>Chunking does not cut a value in two. When a span too long to scan whole is scanned to completion,
  every range of it that is no longer than the overlap lies within a piece that was scanned on its own, and
  each finding of that piece is reported at its place in the whole span, with its class and at least its
  confidence. The overlap is the largest reach any detector of the pack declares.\<close>

theorem chunks_see_every_window_whole:
  assumes "sl_max_span_chars (se_limits env) < length (sp_text sp)" "0 < sl_chunk_chars (se_limits env)"
    and "scan_span (Suc fuel) env sp n = Inr (fs, n')"
    and "i \<le> j" "j \<le> length (sp_text sp)" "i < length (sp_text sp)" "j - i \<le> overlap_of (se_pack env)"
  shows "\<exists>pos k n1 n2 cs. pos \<le> i \<and> j \<le> pos + length (sp_text (chunk_piece env sp pos))
     \<and> slice (i - pos) (j - pos) (sp_text (chunk_piece env sp pos)) = slice i j (sp_text sp)
     \<and> scan_span k env (chunk_piece env sp pos) n1 = Inr (cs, n2)
     \<and> (\<forall>f \<in> set cs. \<exists>g \<in> set fs. f_path g = f_path f \<and> f_start g = f_start f + pos \<and> f_end g = f_end f + pos
          \<and> f_class g = f_class f \<and> f_conf f \<le> f_conf g)"
proof -
  let ?st = "sl_chunk_chars (se_limits env)" and ?t = "sp_text sp"
  define q where "q = i div ?st"
  define pos where "pos = q * ?st"
  have pos: "pos \<le> i" "i < pos + ?st"
    using assms(2) by (simp_all add: pos_def q_def div_times_less_eq_dividend)
      (metis add.commute dividend_less_div_times mult.commute)
  have piece: "sp_text (chunk_piece env sp pos) = slice pos (pos + ?st + overlap_of (se_pack env)) ?t"
    by (simp add: chunk_piece_def)
  have reach: "j \<le> pos + length (sp_text (chunk_piece env sp pos))"
    unfolding piece using pos assms(4,5,7) by simp
  have window: "slice (i - pos) (j - pos) (sp_text (chunk_piece env sp pos)) = slice i j ?t"
    unfolding piece using pos assms(4,7) by (simp add: slice_def take_drop min_def add.commute)
  from assms(1,3) obtain out where out: "scan_chunks fuel env sp 0 n = Inr (out, n')" "fs = dedupe out"
    by (auto simp: rbind_Inr_iff split: if_splits)
  have "pos = 0 + q * ?st" "pos < length ?t" using pos(1) assms(6) by (simp_all add: pos_def)
  from scan_chunks_covers [OF out(1) this] obtain k n1 n2 cs gs where
    c: "scan_span k env (chunk_piece env sp pos) n1 = Inr (cs, n2)" "list_all2 (shifted pos) cs gs" "set gs \<subseteq> set out"
    by blast
  have "\<exists>g \<in> set fs. f_path g = f_path f \<and> f_start g = f_start f + pos \<and> f_end g = f_end f + pos
          \<and> f_class g = f_class f \<and> f_conf f \<le> f_conf g" if "f \<in> set cs" for f
  proof -
    from that c(2) obtain h where h: "h \<in> set gs" "shifted pos f h"
      by (metis in_set_conv_nth list_all2_conv_all_nth)
    with c(3) have "h \<in> set out" by blast
    from dedupe_covers [OF this] out(2) h(2) show ?thesis by (auto simp: shifted_def finding_key_def)
  qed
  with pos(1) reach window c(1) show ?thesis by blast
qed

section \<open>Termination\<close>

lemma scan_whole_fuel: "scan_whole env sp n \<noteq> Inl OutOfFuel"
proof -
  have chk: "check_at env n cp \<noteq> Inl OutOfFuel" for n cp by (simp add: check_at_def deadline_check_def)
  have scn: "run_scanners env sp n fns \<noteq> Inl OutOfFuel" for n fns
  proof (induction fns arbitrary: n)
    case (Cons fn fns)
    then show ?case using chk [of n "CpScanner (sp_path sp)"]
      by (auto simp: rbind_def split: sum.splits)
  qed simp
  have cnf: "confirm_all env sp n cs \<noteq> Inl OutOfFuel" for n cs
  proof (induction cs arbitrary: n)
    case (Cons c cs)
    then show ?case by (auto simp: rbind_def split: prod.splits option.splits sum.splits)
  qed simp
  show ?thesis
    using chk scn cnf unfolding scan_whole_def Let_def rbind_def
    by (auto split: sum.splits prod.splits)
qed

lemma rbind_noerr: "r \<noteq> Inl e \<Longrightarrow> (\<And>a. f a \<noteq> Inl e) \<Longrightarrow> rbind r f \<noteq> Inl e"
  by (cases r) auto

definition limits_fit :: "scan_env \<Rightarrow> bool" where
  \<comment> \<open>a piece is short enough to be scanned whole\<close>
  "limits_fit env \<longleftrightarrow> 0 < sl_chunk_chars (se_limits env)
     \<and> sl_chunk_chars (se_limits env) + overlap_of (se_pack env) \<le> sl_max_span_chars (se_limits env)"

lemma scan_piece_fuel:
  assumes "limits_fit env"
  shows "scan_span (Suc k) env (chunk_piece env sp pos) n \<noteq> Inl OutOfFuel"
proof -
  have "length (sp_text (chunk_piece env sp pos)) \<le> sl_max_span_chars (se_limits env)"
    using assms by (auto simp: chunk_piece_def limits_fit_def intro: min.coboundedI1)
  then show ?thesis using scan_whole_fuel by simp
qed

lemma scan_chunks_fuel:
  assumes "limits_fit env"
  shows "length (sp_text sp) - pos + 2 \<le> fuel \<Longrightarrow> scan_chunks fuel env sp pos n \<noteq> Inl OutOfFuel"
proof (induction fuel arbitrary: pos n)
  case (Suc k)
  show ?case
  proof (cases "length (sp_text sp) \<le> pos")
    case False
    have step: "0 < sl_chunk_chars (se_limits env)" using assms by (simp add: limits_fit_def)
    have "length (sp_text sp) - (pos + sl_chunk_chars (se_limits env)) + 2 \<le> k" "k \<noteq> 0"
      using Suc.prems False step by simp_all
    then obtain k' where k': "k = Suc k'" by (cases k) auto
    have rest: "scan_chunks k env sp (pos + sl_chunk_chars (se_limits env)) n2 \<noteq> Inl OutOfFuel" for n2
      by (rule Suc.IH) fact
    have piece: "scan_span k env (chunk_piece env sp pos) n1 \<noteq> Inl OutOfFuel" for n1
      unfolding k' by (rule scan_piece_fuel [OF assms])
    have shift: "shift_all pos fs \<noteq> Inl OutOfFuel" for fs
    proof (induction fs)
      case (Cons f fs)
      then show ?case by (auto simp: rbind_def split: sum.splits)
    qed simp
    have chk: "check_at env n (CpChunk (sp_path sp) pos) \<noteq> Inl OutOfFuel"
      by (simp add: check_at_def deadline_check_def)
    have tail: "rbind (scan_chunks k env sp (pos + sl_chunk_chars (se_limits env)) n2)
        (\<lambda>(rest, n3). Inr (gs @ rest, n3)) \<noteq> Inl OutOfFuel" for n2 gs
      by (rule rbind_noerr [OF rest]) (simp split: prod.split)
    have mid: "(case r of (fs, n2) \<Rightarrow> rbind (shift_all pos fs) (\<lambda>gs.
        rbind (scan_chunks k env sp (pos + sl_chunk_chars (se_limits env)) n2) (\<lambda>(rest, n3). Inr (gs @ rest, n3))))
        \<noteq> Inl OutOfFuel" for r
      by (cases r) (simp only: prod.case, rule rbind_noerr [OF shift tail])
    have "rbind (check_at env n (CpChunk (sp_path sp) pos)) (\<lambda>n1.
      rbind (scan_span k env (chunk_piece env sp pos) n1) (\<lambda>(fs, n2). rbind (shift_all pos fs) (\<lambda>gs.
        rbind (scan_chunks k env sp (pos + sl_chunk_chars (se_limits env)) n2) (\<lambda>(rest, n3). Inr (gs @ rest, n3)))))
      \<noteq> Inl OutOfFuel"
      by (rule rbind_noerr [OF chk], rule rbind_noerr [OF piece mid])
    with False show ?thesis by simp
  qed simp
qed simp

lemma rbind_more:
  assumes "rbind r f \<noteq> Inl e" "r \<noteq> Inl e \<Longrightarrow> r' = r" "\<And>a. r = Inr a \<Longrightarrow> f a \<noteq> Inl e \<Longrightarrow> f' a = f a"
  shows "rbind r' f' = rbind r f"
  using assms by (cases r) auto

lemma scan_fuel_mono:
  "scan_span fuel env sp n \<noteq> Inl OutOfFuel \<Longrightarrow> scan_span (Suc fuel) env sp n = scan_span fuel env sp n"
  "scan_chunks fuel env sp pos n \<noteq> Inl OutOfFuel \<Longrightarrow> scan_chunks (Suc fuel) env sp pos n = scan_chunks fuel env sp pos n"
proof (induction fuel env sp n and fuel env sp pos n rule: scan_span_scan_chunks.induct)
  case (2 fuel env sp n)
  show ?case
  proof (cases "sp_text sp \<noteq> [] \<and> sl_max_span_chars (se_limits env) < length (sp_text sp)")
    case True
    then have eq: "scan_span (Suc f) env sp n = rbind (scan_chunks f env sp 0 n) (\<lambda>(out, n1). Inr (dedupe out, n1))" for f
      by simp
    from 2(2) have "scan_chunks fuel env sp 0 n \<noteq> Inl OutOfFuel" unfolding eq by auto
    with 2(1) True show ?thesis unfolding eq by simp
  next
    case False
    then show ?thesis by auto
  qed
next
  case (4 fuel env sp pos n)
  show ?case
  proof (cases "length (sp_text sp) \<le> pos")
    case False
    let ?st = "sl_chunk_chars (se_limits env)"
    have eq: "scan_chunks (Suc f) env sp pos n = rbind (check_at env n (CpChunk (sp_path sp) pos)) (\<lambda>n1.
        rbind (scan_span f env (chunk_piece env sp pos) n1) (\<lambda>(fs, n2). rbind (shift_all pos fs) (\<lambda>gs.
          rbind (scan_chunks f env sp (pos + ?st) n2) (\<lambda>(rest, n3). Inr (gs @ rest, n3)))))" for f
      using False by simp
    show ?thesis
      unfolding eq
    proof (rule rbind_more [OF 4(3) [unfolded eq]], rule refl)
      fix n1
      assume n1: "rbind (scan_span fuel env (chunk_piece env sp pos) n1) (\<lambda>(fs, n2). rbind (shift_all pos fs) (\<lambda>gs.
          rbind (scan_chunks fuel env sp (pos + ?st) n2) (\<lambda>(rest, n3). Inr (gs @ rest, n3)))) \<noteq> Inl OutOfFuel"
      show "rbind (scan_span (Suc fuel) env (chunk_piece env sp pos) n1) (\<lambda>(fs, n2). rbind (shift_all pos fs) (\<lambda>gs.
          rbind (scan_chunks (Suc fuel) env sp (pos + ?st) n2) (\<lambda>(rest, n3). Inr (gs @ rest, n3))))
        = rbind (scan_span fuel env (chunk_piece env sp pos) n1) (\<lambda>(fs, n2). rbind (shift_all pos fs) (\<lambda>gs.
          rbind (scan_chunks fuel env sp (pos + ?st) n2) (\<lambda>(rest, n3). Inr (gs @ rest, n3))))"
      proof (rule rbind_more [OF n1])
        show "scan_span fuel env (chunk_piece env sp pos) n1 \<noteq> Inl OutOfFuel \<Longrightarrow>
            scan_span (Suc fuel) env (chunk_piece env sp pos) n1 = scan_span fuel env (chunk_piece env sp pos) n1"
          by (rule 4(1) [OF False])
        fix r
        assume "(case r of (fs, n2) \<Rightarrow> rbind (shift_all pos fs) (\<lambda>gs.
            rbind (scan_chunks fuel env sp (pos + ?st) n2) (\<lambda>(rest, n3). Inr (gs @ rest, n3)))) \<noteq> Inl OutOfFuel"
        then show "(case r of (fs, n2) \<Rightarrow> rbind (shift_all pos fs) (\<lambda>gs.
            rbind (scan_chunks (Suc fuel) env sp (pos + ?st) n2) (\<lambda>(rest, n3). Inr (gs @ rest, n3))))
          = (case r of (fs, n2) \<Rightarrow> rbind (shift_all pos fs) (\<lambda>gs.
            rbind (scan_chunks fuel env sp (pos + ?st) n2) (\<lambda>(rest, n3). Inr (gs @ rest, n3))))"
          unfolding case_prod_beta by (rule rbind_more) (rule refl, erule rbind_more, erule 4(2) [OF False], rule refl)
      qed
    qed
  qed simp
qed simp_all

lemma scan_span_enough:
  assumes "limits_fit env" "length (sp_text sp) + 3 \<le> fuel"
  shows "scan_span fuel env sp n \<noteq> Inl OutOfFuel"
proof -
  obtain k where k: "fuel = Suc k" using assms(2) by (cases fuel) auto
  have "scan_chunks k env sp 0 n \<noteq> Inl OutOfFuel"
    using scan_chunks_fuel [OF assms(1), of sp 0 k n] assms(2) k by simp
  then have "rbind (scan_chunks k env sp 0 n) (\<lambda>(out, n1). Inr (dedupe out, n1)) \<noteq> Inl OutOfFuel"
    by (rule rbind_noerr) (simp split: prod.split)
  with scan_whole_fuel [of env sp n] show ?thesis unfolding k scan_span.simps by auto
qed

lemma scan_span_stable:
  assumes "limits_fit env" "length (sp_text sp) + 3 \<le> fuel" "fuel \<le> fuel'"
  shows "scan_span fuel' env sp n = scan_span fuel env sp n"
  using assms(3)
proof (induction rule: dec_induct)
  case (step m)
  have "scan_span m env sp n \<noteq> Inl OutOfFuel" using scan_span_enough [OF assms(1)] assms(2) step(1) by simp
  with step scan_fuel_mono(1) show ?case by simp
qed simp

text \<open>C39. A scan ends. If the chunk size is positive and a chunk with its overlap fits into the length that is
  scanned whole, then a number of steps linear in the text is enough: the scan never runs out, whatever the
  detectors and the clock do, and its result does not change with more. In particular a piece of a chunked
  span is never chunked again.\<close>

theorem scan_terminates:
  assumes "limits_fit env" "length (sp_text sp) + 3 \<le> fuel"
  shows "scan_span fuel env sp n \<noteq> Inl OutOfFuel
    \<and> (\<forall>fuel' \<ge> fuel. scan_span fuel' env sp n = scan_span fuel env sp n)
    \<and> (\<forall>pos. length (sp_text (chunk_piece env sp pos)) \<le> sl_max_span_chars (se_limits env))"
proof -
  have "length (sp_text (chunk_piece env sp pos)) \<le> sl_max_span_chars (se_limits env)" for pos
    using assms(1) by (auto simp: chunk_piece_def limits_fit_def intro: min.coboundedI1)
  then show ?thesis using scan_span_enough [OF assms] scan_span_stable [OF assms] by blast
qed

text \<open>
  Otherwise the recursion need not end: a text longer than the limit that fits into one piece is passed to
  \<open>scan_span\<close> again unchanged, for ever.
\<close>

lemma scan_recurses_for_ever:
  assumes "sl_max_span_chars (se_limits env) < length (sp_text sp)"
    and "length (sp_text sp) \<le> sl_chunk_chars (se_limits env) + overlap_of (se_pack env)"
    and "\<forall>k. \<not> expired (se_deadline env) (se_clock env k)"
  shows "scan_span fuel env sp n = Inl OutOfFuel"
  using assms(1,2)
proof (induction fuel arbitrary: n sp rule: less_induct)
  case (less fuel)
  show ?case
  proof (cases fuel)
    case (Suc k)
    have long: "sp_text sp \<noteq> []" using less.prems(1) by auto
    show ?thesis
    proof (cases k)
      case 0
      with Suc less.prems long show ?thesis by simp
    next
      case (Suc m)
      have chk: "check_at env n (CpChunk (sp_path sp) 0) = Inr (Suc n)"
        using assms(3) by (auto simp: check_at_def deadline_check_def expired_def)
      have "sp_text (chunk_piece env sp 0) = sp_text sp"
        using less.prems(2) by (simp add: chunk_piece_def slice_def)
      then have "scan_span m env (chunk_piece env sp 0) (Suc n) = Inl OutOfFuel"
        using less.IH [of m "chunk_piece env sp 0" "Suc n"] less.prems Suc \<open>fuel = Suc k\<close> by simp
      with Suc \<open>fuel = Suc k\<close> less.prems long chk show ?thesis by simp
    qed
  qed simp
qed

text \<open>
  A deadline that a detector notices inside \<open>confirm\<close> is caught like any other exception: the candidate is
  dropped and the scan goes on as if it had been rejected.
\<close>

lemma deadline_in_confirm_is_swallowed:
  assumes "det_confirm d = (\<lambda>s i e chk k. case chk k of Inl _ \<Rightarrow> (Raises, k) | Inr k' \<Rightarrow> (Confirms m, k'))"
    and "expired (se_deadline env) (se_clock env n)"
  shows "confirm_all env sp n [(d, i, j)] = Inr ([], n)"
  using assms by (auto simp: confirm_at_def check_at_def deadline_check_def expired_def)

section \<open>A sample pack\<close>

definition demo_detector :: detector where
  "demo_detector = \<lparr>det_name = ''demo_key'', det_class = ClassMember ANTHROPIC_KEY, det_tier = DETERMINISTIC,
     det_anchors = [tx ''sk-''], det_pattern = None, det_max_span = 2, det_advisory = False,
     det_confirm = (\<lambda>s i e chk k. (Confirms \<lparr>ma_start = int i, ma_end = int e + 2, ma_conf = 1, ma_class = None\<rparr>, k))\<rparr>"

definition demo_pack :: pack where
  "demo_pack = \<lparr>pk_version = 1, pk_detectors = [demo_detector], pk_scanners = [],
     pk_iter = automaton_iter (automaton_build [tx ''sk-'']), pk_shape = None,
     pk_by_anchor = [(tx ''sk-'', [demo_detector])], pk_by_group = []\<rparr>"

definition demo_env :: "nat \<Rightarrow> scan_env" where
  "demo_env limit = \<lparr>se_deadline = \<lparr>dl_ceiling_ms = 50, dl_started = 0, dl_cancelled = False\<rparr>, se_clock = (\<lambda>_. 0),
     se_limits = \<lparr>sl_max_span_chars = limit, sl_max_request_chars = 100, sl_chunk_chars = 4\<rparr>, se_pack = demo_pack,
     se_max_tier = CONTEXT\<rparr>"

definition demo_span :: span where
  "demo_span = \<lparr>sp_path = tx ''a'', sp_text = tx ''aa sk-12'', sp_origin = OUser, sp_leg = Outbound, sp_byte_start = 6,
     sp_byte_end = 14, sp_lang_hint = None, sp_parent_path = None, sp_parent_char_offset = 0\<rparr>"

definition demo_hit :: finding where
  "demo_hit = \<lparr>f_path = tx ''a'', f_start = 3, f_end = 8, f_class = ANTHROPIC_KEY, f_conf = 1, f_leg = Outbound,
     f_detector_id = None, f_detector = ''demo_key'', f_stage = ''S0'', f_tier = DETERMINISTIC, f_advisory = False\<rparr>"

lemma demo_pack_built: "build_pack (\<lambda>_ _. []) [demo_detector] 1 [] = Inr demo_pack"
  by (simp add: build_pack_def Let_def demo_pack_def validate_detector_def demo_detector_def group_table_def
      NEVER_ENFORCE_ALONE_def anchor_table_def add_anchor_def)

lemma demo_whole: "scan_span (Suc 0) (demo_env 20) demo_span 0 = Inr ([demo_hit], 1)"
  by code_simp

lemma demo_chunked: "scan_span (Suc 10) (demo_env 7) demo_span 0 = Inr ([demo_hit], 3)"
  by code_simp

lemma scan_reports_confirmed_anchors_witness:
  "\<exists>f \<in> set [demo_hit]. f_start f = 3 \<and> f_end f = 8"
proof -
  have env: "build_pack (\<lambda>_ _. []) [demo_detector] 1 [] = Inr (se_pack (demo_env 20))"
    by (simp only: demo_pack_built demo_env_def scan_env.simps)
  have facts: "validate_detector demo_detector = Inr ()" "occurs_at (tx ''sk-'') (sp_text demo_span) 3"
    "length (sp_text demo_span) \<le> sl_max_span_chars (se_limits (demo_env 20))"
    "det_tier demo_detector \<le> se_max_tier (demo_env 20)" "tx ''sk-'' \<in> set (det_anchors demo_detector)"
    "\<forall>k. fst (confirm_at (demo_env 20) (sp_text demo_span) k (demo_detector, 3, 3 + length (tx ''sk-'')))
       = Some \<lparr>ma_start = 3, ma_end = 8, ma_conf = 1, ma_class = None\<rparr>"
    by (simp_all add: validate_detector_def demo_detector_def NEVER_ENFORCE_ALONE_def occurs_at_def demo_span_def
        demo_env_def tier_order confirm_at_def match_ok_def)
  from scan_reports_confirmed_anchors [OF env _ facts(1,5,2,4,6,3) demo_whole] show ?thesis by simp
qed

lemma demo_limits_fit: "limits_fit (demo_env 7)"
  by (simp add: limits_fit_def demo_env_def overlap_of_def demo_pack_def demo_detector_def)

lemma chunks_see_every_window_whole_witness:
  "\<exists>pos k n1 n2 cs. pos \<le> 3 \<and> scan_span k (demo_env 7) (chunk_piece (demo_env 7) demo_span pos) n1 = Inr (cs, n2)
     \<and> slice (3 - pos) (5 - pos) (sp_text (chunk_piece (demo_env 7) demo_span pos)) = tx ''sk''"
proof -
  have facts: "sl_max_span_chars (se_limits (demo_env 7)) < length (sp_text demo_span)"
    "0 < sl_chunk_chars (se_limits (demo_env 7))" "(3 :: nat) \<le> 5" "5 \<le> length (sp_text demo_span)"
    "3 < length (sp_text demo_span)" "5 - 3 \<le> overlap_of (se_pack (demo_env 7))"
    by (simp_all add: demo_env_def demo_span_def overlap_of_def demo_pack_def demo_detector_def)
  have "slice 3 5 (sp_text demo_span) = tx ''sk''" by (simp add: demo_span_def slice_def)
  moreover from chunks_see_every_window_whole [OF facts(1,2) demo_chunked facts(3-6)] obtain pos k n1 n2 cs
    where "pos \<le> 3" "scan_span k (demo_env 7) (chunk_piece (demo_env 7) demo_span pos) n1 = Inr (cs, n2)"
      "slice (3 - pos) (5 - pos) (sp_text (chunk_piece (demo_env 7) demo_span pos)) = slice 3 5 (sp_text demo_span)"
    by blast
  ultimately have "pos \<le> 3 \<and> scan_span k (demo_env 7) (chunk_piece (demo_env 7) demo_span pos) n1 = Inr (cs, n2)
      \<and> slice (3 - pos) (5 - pos) (sp_text (chunk_piece (demo_env 7) demo_span pos)) = tx ''sk''"
    by simp
  then show ?thesis by (intro exI)
qed

lemma scan_terminates_witness: "scan_span 11 (demo_env 7) demo_span 0 \<noteq> Inl OutOfFuel"
proof -
  have "length (sp_text demo_span) + 3 \<le> 11" by (simp add: demo_span_def)
  from scan_terminates [OF demo_limits_fit this, of 0] show ?thesis by blast
qed

section \<open>What a pack holds\<close>

lemma foldl_max_nat: "x \<in> set (y # ys) \<Longrightarrow> (x :: int) \<le> foldl max y ys"
  using foldl_max_ge [of y ys] by auto

lemma overlap_covers: "d \<in> set (pk_detectors pk) \<Longrightarrow> nat (det_max_span d) \<le> overlap_of pk"
  using foldl_max_nat [of "det_max_span d" "det_max_span (hd (pk_detectors pk))" "map det_max_span (tl (pk_detectors pk))"]
  by (cases "pk_detectors pk") (auto simp: overlap_of_def nat_mono)

lemma validated:
  "validate_detector d = Inr () \<Longrightarrow> 0 < det_max_span d \<and> [] \<notin> set (det_anchors d)
     \<and> (det_anchors d \<noteq> [] \<or> (\<exists>p. det_pattern d = Some p \<and> p \<noteq> []))
     \<and> (\<forall>c. det_class d = ClassMember c \<and> c \<in> NEVER_ENFORCE_ALONE \<longrightarrow> det_advisory d)"
  by (auto simp: validate_detector_def split: if_splits class_attr.splits)

text \<open>A pack holds exactly the detectors that validate, in their order and under distinct names, so one
  malformed detector is quarantined and the rest stay; the overlap of its chunks covers the reach of each of
  them; and a finding made from a match that does not override the detector's class never lets a class
  enforce that must not enforce alone.\<close>

theorem built_pack_is_sound:
  assumes "build_pack compile ds v scs = Inr pk"
  shows "pk_detectors pk = filter (\<lambda>d. validate_detector d = Inr ()) ds \<and> distinct (map det_name (pk_detectors pk))
    \<and> (\<forall>d \<in> set (pk_detectors pk). 0 < det_max_span d \<and> nat (det_max_span d) \<le> overlap_of pk
         \<and> [] \<notin> set (det_anchors d)
         \<and> (\<forall>m sp f. ma_class m = None \<and> to_finding d m sp = Inr f \<and> f_class f \<in> NEVER_ENFORCE_ALONE \<longrightarrow> f_advisory f))"
proof -
  have "f_advisory f" if d: "validate_detector d = Inr ()" and m: "ma_class m = None" and f: "to_finding d m sp = Inr f"
    and c: "f_class f \<in> NEVER_ENFORCE_ALONE" for d m sp f
  proof -
    from validated_class [OF d, of m] m obtain cl where cl: "det_class d = ClassMember cl"
      by (auto simp: match_class_def split: class_attr.splits)
    have "mk_finding (sp_path sp) (ma_start m) (ma_end m) (Member cl) (ma_conf m) (sp_leg sp) None (det_name d) []
        (det_tier d) (det_advisory d) = Inr f"
      using f m cl by (simp add: to_finding_def)
    from mk_finding_Inr [OF this] validated [OF d] cl c show ?thesis by simp
  qed
  note advisory = this
  have "0 < det_max_span d \<and> nat (det_max_span d) \<le> overlap_of pk \<and> [] \<notin> set (det_anchors d)
      \<and> (\<forall>m sp f. ma_class m = None \<and> to_finding d m sp = Inr f \<and> f_class f \<in> NEVER_ENFORCE_ALONE \<longrightarrow> f_advisory f)"
    if d: "d \<in> set (pk_detectors pk)" for d
  proof -
    from d have v: "validate_detector d = Inr ()" by (simp add: build_pack_Inr(1) [OF assms])
    show ?thesis using validated [OF v] overlap_covers [OF d] advisory [OF v] by blast
  qed
  then have "\<forall>d \<in> set (pk_detectors pk). 0 < det_max_span d \<and> nat (det_max_span d) \<le> overlap_of pk
      \<and> [] \<notin> set (det_anchors d)
      \<and> (\<forall>m sp f. ma_class m = None \<and> to_finding d m sp = Inr f \<and> f_class f \<in> NEVER_ENFORCE_ALONE \<longrightarrow> f_advisory f)"
    by (rule ballI)
  with build_pack_Inr(1,4) [OF assms] show ?thesis by (intro conjI)
qed

lemma built_pack_is_sound_witness: "distinct (map det_name (pk_detectors demo_pack)) \<and> overlap_of demo_pack = 2"
proof -
  have "overlap_of demo_pack = 2" by (simp add: overlap_of_def demo_pack_def demo_detector_def)
  with built_pack_is_sound [OF demo_pack_built] show ?thesis by blast
qed

end
