(* ===== verification/SpanCache.thy ===== *)
theory SpanCache
  imports Contracts PyText
begin

text \<open>
  The span cache of \<^verbatim>\<open>gateway/base/cache.py\<close>: the key (an HMAC over the pack version, the tenant and
  the text), the bounded in-memory LRU cache and the null cache. The locale \<open>span_cache\<close> is the interface
  the checker uses; both caches of the source interpret it. HMAC-SHA-256 is the parameter \<open>mac\<close>.
  An \<open>OrderedDict\<close> is an association list, least recently used entry first.
\<close>

section \<open>Keys\<close>

definition hexdigest :: "pybytes \<Rightarrow> pystr" where
  "hexdigest bs = concat (map (\<lambda>b. [hex_cp (b div 16), hex_cp (b mod 16)]) bs)"

fun dec_str :: "nat \<Rightarrow> pystr" where
  \<comment> \<open>\<open>str(n)\<close> for a natural number\<close>
  "dec_str n = (if n < 10 then [48 + n] else dec_str (n div 10) @ [48 + n mod 10])"

declare dec_str.simps [simp del]

definition key_message :: "pystr \<Rightarrow> nat \<Rightarrow> pystr \<Rightarrow> pystr" where
  "key_message tenant_id pack_version txt = dec_str pack_version @ tx ''|'' @ tenant_id @ tx ''|'' @ txt"

definition cache_key :: "(pybytes \<Rightarrow> pybytes \<Rightarrow> pybytes) \<Rightarrow> pybytes \<Rightarrow> pystr \<Rightarrow> nat \<Rightarrow> pystr \<Rightarrow> pystr option" where
  \<comment> \<open>\<open>None\<close> is the \<open>UnicodeEncodeError\<close> of a text with a lone surrogate\<close>
  "cache_key mac tenant_key tenant_id pack_version txt =
     map_option (\<lambda>msg. hexdigest (mac tenant_key msg)) (utf8_encode (key_message tenant_id pack_version txt))"

section \<open>The in-memory cache\<close>

record lru =
  lru_d :: "(pystr \<times> finding list) list"
  lru_max :: nat
  lru_hits :: nat
  lru_misses :: nat

definition lru_new :: "nat \<Rightarrow> lru" where
  "lru_new max_entries = \<lparr>lru_d = [], lru_max = max_entries, lru_hits = 0, lru_misses = 0\<rparr>"

definition move_to_end :: "'k \<Rightarrow> ('k \<times> 'v) list \<Rightarrow> ('k \<times> 'v) list" where
  "move_to_end k d = (case map_of d k of None \<Rightarrow> d | Some v \<Rightarrow> AList.delete k d @ [(k, v)])"

definition lru_get :: "lru \<Rightarrow> pystr \<Rightarrow> finding list option \<times> lru" where
  "lru_get s key = (case map_of (lru_d s) key of
       None \<Rightarrow> (None, s\<lparr>lru_misses := Suc (lru_misses s)\<rparr>)
     | Some hit \<Rightarrow> (Some hit, s\<lparr>lru_d := move_to_end key (lru_d s), lru_hits := Suc (lru_hits s)\<rparr>))"

fun evict :: "nat \<Rightarrow> 'a list \<Rightarrow> 'a list" where
  \<comment> \<open>\<open>while len(d) > max: d.popitem(last=False)\<close>\<close>
  "evict n [] = []"
| "evict n (x # xs) = (if n < length (x # xs) then evict n xs else x # xs)"

definition lru_put :: "lru \<Rightarrow> pystr \<Rightarrow> finding list \<Rightarrow> lru" where
  "lru_put s key findings =
     s\<lparr>lru_d := evict (lru_max s) (move_to_end key (AList.update key findings (lru_d s)))\<rparr>"

definition lru_clear :: "lru \<Rightarrow> lru" where
  "lru_clear s = s\<lparr>lru_d := [], lru_hits := 0, lru_misses := 0\<rparr>"

record null_cache =
  nc_misses :: nat

definition null_get :: "null_cache \<Rightarrow> pystr \<Rightarrow> finding list option \<times> null_cache" where
  "null_get s key = (None, s\<lparr>nc_misses := Suc (nc_misses s)\<rparr>)"

definition null_put :: "null_cache \<Rightarrow> pystr \<Rightarrow> finding list \<Rightarrow> null_cache" where
  "null_put s key findings = s"

definition null_clear :: "null_cache \<Rightarrow> null_cache" where
  "null_clear s = \<lparr>nc_misses = 0\<rparr>"

definition cache_ratio :: "nat \<Rightarrow> nat \<Rightarrow> rat" where
  \<comment> \<open>\<open>CacheStats.ratio\<close>\<close>
  "cache_ratio hits misses = (if hits + misses = 0 then 0 else of_nat hits / of_nat (hits + misses))"

section \<open>The interface\<close>

text \<open>
  What the checker relies on: \<open>holds s\<close> is what the cache may answer; a hit is one of these, looking up and
  clearing add none, and storing adds only what was stored.
\<close>

locale span_cache =
  fixes get :: "'s \<Rightarrow> pystr \<Rightarrow> finding list option \<times> 's"
    and put :: "'s \<Rightarrow> pystr \<Rightarrow> finding list \<Rightarrow> 's"
    and clear :: "'s \<Rightarrow> 's"
    and holds :: "'s \<Rightarrow> (pystr \<times> finding list) set"
  assumes get_hit: "get s k = (Some v, s') \<Longrightarrow> (k, v) \<in> holds s"
    and get_holds: "get s k = (r, s') \<Longrightarrow> holds s' \<subseteq> holds s"
    and put_holds: "holds (put s k v) \<subseteq> insert (k, v) (holds s)"
    and clear_holds: "holds (clear s) = {}"
begin

definition only :: "(pystr \<Rightarrow> finding list \<Rightarrow> bool) \<Rightarrow> 's \<Rightarrow> bool" where
  "only P s \<longleftrightarrow> (\<forall>(k, v) \<in> holds s. P k v)"

lemma only_get: "only P s \<Longrightarrow> get s k = (r, s') \<Longrightarrow> only P s' \<and> (\<forall>v. r = Some v \<longrightarrow> P k v)"
  using get_holds [of s k r s'] get_hit [of s k _ s'] by (auto simp: only_def)

lemma only_put: "only P s \<Longrightarrow> P k v \<Longrightarrow> only P (put s k v)"
  using put_holds [of s k v] by (auto simp: only_def)

lemma only_clear: "only P (clear s)"
  by (simp add: only_def clear_holds)

end

lemma evict_drop: "evict n xs = drop (length xs - n) xs"
proof (induction xs)
  case (Cons x xs)
  show ?case
  proof (cases "n \<le> length xs")
    case True
    then have "length (x # xs) - n = Suc (length xs - n)" by simp
    with Cons True show ?thesis by simp
  qed simp
qed simp

lemma set_evict: "set (evict n xs) \<subseteq> set xs"
  by (simp add: evict_drop set_drop_subset)

lemma length_evict: "length (evict n xs) = min n (length xs)"
  by (simp add: evict_drop)

lemma move_to_end_keys: "distinct (map fst d) \<Longrightarrow> distinct (map fst (move_to_end k d))"
  by (auto simp: move_to_end_def delete_keys distinct_removeAll split: option.splits)

lemma map_of_move_to_end [simp]: "map_of (move_to_end k d) = map_of d"
  by (rule ext) (auto simp: move_to_end_def map_add_def delete_conv' split: option.splits)

lemma length_delete: "distinct (map fst d) \<Longrightarrow> k \<in> fst ` set d \<Longrightarrow> Suc (length (AList.delete k d)) = length d"
proof (induction d)
  case (Cons x d)
  show ?case
  proof (cases "fst x = k")
    case True
    with Cons.prems have "k \<notin> fst ` set d" by auto
    with True show ?thesis by (cases x) (simp add: delete_id)
  next
    case False
    with Cons show ?thesis by (cases x) auto
  qed
qed simp

lemma length_move_to_end: "distinct (map fst d) \<Longrightarrow> length (move_to_end k d) = length d"
  using length_delete [of d k] by (auto simp: move_to_end_def split: option.splits dest!: map_of_SomeD)
    (metis fst_conv image_eqI)

section \<open>Histories\<close>

datatype cache_op = OpGet pystr | OpPut pystr "finding list" | OpClear

fun lru_step :: "lru \<Rightarrow> cache_op \<Rightarrow> lru" where
  "lru_step s (OpGet k) = snd (lru_get s k)"
| "lru_step s (OpPut k v) = lru_put s k v"
| "lru_step s OpClear = lru_clear s"

definition lru_run :: "nat \<Rightarrow> cache_op list \<Rightarrow> lru" where
  "lru_run n ops = foldl lru_step (lru_new n) ops"

fun spec_step :: "(pystr \<rightharpoonup> finding list) \<Rightarrow> cache_op \<Rightarrow> (pystr \<rightharpoonup> finding list)" where
  \<comment> \<open>the specification: a map that forgets nothing\<close>
  "spec_step m (OpGet k) = m"
| "spec_step m (OpPut k v) = m(k \<mapsto> v)"
| "spec_step m OpClear = Map.empty"

definition spec_run :: "cache_op list \<Rightarrow> (pystr \<rightharpoonup> finding list)" where
  "spec_run ops = foldl spec_step Map.empty ops"

definition lru_ok :: "lru \<Rightarrow> bool" where
  "lru_ok s \<longleftrightarrow> distinct (map fst (lru_d s)) \<and> length (lru_d s) \<le> lru_max s"

definition refines :: "lru \<Rightarrow> (pystr \<rightharpoonup> finding list) \<Rightarrow> bool" where
  \<comment> \<open>the cache answers only what the map holds, and all of it while nothing had to be dropped\<close>
  "refines s m \<longleftrightarrow> lru_ok s \<and> finite (dom m) \<and> map_of (lru_d s) \<subseteq>\<^sub>m m
     \<and> (card (dom m) \<le> lru_max s \<longrightarrow> map_of (lru_d s) = m)"

lemma map_le_evict: "distinct (map fst d) \<Longrightarrow> map_of (evict n d) \<subseteq>\<^sub>m map_of d"
proof -
  assume d: "distinct (map fst d)"
  then have "distinct (map fst (evict n d))" by (simp add: evict_drop drop_map [symmetric] distinct_drop)
  then show ?thesis using d set_evict [of n d] by (auto simp: map_le_def dom_map_of_conv_image_fst)
qed

lemma lru_get_refines: "refines s m \<Longrightarrow> refines (snd (lru_get s k)) m"
  by (auto simp: refines_def lru_ok_def lru_get_def move_to_end_keys length_move_to_end split: option.splits)

lemma lru_put_d:
  assumes "lru_ok s"
  shows "lru_d (lru_put s k v) = evict (lru_max s) (move_to_end k (AList.update k v (lru_d s)))"
    and "distinct (map fst (move_to_end k (AList.update k v (lru_d s))))"
    and "map_of (move_to_end k (AList.update k v (lru_d s))) = (map_of (lru_d s))(k \<mapsto> v)"
  using assms by (auto simp: lru_put_def lru_ok_def distinct_update intro!: move_to_end_keys)

lemma delete_subset: "set (AList.delete k d) \<subseteq> set d"
  by (induction d) auto

lemma card_dom_map_of: "distinct (map fst d) \<Longrightarrow> card (dom (map_of d)) = length d"
  by (metis distinct_card dom_map_of_conv_image_fst length_map list.set_map)

lemma lru_put_refines: "refines s m \<Longrightarrow> refines (lru_put s k v) (m(k \<mapsto> v))"
proof -
  assume r: "refines s m"
  let ?d = "move_to_end k (AList.update k v (lru_d s))" and ?m = "m(k \<mapsto> v)"
  from r have ok: "lru_ok s" and fin: "finite (dom m)" by (simp_all add: refines_def)
  note d = lru_put_d [OF ok, of k v]
  have "map_of (evict (lru_max s) ?d) \<subseteq>\<^sub>m (map_of (lru_d s))(k \<mapsto> v)"
    using map_le_evict [OF d(2)] d(3) by simp
  moreover have "(map_of (lru_d s))(k \<mapsto> v) \<subseteq>\<^sub>m ?m"
    using r by (auto simp: refines_def map_le_def)
  ultimately have le: "map_of (evict (lru_max s) ?d) \<subseteq>\<^sub>m ?m" by (rule map_le_trans)
  have dist: "distinct (map fst (evict (lru_max s) ?d))"
    using d(2) by (simp add: evict_drop drop_map [symmetric] distinct_drop)
  have "map_of (evict (lru_max s) ?d) = ?m" if "card (dom ?m) \<le> lru_max s"
  proof -
    have "card (dom m) \<le> card (dom ?m)" using fin by (intro card_mono) auto
    with that r have "map_of (lru_d s) = m" by (simp add: refines_def)
    with d(3) have "map_of ?d = ?m" by simp
    with card_dom_map_of [OF d(2)] that have "length ?d \<le> lru_max s" by simp
    then show ?thesis using \<open>map_of ?d = ?m\<close> by (simp add: evict_drop)
  qed
  with le dist fin d(1) show ?thesis
    by (simp add: refines_def lru_ok_def lru_put_def length_evict)
qed

lemma lru_clear_refines: "refines (lru_clear s) Map.empty"
  by (simp add: refines_def lru_ok_def lru_clear_def)

lemma lru_step_refines: "refines s m \<Longrightarrow> refines (lru_step s op) (spec_step m op)"
  by (cases op) (simp_all add: lru_get_refines lru_put_refines lru_clear_refines)

lemma lru_run_refines: "refines (lru_run n ops) (spec_run ops)"
proof (induction ops rule: rev_induct)
  case Nil
  show ?case by (simp add: lru_run_def spec_run_def refines_def lru_ok_def lru_new_def)
next
  case (snoc op ops)
  then show ?case using lru_step_refines by (simp add: lru_run_def spec_run_def)
qed

lemma lru_step_max: "lru_max (lru_step s op) = lru_max s"
  by (cases op) (auto simp: lru_get_def lru_put_def lru_clear_def split: option.splits)

lemma lru_run_max: "lru_max (lru_run n ops) = n"
  by (induction ops rule: rev_induct) (simp_all add: lru_run_def lru_new_def lru_step_max)

text \<open>C40. The LRU cache refines a map. After any history of lookups, stores and clearings, the cache holds
  at most its capacity of entries, under distinct keys; a lookup answers nothing but the value last stored
  under the key since the last clearing; and it answers exactly that as long as no more distinct keys were
  stored than the capacity, so an entry is dropped only to make room.\<close>

theorem lru_refines_map:
  "distinct (map fst (lru_d (lru_run n ops))) \<and> length (lru_d (lru_run n ops)) \<le> n
   \<and> (\<forall>k v. fst (lru_get (lru_run n ops) k) = Some v \<longrightarrow> spec_run ops k = Some v)
   \<and> (card (dom (spec_run ops)) \<le> n \<longrightarrow> (\<forall>k. fst (lru_get (lru_run n ops) k) = spec_run ops k))"
proof -
  let ?s = "lru_run n ops"
  have get: "fst (lru_get ?s k) = map_of (lru_d ?s) k" for k by (simp add: lru_get_def split: option.splits)
  have r: "lru_ok ?s" "map_of (lru_d ?s) \<subseteq>\<^sub>m spec_run ops"
      "card (dom (spec_run ops)) \<le> n \<longrightarrow> map_of (lru_d ?s) = spec_run ops"
    using lru_run_refines [of n ops] unfolding refines_def lru_run_max by blast+
  have "spec_run ops k = Some v" if "fst (lru_get ?s k) = Some v" for k v
    using r(2) that unfolding get by (metis domI map_le_def)
  with r(1,3) show ?thesis unfolding get lru_ok_def lru_run_max by simp
qed

lemma lru_refines_map_witness:
  "fst (lru_get (lru_run 2 [OpPut [1] [], OpPut [2] [], OpGet [1], OpPut [3] []]) [2]) = None
   \<and> fst (lru_get (lru_run 2 [OpPut [1] [], OpPut [2] [], OpGet [1]]) [1]) = Some []"
proof -
  have "card (dom (spec_run [OpPut [1] [], OpPut [2] [], OpGet [1]])) \<le> 2" by (simp add: spec_run_def card_insert_if)
  with lru_refines_map [of 2 "[OpPut [1] [], OpPut [2] [], OpGet [1]]"]
  have "fst (lru_get (lru_run 2 [OpPut [1] [], OpPut [2] [], OpGet [1]]) [1]) = Some []" by (simp add: spec_run_def)
  moreover have "fst (lru_get (lru_run 2 [OpPut [1] [], OpPut [2] [], OpGet [1], OpPut [3] []]) [2]) = None"
    by (simp add: lru_run_def lru_new_def lru_put_def lru_get_def move_to_end_def)
  ultimately show ?thesis by simp
qed

section \<open>Both caches meet the interface\<close>

interpretation lru: span_cache lru_get lru_put lru_clear "\<lambda>s. set (lru_d s)"
proof (unfold_locales, goal_cases)
  case (1 s k v s')
  then show ?case by (auto simp: lru_get_def split: option.splits dest: map_of_SomeD)
next
  case (2 s k r s')
  then show ?case using delete_subset [of k "lru_d s"] map_of_SomeD [of "lru_d s" k]
    by (cases "map_of (lru_d s) k") (auto simp: lru_get_def move_to_end_def)
next
  case (3 s k v)
  have "set (move_to_end k (AList.update k v (lru_d s))) \<subseteq> insert (k, v) (set (lru_d s))"
  proof
    fix x
    assume "x \<in> set (move_to_end k (AList.update k v (lru_d s)))"
    then have "x \<in> set (AList.delete k (AList.update k v (lru_d s))) \<or> x = (k, v)"
      by (auto simp: move_to_end_def)
    then show "x \<in> insert (k, v) (set (lru_d s))" using delete_subset [of k "lru_d s"] by (auto simp: delete_update_same)
  qed
  then show ?case using set_evict [of "lru_max s" "move_to_end k (AList.update k v (lru_d s))"]
    by (auto simp: lru_put_def)
next
  case (4 s)
  show ?case by (simp add: lru_clear_def)
qed

interpretation null: span_cache null_get null_put null_clear "\<lambda>_. {}"
  by unfold_locales (simp_all add: null_get_def null_put_def)

end
