(* ===== verification/Checker.thy ===== *)
theory Checker
  imports Scanner SpanCache
begin

text \<open>
  The synchronous checker of \<^verbatim>\<open>gateway/base/checker.py\<close>: it bounds the request, scans every span through the
  span cache, turns the findings into a verdict and a failure to scan into the declared stance. The cache is
  an argument (its \<open>get\<close> and \<open>put\<close>, the interface \<open>span_cache\<close>); its state is returned with every outcome, so
  that what was stored before an error stays stored. Timings are not carried. The worker thread and the
  awaiting coroutine are one step: the coroutine only ever waits for the thread.
\<close>

section \<open>Configuration\<close>

record checker_config =
  cc_ceiling_ms :: rat
  cc_amber_low :: rat
  cc_amber_high :: rat
  cc_max_tier :: tier
  cc_fail :: string
  cc_limits :: scan_limits

definition default_config :: checker_config where
  "default_config = \<lparr>cc_ceiling_ms = 50, cc_amber_low = 35 / 100, cc_amber_high = 75 / 100, cc_max_tier = CONTEXT,
     cc_fail = ''closed'', cc_limits = default_limits\<rparr>"

section \<open>Scanning a tree\<close>

definition reanchor :: "span \<Rightarrow> finding \<Rightarrow> finding_error + finding" where
  "reanchor sp f = mk_finding (sp_path sp) (int (f_start f)) (int (f_end f)) (Member (f_class f)) (f_conf f) (sp_leg sp)
     None (f_detector f) [] (f_tier f) (f_advisory f)"

fun reanchor_all :: "span \<Rightarrow> finding list \<Rightarrow> scan_error + finding list" where
  "reanchor_all sp [] = Inr []"
| "reanchor_all sp (f # fs) = (case reanchor sp f of
       Inl e \<Rightarrow> Inl (FindingRefused e)
     | Inr g \<Rightarrow> rbind (reanchor_all sp fs) (\<lambda>gs. Inr (g # gs)))"

type_synonym scan_outcome = "scan_error + (finding list \<times> nat \<times> nat)"
  \<comment> \<open>the findings, the hits and the misses\<close>

definition add_outcome :: "finding list \<Rightarrow> nat \<Rightarrow> nat \<Rightarrow> scan_outcome \<Rightarrow> scan_outcome" where
  "add_outcome fs h m r = rbind r (\<lambda>(gs, h', m'). Inr (fs @ gs, h + h', m + m'))"

fun scan_all :: "('s \<Rightarrow> pystr \<Rightarrow> finding list option \<times> 's) \<Rightarrow> ('s \<Rightarrow> pystr \<Rightarrow> finding list \<Rightarrow> 's)
    \<Rightarrow> (pystr \<Rightarrow> pystr option) \<Rightarrow> nat \<Rightarrow> scan_env \<Rightarrow> span list \<Rightarrow> 's \<Rightarrow> nat \<Rightarrow> scan_outcome \<times> 's" where
  \<comment> \<open>\<open>key\<close> is the cache key of a text, \<open>fuel\<close> bounds the scan of one span\<close>
  "scan_all get put key fuel env [] s n = (Inr ([], 0, 0), s)"
| "scan_all get put key fuel env (sp # sps) s n =
     (case check_at env n (CpSpan (sp_path sp)) of
        Inl e \<Rightarrow> (Inl e, s)
      | Inr n1 \<Rightarrow>
        (case key (sp_text sp) of
           None \<Rightarrow> (Inl KeyEncodeError, s)
         | Some k \<Rightarrow>
           (case get s k of
              (Some cached, s1) \<Rightarrow>
                (case reanchor_all sp cached of
                   Inl e \<Rightarrow> (Inl e, s1)
                 | Inr fs \<Rightarrow> apfst (add_outcome fs 1 0) (scan_all get put key fuel env sps s1 n1))
            | (None, s1) \<Rightarrow>
                (case scan_span fuel env sp n1 of
                   Inl e \<Rightarrow> (Inl e, s1)
                 | Inr (found, n2) \<Rightarrow>
                     apfst (add_outcome found 0 1) (scan_all get put key fuel env sps (put s1 k found) n2)))))"

section \<open>The verdict\<close>

fun top_conf :: "rat \<Rightarrow> finding list \<Rightarrow> rat" where
  \<comment> \<open>\<open>max\<close> of the confidences\<close>
  "top_conf acc [] = acc"
| "top_conf acc (f # fs) = top_conf (max acc (f_conf f)) fs"

definition verdict_of :: "checker_config \<Rightarrow> finding list \<Rightarrow> nat \<Rightarrow> nat \<Rightarrow> check_result" where
  "verdict_of cfg findings hits misses =
     (let enforceable = filter (\<lambda>f. \<not> f_advisory f) findings;
          (v, conf) = (case enforceable of
             [] \<Rightarrow> (GREEN, 1)
           | f # fs \<Rightarrow>
               let top = top_conf (f_conf f) fs in
               (if cc_amber_high cfg \<le> top then RED else if cc_amber_low cfg \<le> top then AMBER else GREEN, top))
      in \<lparr>cr_verdict = v, cr_confidence = conf, cr_tier_reached = cc_max_tier cfg, cr_findings = findings,
          cr_degraded = (if v = AMBER \<and> cc_max_tier cfg < SEMANTIC then Some ''amber_no_tier3'' else None),
          cr_cache_hits = hits, cr_cache_misses = misses\<rparr>)"

definition degraded_result :: "checker_config \<Rightarrow> string \<Rightarrow> tier \<Rightarrow> check_result" where
  "degraded_result cfg reason t =
     \<lparr>cr_verdict = (if cc_fail cfg = ''closed'' then RED else GREEN), cr_confidence = 0, cr_tier_reached = t,
      cr_findings = [], cr_degraded = Some reason, cr_cache_hits = 0, cr_cache_misses = 0\<rparr>"

record checker =
  ck_pack :: pack
  ck_config :: checker_config
  ck_tenant_key :: pybytes

definition checker_env :: "checker \<Rightarrow> (nat \<Rightarrow> rat) \<Rightarrow> scan_env" where
  \<comment> \<open>reading 0 of the clock starts the deadline\<close>
  "checker_env ck clock =
     \<lparr>se_deadline = \<lparr>dl_ceiling_ms = cc_ceiling_ms (ck_config ck), dl_started = clock 0, dl_cancelled = False\<rparr>,
      se_clock = clock, se_limits = cc_limits (ck_config ck), se_pack = ck_pack ck, se_max_tier = cc_max_tier (ck_config ck)\<rparr>"

definition span_key :: "(pybytes \<Rightarrow> pybytes \<Rightarrow> pybytes) \<Rightarrow> checker \<Rightarrow> pystr \<Rightarrow> pystr \<Rightarrow> pystr option" where
  "span_key mac ck tenant_id t = cache_key mac (ck_tenant_key ck) tenant_id (pk_version (ck_pack ck)) t"

definition check :: "('s \<Rightarrow> pystr \<Rightarrow> finding list option \<times> 's) \<Rightarrow> ('s \<Rightarrow> pystr \<Rightarrow> finding list \<Rightarrow> 's)
    \<Rightarrow> (pybytes \<Rightarrow> pybytes \<Rightarrow> pybytes) \<Rightarrow> checker \<Rightarrow> nat \<Rightarrow> (nat \<Rightarrow> rat) \<Rightarrow> 's \<Rightarrow> span_tree \<Rightarrow> pystr
    \<Rightarrow> (scan_error + check_result) \<times> 's" where
  "check get put mac ck fuel clock s tree tenant_id =
     (let cfg = ck_config ck in
      if sl_max_request_chars (cc_limits cfg) < total_chars tree then
        (Inr (degraded_result cfg ''payload_too_large'' CACHE), s)
      else (case scan_all get put (span_key mac ck tenant_id) fuel (checker_env ck clock) (tr_spans tree) s 1 of
          (Inl (BudgetExceeded _), s1) \<Rightarrow> (Inr (degraded_result cfg ''checker_timeout'' CONTEXT), s1)
        | (Inl e, s1) \<Rightarrow> (Inl e, s1)
        | (Inr (findings, hits, misses), s1) \<Rightarrow> (Inr (verdict_of cfg findings hits misses), s1)))"

section \<open>Verdicts\<close>

lemma top_conf_ge: "acc \<le> top_conf acc fs \<and> (\<forall>f \<in> set fs. f_conf f \<le> top_conf acc fs)"
proof (induction fs arbitrary: acc)
  case (Cons f fs)
  from Cons [of "max acc (f_conf f)"] show ?case by (auto intro: order_trans [rotated])
qed simp

lemma top_conf_in: "top_conf acc fs = acc \<or> top_conf acc fs \<in> f_conf ` set fs"
proof (induction fs arbitrary: acc)
  case (Cons f fs)
  from Cons [of "max acc (f_conf f)"] show ?case by (auto simp: max_def split: if_splits)
qed simp

lemma verdict_of_findings [simp]: "cr_findings (verdict_of cfg fs h m) = fs"
  by (simp add: verdict_of_def Let_def split: prod.split)

lemma verdict_of_levels:
  "cr_verdict (verdict_of cfg fs h m) =
     (if \<exists>f \<in> set fs. \<not> f_advisory f \<and> cc_amber_high cfg \<le> f_conf f then RED
      else if \<exists>f \<in> set fs. \<not> f_advisory f \<and> cc_amber_low cfg \<le> f_conf f then AMBER else GREEN)"
proof (cases "filter (\<lambda>f. \<not> f_advisory f) fs")
  case Nil
  then have "\<forall>f \<in> set fs. f_advisory f" by (simp add: filter_empty_conv)
  with Nil show ?thesis by (auto simp: verdict_of_def)
next
  case (Cons g gs)
  let ?top = "top_conf (f_conf g) gs"
  have enf: "{f \<in> set fs. \<not> f_advisory f} = set (g # gs)" using Cons by (metis set_filter)
  have "c \<le> ?top \<longleftrightarrow> (\<exists>f \<in> set (g # gs). c \<le> f_conf f)" for c
    using top_conf_ge [of "f_conf g" gs] top_conf_in [of "f_conf g" gs] by (auto intro: order_trans)
  then have "c \<le> ?top \<longleftrightarrow> (\<exists>f \<in> set fs. \<not> f_advisory f \<and> c \<le> f_conf f)" for c
    unfolding enf [symmetric] by auto
  then show ?thesis using Cons by (simp add: verdict_of_def Let_def)
qed

text \<open>C34. Green means checked. Under the fail-closed stance a check whose verdict is green was not degraded: the
  request was within its bound, every span was scanned or found in the cache, and every finding that may
  enforce is below the amber threshold. A request over its bound and a scan that exceeds its budget are red
  and say why.\<close>

theorem green_means_checked:
  assumes "cc_fail (ck_config ck) = ''closed''" "check get put mac ck fuel clock s tree tenant = (Inr r, s')"
  shows "(cr_verdict r = GREEN \<longrightarrow> cr_degraded r = None \<and> total_chars tree \<le> sl_max_request_chars (cc_limits (ck_config ck))
       \<and> (\<exists>h m. scan_all get put (span_key mac ck tenant) fuel (checker_env ck clock) (tr_spans tree) s 1
             = (Inr (cr_findings r, h, m), s'))
       \<and> (\<forall>f \<in> set (cr_findings r). \<not> f_advisory f \<longrightarrow>
             f_conf f < cc_amber_low (ck_config ck) \<and> f_conf f < cc_amber_high (ck_config ck)))
    \<and> (sl_max_request_chars (cc_limits (ck_config ck)) < total_chars tree
         \<or> (\<exists>w s1. scan_all get put (span_key mac ck tenant) fuel (checker_env ck clock) (tr_spans tree) s 1
               = (Inl (BudgetExceeded w), s1))
       \<longrightarrow> cr_verdict r = RED \<and> cr_degraded r \<noteq> None)"
proof (cases "sl_max_request_chars (cc_limits (ck_config ck)) < total_chars tree")
  case True
  with assms show ?thesis by (auto simp: check_def Let_def degraded_result_def)
next
  case small: False
  let ?run = "scan_all get put (span_key mac ck tenant) fuel (checker_env ck clock) (tr_spans tree) s 1"
  obtain res s1 where run: "?run = (res, s1)" by (cases ?run)
  show ?thesis
  proof (cases res)
    case (Inl e)
    show ?thesis
    proof (cases e)
      case (BudgetExceeded w)
      with assms small run Inl show ?thesis by (auto simp: check_def Let_def degraded_result_def)
    qed (use assms(2) small run Inl in \<open>simp_all add: check_def Let_def\<close>)
  next
    case (Inr p)
    then obtain fs h m where p: "res = Inr (fs, h, m)" by (cases p) auto
    with assms(2) small run have r: "r = verdict_of (ck_config ck) fs h m" "s' = s1"
      by (auto simp: check_def Let_def)
    have "cr_verdict r = GREEN \<Longrightarrow> cr_degraded r = None" by (auto simp: r verdict_of_def Let_def split: prod.splits)
    with small run p r verdict_of_levels [of "ck_config ck" fs h m] show ?thesis
      by (auto split: if_splits simp: not_le)
  qed
qed

text \<open>An amber verdict stays amber under the fail-closed stance.\<close>

lemma amber_is_not_red:
  assumes "f_conf f < cc_amber_high cfg" "cc_amber_low cfg \<le> f_conf f" "\<not> f_advisory f" "cc_max_tier cfg = CONTEXT"
  shows "cr_verdict (verdict_of cfg [f] 0 0) = AMBER" "cr_degraded (verdict_of cfg [f] 0 0) = Some ''amber_no_tier3''"
  using assms by (simp_all add: verdict_of_def Let_def tier_order)

section \<open>A scan depends on the text\<close>

definition anchored_at :: "span \<Rightarrow> finding \<Rightarrow> finding" where
  "anchored_at sp f = f\<lparr>f_path := sp_path sp, f_leg := sp_leg sp\<rparr>"

definition plain :: "finding \<Rightarrow> bool" where
  \<comment> \<open>what re-anchoring keeps: no database id, the stage of its tier, valid offsets and confidence\<close>
  "plain f \<longleftrightarrow> f_path f = [] \<and> f_leg f = Outbound \<and> f_detector_id f = None \<and> f_stage f = STAGE_OF (f_tier f)
     \<and> f_start f \<le> f_end f \<and> 0 \<le> f_conf f \<and> f_conf f \<le> 1"

definition text_scanner :: "(span \<Rightarrow> finding list option) \<Rightarrow> bool" where
  "text_scanner fn \<longleftrightarrow> (\<exists>g. (\<forall>t. \<forall>fs. g t = Some fs \<longrightarrow> (\<forall>f \<in> set fs. plain f))
     \<and> (\<forall>sp. fn sp = map_option (map (anchored_at sp)) (g (sp_text sp))))"

definition unhurried :: "scan_env \<Rightarrow> bool" where
  \<comment> \<open>the deadline does not pass, no detector looks at the clock, and scanners look only at the text\<close>
  "unhurried env \<longleftrightarrow> (\<forall>n. \<not> expired (se_deadline env) (se_clock env n))
     \<and> (\<forall>t. \<forall>c \<in> set (anchor_candidates env t @ shape_candidates env t).
          \<forall>n m. fst (confirm_at env t n c) = fst (confirm_at env t m c))
     \<and> (\<forall>fn \<in> set (pk_scanners (se_pack env)). text_scanner fn)"

lemma unhurried_check: "unhurried env \<Longrightarrow> check_at env n cp = Inr (Suc n)"
  by (auto simp: unhurried_def check_at_def deadline_check_def expired_def)

definition follows :: "span \<Rightarrow> (finding list + scan_error) \<Rightarrow> scan_error + (finding list \<times> nat) \<Rightarrow> bool" where
  \<comment> \<open>the outcome is the given findings, placed at the span, or the given error\<close>
  "follows sp ref r \<longleftrightarrow> (case ref of
       Inl fs \<Rightarrow> (\<forall>f \<in> set fs. plain f) \<and> (\<exists>n. r = Inr (map (anchored_at sp) fs, n))
     | Inr e \<Rightarrow> r = Inl e)"

lemma anchored_at_simps [simp]:
  "f_path (anchored_at sp f) = sp_path sp" "f_leg (anchored_at sp f) = sp_leg sp" "f_start (anchored_at sp f) = f_start f"
  "f_end (anchored_at sp f) = f_end f" "f_class (anchored_at sp f) = f_class f" "f_conf (anchored_at sp f) = f_conf f"
  "f_detector_id (anchored_at sp f) = f_detector_id f" "f_detector (anchored_at sp f) = f_detector f"
  "f_stage (anchored_at sp f) = f_stage f" "f_tier (anchored_at sp f) = f_tier f" "f_advisory (anchored_at sp f) = f_advisory f"
  "anchored_at sp (anchored_at sp' f) = anchored_at sp f"
  by (simp_all add: anchored_at_def)

lemma mk_finding_anchored:
  "(\<exists>e. \<forall>sp. mk_finding (sp_path sp) s e' cls conf (sp_leg sp) None det [] t adv = Inl e)
   \<or> (\<exists>f. plain f \<and> (\<forall>sp. mk_finding (sp_path sp) s e' cls conf (sp_leg sp) None det [] t adv = Inr (anchored_at sp f)))"
proof (cases "mk_finding [] s e' cls conf Outbound None det [] t adv")
  case (Inl e)
  then have "\<forall>sp. mk_finding (sp_path sp) s e' cls conf (sp_leg sp) None det [] t adv = Inl e"
    by (auto simp: mk_finding_def Let_def split: if_splits prod.splits sum.splits)
  then show ?thesis by blast
next
  case (Inr f)
  then have "plain f" "\<forall>sp. mk_finding (sp_path sp) s e' cls conf (sp_leg sp) None det [] t adv = Inr (anchored_at sp f)"
    by (auto simp: mk_finding_def Let_def sync_stage_def plain_def anchored_at_def split: if_splits prod.splits sum.splits)
  then show ?thesis by blast
qed

lemma reanchor_plain: "plain f \<Longrightarrow> reanchor sp (anchored_at sp' f) = Inr (anchored_at sp f)"
  by (auto simp: reanchor_def mk_finding_def coerce_class_def sync_stage_def plain_def anchored_at_def Let_def)

lemma reanchor_all_plain:
  "\<forall>f \<in> set fs. plain f \<Longrightarrow> reanchor_all sp (map (anchored_at sp') fs) = Inr (map (anchored_at sp) fs)"
  by (induction fs) (simp_all add: reanchor_plain)

definition plain_best :: "(finding_key \<times> finding) list \<Rightarrow> bool" where
  "plain_best m \<longleftrightarrow> (\<forall>x \<in> set m. plain (snd x) \<and> fst x = finding_key (snd x))"

lemma plain_best_simps [simp]:
  "plain_best []" "plain_best (x # m) \<longleftrightarrow> plain (snd x) \<and> fst x = finding_key (snd x) \<and> plain_best m"
  by (simp_all add: plain_best_def)

definition move_best :: "span \<Rightarrow> (finding_key \<times> finding) list \<Rightarrow> (finding_key \<times> finding) list" where
  "move_best sp m = map (\<lambda>x. (finding_key (anchored_at sp (snd x)), anchored_at sp (snd x))) m"

lemma finding_key_anchored:
  "plain f \<Longrightarrow> plain g \<Longrightarrow> finding_key (anchored_at sp f) = finding_key (anchored_at sp g) \<longleftrightarrow> finding_key f = finding_key g"
  by (simp add: finding_key_def plain_def)

lemma map_of_move_best:
  "plain_best m \<Longrightarrow> plain f \<Longrightarrow>
     map_of (move_best sp m) (finding_key (anchored_at sp f)) = map_option (anchored_at sp) (map_of m (finding_key f))"
  by (induction m) (auto simp: move_best_def finding_key_anchored)

lemma update_move_best:
  assumes "plain_best m" "plain f"
  shows "AList.update (finding_key (anchored_at sp f)) (anchored_at sp f) (move_best sp m)
       = move_best sp (AList.update (finding_key f) f m)"
  using assms(1)
proof (induction m)
  case Nil
  show ?case by (simp add: move_best_def)
next
  case (Cons x m)
  obtain k g where x: "x = (k, g)" by (cases x)
  with Cons.prems have g: "plain g" "k = finding_key g" "plain_best m" by simp_all
  show ?case
  proof (cases "k = finding_key f")
    case True
    with x g assms(2) show ?thesis by (simp add: move_best_def finding_key_anchored)
  next
    case False
    with x g assms(2) Cons.IH show ?thesis by (simp add: move_best_def finding_key_anchored)
  qed
qed

lemma plain_best_update: "plain_best m \<Longrightarrow> plain f \<Longrightarrow> plain_best (AList.update (finding_key f) f m)"
proof (induction m)
  case (Cons x m)
  then show ?case by (cases x) simp
qed simp

lemma keep_best_moved:
  assumes "plain_best m" "plain f"
  shows "keep_best (move_best sp m) (anchored_at sp f) = move_best sp (keep_best m f) \<and> plain_best (keep_best m f)"
  using assms
  by (auto simp: keep_best_def map_of_move_best update_move_best plain_best_update split: option.splits)

lemma foldl_keep_best_moved:
  "plain_best m \<Longrightarrow> \<forall>f \<in> set fs. plain f \<Longrightarrow>
     foldl keep_best (move_best sp m) (map (anchored_at sp) fs) = move_best sp (foldl keep_best m fs)
     \<and> plain_best (foldl keep_best m fs)"
  by (induction fs arbitrary: m) (simp_all add: keep_best_moved)

lemma insort_key_same_order:
  "\<forall>b \<in> set xs. f a \<le> f b \<longleftrightarrow> g a \<le> g b \<Longrightarrow> insort_key f a xs = insort_key g a xs"
  by (induction xs) auto

lemma sort_key_same_order:
  assumes "\<forall>a \<in> set xs. \<forall>b \<in> set xs. f a \<le> f b \<longleftrightarrow> g a \<le> g b"
  shows "sort_key f xs = sort_key g xs"
  using assms
proof (induction xs)
  case (Cons a xs)
  then have "sort_key f xs = sort_key g xs" by simp
  with Cons.prems insort_key_same_order [of "sort_key g xs" f a g] show ?case by simp
qed simp

lemma insort_key_map: "insort_key f (h a) (map h xs) = map h (insort_key (\<lambda>x. f (h x)) a xs)"
  by (induction xs) auto

lemma sort_key_map: "sort_key f (map h xs) = map h (sort_key (\<lambda>x. f (h x)) xs)"
  by (induction xs) (simp_all add: insort_key_map)

lemma dedupe_anchored:
  assumes "\<forall>f \<in> set fs. plain f"
  shows "dedupe (map (anchored_at sp) fs) = map (anchored_at sp) (dedupe fs)" "\<forall>f \<in> set (dedupe fs). plain f"
proof -
  show pl: "\<forall>f \<in> set (dedupe fs). plain f" using assms dedupe_subset by blast
  let ?m = "foldl keep_best [] fs"
  have "foldl keep_best [] (map (anchored_at sp) fs) = move_best sp ?m" "plain_best ?m"
    using foldl_keep_best_moved [of "[]" fs sp] assms by (simp_all add: move_best_def plain_best_def)
  then have "dedupe (map (anchored_at sp) fs)
      = sort_key (\<lambda>f. (f_path f, f_start f)) (map (anchored_at sp) (map snd ?m))"
    by (simp add: dedupe_def move_best_def o_def)
  also have "\<dots> = map (anchored_at sp) (sort_key (\<lambda>f. (sp_path sp, f_start f)) (map snd ?m))"
    by (simp only: sort_key_map anchored_at_simps)
  also have "sort_key (\<lambda>f. (sp_path sp, f_start f)) (map snd ?m) = sort_key (\<lambda>f. (f_path f, f_start f)) (map snd ?m)"
    using \<open>plain_best ?m\<close> by (intro sort_key_same_order) (auto simp: plain_best_def plain_def)
  finally show "dedupe (map (anchored_at sp) fs) = map (anchored_at sp) (dedupe fs)" by (simp add: dedupe_def)
qed

lemma shift_all_anchored:
  assumes "\<forall>f \<in> set fs. plain f"
  shows "\<exists>ref. (\<forall>f \<in> set (case ref of Inl gs \<Rightarrow> gs | Inr e \<Rightarrow> []). plain f)
    \<and> (\<forall>sp. shift_all pos (map (anchored_at sp) fs) = (case ref of Inl gs \<Rightarrow> Inr (map (anchored_at sp) gs) | Inr e \<Rightarrow> Inl e))"
  using assms
proof (induction fs)
  case Nil
  show ?case by (intro exI [of _ "Inl []"]) simp
next
  case (Cons f fs)
  then obtain ref where ref: "\<forall>f \<in> set (case ref of Inl gs \<Rightarrow> gs | Inr e \<Rightarrow> []). plain f"
    "\<forall>sp. shift_all pos (map (anchored_at sp) fs) = (case ref of Inl gs \<Rightarrow> Inr (map (anchored_at sp) gs) | Inr e \<Rightarrow> Inl e)"
    by auto
  from mk_finding_anchored [of "int (f_start f) + int pos" "int (f_end f) + int pos" "Member (f_class f)" "f_conf f" "f_detector f"
      "f_tier f" "f_advisory f"]
  consider (bad) e where "\<forall>sp. shift_finding pos (anchored_at sp f) = Inl e"
    | (good) g where "plain g" "\<forall>sp. shift_finding pos (anchored_at sp f) = Inr (anchored_at sp g)"
    unfolding shift_finding_def by auto
  then show ?case
  proof cases
    case bad
    then show ?thesis by (intro exI [of _ "Inr (FindingRefused e)"]) simp
  next
    case good
    show ?thesis
    proof (cases ref)
      case (Inl gs)
      with good ref show ?thesis by (intro exI [of _ "Inl (g # gs)"]) simp
    next
      case (Inr e)
      with good ref show ?thesis by (intro exI [of _ "Inr e"]) simp
    qed
  qed
qed

lemma follows_bind:
  assumes "follows sp ref r"
    and "\<And>fs n. ref = Inl fs \<Longrightarrow> \<forall>f \<in> set fs. plain f \<Longrightarrow> follows sp (g fs) (k (map (anchored_at sp) fs, n))"
  shows "follows sp (case ref of Inl fs \<Rightarrow> g fs | Inr e \<Rightarrow> Inr e) (rbind r k)"
proof (cases ref)
  case (Inl fs)
  with assms(1) obtain n where "r = Inr (map (anchored_at sp) fs, n)" "\<forall>f \<in> set fs. plain f" by (auto simp: follows_def)
  with assms(2) [OF Inl, of n] Inl show ?thesis by simp
next
  case (Inr e)
  with assms(1) show ?thesis by (simp add: follows_def)
qed

lemma follows_Inr: "\<forall>f \<in> set fs. plain f \<Longrightarrow> follows sp (Inl fs) (Inr (map (anchored_at sp) fs, n))"
  by (simp add: follows_def)

lemma follows_Nil: "follows sp (Inl []) (Inr ([], n))"
  by (simp add: follows_def)

lemma follows_plain: "follows sp (Inl fs) r \<Longrightarrow> \<forall>f \<in> set fs. plain f"
  by (simp add: follows_def)

lemma confirm_all_follows:
  assumes "\<forall>c \<in> set cs. \<forall>n m. fst (confirm_at env t n c) = fst (confirm_at env t m c)"
  shows "\<exists>ref. \<forall>sp n. sp_text sp = t \<longrightarrow> follows sp ref (confirm_all env sp n cs)"
  using assms
proof (induction cs)
  case Nil
  show ?case by (intro exI [of _ "Inl []"]) (simp add: follows_Nil)
next
  case (Cons c cs)
  then obtain ref where ref: "\<And>sp n. sp_text sp = t \<Longrightarrow> follows sp ref (confirm_all env sp n cs)" by auto
  define r where "r = fst (confirm_at env t 0 c)"
  have at: "\<exists>n1. confirm_at env t n c = (r, n1)" for n
    using Cons.prems unfolding r_def by (metis list.set_intros(1) prod.collapse)
  show ?case
  proof (cases r)
    case None
    have "follows sp ref (confirm_all env sp n (c # cs))" if "sp_text sp = t" for sp n
      using at [of n] ref [OF that] that None by auto
    then show ?thesis by blast
  next
    case (Some m)
    from mk_finding_anchored [of "ma_start m" "ma_end m"
        "case ma_class m of Some c \<Rightarrow> Member c | None \<Rightarrow> (case det_class (fst c) of ClassMember c \<Rightarrow> Member c | _ \<Rightarrow> ClassName [])"
        "ma_conf m" "det_name (fst c)" "det_tier (fst c)" "det_advisory (fst c)"]
    consider (bad) e where "\<And>sp. to_finding (fst c) m sp = Inl e"
      | (good) f where "plain f" "\<And>sp. to_finding (fst c) m sp = Inr (anchored_at sp f)"
      unfolding to_finding_def by blast
    then show ?thesis
    proof cases
      case bad
      have "follows sp (Inr (FindingRefused e)) (confirm_all env sp n (c # cs))" if "sp_text sp = t" for sp n
        using at [of n] that Some bad by (auto simp: follows_def)
      then show ?thesis by blast
    next
      case good
      have "follows sp (case ref of Inl fs \<Rightarrow> Inl (f # fs) | Inr e \<Rightarrow> Inr e) (confirm_all env sp n (c # cs))"
        if "sp_text sp = t" for sp n
      proof -
        from at [of n] obtain n1 where "confirm_at env t n c = (r, n1)" by blast
        then have "confirm_all env sp n (c # cs)
            = rbind (confirm_all env sp n1 cs) (\<lambda>(fs, n2). Inr (anchored_at sp f # fs, n2))"
          using that Some good by simp
        moreover have "follows sp (Inl (f # fs)) (Inr (anchored_at sp f # map (anchored_at sp) fs, n2))"
          if "\<forall>f \<in> set fs. plain f" for fs n2
          using follows_Inr [of "f # fs" sp n2] that good by simp
        ultimately show ?thesis
          by (simp only:) (rule follows_bind [OF ref [OF that]], simp)
      qed
      then show ?thesis by blast
    qed
  qed
qed

lemma run_scanners_follows:
  assumes "unhurried env" "\<forall>fn \<in> set fns. text_scanner fn"
  shows "\<exists>ref. \<forall>sp n. sp_text sp = t \<longrightarrow> follows sp ref (run_scanners env sp n fns)"
  using assms(2)
proof (induction fns)
  case Nil
  show ?case by (intro exI [of _ "Inl []"]) (simp add: follows_Nil)
next
  case (Cons fn fns)
  then obtain ref where ref: "\<And>sp n. sp_text sp = t \<Longrightarrow> follows sp ref (run_scanners env sp n fns)" by auto
  from Cons.prems obtain g where g: "\<And>t fs. g t = Some fs \<Longrightarrow> \<forall>f \<in> set fs. plain f"
      "\<And>sp. fn sp = map_option (map (anchored_at sp)) (g (sp_text sp))"
    unfolding text_scanner_def by auto
  define hs where "hs = (case g t of None \<Rightarrow> [] | Some fs \<Rightarrow> fs)"
  have hs: "\<forall>f \<in> set hs. plain f" using g(1) [of t] by (cases "g t") (simp_all add: hs_def)
  have "follows sp (case ref of Inl fs \<Rightarrow> Inl (hs @ fs) | Inr e \<Rightarrow> Inr e) (run_scanners env sp n (fn # fns))"
    if t: "sp_text sp = t" for sp n
  proof -
    have "run_scanners env sp n (fn # fns)
        = rbind (run_scanners env sp (Suc n) fns) (\<lambda>(rest, n2). Inr (map (anchored_at sp) hs @ rest, n2))"
      using t g(2) unhurried_check [OF assms(1)] by (auto simp: hs_def split: option.splits)
    moreover have "follows sp (Inl (hs @ fs)) (Inr (map (anchored_at sp) hs @ map (anchored_at sp) fs, n2))"
      if "\<forall>f \<in> set fs. plain f" for fs n2
      using follows_Inr [of "hs @ fs" sp n2] that hs by auto
    ultimately show ?thesis
      by (simp only:) (rule follows_bind [OF ref [OF t]], simp)
  qed
  then show ?case by blast
qed

lemma scan_whole_follows:
  assumes "unhurried env"
  shows "\<exists>ref. \<forall>sp n. sp_text sp = t \<longrightarrow> follows sp ref (scan_whole env sp n)"
proof -
  let ?cs = "anchor_candidates env t @ shape_candidates env t"
  have "\<forall>fn \<in> set (pk_scanners (se_pack env)). text_scanner fn" using assms by (simp add: unhurried_def)
  from run_scanners_follows [OF assms this] obtain xs where
    xs: "\<And>sp n. sp_text sp = t \<Longrightarrow> follows sp xs (run_scanners env sp n (pk_scanners (se_pack env)))"
    by metis
  have "\<forall>c \<in> set ?cs. \<forall>n m. fst (confirm_at env t n c) = fst (confirm_at env t m c)"
    using assms unfolding unhurried_def by blast
  from confirm_all_follows [OF this] obtain ys where
    ys: "\<And>sp n. sp_text sp = t \<Longrightarrow> follows sp ys (confirm_all env sp n ?cs)"
    by metis
  define ref where "ref = (case xs of Inl extra \<Rightarrow>
      (if ?cs = [] then Inl (dedupe extra)
       else (case ys of Inl fs \<Rightarrow> Inl (dedupe (fs @ extra)) | Inr e \<Rightarrow> Inr e)) | Inr e \<Rightarrow> Inr e)"
  have ded: "follows sp (Inl (dedupe fs)) (Inr (dedupe (map (anchored_at sp) fs), n))" if "\<forall>f \<in> set fs. plain f" for sp fs n
    unfolding dedupe_anchored(1) [OF that] by (rule follows_Inr) (rule dedupe_anchored(2) [OF that])
  have "follows sp ref (scan_whole env sp n)" if t: "sp_text sp = t" for sp n
    unfolding scan_whole_def Let_def ref_def t
  proof (rule follows_bind [OF xs [OF t]], simp only: prod.case)
    fix extra n1
    assume extra: "\<forall>f \<in> set extra. plain f"
    have "follows sp (case ys of Inl fs \<Rightarrow> Inl (dedupe (fs @ extra)) | Inr e \<Rightarrow> Inr e)
        (rbind (confirm_all env sp (Suc n1) ?cs) (\<lambda>(fs, n3). Inr (dedupe (fs @ map (anchored_at sp) extra), n3)))"
    proof (rule follows_bind [OF ys [OF t]], simp only: prod.case)
      fix fs n3
      assume "\<forall>f \<in> set fs. plain f"
      with extra have "\<forall>f \<in> set (fs @ extra). plain f" by auto
      from ded [OF this] show "follows sp (Inl (dedupe (fs @ extra)))
          (Inr (dedupe (map (anchored_at sp) fs @ map (anchored_at sp) extra), n3))" by simp
    qed
    then show "follows sp (if ?cs = [] then Inl (dedupe extra)
         else case ys of Inl fs \<Rightarrow> Inl (dedupe (fs @ extra)) | Inr e \<Rightarrow> Inr e)
       (if ?cs = [] then Inr (dedupe (map (anchored_at sp) extra), n1)
        else rbind (check_at env n1 (CpConfirm (sp_path sp))) (\<lambda>n2. rbind (confirm_all env sp n2 ?cs)
          (\<lambda>(fs, n3). Inr (dedupe (fs @ map (anchored_at sp) extra), n3))))"
      using ded [OF extra] unhurried_check [OF assms] by (simp del: append_is_Nil_conv)
  qed
  then show ?thesis by blast
qed

lemma scan_follows:
  assumes "unhurried env"
  shows "(\<forall>t. \<exists>ref. \<forall>sp n. sp_text sp = t \<longrightarrow> follows sp ref (scan_span fuel env sp n))
       \<and> (\<forall>t pos. \<exists>ref. \<forall>sp n. sp_text sp = t \<longrightarrow> follows sp ref (scan_chunks fuel env sp pos n))"
proof (induction fuel)
  case 0
  have "follows sp (Inr OutOfFuel) (Inl OutOfFuel)" for sp by (simp add: follows_def)
  then show ?case by (metis scan_span.simps(1) scan_chunks.simps(1))
next
  case (Suc fuel)
  let ?st = "sl_chunk_chars (se_limits env)" and ?ov = "overlap_of (se_pack env)"
  have spans: "\<exists>ref. \<forall>sp n. sp_text sp = t \<longrightarrow> follows sp ref (scan_span (Suc fuel) env sp n)" for t
  proof -
    from Suc obtain xs where xs: "\<And>sp n. sp_text sp = t \<Longrightarrow> follows sp xs (scan_chunks fuel env sp 0 n)" by metis
    from scan_whole_follows [OF assms] obtain ys where
      ys: "\<And>sp n. sp_text sp = t \<Longrightarrow> follows sp ys (scan_whole env sp n)" by metis
    have "follows sp (if t = [] then Inl [] else if sl_max_span_chars (se_limits env) < length t
         then (case xs of Inl out \<Rightarrow> Inl (dedupe out) | Inr e \<Rightarrow> Inr e) else ys) (scan_span (Suc fuel) env sp n)"
      if t: "sp_text sp = t" for sp n
    proof -
      have "follows sp (case xs of Inl out \<Rightarrow> Inl (dedupe out) | Inr e \<Rightarrow> Inr e)
          (rbind (scan_chunks fuel env sp 0 n) (\<lambda>(out, n1). Inr (dedupe out, n1)))"
        by (rule follows_bind [OF xs [OF t]], simp only: prod.case dedupe_anchored(1))
          (rule follows_Inr, erule dedupe_anchored(2))
      then show ?thesis using t ys [OF t] follows_Nil by simp
    qed
    then show ?thesis by blast
  qed
  have chunks: "\<exists>ref. \<forall>sp n. sp_text sp = t \<longrightarrow> follows sp ref (scan_chunks (Suc fuel) env sp pos n)" for t pos
  proof -
    from Suc obtain xs where xs: "\<And>sp n. sp_text sp = slice pos (pos + ?st + ?ov) t \<Longrightarrow> follows sp xs (scan_span fuel env sp n)"
      by metis
    from Suc obtain zs where zs: "\<And>sp n. sp_text sp = t \<Longrightarrow> follows sp zs (scan_chunks fuel env sp (pos + ?st) n)" by metis
    have pl: "\<exists>ys. (\<forall>f \<in> set (case ys of Inl gs \<Rightarrow> gs | Inr e \<Rightarrow> []). plain f)
      \<and> (\<forall>sp. shift_all pos (map (anchored_at sp) fs) = (case ys of Inl gs \<Rightarrow> Inr (map (anchored_at sp) gs) | Inr e \<Rightarrow> Inl e))"
      if "\<forall>f \<in> set fs. plain f" for fs using shift_all_anchored [OF that] .
    define ys where "ys fs = (SOME ys. (\<forall>f \<in> set (case ys of Inl gs \<Rightarrow> gs | Inr e \<Rightarrow> []). plain f)
      \<and> (\<forall>sp. shift_all pos (map (anchored_at sp) fs) = (case ys of Inl gs \<Rightarrow> Inr (map (anchored_at sp) gs) | Inr e \<Rightarrow> Inl e)))" for fs
    note ys = someI_ex [OF pl, folded ys_def]
    define ref where "ref = (if length t \<le> pos then Inl []
      else case xs of Inr e \<Rightarrow> Inr e | Inl cs \<Rightarrow>
        (case ys cs of Inr e \<Rightarrow> Inr e | Inl gs \<Rightarrow> (case zs of Inr e \<Rightarrow> Inr e | Inl rest \<Rightarrow> Inl (gs @ rest))))"
    have "follows sp ref (scan_chunks (Suc fuel) env sp pos n)" if t: "sp_text sp = t" for sp n
    proof (cases "length t \<le> pos")
      case True
      with t show ?thesis by (simp add: ref_def follows_Nil)
    next
      case False
      have same: "anchored_at (chunk_piece env sp pos) = anchored_at sp"
        by (rule ext) (simp add: anchored_at_def chunk_piece_def)
      have piece: "follows sp xs (scan_span fuel env (chunk_piece env sp pos) n1)" for n1
      proof -
        have "sp_text (chunk_piece env sp pos) = slice pos (pos + ?st + ?ov) t" using t by (simp add: chunk_piece_def)
        from xs [OF this] show ?thesis unfolding follows_def same .
      qed
      have "follows sp (case xs of Inl cs \<Rightarrow> (case ys cs of Inr e \<Rightarrow> Inr e | Inl gs \<Rightarrow> (case zs of Inr e \<Rightarrow> Inr e | Inl rest \<Rightarrow> Inl (gs @ rest)))
           | Inr e \<Rightarrow> Inr e)
        (rbind (scan_span fuel env (chunk_piece env sp pos) (Suc n)) (\<lambda>(fs, n2). rbind (shift_all pos fs) (\<lambda>gs.
          rbind (scan_chunks fuel env sp (pos + ?st) n2) (\<lambda>(rest, n3). Inr (gs @ rest, n3)))))"
      proof (rule follows_bind [OF piece], simp only: prod.case)
        fix cs n2
        assume cs: "\<forall>f \<in> set cs. plain f"
        show "follows sp (case ys cs of Inr e \<Rightarrow> Inr e | Inl gs \<Rightarrow> (case zs of Inr e \<Rightarrow> Inr e | Inl rest \<Rightarrow> Inl (gs @ rest)))
          (rbind (shift_all pos (map (anchored_at sp) cs)) (\<lambda>gs. rbind (scan_chunks fuel env sp (pos + ?st) n2)
            (\<lambda>(rest, n3). Inr (gs @ rest, n3))))"
        proof (cases "ys cs")
          case (Inr e)
          with ys [OF cs] show ?thesis by (simp add: follows_def)
        next
          case (Inl gs)
          with ys [OF cs] have gs: "\<forall>f \<in> set gs. plain f" "shift_all pos (map (anchored_at sp) cs) = Inr (map (anchored_at sp) gs)"
            by simp_all
          have "follows sp (case zs of Inl rest \<Rightarrow> Inl (gs @ rest) | Inr e \<Rightarrow> Inr e)
            (rbind (scan_chunks fuel env sp (pos + ?st) n2) (\<lambda>(rest, n3). Inr (map (anchored_at sp) gs @ rest, n3)))"
          proof (rule follows_bind [OF zs [OF t]], simp only: prod.case)
            fix rest n3
            assume "\<forall>f \<in> set rest. plain f"
            with gs follows_Inr [of "gs @ rest" sp n3]
            show "follows sp (Inl (gs @ rest)) (Inr (map (anchored_at sp) gs @ map (anchored_at sp) rest, n3))" by auto
          qed
          with Inl gs(2) show ?thesis by simp
        qed
      qed
      with False t unhurried_check [OF assms] show ?thesis by (simp add: ref_def)
    qed
    then show ?thesis by blast
  qed
  show ?case using spans chunks by blast
qed

text \<open>The findings of a text, as the scan of any span with this text places them.\<close>

definition scan_ref :: "nat \<Rightarrow> scan_env \<Rightarrow> pystr \<Rightarrow> finding list + scan_error" where
  "scan_ref fuel env t = (SOME ref. \<forall>sp n. sp_text sp = t \<longrightarrow> follows sp ref (scan_span fuel env sp n))"

lemma scan_ref:
  assumes "unhurried env"
  shows "follows sp (scan_ref fuel env (sp_text sp)) (scan_span fuel env sp n)"
proof -
  from scan_follows [OF assms, of fuel]
  have "\<exists>ref. \<forall>sp' n. sp_text sp' = sp_text sp \<longrightarrow> follows sp' ref (scan_span fuel env sp' n)" by blast
  from someI_ex [OF this] show ?thesis by (simp add: scan_ref_def)
qed

text \<open>The scan is the same under every clock by which the deadline does not pass.\<close>

definition same_scan :: "scan_env \<Rightarrow> scan_env \<Rightarrow> bool" where
  "same_scan env env' \<longleftrightarrow> unhurried env \<and> unhurried env' \<and> se_pack env = se_pack env'
     \<and> se_limits env = se_limits env' \<and> se_max_tier env = se_max_tier env'"

lemma same_check: "same_scan env env' \<Longrightarrow> check_at env n cp = check_at env' n cp"
  by (simp add: same_scan_def unhurried_check)

lemma same_confirm: "same_scan env env' \<Longrightarrow> confirm_at env t n c = confirm_at env' t n c"
  by (simp add: confirm_at_def same_check)

lemma same_confirm_all: "same_scan env env' \<Longrightarrow> confirm_all env sp n cs = confirm_all env' sp n cs"
proof (induction cs arbitrary: n)
  case (Cons c cs)
  then show ?case by (simp only: confirm_all.simps same_confirm [OF Cons.prems])
qed simp

lemma same_scanners: "same_scan env env' \<Longrightarrow> run_scanners env sp n fns = run_scanners env' sp n fns"
proof (induction fns arbitrary: n)
  case (Cons fn fns)
  then show ?case by (simp only: run_scanners.simps same_check [OF Cons.prems])
qed simp

lemma same_whole: "same_scan env env' \<Longrightarrow> scan_whole env sp n = scan_whole env' sp n"
proof -
  assume s: "same_scan env env'"
  then have p: "se_pack env = se_pack env'" "se_max_tier env = se_max_tier env'" by (simp_all add: same_scan_def)
  have "anchor_candidates env t = anchor_candidates env' t" "shape_candidates env t = shape_candidates env' t"
    "se_pack env = se_pack env'" for t
    unfolding anchor_candidates_def shape_candidates_def p by (rule refl)+
  then show ?thesis
    by (simp only: scan_whole_def same_check [OF s] same_confirm_all [OF s] same_scanners [OF s])
qed

lemma same_span:
  assumes "same_scan env env'"
  shows "(\<forall>sp n. scan_span fuel env sp n = scan_span fuel env' sp n)
       \<and> (\<forall>sp pos n. scan_chunks fuel env sp pos n = scan_chunks fuel env' sp pos n)"
proof (induction fuel)
  case (Suc fuel)
  have "se_limits env = se_limits env'" "chunk_piece env sp pos = chunk_piece env' sp pos" for sp pos
    using assms by (simp_all add: same_scan_def chunk_piece_def)
  with Suc show ?case
    by (simp only: scan_span.simps scan_chunks.simps same_whole [OF assms] same_check [OF assms]) simp
qed simp

lemma same_scan_ref: "same_scan env env' \<Longrightarrow> scan_ref fuel env = scan_ref fuel env'"
  by (rule ext) (simp add: scan_ref_def same_span)

section \<open>The cache changes nothing\<close>

text \<open>What an outcome says, but for the counts of hits and misses.\<close>

definition without_counts :: "scan_outcome \<Rightarrow> scan_error + finding list" where
  "without_counts r = (case r of Inl e \<Rightarrow> Inl e | Inr (fs, h, m) \<Rightarrow> Inr fs)"

lemma without_counts_add: "without_counts (add_outcome fs h m r) = rbind (without_counts r) (\<lambda>gs. Inr (fs @ gs))"
  by (cases r) (auto simp: without_counts_def add_outcome_def)

context span_cache
begin

definition scanned :: "(pystr \<Rightarrow> pystr option) \<Rightarrow> nat \<Rightarrow> scan_env \<Rightarrow> pystr set \<Rightarrow> pystr \<Rightarrow> finding list \<Rightarrow> bool" where
  \<comment> \<open>the value is the scan of one of the texts that have the key\<close>
  "scanned key fuel env T k v \<longleftrightarrow> (\<exists>t \<in> T. \<exists>sp fs. key t = Some k \<and> scan_ref fuel env t = Inl fs \<and> v = map (anchored_at sp) fs)"

lemma scan_all_cold:
  assumes "unhurried env" "inj_on key T" "only (scanned key fuel env T) s" "\<forall>sp \<in> set sps. sp_text sp \<in> T"
  shows "without_counts (fst (scan_all get put key fuel env sps s n))
       = without_counts (fst (scan_all null_get null_put key fuel env sps c m))
     \<and> only (scanned key fuel env T) (snd (scan_all get put key fuel env sps s n))"
  using assms(3,4)
proof (induction sps arbitrary: s n c m)
  case Nil
  then show ?case by simp
next
  case (Cons sp sps)
  let ?t = "sp_text sp"
  from Cons.prems have T: "?t \<in> T" "\<forall>sp \<in> set sps. sp_text sp \<in> T" by auto
  note chk = unhurried_check [OF assms(1)]
  show ?case
  proof (cases "key ?t")
    case None
    with Cons.prems chk show ?thesis by simp
  next
    case (Some k)
    note k = this
    obtain r s1 where get: "get s k = (r, s1)" by (cases "get s k")
    from only_get [OF Cons.prems(1) get] have s1: "only (scanned key fuel env T) s1"
      and hit: "\<And>v. r = Some v \<Longrightarrow> scanned key fuel env T k v" by auto
    show ?thesis
    proof (cases "scan_ref fuel env ?t")
      case (Inl fs)
      have fs: "\<forall>f \<in> set fs. plain f" using scan_ref [OF assms(1), of sp fuel n] by (simp add: Inl follows_def)
      have scan: "\<exists>j'. scan_span fuel env sp j = Inr (map (anchored_at sp) fs, j')" for j
        using scan_ref [OF assms(1), of sp fuel j] by (simp add: Inl follows_def)
      from scan [of "Suc m"] obtain m' where cold: "scan_span fuel env sp (Suc m) = Inr (map (anchored_at sp) fs, m')" ..
      let ?c = "null_put (snd (null_get c k)) k (map (anchored_at sp) fs)"
      have null: "scan_all null_get null_put key fuel env (sp # sps) c m
          = apfst (add_outcome (map (anchored_at sp) fs) 0 1) (scan_all null_get null_put key fuel env sps ?c m')"
        using chk k cold by (simp add: null_get_def)
      show ?thesis
      proof (cases r)
        case None
        from scan [of "Suc n"] obtain n' where warm: "scan_span fuel env sp (Suc n) = Inr (map (anchored_at sp) fs, n')" ..
        have "scanned key fuel env T k (map (anchored_at sp) fs)"
          using T(1) k Inl by (auto simp: scanned_def)
        from only_put [OF s1 this] have "only (scanned key fuel env T) (put s1 k (map (anchored_at sp) fs))" .
        note ih = Cons.IH [OF this T(2), of n' ?c m']
        have "scan_all get put key fuel env (sp # sps) s n
            = apfst (add_outcome (map (anchored_at sp) fs) 0 1)
                (scan_all get put key fuel env sps (put s1 k (map (anchored_at sp) fs)) n')"
          using chk k get None warm by simp
        with null ih show ?thesis by (simp add: without_counts_add)
      next
        case (Some v)
        from hit [OF Some] obtain t sp' gs where v: "t \<in> T" "key t = Some k" "scan_ref fuel env t = Inl gs"
            "v = map (anchored_at sp') gs"
          by (auto simp: scanned_def)
        from inj_onD [OF assms(2) _ v(1) T(1)] v(2) k have "t = ?t" by simp
        with v Inl have "v = map (anchored_at sp') fs" by simp
        with fs have "reanchor_all sp v = Inr (map (anchored_at sp) fs)" by (simp add: reanchor_all_plain)
        then have "scan_all get put key fuel env (sp # sps) s n
            = apfst (add_outcome (map (anchored_at sp) fs) 1 0) (scan_all get put key fuel env sps s1 (Suc n))"
          using chk k get Some by simp
        with null Cons.IH [OF s1 T(2), of "Suc n" ?c m'] show ?thesis by (simp add: without_counts_add)
      qed
    next
      case (Inr e)
      have scan: "scan_span fuel env sp j = Inl e" for j
        using scan_ref [OF assms(1), of sp fuel j] by (simp add: Inr follows_def)
      have "r = None"
      proof (rule ccontr)
        assume "r \<noteq> None"
        then obtain v where "r = Some v" by blast
        from hit [OF this] obtain t gs where t: "t \<in> T" "key t = Some k" "scan_ref fuel env t = Inl gs"
          by (auto simp: scanned_def)
        from inj_onD [OF assms(2) _ t(1) T(1)] t(2) k have "t = ?t" by simp
        with t(3) Inr show False by simp
      qed
      with chk k get scan s1 show ?thesis by (simp add: null_get_def)
    qed
  qed
qed

end

fun run_checks :: "('s \<Rightarrow> pystr \<Rightarrow> finding list option \<times> 's) \<Rightarrow> ('s \<Rightarrow> pystr \<Rightarrow> finding list \<Rightarrow> 's)
    \<Rightarrow> (pybytes \<Rightarrow> pybytes \<Rightarrow> pybytes) \<Rightarrow> checker \<Rightarrow> nat \<Rightarrow> pystr \<Rightarrow> 's \<Rightarrow> ((nat \<Rightarrow> rat) \<times> span_tree) list
    \<Rightarrow> (scan_error + check_result) list" where
  \<comment> \<open>successive requests of one tenant, each with its own readings of the clock\<close>
  "run_checks get put mac ck fuel tenant s [] = []"
| "run_checks get put mac ck fuel tenant s ((clock, tree) # qs) =
     (case check get put mac ck fuel clock s tree tenant of
        (r, s1) \<Rightarrow> r # run_checks get put mac ck fuel tenant s1 qs)"

definition answer :: "scan_error + check_result \<Rightarrow> scan_error + check_result" where
  "answer r = map_sum id (\<lambda>c. c\<lparr>cr_cache_hits := 0, cr_cache_misses := 0\<rparr>) r"

lemma verdict_of_counts:
  "verdict_of cfg fs h m\<lparr>cr_cache_hits := 0, cr_cache_misses := 0\<rparr> = verdict_of cfg fs 0 0"
  by (simp add: verdict_of_def Let_def split: prod.split)

lemma answer_check:
  "answer (fst (check get put mac ck fuel clock s tree tenant)) =
     (if sl_max_request_chars (cc_limits (ck_config ck)) < total_chars tree
      then Inr (degraded_result (ck_config ck) ''payload_too_large'' CACHE)
      else case without_counts (fst (scan_all get put (span_key mac ck tenant) fuel (checker_env ck clock) (tr_spans tree) s 1)) of
             Inl (BudgetExceeded _) \<Rightarrow> Inr (degraded_result (ck_config ck) ''checker_timeout'' CONTEXT)
           | Inl e \<Rightarrow> Inl e
           | Inr fs \<Rightarrow> Inr (verdict_of (ck_config ck) fs 0 0))"
  by (auto simp: check_def Let_def answer_def without_counts_def verdict_of_counts degraded_result_def
      split: prod.splits sum.splits scan_error.splits)

lemma snd_check:
  "snd (check get put mac ck fuel clock s tree tenant) =
     (if sl_max_request_chars (cc_limits (ck_config ck)) < total_chars tree then s
      else snd (scan_all get put (span_key mac ck tenant) fuel (checker_env ck clock) (tr_spans tree) s 1))"
  by (auto simp: check_def Let_def split: prod.splits sum.splits scan_error.splits)

lemma checker_env_same:
  "unhurried (checker_env ck c) \<Longrightarrow> unhurried (checker_env ck d) \<Longrightarrow> same_scan (checker_env ck c) (checker_env ck d)"
  by (simp add: same_scan_def checker_env_def)

context span_cache
begin

lemma run_checks_cold:
  assumes "inj_on (span_key mac ck tenant) T" "unhurried (checker_env ck clk)"
    and "only (scanned (span_key mac ck tenant) fuel (checker_env ck clk) T) s"
    and "\<forall>(clock, tree) \<in> set qs. unhurried (checker_env ck clock) \<and> (\<forall>sp \<in> set (tr_spans tree). sp_text sp \<in> T)"
  shows "map answer (run_checks get put mac ck fuel tenant s qs)
       = map answer (run_checks null_get null_put mac ck fuel tenant c qs)"
  using assms(3,4)
proof (induction qs arbitrary: s c)
  case (Cons q qs)
  obtain clock tree where q: "q = (clock, tree)" by (cases q)
  with Cons.prems have u: "unhurried (checker_env ck clock)" and T: "\<forall>sp \<in> set (tr_spans tree). sp_text sp \<in> T" by auto
  have ref: "scanned key fuel (checker_env ck clock) T = scanned key fuel (checker_env ck clk) T" for key
    using same_scan_ref [OF checker_env_same [OF u assms(2)]] by (intro ext) (simp add: scanned_def)
  note one = scan_all_cold [OF u assms(1) Cons.prems(1) [folded ref] T]
  have "answer (fst (check get put mac ck fuel clock s tree tenant))
      = answer (fst (check null_get null_put mac ck fuel clock c tree tenant))"
    unfolding answer_check using one by (metis (no_types, lifting))
  moreover have "only (scanned (span_key mac ck tenant) fuel (checker_env ck clk) T)
      (snd (check get put mac ck fuel clock s tree tenant))"
    unfolding snd_check using one Cons.prems(1) unfolding ref by simp
  moreover have "\<forall>(clock, tree) \<in> set qs. unhurried (checker_env ck clock) \<and> (\<forall>sp \<in> set (tr_spans tree). sp_text sp \<in> T)"
    using Cons.prems(2) by simp
  ultimately show ?case unfolding q using Cons.IH by (simp split: prod.split) (metis prod.collapse prod.inject)
qed simp

end

text \<open>C33. The cache is transparent. Take any sequence of requests of one tenant whose scans stay within their
  deadlines, a pack whose detectors do not look at the clock and whose span scanners depend only on the text,
  and no two texts of these requests with one cache key. Then the checker with the LRU cache of any capacity,
  empty at first, gives the same answers - verdicts, confidences, findings at their own spans, degradations and
  errors - as the checker that scans everything afresh; only the counts of hits and misses differ.\<close>

theorem lru_cache_is_transparent:
  assumes "inj_on (span_key mac ck tenant) (\<Union>(clock, tree) \<in> set qs. sp_text ` set (tr_spans tree))"
    and "\<forall>(clock, tree) \<in> set qs. unhurried (checker_env ck clock)"
  shows "map answer (run_checks lru_get lru_put mac ck fuel tenant (lru_new capacity) qs)
       = map answer (run_checks null_get null_put mac ck fuel tenant \<lparr>nc_misses = 0\<rparr> qs)"
proof (cases qs)
  case (Cons q rest)
  obtain clk tree where q: "q = (clk, tree)" by (cases q)
  with Cons assms(2) have "unhurried (checker_env ck clk)" by simp
  moreover have "lru.only P (lru_new capacity)" for P by (simp add: lru.only_def lru_new_def)
  ultimately show ?thesis
    using lru.run_checks_cold [OF assms(1)] assms(2) by fastforce
qed simp

section \<open>A sample checker\<close>

definition demo_checker :: checker where
  "demo_checker = \<lparr>ck_pack = demo_pack, ck_config = default_config\<lparr>cc_limits :=
     \<lparr>sl_max_span_chars = 20, sl_max_request_chars = 100, sl_chunk_chars = 4\<rparr>\<rparr>, ck_tenant_key = []\<rparr>"

definition demo_scan_tree :: span_tree where
  "demo_scan_tree = span_tree [] [demo_span]"

definition fold_mac :: "pybytes \<Rightarrow> pybytes \<Rightarrow> pybytes" where
  "fold_mac k m = m"

lemma demo_unhurried: "unhurried (checker_env demo_checker (\<lambda>_. 0))"
proof -
  let ?env = "checker_env demo_checker (\<lambda>_. 0)"
  have pk: "se_pack ?env = demo_pack" by (simp add: checker_env_def demo_checker_def)
  have "fst c = demo_detector" if "c \<in> set (anchor_candidates ?env t @ shape_candidates ?env t)" for t c
    using that by (auto simp: anchor_candidates_def shape_candidates_def pk demo_pack_def split: if_splits)
  then have "fst (confirm_at ?env t n c) = fst (confirm_at ?env t m c)"
    if "c \<in> set (anchor_candidates ?env t @ shape_candidates ?env t)" for t c n m
    using that by (cases c) (fastforce simp: confirm_at_def demo_detector_def)
  then show ?thesis
    by (simp add: unhurried_def expired_def elapsed_ms_def pk)
      (simp add: checker_env_def demo_checker_def default_config_def demo_pack_def)
qed

lemma lru_cache_is_transparent_witness:
  "map answer (run_checks lru_get lru_put fold_mac demo_checker 5 (tx ''t'') (lru_new 1)
      [(\<lambda>_. 0, demo_scan_tree), (\<lambda>_. 0, demo_scan_tree)])
   = map answer (run_checks null_get null_put fold_mac demo_checker 5 (tx ''t'') \<lparr>nc_misses = 0\<rparr>
      [(\<lambda>_. 0, demo_scan_tree), (\<lambda>_. 0, demo_scan_tree)])"
proof (rule lru_cache_is_transparent)
  show "inj_on (span_key fold_mac demo_checker (tx ''t''))
      (\<Union>(clock, tree) \<in> set [(\<lambda>_. 0, demo_scan_tree), (\<lambda>_. 0, demo_scan_tree)]. sp_text ` set (tr_spans tree))"
    by (simp add: demo_scan_tree_def span_tree_def)
  show "\<forall>(clock, tree) \<in> set [(\<lambda>_. 0, demo_scan_tree), (\<lambda>_. 0, demo_scan_tree)]. unhurried (checker_env demo_checker clock)"
    using demo_unhurried by simp
qed

definition tight_checker :: checker where
  "tight_checker = demo_checker\<lparr>ck_config := (ck_config demo_checker)\<lparr>cc_limits := (cc_limits (ck_config demo_checker))
     \<lparr>sl_max_request_chars := 3\<rparr>\<rparr>\<rparr>"

lemma green_means_checked_witness:
  "cr_verdict (degraded_result (ck_config tight_checker) ''payload_too_large'' CACHE) = RED"
proof -
  have closed: "cc_fail (ck_config tight_checker) = ''closed''"
    by (simp add: tight_checker_def demo_checker_def default_config_def)
  have big: "sl_max_request_chars (cc_limits (ck_config tight_checker)) < total_chars demo_scan_tree"
    by (simp add: tight_checker_def demo_checker_def total_chars_def demo_scan_tree_def span_tree_def is_nested_def demo_span_def)
  then have "check null_get null_put fold_mac tight_checker 5 (\<lambda>_. 0) \<lparr>nc_misses = 0\<rparr> demo_scan_tree (tx ''t'')
      = (Inr (degraded_result (ck_config tight_checker) ''payload_too_large'' CACHE), \<lparr>nc_misses = 0\<rparr>)"
    by (simp add: check_def)
  from green_means_checked [OF closed this] big show ?thesis by blast
qed

end
