(* ===== verification/PromptVerdict.thy ===== *)
theory PromptVerdict
  imports Checker "HOL-Library.Char_ord" "HOL-Library.List_Lexorder"
begin

text \<open>
  The side-car verdict (\<^verbatim>\<open>gateway/check.py\<close>): a prompt becomes a one-span tree, and the checker's result
  becomes an allow or a refusal with the classes and the sentence the user reads. Latencies are not
  carried. \<open>check_prompt_text\<close> is the composition every hook makes of them: the tree, the checker, the verdict.
\<close>

section \<open>From a result to an answer\<close>

definition ENFORCE_AT :: rat where "ENFORCE_AT = 75 / 100"

definition DEGRADED_DENIES :: "string set" where
  "DEGRADED_DENIES = {''checker_timeout'', ''payload_too_large''}"

definition text_tree :: "pystr \<Rightarrow> span_tree option" where
  \<comment> \<open>\<open>None\<close> is the \<open>UnicodeEncodeError\<close> of a lone surrogate\<close>
  "text_tree text = map_option (\<lambda>raw. span_tree raw
     [\<lparr>sp_path = tx ''prompt'', sp_text = text, sp_origin = OUser, sp_leg = Outbound, sp_byte_start = 0,
       sp_byte_end = int (length raw), sp_lang_hint = None, sp_parent_path = None, sp_parent_char_offset = 0\<rparr>])
     (utf8_encode text)"

datatype reason =
    NoReason
  | TooSlow \<comment> \<open>could not finish checking this prompt in time\<close>
  | TooLarge \<comment> \<open>could not check a prompt this large\<close>
  | Incomplete string \<comment> \<open>could not complete its check\<close>
  | HasCredential "string list" \<comment> \<open>it contains a credential, of these classes\<close>
  | HasSensitive "string list" \<comment> \<open>it contains sensitive data, of these classes\<close>

record check_verdict =
  cv_allow :: bool
  cv_reason :: reason
  cv_classes :: "string list"
  cv_findings :: nat
  cv_degraded :: "string option"

definition degraded_reason :: "string \<Rightarrow> reason" where
  "degraded_reason degraded =
     (if degraded = ''checker_timeout'' then TooSlow
      else if degraded = ''payload_too_large'' then TooLarge else Incomplete degraded)"

definition deny_reason :: "string list \<Rightarrow> finding list \<Rightarrow> reason" where
  "deny_reason classes blocking =
     (if list_ex (\<lambda>f. f_family f = CREDENTIAL) blocking then HasCredential classes else HasSensitive classes)"

definition blocking_of :: "check_result \<Rightarrow> finding list" where
  "blocking_of r = (if cr_verdict r = RED
     then filter (\<lambda>f. \<not> f_advisory f \<and> may_enforce OUser (f_family f) \<and> ENFORCE_AT \<le> f_conf f) (cr_findings r) else [])"

definition sorted_classes :: "finding list \<Rightarrow> string list" where
  "sorted_classes fs = sort (remdups (map (\<lambda>f. class_value (f_class f)) fs))"

definition degraded_denies :: "check_result \<Rightarrow> bool" where
  "degraded_denies r = (case cr_degraded r of None \<Rightarrow> False | Some d \<Rightarrow> d \<in> DEGRADED_DENIES)"

definition to_verdict :: "check_result \<Rightarrow> check_verdict" where
  "to_verdict r =
     (let blocking = blocking_of r in
      if degraded_denies r \<and> blocking = [] then
        \<lparr>cv_allow = False, cv_reason = degraded_reason (the (cr_degraded r)), cv_classes = [],
          cv_findings = length (cr_findings r), cv_degraded = cr_degraded r\<rparr>
      else if blocking = [] then
        \<lparr>cv_allow = True, cv_reason = NoReason, cv_classes = [],
          cv_findings = length (cr_findings r), cv_degraded = cr_degraded r\<rparr>
      else let classes = sorted_classes blocking in
        \<lparr>cv_allow = False, cv_reason = deny_reason classes blocking, cv_classes = classes,
          cv_findings = length (cr_findings r), cv_degraded = cr_degraded r\<rparr>)"

section \<open>What an answer says\<close>

lemma allow_iff: "cv_allow (to_verdict r) \<longleftrightarrow> blocking_of r = [] \<and> \<not> degraded_denies r"
  by (auto simp: to_verdict_def Let_def)

lemma classes_of_verdict: "cv_classes (to_verdict r) = sorted_classes (blocking_of r)"
  by (simp add: to_verdict_def sorted_classes_def Let_def)

lemma set_sorted_classes: "set (sorted_classes fs) = (\<lambda>f. class_value (f_class f)) ` set fs"
  by (simp add: sorted_classes_def)

lemma user_text_is_enforced: "may_enforce OUser fam"
  by (simp add: may_enforce_def SKIP_ORIGINS_def SCAN_ONLY_ORIGINS_def)

text \<open>A red verdict rests on an enforceable finding at or above the upper band, or on a degraded check.\<close>

lemma red_verdict:
  assumes "check get put mac ck fuel clock s tree tenant = (Inr r, s')" "cr_verdict r = RED"
  shows "degraded_denies r \<or> (\<exists>f \<in> set (cr_findings r). \<not> f_advisory f \<and> cc_amber_high (ck_config ck) \<le> f_conf f)"
proof -
  have top: "\<exists>f \<in> set (g # gs). top_conf (f_conf g) gs = f_conf f" for g gs
    using top_conf_in [of "f_conf g" gs] by auto
  have "\<exists>f \<in> set fs. \<not> f_advisory f \<and> cc_amber_high cfg \<le> f_conf f"
    if "cr_verdict (verdict_of cfg fs h m) = RED" for cfg fs h m
  proof (cases "filter (\<lambda>f. \<not> f_advisory f) fs")
    case (Cons g gs)
    with that have "cc_amber_high cfg \<le> top_conf (f_conf g) gs" by (auto simp: verdict_of_def Let_def split: if_splits)
    with top [of g gs] obtain f where "f \<in> set (g # gs)" "cc_amber_high cfg \<le> f_conf f" by metis
    moreover from this have "f \<in> set (filter (\<lambda>f. \<not> f_advisory f) fs)" using Cons by simp
    ultimately show ?thesis by auto
  qed (use that in \<open>simp add: verdict_of_def\<close>)
  moreover have "cr_findings (verdict_of cfg fs h m) = fs" for cfg fs h m by (auto simp: verdict_of_def Let_def split: list.splits)
  ultimately show ?thesis using assms
    by (auto simp: check_def degraded_denies_def degraded_result_def DEGRADED_DENIES_def Let_def
        split: if_splits prod.splits sum.splits scan_error.splits)
qed

section \<open>A prompt and its answer\<close>

definition check_text :: "('s \<Rightarrow> pystr \<Rightarrow> finding list option \<times> 's) \<Rightarrow> ('s \<Rightarrow> pystr \<Rightarrow> finding list \<Rightarrow> 's)
    \<Rightarrow> (pybytes \<Rightarrow> pybytes \<Rightarrow> pybytes) \<Rightarrow> checker \<Rightarrow> nat \<Rightarrow> (nat \<Rightarrow> rat) \<Rightarrow> 's \<Rightarrow> pystr \<Rightarrow> pystr
    \<Rightarrow> (scan_error + check_verdict) \<times> 's" where
  "check_text get put mac ck fuel clock s text tenant =
     (case text_tree text of
        None \<Rightarrow> (Inl KeyEncodeError, s)
      | Some tree \<Rightarrow> (case check get put mac ck fuel clock s tree tenant of
            (Inl e, s1) \<Rightarrow> (Inl e, s1)
          | (Inr r, s1) \<Rightarrow> (Inr (to_verdict r), s1)))"

lemma verdict_of_not_degraded: "\<not> degraded_denies (verdict_of cfg fs h m)"
  by (auto simp: verdict_of_def Let_def degraded_denies_def DEGRADED_DENIES_def split: list.splits prod.splits)

lemma finding_makes_red:
  assumes "f \<in> set fs" "\<not> f_advisory f" "cc_amber_high cfg \<le> f_conf f"
  shows "cr_verdict (verdict_of cfg fs h m) = RED"
proof (cases "filter (\<lambda>f. \<not> f_advisory f) fs")
  case Nil
  with assms show ?thesis by (auto simp: filter_empty_conv)
next
  case (Cons g gs)
  have "f \<in> set (g # gs)" unfolding Cons [symmetric] using assms(1,2) by simp
  then have "f_conf f \<le> top_conf (f_conf g) gs" using top_conf_ge [of "f_conf g" gs] by auto
  with assms(3) show ?thesis by (simp add: verdict_of_def Cons Let_def)
qed

text \<open>A prompt is let through only after a complete check: it was within the size limit, its scan ended in
  time, and no finding that may enforce reached both the enforcement threshold and the upper band. This
  holds for either fail stance. A prompt with such a finding is refused and the answer names its class,
  as a credential when it is one.\<close>

theorem allowed_prompt_was_checked:
  assumes "check_text get put mac ck fuel clock s text tenant = (Inr v, s')"
  shows "(cv_allow v \<longrightarrow> length text \<le> sl_max_request_chars (cc_limits (ck_config ck)))
    \<and> (\<exists>tree. text_tree text = Some tree \<and>
        (let run = scan_all get put (span_key mac ck tenant) fuel (checker_env ck clock) (tr_spans tree) s 1 in
          (cv_allow v \<longrightarrow> (\<exists>fs h m. run = (Inr (fs, h, m), s')))
          \<and> (\<forall>fs h m f. length text \<le> sl_max_request_chars (cc_limits (ck_config ck)) \<longrightarrow> run = (Inr (fs, h, m), s') \<longrightarrow>
               f \<in> set fs \<longrightarrow> \<not> f_advisory f \<longrightarrow> ENFORCE_AT \<le> f_conf f \<longrightarrow> cc_amber_high (ck_config ck) \<le> f_conf f \<longrightarrow>
               \<not> cv_allow v \<and> class_value (f_class f) \<in> set (cv_classes v)
               \<and> (f_family f = CREDENTIAL \<longrightarrow> cv_reason v = HasCredential (cv_classes v)))))"
proof -
  from assms obtain tree r where tree: "text_tree text = Some tree"
    and c: "check get put mac ck fuel clock s tree tenant = (Inr r, s')" and v: "v = to_verdict r"
    by (auto simp: check_text_def split: option.splits prod.splits sum.splits)
  have size: "total_chars tree = length text"
    using tree by (auto simp: text_tree_def total_chars_def span_tree_def is_nested_def)
  let ?big = "sl_max_request_chars (cc_limits (ck_config ck)) < length text"
  let ?run = "scan_all get put (span_key mac ck tenant) fuel (checker_env ck clock) (tr_spans tree) s 1"
  have deg: "\<not> cv_allow (to_verdict (degraded_result cfg d t))" if "d \<in> DEGRADED_DENIES" for cfg d t
    using that by (simp add: allow_iff degraded_denies_def degraded_result_def)
  have done_: "\<exists>fs h m. ?run = (Inr (fs, h, m), s') \<and> r = verdict_of (ck_config ck) fs h m" if "cv_allow v" "\<not> ?big"
    using c that deg by (auto simp: v check_def size Let_def DEGRADED_DENIES_def
        split: if_splits prod.splits sum.splits scan_error.splits)
  have fits: "\<not> ?big" if "cv_allow v"
    using c that deg by (auto simp: v check_def size Let_def DEGRADED_DENIES_def split: if_splits)
  have refused: "\<not> cv_allow v \<and> class_value (f_class f) \<in> set (cv_classes v)
      \<and> (f_family f = CREDENTIAL \<longrightarrow> cv_reason v = HasCredential (cv_classes v))"
    if "\<not> ?big" and run: "?run = (Inr (fs, h, m), s')" and f: "f \<in> set fs" "\<not> f_advisory f" "ENFORCE_AT \<le> f_conf f"
      "cc_amber_high (ck_config ck) \<le> f_conf f" for fs h m f
  proof -
    have r: "r = verdict_of (ck_config ck) fs h m" using c run \<open>\<not> ?big\<close> by (simp add: check_def size Let_def)
    have b: "f \<in> set (blocking_of r)"
      using f finding_makes_red [OF f(1,2,4)]
      by (simp add: r blocking_of_def user_text_is_enforced)
    then have ne: "blocking_of r \<noteq> []" by auto
    have "f_family f = CREDENTIAL \<Longrightarrow> list_ex (\<lambda>f. f_family f = CREDENTIAL) (blocking_of r)"
      using b by (auto simp: list_ex_iff)
    with b ne show ?thesis
      by (auto simp: v allow_iff classes_of_verdict set_sorted_classes to_verdict_def deny_reason_def Let_def)
  qed
  show ?thesis
    using tree fits done_ refused by (auto simp: Let_def not_less)
qed

definition demo_prompt_tree :: span_tree where
  "demo_prompt_tree = span_tree (tx ''aa sk-12'') [demo_span\<lparr>sp_path := tx ''prompt'', sp_byte_start := 0, sp_byte_end := 8\<rparr>]"

lemma demo_prompt_tree: "text_tree (tx ''aa sk-12'') = Some demo_prompt_tree"
  by (simp add: text_tree_def demo_prompt_tree_def demo_span_def utf8_encode_def encodable_def is_surrogate_def code_point_def
      utf8_cp_def)

lemma demo_key_text: "\<exists>k. span_key fold_mac demo_checker (tx ''t'') (tx ''aa sk-12'') = Some k"
proof -
  have "dec_str 1 = tx ''1''" by code_simp
  then show ?thesis
    by (simp add: span_key_def cache_key_def demo_checker_def demo_pack_def key_message_def utf8_encode_def encodable_def
        is_surrogate_def code_point_def)
qed

lemma demo_prompt_scan:
  "scan_all null_get null_put (span_key fold_mac demo_checker (tx ''t'')) 5 (checker_env demo_checker (\<lambda>_. 0))
     (tr_spans demo_prompt_tree) \<lparr>nc_misses = 0\<rparr> 1
   = (Inr ([demo_hit\<lparr>f_path := tx ''prompt''\<rparr>], 0, 1), \<lparr>nc_misses = 1\<rparr>)"
proof -
  let ?sp = "demo_span\<lparr>sp_path := tx ''prompt'', sp_byte_start := 0, sp_byte_end := 8\<rparr>"
  have spans: "tr_spans demo_prompt_tree = [?sp]" by (simp add: demo_prompt_tree_def span_tree_def)
  obtain k where k: "span_key fold_mac demo_checker (tx ''t'') (sp_text ?sp) = Some k"
    using demo_key_text by (auto simp: demo_span_def)
  have env: "checker_env demo_checker (\<lambda>_. 0) = demo_env 20"
    by (simp add: checker_env_def demo_checker_def demo_env_def default_config_def)
  have "scan_span (Suc 0) (demo_env 20) ?sp 2 = Inr ([demo_hit\<lparr>f_path := tx ''prompt''\<rparr>], 3)"
    by code_simp
  then have "scan_span 5 (checker_env demo_checker (\<lambda>_. 0)) ?sp 2 = Inr ([demo_hit\<lparr>f_path := tx ''prompt''\<rparr>], 3)"
    unfolding env by (simp add: demo_span_def demo_env_def numeral_eq_Suc)
  with k show ?thesis
    unfolding spans by (simp add: unhurried_check [OF demo_unhurried] null_get_def null_put_def add_outcome_def numeral_2_eq_2)
qed

lemma allowed_prompt_was_checked_witness:
  "\<exists>v. check_text null_get null_put fold_mac demo_checker 5 (\<lambda>_. 0) \<lparr>nc_misses = 0\<rparr> (tx ''aa sk-12'') (tx ''t'')
       = (Inr v, \<lparr>nc_misses = 1\<rparr>)
     \<and> \<not> cv_allow v \<and> ''ANTHROPIC_KEY'' \<in> set (cv_classes v) \<and> cv_reason v = HasCredential (cv_classes v)"
proof -
  have size: "length (tx ''aa sk-12'') \<le> sl_max_request_chars (cc_limits (ck_config demo_checker))"
    by (simp add: demo_checker_def)
  have "total_chars demo_prompt_tree = 8"
    by (simp add: total_chars_def demo_prompt_tree_def span_tree_def demo_span_def is_nested_def)
  then obtain v where v: "check_text null_get null_put fold_mac demo_checker 5 (\<lambda>_. 0) \<lparr>nc_misses = 0\<rparr> (tx ''aa sk-12'') (tx ''t'')
       = (Inr v, \<lparr>nc_misses = 1\<rparr>)"
    using size demo_prompt_scan unfolding check_text_def demo_prompt_tree check_def Let_def by (simp del: scan_all.simps)
  have fam: "family_of ANTHROPIC_KEY = CREDENTIAL" by code_simp
  have hit: "\<not> f_advisory (demo_hit\<lparr>f_path := tx ''prompt''\<rparr>)" "ENFORCE_AT \<le> f_conf (demo_hit\<lparr>f_path := tx ''prompt''\<rparr>)"
    "cc_amber_high (ck_config demo_checker) \<le> f_conf (demo_hit\<lparr>f_path := tx ''prompt''\<rparr>)"
    "f_class (demo_hit\<lparr>f_path := tx ''prompt''\<rparr>) = ANTHROPIC_KEY" "f_family (demo_hit\<lparr>f_path := tx ''prompt''\<rparr>) = CREDENTIAL"
    by (simp_all add: demo_hit_def ENFORCE_AT_def demo_checker_def default_config_def f_family_def fam)
  from allowed_prompt_was_checked [OF v] have "\<not> cv_allow v \<and> ''ANTHROPIC_KEY'' \<in> set (cv_classes v)
      \<and> cv_reason v = HasCredential (cv_classes v)"
    using demo_prompt_tree demo_prompt_scan size hit by (force simp: Let_def)
  with v show ?thesis by blast
qed

text \<open>The fail-open stance makes an unfinished check green, and the answer refuses it all the same.\<close>

lemma open_stance_still_refuses:
  assumes "cc_fail cfg = ''open''" "d \<in> DEGRADED_DENIES"
  shows "cr_verdict (degraded_result cfg d t) = GREEN" "\<not> cv_allow (to_verdict (degraded_result cfg d t))"
  using assms by (simp_all add: degraded_result_def allow_iff degraded_denies_def)

text \<open>An upper band above the threshold lets a prompt pass whose findings the threshold would refuse.\<close>

lemma raised_band_passes:
  assumes "\<not> f_advisory f" "ENFORCE_AT \<le> f_conf f" "f_conf f < cc_amber_high cfg"
  shows "cv_allow (to_verdict (verdict_of cfg [f] 0 0))"
proof -
  have "cr_verdict (verdict_of cfg [f] 0 0) \<noteq> RED" using assms by (simp add: verdict_of_def Let_def)
  then show ?thesis using verdict_of_not_degraded [of cfg "[f]" 0 0] by (simp add: allow_iff blocking_of_def)
qed

end
