(* ===== verification/PromptHook.thy ===== *)
theory PromptHook
  imports Daemon PromptVerdict
begin

text \<open>
  The prompt hook (\<open>run\<close> of \<^verbatim>\<open>hooks/zt_check.py\<close>): it asks the checking service, the warm daemon or the
  checker in this process, lets the logged-in role's policy narrow or widen the answer, joins the prompt with
  the tail of the last ones, and allows or denies. The service, the daemon and the role's decision are
  fields of the environment; \<open>answer_of\<close> is the form in which a verdict of \<open>PromptVerdict\<close> reaches the hook.
  An exit code other than the two answers, left by an exception nobody catches, is \<open>Crashed\<close>.
\<close>

section \<open>Answers and exits\<close>

record hook_result =
  hr_allow :: "bool option"
  hr_classes :: "pystr list"
  hr_reason :: pystr
  hr_split :: bool
  hr_window_done :: bool

datatype denial =
    GivenReason pystr
  | SplitReason "pystr list" \<comment> \<open>joined with the previous prompt it forms these classes\<close>
  | RoleReason pystr
  | NoChecker
  | CheckFailed

datatype hook_exit = Allowed | Denied denial | Crashed

datatype service_reply = Replied hook_result | Unreachable | BadReply

datatype hook_call = Reply hook_result | Exits hook_exit | Raises

record hook_env =
  he_checker :: bool \<comment> \<open>\<open>ZT_CHECKER\<close> is set\<close>
  he_fail_open :: bool
  he_service :: "pystr \<Rightarrow> pystr \<Rightarrow> service_reply"
  he_daemon :: "daemon_env option" \<comment> \<open>a daemon that answers\<close>
  he_embedded :: "pystr \<Rightarrow> daemon_answer option"
  he_role :: "pystr \<Rightarrow> (bool \<times> pystr) option" \<comment> \<open>the role's decision and reason, when logged in\<close>
  he_window :: bool
  he_H :: "pybytes \<Rightarrow> pybytes"
  he_repr :: "pyval \<Rightarrow> pystr"

definition result_of :: "daemon_answer \<Rightarrow> hook_result" where
  "result_of a = \<lparr>hr_allow = Some (an_allow a), hr_classes = an_classes a, hr_reason = an_reason a, hr_split = an_split a,
     hr_window_done = False\<rparr>"

definition class_family :: "pystr \<Rightarrow> family option" where
  \<comment> \<open>\<open>CLASS_TO_FAMILY[EntityClass(name)]\<close>, \<open>None\<close> when it raises\<close>
  "class_family name = map_option family_of (find (\<lambda>c. tx (class_value c) = name) all_classes)"

fun has_credential :: "pystr list \<Rightarrow> bool" where
  "has_credential [] = False"
| "has_credential (name # names) =
     (case class_family name of None \<Rightarrow> True | Some f \<Rightarrow> if f = CREDENTIAL then True else has_credential names)"

definition denial_reason :: "hook_result \<Rightarrow> denial" where
  "denial_reason result = (if hr_split result then SplitReason (hr_classes result) else GivenReason (hr_reason result))"

section \<open>Asking\<close>

definition check_service :: "hook_env \<Rightarrow> pystr \<Rightarrow> pystr \<Rightarrow> hook_call" where
  "check_service env text session =
     (case he_service env text session of
        Replied r \<Rightarrow> Reply r
      | Unreachable \<Rightarrow> Exits (if he_fail_open env then Allowed else Denied NoChecker)
      | BadReply \<Rightarrow> Raises)"

definition check_embedded :: "hook_env \<Rightarrow> pystr \<Rightarrow> hook_call" where
  "check_embedded env text = (case he_embedded env text of None \<Rightarrow> Raises | Some a \<Rightarrow> Reply (result_of a))"

definition check_local :: "hook_env \<Rightarrow> io_env \<Rightarrow> pystr \<Rightarrow> pystr \<Rightarrow> state_dir \<Rightarrow> hook_call \<times> state_dir" where
  \<comment> \<open>\<open>window_done\<close> marks an answer of the daemon, which carried the window itself\<close>
  "check_local env io text session dir =
     (case he_daemon env of
        Some de \<Rightarrow> (case check_prompt de io text session dir of
          (a, dir) \<Rightarrow> (Reply ((result_of a)\<lparr>hr_window_done := True\<rparr>), dir))
      | None \<Rightarrow> (check_embedded env text, dir))"

definition ask :: "hook_env \<Rightarrow> io_env \<Rightarrow> pystr \<Rightarrow> pystr \<Rightarrow> state_dir \<Rightarrow> hook_call \<times> state_dir" where
  "ask env io text session dir =
     (if he_checker env then (check_service env text session, dir) else check_local env io text session dir)"

section \<open>Deciding\<close>

fun first_true :: "pyval option list \<Rightarrow> pyval option" where
  "first_true [] = None"
| "first_true (v # vs) = (case v of Some x \<Rightarrow> if py_true x then Some x else first_true vs | None \<Rightarrow> first_true vs)"

definition prompt_text :: "tool_args \<Rightarrow> pystr option" where
  \<comment> \<open>\<open>None\<close> when the prompt is not a string: \<open>strip\<close> is an \<open>AttributeError\<close>\<close>
  "prompt_text event =
     (case first_true [map_of event (tx ''prompt''), map_of event (tx ''user_input''), map_of event (tx ''user_input_raw'')] of
        None \<Rightarrow> Some []
      | Some (PStr s) \<Rightarrow> Some s
      | Some v \<Rightarrow> None)"

definition event_session :: "hook_env \<Rightarrow> tool_args \<Rightarrow> pystr" where
  "event_session env event = str_or (he_repr env) [''session_id''] event"

definition role_gate :: "hook_result \<Rightarrow> (bool \<times> pystr) option \<Rightarrow> denial option" where
  "role_gate result role =
     (if hr_allow result \<noteq> Some True then
        (if has_credential (hr_classes result) then Some (denial_reason result)
         else case role of
           Some (allow, why) \<Rightarrow> if allow then None else Some (RoleReason why)
         | None \<Rightarrow> Some (denial_reason result))
      else case role of Some (allow, why) \<Rightarrow> if allow then None else Some (RoleReason why) | None \<Rightarrow> None)"

definition bridged :: "hook_env \<Rightarrow> io_env \<Rightarrow> pystr \<Rightarrow> pystr \<Rightarrow> state_dir \<Rightarrow> pystr \<times> state_dir" where
  "bridged env io session text dir =
     (case prompt_bridge (he_H env) io DEFAULT_WINDOW DEFAULT_TTL_S session text dir of None \<Rightarrow> ([], dir) | Some r \<Rightarrow> r)"

definition remembered :: "hook_env \<Rightarrow> io_env \<Rightarrow> pystr \<Rightarrow> pystr \<Rightarrow> state_dir \<Rightarrow> state_dir" where
  "remembered env io session text dir =
     (case prompt_remember (he_H env) io DEFAULT_WINDOW DEFAULT_TTL_S MAX_PROMPT_TURNS session text dir of
        None \<Rightarrow> dir | Some d \<Rightarrow> d)"

definition joined_check :: "hook_env \<Rightarrow> pystr \<Rightarrow> pystr \<Rightarrow> hook_exit option + pystr list" where
  \<comment> \<open>\<open>Inr\<close> the classes of a refusal, \<open>Inl None\<close> no refusal, \<open>Inl (Some x)\<close> the hook has exited\<close>
  "joined_check env joined session =
     (case (if he_checker env then check_service env joined session else check_embedded env joined) of
        Exits x \<Rightarrow> Inl (Some x)
      | Raises \<Rightarrow> Inl None
      | Reply r \<Rightarrow> if hr_allow r = Some False then Inr (hr_classes r) else Inl None)"

definition window_leg :: "hook_env \<Rightarrow> io_env \<Rightarrow> pystr \<Rightarrow> pystr \<Rightarrow> state_dir \<Rightarrow> hook_exit \<times> state_dir" where
  "window_leg env io text session dir =
     (case bridged env io session text dir of (joined, dir) \<Rightarrow>
        case (if joined = [] then Inl None else joined_check env joined session) of
          Inl (Some x) \<Rightarrow> (x, dir)
        | Inr classes \<Rightarrow> (Denied (SplitReason classes),
            case prompt_clear (he_H env) io session dir of None \<Rightarrow> dir | Some d \<Rightarrow> d)
        | Inl None \<Rightarrow> (Allowed, remembered env io session text dir))"

definition prompt_hook :: "hook_env \<Rightarrow> io_env \<Rightarrow> tool_args \<Rightarrow> state_dir \<Rightarrow> hook_exit \<times> state_dir" where
  "prompt_hook env io event dir =
     (case prompt_text event of
        None \<Rightarrow> (Crashed, dir)
      | Some text \<Rightarrow>
          if strip text = [] then (Allowed, dir)
          else let session = event_session env event in
            case ask env io text session dir of
              (Exits x, dir) \<Rightarrow> (x, dir)
            | (Raises, dir) \<Rightarrow> (if he_fail_open env then Allowed else Denied CheckFailed, dir)
            | (Reply result, dir) \<Rightarrow>
                (case role_gate result (he_role env text) of
                   Some d \<Rightarrow> (Denied d, dir)
                 | None \<Rightarrow>
                     if hr_window_done result \<or> \<not> he_window env then (Allowed, dir)
                     else window_leg env io text session dir))"

section \<open>Credentials\<close>

lemma tx_eq_iff: "tx a = tx b \<longleftrightarrow> a = b"
  by (simp add: inj_map_eq_map inj_def)

lemma class_family_value: "class_family (tx (class_value c)) = Some (family_of c)"
proof -
  have inj: "tx (class_value d) = tx (class_value c) \<longleftrightarrow> d = c" for d
    unfolding tx_eq_iff using class_value_inj by auto
  have "find (\<lambda>d. tx (class_value d) = tx (class_value c)) all_classes = Some c"
  proof (cases "find (\<lambda>d. tx (class_value d) = tx (class_value c)) all_classes")
    case None
    then show ?thesis using all_classes_complete [of c] by (auto simp: find_None_iff)
  qed (auto simp: inj dest: find_Some_hd)
  then show ?thesis by (simp add: class_family_def)
qed

lemma has_credential_iff:
  "has_credential names \<longleftrightarrow> (\<exists>name \<in> set names. class_family name = None \<or> class_family name = Some CREDENTIAL)"
  by (induction names) (auto split: option.splits)

definition answer_of :: "(reason \<Rightarrow> pystr) \<Rightarrow> check_verdict \<Rightarrow> daemon_answer" where
  \<comment> \<open>\<open>render\<close> writes the sentence of a reason\<close>
  "answer_of render v = \<lparr>an_allow = cv_allow v, an_reason = render (cv_reason v), an_classes = map (\<lambda>c. tx c) (cv_classes v),
     an_split = False\<rparr>"

definition answers :: "hook_env \<Rightarrow> pystr \<Rightarrow> daemon_answer \<Rightarrow> bool" where
  \<comment> \<open>what checks a text, the daemon or this process, answers \<open>a\<close> to it\<close>
  "answers env text a \<longleftrightarrow> \<not> he_checker env
     \<and> (case he_daemon env of Some de \<Rightarrow> de_scan de text = a | None \<Rightarrow> he_embedded env text = Some a)"

lemma ask_refused:
  assumes "answers env text a" "\<not> an_allow a" "strip text \<noteq> []"
  shows "\<exists>marked. ask env io text session dir = (Reply ((result_of a)\<lparr>hr_window_done := marked\<rparr>), dir)"
proof (cases "he_daemon env")
  case None
  with assms have "ask env io text session dir = (Reply ((result_of a)\<lparr>hr_window_done := False\<rparr>), dir)"
    by (simp add: answers_def ask_def check_local_def check_embedded_def result_of_def)
  then show ?thesis by blast
next
  case (Some de)
  with assms have "ask env io text session dir = (Reply ((result_of a)\<lparr>hr_window_done := True\<rparr>), dir)"
    by (simp add: answers_def ask_def check_local_def check_prompt_def Let_def)
  then show ?thesis by blast
qed

text \<open>C21. A prompt with a credential never leaves: when the check behind the hook, be it the daemon's or the one in
  this process, finds a credential at or above the thresholds, the hook denies whatever the logged-in role's
  policy says and whatever was carried, and leaves the carried state alone.\<close>

theorem credential_prompt_never_leaves:
  assumes "prompt_text event = Some text" "strip text \<noteq> []"
    and check: "check_text get put mac ck fuel clock s text tenant = (Inr v, s')" and tree: "text_tree text = Some tree"
    and size: "length text \<le> sl_max_request_chars (cc_limits (ck_config ck))"
    and run: "scan_all get put (span_key mac ck tenant) fuel (checker_env ck clock) (tr_spans tree) s 1 = (Inr (fs, h, m), s')"
    and f: "f \<in> set fs" "\<not> f_advisory f" "ENFORCE_AT \<le> f_conf f" "cc_amber_high (ck_config ck) \<le> f_conf f"
    and cred: "f_family f = CREDENTIAL" and "answers env text (answer_of render v)"
  shows "\<exists>d. prompt_hook env io event dir = (Denied d, dir)"
proof -
  from allowed_prompt_was_checked [OF check] tree size run f
  have v: "\<not> cv_allow v" "class_value (f_class f) \<in> set (cv_classes v)" by (auto simp: Let_def)
  have "class_family (tx (class_value (f_class f))) = Some CREDENTIAL"
    using cred by (simp add: class_family_value f_family_def)
  with v(2) have "has_credential (an_classes (answer_of render v))"
    unfolding has_credential_iff by (force simp: answer_of_def)
  moreover have "\<not> an_allow (answer_of render v)" using v(1) by (simp add: answer_of_def)
  from ask_refused [OF assms(12) this assms(2)] obtain marked where
    "ask env io text (event_session env event) dir = (Reply ((result_of (answer_of render v))\<lparr>hr_window_done := marked\<rparr>), dir)"
    by metis
  ultimately show ?thesis
    using v(1) assms(1,2) by (simp add: prompt_hook_def role_gate_def result_of_def answer_of_def)
qed

section \<open>What an allowed prompt went through\<close>

text \<open>C22. Under the fail-closed setting a prompt is allowed only when a check answered it: the answer allowed it, or
  the role's policy cleared what was found and none of it is a credential or of an unknown class; no role
  refused it; and the text joined with the last prompts, where this process joins them, was not refused.\<close>

theorem allowed_prompt_was_answered:
  assumes "prompt_hook env io event dir = (Allowed, dir')" "\<not> he_fail_open env"
    and "prompt_text event = Some text" "strip text \<noteq> []"
  shows "\<exists>result d. ask env io text (event_session env event) dir = (Reply result, d)
    \<and> (hr_allow result = Some True \<or> \<not> has_credential (hr_classes result) \<and> he_role env text \<noteq> None)
    \<and> (he_role env text = None \<or> (\<exists>why. he_role env text = Some (True, why)))
    \<and> (hr_window_done result \<or> \<not> he_window env
       \<or> fst (bridged env io (event_session env event) text d) = []
       \<or> joined_check env (fst (bridged env io (event_session env event) text d)) (event_session env event) = Inl None)"
proof -
  let ?session = "event_session env event"
  obtain c d where c: "ask env io text ?session dir = (c, d)" by fastforce
  have closed: "he_service env t u = Unreachable \<Longrightarrow> check_service env t u = Exits (Denied NoChecker)" for t u
    using assms(2) by (simp add: check_service_def)
  have exits: "x = Denied NoChecker" if "check_service env t u = Exits x" for t u x
    using that closed [of t u] by (auto simp: check_service_def split: service_reply.splits)
  have emb: "check_embedded env t \<noteq> Exits x" for t x by (simp add: check_embedded_def split: option.splits)
  have "x = Denied NoChecker" if "c = Exits x" for x
    using c that exits emb by (auto simp: ask_def check_local_def split: if_splits option.splits prod.splits)
  with assms c obtain result where r: "c = Reply result"
    by (cases c) (auto simp: prompt_hook_def Let_def)
  with assms c have gate: "role_gate result (he_role env text) = None"
    by (cases "role_gate result (he_role env text)") (auto simp: prompt_hook_def Let_def)
  have win: "fst (bridged env io ?session text d) = [] \<or> joined_check env (fst (bridged env io ?session text d)) ?session = Inl None"
    if "\<not> hr_window_done result" "he_window env"
  proof -
    obtain j e where b: "bridged env io ?session text d = (j, e)" by fastforce
    have "joined_check env j ?session = Inl (Some x) \<Longrightarrow> x = Denied NoChecker" for x
      using exits emb by (auto simp: joined_check_def split: if_splits hook_call.splits)
    then show ?thesis
      using assms that c r gate b by (auto simp: prompt_hook_def window_leg_def Let_def split: if_splits sum.splits option.splits)
  qed
  have role: "(hr_allow result = Some True \<or> \<not> has_credential (hr_classes result) \<and> he_role env text \<noteq> None)
      \<and> (he_role env text = None \<or> (\<exists>why. he_role env text = Some (True, why)))"
    using gate by (auto simp: role_gate_def split: if_splits option.splits prod.splits)
  from c r win role show ?thesis by blast
qed

section \<open>With and without the daemon\<close>

text \<open>For a session with an id and no logged-in role the daemon is only an optimisation: if it checks texts as the
  checker in this process does, the hook answers the same and leaves the same carried state with it as
  without it.\<close>

theorem daemon_is_an_optimisation:
  assumes "\<not> he_checker env" "he_window env" "event_session env event \<noteq> []" "de_H de = he_H env"
    and "\<forall>t. he_role env t = None" "\<forall>t. he_embedded env t = Some (de_scan de t) \<and> \<not> an_split (de_scan de t)"
  shows "prompt_hook (env\<lparr>he_daemon := Some de\<rparr>) io event dir = prompt_hook (env\<lparr>he_daemon := None\<rparr>) io event dir"
proof (cases "prompt_text event")
  case (Some words)
  let ?s = "event_session env event"
  have ses: "event_session (env\<lparr>he_daemon := x\<rparr>) event = ?s" for x by (simp add: event_session_def)
  obtain j e where b: "prompt_bridged de io ?s words dir = (j, e)" by fastforce
  have b': "bridged (env\<lparr>he_daemon := x\<rparr>) io ?s words dir = (j, e)" for x
    using b assms(4) by (simp add: bridged_def prompt_bridged_def)
  have rem: "remembered (env\<lparr>he_daemon := x\<rparr>) io ?s words d = prompt_remembered de io ?s words d" for x d
    using assms(4) by (simp add: remembered_def prompt_remembered_def)
  show ?thesis
  proof (cases "strip words = []")
    case False
    show ?thesis
    proof (cases "an_allow (de_scan de words)")
      case True
      then show ?thesis
        using assms Some False b b' rem ses
        by (auto simp: prompt_hook_def ask_def check_local_def check_prompt_def check_embedded_def result_of_def role_gate_def
            window_leg_def joined_check_def denial_reason_def Let_def)
    next
      case denied: False
      then show ?thesis
        using assms Some False ses
        by (auto simp: prompt_hook_def ask_def check_local_def check_prompt_def check_embedded_def result_of_def role_gate_def
            denial_reason_def Let_def)
    qed
  qed (use Some in \<open>simp add: prompt_hook_def\<close>)
qed (simp add: prompt_hook_def)

text \<open>With a role the two differ. The daemon has carried the tail of a prompt before the role refuses it.\<close>

lemma refused_prompt_is_carried:
  assumes "\<not> he_checker env" "he_daemon env = Some de" "prompt_text event = Some p" "strip p \<noteq> []"
    and "event_session env event \<noteq> []" "an_allow (de_scan de p)" "he_role env p = Some (False, why)"
    and "prompt_bridged de io (event_session env event) p dir = ([], d)"
  shows "prompt_hook env io event dir = (Denied (RoleReason why), prompt_remembered de io (event_session env event) p d)"
  using assms by (simp add: prompt_hook_def ask_def check_local_def check_prompt_def result_of_def role_gate_def Let_def)

text \<open>A prompt the role cleared leaves no tail with the daemon, so its half of a split is not seen.\<close>

lemma cleared_prompt_is_not_carried:
  assumes "\<not> he_checker env" "he_daemon env = Some de" "prompt_text event = Some p" "strip p \<noteq> []"
    and "\<not> an_allow (de_scan de p)" "\<not> has_credential (an_classes (de_scan de p))" "he_role env p = Some (True, why)"
  shows "prompt_hook env io event dir = (Allowed, dir)"
  using assms by (simp add: prompt_hook_def ask_def check_local_def check_prompt_def result_of_def role_gate_def Let_def)

text \<open>Without the daemon, prompts of sessions without an id share one tail.\<close>

lemma sessions_without_id_share_a_tail: "prompt_path H [] = prompt_path H (tx ''-'')"
  by (simp add: prompt_path_def)

section \<open>Samples\<close>

definition demo_hook_env :: "(pystr \<Rightarrow> daemon_answer option) \<Rightarrow> (bool \<times> pystr) option \<Rightarrow> hook_env" where
  "demo_hook_env embedded role = \<lparr>he_checker = False, he_fail_open = False, he_service = (\<lambda>_ _. Unreachable), he_daemon = None,
     he_embedded = embedded, he_role = (\<lambda>_. role), he_window = True, he_H = (\<lambda>b. b), he_repr = (\<lambda>_. [])\<rparr>"

definition demo_event :: "string \<Rightarrow> tool_args" where
  "demo_event prompt = [(tx ''prompt'', PStr (tx prompt)), (tx ''session_id'', PStr (tx ''s''))]"

lemma demo_event_text: "prompt \<noteq> [] \<Longrightarrow> prompt_text (demo_event prompt) = Some (tx prompt)"
  by (simp add: prompt_text_def demo_event_def)

lemma demo_event_session: "event_session env (demo_event prompt) = tx ''s''"
  by (simp add: event_session_def demo_event_def str_or_def List.map_filter_def)

lemma credential_prompt_never_leaves_witness:
  "\<exists>v d. cv_classes v = [''ANTHROPIC_KEY'']
     \<and> prompt_hook (demo_hook_env (\<lambda>_. Some (answer_of (\<lambda>_. []) v)) (Some (True, []))) (demo_io 0) (demo_event ''aa sk-12'') []
       = (Denied d, [])"
proof -
  have size: "length (tx ''aa sk-12'') \<le> sl_max_request_chars (cc_limits (ck_config demo_checker))"
    by (simp add: demo_checker_def)
  have total: "total_chars demo_prompt_tree = 8"
    by (simp add: total_chars_def demo_prompt_tree_def span_tree_def demo_span_def is_nested_def)
  let ?hit = "demo_hit\<lparr>f_path := tx ''prompt''\<rparr>"
  let ?v = "to_verdict (verdict_of (ck_config demo_checker) [?hit] 0 1)"
  have v: "check_text null_get null_put fold_mac demo_checker 5 (\<lambda>_. 0) \<lparr>nc_misses = 0\<rparr> (tx ''aa sk-12'') (tx ''t'')
       = (Inr ?v, \<lparr>nc_misses = 1\<rparr>)"
    using size demo_prompt_scan total unfolding check_text_def demo_prompt_tree check_def Let_def
    by (simp del: scan_all.simps)
  have fam: "family_of ANTHROPIC_KEY = CREDENTIAL" by code_simp
  have hit: "\<not> f_advisory ?hit" "ENFORCE_AT \<le> f_conf ?hit" "cc_amber_high (ck_config demo_checker) \<le> f_conf ?hit" "f_family ?hit = CREDENTIAL"
    by (simp_all add: demo_hit_def ENFORCE_AT_def demo_checker_def default_config_def f_family_def fam)
  let ?env = "demo_hook_env (\<lambda>_. Some (answer_of (\<lambda>_. []) ?v)) (Some (True, []))"
  have ans: "answers ?env (tx ''aa sk-12'') (answer_of (\<lambda>_. []) ?v)"
    by (simp add: answers_def demo_hook_env_def)
  have ne: "strip (tx ''aa sk-12'') \<noteq> []" by (simp add: strip_def lstrip_def is_space_def)
  have "\<exists>d. prompt_hook ?env (demo_io 0) (demo_event ''aa sk-12'') [] = (Denied d, [])"
    by (rule credential_prompt_never_leaves [OF demo_event_text ne v demo_prompt_tree size demo_prompt_scan _ hit(1-4) ans]) simp_all
  moreover have "blocking_of (verdict_of (ck_config demo_checker) [?hit] 0 1) = [?hit]"
    using hit finding_makes_red [of ?hit "[?hit]" "ck_config demo_checker" 0 1]
    by (simp add: blocking_of_def verdict_of_findings user_text_is_enforced)
  then have "cv_classes ?v = [''ANTHROPIC_KEY'']"
    by (simp add: classes_of_verdict sorted_classes_def demo_hit_def)
  ultimately show ?thesis by blast
qed

lemma allowed_prompt_was_answered_witness:
  "\<exists>result d. ask (demo_hook_env (\<lambda>_. Some nothing_found) None) (demo_io 0) (tx ''hi'') (tx ''s'') [] = (Reply result, d)
     \<and> hr_allow result = Some True"
proof -
  let ?env = "demo_hook_env (\<lambda>_. Some nothing_found) None"
  have ne: "strip (tx ''hi'') \<noteq> []" by (simp add: strip_def lstrip_def is_space_def)
  have hook: "prompt_hook ?env (demo_io 0) (demo_event ''hi'') []
      = (Allowed, remembered ?env (demo_io 0) (tx ''s'') (tx ''hi'') [])"
    using ne demo_event_text [of "''hi''"] demo_event_session [of ?env "''hi''"] demo_paths(1)
    by (simp add: prompt_hook_def ask_def check_local_def check_embedded_def result_of_def role_gate_def window_leg_def bridged_def
        prompt_bridge_def prompt_load_def read_file_def demo_hook_env_def nothing_found_def demo_daemon_def Let_def
        split: option.splits prod.splits)
  have closed: "\<not> he_fail_open ?env" "he_role ?env (tx ''hi'') = None" by (simp_all add: demo_hook_env_def)
  from allowed_prompt_was_answered [OF hook closed(1) demo_event_text ne] closed(2) show ?thesis
    by (auto simp: demo_event_session)
qed

lemma daemon_is_an_optimisation_witness:
  "prompt_hook ((demo_hook_env (\<lambda>t. Some (de_scan demo_daemon t)) None)\<lparr>he_daemon := Some demo_daemon\<rparr>) (demo_io 0) (demo_event ''hi'') []
   = prompt_hook ((demo_hook_env (\<lambda>t. Some (de_scan demo_daemon t)) None)\<lparr>he_daemon := None\<rparr>) (demo_io 0) (demo_event ''hi'') []"
proof (rule daemon_is_an_optimisation)
  show "event_session (demo_hook_env (\<lambda>t. Some (de_scan demo_daemon t)) None) (demo_event ''hi'') \<noteq> []"
    by (simp add: demo_event_session)
qed (simp_all add: demo_hook_env_def demo_daemon_def nothing_found_def)

end
