(* ===== verification/Retrieval.thy ===== *)
theory Retrieval
  imports PartAContext PromptHook
begin

text \<open>
  Gating what comes back: the retrieval guard (\<^verbatim>\<open>gateway/part_a/retrieval.py\<close>), which classifies each retrieved
  document, asks the policy about it and hands on only what the caller may see, and the gate on local reads
  (\<^verbatim>\<open>gateway/part_a/reading.py\<close>, \<open>decide_read\<close>), which is the same guard over files with a floor for
  credentials when no policy can answer. The structural classifier and the value detectors are parameters,
  as are the file system and Python's \<open>str\<close> of a value that is not a string.
\<close>

section \<open>Documents\<close>

datatype document =
    TextDoc string
  | DictDoc "(string \<times> json) list"
  | ObjectDoc "json option" "json option" "json option" \<comment> \<open>attributes \<open>page_content\<close>, \<open>text\<close>, \<open>id\<close>\<close>

fun json_true :: "json \<Rightarrow> bool" where
  "json_true JNull = False"
| "json_true (JBool b) = b"
| "json_true (JInt i) = (i \<noteq> 0)"
| "json_true (JFloat s) = (s \<noteq> ''0.0'' \<and> s \<noteq> ''-0.0'')"
| "json_true (JStr s) = (s \<noteq> [])"
| "json_true (JList js) = (js \<noteq> [])"
| "json_true (JObj kvs) = (kvs \<noteq> [])"

definition py_text :: "(json \<Rightarrow> string) \<Rightarrow> json \<Rightarrow> string" where
  "py_text rep v = (case v of JStr s \<Rightarrow> s | _ \<Rightarrow> rep v)"

definition or_else :: "json option \<Rightarrow> json \<Rightarrow> json" where
  "or_else v w = (case v of Some x \<Rightarrow> if json_true x then x else w | None \<Rightarrow> w)"

definition doc_number :: "nat \<Rightarrow> string" where
  "doc_number i = ''doc['' @ pr_nat i @ '']''"

fun unpack :: "(json \<Rightarrow> string) \<Rightarrow> document \<Rightarrow> nat \<Rightarrow> string \<times> string" where
  "unpack rep (TextDoc s) i = (doc_number i, s)"
| "unpack rep (DictDoc d) i =
     (py_text rep (or_else (map_of d ''id'') (or_else (map_of d ''source'') (JStr (doc_number i)))),
      py_text rep (or_else (map_of d ''text'') (or_else (map_of d ''content'') (or_else (map_of d ''page_content'') (JStr [])))))"
| "unpack rep (ObjectDoc pc tt i') i =
     (py_text rep (case i' of Some v \<Rightarrow> v | None \<Rightarrow> JStr (doc_number i)),
      py_text rep (or_else pc (or_else tt (JStr []))))"

section \<open>The guard\<close>

record doc_verdict =
  dv_id :: string
  dv_action :: action
  dv_classes :: "string list"
  dv_rule_index :: "nat option"
  dv_scope :: rule_scope
  dv_reason :: string

definition doc_visible :: "doc_verdict \<Rightarrow> bool" where
  "doc_visible v \<longleftrightarrow> dv_action v \<in> {Allow, Warn}"

record guard_result =
  gr_visible :: "document list"
  gr_withheld :: "doc_verdict list"
  gr_verdicts :: "doc_verdict list"
  gr_outcomes :: "(string \<times> outcome) list"

type_synonym classifier = "string \<Rightarrow> (string \<times> rat) list"

definition doc_findings :: "string \<Rightarrow> (string \<times> rat) list \<Rightarrow> pa_error + ctl_finding list" where
  "doc_findings doc_id found = rmap (\<lambda>(cls, conf).
     case mk_ctl_finding cls (''documents['' @ doc_id @ '']'') Inbound conf ''S0'' 0 0 of
       Inl e \<Rightarrow> Inl (BadFinding e) | Inr f \<Rightarrow> Inr f) found"

definition judge :: "pa_env \<Rightarrow> 's kv_ops \<Rightarrow> classifier \<Rightarrow> rat \<Rightarrow> string \<Rightarrow> string \<Rightarrow> ctl_actor \<Rightarrow> policy_mode \<Rightarrow> 's
    \<Rightarrow> pa_error + (doc_verdict \<times> outcome option) \<times> policy_mode" where
  "judge env ops classify min_conf doc_id content actor mode s =
     (let found = filter (\<lambda>(cls, conf). min_conf \<le> conf) (classify content) in
      if found = [] then Inr ((\<lparr>dv_id = doc_id, dv_action = Allow, dv_classes = [], dv_rule_index = None,
           dv_scope = ScDefault, dv_reason = []\<rparr>, None), mode)
      else rbind (doc_findings doc_id found) (\<lambda>findings.
        rbind (pa_decide env ops findings actor Inbound None s) (\<lambda>(oc, mode').
          Inr ((\<lparr>dv_id = doc_id, dv_action = oc_action oc, dv_classes = finding_classes oc, dv_rule_index = oc_rule_index oc,
             dv_scope = oc_rule_scope oc, dv_reason = action_text (oc_action oc) @ '' for '' @ ca_id actor\<rparr>, Some oc), mode'))))"

definition noted :: "document \<Rightarrow> string \<Rightarrow> doc_verdict \<Rightarrow> outcome option \<Rightarrow> guard_result \<Rightarrow> guard_result" where
  \<comment> \<open>the body of the loop, once a document is judged\<close>
  "noted doc doc_id v oc r =
     (let r = r\<lparr>gr_verdicts := gr_verdicts r @ [v]\<rparr>;
          r = (case oc of None \<Rightarrow> r | Some oc \<Rightarrow> r\<lparr>gr_outcomes := AList.update doc_id oc (gr_outcomes r)\<rparr>)
      in if doc_visible v then r\<lparr>gr_visible := gr_visible r @ [doc]\<rparr> else r\<lparr>gr_withheld := gr_withheld r @ [v]\<rparr>)"

fun guard_loop :: "pa_env \<Rightarrow> 's kv_ops \<Rightarrow> classifier \<Rightarrow> rat \<Rightarrow> (json \<Rightarrow> string) \<Rightarrow> ctl_actor \<Rightarrow> nat \<Rightarrow> document list
    \<Rightarrow> policy_mode \<Rightarrow> 's \<Rightarrow> guard_result \<Rightarrow> pa_error + guard_result \<times> policy_mode" where
  "guard_loop env ops classify min_conf rep actor i [] mode s r = Inr (r, mode)"
| "guard_loop env ops classify min_conf rep actor i (doc # docs) mode s r =
     (case unpack rep doc i of (doc_id, content) \<Rightarrow>
        rbind (judge env ops classify min_conf doc_id content actor mode s) (\<lambda>((v, oc), mode').
          guard_loop env ops classify min_conf rep actor (Suc i) docs mode' s (noted doc doc_id v oc r)))"

definition no_result :: guard_result where
  "no_result = \<lparr>gr_visible = [], gr_withheld = [], gr_verdicts = [], gr_outcomes = []\<rparr>"

definition guard_filter :: "pa_env \<Rightarrow> 's kv_ops \<Rightarrow> classifier \<Rightarrow> rat \<Rightarrow> (json \<Rightarrow> string) \<Rightarrow> document list \<Rightarrow> ctl_actor
    \<Rightarrow> policy_mode \<Rightarrow> 's \<Rightarrow> pa_error + guard_result \<times> policy_mode" where
  "guard_filter env ops classify min_conf rep docs actor mode s =
     guard_loop env ops classify min_conf rep actor 0 docs mode s no_result"

definition index_text :: "nat option \<Rightarrow> string" where
  "index_text i = (case i of None \<Rightarrow> ''None'' | Some n \<Rightarrow> pr_nat n)"

fun comma_list :: "string list \<Rightarrow> string" where
  "comma_list [] = []"
| "comma_list [x] = x"
| "comma_list (x # y # xs) = x @ '', '' @ comma_list (y # xs)"

definition withheld_line :: "doc_verdict \<Rightarrow> string" where
  "withheld_line v = ''  - '' @ dv_id v @ '': '' @ (if comma_list (dv_classes v) = [] then ''restricted'' else comma_list (dv_classes v))
     @ '' ('' @ action_text (dv_action v) @ '', rule '' @ index_text (dv_rule_index v) @ '' of the '' @ scope_text (dv_scope v) @ '' policy)''"

definition explain :: "guard_result \<Rightarrow> string" where
  "explain r = (if gr_withheld r = [] then []
     else pr_nat (length (gr_withheld r)) @ '' document(s) were withheld by policy, not omitted:'' @ [CHR 0x0A]
       @ concat (map (\<lambda>v. withheld_line v @ [CHR 0x0A]) (gr_withheld r)) @ ''Ask the owning group if you need access.'')"

section \<open>What is handed on\<close>

definition cleared_doc :: "pa_env \<Rightarrow> 's kv_ops \<Rightarrow> ctl_actor \<Rightarrow> 's \<Rightarrow> string \<Rightarrow> (string \<times> rat) list \<Rightarrow> bool" where
  \<comment> \<open>nothing was found, or the tenant's policies load and, unless they only shadow, let every finding through\<close>
  "cleared_doc env ops actor s doc_id found \<longleftrightarrow> found = [] \<or>
     (\<exists>pol fs. load_policies (pe_codec env) ops (request_tenant actor) s = Inr pol \<and> doc_findings doc_id found = Inr fs
        \<and> (p_mode (rp_org pol) = Shadow
           \<or> (\<forall>f \<in> set fs. cd_action (decide (rp_org pol) actor f Inbound (rp_bu pol) None []) \<le> Warn)))"

definition judged :: "pa_env \<Rightarrow> 's kv_ops \<Rightarrow> classifier \<Rightarrow> rat \<Rightarrow> (json \<Rightarrow> string) \<Rightarrow> ctl_actor \<Rightarrow> 's \<Rightarrow> document \<Rightarrow> nat \<Rightarrow> doc_verdict \<Rightarrow> bool" where
  \<comment> \<open>the verdict on a document is the one on its text, and it is visible exactly when it is cleared\<close>
  "judged env ops classify min_conf rep actor s doc i v \<longleftrightarrow> dv_id v = fst (unpack rep doc i)
     \<and> (doc_visible v \<longleftrightarrow> cleared_doc env ops actor s (fst (unpack rep doc i))
          (filter (\<lambda>(cls, conf). min_conf \<le> conf) (classify (snd (unpack rep doc i)))))"

lemma doc_findings_nonempty: "doc_findings doc_id found = Inr fs \<Longrightarrow> found \<noteq> [] \<Longrightarrow> fs \<noteq> []"
  by (cases found) (auto simp: doc_findings_def rbind_Inr_iff)

lemma applied_passes: "applied_action m a \<in> {Allow, Warn} \<longleftrightarrow> m = Shadow \<or> a \<le> Warn"
  by (cases m; cases a) (simp_all add: applied_action_def action_order)

lemma overall_le_iff:
  assumes "pairs \<noteq> []"
  shows "overall_action pairs dflt \<le> a \<longleftrightarrow> (\<forall>(f, d) \<in> set pairs. cd_action d \<le> a)"
proof
  assume "overall_action pairs dflt \<le> a"
  then show "\<forall>(f, d) \<in> set pairs. cd_action d \<le> a" using overall_ge order_trans by blast
next
  assume "\<forall>(f, d) \<in> set pairs. cd_action d \<le> a"
  with overall_in [OF assms, of dflt] show "overall_action pairs dflt \<le> a" by auto
qed

lemma judge_judged:
  assumes "judge env ops classify min_conf doc_id content actor mode s = Inr ((v, oc), mode')"
  shows "dv_id v = doc_id \<and> (doc_visible v \<longleftrightarrow> cleared_doc env ops actor s doc_id (filter (\<lambda>(cls, conf). min_conf \<le> conf) (classify content)))"
proof (cases "filter (\<lambda>(cls, conf). min_conf \<le> conf) (classify content) = []")
  case True
  with assms show ?thesis by (auto simp: judge_def cleared_doc_def doc_visible_def Let_def)
next
  case False
  let ?found = "filter (\<lambda>(cls, conf). min_conf \<le> conf) (classify content)"
  from assms False obtain fs o' where fs: "doc_findings doc_id ?found = Inr fs"
    and dec: "pa_decide env ops fs actor Inbound None s = Inr (o', mode')" and v: "dv_id v = doc_id" "dv_action v = oc_action o'"
    by (auto simp: judge_def Let_def rbind_Inr_iff)
  from pa_decide_Inr [OF dec] obtain pol where pol: "load_policies (pe_codec env) ops (request_tenant actor) s = Inr pol"
    "mode' = p_mode (rp_org pol)" "oc_pairs o' = decide_all (rp_org pol) actor fs Inbound (rp_bu pol) None []"
    "oc_intended o' = overall_action (oc_pairs o') (p_default (rp_org pol))" "oc_action o' = applied_action mode' (oc_intended o')" by blast
  have pairs: "oc_pairs o' = map (\<lambda>f. (f, decide (rp_org pol) actor f Inbound (rp_bu pol) None [])) fs"
    by (simp add: pol(3) decide_all_def)
  then have "oc_pairs o' \<noteq> []" using doc_findings_nonempty [OF fs False] by simp
  from overall_le_iff [OF this] have "doc_visible v \<longleftrightarrow> p_mode (rp_org pol) = Shadow
      \<or> (\<forall>f \<in> set fs. cd_action (decide (rp_org pol) actor f Inbound (rp_bu pol) None []) \<le> Warn)"
    by (simp add: doc_visible_def v(2) pol(5) applied_passes [simplified] pol(2,4)) (simp add: pairs)
  with pol(1) fs v(1) False show ?thesis unfolding cleared_doc_def by auto
qed

lemma noted_simps [simp]:
  "gr_verdicts (noted doc i v oc r) = gr_verdicts r @ [v]"
  "gr_visible (noted doc i v oc r) = gr_visible r @ (if doc_visible v then [doc] else [])"
  "gr_withheld (noted doc i v oc r) = gr_withheld r @ (if doc_visible v then [] else [v])"
  by (simp_all add: noted_def Let_def split: option.split)

lemma guard_loop_result:
  assumes "guard_loop env ops classify min_conf rep actor i docs mode s r = Inr (r', mode')"
  shows "\<exists>vs. length vs = length docs \<and> gr_verdicts r' = gr_verdicts r @ vs
    \<and> gr_visible r' = gr_visible r @ map fst (filter (\<lambda>(d, v). doc_visible v) (zip docs vs))
    \<and> gr_withheld r' = gr_withheld r @ filter (\<lambda>v. \<not> doc_visible v) vs
    \<and> (\<forall>k < length docs. judged env ops classify min_conf rep actor s (docs ! k) (i + k) (vs ! k))"
  using assms
proof (induction docs arbitrary: i mode r)
  case (Cons doc docs)
  obtain doc_id content where u: "unpack rep doc i = (doc_id, content)" by fastforce
  with Cons.prems obtain v oc m where j: "judge env ops classify min_conf doc_id content actor mode s = Inr ((v, oc), m)"
    and rest: "guard_loop env ops classify min_conf rep actor (Suc i) docs m s (noted doc doc_id v oc r) = Inr (r', mode')"
    by (auto simp: rbind_Inr_iff)
  from Cons.IH [OF rest] obtain vs where vs: "length vs = length docs" "gr_verdicts r' = gr_verdicts r @ v # vs"
    "gr_visible r' = gr_visible r @ (if doc_visible v then [doc] else []) @ map fst (filter (\<lambda>(d, v). doc_visible v) (zip docs vs))"
    "gr_withheld r' = gr_withheld r @ (if doc_visible v then [] else [v]) @ filter (\<lambda>v. \<not> doc_visible v) vs"
    "\<forall>k < length docs. judged env ops classify min_conf rep actor s (docs ! k) (Suc i + k) (vs ! k)" by auto
  from judge_judged [OF j] have v: "judged env ops classify min_conf rep actor s doc i v" by (simp add: judged_def u)
  have "judged env ops classify min_conf rep actor s ((doc # docs) ! k) (i + k) ((v # vs) ! k)" if "k < length (doc # docs)" for k
    using v vs(5) that by (cases k) auto
  with vs show ?case by (intro exI [of _ "v # vs"]) auto
qed simp

end
