(* ===== verification/ReadGate.thy ===== *)
theory ReadGate
  imports Retrieval PartAHistory
begin

text \<open>
  The two questions a hook asks about a logged-in person: may this prompt be sent (\<^verbatim>\<open>part_a/session.py\<close>,
  \<open>decide_prompt\<close>, with the conversion of findings of \<^verbatim>\<open>part_a/detector.py\<close>) and may these files be read
  (\<^verbatim>\<open>part_a/reading.py\<close>, \<open>decide_read\<close>). \<open>role_env\<close> holds what the process reads around them: the session file,
  the detectors, the files, and per record its request id and its turn at the lock.
\<close>

section \<open>Findings across the seam\<close>

fun convert :: "(pystr \<Rightarrow> string) \<Rightarrow> leg \<Rightarrow> bool \<Rightarrow> rat \<Rightarrow> finding list \<Rightarrow> pa_error + ctl_finding list \<times> finding list" where
  \<comment> \<open>\<open>enc\<close> writes a path as UTF-8\<close>
  "convert enc leg include_advisory min_conf [] = Inr ([], [])"
| "convert enc leg include_advisory min_conf (f # fs) =
     (if f_conf f < min_conf then convert enc leg include_advisory min_conf fs
      else if f_advisory f \<and> \<not> include_advisory then
        rbind (convert enc leg include_advisory min_conf fs) (\<lambda>(kept, withheld). Inr (kept, f # withheld))
      else case mk_ctl_finding (class_value (f_class f)) (enc (f_path f)) leg (f_conf f) (f_stage f) (int (f_start f)) (int (f_end f)) of
        Inl e \<Rightarrow> Inl (BadFinding e)
      | Inr g \<Rightarrow> rbind (convert enc leg include_advisory min_conf fs) (\<lambda>(kept, withheld). Inr (g # kept, withheld)))"

section \<open>The environment\<close>

record role_env =
  re_session :: "(string \<times> string) option" \<comment> \<open>tenant and actor of the session file\<close>
  re_scan :: "string \<Rightarrow> finding list" \<comment> \<open>\<open>RootDetector\<close>'s checker on a prompt\<close>
  re_enc :: "pystr \<Rightarrow> string"
  re_classify :: classifier \<comment> \<open>\<open>documents.classify\<close>\<close>
  re_values :: "string \<Rightarrow> string list" \<comment> \<open>the value detectors\<close>
  re_sample :: "string \<Rightarrow> string option" \<comment> \<open>the first 64 KiB of a file; \<open>None\<close> is an \<open>OSError\<close>\<close>
  re_relative :: "string \<Rightarrow> string option" \<comment> \<open>the path below the working directory\<close>
  re_rep :: "json \<Rightarrow> string"
  re_ids :: "nat \<Rightarrow> string"
  re_calls :: "nat \<Rightarrow> kl_call"

section \<open>Prompts\<close>

record role_answer =
  ro_allow :: bool
  ro_action :: action
  ro_actor :: string
  ro_tenant :: string
  ro_classes :: "string list"
  ro_rule_index :: "nat option"
  ro_scope :: rule_scope
  ro_version :: nat
  ro_reason :: string

definition or_word :: "string \<Rightarrow> string \<Rightarrow> string" where
  "or_word s d = (if s = [] then d else s)"

definition role_reason :: "outcome \<Rightarrow> string" where
  "role_reason oc =
     (let a = oc_actor oc in
      ''ZeroTrace blocked this prompt: '' @ or_word (comma_list (finding_classes oc)) ''content'' @ '' may not be sent by ''
      @ ca_id a @ (if ca_groups a = [] then [] else '' ('' @ comma_list (ca_groups a) @ '')'')
      @ ''. Rule '' @ index_text (oc_rule_index oc) @ '' of the '' @ scope_text (oc_rule_scope oc) @ '' policy (v''
      @ pr_nat (p_version (rp_org (oc_policies oc))) @ '') decided this. Nothing was sent.'')"

definition decide_prompt :: "role_env \<Rightarrow> pa_env \<Rightarrow> 's kv_ops \<Rightarrow> string \<Rightarrow> 's \<Rightarrow> (pa_error + role_answer option) \<times> 's" where
  "decide_prompt re env ops prompt s =
     (case re_session re of
        None \<Rightarrow> (Inr None, s)
      | Some (tenant, actor) \<Rightarrow>
          if \<not> tenant_exists ops tenant s then (Inr None, s)
          else case rbind (pa_resolve env ops tenant actor s) (\<lambda>a.
              rbind (convert (re_enc re) Outbound False 0 (re_scan re prompt)) (\<lambda>(kept, withheld).
                pa_decide env ops kept a Outbound None s)) of
            Inl e \<Rightarrow> (Inl e, s)
          | Inr (oc, mode) \<Rightarrow>
              (case pa_record env ops (re_calls re 0) oc (''cli-'' @ re_ids re 0) ''cli'' mode s of
                 (Inl e, s1) \<Rightarrow> (Inl e, s1)
               | (Inr _, s1) \<Rightarrow> (Inr (Some
                   \<lparr>ro_allow = (oc_action oc \<in> {Allow, Warn}), ro_action = oc_action oc, ro_actor = ca_id (oc_actor oc),
                    ro_tenant = tenant, ro_classes = finding_classes oc, ro_rule_index = oc_rule_index oc,
                    ro_scope = oc_rule_scope oc, ro_version = p_version (rp_org (oc_policies oc)), ro_reason = role_reason oc\<rparr>), s1)))"

definition hook_role :: "role_env \<Rightarrow> pa_env \<Rightarrow> 's kv_ops \<Rightarrow> string \<Rightarrow> 's \<Rightarrow> (bool \<times> pystr) option \<times> 's" where
  \<comment> \<open>\<open>_role_decision\<close> of the prompt hook: every failure is no role\<close>
  "hook_role re env ops prompt s =
     (case decide_prompt re env ops prompt s of
        (Inr (Some r), s1) \<Rightarrow> (Some (ro_allow r, tx (ro_reason r)), s1)
      | (_, s1) \<Rightarrow> (None, s1))"

section \<open>Files\<close>

fun last_points :: "nat \<Rightarrow> string \<Rightarrow> string" where
  \<comment> \<open>\<open>text[-n:]\<close> in code points: no continuation byte is left at the front\<close>
  "last_points n [] = []"
| "last_points n (c # s) = (if code_points (c # s) > n \<or> (128 \<le> (of_char c :: nat) \<and> (of_char c :: nat) < 192)
     then last_points n s else c # s)"

definition doc_path :: "role_env \<Rightarrow> string \<Rightarrow> string" where
  "doc_path re path =
     (let t = (case re_relative re path of Some t \<Rightarrow> t | None \<Rightarrow> path)
      in if code_points t \<le> 180 then t else ''...'' @ last_points 177 t)"

definition sample :: "role_env \<Rightarrow> string \<Rightarrow> string" where
  "sample re path = (case re_sample re path of Some t \<Rightarrow> t | None \<Rightarrow> [])"

definition classify_file :: "role_env \<Rightarrow> classifier" where
  "classify_file re t =
     (let found = re_classify re t
      in found @ map (\<lambda>c. (c, 9 / 10)) (filter (\<lambda>c. c \<notin> fst ` set found) (re_values re t)))"

definition is_credential :: "string \<Rightarrow> bool" where
  "is_credential name = (case parse_class name of Inr c \<Rightarrow> family_of c = CREDENTIAL | Inl _ \<Rightarrow> False)"

record withheld_file =
  wh_path :: string
  wh_action :: action
  wh_classes :: "string list"
  wh_rule_index :: "nat option"
  wh_scope :: string

definition credential_file :: "role_env \<Rightarrow> string \<Rightarrow> withheld_file option" where
  "credential_file re path =
     (let t = sample re path; found = sort (filter is_credential (remdups (re_values re t)))
      in if t = [] \<or> found = [] then None
         else Some \<lparr>wh_path = doc_path re path, wh_action = Block, wh_classes = found, wh_rule_index = None, wh_scope = ''credential''\<rparr>)"

definition credential_files :: "role_env \<Rightarrow> string list \<Rightarrow> withheld_file list" where
  "credential_files re paths = List.map_filter (credential_file re) paths"

record read_decision =
  rx_allow :: bool
  rx_actor :: string
  rx_tenant :: string
  rx_groups :: "string list"
  rx_withheld :: "withheld_file list"

definition credential_only :: "role_env \<Rightarrow> string list \<Rightarrow> read_decision option" where
  "credential_only re paths =
     (let creds = credential_files re paths
      in if creds = [] then None
         else Some \<lparr>rx_allow = False, rx_actor = [], rx_tenant = [], rx_groups = [], rx_withheld = creds\<rparr>)"

definition withheld_of :: "doc_verdict \<Rightarrow> withheld_file" where
  "withheld_of v = \<lparr>wh_path = dv_id v, wh_action = dv_action v, wh_classes = dv_classes v, wh_rule_index = dv_rule_index v,
     wh_scope = scope_text (dv_scope v)\<rparr>"

definition degraded_mask :: "string list \<Rightarrow> string \<Rightarrow> outcome \<Rightarrow> outcome" where
  "degraded_mask refused doc_id oc =
     (if doc_id \<in> set refused \<and> oc_action oc = Mask
      then oc\<lparr>oc_action := Block, oc_degraded := oc_degraded oc @ [''mask_needs_proxy'']\<rparr> else oc)"

fun record_reads :: "role_env \<Rightarrow> pa_env \<Rightarrow> 's kv_ops \<Rightarrow> string list \<Rightarrow> policy_mode \<Rightarrow> nat \<Rightarrow> (string \<times> outcome) list \<Rightarrow> 's \<Rightarrow> 's" where
  \<comment> \<open>a record that fails is passed over\<close>
  "record_reads re env ops refused mode n [] s = s"
| "record_reads re env ops refused mode n ((doc_id, oc) # ocs) s =
     record_reads re env ops refused mode (Suc n) ocs
       (snd (pa_record env ops (re_calls re n) (degraded_mask refused doc_id oc) (''read-'' @ re_ids re n) ''cli'' mode s))"

definition documents_of :: "role_env \<Rightarrow> string list \<Rightarrow> document list" where
  "documents_of re paths = map (\<lambda>p. DictDoc [(''id'', JStr (doc_path re p)), (''text'', JStr (sample re p))])
     (filter (\<lambda>p. sample re p \<noteq> []) paths)"

definition decide_read :: "role_env \<Rightarrow> pa_env \<Rightarrow> 's kv_ops \<Rightarrow> string list \<Rightarrow> 's \<Rightarrow> (pa_error + read_decision option) \<times> 's" where
  "decide_read re env ops paths s =
     (if paths = [] then (Inr None, s)
      else case re_session re of
        None \<Rightarrow> (Inr (credential_only re paths), s)
      | Some (tenant, actor) \<Rightarrow>
          if \<not> tenant_exists ops tenant s then (Inr (credential_only re paths), s)
          else case pa_resolve env ops tenant actor s of
            Inl e \<Rightarrow> (Inl e, s)
          | Inr a \<Rightarrow>
              if documents_of re paths = [] then (Inr None, s)
              else case guard_filter env ops (classify_file re) 0 (re_rep re) (documents_of re paths) a Enforce s of
                Inl e \<Rightarrow> (Inl e, s)
              | Inr (r, mode) \<Rightarrow>
                  (Inr (Some \<lparr>rx_allow = (gr_withheld r = []), rx_actor = ca_id a, rx_tenant = tenant, rx_groups = ca_groups a,
                     rx_withheld = map withheld_of (gr_withheld r)\<rparr>),
                   record_reads re env ops (map dv_id (gr_withheld r)) mode 0 (gr_outcomes r) s))"

definition read_reason :: "read_decision \<Rightarrow> string" where
  "read_reason d =
     ''ZeroTrace withheld '' @ pr_nat (length (rx_withheld d)) @ '' file(s) from this read: ''
     @ (if rx_actor d = [] then
          ''they contain credentials. Nothing was read and nothing entered the transcript. No role clears this -- a secret pulled into the context window is in the transcript for good.''
        else rx_actor d @ (if rx_groups d = [] then '' (no clearance groups)'' else '' ('' @ comma_list (rx_groups d) @ '')'')
          @ '' is not cleared for them. Nothing was read and nothing entered the transcript.'')
     @ [CHR 0x0A]
     @ concat (map (\<lambda>w. ''  - '' @ wh_path w @ '': '' @ or_word (comma_list (wh_classes w)) ''restricted'' @ '' (rule ''
          @ index_text (wh_rule_index w) @ '' of the '' @ wh_scope w @ '' policy said '' @ action_text (wh_action w) @ '')'' @ [CHR 0x0A])
          (rx_withheld d))
     @ ''Do not attempt to read this another way. Ask the owning group for access, or `zerotrace login` as someone who holds it.''"

definition read_gate :: "role_env \<Rightarrow> pa_env \<Rightarrow> 's kv_ops \<Rightarrow> string list \<Rightarrow> 's \<Rightarrow> string option \<times> 's" where
  \<comment> \<open>\<open>_clearance_gate\<close> of the tool hook in this process: the reason of a refusal; every failure lets the read pass\<close>
  "read_gate re env ops paths s =
     (case decide_read re env ops paths s of
        (Inr (Some d), s1) \<Rightarrow> (if rx_allow d then None else Some (read_reason d), s1)
      | (_, s1) \<Rightarrow> (None, s1))"

section \<open>Lemmas\<close>

lemma code_points_append: "code_points (a @ b) = code_points a + code_points b"
  by (simp add: code_points_def)

lemma last_points_short: "code_points (last_points n s) \<le> n"
proof (induction n s rule: last_points.induct)
  case (2 n c s)
  then show ?case by (cases "code_points (c # s) > n \<or> (128 \<le> (of_char c :: nat) \<and> (of_char c :: nat) < 192)") auto
qed (simp add: code_points_def)

lemma doc_path_short: "code_points (doc_path re p) \<le> 180"
proof -
  have "code_points (CHR ''.'' # CHR ''.'' # CHR ''.'' # x) = 3 + code_points x" for x by (simp add: code_points_def)
  then show ?thesis using last_points_short [of 177] by (simp add: doc_path_def Let_def)
qed

lemma class_values_short: "code_points (class_value c) \<le> 200"
  by (cases c) (simp_all add: code_points_def)

lemma mk_ctl_finding_fields:
  "mk_ctl_finding cls path leg conf stage st en = Inr f \<Longrightarrow> cf_class f = cls \<and> cf_path f = path \<and> is_entity_class cls
    \<and> cf_leg f = leg \<and> cf_conf f = conf \<and> cf_start f = nat st \<and> cf_end f = nat en"
  by (auto simp: mk_ctl_finding_def rbind_Inr_iff split: if_splits)

lemma doc_findings_fields:
  assumes "doc_findings doc_id found = Inr fs" "f \<in> set fs"
  shows "cf_path f = ''documents['' @ doc_id @ '']'' \<and> is_entity_class (cf_class f)"
  using assms unfolding doc_findings_def
proof (induction found arbitrary: fs)
  case (Cons x found)
  then show ?case by (auto simp: rbind_Inr_iff split: sum.splits prod.splits dest!: mk_ctl_finding_fields)
qed simp

lemma entity_class_short: "is_entity_class name \<Longrightarrow> code_points name \<le> 200"
  using class_values_short by (auto simp: is_entity_class_iff dest!: parse_class_Inr)

lemma guard_filter_result:
  assumes "guard_filter env ops classify min_conf rep docs actor mode s = Inr (r, mode')"
  shows "length (gr_verdicts r) = length docs
    \<and> gr_visible r = map fst (filter (\<lambda>(d, v). doc_visible v) (zip docs (gr_verdicts r)))
    \<and> gr_withheld r = filter (\<lambda>v. \<not> doc_visible v) (gr_verdicts r)
    \<and> (\<forall>k < length docs. judged env ops classify min_conf rep actor s (docs ! k) k (gr_verdicts r ! k))"
  using guard_loop_result [OF assms [unfolded guard_filter_def]] by (auto simp: no_result_def)

lemma unpack_file: "unpack rep (DictDoc [(''id'', JStr a), (''text'', JStr b)]) i = (if a = [] then doc_number i else a, b)"
  by (simp add: py_text_def or_else_def)

lemma decide_read_Inr:
  assumes "decide_read re env ops paths s = (Inr (Some d), s')" "re_session re = Some (t, i)" "tenant_exists ops t s"
  shows "\<exists>a r mode. pa_resolve env ops t i s = Inr a
    \<and> guard_filter env ops (classify_file re) 0 (re_rep re) (documents_of re paths) a Enforce s = Inr (r, mode)
    \<and> rx_allow d = (gr_withheld r = []) \<and> rx_withheld d = map withheld_of (gr_withheld r) \<and> rx_tenant d = t \<and> rx_actor d = ca_id a"
  using assms by (auto simp: decide_read_def split: if_splits sum.splits prod.splits)

lemma convert_Cons_Inr:
  assumes "convert enc leg inc m (f # fs) = Inr (kept, withheld)"
  shows "\<exists>k w. convert enc leg inc m fs = Inr (k, w)
    \<and> (if f_conf f < m then kept = k \<and> withheld = w
       else if f_advisory f \<and> \<not> inc then kept = k \<and> withheld = f # w
       else withheld = w \<and> (\<exists>g. kept = g # k \<and>
         mk_ctl_finding (class_value (f_class f)) (enc (f_path f)) leg (f_conf f) (f_stage f) (int (f_start f)) (int (f_end f)) = Inr g))"
  using assms
  by (cases "f_conf f < m"; cases "f_advisory f \<and> \<not> inc") (auto simp: rbind_Inr_iff split: sum.splits)

section \<open>Properties\<close>

text \<open>C10. The retrieval guard hands on exactly the cleared documents: a document is visible, in its place, if and only if
  nothing was found in it, or the caller's policies let every finding through (allow or warn), or the policy
  only shadows; every other document is reported as withheld.\<close>

theorem visible_documents_are_cleared:
  assumes "guard_filter env ops classify min_conf rep docs actor mode s = Inr (r, mode')"
  shows "length (gr_verdicts r) = length docs
    \<and> gr_visible r = map fst (filter (\<lambda>(d, v). doc_visible v) (zip docs (gr_verdicts r)))
    \<and> gr_withheld r = filter (\<lambda>v. \<not> doc_visible v) (gr_verdicts r)
    \<and> (\<forall>k < length docs. dv_id (gr_verdicts r ! k) = fst (unpack rep (docs ! k) k)
         \<and> (doc_visible (gr_verdicts r ! k) \<longleftrightarrow>
              cleared_doc env ops actor s (fst (unpack rep (docs ! k) k))
                (filter (\<lambda>(cls, conf). min_conf \<le> conf) (classify (snd (unpack rep (docs ! k) k))))))"
  using guard_filter_result [OF assms] by (simp add: judged_def)

lemma read_cleared:
  assumes "decide_read re env ops paths s = (Inr (Some d), s')" "re_session re = Some (t, i)" "tenant_exists ops t s"
    and "rx_allow d" "p \<in> set paths" "sample re p \<noteq> []" "doc_path re p \<noteq> []"
  shows "\<exists>a. pa_resolve env ops t i s = Inr a
    \<and> cleared_doc env ops a s (doc_path re p) (filter (\<lambda>(cls, conf). 0 \<le> conf) (classify_file re (sample re p)))"
proof -
  from decide_read_Inr [OF assms(1-3)] obtain a r mode where a: "pa_resolve env ops t i s = Inr a"
    and g: "guard_filter env ops (classify_file re) 0 (re_rep re) (documents_of re paths) a Enforce s = Inr (r, mode)"
    and w: "gr_withheld r = []" using assms(4) by auto
  let ?doc = "DictDoc [(''id'', JStr (doc_path re p)), (''text'', JStr (sample re p))]"
  have "?doc \<in> set (documents_of re paths)" using assms(5,6) by (auto simp: documents_of_def)
  then obtain k where k: "k < length (documents_of re paths)" "documents_of re paths ! k = ?doc" by (auto simp: in_set_conv_nth)
  note res = guard_filter_result [OF g]
  have "doc_visible (gr_verdicts r ! k)"
    using res k(1) w by (metis (mono_tags, lifting) filter_empty_conv nth_mem)
  with res k have "cleared_doc env ops a s (fst (unpack (re_rep re) ?doc k))
      (filter (\<lambda>(cls, conf). 0 \<le> conf) (classify_file re (snd (unpack (re_rep re) ?doc k))))" by (auto simp: judged_def)
  with a assms(7) show ?thesis unfolding unpack_file by auto
qed

text \<open>C11. An allowed read is cleared: when the gate answers for a logged-in person that a read may go ahead, then each
  file with text was judged, and either nothing was found in it or every finding is let through by the
  policies of the person's tenant, unless the policy only shadows.\<close>

theorem allowed_read_is_cleared:
  assumes "decide_read re env ops paths s = (Inr (Some d), s')" "re_session re = Some (t, i)" "tenant_exists ops t s"
    and "rx_allow d" "p \<in> set paths" "sample re p \<noteq> []" "doc_path re p \<noteq> []"
  shows "\<exists>a. pa_resolve env ops t i s = Inr a
    \<and> cleared_doc env ops a s (doc_path re p) (filter (\<lambda>(cls, conf). 0 \<le> conf) (classify_file re (sample re p)))"
  by (rule read_cleared [OF assms])

text \<open>The credential floor: with nobody logged in, or a tenant the store does not know, a read that touches a file in
  which the value detectors find a credential is refused, the refusal lists that file with the class, and
  nothing is written.\<close>

theorem credential_floor:
  assumes "case re_session re of None \<Rightarrow> True | Some (t, i) \<Rightarrow> \<not> tenant_exists ops t s"
    and "p \<in> set paths" "sample re p \<noteq> []" "c \<in> set (re_values re (sample re p))" "is_credential c"
  shows "\<exists>d. decide_read re env ops paths s = (Inr (Some d), s) \<and> read_gate re env ops paths s = (Some (read_reason d), s)
    \<and> (\<exists>w \<in> set (rx_withheld d). wh_path w = doc_path re p \<and> c \<in> set (wh_classes w) \<and> wh_action w = Block)"
proof -
  obtain w where w: "credential_file re p = Some w" "wh_path w = doc_path re p" "c \<in> set (wh_classes w)" "wh_action w = Block"
  proof -
    have "c \<in> set (sort (filter is_credential (remdups (re_values re (sample re p)))))" using assms(4,5) by simp
    moreover from this have "sort (filter is_credential (remdups (re_values re (sample re p)))) \<noteq> []"
      by (metis empty_iff empty_set)
    ultimately show thesis using assms(3) that by (simp add: credential_file_def Let_def del: set_sort)
  qed
  with assms(2) have mem: "w \<in> set (credential_files re paths)"
    by (auto simp: credential_files_def map_filter_def intro!: rev_image_eqI)
  let ?d = "\<lparr>rx_allow = False, rx_actor = [], rx_tenant = [], rx_groups = [], rx_withheld = credential_files re paths\<rparr>"
  have c: "credential_only re paths = Some ?d" using mem by (auto simp: credential_only_def Let_def)
  have "decide_read re env ops paths s = (Inr (Some ?d), s)"
    using assms(1,2) c by (auto simp: decide_read_def split: option.splits prod.splits)
  with mem w show ?thesis by (auto simp: read_gate_def)
qed

text \<open>The record of a read always fits the ledger: whatever the file is called, the path under which its findings are
  recorded has at most 191 characters, so the schema never refuses it for a path or class of more than 200.\<close>

theorem read_records_fit:
  assumes "doc_findings (doc_path re p) found = Inr fs"
  shows "(\<forall>f \<in> set fs. code_points (cf_path f) \<le> 191) \<and> \<not> long_text fs"
proof -
  have "code_points ''documents['' = 10" "code_points '']'' = 1" by (simp_all add: code_points_def)
  then have "code_points (''documents['' @ doc_path re p @ '']'') \<le> 191"
    using doc_path_short [of re p] unfolding code_points_append by linarith
  then have "code_points (cf_path f) \<le> 191 \<and> code_points (cf_class f) \<le> 200" if "f \<in> set fs" for f
    using doc_findings_fields [OF assms that] entity_class_short by simp
  then show ?thesis by (fastforce simp: long_text_def)
qed

text \<open>C14. The policy's refusal is final: under the fail-closed setting, a prompt that the logged-in person's policy refuses,
  with the refusal on record, is not allowed by the prompt hook, whatever the service, the daemon or the
  embedded checker answer.\<close>

theorem policy_refusal_is_final:
  assumes "decide_prompt re penv ops (dec prompt) s = (Inr (Some r), s1)" "\<not> ro_allow r"
    and "he_role env prompt = fst (hook_role re penv ops (dec prompt) s)" "\<not> he_fail_open env"
    and "prompt_text event = Some prompt" "strip prompt \<noteq> []"
  shows "fst (prompt_hook env io event dir) \<noteq> Allowed"
proof -
  have role: "he_role env prompt = Some (False, tx (ro_reason r))" using assms(1-3) by (simp add: hook_role_def)
  obtain call dir1 where c: "ask env io prompt (event_session env event) dir = (call, dir1)" by fastforce
  show ?thesis
  proof (cases call)
    case (Reply result)
    have "role_gate result (he_role env prompt) \<noteq> None" by (simp add: role_gate_def role)
    with Reply c assms(5,6) show ?thesis by (auto simp: prompt_hook_def Let_def)
  next
    case (Exits x)
    then have "x \<noteq> Allowed" using c assms(4)
      by (auto simp: ask_def check_service_def check_local_def check_embedded_def split: if_splits service_reply.splits option.splits prod.splits)
    with Exits c assms(5,6) show ?thesis by (simp add: prompt_hook_def Let_def)
  next
    case Raises
    with c assms(4-6) show ?thesis by (simp add: prompt_hook_def Let_def)
  qed
qed

text \<open>Nothing enforceable is lost at the seam between the two vocabularies, and what is only advisory does not cross it.\<close>

lemma conversion_loses_nothing:
  assumes "convert enc leg False m fs = Inr (kept, withheld)"
  shows "withheld = filter (\<lambda>f. m \<le> f_conf f \<and> f_advisory f) fs
    \<and> list_all2 (\<lambda>f g. cf_class g = class_value (f_class f) \<and> cf_path g = enc (f_path f) \<and> cf_conf g = f_conf f \<and> cf_leg g = leg
         \<and> cf_start g = f_start f \<and> cf_end g = f_end f) (filter (\<lambda>f. m \<le> f_conf f \<and> \<not> f_advisory f) fs) kept"
  using assms
proof (induction fs arbitrary: kept withheld)
  case (Cons f fs)
  from convert_Cons_Inr [OF Cons.prems] obtain k w where kw: "convert enc leg False m fs = Inr (k, w)"
    "if f_conf f < m then kept = k \<and> withheld = w
       else if f_advisory f \<and> \<not> False then kept = k \<and> withheld = f # w
       else withheld = w \<and> (\<exists>g. kept = g # k \<and>
         mk_ctl_finding (class_value (f_class f)) (enc (f_path f)) leg (f_conf f) (f_stage f) (int (f_start f)) (int (f_end f)) = Inr g)" by blast
  from Cons.IH [OF kw(1)] kw(2) show ?case
    by (auto simp: not_less split: if_splits dest!: mk_ctl_finding_fields)
qed simp

section \<open>Samples\<close>

definition sample_d :: kv_data where
  "sample_d = file_view sample_file"

definition sample_role :: "(string \<times> string) option \<Rightarrow> string \<Rightarrow> role_env" where
  "sample_role session cls = \<lparr>re_session = session,
     re_scan = \<lambda>_. [\<lparr>f_path = [], f_start = 0, f_end = 0, f_class = (case parse_class cls of Inr c \<Rightarrow> c | Inl _ \<Rightarrow> PAN), f_conf = 1,
       f_leg = Outbound, f_detector_id = None, f_detector = [], f_stage = ''S0'', f_tier = DETERMINISTIC, f_advisory = False\<rparr>],
     re_enc = \<lambda>_. ''p'', re_classify = \<lambda>_. [], re_values = \<lambda>_. [cls], re_sample = Some, re_relative = Some,
     re_rep = \<lambda>_. [], re_ids = \<lambda>_. ''1'', re_calls = \<lambda>_. rq_call (sample_request Outbound [] [])\<rparr>"

lemma sample_actor: "pa_resolve sample_env memory_ops ''t'' ''a'' sample_d = Inr (pa_unregistered ''t'' ''a'')"
  and sample_loaded: "load_policies (pe_codec sample_env) memory_ops ''t'' sample_d = Inr
      \<lparr>rp_org = demo_org, rp_bu = None, rp_org_tenant_id = ''t'', rp_bu_tenant_id = None, rp_degraded_reasons = [],
       rp_org_policy_content_hash = policy_row_hash toy_digest ''t'' (JInt 1) ''o'', rp_bu_policy_content_hash = None\<rparr>"
  and sample_tenant: "tenant_exists memory_ops ''t'' sample_d"
proof -
  let ?d0 = "put_tenant memory_ops ''t'' None memory_kv"
  have d: "sample_d = snd (put_policy toy_digest memory_ops ''t'' ''o'' 1 ?d0)"
    by (simp add: sample_d_def sample_file_view(3) sample_steps_def pa_admin_def sample_env_def)
  have h: "ko_hgetall memory_ops (kl_key ''t'' [''actors'', ''a'']) sample_d = []"
    "ko_hgetall memory_ops (kl_key ''t'' [''tenant'']) sample_d \<noteq> []" "parent_of memory_ops ''t'' sample_d = None"
    unfolding d parent_of_def
    by (simp_all add: put_policy_def put_tenant_def Let_def memory_ops_def mk_hset_many_def mk_sadd_def mk_hgetall_def
        lookup_or_update kl_key_inj memory_kv_def lookup_or_def dict_update_Nil_iff map_of_dict_update nonempty_def)
  show t: "tenant_exists memory_ops ''t'' sample_d" using h(2) by (simp add: tenant_exists_def)
  show "pa_resolve sample_env memory_ops ''t'' ''a'' sample_d = Inr (pa_unregistered ''t'' ''a'')"
    using h(1) t by (simp add: pa_resolve_def get_actor_def Let_def)
  have "get_policy memory_ops ''t'' sample_d = Inr (Some (fst (put_policy toy_digest memory_ops ''t'' ''o'' 1 ?d0)))"
    unfolding d by (rule get_put_policy)
  then show "load_policies (pe_codec sample_env) memory_ops ''t'' sample_d = Inr
      \<lparr>rp_org = demo_org, rp_bu = None, rp_org_tenant_id = ''t'', rp_bu_tenant_id = None, rp_degraded_reasons = [],
       rp_org_policy_content_hash = policy_row_hash toy_digest ''t'' (JInt 1) ''o'', rp_bu_policy_content_hash = None\<rparr>"
    using h(3) by (simp add: load_policies_def parsed_def parse_policy_def put_policy_def Let_def sample_env_def sample_policies_def)
qed

lemma sample_decision:
  "cd_action (decide demo_org (pa_unregistered ''t'' ''a'') f leg None None []) = (if cf_class f = ''HR_RECORD'' then Mask else Warn)"
proof -
  let ?a = "pa_unregistered ''t'' ''a''"
  have "layer_action b None ?a f leg None = None" for b by (simp add: layer_action_def last_match_def)
  moreover have "layer_action b (Some demo_org) ?a f leg None = Some (if cf_class f = ''HR_RECORD'' then Mask else Warn)" for b
    by (simp add: layer_action_def last_match_def demo_defs rule_matches_iff rule_action_for_def first_clearance_def clearance_blocks_for_def
        clearance_applies_def clearance_is_empty_def pa_unregistered_def)
  ultimately show ?thesis by (simp add: decide_action_eq Let_def)
qed

lemma sample_pa_decide:
  "pa_decide sample_env memory_ops [f] (pa_unregistered ''t'' ''a'') leg None sample_d = Inr (oc, m) \<Longrightarrow>
     oc_action oc = (if cf_class f = ''HR_RECORD'' then Mask else Warn) \<and> m = Enforce \<and> oc_actor oc = pa_unregistered ''t'' ''a''"
  "\<exists>oc m. pa_decide sample_env memory_ops fs (pa_unregistered ''t'' ''a'') leg None sample_d = Inr (oc, m)"
proof -
  have rt: "request_tenant (pa_unregistered ''t'' ''a'') = ''t''" by (simp add: request_tenant_def pa_unregistered_def)
  have mode: "p_mode demo_org = Enforce" by (simp add: demo_defs)
  show "oc_action oc = (if cf_class f = ''HR_RECORD'' then Mask else Warn) \<and> m = Enforce \<and> oc_actor oc = pa_unregistered ''t'' ''a''"
    if "pa_decide sample_env memory_ops [f] (pa_unregistered ''t'' ''a'') leg None sample_d = Inr (oc, m)"
    using pa_decide_Inr [OF that] unfolding rt sample_loaded
    by (auto simp: decide_all_def overall_action_def strongest_def sample_decision mode applied_action_Enforce)
  show "\<exists>oc m. pa_decide sample_env memory_ops fs (pa_unregistered ''t'' ''a'') leg None sample_d = Inr (oc, m)"
    by (simp add: pa_decide_def rt sample_loaded Let_def)
qed

lemma sample_judged:
  assumes "is_entity_class cls" "filter (\<lambda>(c, conf). m \<le> conf) (classify content) = [(cls, 9 / 10)]"
  shows "\<exists>v oc. judge sample_env memory_ops classify m i content (pa_unregistered ''t'' ''a'') Enforce sample_d = Inr ((v, oc), Enforce)
    \<and> doc_visible v = (cls \<noteq> ''HR_RECORD'')"
proof -
  let ?a = "pa_unregistered ''t'' ''a''"
  from assms(1) obtain c where "parse_class cls = Inr c" by (auto simp: is_entity_class_iff)
  with assms(1) obtain f where f: "mk_ctl_finding cls (''documents['' @ i @ '']'') Inbound (9 / 10) ''S0'' 0 0 = Inr f"
    by (auto simp: mk_ctl_finding_def family_of_name_def STAGES_def)
  then have fs: "doc_findings i [(cls, 9 / 10)] = Inr [f]" and c: "cf_class f = cls"
    by (auto simp: doc_findings_def dest: mk_ctl_finding_fields)
  obtain oc m where d: "pa_decide sample_env memory_ops [f] ?a Inbound None sample_d = Inr (oc, m)" using sample_pa_decide(2) by blast
  from sample_pa_decide(1) [OF d] c have "oc_action oc = (if cls = ''HR_RECORD'' then Mask else Warn)" "m = Enforce" by auto
  then show ?thesis by (simp add: judge_def assms(2) fs d Let_def doc_visible_def)
qed

lemma visible_documents_are_cleared_witness:
  "\<exists>r. guard_filter sample_env memory_ops (\<lambda>t. [(t, 9 / 10)]) 0 (\<lambda>_. []) [TextDoc ''PAN'', TextDoc ''HR_RECORD''] (pa_unregistered ''t'' ''a'')
      Enforce sample_d = Inr (r, Enforce)
    \<and> gr_visible r = [TextDoc ''PAN''] \<and> cleared_doc sample_env memory_ops (pa_unregistered ''t'' ''a'') sample_d ''doc[0]'' [(''PAN'', 9 / 10)]"
proof -
  let ?c = "\<lambda>t :: string. [(t, 9 / 10 :: rat)]" and ?docs = "[TextDoc ''PAN'', TextDoc ''HR_RECORD'']"
  have e: "is_entity_class ''PAN''" "is_entity_class ''HR_RECORD''" by code_simp+
  obtain v oc where v: "judge sample_env memory_ops ?c 0 (doc_number 0) ''PAN'' (pa_unregistered ''t'' ''a'') Enforce sample_d = Inr ((v, oc), Enforce)"
    "doc_visible v" using sample_judged [OF e(1), of 0 ?c "''PAN''" "doc_number 0"] by auto
  obtain w oc' where w: "judge sample_env memory_ops ?c 0 (doc_number (Suc 0)) ''HR_RECORD'' (pa_unregistered ''t'' ''a'') Enforce sample_d
      = Inr ((w, oc'), Enforce)" "\<not> doc_visible w"
    using sample_judged [OF e(2), of 0 ?c "''HR_RECORD''" "doc_number (Suc 0)"] by auto
  obtain r where r: "guard_filter sample_env memory_ops ?c 0 (\<lambda>_. []) ?docs (pa_unregistered ''t'' ''a'') Enforce sample_d = Inr (r, Enforce)"
    "gr_visible r = [TextDoc ''PAN'']" "gr_verdicts r = [v, w]"
    using v w by (simp add: guard_filter_def no_result_def)
  have "doc_number 0 = ''doc[0]''" by (simp add: doc_number_def pr_nat.simps dec_digit_def)
  then have "cleared_doc sample_env memory_ops (pa_unregistered ''t'' ''a'') sample_d ''doc[0]'' [(''PAN'', 9 / 10)]"
    using visible_documents_are_cleared [OF r(1)] r(3) v(2) by auto
  with r show ?thesis by blast
qed

lemma sample_read:
  assumes "is_entity_class cls"
  shows "\<exists>d s'. decide_read (sample_role (Some (''t'', ''a'')) cls) sample_env memory_ops [''f''] sample_d = (Inr (Some d), s')
    \<and> rx_allow d = (cls \<noteq> ''HR_RECORD'')"
proof -
  let ?re = "sample_role (Some (''t'', ''a'')) cls"
  have "filter (\<lambda>(c, conf). 0 \<le> conf) (classify_file ?re ''f'') = [(cls, 9 / 10)]"
    by (simp add: classify_file_def sample_role_def Let_def)
  from sample_judged [where i = "''f''" and content = "''f''" and classify = "classify_file ?re" and cls = cls and m = 0, OF assms this]
  obtain v oc where
    v: "judge sample_env memory_ops (classify_file ?re) 0 ''f'' ''f'' (pa_unregistered ''t'' ''a'') Enforce sample_d = Inr ((v, oc), Enforce)"
    "doc_visible v = (cls \<noteq> ''HR_RECORD'')" by blast
  have "code_points ''f'' = 1" by (simp add: code_points_def)
  then have docs: "documents_of ?re [''f''] = [DictDoc [(''id'', JStr ''f''), (''text'', JStr ''f'')]]"
    by (simp add: documents_of_def sample_def doc_path_def sample_role_def Let_def)
  have fields: "re_session ?re = Some (''t'', ''a'')" "re_rep ?re = (\<lambda>_. [])" by (simp_all add: sample_role_def)
  show ?thesis using v
    by (simp add: decide_read_def fields sample_tenant sample_actor docs guard_filter_def unpack_file no_result_def del: unpack.simps)
qed

lemma allowed_read_is_cleared_witness:
  "\<exists>d s'. decide_read (sample_role (Some (''t'', ''a'')) ''PAN'') sample_env memory_ops [''f''] sample_d = (Inr (Some d), s') \<and> rx_allow d
    \<and> cleared_doc sample_env memory_ops (pa_unregistered ''t'' ''a'') sample_d ''f'' [(''PAN'', 9 / 10)]"
proof -
  let ?re = "sample_role (Some (''t'', ''a'')) ''PAN''"
  have "is_entity_class ''PAN''" by code_simp
  from sample_read [OF this] obtain d s' where
    d: "decide_read ?re sample_env memory_ops [''f''] sample_d = (Inr (Some d), s')" "rx_allow d" by auto
  have f: "re_session ?re = Some (''t'', ''a'')" "sample ?re ''f'' = ''f''" "doc_path ?re ''f'' = ''f''"
    by (simp_all add: sample_role_def sample_def doc_path_def code_points_def)
  have "filter (\<lambda>(c, conf). 0 \<le> conf) (classify_file ?re ''f'') = [(''PAN'', 9 / 10)]"
    by (simp add: classify_file_def sample_role_def Let_def)
  with allowed_read_is_cleared [OF d(1) f(1) sample_tenant d(2), of "''f''"] d show ?thesis
    by (auto simp: f sample_actor)
qed

lemma credential_floor_witness:
  "\<exists>d. decide_read (sample_role None ''AWS_ACCESS_KEY'') sample_env memory_ops [''f''] sample_d = (Inr (Some d), sample_d)
    \<and> read_gate (sample_role None ''AWS_ACCESS_KEY'') sample_env memory_ops [''f''] sample_d = (Some (read_reason d), sample_d)"
proof -
  let ?re = "sample_role None ''AWS_ACCESS_KEY''"
  have "case re_session ?re of None \<Rightarrow> True | Some (t, i) \<Rightarrow> \<not> tenant_exists memory_ops t sample_d" by (simp add: sample_role_def)
  moreover have "sample ?re ''f'' \<noteq> []" "''AWS_ACCESS_KEY'' \<in> set (re_values ?re (sample ?re ''f''))"
    by (simp_all add: sample_role_def sample_def)
  moreover have "is_credential ''AWS_ACCESS_KEY''" by code_simp
  ultimately show ?thesis
    using credential_floor [where re = ?re and p = "''f''" and paths = "[''f'']" and env = sample_env] by fastforce
qed

lemma read_records_fit_witness:
  "\<exists>fs. doc_findings (doc_path (sample_role None ''PAN'') ''f'') [(''PAN'', 9 / 10)] = Inr fs \<and> \<not> long_text fs"
proof -
  have "is_entity_class ''PAN''" by code_simp
  then obtain c where "parse_class ''PAN'' = Inr c" by (auto simp: is_entity_class_iff)
  with \<open>is_entity_class ''PAN''\<close> obtain fs where
    fs: "doc_findings (doc_path (sample_role None ''PAN'') ''f'') [(''PAN'', 9 / 10)] = Inr fs"
    by (auto simp: doc_findings_def mk_ctl_finding_def family_of_name_def STAGES_def)
  from read_records_fit [OF this] fs show ?thesis by blast
qed

lemma sample_prompt:
  "\<exists>r s'. decide_prompt (sample_role (Some (''t'', ''a'')) ''HR_RECORD'') sample_env file_ops prompt sample_file = (Inr (Some r), s')
    \<and> \<not> ro_allow r" (is "\<exists>r s'. decide_prompt ?re _ _ _ _ = _ \<and> _")
proof -
  let ?a = "pa_unregistered ''t'' ''a''"
  note ok = sample_file_view(2)
  have seen: "tenant_exists file_ops ''t'' sample_file" "pa_resolve sample_env file_ops ''t'' ''a'' sample_file = Inr ?a"
    using sample_tenant sample_actor
    by (simp_all add: disk.tenant_exists_view [OF ok] pa_resolve_def disk.get_actor_view [OF ok] sample_d_def)
  have dec: "pa_decide sample_env file_ops fs ?a Outbound None sample_file = pa_decide sample_env memory_ops fs ?a Outbound None sample_d" for fs
    by (simp add: pa_decide_def disk.load_policies_view [OF ok] sample_d_def)
  have "parse_class ''HR_RECORD'' = Inr HR_RECORD" by code_simp
  moreover obtain g where g: "mk_ctl_finding ''HR_RECORD'' ''p'' Outbound 1 ''S0'' 0 0 = Inr g"
    using \<open>parse_class ''HR_RECORD'' = Inr HR_RECORD\<close> is_entity_class_iff [of "''HR_RECORD''"]
    by (auto simp: mk_ctl_finding_def family_of_name_def STAGES_def)
  ultimately have conv: "convert (re_enc re) Outbound False 0 (re_scan re prompt) = Inr ([g], [])" if "re = ?re" for re
    using that by (auto simp: sample_role_def)
  have cls: "cf_class g = ''HR_RECORD''" "cf_path g = ''p''" using mk_ctl_finding_fields [OF g] by simp_all
  obtain oc m where d: "pa_decide sample_env memory_ops [g] ?a Outbound None sample_d = Inr (oc, m)" using sample_pa_decide(2) by blast
  have oc: "oc_action oc = Mask" "oc_actor oc = ?a" using sample_pa_decide(1) [OF d] cls by simp_all
  let ?q = "sample_request Outbound (''cli-'' @ ''1'') [g]"
  obtain res s1 where a: "pa_serve sample_env file_ops ?q sample_file = (res, s1)" by fastforce
  have eq: "pa_serve sample_env file_ops ?q sample_file =
    (case pa_record sample_env file_ops (rq_call (sample_request Outbound [] [])) oc (''cli-'' @ ''1'') ''cli'' m sample_file of
       (Inl e, s1) \<Rightarrow> (Inl e, s1) | (Inr row, s1) \<Rightarrow> (Inr (oc, row), s1))"
    using seen(2) dec [of "[g]"] d by (simp add: pa_serve_def sample_request_def)
  have "\<not> long_text [g]" by (simp add: long_text_def cls code_points_def)
  with sample_served [OF a] a eq obtain row where
    rec: "pa_record sample_env file_ops (rq_call (sample_request Outbound [] [])) oc (''cli-'' @ ''1'') ''cli'' m sample_file = (Inr row, s1)"
    by (auto split: prod.splits sum.splits)
  have run: "decide_prompt re sample_env file_ops prompt sample_file =
      (case pa_record sample_env file_ops (re_calls re 0) oc (''cli-'' @ re_ids re 0) ''cli'' m sample_file of
         (Inl e, s1) \<Rightarrow> (Inl e, s1)
       | (Inr _, s1) \<Rightarrow> (Inr (Some
           \<lparr>ro_allow = (oc_action oc \<in> {Allow, Warn}), ro_action = oc_action oc, ro_actor = ca_id (oc_actor oc),
            ro_tenant = ''t'', ro_classes = finding_classes oc, ro_rule_index = oc_rule_index oc,
            ro_scope = oc_rule_scope oc, ro_version = p_version (rp_org (oc_policies oc)), ro_reason = role_reason oc\<rparr>), s1))"
    if "re = ?re" for re
  proof -
    have "re_session re = Some (''t'', ''a'')" using that by (auto simp: sample_role_def)
    then show ?thesis by (simp add: decide_prompt_def seen conv [OF that] dec d)
  qed
  have calls: "re_calls ?re 0 = rq_call (sample_request Outbound [] [])" "re_ids ?re 0 = ''1''"
    by (simp_all add: sample_role_def)
  show ?thesis by (simp only: run [OF refl] calls rec) (simp add: oc)
qed

lemma policy_refusal_is_final_witness:
  "fst (prompt_hook (demo_hook_env (\<lambda>_. None)
      (fst (hook_role (sample_role (Some (''t'', ''a'')) ''HR_RECORD'') sample_env file_ops ''x'' sample_file)))
      (demo_io 0) (demo_event ''x'') []) \<noteq> Allowed"
proof -
  let ?re = "sample_role (Some (''t'', ''a'')) ''HR_RECORD''"
  obtain r s' where r: "decide_prompt ?re sample_env file_ops ((\<lambda>_. ''x'') (tx ''x'')) sample_file = (Inr (Some r), s')" "\<not> ro_allow r"
    using sample_prompt [of "''x''"] by auto
  show ?thesis
    by (rule policy_refusal_is_final [where prompt = "tx ''x''" and dec = "\<lambda>_. ''x''", OF r])
      (simp_all add: demo_hook_env_def demo_event_text strip_def lstrip_def is_space_def)
qed

section \<open>What opens the gates\<close>

text \<open>A refusal that cannot be recorded is no refusal: when its record is not written, for want of the lock or because the
  schema does not take it, the hook goes on as if nobody were logged in.\<close>

lemma lost_evidence_drops_the_refusal:
  assumes "re_session re = Some (t, i)" "tenant_exists ops t s"
    and "rbind (pa_resolve env ops t i s) (\<lambda>a. rbind (convert (re_enc re) Outbound False 0 (re_scan re prompt))
      (\<lambda>(kept, withheld). pa_decide env ops kept a Outbound None s)) = Inr (oc, mode)"
    and "pa_record env ops (re_calls re 0) oc (''cli-'' @ re_ids re 0) ''cli'' mode s = (Inl e, s1)"
  shows "hook_role re env ops prompt s = (None, s1)"
  using assms by (simp add: hook_role_def decide_prompt_def)

text \<open>A read goes ahead whether or not its record was written.\<close>

lemma read_does_not_wait_for_its_record:
  "fst (decide_read (re\<lparr>re_calls := calls\<rparr>) env ops paths s) = fst (decide_read re env ops paths s)"
proof -
  have "credential_file (re\<lparr>re_calls := calls\<rparr>) = credential_file re"
    by (simp add: fun_eq_iff credential_file_def sample_def doc_path_def cong: if_cong)
  then have "documents_of (re\<lparr>re_calls := calls\<rparr>) paths = documents_of re paths" "credential_only (re\<lparr>re_calls := calls\<rparr>) paths = credential_only re paths"
    by (simp_all add: documents_of_def sample_def doc_path_def credential_only_def credential_files_def cong: if_cong)
  moreover have "classify_file (re\<lparr>re_calls := calls\<rparr>) = classify_file re" by (simp add: classify_file_def fun_eq_iff)
  ultimately show ?thesis by (simp add: decide_read_def split: option.split sum.split)
qed

text \<open>Logging in can open a file with a credential that nobody may read without a login.\<close>

lemma login_lifts_the_credential_floor:
  "fst (read_gate (sample_role None ''AWS_ACCESS_KEY'') sample_env memory_ops [''f''] sample_d) \<noteq> None"
  "fst (read_gate (sample_role (Some (''t'', ''a'')) ''AWS_ACCESS_KEY'') sample_env memory_ops [''f''] sample_d) = None"
proof -
  have e: "is_entity_class ''AWS_ACCESS_KEY''" and cred: "is_credential ''AWS_ACCESS_KEY''" by code_simp+
  have "credential_file (sample_role None ''AWS_ACCESS_KEY'') ''f'' \<noteq> None"
    using cred by (simp add: credential_file_def sample_def sample_role_def Let_def)
  then have "credential_only (sample_role None ''AWS_ACCESS_KEY'') [''f''] \<noteq> None"
    by (auto simp: credential_only_def credential_files_def map_filter_def Let_def)
  then show "fst (read_gate (sample_role None ''AWS_ACCESS_KEY'') sample_env memory_ops [''f''] sample_d) \<noteq> None"
    by (auto simp: read_gate_def decide_read_def credential_only_def sample_role_def Let_def split: if_splits)
  from sample_read [OF e]
  show "fst (read_gate (sample_role (Some (''t'', ''a'')) ''AWS_ACCESS_KEY'') sample_env memory_ops [''f''] sample_d) = None"
    by (auto simp: read_gate_def)
qed

text \<open>A tenant that is known but has no policy, as an attach leaves it when the policy could not be fetched, is without the
  credential floor and without a policy.\<close>

lemma unloaded_policy_withholds_nothing:
  assumes "guard_loop env ops classify m rep a i docs mode s r = Inr (r', mode')"
    and "\<And>fs. pa_decide env ops fs a Inbound None s = Inl e"
  shows "gr_withheld r' = gr_withheld r"
  using assms(1)
proof (induction docs arbitrary: i mode r)
  case (Cons doc docs)
  obtain doc_id content where u: "unpack rep doc i = (doc_id, content)" by fastforce
  with Cons.prems obtain v oc md where j: "judge env ops classify m doc_id content a mode s = Inr ((v, oc), md)"
    and rest: "guard_loop env ops classify m rep a (Suc i) docs md s (noted doc doc_id v oc r) = Inr (r', mode')"
    by (auto simp: rbind_Inr_iff)
  have "doc_visible v" using j by (auto simp: judge_def Let_def assms(2) rbind_Inr_iff doc_visible_def split: if_splits)
  with Cons.IH [OF rest] show ?case by simp
qed simp

lemma tenant_without_policy_is_open:
  assumes "re_session re = Some (t, i)" "t \<noteq> []" "tenant_exists memory_ops t s" "get_policy memory_ops t s = Inr None"
  shows "fst (hook_role re env memory_ops prompt s) = None" "fst (read_gate re env memory_ops paths s) = None"
proof -
  have "load_policies cd memory_ops t s = Inl (PolicyNotStored t)" for cd using assms(4) by (simp add: load_policies_def)
  then have d: "pa_decide env memory_ops fs a leg dst s = Inl (PolicyNotStored t)" if "request_tenant a = t" for fs a leg dst
    using that by (simp add: pa_decide_def)
  with assms(1-3) resolved_tenant [of env t i s] show "fst (hook_role re env memory_ops prompt s) = None"
    by (auto simp: hook_role_def decide_prompt_def rbind_def split: sum.splits prod.splits)
  have "gr_withheld r = []" if "pa_resolve env memory_ops t i s = Inr a"
    "guard_filter env memory_ops c m rep docs a mode s = Inr (r, mode')" for a c m rep docs mode r mode'
    using unloaded_policy_withholds_nothing [OF that(2) [unfolded guard_filter_def] d] resolved_tenant [OF that(1) assms(2)]
    by (simp add: no_result_def)
  with assms(1,3) show "fst (read_gate re env memory_ops paths s) = None"
    by (auto simp: read_gate_def decide_read_def split: sum.splits prod.splits)
qed

end
