(* ===== verification/SessionRisk.thy ===== *)
theory SessionRisk
  imports CallState
begin

text \<open>
  Session risk (\<^verbatim>\<open>gateway/base/risk.py\<close>): four decaying counters and the hashes of recent append targets, kept
  in one file per session, and the score, band and assessment computed from them. Floats are reals; the
  files are a dictionary as in \<open>CallState\<close>, written whole or not at all; SHA-256 is the parameter \<open>H\<close>.
  \<open>None\<close> is the \<open>UnicodeEncodeError\<close> of text with a lone surrogate.
\<close>

section \<open>Signals\<close>

record signals =
  fragment_calls :: real
  repeat_appends :: real
  entropy_runs :: real
  blocked :: real
  targets :: "pystr list"
  updated :: real

definition no_signals :: signals where
  "no_signals = \<lparr>fragment_calls = 0, repeat_appends = 0, entropy_runs = 0, blocked = 0, targets = [], updated = 0\<rparr>"

datatype band = Low | Medium | High

definition BAND_LOW :: real where "BAND_LOW = 35 / 100"
definition BAND_HIGH :: real where "BAND_HIGH = 75 / 100"
definition HALF_LIFE_S :: real where "HALF_LIFE_S = 1200"
definition TTL_S :: nat where "TTL_S = 7200"

definition decay :: "real \<Rightarrow> signals \<Rightarrow> signals" where
  "decay now s =
     (if updated s = 0 then s\<lparr>updated := now\<rparr>
      else if now - updated s \<le> 0 then s
      else let factor = (1 / 2) powr ((now - updated s) / HALF_LIFE_S) in
        s\<lparr>fragment_calls := fragment_calls s * factor, repeat_appends := repeat_appends s * factor,
          entropy_runs := entropy_runs s * factor, blocked := blocked s * factor, updated := now\<rparr>)"

definition score :: "signals \<Rightarrow> real" where
  "score s = max 0 (min 1
     (30 / 100 * min (fragment_calls s) 4 + 18 / 100 * min (repeat_appends s) 4
      + 5 / 100 * min (entropy_runs s) 4 + 25 / 100 * min (blocked s) 2))"

definition band_of :: "real \<Rightarrow> band" where
  "band_of value = (if BAND_HIGH \<le> value then High else if BAND_LOW \<le> value then Medium else Low)"

record assessment =
  as_value :: real
  as_band :: band
  as_fragments :: nat
  as_escalate :: bool

definition half_even :: "real \<Rightarrow> int" where
  "half_even x = (let f = \<lfloor>x\<rfloor>; d = x - of_int f in
     if d < 1 / 2 then f else if 1 / 2 < d then f + 1 else if even f then f else f + 1)"

definition assess :: "signals \<Rightarrow> assessment" where
  "assess s = (let value = score s; b = band_of value in
     \<lparr>as_value = of_int (half_even (1000 * value)) / 1000, as_band = b,
      as_fragments = (case b of Low \<Rightarrow> 3 | Medium \<Rightarrow> 6 | High \<Rightarrow> 10), as_escalate = (b = High)\<rparr>)"

definition is_low :: "assessment \<Rightarrow> bool" where
  "is_low a \<longleftrightarrow> as_band a = Low"

section \<open>What a command shows\<close>

definition entropy_char :: "nat \<Rightarrow> bool" where
  "entropy_char c \<longleftrightarrow> is_alnum c \<or> c \<in> set (tx ''+/=_-'')"

definition has_entropy_run :: "pystr \<Rightarrow> bool" where
  "has_entropy_run text = list_ex (\<lambda>r. 16 \<le> length r) (runs entropy_char text)"

function append_targets :: "pystr \<Rightarrow> pystr list" where
  \<comment> \<open>the groups of \<^verbatim>\<open>>>\s*(\S+)\<close>, left to right\<close>
  "append_targets (c # d # t) =
     (if c = 62 \<and> d = 62 \<and> dropWhile is_space t \<noteq> []
      then takeWhile (\<lambda>x. \<not> is_space x) (dropWhile is_space t)
             # append_targets (dropWhile (\<lambda>x. \<not> is_space x) (dropWhile is_space t))
      else append_targets (d # t))"
| "append_targets [c] = []"
| "append_targets [] = []"
  by pat_completeness auto
termination
proof (relation "measure length")
  fix c d t
  have "length (dropWhile (\<lambda>x. \<not> is_space x) (dropWhile is_space t)) \<le> length t"
    by (rule order_trans [OF length_dropWhile_le length_dropWhile_le])
  then show "(dropWhile (\<lambda>x. \<not> is_space x) (dropWhile is_space t), c # d # t) \<in> measure length" by simp
qed simp_all

definition digest12 :: "(pybytes \<Rightarrow> pybytes) \<Rightarrow> pystr \<Rightarrow> pystr option" where
  "digest12 H s = map_option (\<lambda>b. take 12 (concat (map (\<lambda>b. [hex_cp (b div 16), hex_cp (b mod 16)]) (H b)))) (utf8_encode s)"

definition note_target :: "pystr \<Rightarrow> signals \<Rightarrow> signals" where
  "note_target digest s =
     (if digest \<in> set (targets s) then s\<lparr>repeat_appends := repeat_appends s + 1\<rparr>
      else s\<lparr>targets := last_n 8 (targets s @ [digest])\<rparr>)"

fun note_targets :: "(pybytes \<Rightarrow> pybytes) \<Rightarrow> pystr list \<Rightarrow> signals \<Rightarrow> signals option" where
  "note_targets H [] s = Some s"
| "note_targets H (w # ws) s = (case digest12 H w of None \<Rightarrow> None | Some d \<Rightarrow> note_targets H ws (note_target d s))"

section \<open>The session file\<close>

datatype risk_doc =
    RiskDoc signals
  | OtherRisk \<comment> \<open>not JSON, or not the fields of \<open>Signals\<close>\<close>

record risk_file =
  rf_mtime :: rat
  rf_doc :: risk_doc

type_synonym risk_dir = "(pystr \<times> risk_file) list"

definition risk_path :: "(pybytes \<Rightarrow> pybytes) \<Rightarrow> pystr \<Rightarrow> pystr option" where
  "risk_path H session = map_option (\<lambda>d. d @ tx ''.risk'') (digest16 H (if session = [] then tx ''-'' else session))"

definition risk_unlink :: "io_env \<Rightarrow> pystr \<Rightarrow> risk_dir \<Rightarrow> risk_dir" where
  "risk_unlink io p dir = (if io_unlink io then AList.delete p dir else dir)"

definition risk_load :: "io_env \<Rightarrow> nat \<Rightarrow> pystr \<Rightarrow> risk_dir \<Rightarrow> signals \<times> risk_dir" where
  "risk_load io ttl p dir =
     (case map_of dir p of
        None \<Rightarrow> (no_signals, dir)
      | Some f \<Rightarrow>
          if \<not> io_read io then (no_signals, dir)
          else if of_nat ttl < io_now io - rf_mtime f then (no_signals, risk_unlink io p dir)
          else ((case rf_doc f of RiskDoc s \<Rightarrow> s | OtherRisk \<Rightarrow> no_signals), dir))"

definition risk_save :: "io_env \<Rightarrow> pystr \<Rightarrow> signals \<Rightarrow> risk_dir \<Rightarrow> risk_dir" where
  "risk_save io p s dir =
     (if io_write io then AList.update p \<lparr>rf_mtime = io_now io, rf_doc = RiskDoc s\<rparr> dir else dir)"

definition bump :: "pystr \<Rightarrow> bool \<Rightarrow> bool \<Rightarrow> signals \<Rightarrow> signals" where
  "bump text had_fragment was_blocked s =
     s\<lparr>fragment_calls := fragment_calls s + (if had_fragment then 1 else 0),
       blocked := blocked s + (if was_blocked then 1 else 0),
       entropy_runs := entropy_runs s + (if has_entropy_run text then 1 else 0)\<rparr>"

definition observe :: "(pybytes \<Rightarrow> pybytes) \<Rightarrow> io_env \<Rightarrow> pystr \<Rightarrow> pystr \<Rightarrow> bool \<Rightarrow> bool \<Rightarrow> risk_dir
    \<Rightarrow> assessment option \<times> risk_dir" where
  \<comment> \<open>no assessment when the session id or a target cannot be encoded; a stale file may be gone by then\<close>
  "observe H io session text had_fragment was_blocked dir =
     (case risk_path H session of
        None \<Rightarrow> (None, dir)
      | Some p \<Rightarrow> (case risk_load io TTL_S p dir of (s, dir) \<Rightarrow>
          case note_targets H (append_targets text) (bump text had_fragment was_blocked (decay (of_rat (io_now io)) s)) of
            None \<Rightarrow> (None, dir)
          | Some s \<Rightarrow> (Some (assess s), risk_save io p s dir)))"

definition risk_clear :: "(pybytes \<Rightarrow> pybytes) \<Rightarrow> io_env \<Rightarrow> pystr \<Rightarrow> risk_dir \<Rightarrow> risk_dir option" where
  "risk_clear H io session dir = map_option (\<lambda>p. risk_unlink io p dir) (risk_path H session)"

section \<open>Histories of calls\<close>

record call =
  ca_io :: io_env
  ca_text :: pystr
  ca_fragment :: bool
  ca_blocked :: bool

fun observe_all :: "(pybytes \<Rightarrow> pybytes) \<Rightarrow> pystr \<Rightarrow> call list \<Rightarrow> risk_dir \<Rightarrow> assessment option list \<times> risk_dir" where
  "observe_all H session [] dir = ([], dir)"
| "observe_all H session (c # cs) dir =
     (case observe H (ca_io c) session (ca_text c) (ca_fragment c) (ca_blocked c) dir of
        (a, dir) \<Rightarrow> case observe_all H session cs dir of (as, dir) \<Rightarrow> (a # as, dir))"

lemma observe_all_append:
  "observe_all H session (cs @ ds) dir =
     (case observe_all H session cs dir of (as, dir) \<Rightarrow> case observe_all H session ds dir of (bs, dir) \<Rightarrow> (as @ bs, dir))"
  by (induction cs arbitrary: dir) (auto split: prod.splits)

definition signals_ok :: "signals \<Rightarrow> bool" where
  "signals_ok s \<longleftrightarrow> 0 \<le> fragment_calls s \<and> 0 \<le> repeat_appends s \<and> 0 \<le> entropy_runs s \<and> 0 \<le> blocked s
     \<and> length (targets s) \<le> 8 \<and> distinct (targets s)"

definition stored_ok :: "(signals \<Rightarrow> bool) \<Rightarrow> risk_dir \<Rightarrow> bool" where
  "stored_ok P dir \<longleftrightarrow> (\<forall>p f s. map_of dir p = Some f \<longrightarrow> rf_doc f = RiskDoc s \<longrightarrow> P s)"

lemma stored_ok_unlink: "stored_ok P dir \<Longrightarrow> stored_ok P (risk_unlink io p dir)"
  by (auto simp: stored_ok_def risk_unlink_def AList.delete_conv' split: if_splits)

lemma stored_ok_save: "stored_ok P dir \<Longrightarrow> P s \<Longrightarrow> stored_ok P (risk_save io p s dir)"
  by (auto simp: stored_ok_def risk_save_def update_conv' split: if_splits)

lemma risk_load_ok:
  "risk_load io ttl p dir = (s, dir') \<Longrightarrow> stored_ok P dir \<Longrightarrow> (s = no_signals \<or> P s) \<and> stored_ok P dir'"
  using stored_ok_unlink [of P dir io p]
  by (auto simp: risk_load_def stored_ok_def split: option.splits if_splits risk_doc.splits)

lemma decay_ok: "signals_ok s \<Longrightarrow> signals_ok (decay now s)"
  by (auto simp: decay_def signals_ok_def Let_def)

lemma bump_ok: "signals_ok s \<Longrightarrow> signals_ok (bump text x y s)"
  by (auto simp: bump_def signals_ok_def)

lemma distinct_last_n: "distinct xs \<Longrightarrow> distinct (last_n n xs)"
  by (simp add: last_n_def)

lemma note_target_ok: "signals_ok s \<Longrightarrow> signals_ok (note_target d s)"
  by (auto simp: note_target_def signals_ok_def length_last_n_le intro!: distinct_last_n)

lemma note_targets_ok: "note_targets H ws s = Some s' \<Longrightarrow> signals_ok s \<Longrightarrow> signals_ok s'"
  by (induction H ws s rule: note_targets.induct) (auto simp: note_target_ok split: option.splits)

lemma no_signals_ok: "signals_ok no_signals"
  by (simp add: signals_ok_def no_signals_def)

lemma observe_ok:
  assumes "observe H io session text x y dir = (a, dir')" "stored_ok signals_ok dir"
  shows "stored_ok signals_ok dir' \<and> (\<forall>b. a = Some b \<longrightarrow> (\<exists>s. signals_ok s \<and> b = assess s))"
proof (cases "risk_path H session")
  case (Some p)
  obtain s d where l: "risk_load io TTL_S p dir = (s, d)" by fastforce
  from risk_load_ok [OF l assms(2)] no_signals_ok have s: "signals_ok s" and d: "stored_ok signals_ok d" by auto
  show ?thesis
  proof (cases "note_targets H (append_targets text) (bump text x y (decay (of_rat (io_now io)) s))")
    case None
    with assms(1) Some l d show ?thesis by (auto simp: observe_def)
  next
    case s': (Some s')
    have "signals_ok s'" using note_targets_ok [OF s'] s by (simp add: decay_ok bump_ok)
    with assms(1) Some l d s' show ?thesis by (auto simp: observe_def stored_ok_save)
  qed
qed (use assms in \<open>simp add: observe_def\<close>)

lemma half_even_bounds: "of_int m \<le> x \<Longrightarrow> m \<le> half_even x" "x \<le> of_int m \<Longrightarrow> half_even x \<le> m"
  unfolding half_even_def Let_def by (simp_all; linarith)+

lemma assess_bounds: "0 \<le> as_value (assess s) \<and> as_value (assess s) \<le> 1 \<and> 3 \<le> as_fragments (assess s)
    \<and> as_fragments (assess s) \<le> 10 \<and> (as_escalate (assess s) \<longleftrightarrow> BAND_HIGH \<le> score s)"
proof -
  have "0 \<le> score s" "score s \<le> 1" by (simp_all add: score_def)
  then have "0 \<le> half_even (1000 * score s)" "half_even (1000 * score s) \<le> 1000"
    by (auto intro!: half_even_bounds)
  then show ?thesis by (auto simp: assess_def band_of_def Let_def split: band.splits)
qed
text \<open>Whatever calls a session makes and whatever the file system does, every assessment lies in [0, 1], asks for
  three to ten fragments and escalates exactly at the high band, and every stored counter is non-negative
  with at most eight distinct targets.\<close>

theorem assessments_are_bounded:
  "(\<forall>a. Some a \<in> set (fst (observe_all H session cs [])) \<longrightarrow>
      0 \<le> as_value a \<and> as_value a \<le> 1 \<and> 3 \<le> as_fragments a \<and> as_fragments a \<le> 10 \<and> (as_escalate a \<longleftrightarrow> as_band a = High))
   \<and> stored_ok signals_ok (snd (observe_all H session cs []))"
proof -
  have "stored_ok signals_ok dir \<Longrightarrow> (\<forall>a. Some a \<in> set (fst (observe_all H session cs dir)) \<longrightarrow> (\<exists>s. a = assess s))
      \<and> stored_ok signals_ok (snd (observe_all H session cs dir))" for dir
  proof (induction cs arbitrary: dir)
    case (Cons c cs)
    obtain a d where o: "observe H (ca_io c) session (ca_text c) (ca_fragment c) (ca_blocked c) dir = (a, d)" by fastforce
    from observe_ok [OF o Cons.prems] Cons.IH [of d] show ?case by (auto simp: o split: prod.splits)
  qed simp
  moreover have "stored_ok signals_ok []" by (simp add: stored_ok_def)
  moreover have "as_escalate (assess s) \<longleftrightarrow> as_band (assess s) = High" for s by (simp add: assess_def Let_def)
  ultimately show ?thesis using assess_bounds by metis
qed

section \<open>Quiet sessions\<close>

definition total :: "signals \<Rightarrow> real" where
  "total s = fragment_calls s + repeat_appends s + entropy_runs s + blocked s"

definition half :: "real \<Rightarrow> real" where
  "half x = (1 / 2) powr (x / HALF_LIFE_S)"

definition gain :: "call \<Rightarrow> nat" where
  \<comment> \<open>at most how much a call adds to the counters\<close>
  "gain c = of_bool (ca_fragment c) + of_bool (ca_blocked c) + of_bool (has_entropy_run (ca_text c))
     + length (append_targets (ca_text c))"

definition at_time :: "call \<Rightarrow> real" where
  "at_time c = of_rat (io_now (ca_io c))"

definition weight :: "real \<Rightarrow> signals \<Rightarrow> real" where
  \<comment> \<open>what is left of the counters at a later time\<close>
  "weight t s = total s * half (t - updated s)"

lemma half_add: "half (x + y) = half x * half y"
  by (simp add: half_def powr_add add_divide_distrib)

lemma half_nonneg: "0 \<le> half x" by (simp add: half_def)

lemma half_le_1: "0 \<le> x \<Longrightarrow> half x \<le> 1"
  by (simp add: half_def HALF_LIFE_S_def powr_le1)

lemma half_of_half_lives: "real n * HALF_LIFE_S \<le> x \<Longrightarrow> half x \<le> (1 / 2) ^ n"
proof -
  assume "real n * HALF_LIFE_S \<le> x"
  then have "real n \<le> x / HALF_LIFE_S" by (simp add: HALF_LIFE_S_def field_simps)
  then have "(1 / 2 :: real) powr (x / HALF_LIFE_S) \<le> (1 / 2) powr real n" by (intro powr_mono') auto
  then show ?thesis by (simp add: half_def powr_realpow)
qed

lemma total_nonneg: "signals_ok s \<Longrightarrow> 0 \<le> total s"
  by (simp add: signals_ok_def total_def)

lemma weight_later: "weight (t + d) s = weight t s * half d"
  by (simp add: weight_def half_add [symmetric] algebra_simps)

lemma total_decay:
  "total (decay now s) = (if updated s = 0 \<or> now \<le> updated s then total s else total s * half (now - updated s))"
  by (simp add: decay_def total_def half_def Let_def distrib_right)

lemma updated_decay_eq: "updated (decay now s) = (if updated s = 0 then now else max now (updated s))"
  by (auto simp: decay_def Let_def)

lemma weight_decay:
  assumes "updated s = 0 \<longrightarrow> total s = 0"
  shows "weight t (decay now s) = weight t s"
proof (cases "updated s = 0")
  case False
  have "total s * half (now - updated s) * half (t - now) = total s * half (t - updated s)"
    by (simp add: mult.assoc half_add [symmetric])
  with False show ?thesis by (simp add: weight_def total_decay updated_decay_eq)
qed (use assms in \<open>simp add: weight_def total_decay\<close>)

lemma updated_decay: "0 < now \<Longrightarrow> now \<le> t \<Longrightarrow> updated s \<le> t \<Longrightarrow> 0 \<le> updated s \<Longrightarrow>
    0 < updated (decay now s) \<and> now \<le> updated (decay now s) \<and> updated (decay now s) \<le> t"
  by (auto simp: decay_def Let_def)

lemma note_targets_total:
  "note_targets H ws s = Some s' \<Longrightarrow> total s' \<le> total s + length ws \<and> updated s' = updated s"
proof (induction H ws s rule: note_targets.induct)
  case (2 H w ws s)
  then obtain d where d: "digest12 H w = Some d" "note_targets H ws (note_target d s) = Some s'"
    by (auto split: option.splits)
  have "total (note_target d s) \<le> total s + 1" "updated (note_target d s) = updated s"
    by (auto simp: note_target_def total_def)
  with 2(1) [OF d] show ?case by auto
qed simp

definition settled :: "real \<Rightarrow> signals \<Rightarrow> bool" where
  "settled t s \<longleftrightarrow> signals_ok s \<and> 0 < updated s \<and> updated s \<le> t"

definition load_of :: "pystr \<Rightarrow> real \<Rightarrow> risk_dir \<Rightarrow> real" where
  "load_of p t dir = (case map_of dir p of None \<Rightarrow> 0 | Some f \<Rightarrow> (case rf_doc f of RiskDoc s \<Rightarrow> weight t s | OtherRisk \<Rightarrow> 0))"

lemma load_of_le:
  "stored_ok (settled t) dir \<Longrightarrow> risk_load io ttl p dir = (s, dir') \<Longrightarrow>
     ((s = no_signals \<or> settled t s \<and> weight t s \<le> load_of p t dir) \<and> load_of p t dir' \<le> load_of p t dir) \<and> 0 \<le> load_of p t dir"
proof -
  assume ok: "stored_ok (settled t) dir" and l: "risk_load io ttl p dir = (s, dir')"
  have "0 \<le> weight t s" if "signals_ok s" for s
    using that by (simp add: weight_def total_nonneg half_nonneg)
  with ok have "0 \<le> load_of p t dir"
    by (auto simp: load_of_def stored_ok_def settled_def split: option.splits risk_doc.splits)
  with ok l show ?thesis
    by (auto simp: risk_load_def risk_unlink_def load_of_def stored_ok_def AList.delete_conv'
        split: option.splits if_splits risk_doc.splits)
qed

lemma observe_load:
  assumes o: "observe H (ca_io c) session (ca_text c) (ca_fragment c) (ca_blocked c) dir = (a, dir')"
    and p: "risk_path H session = Some p" and ok: "stored_ok (settled t) dir" and now: "0 < at_time c" "at_time c \<le> t"
  shows "stored_ok (settled t) dir' \<and> load_of p t dir' \<le> load_of p t dir + gain c
    \<and> (\<forall>b. a = Some b \<longrightarrow> (\<exists>s. b = assess s \<and> settled t s \<and> at_time c \<le> updated s \<and> weight t s \<le> load_of p t dir + gain c))"
proof -
  obtain s d where l: "risk_load (ca_io c) TTL_S p dir = (s, d)" by fastforce
  from load_of_le [OF ok l] have s: "s = no_signals \<or> settled t s \<and> weight t s \<le> load_of p t dir"
    and d: "load_of p t d \<le> load_of p t dir" "0 \<le> load_of p t dir" by auto
  from risk_load_ok [OF l ok] have dok: "stored_ok (settled t) d" by simp
  let ?e = "decay (at_time c) s" and ?b = "bump (ca_text c) (ca_fragment c) (ca_blocked c)"
  have e: "signals_ok ?e" "0 < updated ?e" "at_time c \<le> updated ?e" "updated ?e \<le> t" "weight t ?e \<le> load_of p t dir"
    using s now d(2) decay_ok [of s "at_time c"] decay_ok [OF no_signals_ok, of "at_time c"] weight_decay [of s t "at_time c"]
    by (auto simp: settled_def updated_decay_eq no_signals_def weight_def total_def)
  show ?thesis
  proof (cases "note_targets H (append_targets (ca_text c)) (?b ?e)")
    case None
    with o p l dok d show ?thesis by (auto simp: observe_def at_time_def)
  next
    case (Some s')
    have tot: "total s' \<le> total ?e + gain c" and upd: "updated s' = updated ?e"
      using note_targets_total [OF Some] by (auto simp: bump_def total_def gain_def)
    have ok': "settled t s'"
      using note_targets_ok [OF Some] bump_ok [OF e(1)] e upd by (auto simp: settled_def)
    have h: "0 \<le> half (t - updated ?e)" "half (t - updated ?e) \<le> 1" using e(4) by (auto intro: half_nonneg half_le_1)
    have "weight t s' \<le> (total ?e + gain c) * half (t - updated ?e)"
      unfolding weight_def upd by (rule mult_right_mono [OF tot h(1)])
    also have "\<dots> = weight t ?e + gain c * half (t - updated ?e)" by (simp add: weight_def distrib_right)
    also have "\<dots> \<le> weight t ?e + gain c" using mult_left_mono [OF h(2), of "gain c"] by simp
    finally have w: "weight t s' \<le> load_of p t dir + gain c" using e(5) by simp
    have "a = Some (assess s')" "dir' = risk_save (ca_io c) p s' d" using o p l Some by (auto simp: observe_def at_time_def)
    moreover have "load_of p t (risk_save (ca_io c) p s' d) \<le> load_of p t dir + gain c"
      using w d by (auto simp: risk_save_def load_of_def update_conv' split: if_splits)
    ultimately show ?thesis using stored_ok_save [OF dok ok'] ok' w e(3) upd by auto
  qed
qed

lemma observe_all_load:
  assumes "risk_path H session = Some p" "\<forall>c \<in> set cs. 0 < at_time c \<and> at_time c \<le> t" "stored_ok (settled t) dir"
  shows "stored_ok (settled t) (snd (observe_all H session cs dir))
    \<and> load_of p t (snd (observe_all H session cs dir)) \<le> load_of p t dir + sum_list (map gain cs)"
  using assms(2,3)
proof (induction cs arbitrary: dir)
  case (Cons c cs)
  obtain a d where o: "observe H (ca_io c) session (ca_text c) (ca_fragment c) (ca_blocked c) dir = (a, d)" by fastforce
  from observe_load [OF o assms(1) Cons.prems(2), of ] Cons.prems(1)
  have "stored_ok (settled t) d" "load_of p t d \<le> load_of p t dir + gain c" by auto
  with Cons.IH [of d] Cons.prems(1) show ?case by (auto simp: o split: prod.splits)
qed simp

lemma settled_later: "settled t s \<Longrightarrow> t \<le> u \<Longrightarrow> settled u s"
  by (simp add: settled_def)

lemma load_of_later: "load_of p (t + d) dir = load_of p t dir * half d"
  by (auto simp: load_of_def weight_later split: option.splits risk_doc.splits)

lemma little_is_low:
  assumes "signals_ok s" "total s \<le> 1"
  shows "is_low (assess s)"
proof -
  have "30 / 100 * min (fragment_calls s) 4 + 18 / 100 * min (repeat_appends s) 4
      + 5 / 100 * min (entropy_runs s) 4 + 25 / 100 * min (blocked s) 2 \<le> 30 / 100 * total s"
    using assms(1) by (simp add: signals_ok_def total_def min_def)
  with assms(2) have "score s \<le> 30 / 100"
    unfolding score_def by (intro max.boundedI min.coboundedI2) (simp, linarith)
  then show ?thesis by (simp add: is_low_def assess_def band_of_def BAND_LOW_def BAND_HIGH_def Let_def)
qed

definition quiet :: "call \<Rightarrow> bool" where
  "quiet c \<longleftrightarrow> gain c = 0"

lemma quiet_is_assessed:
  "quiet c \<Longrightarrow> risk_path H session = Some p \<Longrightarrow>
     \<exists>a dir'. observe H (ca_io c) session (ca_text c) (ca_fragment c) (ca_blocked c) dir = (Some a, dir')"
  by (auto simp: quiet_def gain_def observe_def split: prod.splits)

text \<open>C20. Suspicion does not last: after any calls up to a time \<open>t0\<close>, whose evidence adds up to at most \<open>2 ^ n\<close>, a session
  that shows nothing more is assessed low from \<open>n\<close> half-lives after \<open>t0\<close> on, however often it calls in
  between and whatever the file system does.\<close>

theorem quiet_session_becomes_low:
  assumes "risk_path H session = Some p" "sum_list (map gain busy) \<le> 2 ^ n"
    and "\<forall>c \<in> set busy. 0 < at_time c \<and> at_time c \<le> t0" "\<forall>c \<in> set calm. quiet c \<and> 0 < at_time c \<and> at_time c \<le> at_time latest"
    and "quiet latest" "t0 + real n * HALF_LIFE_S \<le> at_time latest" "0 < at_time latest"
  shows "\<exists>as a. fst (observe_all H session (busy @ calm @ [latest]) []) = as @ [Some a] \<and> is_low a"
proof -
  let ?d1 = "snd (observe_all H session busy [])" and ?t = "at_time latest"
  have none: "stored_ok P []" "load_of p u [] = 0" for P u by (simp_all add: stored_ok_def load_of_def)
  have "real (sum_list (map gain busy)) \<le> 2 ^ n" using assms(2) by (metis of_nat_le_iff of_nat_numeral of_nat_power)
  moreover note observe_all_load [OF assms(1,3) none(1)]
  ultimately have d1: "stored_ok (settled t0) ?d1" "load_of p t0 ?d1 \<le> 2 ^ n" using none(2) [of t0] by linarith+
  let ?gap = "?t - t0"
  have gap: "real n * HALF_LIFE_S \<le> ?gap" using assms(6) by simp
  then have "t0 \<le> ?t" by (simp add: HALF_LIFE_S_def)
  with d1(1) have ok1: "stored_ok (settled ?t) ?d1" unfolding stored_ok_def using settled_later by blast
  have "load_of p ?t ?d1 = load_of p t0 ?d1 * half ?gap" using load_of_later [of p t0 ?gap] by simp
  also have "\<dots> \<le> 2 ^ n * (1 / 2) ^ n" by (intro mult_mono d1(2) half_of_half_lives gap half_nonneg) simp
  finally have w1: "load_of p ?t ?d1 \<le> 1" by (simp flip: power_mult_distrib)
  let ?d2 = "snd (observe_all H session calm ?d1)"
  have "map gain calm = map (\<lambda>c. 0) calm" using assms(4) by (auto simp: quiet_def)
  then have zero: "sum_list (map gain calm) = 0" by simp
  from observe_all_load [OF assms(1) _ ok1, of calm] assms(4) zero w1
  have d2: "stored_ok (settled ?t) ?d2" "load_of p ?t ?d2 \<le> 1" by auto
  obtain a d3 where o: "observe H (ca_io latest) session (ca_text latest) (ca_fragment latest) (ca_blocked latest) ?d2 = (Some a, d3)"
    using quiet_is_assessed [OF assms(5,1)] by blast
  from observe_load [OF o assms(1) d2(1) assms(7)] d2(2) assms(5) obtain s
    where s: "a = assess s" "settled ?t s" "?t \<le> updated s" "weight ?t s \<le> 1" by (auto simp: quiet_def)
  then have "total s \<le> 1" by (simp add: settled_def weight_def half_def)
  with s have "is_low a" by (simp add: little_is_low settled_def)
  moreover have "fst (observe_all H session (busy @ calm @ [latest]) [])
      = (fst (observe_all H session busy []) @ fst (observe_all H session calm ?d1)) @ [Some a]"
    by (simp add: observe_all_append case_prod_unfold o)
  ultimately show ?thesis by blast
qed


definition demo_call :: "rat \<Rightarrow> string \<Rightarrow> bool \<Rightarrow> call" where
  "demo_call now text fragment = \<lparr>ca_io = \<lparr>io_now = now, io_read = True, io_unlink = True, io_write = True\<rparr>,
     ca_text = tx text, ca_fragment = fragment, ca_blocked = False\<rparr>"

lemma demo_gain: "gain (demo_call now ''ls'' x) = of_bool x"
proof -
  have "\<not> has_entropy_run (tx ''ls'')" "append_targets (tx ''ls'') = []" by code_simp+
  then show ?thesis by (simp add: gain_def demo_call_def)
qed

lemma demo_risk_path: "\<exists>p. risk_path (\<lambda>b. b) (tx ''s'') = Some p"
  by (simp add: risk_path_def digest16_def utf8_encode_def encodable_def is_surrogate_def code_point_def)

lemma assessments_are_bounded_witness:
  "\<exists>a. fst (observe_all (\<lambda>b. b) (tx ''s'') [demo_call 1 ''ls'' False] []) = [Some a] \<and> 0 \<le> as_value a \<and> as_value a \<le> 1"
proof -
  obtain p where p: "risk_path (\<lambda>b. b) (tx ''s'') = Some p" using demo_risk_path by blast
  have "quiet (demo_call 1 ''ls'' False)" by (simp add: quiet_def demo_gain)
  from quiet_is_assessed [OF this p, of "[]"] obtain a
    where a: "fst (observe_all (\<lambda>b. b) (tx ''s'') [demo_call 1 ''ls'' False] []) = [Some a]" by auto
  with assessments_are_bounded [of "\<lambda>b. b" "tx ''s''" "[demo_call 1 ''ls'' False]"] show ?thesis by auto
qed

lemma quiet_session_becomes_low_witness:
  "\<exists>as a. fst (observe_all (\<lambda>b. b) (tx ''s'') ([demo_call 1 ''ls'' True, demo_call 2 ''ls'' True, demo_call 3 ''ls'' True]
     @ [demo_call 900 ''ls'' False] @ [demo_call 2403 ''ls'' False]) []) = as @ [Some a] \<and> is_low a"
proof -
  obtain p where p: "risk_path (\<lambda>b. b) (tx ''s'') = Some p" using demo_risk_path by blast
  have t: "at_time (demo_call t w x) = of_rat t" for t w x by (simp add: at_time_def demo_call_def)
  show ?thesis
    by (rule quiet_session_becomes_low [OF p, where n = 2 and ?t0.0 = 3])
      (simp_all add: demo_gain quiet_def t HALF_LIFE_S_def)
qed

text \<open>Three calls with a fragment within one moment are enough to escalate.\<close>

lemma three_fragments_escalate:
  assumes "fragment_calls s = 3" "0 \<le> repeat_appends s" "0 \<le> entropy_runs s" "0 \<le> blocked s"
  shows "as_escalate (assess s)"
  using assms by (simp add: assess_def Let_def score_def band_of_def BAND_HIGH_def min_def)

end
