(* ===== verification/ToolHook.thy ===== *)
theory ToolHook
  imports ReadPaths ReadGate PromptHook SessionRisk
begin

text \<open>
  The tool hook (\<open>run\<close> of \<^verbatim>\<open>hooks/zt_pretool.py\<close>): the clearance of what a call reads, then the check of what it is
  given, by the warm daemon (\<open>check_read\<close> and \<open>check_tool\<close> of \<^verbatim>\<open>gateway/daemon.py\<close>) or in this process, where the
  session's risk is counted and pieces written to one destination are joined. A daemon that fails to answer is
  forgotten for the rest of the call. The escalation log is not modelled.
\<close>

section \<open>State and environment\<close>

record 's hook_state =
  hs_dir :: state_dir
  hs_risk :: risk_dir
  hs_store :: 's

record 's tool_env =
  te_hook :: hook_env
  te_uw :: "nat \<Rightarrow> bool"
  te_paths :: path_env
  te_daemon_paths :: path_env \<comment> \<open>the daemon runs in the repository's directory\<close>
  te_role :: role_env
  te_daemon_role :: role_env
  te_pa :: pa_env
  te_ops :: "'s kv_ops"

section \<open>What a call reads\<close>

datatype read_reply = NoAnswer | SkipRead | ReadVerdict bool string

definition check_read :: "role_env \<Rightarrow> pa_env \<Rightarrow> 's kv_ops \<Rightarrow> path_env \<Rightarrow> pystr \<Rightarrow> tool_args \<Rightarrow> 's \<Rightarrow> read_reply \<times> 's" where
  "check_read re env ops px tool args s =
     (case candidate_paths px tool args of
        None \<Rightarrow> (NoAnswer, s)
      | Some paths \<Rightarrow>
          if paths = [] then (SkipRead, s)
          else (case decide_read re env ops (map (re_enc re) paths) s of
             (Inr (Some d), s1) \<Rightarrow> (ReadVerdict (rx_allow d) (if rx_allow d then [] else read_reason d), s1)
           | (_, s1) \<Rightarrow> (SkipRead, s1)))"

definition local_read :: "role_env \<Rightarrow> pa_env \<Rightarrow> 's kv_ops \<Rightarrow> path_env \<Rightarrow> pystr \<Rightarrow> tool_args \<Rightarrow> 's \<Rightarrow> string option \<times> 's" where
  \<comment> \<open>the reason of a refusal\<close>
  "local_read re env ops px tool args s =
     (case candidate_paths px tool args of
        None \<Rightarrow> (None, s)
      | Some paths \<Rightarrow> if paths = [] then (None, s) else read_gate re env ops (map (re_enc re) paths) s)"

definition clearance_gate :: "'s tool_env \<Rightarrow> pystr \<Rightarrow> tool_args \<Rightarrow> 's \<Rightarrow> (string option \<times> bool) \<times> 's" where
  \<comment> \<open>with whether a daemon is left to ask\<close>
  "clearance_gate te tool args s =
     (let here = local_read (te_role te) (te_pa te) (te_ops te) (te_paths te) tool args in
      if he_daemon (te_hook te) = None then (case here s of (r, s1) \<Rightarrow> ((r, False), s1))
      else case check_read (te_daemon_role te) (te_pa te) (te_ops te) (te_daemon_paths te) tool args s of
        (NoAnswer, s1) \<Rightarrow> (case here s1 of (r, s2) \<Rightarrow> ((r, False), s2))
      | (SkipRead, s1) \<Rightarrow> ((None, True), s1)
      | (ReadVerdict allow why, s1) \<Rightarrow>
          ((if allow then None else Some (if why = [] then ''ZeroTrace withheld this read.'' else why), True), s1))"

section \<open>What a call is given\<close>

fun comma_words :: "pystr list \<Rightarrow> pystr" where
  "comma_words [] = []"
| "comma_words [w] = w"
| "comma_words (w # v # ws) = w @ tx '', '' @ comma_words (v # ws)"

definition call_refused :: "pystr \<Rightarrow> pystr list \<Rightarrow> bool \<Rightarrow> denial" where
  "call_refused tool classes split =
     (let named = (if comma_words classes = [] then tx ''sensitive data'' else comma_words classes) in GivenReason
      (tx ''ZeroTrace blocked this '' @ tool @
       (if split then tx '' call: joined with the previous call it forms '' @ named @ tx ''. Nothing was run. Splitting a credential across two commands does not divide it -- the file on the other end is whole.''
        else tx '' call: its arguments contain '' @ named @ tx ''. Nothing was run and nothing was sent. Reference the secret by name and let the command read it from the environment instead of inlining it.'')))"

definition tool_check :: "hook_env \<Rightarrow> pystr \<Rightarrow> pystr \<Rightarrow> hook_call" where
  "tool_check env text session = (if he_checker env then check_service env text session else check_embedded env text)"

definition observed_join :: "'s tool_env \<Rightarrow> io_env \<Rightarrow> pystr \<Rightarrow> tool_args \<Rightarrow> pystr \<Rightarrow> pystr \<Rightarrow> 's hook_state \<Rightarrow> pystr \<times> 's hook_state" where
  \<comment> \<open>the risk is counted first; whatever raises leaves nothing joined\<close>
  "observed_join te io tool args text session st =
     (let env = te_hook te in
      if \<not> he_window env then ([], st)
      else case observe (he_H env) io session text (fragments_of text DEFAULT_WINDOW None \<noteq> []) False (hs_risk st) of
        (None, risk) \<Rightarrow> ([], st\<lparr>hs_risk := risk\<rparr>)
      | (Some a, risk) \<Rightarrow>
          (case sink_add (he_H env) io DEFAULT_TTL_S session (sink_of (te_uw te) (he_repr env) tool args)
              (payload_of (he_repr env) tool args) (hs_dir st) of
             None \<Rightarrow> ([], st\<lparr>hs_risk := risk\<rparr>)
           | Some (joined, dir) \<Rightarrow>
               (case joined of None \<Rightarrow> [] | Some j \<Rightarrow> j, st\<lparr>hs_risk := risk, hs_dir := dir\<rparr>)))"

definition on_failure :: "hook_env \<Rightarrow> hook_exit" where
  "on_failure env = (if he_fail_open env then Allowed else Denied CheckFailed)"

definition settled_call :: "pystr \<Rightarrow> hook_result \<Rightarrow> hook_exit" where
  "settled_call tool r = (if hr_allow r = Some True then Allowed else Denied (call_refused tool (hr_classes r) (hr_split r)))"

definition checked_call :: "hook_env \<Rightarrow> pystr \<Rightarrow> pystr \<Rightarrow> pystr \<Rightarrow> pystr \<Rightarrow> hook_exit" where
  \<comment> \<open>the joined text is checked only when the call alone is clean\<close>
  "checked_call env tool text joined session =
     (case tool_check env text session of
        Exits x \<Rightarrow> x
      | Raises \<Rightarrow> on_failure env
      | Reply r \<Rightarrow>
          if hr_allow r = Some False \<or> joined = [] then settled_call tool r
          else (case tool_check env joined session of
             Exits x \<Rightarrow> x
           | Raises \<Rightarrow> on_failure env
           | Reply b \<Rightarrow> settled_call tool (if hr_allow b = Some False then b\<lparr>hr_split := True\<rparr> else r)))"

definition given_call :: "'s tool_env \<Rightarrow> bool \<Rightarrow> io_env \<Rightarrow> pystr \<Rightarrow> tool_args \<Rightarrow> pystr \<Rightarrow> 's hook_state \<Rightarrow> hook_exit \<times> 's hook_state" where
  "given_call te warm io tool args session st =
     (let text = harvest tool args in
      if strip text = [] then (Allowed, st)
      else case (if warm then he_daemon (te_hook te) else None) of
        Some de \<Rightarrow> (case check_tool de io tool args session (hs_dir st) of
          (a, dir) \<Rightarrow> (if an_allow a then Allowed else Denied (call_refused tool (an_classes a) (an_split a)), st\<lparr>hs_dir := dir\<rparr>))
      | None \<Rightarrow> (case observed_join te io tool args text session st of
          (joined, st1) \<Rightarrow> (checked_call (te_hook te) tool text joined session, st1)))"

section \<open>The hook\<close>

definition event_args :: "tool_args \<Rightarrow> tool_args" where
  "event_args event = (case map_of event (tx ''tool_input'') of Some (PDict d) \<Rightarrow> d | _ \<Rightarrow> [])"

definition event_tool :: "tool_args \<Rightarrow> pyval" where
  "event_tool event = (case map_of event (tx ''tool_name'') of None \<Rightarrow> PStr [] | Some v \<Rightarrow> v)"

definition daemon_refusal :: "'s tool_env \<Rightarrow> pystr \<Rightarrow> tool_args \<Rightarrow> 's \<Rightarrow> string option \<times> 's" where
  \<comment> \<open>for a tool name that is no text only the daemon can answer\<close>
  "daemon_refusal te tool args s =
     (if he_daemon (te_hook te) = None then (None, s)
      else case check_read (te_daemon_role te) (te_pa te) (te_ops te) (te_daemon_paths te) tool args s of
        (ReadVerdict False why, s1) \<Rightarrow> (Some (if why = [] then ''ZeroTrace withheld this read.'' else why), s1)
      | (_, s1) \<Rightarrow> (None, s1))"

definition tool_hook :: "'s tool_env \<Rightarrow> io_env \<Rightarrow> tool_args \<Rightarrow> 's hook_state \<Rightarrow> hook_exit \<times> 's hook_state" where
  "tool_hook te io event st =
     (let args = event_args event; session = event_session (te_hook te) event in
      case event_tool event of
        PStr tool \<Rightarrow>
          (case clearance_gate te tool args (hs_store st) of
             ((Some why, warm), s1) \<Rightarrow> (Denied (GivenReason (tx why)), st\<lparr>hs_store := s1\<rparr>)
           | ((None, warm), s1) \<Rightarrow> given_call te warm io tool args session (st\<lparr>hs_store := s1\<rparr>))
      | v \<Rightarrow>
          (case daemon_refusal te (if py_true v then py_str (he_repr (te_hook te)) v else []) args (hs_store st) of
             (Some why, s1) \<Rightarrow> (Denied (GivenReason (tx why)), st\<lparr>hs_store := s1\<rparr>)
           | (None, s1) \<Rightarrow> (Crashed, st\<lparr>hs_store := s1\<rparr>)))"

section \<open>What a call may not read\<close>

lemma local_read_refused:
  assumes "candidate_paths px tool args = Some ps" "read_gate re env ops (map (re_enc re) ps) s = (Some why, s1)"
  shows "local_read re env ops px tool args s = (Some why, s1)"
proof -
  have "ps \<noteq> []"
  proof
    assume "ps = []"
    with assms(2) show False by (simp add: read_gate_def decide_read_def)
  qed
  with assms show ?thesis by (simp add: local_read_def)
qed

lemma check_read_refused:
  assumes "candidate_paths px tool args = Some ps" "read_gate re env ops (map (re_enc re) ps) s = (Some why, s1)"
  shows "check_read re env ops px tool args s = (ReadVerdict False why, s1)"
proof -
  have "ps \<noteq> []"
  proof
    assume "ps = []"
    with assms(2) show False by (simp add: read_gate_def decide_read_def)
  qed
  with assms show ?thesis
    by (auto simp: check_read_def read_gate_def split: prod.splits sum.splits option.splits if_splits)
qed

definition same_reader :: "'s tool_env \<Rightarrow> bool" where
  \<comment> \<open>the daemon, if there is one, sees the session, the files and the store as this process does\<close>
  "same_reader te \<longleftrightarrow> he_daemon (te_hook te) = None \<or> te_daemon_role te = te_role te \<and> te_daemon_paths te = te_paths te"

lemma clearance_refused:
  assumes "same_reader te" "candidate_paths (te_paths te) tool args = Some ps"
    and "read_gate (te_role te) (te_pa te) (te_ops te) (map (re_enc (te_role te)) ps) s = (Some why, s1)"
  shows "\<exists>warm why'. clearance_gate te tool args s = ((Some why', warm), s1)"
proof (cases "he_daemon (te_hook te)")
  case None
  with local_read_refused [OF assms(2,3)] show ?thesis by (auto simp: clearance_gate_def)
next
  case (Some de)
  with assms(1) have "te_daemon_role te = te_role te" "te_daemon_paths te = te_paths te" by (simp_all add: same_reader_def)
  with Some check_read_refused [OF assms(2,3)] show ?thesis by (auto simp: clearance_gate_def Let_def)
qed

text \<open>C12. A credential file is not read into the transcript: with nobody logged in, a shell command that names, in plain
  words, a readable file in whose sample the detectors find a credential is denied, and neither the store nor
  what is carried between calls changes; the only escape is a command that stands for 64 files or more. With a
  warm daemon this needs the daemon to see the same files.\<close>

theorem credential_file_stays_unread:
  assumes "event_tool event = PStr (tx ''Bash'')" "str_or (px_repr (te_paths te)) [''command''] (event_args event) = command_line (verb # ws)"
    and "plain_chars verb" "px_lower (te_paths te) (path_name verb) \<in> set READERS"
    and "\<forall>w \<in> set ws. plain_word w \<and> px_home (te_paths te) w \<noteq> NoHome"
    and "w \<in> set ws" "px_home (te_paths te) w = Expanded p" "served_file (te_paths te) p"
    and "re_session (te_role te) = None" "sample (te_role te) (re_enc (te_role te) p) \<noteq> []"
    and "c \<in> set (re_values (te_role te) (sample (te_role te) (re_enc (te_role te) p)))" "is_credential c"
    and "same_reader te"
  shows "\<exists>ps. candidate_paths (te_paths te) (tx ''Bash'') (event_args event) = Some ps
    \<and> (length ps = 64 \<or> (\<exists>why. tool_hook te io event st = (Denied (GivenReason why), st)))"
proof -
  from named_file_is_candidate [OF assms(3-5,2,6-8)] obtain ps where
    ps: "candidate_paths (te_paths te) (tx ''Bash'') (event_args event) = Some ps" "p \<in> set ps \<or> length ps = 64" by blast
  have "\<exists>why. tool_hook te io event st = (Denied (GivenReason why), st)" if "p \<in> set ps"
  proof -
    have session: "case re_session (te_role te) of None \<Rightarrow> True | Some (t, i) \<Rightarrow> \<not> tenant_exists (te_ops te) t (hs_store st)"
      using assms(9) by simp
    have mem: "re_enc (te_role te) p \<in> set (map (re_enc (te_role te)) ps)" using that by simp
    from credential_floor [OF session mem assms(10-12)] obtain d where
      "read_gate (te_role te) (te_pa te) (te_ops te) (map (re_enc (te_role te)) ps) (hs_store st) = (Some (read_reason d), hs_store st)"
      by blast
    from clearance_refused [OF assms(13) ps(1) this] obtain warm why where
      "clearance_gate te (tx ''Bash'') (event_args event) (hs_store st) = ((Some why, warm), hs_store st)" by blast
    with assms(1) show ?thesis by (simp add: tool_hook_def Let_def)
  qed
  with ps show ?thesis by blast
qed

section \<open>What an allowed call went through\<close>

lemma check_exit_closed:
  "\<not> he_fail_open env \<Longrightarrow> tool_check env text session \<noteq> Exits Allowed"
  by (auto simp: tool_check_def check_service_def check_embedded_def split: service_reply.splits option.splits)

definition passed_read :: "'s tool_env \<Rightarrow> pystr list \<Rightarrow> 's \<Rightarrow> pystr \<Rightarrow> bool" where
  \<comment> \<open>a file of a read that went ahead: it has no text, the judgement itself failed, or it is cleared\<close>
  "passed_read te ps s p \<longleftrightarrow>
     (let re = te_role te; f = re_enc re p in
      sample re f = [] \<or> doc_path re f = [] \<or> isl (fst (decide_read re (te_pa te) (te_ops te) (map (re_enc re) ps) s))
      \<or> (case re_session re of
           None \<Rightarrow> credential_file re f = None
         | Some (t, i) \<Rightarrow>
             if \<not> tenant_exists (te_ops te) t s then credential_file re f = None
             else \<exists>a. pa_resolve (te_pa te) (te_ops te) t i s = Inr a
               \<and> cleared_doc (te_pa te) (te_ops te) a s (doc_path re f) (filter (\<lambda>(cls, conf). 0 \<le> conf) (classify_file re (sample re f)))))"

lemma gate_passed:
  assumes "same_reader te" "clearance_gate te tool args s = ((None, warm), s1)" "candidate_paths (te_paths te) tool args = Some ps" "ps \<noteq> []"
    and "decide_read (te_role te) (te_pa te) (te_ops te) (map (re_enc (te_role te)) ps) s = (Inr (Some d), s2)"
  shows "rx_allow d"
proof (cases "he_daemon (te_hook te)")
  case None
  with assms(2-5) show ?thesis by (auto simp: clearance_gate_def local_read_def read_gate_def split: if_splits)
next
  case (Some de)
  with assms(1) have "te_daemon_role te = te_role te" "te_daemon_paths te = te_paths te" by (simp_all add: same_reader_def)
  with Some assms(2-5) show ?thesis by (auto simp: clearance_gate_def check_read_def Let_def split: if_splits)
qed

lemma no_credential: "credential_only re paths = None \<Longrightarrow> p \<in> set paths \<Longrightarrow> credential_file re p = None"
  by (auto simp: credential_only_def credential_files_def map_filter_def Let_def filter_empty_conv split: if_splits)

lemma read_passed:
  assumes gate: "same_reader te" "clearance_gate te tool args s = ((None, warm), s1)" "candidate_paths (te_paths te) tool args = Some ps"
    and p: "p \<in> set ps"
  shows "passed_read te ps s p"
proof -
  let ?re = "te_role te" let ?paths = "map (re_enc ?re) ps" let ?f = "re_enc ?re p"
  have ps: "ps \<noteq> []" "?paths \<noteq> []" "?f \<in> set ?paths" using p by auto
  obtain r s2 where r: "decide_read ?re (te_pa te) (te_ops te) ?paths s = (r, s2)" by fastforce
  show ?thesis
  proof (cases "isl r \<or> sample ?re ?f = [] \<or> doc_path ?re ?f = []")
    case True
    with r show ?thesis by (auto simp: passed_read_def Let_def)
  next
    case False
    then obtain found where found: "r = Inr found" and body: "sample ?re ?f \<noteq> []" "doc_path ?re ?f \<noteq> []" by (cases r) auto
    have allow: "rx_allow d" if "found = Some d" for d using gate_passed [OF gate ps(1)] r found that by blast
    show ?thesis
    proof (cases "\<exists>t i. re_session ?re = Some (t, i) \<and> tenant_exists (te_ops te) t s")
      case True
      then obtain t i where t: "re_session ?re = Some (t, i)" "tenant_exists (te_ops te) t s" by blast
      have "documents_of ?re ?paths \<noteq> []" using ps(3) body(1) by (auto simp: documents_of_def filter_empty_conv)
      with r found t ps(2) obtain d where d: "found = Some d"
        by (auto simp: decide_read_def split: sum.splits prod.splits)
      from read_cleared [OF r [unfolded found d] t allow [OF d] ps(3) body] t show ?thesis by (auto simp: passed_read_def Let_def)
    next
      case anon: False
      then have "r = Inr (credential_only ?re ?paths)" using r ps(2) by (auto simp: decide_read_def split: option.splits if_splits)
      moreover have "\<not> rx_allow d" if "credential_only ?re ?paths = Some d" for d
        using that by (auto simp: credential_only_def Let_def split: if_splits)
      ultimately have "credential_only ?re ?paths = None" using found allow by (cases "credential_only ?re ?paths") auto
      from no_credential [OF this ps(3)] anon show ?thesis by (auto simp: passed_read_def Let_def split: option.split)
    qed
  qed
qed

text \<open>C13. Under the fail-closed setting a call that runs was checked on both sides. What it reads: every candidate file with
  text is cleared for the person logged in, or with nobody logged in holds no credential the detectors find,
  unless the judgement itself failed; with a warm daemon this needs the daemon to see the same files. What it
  is given: its text is blank, or the warm daemon allowed it, or the check answered that it is clean and so
  did the check of the text it joins, where there is one.\<close>

theorem allowed_call_was_checked:
  assumes "tool_hook te io event st = (Allowed, st')" "\<not> he_fail_open (te_hook te)"
  shows "\<exists>tool warm s1. event_tool event = PStr tool
    \<and> (\<forall>ps p. same_reader te \<and> candidate_paths (te_paths te) tool (event_args event) = Some ps \<and> p \<in> set ps
         \<longrightarrow> passed_read te ps (hs_store st) p)
    \<and> clearance_gate te tool (event_args event) (hs_store st) = ((None, warm), s1)
    \<and> (let text = harvest tool (event_args event); session = event_session (te_hook te) event; st1 = st\<lparr>hs_store := s1\<rparr> in
        strip text = []
        \<or> (\<exists>de. warm \<and> he_daemon (te_hook te) = Some de \<and> an_allow (fst (check_tool de io tool (event_args event) session (hs_dir st))))
        \<or> (\<exists>r. tool_check (te_hook te) text session = Reply r \<and> hr_allow r = Some True
            \<and> (fst (observed_join te io tool (event_args event) text session st1) = []
               \<or> (\<exists>b. tool_check (te_hook te) (fst (observed_join te io tool (event_args event) text session st1)) session = Reply b
                   \<and> hr_allow b \<noteq> Some False))))"
proof -
  note closed = check_exit_closed [OF assms(2)] and fail = on_failure_def
  obtain tool where tool: "event_tool event = PStr tool"
    using assms(1) by (cases "event_tool event") (auto simp: tool_hook_def Let_def split: option.splits prod.splits)
  let ?args = "event_args event" and ?session = "event_session (te_hook te) event"
  obtain refused warm s1 where gate: "clearance_gate te tool ?args (hs_store st) = ((refused, warm), s1)"
    by (metis prod.exhaust)
  with assms(1) tool have none: "refused = None" by (cases refused) (auto simp: tool_hook_def Let_def)
  let ?st = "st\<lparr>hs_store := s1\<rparr>" and ?text = "harvest tool ?args"
  from assms(1) tool gate none have given: "given_call te warm io tool ?args ?session ?st = (Allowed, st')"
    by (simp add: tool_hook_def Let_def)
  have "strip ?text = []
        \<or> (\<exists>de. warm \<and> he_daemon (te_hook te) = Some de \<and> an_allow (fst (check_tool de io tool ?args ?session (hs_dir st))))
        \<or> (\<exists>r. tool_check (te_hook te) ?text ?session = Reply r \<and> hr_allow r = Some True
            \<and> (fst (observed_join te io tool ?args ?text ?session ?st) = []
               \<or> (\<exists>b. tool_check (te_hook te) (fst (observed_join te io tool ?args ?text ?session ?st)) ?session = Reply b
                   \<and> hr_allow b \<noteq> Some False)))"
  proof (cases "strip ?text = [] \<or> warm \<and> he_daemon (te_hook te) \<noteq> None")
    case True
    with given show ?thesis
      by (auto simp: given_call_def Let_def split: prod.splits if_splits)
  next
    case False
    then have "(if warm then he_daemon (te_hook te) else None) = None" by auto
    with False given have x: "checked_call (te_hook te) tool ?text (fst (observed_join te io tool ?args ?text ?session ?st)) ?session = Allowed"
      by (simp add: given_call_def Let_def split: prod.splits)
    let ?joined = "fst (observed_join te io tool ?args ?text ?session ?st)"
    from x closed obtain r where r: "tool_check (te_hook te) ?text ?session = Reply r"
      by (cases "tool_check (te_hook te) ?text ?session") (auto simp: checked_call_def fail assms(2))
    show ?thesis
    proof (cases "hr_allow r = Some False \<or> ?joined = []")
      case True
      with x r show ?thesis by (auto simp: checked_call_def settled_call_def split: if_splits)
    next
      case clean: False
      with x r clean closed obtain b where b: "tool_check (te_hook te) ?joined ?session = Reply b"
        by (cases "tool_check (te_hook te) ?joined ?session") (auto simp: checked_call_def fail assms(2))
      with x r clean show ?thesis by (auto simp: checked_call_def settled_call_def split: if_splits)
    qed
  qed
  moreover have "\<forall>ps p. same_reader te \<and> candidate_paths (te_paths te) tool ?args = Some ps \<and> p \<in> set ps \<longrightarrow> passed_read te ps (hs_store st) p"
    using read_passed [OF _ gate [unfolded none]] by blast
  ultimately show ?thesis using tool gate none unfolding Let_def by blast
qed

section \<open>With and without the daemon\<close>

definition same_checks :: "'s tool_env \<Rightarrow> daemon_env \<Rightarrow> bool" where
  \<comment> \<open>the daemon checks texts as this process does, and carries its state in the same directory\<close>
  "same_checks te de \<longleftrightarrow> \<not> he_checker (te_hook te) \<and> he_window (te_hook te) \<and> de_H de = he_H (te_hook te) \<and> de_uw de = te_uw te
     \<and> de_repr de = he_repr (te_hook te) \<and> (\<forall>t. he_embedded (te_hook te) t = Some (de_scan de t) \<and> \<not> an_split (de_scan de t))"

definition with_daemon :: "daemon_env option \<Rightarrow> 's tool_env \<Rightarrow> 's tool_env" where
  "with_daemon d te = te\<lparr>te_hook := (te_hook te)\<lparr>he_daemon := d\<rparr>\<rparr>"

lemma with_daemon_simps [simp]:
  "te_hook (with_daemon d te) = (te_hook te)\<lparr>he_daemon := d\<rparr>" "te_uw (with_daemon d te) = te_uw te"
  "te_paths (with_daemon d te) = te_paths te" "te_role (with_daemon d te) = te_role te"
  "te_daemon_paths (with_daemon d te) = te_daemon_paths te" "te_daemon_role (with_daemon d te) = te_daemon_role te"
  "te_pa (with_daemon d te) = te_pa te" "te_ops (with_daemon d te) = te_ops te"
  by (simp_all add: with_daemon_def)

lemma gates_agree:
  assumes "te_daemon_role te = te_role te" "te_daemon_paths te = te_paths te"
  shows "\<exists>warm. clearance_gate (with_daemon (Some de) te) tool args s
    = ((fst (fst (clearance_gate (with_daemon None te) tool args s)), warm), snd (clearance_gate (with_daemon None te) tool args s))"
proof (cases "candidate_paths (te_paths te) tool args")
  case None
  then show ?thesis using assms by (auto simp: clearance_gate_def check_read_def local_read_def Let_def)
next
  case (Some ps)
  have reason: "read_reason d \<noteq> []" for d by (simp add: read_reason_def)
  show ?thesis
  proof (cases "ps = []")
    case True
    with Some assms show ?thesis by (auto simp: clearance_gate_def check_read_def local_read_def Let_def)
  next
    case False
    obtain r s1 where "decide_read (te_role te) (te_pa te) (te_ops te) (map (re_enc (te_role te)) ps) s = (r, s1)" by fastforce
    with False Some assms reason show ?thesis
      by (cases r; cases "projr r")
        (auto simp: clearance_gate_def check_read_def local_read_def read_gate_def Let_def split: option.splits)
  qed
qed

lemma without_daemon [simp]:
  "tool_check (env\<lparr>he_daemon := d\<rparr>) = tool_check env" "event_session (env\<lparr>he_daemon := d\<rparr>) = event_session env"
  "checked_call (env\<lparr>he_daemon := d\<rparr>) = checked_call env" "observed_join (with_daemon d te) = observed_join te"
proof -
  show *: "tool_check (env\<lparr>he_daemon := d\<rparr>) = tool_check env"
    by (simp add: fun_eq_iff tool_check_def check_service_def check_embedded_def)
  show "event_session (env\<lparr>he_daemon := d\<rparr>) = event_session env" by (simp add: fun_eq_iff event_session_def)
  have "on_failure (env\<lparr>he_daemon := d\<rparr>) = on_failure env" by (simp add: on_failure_def)
  then show "checked_call (env\<lparr>he_daemon := d\<rparr>) = checked_call env" by (simp add: fun_eq_iff checked_call_def * cong: hook_call.case_cong if_cong)
  show "observed_join (with_daemon d te) = observed_join te" by (simp add: fun_eq_iff observed_join_def Let_def cong: option.case_cong prod.case_cong)
qed

lemma given_call_cold: "given_call (with_daemon d te) False io tool args session st = given_call (with_daemon None te) warm io tool args session st"
  by (simp add: given_call_def Let_def)

lemma given_call_warm:
  assumes "same_checks te de" "session \<noteq> []"
    and "fst (observe (he_H (te_hook te)) io session (harvest tool args) (fragments_of (harvest tool args) DEFAULT_WINDOW None \<noteq> []) False (hs_risk st)) \<noteq> None"
    and "given_call (with_daemon (Some de) te) True io tool args session st = (x, s)"
    and "given_call (with_daemon None te) warm io tool args session st = (y, t)"
  shows "x = y \<and> hs_store s = hs_store t \<and> (an_allow (de_scan de (harvest tool args)) \<longrightarrow> hs_dir s = hs_dir t)"
proof (cases "strip (harvest tool args) = []")
  case True
  with assms(4,5) show ?thesis by (simp add: given_call_def Let_def)
next
  case False
  let ?text = "harvest tool args" and ?env = "te_hook te"
  note same = assms(1) [unfolded same_checks_def]
  have check: "tool_check ?env u session = Reply (result_of (de_scan de u))" for u
    using same by (simp add: tool_check_def check_embedded_def)
  let ?sink = "sink_add (he_H ?env) io DEFAULT_TTL_S session (sink_of (te_uw te) (he_repr ?env) tool args)
      (payload_of (he_repr ?env) tool args) (hs_dir st)"
  obtain a risk where "observe (he_H ?env) io session ?text (fragments_of ?text DEFAULT_WINDOW None \<noteq> []) False (hs_risk st) = (Some a, risk)"
    using assms(3) by (metis prod.collapse option.exhaust)
  then have slow: "observed_join te io tool args ?text session st =
      (case ?sink of None \<Rightarrow> ([], st\<lparr>hs_risk := risk\<rparr>)
       | Some (joined, dir) \<Rightarrow> (case joined of None \<Rightarrow> [] | Some j \<Rightarrow> j, st\<lparr>hs_risk := risk, hs_dir := dir\<rparr>))"
    using same by (simp add: observed_join_def Let_def)
  have fast: "check_tool de io tool args session (hs_dir st) =
      (if \<not> an_allow (de_scan de ?text) then (de_scan de ?text, hs_dir st)
       else case ?sink of
          Some (Some joined, dir) \<Rightarrow>
            if joined \<noteq> [] \<and> \<not> an_allow (de_scan de joined) then ((de_scan de joined)\<lparr>an_split := True\<rparr>, dir) else (de_scan de ?text, dir)
        | Some (None, dir) \<Rightarrow> (de_scan de ?text, dir)
        | None \<Rightarrow> (de_scan de ?text, hs_dir st))"
    using same False assms(2) by (simp add: check_tool_def Let_def)
  have x: "given_call (with_daemon (Some de) te) True io tool args session st =
      (case check_tool de io tool args session (hs_dir st) of
          (a, dir) \<Rightarrow> (if an_allow a then Allowed else Denied (call_refused tool (an_classes a) (an_split a)), st\<lparr>hs_dir := dir\<rparr>))"
    and y: "given_call (with_daemon None te) warm io tool args session st =
      (case observed_join te io tool args ?text session st of (joined, st1) \<Rightarrow> (checked_call ?env tool ?text joined session, st1))"
    using False by (simp_all add: given_call_def Let_def)
  have split: "\<not> an_split (de_scan de u)" for u using same by simp
  consider (none) "?sink = None" | (quiet) d where "?sink = Some (None, d)" | (joined) j d where "?sink = Some (Some j, d)"
    by (metis option.exhaust prod.exhaust)
  then show ?thesis
  proof cases
    case none
    with assms(4,5) show ?thesis unfolding x y slow fast
      by (auto simp: checked_call_def check settled_call_def result_of_def split split: if_splits)
  next
    case quiet
    with assms(4,5) show ?thesis unfolding x y slow fast
      by (auto simp: checked_call_def check settled_call_def result_of_def split split: if_splits)
  next
    case joined
    with assms(4,5) show ?thesis unfolding x y slow fast
      by (auto simp: checked_call_def check settled_call_def result_of_def split split: if_splits)
  qed
qed

text \<open>For tool calls too the daemon is only an optimisation: when it reads the same files for the same person and checks
  texts as this process does, a call of a session with an id that can be counted meets the same end with it as
  without it, with the same store, and with the same pieces carried to the next call whenever the call's own
  text is clean.\<close>

theorem tool_daemon_is_an_optimisation:
  assumes "same_checks te de" "te_daemon_role te = te_role te" "te_daemon_paths te = te_paths te"
    and "event_tool event = PStr tool" "event_session (te_hook te) event \<noteq> []"
    and "fst (observe (he_H (te_hook te)) io (event_session (te_hook te) event) (harvest tool (event_args event))
      (fragments_of (harvest tool (event_args event)) DEFAULT_WINDOW None \<noteq> []) False (hs_risk st)) \<noteq> None"
    and "tool_hook (with_daemon (Some de) te) io event st = (x, s)" "tool_hook (with_daemon None te) io event st = (y, t)"
  shows "x = y \<and> hs_store s = hs_store t \<and> (an_allow (de_scan de (harvest tool (event_args event))) \<longrightarrow> hs_dir s = hs_dir t)"
proof -
  let ?args = "event_args event" and ?session = "event_session (te_hook te) event"
  obtain refused cold s1 where none: "clearance_gate (with_daemon None te) tool ?args (hs_store st) = ((refused, cold), s1)"
    by (metis prod.exhaust)
  with gates_agree [OF assms(2,3), of de tool ?args "hs_store st"] obtain warm where
    some: "clearance_gate (with_daemon (Some de) te) tool ?args (hs_store st) = ((refused, warm), s1)" by auto
  show ?thesis
  proof (cases refused)
    case None
    let ?st = "st\<lparr>hs_store := s1\<rparr>"
    from assms(4,7) some None have x: "given_call (with_daemon (Some de) te) warm io tool ?args ?session ?st = (x, s)"
      by (simp add: tool_hook_def Let_def)
    from assms(4,8) none None have y: "given_call (with_daemon None te) cold io tool ?args ?session ?st = (y, t)"
      by (simp add: tool_hook_def Let_def)
    show ?thesis
    proof (cases warm)
      case True
      have "fst (observe (he_H (te_hook te)) io ?session (harvest tool ?args)
          (fragments_of (harvest tool ?args) DEFAULT_WINDOW None \<noteq> []) False (hs_risk ?st)) \<noteq> None" using assms(6) by simp
      moreover from x True have "given_call (with_daemon (Some de) te) True io tool ?args ?session ?st = (x, s)" by simp
      ultimately have "x = y \<and> hs_store s = hs_store t \<and> (an_allow (de_scan de (harvest tool ?args)) \<longrightarrow> hs_dir s = hs_dir t)"
        using y by (rule given_call_warm [OF assms(1,5)])
      then show ?thesis .
    next
      case False
      with x y given_call_cold [of "Some de" te io tool ?args ?session ?st cold] show ?thesis by simp
    qed
  next
    case (Some why)
    with assms(4,7,8) some none show ?thesis by (simp add: tool_hook_def Let_def)
  qed
qed

section \<open>Samples\<close>

definition sample_tools :: "path_env \<Rightarrow> kv_data tool_env" where
  \<comment> \<open>nobody is logged in, and every file holds an access key\<close>
  "sample_tools daemon_paths = \<lparr>te_hook = demo_hook_env (\<lambda>t. Some (de_scan demo_daemon t)) None, te_uw = is_alnum, te_paths = sample_paths,
     te_daemon_paths = daemon_paths, te_role = sample_role None ''AWS_ACCESS_KEY'', te_daemon_role = sample_role None ''AWS_ACCESS_KEY'',
     te_pa = sample_env, te_ops = memory_ops\<rparr>"

definition sample_call :: "string \<Rightarrow> tool_args" where
  "sample_call line = [(tx ''tool_name'', PStr (tx ''Bash'')), (tx ''tool_input'', PDict (sample_line line)), (tx ''session_id'', PStr (tx ''s''))]"

definition sample_hook_state :: "kv_data hook_state" where
  "sample_hook_state = \<lparr>hs_dir = [], hs_risk = [], hs_store = sample_d\<rparr>"

lemma sample_call_simps [simp]:
  "event_tool (sample_call line) = PStr (tx ''Bash'')" "event_args (sample_call line) = sample_line line"
  "event_session env (sample_call line) = tx ''s''"
  by (simp_all add: sample_call_def event_tool_def event_args_def event_session_def str_or_def List.map_filter_def)

lemma sample_tools_simps [simp]:
  "te_hook (sample_tools px) = demo_hook_env (\<lambda>t. Some (de_scan demo_daemon t)) None" "te_uw (sample_tools px) = is_alnum"
  "te_paths (sample_tools px) = sample_paths" "te_daemon_paths (sample_tools px) = px"
  "te_role (sample_tools px) = sample_role None ''AWS_ACCESS_KEY''" "te_daemon_role (sample_tools px) = sample_role None ''AWS_ACCESS_KEY''"
  by (simp_all add: sample_tools_def)

lemma sample_same_checks: "same_checks (sample_tools px) demo_daemon"
  by (simp add: same_checks_def demo_hook_env_def demo_daemon_def nothing_found_def)

lemma credential_file_stays_unread_witness:
  "\<exists>why. tool_hook (sample_tools sample_paths) (demo_io 0) (sample_call ''cat a.txt'') sample_hook_state = (Denied (GivenReason why), sample_hook_state)"
proof -
  let ?te = "sample_tools sample_paths" and ?re = "sample_role None ''AWS_ACCESS_KEY''"
  have plain: "plain_chars (tx ''cat'')" "px_lower sample_paths (path_name (tx ''cat'')) \<in> set READERS"
    "\<forall>w \<in> set [tx ''a.txt'']. plain_word w \<and> px_home sample_paths w \<noteq> NoHome"
    "str_or (px_repr sample_paths) [''command''] (sample_line ''cat a.txt'') = command_line (tx ''cat'' # [tx ''a.txt''])"
    "px_home sample_paths (tx ''a.txt'') = Expanded (tx ''a.txt'')" "served_file sample_paths (tx ''a.txt'')"
    by code_simp+
  have cred: "is_credential ''AWS_ACCESS_KEY''" by code_simp
  have "\<exists>ps. candidate_paths (te_paths ?te) (tx ''Bash'') (event_args (sample_call ''cat a.txt'')) = Some ps
    \<and> (length ps = 64 \<or> (\<exists>why. tool_hook ?te (demo_io 0) (sample_call ''cat a.txt'') sample_hook_state = (Denied (GivenReason why), sample_hook_state)))"
    by (rule credential_file_stays_unread [where verb = "tx ''cat''" and ws = "[tx ''a.txt'']" and w = "tx ''a.txt''" and p = "tx ''a.txt''"
          and c = "''AWS_ACCESS_KEY''"])
      (use plain cred in \<open>simp_all add: sample_role_def sample_def same_reader_def\<close>)
  moreover have "candidate_paths sample_paths (tx ''Bash'') (sample_line ''cat a.txt'') = Some [tx ''a.txt'']" by code_simp
  ultimately show ?thesis by simp
qed

lemma sample_harvest: "harvest (tx ''Bash'') (sample_line ''ls'') = tx ''ls''"
  by (simp add: harvest_def SKIP_def INTERESTING_def sample_line_def List.map_filter_def)

lemma sample_gate: "clearance_gate (sample_tools px) (tx ''Bash'') (sample_line ''ls'') s = ((None, False), s)"
proof -
  have "candidate_paths sample_paths (tx ''Bash'') (sample_line ''ls'') = Some []" by code_simp
  then show ?thesis by (simp add: clearance_gate_def local_read_def demo_hook_env_def)
qed

lemma sample_clean: "tool_check (demo_hook_env (\<lambda>t. Some (de_scan demo_daemon t)) None) (tx ''ls'') session = Reply (result_of nothing_found)"
proof -
  have "an_allow (de_scan demo_daemon (tx ''ls''))" by (rule demo_short) simp
  then show ?thesis by (simp add: tool_check_def check_embedded_def demo_hook_env_def demo_daemon_def nothing_found_def)
qed

lemma sample_observed: "fst (observe (\<lambda>b. b) io (tx ''s'') (tx ''ls'') x False []) \<noteq> None"
proof -
  obtain p where "risk_path (\<lambda>b. b) (tx ''s'') = Some p" using demo_risk_path by blast
  moreover have "append_targets (tx ''ls'') = []" by code_simp
  ultimately show ?thesis by (simp add: observe_def split: prod.split)
qed

lemma sample_ls_runs: "fst (tool_hook (sample_tools px) io (sample_call ''ls'') sample_hook_state) = Allowed"
proof -
  have nonblank: "strip (tx ''ls'') \<noteq> []" by code_simp
  have checked: "checked_call (demo_hook_env (\<lambda>t. Some (de_scan demo_daemon t)) None) (tx ''Bash'') (tx ''ls'') [] (tx ''s'') = Allowed"
    unfolding checked_call_def sample_clean by (simp add: settled_call_def result_of_def nothing_found_def)
  have sink: "find_sink is_alnum None (tx ''ls'') = None" by code_simp
  have no_sink: "sink_of is_alnum rp (tx ''Bash'') (sample_line ''ls'') = []" for rp
    using sink by (simp add: sink_of_def str_get_def sample_line_def)
  obtain a risk where "observe (\<lambda>b. b) io (tx ''s'') (tx ''ls'') (fragments_of (tx ''ls'') DEFAULT_WINDOW None \<noteq> []) False [] = (Some a, risk)"
    using sample_observed by (metis prod.collapse option.exhaust)
  then have "fst (observed_join (sample_tools px) io (tx ''Bash'') (sample_line ''ls'') (tx ''ls'') (tx ''s'') sample_hook_state) = []"
    unfolding observed_join_def Let_def sink_add_def sample_tools_simps no_sink
    by (simp add: demo_hook_env_def sample_hook_state_def)
  then show ?thesis using nonblank checked
    by (simp add: tool_hook_def sample_gate [simplified] given_call_def sample_harvest [simplified] Let_def case_prod_unfold)
qed

lemma allowed_call_was_checked_witness:
  "\<exists>st'. tool_hook (sample_tools sample_paths) (demo_io 0) (sample_call ''ls'') sample_hook_state = (Allowed, st')
    \<and> \<not> he_fail_open (te_hook (sample_tools sample_paths))
    \<and> (\<exists>r. tool_check (te_hook (sample_tools sample_paths)) (tx ''ls'') (tx ''s'') = Reply r \<and> hr_allow r = Some True)"
proof -
  let ?te = "sample_tools sample_paths"
  obtain st' where run: "tool_hook ?te (demo_io 0) (sample_call ''ls'') sample_hook_state = (Allowed, st')"
    using sample_ls_runs [of sample_paths "demo_io 0"] by (metis prod.collapse)
  have closed: "\<not> he_fail_open (te_hook ?te)" by (simp add: demo_hook_env_def)
  have nonblank: "strip (tx ''ls'') \<noteq> []" by code_simp
  from allowed_call_was_checked [OF run closed] nonblank
  have "\<exists>r. tool_check (te_hook ?te) (tx ''ls'') (tx ''s'') = Reply r \<and> hr_allow r = Some True"
    by (auto simp: Let_def sample_harvest [simplified] sample_gate [simplified])
  with run closed show ?thesis by blast
qed

lemma tool_daemon_is_an_optimisation_witness:
  "\<exists>s t. tool_hook (with_daemon (Some demo_daemon) (sample_tools sample_paths)) (demo_io 0) (sample_call ''ls'') sample_hook_state = (Allowed, s)
    \<and> tool_hook (with_daemon None (sample_tools sample_paths)) (demo_io 0) (sample_call ''ls'') sample_hook_state = (Allowed, t) \<and> hs_dir s = hs_dir t"
proof -
  let ?te = "sample_tools sample_paths"
  have off: "with_daemon None ?te = ?te" by (simp add: with_daemon_def sample_tools_def demo_hook_env_def)
  obtain t where t: "tool_hook (with_daemon None ?te) (demo_io 0) (sample_call ''ls'') sample_hook_state = (Allowed, t)"
    using sample_ls_runs [of sample_paths "demo_io 0"] unfolding off by (metis prod.collapse)
  obtain x s where s: "tool_hook (with_daemon (Some demo_daemon) ?te) (demo_io 0) (sample_call ''ls'') sample_hook_state = (x, s)" by fastforce
  have session: "event_session (te_hook ?te) (sample_call ''ls'') \<noteq> []" by simp
  have counted: "fst (observe (he_H (te_hook ?te)) (demo_io 0) (event_session (te_hook ?te) (sample_call ''ls'')) (harvest (tx ''Bash'') (event_args (sample_call ''ls'')))
      (fragments_of (harvest (tx ''Bash'') (event_args (sample_call ''ls''))) DEFAULT_WINDOW None \<noteq> []) False (hs_risk sample_hook_state)) \<noteq> None"
    using sample_observed by (simp add: sample_harvest [simplified] demo_hook_env_def sample_hook_state_def)
  have "an_allow (de_scan demo_daemon (tx ''ls''))" by (rule demo_short) simp
  with tool_daemon_is_an_optimisation [OF sample_same_checks _ _ sample_call_simps(1) session counted s t] s t
  show ?thesis by (auto simp: sample_harvest [simplified])
qed

section \<open>Where the two part\<close>

text \<open>The daemon was started in the repository's directory and resolves a relative path there. What this process refuses
  to read it lets pass as no file at all.\<close>

definition elsewhere :: path_env where
  "elsewhere = sample_paths\<lparr>px_stat := \<lambda>_. Some Other\<rparr>"

lemma daemon_looks_elsewhere:
  "clearance_gate (with_daemon (Some demo_daemon) (sample_tools elsewhere)) (tx ''Bash'') (sample_line ''cat a.txt'') sample_d = ((None, True), sample_d)"
  "fst (fst (clearance_gate (with_daemon None (sample_tools elsewhere)) (tx ''Bash'') (sample_line ''cat a.txt'') sample_d)) \<noteq> None"
proof -
  have there: "candidate_paths elsewhere (tx ''Bash'') (sample_line ''cat a.txt'') = Some []" by code_simp
  have here: "candidate_paths sample_paths (tx ''Bash'') (sample_line ''cat a.txt'') = Some [tx ''a.txt'']" by code_simp
  show "clearance_gate (with_daemon (Some demo_daemon) (sample_tools elsewhere)) (tx ''Bash'') (sample_line ''cat a.txt'') sample_d = ((None, True), sample_d)"
    unfolding clearance_gate_def check_read_def with_daemon_simps sample_tools_simps there by simp
  let ?re = "sample_role None ''AWS_ACCESS_KEY''"
  have cred: "is_credential ''AWS_ACCESS_KEY''" by code_simp
  have "\<exists>d. decide_read ?re sample_env memory_ops (map (re_enc ?re) [tx ''a.txt'']) sample_d = (Inr (Some d), sample_d)
    \<and> read_gate ?re sample_env memory_ops (map (re_enc ?re) [tx ''a.txt'']) sample_d = (Some (read_reason d), sample_d)
    \<and> (\<exists>w \<in> set (rx_withheld d). wh_path w = doc_path ?re ''p'' \<and> ''AWS_ACCESS_KEY'' \<in> set (wh_classes w) \<and> wh_action w = Block)"
    by (rule credential_floor [where c = "''AWS_ACCESS_KEY''", OF _ _ _ _ cred]) (simp_all add: sample_role_def sample_def)
  then obtain why where "read_gate ?re sample_env memory_ops (map (re_enc ?re) [tx ''a.txt'']) sample_d = (Some why, sample_d)" by blast
  from local_read_refused [OF here this]
  show "fst (fst (clearance_gate (with_daemon None (sample_tools elsewhere)) (tx ''Bash'') (sample_line ''cat a.txt'') sample_d)) \<noteq> None"
    by (simp add: clearance_gate_def sample_tools_def with_daemon_def)
qed

text \<open>A configured checking service is not asked about a tool call while a daemon answers.\<close>

lemma service_is_not_asked:
  assumes "he_daemon (te_hook te) = Some de"
  shows "given_call (te\<lparr>te_hook := (te_hook te)\<lparr>he_checker := c, he_service := f\<rparr>\<rparr>) True io tool args session st = given_call te True io tool args session st"
  using assms by (simp add: given_call_def Let_def)

text \<open>Without the daemon, a refused call leaves its piece for the next call to be joined with; with it, nothing.\<close>

lemma refused_call_is_carried:
  assumes "same_checks te de" "strip (harvest tool args) \<noteq> []" "\<not> an_allow (de_scan de (harvest tool args))"
  shows "snd (given_call (with_daemon (Some de) te) True io tool args session st) = st"
    and "snd (given_call (with_daemon None te) warm io tool args session st) = snd (observed_join te io tool args (harvest tool args) session st)"
  using assms(2,3) by (simp_all add: given_call_def check_tool_def Let_def split: prod.split)

text \<open>An unknown home among a call's arguments opens the gate for every other file it names.\<close>

lemma unknown_home_opens_gate:
  assumes "candidate_paths (te_paths te) tool args = None" "candidate_paths (te_daemon_paths te) tool args = None"
  shows "clearance_gate te tool args s = ((None, False), s)"
  using assms by (simp add: clearance_gate_def local_read_def check_read_def Let_def)

end
