(* ===== verification/PolicyPublish.thy ===== *)
theory PolicyPublish
  imports PolicyHistory
begin

text \<open>
  What callers of the policy store can rely on in any reachable state: a load serves the active rows
  whatever the cache went through, a decision recorded under loaded policies keeps every ledger
  verifying however late it is recorded, of two publishers with one expectation one is refused, and a
  rollback brings an older policy back as the newest version.
\<close>

section \<open>Loading and deciding\<close>

definition lost :: "redis_env \<Rightarrow> bool" where
  \<comment> \<open>Redis is configured and answers neither a connection attempt nor an operation\<close>
  "lost e \<longleftrightarrow> re_url e \<and> \<not> re_ping e \<and> \<not> re_op e"

definition in_use :: "redis_env \<Rightarrow> cache_world \<Rightarrow> bool" where
  \<comment> \<open>connected, known to be lost, or due for a connection attempt\<close>
  "in_use e c \<longleftrightarrow> pc_redis c \<or> pc_redis_degraded c \<or> wants_probe e c"

definition connected :: "cache_world \<Rightarrow> bool" where "connected c \<longleftrightarrow> pc_redis c \<and> \<not> pc_redis_degraded c"

lemma lost_cache:
  assumes "lost e" "in_use e c"
  shows "pc_redis_degraded (snd (pc_get e t v c))" "pc_redis_degraded (pc_set e t v b c)"
  using assms
  by (auto simp: lost_def in_use_def pc_get_def pc_set_def pc_client_def pc_probe_def pc_mark_degraded_def wants_probe_def Let_def)

lemma connected_cache:
  assumes "re_op e" "connected c"
  shows "connected (snd (pc_get e t v c))" "connected (pc_set e t v b c)"
  using assms by (auto simp: connected_def pc_get_def pc_set_def pc_client_def wants_probe_def Let_def)

lemma load_lost:
  assumes "load ym H e e' st t c = (c', r)" "lost e" "lost e'" "in_use e c" "active_row st t = Inr (Some row)"
  shows "pc_redis_degraded c' \<and> (\<forall>p reason h. r = Inr (p, reason, h) \<longrightarrow> reason = Some ''policy_cache_local'')"
proof -
  obtain found c1 where g: "pc_get e t (pt_version row) c = (found, c1)" by fastforce
  with lost_cache(1) [OF assms(2,4), of t "pt_version row"] have "pc_redis_degraded c1" by simp
  moreover from this have "pc_redis_degraded (pc_set e' t (pt_version row) (pt_yaml row) c1)"
    by (intro lost_cache(2) [OF assms(3)]) (simp add: in_use_def)
  ultimately show ?thesis using assms(1,5) g
    by (auto simp: load_def load_blob_def rbind_Inr_iff pc_degrade_reason_def Let_def split: option.splits sum.splits)
qed

lemma load_connected:
  assumes "load ym H e e' st t c = (c', r)" "re_op e" "re_op e'" "connected c"
  shows "connected c' \<and> (\<forall>p reason h. r = Inr (p, reason, h) \<longrightarrow> reason = None)"
proof (cases "active_row st t")
  case (Inr found)
  show ?thesis
  proof (cases found)
    case (Some row)
    obtain b c1 where g: "pc_get e t (pt_version row) c = (b, c1)" by fastforce
    with connected_cache(1) [OF assms(2,4), of t "pt_version row"] have "connected c1" by simp
    moreover from connected_cache(2) [OF assms(3) this] have "connected (pc_set e' t (pt_version row) (pt_yaml row) c1)" .
    ultimately show ?thesis using assms(1) Inr Some g
      by (auto simp: load_def load_blob_def rbind_Inr_iff pc_degrade_reason_def connected_def Let_def split: option.splits sum.splits)
  qed (use assms Inr in \<open>auto simp: load_def\<close>)
qed (use assms in \<open>auto simp: load_def\<close>)

lemma load_Inr_row: "load ym H e e' st t c = (c', Inr l) \<Longrightarrow> \<exists>row. active_row st t = Inr (Some row)"
  by (auto simp: load_def split: sum.splits option.splits)

lemma load_for_tenant_lost:
  assumes "load_for_tenant ym H io st t c = (c', Inr rp)" "\<And>n. lost (io n)" "in_use (io 0) c"
  shows "''policy_cache_local'' \<in> set (rp_degraded_reasons rp)"
proof -
  let ?org = "case map_of (db_tenants (st_ledger st)) t of Some (Some parent) \<Rightarrow> parent | _ \<Rightarrow> t"
  obtain c1 l where l: "load ym H (io 0) (io 1) st ?org c = (c1, l)" by fastforce
  from assms(1) l obtain p reason h where inr: "l = Inr (p, reason, h)" and rep: "set (reasons reason) \<subseteq> set (rp_degraded_reasons rp)"
    by (auto simp: load_for_tenant_def split: option.splits sum.splits prod.splits store_error.splits)
  from load_Inr_row [OF l [unfolded inr]] obtain row where "active_row st ?org = Inr (Some row)" by blast
  from load_lost [OF l assms(2) assms(2) assms(3) this] inr rep show ?thesis by (simp add: reasons_def)
qed

lemma load_for_tenant_connected:
  assumes "load_for_tenant ym H io st t c = (c', Inr rp)" "\<And>n. re_op (io n)" "connected c"
  shows "rp_degraded_reasons rp = []"
proof -
  let ?org = "case map_of (db_tenants (st_ledger st)) t of Some (Some parent) \<Rightarrow> parent | _ \<Rightarrow> t"
  obtain c1 l where l: "load ym H (io 0) (io 1) st ?org c = (c1, l)" by fastforce
  obtain c2 m where m: "load ym H (io 2) (io 3) st t c1 = (c2, m)" by fastforce
  note one = load_connected [OF l assms(2) assms(2) assms(3)]
  note two = load_connected [OF m assms(2) assms(2) one [THEN conjunct1]]
  from assms(1) l m one two show ?thesis
    by (auto simp: load_for_tenant_def reasons_def split: option.splits sum.splits prod.splits store_error.splits)
qed

text \<open>C7. In every reachable state a request gets exactly the policies and content hashes of the active rows of its
  organisation and business unit, or the same error, as if there were no cache. When Redis, connected or due
  for an attempt, answers nothing, the loaded policies say that the process cache stands in for it; while it
  is connected and answers they say nothing.\<close>

theorem load_serves_active_rows:
  assumes "reads_back ym" "coerces co" "\<And>x. length (H x) = 32" "flat ts"
    and "(store_step ym co H)\<^sup>*\<^sup>* (fresh_world ts) w"
    and "load_for_tenant ym H io (w_store w) t (w_cache w) = (c', r)"
  shows "rbind r (\<lambda>rp. Inr (layers rp)) = resolve_direct ym H (w_store w) t
    \<and> (\<forall>rp. r = Inr rp \<and> pc_redis_degraded c' \<longrightarrow> ''policy_cache_local'' \<in> set (rp_degraded_reasons rp))
    \<and> (\<forall>rp. r = Inr rp \<and> (\<forall>n. lost (io n)) \<and> in_use (io 0) (w_cache w) \<longrightarrow> ''policy_cache_local'' \<in> set (rp_degraded_reasons rp))
    \<and> (\<forall>rp. r = Inr rp \<and> (\<forall>n. re_op (io n)) \<and> connected (w_cache w) \<longrightarrow> rp_degraded_reasons rp = [])"
proof -
  note w = world_okD [OF reachable_ok [OF assms(5,1-4)]]
  from load_for_tenant_result [OF w(6,2) assms(6)] load_for_tenant_lost load_for_tenant_connected assms(6)
  show ?thesis by blast
qed

lemma load_serves_active_rows_witness:
  "\<exists>st c' r. st_policies st = [demo_row]
     \<and> load_for_tenant demo_codec toy_digest (\<lambda>_. demo_env 10 False) st ''acme'' (new_cache []) = (c', r)
     \<and> rbind r (\<lambda>rp. Inr (layers rp)) = resolve_direct demo_codec toy_digest st ''acme''"
proof -
  obtain st where w: "store_step demo_codec strict_coercion toy_digest (fresh_world demo_tenants) ((fresh_world demo_tenants)\<lparr>w_store := st\<rparr>)"
    and row: "st_policies st = [demo_row]" using demo_publish_steps by blast
  obtain c' r where l: "load_for_tenant demo_codec toy_digest (\<lambda>_. demo_env 10 False) st ''acme'' (new_cache []) = (c', r)"
    by fastforce
  then have "load_for_tenant demo_codec toy_digest (\<lambda>_. demo_env 10 False) (w_store ((fresh_world demo_tenants)\<lparr>w_store := st\<rparr>))
      ''acme'' (w_cache ((fresh_world demo_tenants)\<lparr>w_store := st\<rparr>)) = (c', r)" by (simp add: fresh_world_def)
  from load_serves_active_rows [OF demo_reads_back strict_coerces toy_digest_length demo_flat
      r_into_rtranclp [of "store_step demo_codec strict_coercion toy_digest", OF w] this] row l
  show ?thesis by (intro exI [of _ st] exI [of _ c'] exI [of _ r]) simp
qed

text \<open>A record that the schema accepts and that names the loaded policies can be written: the append succeeds and every
  tenant's ledger still verifies with the policy bindings, even when newer versions were published between
  the load and the record.\<close>

theorem recorded_decision_verifies:
  assumes "reads_back ym" "coerces co" "\<And>x. length (H x) = 32" "flat ts"
    and "(store_step ym co H)\<^sup>*\<^sup>* (fresh_world ts) w" "(t, rp) \<in> set (w_open w)"
    and "validate co ''request.decided'' p = Inr q" "names_policies rp q"
  shows "\<exists>rec db. dl_append co H now now' (ledger_of (w_store w)) t ''request.decided'' p None = Inr (rec, db)
    \<and> (\<forall>u. vr_ok (dl_verify H db u None))"
proof -
  from decided_appends [OF reachable_ok [OF assms(5,1-4)] assms(2,3,4,6,7,8), of now now']
  show ?thesis unfolding dl_good_def by blast
qed

lemma demo_load_steps:
  "\<exists>w rp. (store_step demo_codec strict_coercion toy_digest)\<^sup>*\<^sup>* (fresh_world demo_tenants) w \<and> w_open w = [(''acme'', rp)]
     \<and> rp_org rp = stored_policy demo_org_draft 1 False \<and> rp_bu rp = None \<and> rp_bu_policy_content_hash rp = None
     \<and> rp_org_policy_content_hash rp = pt_content_hash demo_row"
proof -
  let ?S = "store_step demo_codec strict_coercion toy_digest"
  obtain st where w: "?S (fresh_world demo_tenants) ((fresh_world demo_tenants)\<lparr>w_store := st\<rparr>)"
    and row: "st_policies st = [demo_row]" and ts: "db_tenants (st_ledger st) = demo_tenants" using demo_publish_steps by blast
  let ?w = "(fresh_world demo_tenants)\<lparr>w_store := st\<rparr>"
  have reach: "?S\<^sup>*\<^sup>* (fresh_world demo_tenants) ?w" using w by (rule r_into_rtranclp)
  note d = world_okD [OF reachable_ok [OF reach demo_reads_back strict_coerces toy_digest_length demo_flat]]
  obtain c' r where l: "load_for_tenant demo_codec toy_digest (\<lambda>_. demo_env 10 False) (w_store ?w) ''acme'' (w_cache ?w) = (c', r)"
    by fastforce
  have "ym_draft demo_codec ''o0'' = Some demo_org_draft" by (simp add: demo_codec_def)
  then have "ym_policy demo_codec (pt_yaml demo_row) = Some (stored_policy demo_org_draft 1 False)"
    using demo_reads_back unfolding reads_back_def by (simp add: demo_row_def)
  then have "resolve_direct demo_codec toy_digest st ''acme'' = Inr ((stored_policy demo_org_draft 1 False, pt_content_hash demo_row), None)"
    by (simp add: resolve_direct_def load_direct_def active_row_def row ts parse_policy_def demo_tenants_def)
  with load_for_tenant_result [OF d(6,2) l] obtain rp where rp: "r = Inr rp" "owners st ''acme'' rp"
      "layers rp = ((stored_policy demo_org_draft 1 False, pt_content_hash demo_row), None)" by (auto simp: rbind_Inr_iff)
  then have "rp_bu rp = None" "rp_bu_policy_content_hash rp = None"
    by (auto simp: layers_def owners_def split: option.splits)
  moreover have "?S\<^sup>*\<^sup>* (fresh_world demo_tenants) (?w\<lparr>w_cache := c', w_open := (''acme'', rp) # w_open ?w\<rparr>)"
    using reach store_step.loaded [OF l [unfolded rp(1)]] by (rule rtranclp.rtrancl_into_rtrancl)
  ultimately show ?thesis using rp(3)
    by (intro exI [of _ "?w\<lparr>w_cache := c', w_open := (''acme'', rp) # w_open ?w\<rparr>"] exI [of _ rp])
      (simp add: layers_def fresh_world_def)
qed

definition demo_decided :: fields where
  "demo_decided = [(''request_id'', JStr ''r1''), (''actor_id'', JStr ''a1''), (''actor_registered'', JBool True),
     (''leg'', JStr ''outbound''), (''decision_action'', JStr ''mask''), (''applied_action'', JStr ''mask''),
     (''mode'', JStr ''shadow''), (''rule_index'', JInt 0), (''rule_scope'', JStr ''org''),
     (''org_policy_version'', JInt 1), (''org_policy_content_hash'', JStr (pt_content_hash demo_row)),
     (''bu_policy_version'', JNull), (''bu_policy_content_hash'', JNull), (''exception_applied'', JBool False),
     (''finding_classes'', JList []), (''finding_paths'', JList []), (''upstream_model'', JStr ''m''),
     (''degraded_reasons'', JList []), (''truncated'', JBool False)]"

lemma demo_decided_valid: "validate strict_coercion ''request.decided'' demo_decided = Inr demo_decided"
proof -
  have "hex64 (pt_content_hash demo_row)" by (simp add: demo_row_def hashed_hex toy_digest_length)
  then show ?thesis
    by (simp add: validate_def REGISTRY_def run_model_def RequestDecided_def demo_decided_def strict_coercion_def no_check_def
        check_hash_def no_free_text_def sorted_unique_def LEG_T_def DECISION_ACTION_def APPLIED_ACTION_def MODE_def)
qed

lemma recorded_decision_verifies_witness:
  "\<exists>(w :: world) rec db. dl_append strict_coercion toy_digest ''3'' ''4'' (ledger_of (w_store w)) ''acme'' ''request.decided''
     demo_decided None = Inr (rec, db) \<and> (\<forall>u. vr_ok (dl_verify toy_digest db u None))"
proof -
  obtain w rp where w: "(store_step demo_codec strict_coercion toy_digest)\<^sup>*\<^sup>* (fresh_world demo_tenants) w"
    and rp: "w_open w = [(''acme'', rp)]" "rp_org rp = stored_policy demo_org_draft 1 False" "rp_bu rp = None"
      "rp_bu_policy_content_hash rp = None" "rp_org_policy_content_hash rp = pt_content_hash demo_row"
    using demo_load_steps by blast
  have "names_policies rp demo_decided"
    using rp(2-5) by (simp add: names_policies_def rp_org_policy_version_def rp_bu_policy_version_def)
      (simp add: demo_decided_def pget_def)
  from recorded_decision_verifies [OF demo_reads_back strict_coerces toy_digest_length demo_flat w _ demo_decided_valid this]
  show ?thesis using rp(1) by fastforce
qed

section \<open>Concurrent publishers\<close>

lemma check_expected_Inr: "check_expected_version previous expected = Inr () \<longleftrightarrow> map_option pt_version previous = expected"
  by (cases previous; cases expected) (auto simp: check_expected_version_def)

lemma active_after_publish:
  assumes "publishes ym H st t y expected who row st'" "history_ok (st_policies st)" "history_ok (st_policies st')"
  shows "active_row st' t = Inr (Some row)" "Some (pt_version row) \<noteq> expected"
proof -
  from assms(1) obtain draft parent previous where
    chk: "publish_checks ym st t y expected draft parent previous"
    and row: "row = new_row H t (next_version previous) (stored_yaml ym draft (next_version previous) (parent \<noteq> None))"
    and st': "st_policies st' = deactivate t (st_policies st) @ [row]" unfolding publishes_def by blast
  have "versions_of t (st_policies st') = versions_of t (deactivate t (st_policies st)) @ [row]"
    by (simp add: st' versions_of_append row) (simp add: versions_of_def)
  then show "active_row st' t = Inr (Some row)" by (simp add: active_row_history [OF assms(3)])
  from chk have prev: "active_row st t = Inr previous" "map_option pt_version previous = expected"
    by (simp_all add: publish_checks_def check_expected_Inr)
  show "Some (pt_version row) \<noteq> expected"
  proof (cases previous)
    case (Some p)
    with active_row_member [of st t p] prev(1) versions_bounded [OF assms(2), of p] have "1 \<le> pt_version p" by simp
    with prev(2) Some show ?thesis by (auto simp: row next_version_def)
  qed (use prev(2) in simp)
qed

lemma publish_conflict:
  assumes "active_row st t = Inr (Some row)" "expected \<noteq> Some (pt_version row)"
    and "parse_draft ym y = Inr draft" "map_of (db_tenants (st_ledger st)) t = Some parent"
    and "validate_ownership ym t parent draft y = Inr ()"
  shows "publish ym co H now now' io st t y who expected c = (c, Inl (VersionConflict (Some (pt_version row))))"
  using assms by (cases expected) (auto simp: publish_def check_expected_version_def)

text \<open>C15. No publish is lost: in any reachable state, when one publisher has succeeded, another that expected
  the same active version is refused with a version conflict, whatever it wanted to publish, and nothing
  of it is written.\<close>

theorem second_publisher_is_refused:
  assumes "reads_back ym" "coerces co" "\<And>x. length (H x) = 32" "flat ts"
    and "(store_step ym co H)\<^sup>*\<^sup>* (fresh_world ts) w"
    and pub: "publish ym co H now now' io (w_store w) t y who expected (w_cache w) = (c', Inr (row, st'))"
    and "parse_draft ym z = Inr draft" "map_of ts t = Some parent" "validate_ownership ym t parent draft z = Inr ()"
  shows "publish ym co H later later' io' st' t z other expected c = (c, Inl (VersionConflict (Some (pt_version row))))"
proof -
  note ok = reachable_ok [OF assms(5,1-4)]
  note w = world_okD [OF ok]
  from publish_result [OF w(1,2) assms(1-3) pub] have p: "publishes ym H (w_store w) t y expected who row st'"
    and "history_ok (st_policies st')" by (simp_all add: store_ok_def)
  note a = active_after_publish [OF p w(6) this(2)]
  show ?thesis
    by (rule publish_conflict [OF a(1) _ assms(7) _ assms(9)]) (use a(2) assms(8) publishes_keeps(2) [OF p] w(3) in auto)
qed

lemma second_publisher_is_refused_witness:
  "\<exists>c' st'. publish demo_codec strict_coercion toy_digest ''1'' ''2'' (\<lambda>_. demo_env 10 True) (w_store (fresh_world demo_tenants))
       ''acme'' ''o0'' ''a1'' None (w_cache (fresh_world demo_tenants)) = (c', Inr (demo_row, st'))
     \<and> publish demo_codec strict_coercion toy_digest ''3'' ''4'' (\<lambda>_. demo_env 11 True) st' ''acme'' ''o0'' ''a2'' None (new_cache [])
       = (new_cache [], Inl (VersionConflict (Some 1)))"
proof -
  obtain st where p: "publish demo_codec strict_coercion toy_digest ''1'' ''2'' (\<lambda>_. demo_env 10 True)
       (w_store (fresh_world demo_tenants)) ''acme'' ''o0'' ''a1'' None (w_cache (fresh_world demo_tenants))
       = (new_cache [], Inr (demo_row, st))" using demo_publish_evaluates by blast
  have z: "parse_draft demo_codec ''o0'' = Inr demo_org_draft" "map_of demo_tenants ''acme'' = Some None"
    "validate_ownership demo_codec ''acme'' None demo_org_draft ''o0'' = Inr ()"
    using demo_checks by (simp_all add: publish_checks_def fresh_world_def empty_db_def)
  from second_publisher_is_refused [OF demo_reads_back strict_coerces toy_digest_length demo_flat rtranclp.rtrancl_refl p z]
  show ?thesis using p by simp
qed

section \<open>Rolling back\<close>

definition strips_back :: "yaml_codec \<Rightarrow> bool" where
  \<comment> \<open>what PyYAML and pydantic promise: a stored text without its version is the draft again, and it has the keys
    mode and fail unless they were left out\<close>
  "strips_back ym \<longleftrightarrow> (\<forall>text d v unit. ym_draft ym text = Some d \<longrightarrow>
     (let y = stored_yaml ym d v unit; u = ym_unversioned ym y in
        ym_keys ym y \<noteq> None
        \<and> ym_draft ym u = Some (if unit then d\<lparr>p_mode := Shadow, p_fail := FailClosed\<rparr> else d)
        \<and> raw_has_key ym u ''mode'' = (\<not> unit) \<and> raw_has_key ym u ''fail'' = (\<not> unit)))"

lemma filter_key: "distinct (map f xs) \<Longrightarrow> x \<in> set xs \<Longrightarrow> filter (\<lambda>y. f y = f x) xs = [x]"
proof (induction xs)
  case (Cons a xs)
  then show ?case by (cases "a = x") (auto simp: filter_empty_conv image_iff)
qed simp

lemma version_row:
  assumes "history_ok rows" "r \<in> set rows"
  shows "sole_row (filter (\<lambda>s. pt_tenant_id s = pt_tenant_id r \<and> pt_version s = pt_version r) rows) = Inr (Some r)"
proof -
  let ?rs = "versions_of (pt_tenant_id r) rows"
  have "distinct (map pt_version ?rs)"
    unfolding history_okD(1) [OF assms(1)] by (simp add: distinct_map inj_on_def)
  from filter_key [OF this, of r] assms(2) have "filter (\<lambda>s. pt_version s = pt_version r) ?rs = [r]"
    by (simp add: versions_of_def)
  then show ?thesis by (simp add: versions_of_def conj_commute)
qed

lemma ownership_restored:
  assumes "validate_ownership ym t parent d text' = Inr ()" "raw_has_key ym u ''mode'' = (parent = None)"
    "raw_has_key ym u ''fail'' = (parent = None)"
  shows "validate_ownership ym t parent (if parent \<noteq> None then d\<lparr>p_mode := Shadow, p_fail := FailClosed\<rparr> else d) u = Inr ()"
  using assms by (cases parent) (auto simp: validate_ownership_def split: if_splits)

lemma stored_policy_restored:
  "stored_policy (if unit then d\<lparr>p_mode := Shadow, p_fail := FailClosed\<rparr> else d) v' unit = (stored_policy d v unit)\<lparr>p_version := v'\<rparr>"
  by (simp add: stored_policy_def to_policy_def policy.defs policy_draft.defs Let_def)

lemma check_parent_error:
  assumes "store_ok ym H st" "policy.agrees (stored st) c" "check_parent ym H io st parent d v c = (c', Inl err)"
  shows "parent \<noteq> None \<and> (\<exists>b. err = UnitWeakens b)"
proof (cases parent)
  case (Some p)
  from assms(1) have h: "history_ok (st_policies st)" and rd: "readable ym (st_policies st)" by (simp_all add: store_ok_def)
  obtain l c1 where l: "load ym H (io 0) (io 1) st p c = (c1, l)" by fastforce
  from load_is_direct [OF h assms(2) l] have d: "load_direct ym H st p = without_reason l" by simp
  show ?thesis
  proof (cases l)
    case (Inr x)
    with assms(3) l Some show ?thesis by (auto simp: check_parent_def load_active_def split: sum.splits)
  next
    case (Inl e)
    with d have le: "load_direct ym H st p = Inl e" by simp
    have "e = NoActivePolicy p"
    proof (cases "versions_of p (st_policies st) = []")
      case True
      with le show ?thesis by (simp add: load_direct_def active_row_history [OF h])
    next
      case False
      then have "last (versions_of p (st_policies st)) \<in> set (st_policies st)"
        by (metis filter_is_subset last_in_set subsetD versions_of_def)
      with rd obtain q where "ym_policy ym (pt_yaml (last (versions_of p (st_policies st)))) = Some q"
        unfolding readable_def by blast
      with False le show ?thesis by (simp add: load_direct_def active_row_history [OF h] parse_policy_def)
    qed
    with assms(3) l Some Inl show ?thesis by (simp add: check_parent_def load_active_def)
  qed
qed (use assms(3) in \<open>simp add: check_parent_def\<close>)

lemma rollback_is_publish:
  assumes "history_ok (st_policies st)" "r \<in> set (st_policies st)" "active_row st (pt_tenant_id r) = Inr active"
    and "ym_keys ym (pt_yaml r) \<noteq> None"
  shows "rollback_to ym co H now now' io st (pt_tenant_id r) (pt_version r) who c
    = publish ym co H now now' io st (pt_tenant_id r) (ym_unversioned ym (pt_yaml r)) who (map_option pt_version active) c"
  using assms(4) by (auto simp: rollback_to_def version_row [OF assms(1,2)] assms(3) strip_version_def)

text \<open>C16. Rolling back brings an older version back: in any reachable state, rolling a tenant back to one of its
  versions publishes, as the next and active version, a text that loads as the same policy under the new
  number. Only a business unit can be refused, and only because the rules of the old version are weaker
  than the organisation's present ones.\<close>

theorem rollback_restores_policy:
  assumes "reads_back ym" "strips_back ym" "coerces co" "\<And>x. length (H x) = 32" "flat ts"
    and "(store_step ym co H)\<^sup>*\<^sup>* (fresh_world ts) w" "r \<in> set (st_policies (w_store w))"
  shows "case snd (rollback_to ym co H now now' io (w_store w) (pt_tenant_id r) (pt_version r) who (w_cache w)) of
      Inr (row, st') \<Rightarrow>
        pt_version row = int (length (versions_of (pt_tenant_id r) (st_policies (w_store w)))) + 1
        \<and> active_row st' (pt_tenant_id r) = Inr (Some row)
        \<and> (\<exists>p. ym_policy ym (pt_yaml r) = Some p \<and> ym_policy ym (pt_yaml row) = Some (p\<lparr>p_version := nat (pt_version row)\<rparr>))
    | Inl err \<Rightarrow> map_of ts (pt_tenant_id r) \<noteq> Some None \<and> (\<exists>b. err = UnitWeakens b)"
proof -
  let ?st = "w_store w" and ?t = "pt_tenant_id r"
  note w = world_okD [OF reachable_ok [OF assms(6,1,3,4,5)]]
  from w(5) [OF assms(7)] obtain text' d parent where d: "ym_draft ym text' = Some d" and m: "map_of ts ?t = Some parent"
    and y: "pt_yaml r = stored_yaml ym d (nat (pt_version r)) (parent \<noteq> None)"
    and own: "validate_ownership ym ?t parent d text' = Inr ()" unfolding from_draft_def by blast
  obtain active where act: "active_row ?st ?t = Inr active" using active_row_history [OF w(6)] by blast
  let ?u = "ym_unversioned ym (pt_yaml r)" and ?d = "if parent \<noteq> None then d\<lparr>p_mode := Shadow, p_fail := FailClosed\<rparr> else d"
  from assms(2) d have sb: "ym_keys ym (pt_yaml r) \<noteq> None" "ym_draft ym ?u = Some ?d"
    "raw_has_key ym ?u ''mode'' = (parent = None)" "raw_has_key ym ?u ''fail'' = (parent = None)"
    unfolding strips_back_def Let_def y by fastforce+
  have chk: "publish_checks ym ?st ?t ?u (map_option pt_version active) ?d parent active"
    using ownership_restored [OF own sb(3,4)] m act w(3) sb(2)
    by (simp add: publish_checks_def parse_draft_def check_expected_Inr)
  let ?v = "next_version active" and ?c = "w_cache w"
  obtain c1 q where q: "check_parent ym H io ?st parent ?d ?v ?c = (c1, q)" by fastforce
  note roll = rollback_is_publish [OF w(6) assms(7) act sb(1)] publish_passed [OF chk]
  show ?thesis
  proof (cases q)
    case (Inl err)
    then have "snd (rollback_to ym co H now now' io ?st ?t (pt_version r) who ?c) = Inl err" using q by (simp add: roll)
    with check_parent_error [OF w(1,2) q [unfolded Inl]] m show ?thesis by auto
  next
    case (Inr u)
    let ?y = "stored_yaml ym ?d ?v (parent \<noteq> None)"
    from assms(1) sb(2) have py: "ym_policy ym ?y = Some (stored_policy ?d ?v (parent \<noteq> None))" unfolding reads_back_def by blast
    from write_version_correct [OF w(1) act refl py stored_policy_version assms(3,4), of now now' who "length (p_rules ?d)"]
    obtain st' where wr: "write_version ym co H now now' ?st active ?t ?v ?y who (length (p_rules ?d)) = Inr (new_row H ?t ?v ?y, st')"
      and ok: "store_ok ym H st'" and st': "st_policies st' = deactivate ?t (st_policies ?st) @ [new_row H ?t ?v ?y]" by blast
    have res: "snd (rollback_to ym co H now now' io ?st ?t (pt_version r) who ?c) = Inr (new_row H ?t ?v ?y, st')"
      using q Inr wr by (simp add: roll)
    have "versions_of ?t (st_policies st') = versions_of ?t (deactivate ?t (st_policies ?st)) @ [new_row H ?t ?v ?y]"
      by (simp add: st' versions_of_append) (simp add: versions_of_def)
    then have "active_row st' ?t = Inr (Some (new_row H ?t ?v ?y))"
      using ok by (simp add: active_row_history store_ok_def)
    moreover have "ym_policy ym (pt_yaml r) = Some (stored_policy d (nat (pt_version r)) (parent \<noteq> None))"
      using assms(1) d unfolding reads_back_def y by blast
    moreover have "ym_policy ym ?y = Some ((stored_policy d (nat (pt_version r)) (parent \<noteq> None))\<lparr>p_version := ?v\<rparr>)"
      unfolding py by (rule arg_cong [where f = Some], rule stored_policy_restored)
    ultimately show ?thesis unfolding res using next_version_history [OF w(6) act] by simp
  qed
qed

lemma demo_strips_back: "strips_back demo_codec"
  unfolding strips_back_def Let_def
proof (intro allI impI)
  fix y d v unit assume "ym_draft demo_codec y = Some d"
  from demo_drafts(1) [OF this]
  show "ym_keys demo_codec (stored_yaml demo_codec d v unit) \<noteq> None
    \<and> ym_draft demo_codec (ym_unversioned demo_codec (stored_yaml demo_codec d v unit))
        = Some (if unit then d\<lparr>p_mode := Shadow, p_fail := FailClosed\<rparr> else d)
    \<and> raw_has_key demo_codec (ym_unversioned demo_codec (stored_yaml demo_codec d v unit)) ''mode'' = (\<not> unit)
    \<and> raw_has_key demo_codec (ym_unversioned demo_codec (stored_yaml demo_codec d v unit)) ''fail'' = (\<not> unit)"
    by (elim disjE; cases unit)
      (simp_all add: demo_stored_yaml demo_drafts(2,3),
       simp_all add: demo_codec_def raw_has_key_def demo_org_draft_def demo_unit_draft_def demo_draft_def)
qed

lemma rollback_restores_policy_witness:
  "\<exists>st row st'. st_policies st = [demo_row]
     \<and> snd (rollback_to demo_codec strict_coercion toy_digest ''5'' ''6'' (\<lambda>_. demo_env 12 True) st ''acme'' 1 ''a1'' (new_cache []))
         = Inr (row, st') \<and> pt_version row = 2 \<and> active_row st' ''acme'' = Inr (Some row)"
proof -
  obtain st where w: "store_step demo_codec strict_coercion toy_digest (fresh_world demo_tenants) ((fresh_world demo_tenants)\<lparr>w_store := st\<rparr>)"
    and row: "st_policies st = [demo_row]" using demo_publish_steps by blast
  have mem: "demo_row \<in> set (st_policies (w_store ((fresh_world demo_tenants)\<lparr>w_store := st\<rparr>)))" using row by simp
  have len: "length (versions_of ''acme'' (st_policies st)) = 1" using row by (simp add: versions_of_def)
  have cache: "w_cache (fresh_world ts) = new_cache []" for ts by (simp add: fresh_world_def)
  obtain r where r: "snd (rollback_to demo_codec strict_coercion toy_digest ''5'' ''6'' (\<lambda>_. demo_env 12 True) st ''acme'' 1 ''a1'' (new_cache [])) = r"
    by blast
  from rollback_restores_policy [OF demo_reads_back demo_strips_back strict_coerces toy_digest_length demo_flat
      r_into_rtranclp [of "store_step demo_codec strict_coercion toy_digest", OF w] mem,
      of "''5''" "''6''" "\<lambda>_. demo_env 12 True" "''a1''"]
  have "case r of Inr (row, st') \<Rightarrow> pt_version row = 2 \<and> active_row st' ''acme'' = Inr (Some row) | Inl err \<Rightarrow> False"
    by (simp add: len cache) (auto simp: r len demo_tenants_def split: sum.splits)
  then obtain row st' where "r = Inr (row, st')" "pt_version row = 2" "active_row st' ''acme'' = Inr (Some row)"
    by (cases r) (auto split: prod.splits)
  with row r show ?thesis by blast
qed

end
