(* ===== verification/GwLedger.thy ===== *)
theory GwLedger
  imports HashChain
begin

text \<open>
  The gateway's evidence ledger (\<^verbatim>\<open>gateway/ledger/chain.py\<close>): records, the refusal of payloads
  that could hold a raw value, the two stores behind the \<open>LedgerStore\<close> interface, and the
  \<open>append\<close> and \<open>verify\<close> operations of \<open>Ledger\<close>. SHA-256 is the parameter \<open>H\<close>. The asyncio lock makes
  one \<open>append\<close> atomic, so an append is one function on the store's state. A JSONL line is the
  record it holds (each line is written and read back by the JSON library).
\<close>

section \<open>Errors and records\<close>

datatype gl_error =
    LedgerTampering int string
  | UnsafeLedgerPayload string
  | BadHex \<comment> \<open>the \<open>ValueError\<close> of \<open>bytes.fromhex\<close>\<close>

definition FORBIDDEN_KEYS :: "string set" where
  "FORBIDDEN_KEYS = {''text'', ''value'', ''content'', ''span_text'', ''raw'', ''original'', ''sample'',
     ''secret'', ''plaintext'', ''body''}"

definition lower_key :: "string \<Rightarrow> string" where
  \<comment> \<open>\<open>k.lower()\<close> on the ASCII bytes; no other code point lowers to a letter of a forbidden key\<close>
  "lower_key k = map (\<lambda>c. char_of (to_lower (of_char c))) k"

definition key_path :: "string \<Rightarrow> string \<Rightarrow> string" where
  "key_path path k = (if path = [] then k else path @ ''.'' @ k)"

fun assert_safe :: "string \<Rightarrow> (string \<times> json) list \<Rightarrow> gl_error + unit"
  and assert_safe_value :: "string \<Rightarrow> json \<Rightarrow> gl_error + unit"
  and assert_safe_items :: "string \<Rightarrow> nat \<Rightarrow> json list \<Rightarrow> gl_error + unit" where
  "assert_safe path [] = Inr ()"
| "assert_safe path ((k, v) # kvs) =
     (if lower_key k \<in> FORBIDDEN_KEYS then Inl (UnsafeLedgerPayload (key_path path k))
      else rbind (assert_safe_value (key_path path k) v) (\<lambda>_. assert_safe path kvs))"
| "assert_safe_value here (JObj kvs) = assert_safe here kvs"
| "assert_safe_value here (JList js) = assert_safe_items here 0 js"
| "assert_safe_value here _ = Inr ()"
| "assert_safe_items here i [] = Inr ()"
| "assert_safe_items here i (JObj kvs # js) =
     rbind (assert_safe (here @ ''['' @ pr_nat i @ '']'') kvs) (\<lambda>_. assert_safe_items here (Suc i) js)"
| "assert_safe_items here i (_ # js) = assert_safe_items here (Suc i) js"

record gl_record =
  gr_id :: int
  gr_tenant_id :: string
  gr_event_type :: string
  gr_payload :: "(string \<times> json) list"
  gr_ts :: string
  gr_prev_hash :: string
  gr_record_hash :: string

definition genesis :: "(string \<Rightarrow> string) \<Rightarrow> string \<Rightarrow> string" where
  "genesis H tenant_id = H (tenant_id @ ''zerotrace-genesis'')"

definition hash_body :: "string \<Rightarrow> string \<Rightarrow> (string \<times> json) list \<Rightarrow> string \<Rightarrow> string" where
  "hash_body tenant_id event_type payload ts =
     canonical_json (JObj [(''tenant_id'', JStr tenant_id), (''event_type'', JStr event_type),
       (''payload'', JObj payload), (''ts'', JStr ts)])"

definition hash_for :: "(string \<Rightarrow> string) \<Rightarrow> string \<Rightarrow> string \<Rightarrow> (string \<times> json) list \<Rightarrow> string \<Rightarrow> string \<Rightarrow> string" where
  "hash_for H tenant_id event_type payload ts prev = H (prev @ hash_body tenant_id event_type payload ts)"

section \<open>Stores\<close>

record 'st store_ops =
  so_append :: "'st \<Rightarrow> gl_record \<Rightarrow> 'st"
  so_read :: "'st \<Rightarrow> string \<Rightarrow> gl_record list"
  so_head :: "'st \<Rightarrow> string \<Rightarrow> gl_error + (int \<times> string) option"

definition head_of :: "gl_record list \<Rightarrow> gl_error + (int \<times> string) option" where
  "head_of rows =
     (if rows = [] then Inr None
      else case from_hex (gr_record_hash (last rows)) of
             None \<Rightarrow> Inl BadHex
           | Some h \<Rightarrow> Inr (Some (gr_id (last rows), h)))"

type_synonym mem_state = "string \<rightharpoonup> gl_record list"

definition mem_append :: "mem_state \<Rightarrow> gl_record \<Rightarrow> mem_state" where
  "mem_append st r = st(gr_tenant_id r \<mapsto> (case st (gr_tenant_id r) of None \<Rightarrow> [r] | Some rows \<Rightarrow> rows @ [r]))"

definition mem_read :: "mem_state \<Rightarrow> string \<Rightarrow> gl_record list" where
  "mem_read st t = (case st t of None \<Rightarrow> [] | Some rows \<Rightarrow> rows)"

definition mem_head :: "mem_state \<Rightarrow> string \<Rightarrow> gl_error + (int \<times> string) option" where
  "mem_head st t =
     (case st t of
        None \<Rightarrow> Inr None
      | Some rows \<Rightarrow> if rows = [] then Inr None
          else case from_hex (gr_record_hash (last rows)) of
                 None \<Rightarrow> Inl BadHex | Some h \<Rightarrow> Inr (Some (gr_id (last rows), h)))"

definition mem_ops :: "mem_state store_ops" where
  "mem_ops = \<lparr>so_append = mem_append, so_read = mem_read, so_head = mem_head\<rparr>"

definition safe_char :: "char \<Rightarrow> bool" where
  "safe_char c \<longleftrightarrow> is_alnum (of_char c) \<or> c \<in> set ''-_''"

definition jsonl_path :: "string \<Rightarrow> string" where
  \<comment> \<open>the file of a tenant, for tenant ids in ASCII\<close>
  "jsonl_path tenant_id = map (\<lambda>c. if safe_char c then c else CHR ''_'') tenant_id @ ''.jsonl''"

type_synonym jsonl_dir = "string \<rightharpoonup> gl_record list"

definition jsonl_append :: "jsonl_dir \<Rightarrow> gl_record \<Rightarrow> jsonl_dir" where
  "jsonl_append dir r =
     (let p = jsonl_path (gr_tenant_id r)
      in dir(p \<mapsto> (case dir p of None \<Rightarrow> [] | Some ls \<Rightarrow> ls) @ [r]))"

definition jsonl_read :: "jsonl_dir \<Rightarrow> string \<Rightarrow> gl_record list" where
  "jsonl_read dir t = (case dir (jsonl_path t) of None \<Rightarrow> [] | Some ls \<Rightarrow> ls)"

definition jsonl_head :: "jsonl_dir \<Rightarrow> string \<Rightarrow> gl_error + (int \<times> string) option" where
  "jsonl_head dir t =
     (case foldl (\<lambda>_ r. Some r) None (jsonl_read dir t) of
        None \<Rightarrow> Inr None
      | Some r \<Rightarrow> (case from_hex (gr_record_hash r) of None \<Rightarrow> Inl BadHex | Some h \<Rightarrow> Inr (Some (gr_id r, h))))"

definition jsonl_ops :: "jsonl_dir store_ops" where
  "jsonl_ops = \<lparr>so_append = jsonl_append, so_read = jsonl_read, so_head = jsonl_head\<rparr>"

section \<open>The ledger's operations\<close>

definition ledger_append :: "(string \<Rightarrow> string) \<Rightarrow> 'st store_ops \<Rightarrow> string \<Rightarrow> string \<Rightarrow> string
    \<Rightarrow> (string \<times> json) list \<Rightarrow> 'st \<Rightarrow> gl_error + (gl_record \<times> 'st)" where
  \<comment> \<open>\<open>now\<close> is what the injected clock returns\<close>
  "ledger_append H ops now tenant_id event_type payload st =
     rbind (assert_safe [] payload) (\<lambda>_.
     rbind (so_head ops st tenant_id) (\<lambda>head.
       let prev = (case head of Some h \<Rightarrow> snd h | None \<Rightarrow> genesis H tenant_id);
           next_id = (case head of Some h \<Rightarrow> fst h + 1 | None \<Rightarrow> 1);
           digest = hash_for H tenant_id event_type payload now prev;
           r = \<lparr>gr_id = next_id, gr_tenant_id = tenant_id, gr_event_type = event_type,
                gr_payload = payload, gr_ts = now, gr_prev_hash = to_hex prev,
                gr_record_hash = to_hex digest\<rparr>
       in Inr (r, so_append ops st r)))"

fun verify_loop :: "(string \<Rightarrow> string) \<Rightarrow> string \<Rightarrow> int \<Rightarrow> nat \<Rightarrow> gl_record list \<Rightarrow> gl_error + nat" where
  "verify_loop H prev expect_id n [] = Inr n"
| "verify_loop H prev expect_id n (r # rs) =
     (if gr_id r \<noteq> expect_id then
        Inl (LedgerTampering (gr_id r) (''expected record '' @ pr_int expect_id @ '' (gap or reorder)''))
      else if gr_prev_hash r \<noteq> to_hex prev then
        Inl (LedgerTampering (gr_id r) ''prev_hash does not match the record before it'')
      else
        let digest = hash_for H (gr_tenant_id r) (gr_event_type r) (gr_payload r) (gr_ts r) prev in
        if to_hex digest \<noteq> gr_record_hash r then
          Inl (LedgerTampering (gr_id r) ''record_hash does not match its contents'')
        else verify_loop H digest (expect_id + 1) (n + 1) rs)"

definition ledger_verify :: "(string \<Rightarrow> string) \<Rightarrow> 'st store_ops \<Rightarrow> 'st \<Rightarrow> string \<Rightarrow> gl_error + nat" where
  "ledger_verify H ops st tenant_id = verify_loop H (genesis H tenant_id) 1 0 (so_read ops st tenant_id)"

definition head_hash :: "(string \<Rightarrow> string) \<Rightarrow> 'st store_ops \<Rightarrow> 'st \<Rightarrow> string \<Rightarrow> gl_error + string" where
  "head_hash H ops st tenant_id =
     rbind (so_head ops st tenant_id) (\<lambda>head.
       Inr (to_hex (case head of Some h \<Rightarrow> snd h | None \<Rightarrow> genesis H tenant_id)))"

section \<open>What a verified chain is\<close>

definition unhex :: "string \<Rightarrow> string" where
  "unhex s = the (from_hex s)"

lemma unhex_to_hex [simp]: "unhex (to_hex b) = b"
  by (simp add: unhex_def)

definition gr_body :: "gl_record \<Rightarrow> string" where
  "gr_body r = hash_body (gr_tenant_id r) (gr_event_type r) (gr_payload r) (gr_ts r)"

abbreviation gr_linked :: "(string \<Rightarrow> string) \<Rightarrow> string \<Rightarrow> gl_record list \<Rightarrow> bool" where
  "gr_linked H g rs \<equiv> linked H (\<lambda>r. unhex (gr_prev_hash r)) (\<lambda>r. unhex (gr_record_hash r)) gr_body g rs"

definition hex_fields :: "gl_record \<Rightarrow> bool" where
  "hex_fields r \<longleftrightarrow> to_hex (unhex (gr_prev_hash r)) = gr_prev_hash r \<and> to_hex (unhex (gr_record_hash r)) = gr_record_hash r"

lemma hash_for_link: "hash_for H (gr_tenant_id r) (gr_event_type r) (gr_payload r) (gr_ts r) prev = link H prev (gr_body r)"
  by (simp add: hash_for_def link_def gr_body_def)

lemma verify_loop_iff:
  "verify_loop H prev e n rs = Inr m \<longleftrightarrow>
     gr_linked H prev rs \<and> list_all hex_fields rs \<and> (\<forall>i < length rs. gr_id (rs ! i) = e + int i)
     \<and> m = n + length rs"
proof (induction rs arbitrary: prev e n)
  case (Cons r rs)
  have ids: "(\<forall>i < length (r # rs). gr_id ((r # rs) ! i) = e + int i) \<longleftrightarrow>
      gr_id r = e \<and> (\<forall>i < length rs. gr_id (rs ! i) = (e + 1) + int i)"
    by (auto simp: less_Suc_eq_0_disj algebra_simps)
  let ?d = "link H prev (gr_body r)"
  show ?case
  proof (cases "gr_id r = e \<and> gr_prev_hash r = to_hex prev \<and> to_hex ?d = gr_record_hash r")
    case True
    then have "unhex (gr_prev_hash r) = prev" "unhex (gr_record_hash r) = ?d" by (auto dest: sym)
    with True show ?thesis unfolding ids
      by (auto simp: Cons.IH hash_for_link Let_def hex_fields_def)
  next
    case False
    then show ?thesis unfolding ids
      by (auto simp: hash_for_link Let_def hex_fields_def)
  qed
qed auto

lemma verify_loop_append:
  "verify_loop H prev e n (rs @ ss) =
     rbind (verify_loop H prev e n rs)
       (\<lambda>m. verify_loop H (chain_head (\<lambda>r. unhex (gr_record_hash r)) prev rs) (e + int (length rs)) m ss)"
proof (induction rs arbitrary: prev e n)
  case (Cons r rs)
  have "to_hex d = gr_record_hash r \<Longrightarrow>
      chain_head (\<lambda>r. unhex (gr_record_hash r)) prev (r # rs) = chain_head (\<lambda>r. unhex (gr_record_hash r)) d rs" for d
    by (auto simp: chain_head_def unhex_def dest: sym)
  then show ?case by (auto simp: Cons.IH Let_def algebra_simps)
qed (simp add: chain_head_def)


lemma verify_loop_take: "verify_loop H prev e n rs = Inr m \<Longrightarrow> \<exists>j. verify_loop H prev e n (take k rs) = Inr j"
  using verify_loop_append [of H prev e n "take k rs" "drop k rs"]
  by (cases "verify_loop H prev e n (take k rs)") simp_all

lemma verify_loop_count: "verify_loop H prev e n rs = Inr m \<Longrightarrow> m = n + length rs"
  by (simp add: verify_loop_iff)

section \<open>The store interface\<close>

text \<open>
  What \<open>Ledger\<close> needs of a \<open>LedgerStore\<close>: the head is the last record read, and an appended record is
  read back last for its tenant and disturbs no other tenant. \<open>ok\<close> names the tenant ids for which the
  store promises this.
\<close>

locale ledger_store =
  fixes ops :: "'st store_ops" and ok :: "string \<Rightarrow> bool"
  assumes head_read: "so_head ops st t = head_of (so_read ops st t)"
    and read_append: "ok t \<Longrightarrow> ok (gr_tenant_id r) \<Longrightarrow>
      so_read ops (so_append ops st r) t = (if t = gr_tenant_id r then so_read ops st t @ [r] else so_read ops st t)"
begin

lemma head_of_verified:
  assumes "ledger_verify H ops st t = Inr n"
  shows "so_head ops st t = Inr (if n = 0 then None else
    Some (int n, chain_head (\<lambda>r. unhex (gr_record_hash r)) (genesis H t) (so_read ops st t)))"
proof -
  let ?rs = "so_read ops st t"
  from assms have v: "list_all hex_fields ?rs" "\<forall>i < length ?rs. gr_id (?rs ! i) = 1 + int i" "n = length ?rs"
    by (simp_all add: ledger_verify_def verify_loop_iff)
  show ?thesis
  proof (cases "?rs = []")
    case True
    with v show ?thesis by (simp add: head_read head_of_def)
  next
    case False
    with v have "hex_fields (last ?rs)" "gr_id (last ?rs) = int n"
      by (auto simp: list_all_iff last_conv_nth of_nat_diff Suc_leI)
    moreover from this(1) have "from_hex (gr_record_hash (last ?rs)) = Some (unhex (gr_record_hash (last ?rs)))"
      unfolding hex_fields_def by (metis from_hex_to_hex)
    ultimately show ?thesis using False v(3) by (simp add: head_read head_of_def chain_head_def)
  qed
qed

lemma append_verified:
  assumes "ok t" "ledger_verify H ops st t = Inr n" "assert_safe [] p = Inr ()"
  shows "\<exists>r st'. ledger_append H ops now t ev p st = Inr (r, st')
    \<and> gr_id r = int n + 1 \<and> gr_tenant_id r = t \<and> gr_event_type r = ev \<and> gr_payload r = p \<and> gr_ts r = now
    \<and> so_read ops st' t = so_read ops st t @ [r]
    \<and> ledger_verify H ops st' t = Inr (Suc n)
    \<and> (\<forall>u. ok u \<and> u \<noteq> t \<longrightarrow> so_read ops st' u = so_read ops st u)"
proof -
  let ?h = "chain_head (\<lambda>r. unhex (gr_record_hash r)) (genesis H t) (so_read ops st t)"
  have n: "n = length (so_read ops st t)"
    using assms(2) verify_loop_count by (fastforce simp: ledger_verify_def)
  have prev: "(case (if n = 0 then None else Some (int n, ?h)) of Some h \<Rightarrow> snd h | None \<Rightarrow> genesis H t) = ?h"
    using n by (auto simp: chain_head_def)
  have nid: "(case (if n = 0 then None else Some (int n, ?h)) of Some h \<Rightarrow> fst h + 1 | None \<Rightarrow> 1) = int n + 1"
    by auto
  define r where "r = \<lparr>gr_id = int n + 1, gr_tenant_id = t, gr_event_type = ev, gr_payload = p, gr_ts = now,
    gr_prev_hash = to_hex ?h, gr_record_hash = to_hex (hash_for H t ev p now ?h)\<rparr>"
  have app: "ledger_append H ops now t ev p st = Inr (r, so_append ops st r)"
    unfolding ledger_append_def assms(3) head_of_verified [OF assms(2)] by (simp add: Let_def prev nid r_def)
  have rd: "so_read ops (so_append ops st r) u = (if u = t then so_read ops st t @ [r] else so_read ops st u)"
    if "ok u" for u using read_append [OF that, of r st] assms(1) by (simp add: r_def)
  have rd_t: "so_read ops (so_append ops st r) t = so_read ops st t @ [r]"
    using rd assms(1) by simp
  have "ledger_verify H ops (so_append ops st r) t = Inr (Suc n)"
    using assms(2) unfolding ledger_verify_def rd_t verify_loop_append
    by (simp add: n [symmetric] Let_def) (simp add: r_def)
  with app rd assms(1) show ?thesis by (auto simp: r_def)
qed

end

definition jsonl_ok :: "string \<Rightarrow> bool" where
  \<comment> \<open>tenant ids that are their own file name\<close>
  "jsonl_ok t \<longleftrightarrow> list_all safe_char t"

lemma jsonl_path_ok: "jsonl_ok t \<Longrightarrow> jsonl_path t = t @ ''.jsonl''"
  by (simp add: jsonl_ok_def jsonl_path_def list_all_iff map_idI)

lemma foldl_last: "foldl (\<lambda>_ r. Some r) a rs = (if rs = [] then a else Some (last rs))"
  by (induction rs arbitrary: a) auto

interpretation mem: ledger_store mem_ops "\<lambda>_. True"
  by unfold_locales
    (auto simp: mem_ops_def mem_read_def mem_append_def mem_head_def head_of_def split: option.splits)

interpretation jsonl: ledger_store jsonl_ops jsonl_ok
proof
  show "so_head jsonl_ops st t = head_of (so_read jsonl_ops st t)" for st t
    by (simp add: jsonl_ops_def jsonl_head_def head_of_def foldl_last)
  show "so_read jsonl_ops (so_append jsonl_ops st r) t =
      (if t = gr_tenant_id r then so_read jsonl_ops st t @ [r] else so_read jsonl_ops st t)"
    if "jsonl_ok t" "jsonl_ok (gr_tenant_id r)" for st t r
    using that by (auto simp: jsonl_ops_def jsonl_read_def jsonl_append_def Let_def jsonl_path_ok split: option.splits)
qed


section \<open>Which payloads are refused\<close>

fun all_keys :: "json \<Rightarrow> string set" where
  "all_keys (JObj kvs) = fst ` set kvs \<union> (\<Union>kv \<in> set kvs. all_keys (snd kv))"
| "all_keys (JList js) = (\<Union>j \<in> set js. all_keys j)"
| "all_keys _ = {}"

fun is_list :: "json \<Rightarrow> bool" where
  "is_list (JList _) = True" | "is_list _ = False"

fun no_nested_lists :: "json \<Rightarrow> bool" where
  "no_nested_lists (JObj kvs) = (\<forall>kv \<in> set kvs. no_nested_lists (snd kv))"
| "no_nested_lists (JList js) = (\<forall>j \<in> set js. \<not> is_list j \<and> no_nested_lists j)"
| "no_nested_lists _ = True"

lemma assert_safe_keys:
  "no_nested_lists (JObj kvs) \<Longrightarrow> assert_safe path kvs = Inr () \<longleftrightarrow>
     (\<forall>k \<in> all_keys (JObj kvs). lower_key k \<notin> FORBIDDEN_KEYS)"
  "no_nested_lists v \<Longrightarrow> assert_safe_value here v = Inr () \<longleftrightarrow> (\<forall>k \<in> all_keys v. lower_key k \<notin> FORBIDDEN_KEYS)"
  "\<forall>j \<in> set js. \<not> is_list j \<and> no_nested_lists j \<Longrightarrow>
     assert_safe_items here i js = Inr () \<longleftrightarrow> (\<forall>j \<in> set js. \<forall>k \<in> all_keys j. lower_key k \<notin> FORBIDDEN_KEYS)"
proof (induction path kvs and here v and here i js rule: assert_safe_assert_safe_value_assert_safe_items.induct)
  case (2 path k v kvs)
  then show ?case by (auto simp: rbind_Inr_iff)
qed (auto simp: rbind_Inr_iff)

lemma ledger_append_accepts:
  "ledger_append H ops now t ev p st = Inr (r, st') \<Longrightarrow> assert_safe [] p = Inr () \<and> gr_payload r = p"
  by (auto simp: ledger_append_def rbind_Inr_iff Let_def)

text \<open>A record the ledger accepts carries its caller's payload unchanged, and when no list of the
  payload directly contains another list, no key at any depth of it is one of the forbidden names,
  in any capitalisation.\<close>

theorem accepted_payload_has_no_raw_field:
  assumes "ledger_append H ops now t ev p st = Inr (r, st')" "no_nested_lists (JObj p)"
  shows "gr_payload r = p \<and> (\<forall>k \<in> all_keys (JObj (gr_payload r)). lower_key k \<notin> FORBIDDEN_KEYS)"
  using assert_safe_keys(1) [OF assms(2), of "[]"] ledger_append_accepts [OF assms(1)] by simp

definition toy_hash :: "string \<Rightarrow> string" where
  \<comment> \<open>a concrete digest of four bytes, used only to evaluate examples\<close>
  "toy_hash x = take 4 (rev x @ replicate 4 (CHR 0x00))"

lemma accepted_payload_has_no_raw_field_witness:
  "\<exists>r st'. ledger_append toy_hash mem_ops ''now'' ''t'' ''ev'' [(''path'', JStr ''$.a''), (''n'', JList [JInt 3])] Map.empty = Inr (r, st')
     \<and> no_nested_lists (JObj [(''path'', JStr ''$.a''), (''n'', JList [JInt 3])])
     \<and> (\<forall>k \<in> all_keys (JObj (gr_payload r)). lower_key k \<notin> FORBIDDEN_KEYS)"
proof -
  let ?p = "[(''path'', JStr ''$.a''), (''n'', JList [JInt 3])]"
  have "assert_safe [] ?p = Inr ()" by code_simp
  then obtain r st' where "ledger_append toy_hash mem_ops ''now'' ''t'' ''ev'' ?p Map.empty = Inr (r, st')"
    by (simp add: ledger_append_def mem_ops_def mem_head_def Let_def)
  with accepted_payload_has_no_raw_field [OF this] show ?thesis by auto
qed

lemma nested_list_payload_is_accepted:
  "assert_safe [] [(''a'', JList [JList [JObj [(''secret'', JStr s)]]])] = Inr ()"
  by (simp add: FORBIDDEN_KEYS_def lower_key_def char_defs)


section \<open>Histories\<close>

type_synonym gl_request = "string \<times> string \<times> (string \<times> json) list \<times> string"

definition ledger_step :: "(string \<Rightarrow> string) \<Rightarrow> 'st store_ops \<Rightarrow> 'st \<Rightarrow> gl_request \<Rightarrow> 'st" where
  \<comment> \<open>one request; a refused one raises in its caller and leaves the store alone\<close>
  "ledger_step H ops st req =
     (case req of (t, ev, p, now) \<Rightarrow>
        (case ledger_append H ops now t ev p st of Inl _ \<Rightarrow> st | Inr (_, st') \<Rightarrow> st'))"

definition ledger_run :: "(string \<Rightarrow> string) \<Rightarrow> 'st store_ops \<Rightarrow> 'st \<Rightarrow> gl_request list \<Rightarrow> 'st" where
  "ledger_run H ops = foldl (ledger_step H ops)"

definition accepted :: "gl_request \<Rightarrow> bool" where
  "accepted req \<longleftrightarrow> (case req of (t, ev, p, now) \<Rightarrow> assert_safe [] p = Inr ())"

lemma accepted_refused: "\<not> accepted (t, ev, p, now) \<Longrightarrow> \<exists>e. ledger_append H ops now t ev p st = Inl e"
  by (cases "assert_safe [] p") (auto simp: accepted_def ledger_append_def)

context ledger_store
begin

lemma run_verified:
  assumes "\<forall>t. ok t \<longrightarrow> so_read ops st0 t = []" "\<forall>req \<in> set reqs. ok (fst req)" "ok t"
  shows "ledger_verify H ops (ledger_run H ops st0 reqs) t
      = Inr (length (filter (\<lambda>req. fst req = t \<and> accepted req) reqs))"
  using assms(2,3)
proof (induction reqs arbitrary: t rule: rev_induct)
  case Nil
  with assms(1) show ?case by (simp add: ledger_run_def ledger_verify_def)
next
  case (snoc req reqs)
  obtain u ev p now where req: "req = (u, ev, p, now)" by (metis prod_cases4)
  let ?st = "ledger_run H ops st0 reqs"
  have step: "ledger_run H ops st0 (reqs @ [req]) = ledger_step H ops ?st req" by (simp add: ledger_run_def)
  have oku: "ok u" and IH: "\<And>v. ok v \<Longrightarrow> ledger_verify H ops ?st v
      = Inr (length (filter (\<lambda>req. fst req = v \<and> accepted req) reqs))"
    using snoc by (auto simp: req)
  show ?case
  proof (cases "accepted req")
    case False
    then obtain e where "ledger_append H ops now u ev p ?st = Inl e"
      using accepted_refused [of u ev p now H ops ?st] unfolding req by blast
    with False IH [OF snoc.prems(2)] show ?thesis unfolding step by (simp add: ledger_step_def req)
  next
    case True
    then have "assert_safe [] p = Inr ()" by (simp add: accepted_def req)
    from append_verified [OF oku IH [OF oku] this] obtain r st' where
      app: "ledger_append H ops now u ev p ?st = Inr (r, st')"
      and same: "ledger_verify H ops st' u = Inr (Suc (length (filter (\<lambda>req. fst req = u \<and> accepted req) reqs)))"
      and other: "\<forall>v. ok v \<and> v \<noteq> u \<longrightarrow> so_read ops st' v = so_read ops ?st v"
      by blast
    show ?thesis
    proof (cases "t = u")
      case True
      with app same \<open>accepted req\<close> show ?thesis unfolding step by (simp add: ledger_step_def req)
    next
      case False
      with other snoc.prems(2) have "ledger_verify H ops st' t = ledger_verify H ops ?st t"
        by (simp add: ledger_verify_def)
      with app False IH [OF snoc.prems(2)] show ?thesis unfolding step by (auto simp: ledger_step_def req)
    qed
  qed
qed

end

text \<open>Whatever requests an in-memory ledger is given, from any tenants in any order, the chain of
  every tenant verifies at the end, and \<open>verify\<close> returns exactly the number of that tenant's requests
  whose payload was accepted.\<close>

theorem every_history_verifies:
  "ledger_verify H mem_ops (ledger_run H mem_ops Map.empty reqs) t
     = Inr (length (filter (\<lambda>req. fst req = t \<and> accepted req) reqs))"
  by (rule mem.run_verified) (simp_all add: mem_ops_def mem_read_def)

text \<open>C37. Whatever requests the file-backed ledger of the application is given, from any tenants in any order, the chain
  of every tenant verifies at the end, and \<open>verify\<close> returns exactly the number of that tenant's requests whose
  payload was accepted, provided that tenant ids consist of letters, digits, hyphens and underscores, so that
  no two tenants share a file.\<close>

theorem jsonl_history_verifies:
  assumes "\<forall>req \<in> set reqs. jsonl_ok (fst req)" "jsonl_ok t"
  shows "ledger_verify H jsonl_ops (ledger_run H jsonl_ops Map.empty reqs) t
     = Inr (length (filter (\<lambda>req. fst req = t \<and> accepted req) reqs))"
  by (rule jsonl.run_verified [OF _ assms]) (simp add: jsonl_ops_def jsonl_read_def)

lemma jsonl_history_verifies_witness:
  "ledger_verify toy_hash jsonl_ops (ledger_run toy_hash jsonl_ops Map.empty
     [(''t-1'', ''e'', [(''n'', JInt 1)], ''now''), (''t_2'', ''e'', [], ''now''), (''t-1'', ''e'', [(''Text'', JNull)], ''now'')]) ''t-1''
     = Inr 1"
proof -
  let ?reqs = "[(''t-1'', ''e'', [(''n'', JInt 1)], ''now''), (''t_2'', ''e'', [], ''now''), (''t-1'', ''e'', [(''Text'', JNull)], ''now'')]"
  have ok: "\<forall>req \<in> set ?reqs. jsonl_ok (fst req)" "jsonl_ok ''t-1''" by code_simp+
  have "length (filter (\<lambda>req. fst req = ''t-1'' \<and> accepted req) ?reqs) = 1" by code_simp
  then show ?thesis using jsonl_history_verifies [OF ok, of toy_hash] by simp
qed

lemma jsonl_tenants_share_a_file:
  "ledger_verify H jsonl_ops (ledger_run H jsonl_ops Map.empty [(''a/b'', ''e'', [], ''now''), (''a_b'', ''e'', [], ''now'')]) ''a/b''
     = Inr 2"
proof -
  have path: "jsonl_path ''a/b'' = ''a_b.jsonl''" "jsonl_path ''a_b'' = ''a_b.jsonl''" by code_simp+
  show ?thesis
    by (simp add: ledger_run_def ledger_step_def ledger_append_def jsonl_ops_def jsonl_head_def jsonl_read_def
        jsonl_append_def ledger_verify_def path Let_def)
qed


section \<open>Tampering\<close>

text \<open>
  Tampering is a change of the stored rows behind the ledger's back. SHA-256 is not assumed to be
  injective, only to give digests of one length: where a change could go unnoticed, the walk over the
  two ledgers has hashed two different byte strings to the same digest.
\<close>

definition walked :: "gl_record list \<Rightarrow> string set" where
  \<comment> \<open>the byte strings \<open>verify\<close> hashes on the way\<close>
  "walked rs = link_inputs (\<lambda>r. unhex (gr_prev_hash r)) gr_body rs"

definition same_evidence :: "gl_record \<Rightarrow> gl_record \<Rightarrow> bool" where
  \<comment> \<open>equal up to the order of keys in the payload\<close>
  "same_evidence r s \<longleftrightarrow> gr_id r = gr_id s \<and> gr_tenant_id r = gr_tenant_id s \<and> gr_event_type r = gr_event_type s
     \<and> gr_ts r = gr_ts s \<and> sort_keys (JObj (gr_payload r)) = sort_keys (JObj (gr_payload s))"

definition payload_wf :: "gl_record \<Rightarrow> bool" where
  "payload_wf r \<longleftrightarrow> json_wf (JObj (gr_payload r))"

lemma gr_body_inj:
  assumes "gr_body r = gr_body s" "payload_wf r" "payload_wf s"
  shows "gr_tenant_id r = gr_tenant_id s \<and> gr_event_type r = gr_event_type s \<and> gr_ts r = gr_ts s
    \<and> sort_keys (JObj (gr_payload r)) = sort_keys (JObj (gr_payload s))"
  using canonical_record_inj [OF assms(1) [unfolded gr_body_def hash_body_def] assms(2,3) [unfolded payload_wf_def]] by simp

lemma mem_verify_rows:
  "st t = Some rows \<Longrightarrow> ledger_verify H mem_ops st t = verify_loop H (genesis H t) 1 0 rows"
  by (simp add: ledger_verify_def mem_ops_def mem_read_def)

lemma mem_verified:
  assumes "ledger_verify H mem_ops st t = Inr n"
  shows "gr_linked H (genesis H t) (mem_read st t)" "list_all hex_fields (mem_read st t)"
    "\<forall>i < n. gr_id (mem_read st t ! i) = int i + 1" "length (mem_read st t) = n"
  using assms by (auto simp: ledger_verify_def mem_ops_def verify_loop_iff)

lemma mem_head_hash:
  assumes "ledger_verify H mem_ops st t = Inr n"
  shows "head_hash H mem_ops st t
    = Inr (to_hex (chain_head (\<lambda>r. unhex (gr_record_hash r)) (genesis H t) (mem_read st t)))"
  using mem.head_of_verified [OF assms] mem_verified(4) [OF assms]
  by (auto simp: head_hash_def mem_ops_def chain_head_def)

text \<open>Two in-memory ledgers that both verify for a tenant, with the same number of records and the
  same head hash, hold the same evidence record by record - the same ids, tenants, events, times and
  payloads up to the order of keys - or the two walks exhibit two different byte strings with the
  same digest.\<close>

theorem equal_heads_equal_evidence:
  assumes "ledger_verify H mem_ops st t = Inr n" "ledger_verify H mem_ops st' t = Inr n"
    and "head_hash H mem_ops st t = head_hash H mem_ops st' t"
    and "\<And>x. length (H x) = d"
    and "list_all payload_wf (mem_read st t)" "list_all payload_wf (mem_read st' t)"
  shows "list_all2 same_evidence (mem_read st t) (mem_read st' t)
    \<or> collides H (walked (mem_read st t)) (walked (mem_read st' t))"
proof (cases "collides H (walked (mem_read st t)) (walked (mem_read st' t))")
  case False
  let ?rs = "mem_read st t" and ?ss = "mem_read st' t"
  note v = mem_verified [OF assms(1)] and w = mem_verified [OF assms(2)]
  have "chain_head (\<lambda>r. unhex (gr_record_hash r)) (genesis H t) ?rs
      = chain_head (\<lambda>r. unhex (gr_record_hash r)) (genesis H t) ?ss"
    using assms(3) mem_head_hash [OF assms(1)] mem_head_hash [OF assms(2)] by (auto dest: to_hex_inj)
  from linked_same_head [OF v(1) w(1) _ this assms(4)] False v(4) w(4)
  have bodies: "map gr_body ?rs = map gr_body ?ss"
    by (simp add: genesis_def assms(4) walked_def)
  have "same_evidence (?rs ! i) (?ss ! i)" if "i < n" for i
  proof -
    from that v(4) w(4) bodies have "gr_body (?rs ! i) = gr_body (?ss ! i)" by (metis nth_map)
    with gr_body_inj [OF this] assms(5,6) that v(3,4) w(3,4) show ?thesis
      by (auto simp: same_evidence_def list_all_length)
  qed
  with v(4) w(4) show ?thesis by (simp add: list_all2_conv_all_nth)
qed simp


definition demo_requests :: "(string \<times> json) list \<Rightarrow> gl_request list" where
  "demo_requests p = [(''t'', ''scan'', p, ''08:01''), (''t'', ''scan'', [], ''08:02''), (''u'', ''scan'', [], ''08:02''),
     (''t'', ''scan'', [], ''08:03'')]"

definition demo_ledger :: "nat \<Rightarrow> (string \<times> json) list \<Rightarrow> mem_state" where
  "demo_ledger n p = ledger_run toy_hash mem_ops Map.empty (take n (demo_requests p))"

lemma demo_ledger_verified:
  "ledger_verify toy_hash mem_ops (demo_ledger n p) t
     = Inr (length (filter (\<lambda>req. fst req = t \<and> accepted req) (take n (demo_requests p))))"
  unfolding demo_ledger_def by (rule mem.run_verified) (simp_all add: mem_ops_def mem_read_def)

lemma toy_hash_length: "length (toy_hash x) = 4"
  by (simp add: toy_hash_def)

lemma equal_heads_equal_evidence_witness:
  "list_all2 same_evidence (mem_read (demo_ledger 1 [(''a'', JInt 1), (''b'', JNull)]) ''t'')
      (mem_read (demo_ledger 1 [(''b'', JNull), (''a'', JInt 1)]) ''t'')
    \<or> collides toy_hash (walked (mem_read (demo_ledger 1 [(''a'', JInt 1), (''b'', JNull)]) ''t''))
        (walked (mem_read (demo_ledger 1 [(''b'', JNull), (''a'', JInt 1)]) ''t''))"
proof (rule equal_heads_equal_evidence [where n = 1 and d = 4])
  let ?s = "demo_ledger 1 [(''a'', JInt 1), (''b'', JNull)]" and ?t = "demo_ledger 1 [(''b'', JNull), (''a'', JInt 1)]"
  show "ledger_verify toy_hash mem_ops ?s ''t'' = Inr 1" "ledger_verify toy_hash mem_ops ?t ''t'' = Inr 1"
    unfolding demo_ledger_verified by code_simp+
  show "head_hash toy_hash mem_ops ?s ''t'' = head_hash toy_hash mem_ops ?t ''t''"
    by code_simp
  show "length (toy_hash x) = 4" for x by (rule toy_hash_length)
  show "list_all payload_wf (mem_read ?s ''t'')" "list_all payload_wf (mem_read ?t ''t'')"
    by code_simp+
qed

text \<open>Removing any record but the last from a verifying ledger is detected, whatever the digest
  function: \<open>verify\<close> stops at the record after the gap and names it.\<close>

theorem deleted_record_is_named:
  assumes "ledger_verify H mem_ops st t = Inr n" "Suc k < n" "st t = Some rows"
  shows "ledger_verify H mem_ops (st(t \<mapsto> take k rows @ drop (Suc k) rows)) t
    = Inl (LedgerTampering (int k + 2) (''expected record '' @ pr_int (int k + 1) @ '' (gap or reorder)''))"
proof -
  have rows: "mem_read st t = rows" using assms(3) by (simp add: mem_read_def)
  have v: "verify_loop H (genesis H t) 1 0 rows = Inr n"
    using assms(1) by (simp add: mem_verify_rows [of st t rows, OF assms(3)])
  note len = mem_verified(4) [OF assms(1), unfolded rows] and ids = mem_verified(3) [OF assms(1), unfolded rows]
  obtain m where pre: "verify_loop H (genesis H t) 1 0 (take k rows) = Inr m"
    using verify_loop_take [OF v] by blast
  have "drop (Suc k) rows = rows ! Suc k # drop (Suc (Suc k)) rows"
    using assms(2) len by (simp add: Cons_nth_drop_Suc)
  moreover have "gr_id (rows ! Suc k) = int k + 2" using ids assms(2) by auto
  ultimately show ?thesis
    using assms(2) len by (simp add: mem_verify_rows verify_loop_append pre algebra_simps)
qed

lemma deleted_record_is_named_witness:
  "ledger_verify toy_hash mem_ops ((demo_ledger 4 [])(''t'' \<mapsto>
       take 1 (the (demo_ledger 4 [] ''t'')) @ drop 2 (the (demo_ledger 4 [] ''t'')))) ''t''
     = Inl (LedgerTampering 3 ''expected record 2 (gap or reorder)'')"
proof -
  have ok: "ledger_verify toy_hash mem_ops (demo_ledger 4 []) ''t'' = Inr 3"
    unfolding demo_ledger_verified by code_simp
  then have some: "demo_ledger 4 [] ''t'' = Some (the (demo_ledger 4 [] ''t''))"
    by (cases "demo_ledger 4 [] ''t''") (auto dest: mem_verified(4) simp: mem_read_def)
  have "''expected record '' @ pr_int 2 @ '' (gap or reorder)'' = ''expected record 2 (gap or reorder)''" by code_simp
  then show ?thesis using deleted_record_is_named [OF ok _ some, of 1] by (simp add: numeral_2_eq_2)
qed

lemma truncated_ledger_verifies:
  assumes "ledger_verify H mem_ops st t = Inr n" "m \<le> n" "st t = Some rows"
  shows "ledger_verify H mem_ops (st(t \<mapsto> take m rows)) t = Inr m"
proof -
  have rows: "mem_read st t = rows" using assms(3) by (simp add: mem_read_def)
  from assms(1) obtain j where "verify_loop H (genesis H t) 1 0 (take m rows) = Inr j"
    using verify_loop_take [of H "genesis H t" 1 0 rows n m] by (auto simp: mem_verify_rows [of st t rows, OF assms(3)])
  moreover from verify_loop_count [OF this] assms(2) mem_verified(4) [OF assms(1)] rows have "j = m" by simp
  ultimately show ?thesis by (simp add: mem_verify_rows)
qed

text \<open>Changing what any record but the last says - its tenant, event, time or payload - is detected
  however its other fields are filled in, even when its own digest is recomputed: \<open>verify\<close> names the
  altered record or the one after it, or the walk exhibits two byte strings with the same digest.\<close>

theorem altered_record_is_named:
  assumes "ledger_verify H mem_ops st t = Inr n" "Suc k < n" "st t = Some rows"
    and "gr_body r \<noteq> gr_body (rows ! k)"
  shows "(\<exists>i why. ledger_verify H mem_ops (st(t \<mapsto> rows[k := r])) t = Inl (LedgerTampering i why)
      \<and> (i = gr_id r \<or> i = int k + 2))
    \<or> collides H (walked rows) (walked (rows[k := r]))"
proof -
  have rows: "mem_read st t = rows" using assms(3) by (simp add: mem_read_def)
  let ?h = "chain_head (\<lambda>r. unhex (gr_record_hash r)) (genesis H t) (take k rows)"
  have v: "verify_loop H (genesis H t) 1 0 rows = Inr n"
    using assms(1) by (simp add: mem_verify_rows [of st t rows, OF assms(3)])
  note len = mem_verified(4) [OF assms(1), unfolded rows]
  have cut: "rows = take k rows @ rows ! k # rows ! Suc k # drop (Suc (Suc k)) rows"
    using assms(2) len by (metis Cons_nth_drop_Suc Suc_lessD append_take_drop_id)
  have upd: "rows[k := r] = take k rows @ r # rows ! Suc k # drop (Suc (Suc k)) rows"
    using assms(2) len by (simp add: upd_conv_take_nth_drop Cons_nth_drop_Suc)
  obtain m where pre: "verify_loop H (genesis H t) 1 0 (take k rows) = Inr m"
    using verify_loop_take [OF v] by blast
  have mk: "min (length rows) k = k" using assms(2) len by simp
  have "verify_loop H ?h (1 + int k) m (rows ! k # rows ! Suc k # drop (Suc (Suc k)) rows) = Inr n"
    using v [unfolded arg_cong [OF cut, of "verify_loop H (genesis H t) 1 0"]]
    by (simp only: verify_loop_append pre rbind_simps length_take mk)
  then have old: "gr_prev_hash (rows ! k) = to_hex ?h"
      "gr_prev_hash (rows ! Suc k) = to_hex (H (?h @ gr_body (rows ! k)))" "gr_id (rows ! Suc k) = int k + 2"
    by (simp_all add: Let_def hash_for_link link_def split: if_splits)
  have new: "ledger_verify H mem_ops (st(t \<mapsto> rows[k := r])) t
      = verify_loop H ?h (1 + int k) m (r # rows ! Suc k # drop (Suc (Suc k)) rows)"
    by (subst mem_verify_rows [where rows = "rows[k := r]"], simp)
      (simp only: upd verify_loop_append pre rbind_simps length_take mk)
  show ?thesis
  proof (cases "gr_id r = int k + 1 \<and> gr_prev_hash r = to_hex ?h \<and> to_hex (H (?h @ gr_body r)) = gr_record_hash r")
    case False
    then show ?thesis unfolding new by (auto simp: Let_def hash_for_link link_def)
  next
    case alt: True
    show ?thesis
    proof (cases "H (?h @ gr_body r) = H (?h @ gr_body (rows ! k))")
      case True
      have "?h @ gr_body (rows ! k) \<in> walked rows"
        using old(1) len assms(2) unfolding walked_def link_inputs_def by (intro image_eqI [of _ _ "rows ! k"]) auto
      moreover have "?h @ gr_body r \<in> walked (rows[k := r])"
        using alt len assms(2) unfolding walked_def link_inputs_def
        by (intro image_eqI [of _ _ r]) (auto simp: set_update_memI)
      moreover have "?h @ gr_body (rows ! k) \<noteq> ?h @ gr_body r" using assms(4) by auto
      ultimately show ?thesis using True unfolding collides_def by metis
    next
      case False
      then have "to_hex (H (?h @ gr_body (rows ! k))) \<noteq> to_hex (H (?h @ gr_body r))" by (auto dest: to_hex_inj)
      with alt old show ?thesis unfolding new by (simp add: Let_def hash_for_link link_def)
    qed
  qed
qed

lemma altered_record_is_named_witness:
  "\<exists>rows. demo_ledger 4 [] ''t'' = Some rows
    \<and> ((\<exists>i why. ledger_verify toy_hash mem_ops ((demo_ledger 4 [])(''t'' \<mapsto> rows[0 := (rows ! 0)\<lparr>gr_ts := ''09:00''\<rparr>])) ''t''
          = Inl (LedgerTampering i why) \<and> (i = gr_id (rows ! 0) \<or> i = 2))
      \<or> collides toy_hash (walked rows) (walked (rows[0 := (rows ! 0)\<lparr>gr_ts := ''09:00''\<rparr>])))"
proof -
  have ok: "ledger_verify toy_hash mem_ops (demo_ledger 4 []) ''t'' = Inr 3"
    unfolding demo_ledger_verified by code_simp
  then obtain rows where some: "demo_ledger 4 [] ''t'' = Some rows"
    by (cases "demo_ledger 4 [] ''t''") (auto dest: mem_verified(4) simp: mem_read_def)
  have wf: "payload_wf (rows ! 0)" and ts: "gr_ts (rows ! 0) = ''08:01''"
    using some by (code_simp, auto)+
  have "gr_body ((rows ! 0)\<lparr>gr_ts := ''09:00''\<rparr>) \<noteq> gr_body (rows ! 0)"
    using gr_body_inj [of "(rows ! 0)\<lparr>gr_ts := ''09:00''\<rparr>" "rows ! 0"] wf ts by (auto simp: payload_wf_def)
  from altered_record_is_named [OF ok _ some this] some show ?thesis by auto
qed

end
