(* ===== verification/Derive.thy ===== *)
theory Derive
  imports EntityClasses PyText
begin

text \<open>
  Token derivation (\<^verbatim>\<open>gateway/vault/derive.py\<close>): the per-class normalisation of a value, the MAC over
  scope, class and value, and the rendering of the token. HMAC-SHA-256 is the parameter \<open>mac\<close> (key,
  message); the Unicode tables behind \<open>lower\<close>, \<open>upper\<close> and \<open>isdigit\<close> are the parameter \<open>uc\<close>.
\<close>

record unicode =
  uc_lower :: "pystr \<Rightarrow> pystr"
  uc_upper :: "pystr \<Rightarrow> pystr"
  uc_isdigit :: "nat \<Rightarrow> bool"
  uc_isalnum :: "nat \<Rightarrow> bool"
  uc_isdecimal :: "nat \<Rightarrow> bool" \<comment> \<open>what \<open>\d\<close> matches\<close>

definition ascii :: unicode where
  "ascii = \<lparr>uc_lower = map to_lower, uc_upper = map to_upper, uc_isdigit = is_digit, uc_isalnum = is_alnum,
     uc_isdecimal = is_digit\<rparr>"

definition SHAPE_PRESERVING :: "entity_class set" where
  "SHAPE_PRESERVING = {PAN, AADHAAR, CREDIT_CARD, PHONE, DATE_OF_BIRTH, IFSC, GSTIN, IBAN}"

datatype token_error = CredentialNeverTokenized entity_class | TokenEncodeError

function split_ws :: "pystr \<Rightarrow> pystr list" where
  \<comment> \<open>\<open>s.split()\<close>\<close>
  "split_ws s =
     (let t = lstrip s in
      if t = [] then []
      else takeWhile (\<lambda>c. \<not> is_space c) t # split_ws (dropWhile (\<lambda>c. \<not> is_space c) t))"
  by pat_completeness auto
termination
proof (relation "measure length")
  fix s t assume t: "t = lstrip s" "t \<noteq> []"
  then have "\<not> is_space (hd t)" unfolding lstrip_def by (metis hd_dropWhile)
  with t(2) have "dropWhile (\<lambda>c. \<not> is_space c) t = dropWhile (\<lambda>c. \<not> is_space c) (tl t)" by (cases t) auto
  moreover have "length (dropWhile (\<lambda>c. \<not> is_space c) (tl t)) \<le> length (tl t)" by (rule length_dropWhile_le)
  moreover have "length t \<le> length s" using t by (simp add: lstrip_def length_dropWhile_le)
  ultimately show "(dropWhile (\<lambda>c. \<not> is_space c) t, s) \<in> measure length" using t(2) by (cases t) auto
qed simp

declare split_ws.simps [simp del]

definition join_space :: "pystr list \<Rightarrow> pystr" where
  \<comment> \<open>\<open>" ".join(ws)\<close>\<close>
  "join_space ws = concat (case ws of [] \<Rightarrow> [] | w # r \<Rightarrow> w # map (Cons 32) r)"

definition normalise_value :: "unicode \<Rightarrow> entity_class \<Rightarrow> pystr \<Rightarrow> pystr" where
  "normalise_value uc cls value =
     (let v = strip value in
      if cls \<in> {EMAIL, UPI_VPA} then uc_lower uc v
      else if cls \<in> {PAN, IFSC, GSTIN, IBAN} then filter (\<lambda>c. c \<noteq> 32 \<and> c \<noteq> 45) (uc_upper uc v)
      else if cls \<in> {AADHAAR, CREDIT_CARD, PHONE} then filter (uc_isdigit uc) v
      else if cls \<in> {PERSON, ORG, GPE} then join_space (split_ws (uc_lower uc v))
      else v)"

section \<open>Base 32\<close>

definition byte_bits :: "nat \<Rightarrow> nat list" where
  "byte_bits b = map (\<lambda>i. b div 2 ^ (7 - i) mod 2) [0..<8]"

definition b32_char :: "nat list \<Rightarrow> nat" where
  \<comment> \<open>the lower-case letter or digit of five bits\<close>
  "b32_char bits = (let n = foldl (\<lambda>a b. 2 * a + b) 0 bits in if n < 26 then 97 + n else 24 + n)"

fun b32_digits :: "nat list \<Rightarrow> pystr" where
  "b32_digits (a # b # c # d # e # bits) = b32_char [a, b, c, d, e] # b32_digits bits"
| "b32_digits [] = []"
| "b32_digits bits = [b32_char (take 5 (bits @ [0, 0, 0, 0]))]"

definition b32_lower :: "pybytes \<Rightarrow> pystr" where
  \<comment> \<open>\<open>base64.b32encode(mac).decode().lower()\<close>, padded to a multiple of eight\<close>
  "b32_lower bs = (let ds = b32_digits (concat (map byte_bits bs))
     in ds @ replicate ((8 - length ds mod 8) mod 8) 61)"

section \<open>Tokens\<close>

definition LANGLE :: nat where "LANGLE = 10216"
definition RANGLE :: nat where "RANGLE = 10217"

definition format_token :: "entity_class \<Rightarrow> pybytes \<Rightarrow> nat \<Rightarrow> pystr" where
  "format_token cls m extra_bits =
     (let suffix = take (3 + extra_bits div 5) (b32_lower m) in
      if cls = EMAIL then [LANGLE] @ tx ''EMAIL_'' @ suffix @ [RANGLE] @ tx ''@example.invalid''
      else [LANGLE] @ tx (class_value cls) @ tx ''_'' @ suffix @ [RANGLE])"

definition mac_input :: "pystr \<Rightarrow> entity_class \<Rightarrow> pystr \<Rightarrow> pystr" where
  "mac_input scope_key cls norm = scope_key @ tx ''|'' @ tx (class_value cls) @ tx ''|'' @ norm"

definition derive_token :: "(pybytes \<Rightarrow> pybytes \<Rightarrow> pybytes) \<Rightarrow> unicode \<Rightarrow> pybytes \<Rightarrow> pystr \<Rightarrow> entity_class \<Rightarrow> pystr
    \<Rightarrow> nat \<Rightarrow> token_error + pystr" where
  "derive_token mac uc tenant_key scope_key cls value extra_bits =
     (if cls \<in> NEVER_TOKENIZE then Inl (CredentialNeverTokenized cls)
      else case utf8_encode (mac_input scope_key cls (normalise_value uc cls value)) of
             None \<Rightarrow> Inl TokenEncodeError
           | Some msg \<Rightarrow> Inr (format_token cls (mac tenant_key msg) extra_bits))"

definition shape_preserving_pending :: "entity_class \<Rightarrow> bool" where
  "shape_preserving_pending cls \<longleftrightarrow> cls \<in> SHAPE_PRESERVING"

section \<open>What a token depends on\<close>

lemma class_value_no_bar: "124 \<notin> set (tx (class_value c))"
  by (cases c) simp_all

lemma tx_inj: "tx s = tx t \<Longrightarrow> s = t"
  by (metis map_injective inj_def of_char_eq_iff)

lemma bar_split: "x @ 124 # y = x' @ 124 # y' \<Longrightarrow> 124 \<notin> set x \<Longrightarrow> 124 \<notin> set x' \<Longrightarrow> x = x' \<and> y = (y' :: nat list)"
proof (induction x arbitrary: x')
  case Nil
  then show ?case by (cases x') auto
next
  case (Cons a x)
  then show ?case by (cases x') auto
qed

lemma mac_input_inj:
  assumes "mac_input s c n = mac_input s' c' n'" "124 \<notin> set s" "124 \<notin> set s'"
  shows "s = s' \<and> c = c' \<and> n = n'"
proof -
  have "s @ 124 # tx (class_value c) @ 124 # n = s' @ 124 # tx (class_value c') @ 124 # n'"
    using assms(1) by (simp add: mac_input_def)
  from bar_split [OF this assms(2,3)] have "s = s'" and "tx (class_value c) @ 124 # n = tx (class_value c') @ 124 # n'" by auto
  with bar_split [OF this(2) class_value_no_bar class_value_no_bar] show ?thesis
    by (auto dest: tx_inj class_value_inj)
qed

lemma utf8_encode_inj: "utf8_encode s = Some b \<Longrightarrow> utf8_encode t = Some b \<Longrightarrow> s = t"
  by (metis option.inject utf8_decode_encode)

text \<open>Tokens are scoped and never made of credentials: a credential class is always refused, and two
  tokens derived under one tenant key, in scopes whose keys contain no bar, come from the same MAC
  message exactly when scope, class and normalised value all agree - the value of another scope or
  another class never enters the same MAC.\<close>

theorem token_scope_separation:
  assumes "124 \<notin> set scope" "124 \<notin> set scope'"
    and "derive_token mac uc key scope cls v n = Inr tok" "derive_token mac uc key scope' cls' v' n' = Inr tok'"
  shows "cls \<notin> NEVER_TOKENIZE \<and> cls' \<notin> NEVER_TOKENIZE \<and> (\<exists>msg msg'.
      tok = format_token cls (mac key msg) n \<and> tok' = format_token cls' (mac key msg') n'
      \<and> (msg = msg' \<longleftrightarrow> scope = scope' \<and> cls = cls' \<and> normalise_value uc cls v = normalise_value uc cls' v'))"
proof -
  from assms(3,4) obtain msg msg' where m: "utf8_encode (mac_input scope cls (normalise_value uc cls v)) = Some msg"
      "utf8_encode (mac_input scope' cls' (normalise_value uc cls' v')) = Some msg'"
    and t: "tok = format_token cls (mac key msg) n" "tok' = format_token cls' (mac key msg') n'"
    and nt: "cls \<notin> NEVER_TOKENIZE" "cls' \<notin> NEVER_TOKENIZE"
    by (auto simp: derive_token_def split: if_splits option.splits)
  have "msg = msg' \<longleftrightarrow> mac_input scope cls (normalise_value uc cls v) = mac_input scope' cls' (normalise_value uc cls' v')"
    using m utf8_encode_inj by auto
  also have "\<dots> \<longleftrightarrow> scope = scope' \<and> cls = cls' \<and> normalise_value uc cls v = normalise_value uc cls' v'"
    using mac_input_inj [OF _ assms(1,2)] by auto
  finally show ?thesis using t nt by (intro conjI exI)
qed

definition toy_mac :: "pybytes \<Rightarrow> pybytes \<Rightarrow> pybytes" where
  \<comment> \<open>a concrete keyed digest of five bytes, used only to evaluate examples\<close>
  "toy_mac key msg = take 5 (rev msg @ key @ [0, 0, 0, 0, 0])"

lemma token_scope_separation_witness:
  "\<exists>tok tok'. derive_token toy_mac ascii [1] (tx ''s1'') PAN (tx ''abcpz 1234c'') 0 = Inr tok
    \<and> derive_token toy_mac ascii [1] (tx ''s2'') PAN (tx ''ABCPZ1234C'') 0 = Inr tok'
    \<and> PAN \<notin> NEVER_TOKENIZE \<and> (\<exists>msg msg'. msg \<noteq> msg' \<and> tok = format_token PAN (toy_mac [1] msg) 0
        \<and> tok' = format_token PAN (toy_mac [1] msg') 0)"
proof -
  have enc: "\<exists>m. utf8_encode (mac_input (tx s) PAN (normalise_value ascii PAN (tx v))) = Some m"
    if "s = ''s1'' \<or> s = ''s2''" "v = ''abcpz 1234c'' \<or> v = ''ABCPZ1234C''" for s v
    using that by (auto simp: utf8_encode_def mac_input_def normalise_value_def ascii_def strip_def lstrip_def char_defs
        encodable_def code_point_def is_surrogate_def)
  have pan: "PAN \<notin> NEVER_TOKENIZE" by (simp add: NEVER_TOKENIZE_def)
  obtain tok tok' where t: "derive_token toy_mac ascii [1] (tx ''s1'') PAN (tx ''abcpz 1234c'') 0 = Inr tok"
      "derive_token toy_mac ascii [1] (tx ''s2'') PAN (tx ''ABCPZ1234C'') 0 = Inr tok'"
    using enc [of "''s1''" "''abcpz 1234c''"] enc [of "''s2''" "''ABCPZ1234C''"] pan by (auto simp: derive_token_def)
  have bars: "124 \<notin> set (tx ''s1'')" "124 \<notin> set (tx ''s2'')" and ne: "tx ''s1'' \<noteq> tx ''s2''" by simp_all
  from token_scope_separation [OF bars t] t pan ne show ?thesis by blast
qed

end
