(* ===== verification/Redact.thy ===== *)
theory Redact
  imports SpanModel Derive
begin

text \<open>
  Redaction (\<^verbatim>\<open>gateway/redact.py\<close>): planning the replacements of a decision, writing them into the span
  tree, and the check of the bytes about to be dispatched. HMAC and the Unicode tables are the
  parameters of token derivation.
\<close>

datatype redact_error =
    DispatchVerificationError pystr
  | TokenRefused token_error
  | SpanFailure span_error

record planned_redaction =
  rd_span_path :: pystr
  rd_start :: nat
  rd_end :: nat
  rd_class :: entity_class
  rd_replacement :: pystr
  rd_original :: pystr

record redaction_plan =
  pl_action :: action
  pl_redactions :: "planned_redaction list"
  pl_degraded_formats :: "entity_class set"
  pl_skipped_read_only :: "pystr list"

definition plan_is_empty :: "redaction_plan \<Rightarrow> bool" where
  "plan_is_empty p \<longleftrightarrow> pl_redactions p = []"

record ledger_entry =
  le_span_path :: pystr
  le_entity_class :: string
  le_start :: nat
  le_end :: nat
  le_replacement_len :: nat

definition for_ledger :: "redaction_plan \<Rightarrow> ledger_entry list" where
  "for_ledger p = map (\<lambda>r. \<lparr>le_span_path = rd_span_path r, le_entity_class = class_value (rd_class r),
     le_start = rd_start r, le_end = rd_end r, le_replacement_len = length (rd_replacement r)\<rparr>) (pl_redactions p)"

definition read_only :: "span_tree \<Rightarrow> finding \<Rightarrow> bool" where
  \<comment> \<open>the finding's span exists and is not ours to rewrite\<close>
  "read_only t f \<longleftrightarrow> (case by_path t (f_path f) of Some s \<Rightarrow> sp_origin s \<notin> REDACTABLE_ORIGINS | None \<Rightarrow> False)"

definition skipped_label :: "finding \<Rightarrow> pystr" where
  "skipped_label f = f_path f @ tx '':'' @ tx (class_value (f_class f))"

definition replacement_for :: "(pybytes \<Rightarrow> pybytes \<Rightarrow> pybytes) \<Rightarrow> unicode \<Rightarrow> pybytes \<Rightarrow> pystr \<Rightarrow> action \<Rightarrow> entity_class
    \<Rightarrow> pystr \<Rightarrow> redact_error + pystr" where
  "replacement_for mac uc tenant_key scope_key act cls original =
     (if act = Mask then Inr ([LANGLE] @ tx (class_value cls) @ [RANGLE])
      else case derive_token mac uc tenant_key scope_key cls original 0 of
             Inl e \<Rightarrow> Inl (TokenRefused e) | Inr tok \<Rightarrow> Inr tok)"

fun plan_loop :: "(pybytes \<Rightarrow> pybytes \<Rightarrow> pybytes) \<Rightarrow> unicode \<Rightarrow> pybytes \<Rightarrow> pystr \<Rightarrow> span_tree \<Rightarrow> action
    \<Rightarrow> finding list \<Rightarrow> redaction_plan \<Rightarrow> redact_error + redaction_plan" where
  "plan_loop mac uc key scope t act [] p = Inr p"
| "plan_loop mac uc key scope t act (f # fs) p =
     (if f_advisory f \<or> read_only t f then plan_loop mac uc key scope t act fs p
      else case by_path t (f_path f) of
             None \<Rightarrow> Inl (DispatchVerificationError (f_path f))
           | Some s \<Rightarrow>
               (let original = slice (f_start f) (f_end f) (sp_text s) in
                rbind (replacement_for mac uc key scope act (f_class f) original) (\<lambda>replacement.
                  plan_loop mac uc key scope t act fs
                    (p\<lparr>pl_degraded_formats := (if act \<noteq> Mask \<and> shape_preserving_pending (f_class f)
                         then insert (f_class f) (pl_degraded_formats p) else pl_degraded_formats p),
                       pl_redactions := pl_redactions p @ [\<lparr>rd_span_path = f_path f, rd_start = f_start f,
                         rd_end = f_end f, rd_class = f_class f, rd_replacement = replacement,
                         rd_original = original\<rparr>]\<rparr>))))"

definition plan_redaction :: "(pybytes \<Rightarrow> pybytes \<Rightarrow> pybytes) \<Rightarrow> unicode \<Rightarrow> pybytes \<Rightarrow> pystr \<Rightarrow> span_tree
    \<Rightarrow> finding list \<Rightarrow> action \<Rightarrow> redact_error + redaction_plan" where
  "plan_redaction mac uc tenant_key scope_key t findings act =
     (let plan = \<lparr>pl_action = act, pl_redactions = [], pl_degraded_formats = {},
            pl_skipped_read_only = map skipped_label (filter (read_only t) findings)\<rparr>
      in if act \<in> {Allow, Warn, Block} then Inr plan
         else plan_loop mac uc tenant_key scope_key t act findings plan)"

fun record_edits :: "planned_redaction list \<Rightarrow> span_tree \<Rightarrow> span_error + span_tree" where
  "record_edits [] t = Inr t"
| "record_edits (r # rs) t =
     rbind (replace t (rd_span_path r) (int (rd_start r)) (int (rd_end r)) (rd_replacement r)) (record_edits rs)"

definition apply_redaction :: "span_tree \<Rightarrow> redaction_plan \<Rightarrow> redact_error + pybytes" where
  "apply_redaction t p =
     (case rbind (record_edits (pl_redactions p) t) serialise of Inl e \<Rightarrow> Inl (SpanFailure e) | Inr b \<Rightarrow> Inr b)"

fun dispatch_loop :: "pystr \<Rightarrow> planned_redaction list \<Rightarrow> redact_error + unit" where
  "dispatch_loop body [] = Inr ()"
| "dispatch_loop body (r # rs) =
     (if rd_original r \<noteq> [] \<and> contains (rd_original r) body then Inl (DispatchVerificationError (rd_span_path r))
      else if \<not> contains (rd_replacement r) body then Inl (DispatchVerificationError (rd_span_path r))
      else dispatch_loop body rs)"

definition verify_dispatch :: "pybytes \<Rightarrow> redaction_plan \<Rightarrow> redact_error + unit" where
  "verify_dispatch body p =
     (if plan_is_empty p then Inr () else dispatch_loop (decode_replace body) (pl_redactions p))"

section \<open>What a plan holds\<close>

definition wants_redaction :: "span_tree \<Rightarrow> finding \<Rightarrow> bool" where
  "wants_redaction t f \<longleftrightarrow> \<not> f_advisory f \<and> \<not> read_only t f"

definition redacts :: "span_tree \<Rightarrow> finding \<Rightarrow> planned_redaction \<Rightarrow> bool" where
  "redacts t f r \<longleftrightarrow> rd_span_path r = f_path f \<and> rd_start r = f_start f \<and> rd_end r = f_end f \<and> rd_class r = f_class f
     \<and> (\<exists>s. by_path t (f_path f) = Some s \<and> sp_origin s \<in> REDACTABLE_ORIGINS
          \<and> rd_original r = slice (f_start f) (f_end f) (sp_text s))"

lemma plan_loop_redactions:
  assumes "plan_loop mac uc key scope t act fs p = Inr q"
  shows "\<exists>rs. pl_redactions q = pl_redactions p @ rs \<and> list_all2 (redacts t) (filter (wants_redaction t) fs) rs
    \<and> pl_skipped_read_only q = pl_skipped_read_only p"
  using assms
proof (induction fs arbitrary: p)
  case (Cons f fs)
  show ?case
  proof (cases "wants_redaction t f")
    case False
    with Cons show ?thesis by (auto simp: wants_redaction_def split: if_splits)
  next
    case True
    then have nro: "\<not> (f_advisory f \<or> read_only t f)" by (simp add: wants_redaction_def)
    with Cons.prems obtain s repl where s: "by_path t (f_path f) = Some s"
      and rest: "plan_loop mac uc key scope t act fs (p\<lparr>pl_degraded_formats :=
          (if act \<noteq> Mask \<and> shape_preserving_pending (f_class f)
           then insert (f_class f) (pl_degraded_formats p) else pl_degraded_formats p),
          pl_redactions := pl_redactions p @ [\<lparr>rd_span_path = f_path f, rd_start = f_start f, rd_end = f_end f,
            rd_class = f_class f, rd_replacement = repl, rd_original = slice (f_start f) (f_end f) (sp_text s)\<rparr>]\<rparr>) = Inr q"
      by (auto simp: Let_def rbind_Inr_iff split: option.splits)
    from nro s have "sp_origin s \<in> REDACTABLE_ORIGINS" by (simp add: read_only_def)
    with s have "redacts t f \<lparr>rd_span_path = f_path f, rd_start = f_start f, rd_end = f_end f,
          rd_class = f_class f, rd_replacement = repl, rd_original = slice (f_start f) (f_end f) (sp_text s)\<rparr>"
      by (simp add: redacts_def)
    with Cons.IH [OF rest] True show ?thesis by auto
  qed
qed simp

lemma dispatch_loop_ok:
  "dispatch_loop body rs = Inr () \<longleftrightarrow>
     (\<forall>r \<in> set rs. (rd_original r = [] \<or> \<not> contains (rd_original r) body) \<and> contains (rd_replacement r) body)"
  by (induction rs) auto

text \<open>The plan of a masking or tokenising decision covers exactly the findings that are enforceable
  and lie in text we may rewrite, one redaction each, in order, with the characters the finding names;
  every finding in read-only text is reported as skipped instead, and no other action plans anything.\<close>

theorem plan_covers_redactable_findings:
  assumes "plan_redaction mac uc key scope t findings act = Inr p"
  shows "pl_action p = act \<and> pl_skipped_read_only p = map skipped_label (filter (read_only t) findings)
    \<and> list_all2 (redacts t) (if act \<in> {Mask, Tokenize} then filter (wants_redaction t) findings else []) (pl_redactions p)"
proof -
  have act: "act \<in> {Allow, Warn, Block} \<longleftrightarrow> act \<notin> {Mask, Tokenize}" by (cases act) simp_all
  have same: "plan_loop mac uc key scope t act fs p = Inr q \<Longrightarrow> pl_action q = pl_action p" for fs p q
    by (induction fs arbitrary: p) (auto simp: Let_def rbind_Inr_iff split: if_splits option.splits)
  show ?thesis
  proof (cases "act \<in> {Mask, Tokenize}")
    case True
    let ?p0 = "\<lparr>pl_action = act, pl_redactions = [], pl_degraded_formats = {},
      pl_skipped_read_only = map skipped_label (filter (read_only t) findings)\<rparr>"
    from True assms act have "plan_loop mac uc key scope t act findings ?p0 = Inr p"
      by (auto simp: plan_redaction_def Let_def)
    from plan_loop_redactions [OF this] same [OF this] True show ?thesis by auto
  next
    case False
    with assms act show ?thesis by (auto simp: plan_redaction_def Let_def)
  qed
qed

lemma dispatched_body_is_clean:
  assumes "verify_dispatch body p = Inr ()" "r \<in> set (pl_redactions p)" "rd_original r \<noteq> []"
  shows "\<nexists>xs ys. decode_replace body = xs @ rd_original r @ ys"
    "\<exists>xs ys. decode_replace body = xs @ rd_replacement r @ ys"
proof -
  have "\<not> plan_is_empty p" using assms(2) by (auto simp: plan_is_empty_def)
  with assms have "\<not> contains (rd_original r) (decode_replace body)" "contains (rd_replacement r) (decode_replace body)"
    by (auto simp: verify_dispatch_def dispatch_loop_ok)
  then show "\<nexists>xs ys. decode_replace body = xs @ rd_original r @ ys"
    "\<exists>xs ys. decode_replace body = xs @ rd_replacement r @ ys"
    by (auto simp: contains_iff_sublist)
qed

text \<open>C24. End to end, a body that passes \<open>verify_dispatch\<close> after a masking or tokenising plan contains the
  characters of no enforceable finding in rewritable text: for each such finding, whatever it covered in
  its span's decoded text occurs nowhere in the dispatched text.\<close>

theorem verified_dispatch_leaks_no_planned_value:
  assumes "plan_redaction mac uc key scope t findings act = Inr p" "act \<in> {Mask, Tokenize}"
    and "verify_dispatch body p = Inr ()"
    and "f \<in> set findings" "\<not> f_advisory f" "by_path t (f_path f) = Some s" "sp_origin s \<in> REDACTABLE_ORIGINS"
    and "slice (f_start f) (f_end f) (sp_text s) \<noteq> []"
  shows "\<nexists>xs ys. decode_replace body = xs @ slice (f_start f) (f_end f) (sp_text s) @ ys"
proof -
  have "f \<in> set (filter (wants_redaction t) findings)"
    using assms by (simp add: wants_redaction_def read_only_def)
  moreover have "list_all2 (redacts t) (filter (wants_redaction t) findings) (pl_redactions p)"
    using plan_loop_redactions [of mac uc key scope t act findings] assms(1,2)
    by (fastforce simp: plan_redaction_def Let_def split: if_splits)
  ultimately obtain r where "r \<in> set (pl_redactions p)" "redacts t f r"
    by (metis in_set_conv_nth list_all2_conv_all_nth)
  with assms(6,8) dispatched_body_is_clean(1) [OF assms(3), of r] show ?thesis
    by (simp add: redacts_def)
qed

definition demo_pan :: finding where
  "demo_pan = \<lparr>f_path = tx ''a'', f_start = 1, f_end = 2, f_class = PAN, f_conf = 1, f_leg = Outbound,
     f_detector_id = None, f_detector = ''d'', f_stage = ''S0'', f_tier = DETERMINISTIC, f_advisory = False\<rparr>"

definition demo_plan :: redaction_plan where
  "demo_plan = \<lparr>pl_action = Mask, pl_redactions = [\<lparr>rd_span_path = tx ''a'', rd_start = 1, rd_end = 2, rd_class = PAN,
     rd_replacement = [LANGLE] @ tx ''PAN'' @ [RANGLE], rd_original = tx ''y''\<rparr>], pl_degraded_formats = {},
     pl_skipped_read_only = []\<rparr>"

definition demo_text :: pystr where
  "demo_text = tx ''{'' @ [34] @ tx ''a'' @ [34] @ tx '':'' @ [34] @ tx ''x'' @ [LANGLE] @ tx ''PAN'' @ [RANGLE] @ [34] @ tx ''}''"

lemma demo_planned: "plan_redaction toy_mac ascii [] [] demo_tree [demo_pan] Mask = Inr demo_plan"
  by (simp add: plan_redaction_def demo_pan_def demo_plan_def read_only_def by_path_def demo_tree_def span_tree_def
      origin_sets replacement_for_def slice_def)

lemma demo_dispatched:
  "\<exists>body. utf8_encode demo_text = Some body \<and> verify_dispatch body demo_plan = Inr ()"
proof -
  obtain body where b: "utf8_encode demo_text = Some body"
    by (simp add: utf8_encode_def demo_text_def encodable_def code_point_def is_surrogate_def LANGLE_def RANGLE_def)
  have "decode_replace body = demo_text"
    by (rule decode_replace_valid [OF utf8_decode_encode [OF b]])
  then have "verify_dispatch body demo_plan = Inr ()"
    by (simp add: verify_dispatch_def plan_is_empty_def demo_plan_def demo_text_def contains_def find_from.simps
        LANGLE_def RANGLE_def)
  with b show ?thesis by blast
qed

lemma plan_covers_redactable_findings_witness:
  "list_all2 (redacts demo_tree) (filter (wants_redaction demo_tree) [demo_pan]) (pl_redactions demo_plan)
     \<and> length (pl_redactions demo_plan) = 1"
  using plan_covers_redactable_findings [OF demo_planned] by (simp add: demo_plan_def)

lemma verified_dispatch_leaks_no_planned_value_witness:
  "\<exists>body. utf8_encode demo_text = Some body \<and> (\<nexists>xs ys. decode_replace body = xs @ tx ''y'' @ ys)"
proof -
  obtain body where b: "utf8_encode demo_text = Some body" "verify_dispatch body demo_plan = Inr ()"
    using demo_dispatched by blast
  define s where "s = hd (tr_spans demo_tree)"
  have s: "by_path demo_tree (f_path demo_pan) = Some s" "sp_origin s \<in> REDACTABLE_ORIGINS"
      "slice (f_start demo_pan) (f_end demo_pan) (sp_text s) = tx ''y''"
    by (simp_all add: s_def demo_pan_def by_path_def demo_tree_def span_tree_def origin_sets slice_def)
  have mem: "demo_pan \<in> set [demo_pan]" "\<not> f_advisory demo_pan" "Mask \<in> {Mask, Tokenize}" by (simp_all add: demo_pan_def)
  from verified_dispatch_leaks_no_planned_value [OF demo_planned mem(3) b(2) mem(1,2) s(1,2)] s(3) b(1)
  show ?thesis by auto
qed

text \<open>
  The check compares decoded originals with the encoded body. A value that holds a line break, such as
  a PEM private key, is always written escaped in JSON, so for it the first half of the check cannot
  fail, whether or not it was redacted.
\<close>

lemma verify_dispatch_cannot_see_line_breaks:
  assumes "10 \<notin> set (decode_replace body)"
    and "\<forall>r \<in> set (pl_redactions p). 10 \<in> set (rd_original r) \<and> contains (rd_replacement r) (decode_replace body)"
  shows "verify_dispatch body p = Inr ()"
proof -
  have "\<not> contains (rd_original r) (decode_replace body)" if "r \<in> set (pl_redactions p)" for r
    using that assms by (auto simp: contains_iff_sublist)
  with assms(2) show ?thesis by (simp add: verify_dispatch_def dispatch_loop_ok)
qed

end
