(* ===== verification/PathSafe.thy ===== *)
theory PathSafe
  imports Derive
begin

text \<open>
  Path generalisation (\<^verbatim>\<open>gateway/spans/pathsafe.py\<close>): the segments of a span path that are not schema
  vocabulary, array indices or \<^verbatim>\<open>$json\<close> markers are replaced by a keyed stub before the path is
  written anywhere. \<open>None\<close> stands for the \<open>UnicodeEncodeError\<close> of a lone surrogate in a segment.
\<close>

definition SAFE_VOCABULARY :: "pystr list" where
  "SAFE_VOCABULARY = map tx
    [''messages'', ''content'', ''system'', ''tools'', ''tool_choice'', ''tool_calls'', ''tool_call'',
     ''tool_result'', ''tool_use'', ''input'', ''output'', ''arguments'', ''function'', ''name'',
     ''role'', ''type'', ''text'', ''model'', ''metadata'', ''id'', ''prompt'', ''completion'',
     ''choices'', ''delta'', ''parts'', ''data'', ''items'', ''results'', ''response'', ''request'',
     ''customer'', ''user'', ''account'', ''profile'', ''record'', ''details'', ''address'',
     ''employee'', ''order'', ''invoice'', ''ticket'', ''issue'', ''service'', ''services'',
     ''email'', ''phone'', ''pan'', ''aadhaar'', ''gstin'', ''ifsc'', ''value'', ''values'']"

definition JSON_MARK :: pystr where "JSON_MARK = tx ''$json''"

function split_indices_loop :: "pystr \<Rightarrow> nat \<Rightarrow> pystr \<Rightarrow> pystr list \<Rightarrow> pystr list" where
  \<comment> \<open>the loop of \<open>_split_indices\<close> at position \<open>i\<close> with its \<open>buf\<close> and \<open>out\<close>\<close>
  "split_indices_loop seg i buf out =
     (if length seg \<le> i then (if buf = [] then out else out @ [buf])
      else if seg ! i = 91 then
        let out1 = (if buf = [] then out else out @ [buf]) in
        (case find_from [93] seg i of
           None \<Rightarrow> out1 @ [drop i seg]
         | Some j \<Rightarrow> split_indices_loop seg (Suc j) [] (out1 @ [slice i (Suc j) seg]))
      else split_indices_loop seg (Suc i) (buf @ [seg ! i]) out)"
  by pat_completeness auto
termination
  by (relation "measure (\<lambda>(seg, i, _). length seg - i)") (auto dest: find_from_Some)

declare split_indices_loop.simps [simp del]

definition split_indices :: "pystr \<Rightarrow> pystr list" where
  "split_indices seg = split_indices_loop seg 0 [] []"

definition split_dotted :: "pystr \<Rightarrow> pystr list" where
  \<comment> \<open>one iteration of \<open>_split\<close>; \<open>partition\<close> cuts at the first marker\<close>
  "split_dotted d =
     (case find_from JSON_MARK d 0 of
        Some i \<Rightarrow>
          (let head = take i d; tail = drop (i + length JSON_MARK) d in
           (if head = [] then [] else split_indices head) @ [JSON_MARK] @ (if tail = [] then [] else split_indices tail))
      | None \<Rightarrow> split_indices d)"

definition split_path :: "pystr \<Rightarrow> pystr list" where
  "split_path path = concat (map split_dotted (split_on 46 path))"

definition is_index :: "unicode \<Rightarrow> pystr \<Rightarrow> bool" where
  \<comment> \<open>\<open>^\[\d+\]$\<close> on a segment, which holds no newline after its bracket\<close>
  "is_index uc seg \<longleftrightarrow> 3 \<le> length seg \<and> hd seg = 91 \<and> last seg = 93 \<and> list_all (uc_isdecimal uc) (butlast (tl seg))"

definition stub :: "(pybytes \<Rightarrow> pybytes \<Rightarrow> pybytes) \<Rightarrow> pybytes \<Rightarrow> pystr \<Rightarrow> pystr option" where
  "stub mac key seg = map_option (\<lambda>bs. take 3 (b32_lower (mac key bs))) (utf8_encode seg)"

definition public_segment :: "unicode \<Rightarrow> pystr \<Rightarrow> bool" where
  "public_segment uc seg \<longleftrightarrow> is_index uc seg \<or> seg = JSON_MARK \<or> uc_lower uc seg \<in> set SAFE_VOCABULARY"

definition safe_segment :: "(pybytes \<Rightarrow> pybytes \<Rightarrow> pybytes) \<Rightarrow> unicode \<Rightarrow> pybytes \<Rightarrow> pystr \<Rightarrow> pystr option" where
  "safe_segment mac uc key seg =
     (if public_segment uc seg then Some seg
      else map_option (\<lambda>s. [LANGLE] @ tx ''seg_'' @ s @ [RANGLE]) (stub mac key seg))"

definition join_step :: "pystr \<Rightarrow> pystr \<Rightarrow> pystr" where
  "join_step out p =
     (if out = [] then p
      else if take 1 p = [91] \<or> p = JSON_MARK \<or> last_n (length JSON_MARK) out = JSON_MARK then out @ p
      else out @ [46] @ p)"

definition join_path :: "pystr list \<Rightarrow> pystr" where
  "join_path ps = foldl join_step [] ps"

fun all_some :: "'a option list \<Rightarrow> 'a list option" where
  "all_some [] = Some []"
| "all_some (x # xs) = (case (x, all_some xs) of (Some a, Some as) \<Rightarrow> Some (a # as) | _ \<Rightarrow> None)"

definition safe_path :: "(pybytes \<Rightarrow> pybytes \<Rightarrow> pybytes) \<Rightarrow> unicode \<Rightarrow> pybytes \<Rightarrow> pystr \<Rightarrow> pystr option" where
  "safe_path mac uc key path =
     (if path = [] then Some path
      else map_option join_path (all_some (map (safe_segment mac uc key) (split_path path))))"

section \<open>What a written path reveals\<close>

definition segment_view :: "(pybytes \<Rightarrow> pybytes \<Rightarrow> pybytes) \<Rightarrow> unicode \<Rightarrow> pybytes \<Rightarrow> pystr \<Rightarrow> pystr + pystr option" where
  \<comment> \<open>a public segment itself, or the three-character stub of a private one\<close>
  "segment_view mac uc key seg = (if public_segment uc seg then Inl seg else Inr (stub mac key seg))"

lemma safe_segment_view: "safe_segment mac uc key seg =
    (case segment_view mac uc key seg of Inl s \<Rightarrow> Some s | Inr s \<Rightarrow> map_option (\<lambda>s. [LANGLE] @ tx ''seg_'' @ s @ [RANGLE]) s)"
  by (simp add: safe_segment_def segment_view_def)

lemma stub_length: "stub mac key seg = Some s \<Longrightarrow> length s \<le> 3"
  by (auto simp: stub_def)

text \<open>What is written of a path depends on its private segments only through their keyed stubs of at
  most three characters: two paths whose segments agree where they are public, and whose private
  segments have the same stubs, are written identically.\<close>

theorem safe_path_reveals_only_stubs:
  assumes "map (segment_view mac uc key) (split_path p) = map (segment_view mac uc key) (split_path q)"
    and "p \<noteq> []" "q \<noteq> []"
  shows "safe_path mac uc key p = safe_path mac uc key q
    \<and> (\<forall>seg \<in> set (split_path p). \<not> public_segment uc seg \<longrightarrow>
         (\<forall>s. segment_view mac uc key seg = Inr (Some s) \<longrightarrow> length s \<le> 3))"
proof -
  define F where "F v = (case v of Inl s \<Rightarrow> Some s
      | Inr s \<Rightarrow> map_option (\<lambda>s. [LANGLE] @ tx ''seg_'' @ s @ [RANGLE]) s)" for v
  have view: "map (safe_segment mac uc key) ps = map F (map (segment_view mac uc key) ps)" for ps
    unfolding map_map by (rule map_cong [OF refl]) (simp add: safe_segment_view F_def)
  have "map (safe_segment mac uc key) (split_path p) = map (safe_segment mac uc key) (split_path q)"
    unfolding view assms(1) by (rule refl)
  with assms(2,3) have "safe_path mac uc key p = safe_path mac uc key q" by (simp add: safe_path_def)
  then show ?thesis by (auto simp: segment_view_def dest: stub_length)
qed

lemma safe_path_reveals_only_stubs_witness:
  "safe_path toy_mac ascii [] (tx ''acme_xab.email'') = safe_path toy_mac ascii [] (tx ''other_ab.email'')"
proof -
  have split: "split_path (tx (w @ ''.email'')) = [tx w, tx ''email'']" if "w = ''acme_xab'' \<or> w = ''other_ab''" for w
    using that by (auto simp: split_path_def split_dotted_def split_indices_def JSON_MARK_def find_from.simps
        split_indices_loop.simps)
  have priv: "\<not> public_segment ascii (tx w)" if "w = ''acme_xab'' \<or> w = ''other_ab''" for w
    using that by (auto simp: public_segment_def is_index_def JSON_MARK_def SAFE_VOCABULARY_def ascii_def char_defs)
  have "stub toy_mac [] (tx ''acme_xab'') = stub toy_mac [] (tx ''other_ab'')"
    by (simp add: stub_def utf8_encode_def encodable_def code_point_def is_surrogate_def utf8_cp_def toy_mac_def
        b32_lower_def byte_bits_def upt_conv_Cons Let_def)
  then have "map (segment_view toy_mac ascii []) (split_path (tx ''acme_xab.email''))
      = map (segment_view toy_mac ascii []) (split_path (tx ''other_ab.email''))"
    using split [of "''acme_xab''"] split [of "''other_ab''"]
      priv [of "''acme_xab''"] priv [of "''other_ab''"] by (simp add: segment_view_def)
  from safe_path_reveals_only_stubs [OF this] show ?thesis by simp
qed

end
