(* ===== verification/Identity.thy ===== *)
theory Identity
  imports PolicySchema HashChain "HOL-Library.Sublist"
begin

text \<open>
  Who is calling: \<^verbatim>\<open>Control-DB/zerotrace/identity/\<close> (\<open>resolve.py\<close>, \<open>oidc.py\<close>, \<open>workload.py\<close>) and the
  control-plane gate of \<^verbatim>\<open>gateway/deps.py\<close>. A request is what its headers and cookies answer to \<open>get\<close>;
  values are Latin-1 text, as the ASGI server decodes them. The database is the tenant tree and the
  actors table with its primary key and its two unique indexes. SHA-256 is the parameter \<open>H\<close>.
\<close>

section \<open>Requests, settings and rows\<close>

record http_request =
  hq_header :: "string \<Rightarrow> string option"
  hq_cookie :: "string \<Rightarrow> string option"

datatype env = EnvDev | EnvDemo | EnvProd

record settings =
  st_env :: env
  st_default_tenant :: string
  st_dev_token_prefix :: string
  st_oidc_issuer :: string

record actor_row =
  ar_id :: string
  ar_tenant_id :: string
  ar_scope :: actor_scope
  ar_idp_subject :: "string option"
  ar_workload_id :: "string option"
  ar_label :: string
  ar_role :: string
  ar_groups :: "string list"

type_synonym tenants = "(string \<times> string option) list" \<comment> \<open>id and \<open>parent_id\<close>\<close>

record id_db =
  idb_tenants :: tenants
  idb_actors :: "actor_row list"

datatype id_error =
    TenantRequired
  | TenantNotFound string
  | IdentityConflict
  | HierarchyCycle string
  | HierarchyMissing string
  | MultipleRows
  | RowRefused

definition H_TENANT :: string where "H_TENANT = ''x-zerotrace-tenant''"
definition H_ACTOR :: string where "H_ACTOR = ''x-zerotrace-actor''"
definition H_SPIFFE :: string where "H_SPIFFE = ''x-client-spiffe-id''"
definition COOKIE_SESSION :: string where "COOKIE_SESSION = ''zt_session''"

lemmas header_names = H_TENANT_def H_ACTOR_def H_SPIFFE_def COOKIE_SESSION_def

definition from_row :: "actor_row \<Rightarrow> resolution_source \<Rightarrow> string \<Rightarrow> ctl_actor" where
  "from_row row source request_tenant_id =
     \<lparr>ca_id = ar_id row, ca_tenant_id = ar_tenant_id row, ca_label = ar_label row, ca_role = ar_role row,
      ca_scope = ar_scope row, ca_groups = ar_groups row, ca_registered = True, ca_source = source,
      ca_request_tenant_id = Some request_tenant_id\<rparr>"

definition truthy :: "string option \<Rightarrow> string option" where
  \<comment> \<open>Python \<open>value or None\<close>\<close>
  "truthy v = (case v of Some [] \<Rightarrow> None | _ \<Rightarrow> v)"

definition header :: "http_request \<Rightarrow> string \<Rightarrow> string option" where
  "header request name = truthy (hq_header request name)"

definition cookie :: "http_request \<Rightarrow> string \<Rightarrow> string option" where
  "cookie request name = truthy (hq_cookie request name)"

section \<open>Tenants\<close>

definition resolve_tenant :: "settings \<Rightarrow> id_db \<Rightarrow> http_request \<Rightarrow> id_error + string" where
  "resolve_tenant st db request =
     rbind (case header request H_TENANT of
              Some t \<Rightarrow> Inr t
            | None \<Rightarrow> if st_env st = EnvDev then Inr (st_default_tenant st) else Inl TenantRequired)
       (\<lambda>t. case map_of (idb_tenants db) t of None \<Rightarrow> Inl (TenantNotFound t) | Some _ \<Rightarrow> Inr t)"

function root_loop :: "tenants \<Rightarrow> string list \<Rightarrow> string \<Rightarrow> id_error + string" where
  \<comment> \<open>the loop of \<open>_root_tenant_id\<close>, with the tenants already seen\<close>
  "root_loop ts seen current =
     (if current \<in> set seen then Inl (HierarchyCycle current)
      else case map_of ts current of
             None \<Rightarrow> Inl (HierarchyMissing current)
           | Some None \<Rightarrow> Inr current
           | Some (Some parent) \<Rightarrow> root_loop ts (current # seen) parent)"
  by pat_completeness auto
termination
proof (relation "measure (\<lambda>(ts, seen, _). card (fst ` set ts - set seen))")
  fix ts :: tenants and seen :: "string list" and current o' parent
  assume "map_of ts current = Some o'" "o' = Some parent" "current \<notin> set seen"
  then have "current \<in> fst ` set ts" by (metis domI dom_map_of_conv_image_fst)
  then have "card (fst ` set ts - set (current # seen)) < card (fst ` set ts - set seen)"
    using \<open>current \<notin> set seen\<close> by (intro psubset_card_mono) auto
  then show "((ts, current # seen, parent), ts, seen, current)
      \<in> measure (\<lambda>(ts, seen, _). card (fst ` set ts - set seen))" by simp
qed simp

declare root_loop.simps [simp del]

definition root_tenant_id :: "id_db \<Rightarrow> string \<Rightarrow> id_error + string" where
  "root_tenant_id db tenant_id = root_loop (idb_tenants db) [] tenant_id"

section \<open>Looking up actors\<close>

fun one_or_none :: "'a list \<Rightarrow> id_error + 'a option" where
  \<comment> \<open>\<open>scalar_one_or_none\<close>\<close>
  "one_or_none [] = Inr None"
| "one_or_none [x] = Inr (Some x)"
| "one_or_none (x # y # xs) = Inl MultipleRows"

definition by_workload :: "id_db \<Rightarrow> string \<Rightarrow> string \<Rightarrow> actor_scope \<Rightarrow> id_error + actor_row option" where
  "by_workload db tenant_id workload_id scope =
     one_or_none (filter (\<lambda>r. ar_tenant_id r = tenant_id \<and> ar_workload_id r = Some workload_id \<and> ar_scope r = scope)
       (idb_actors db))"

definition by_subject :: "id_db \<Rightarrow> string \<Rightarrow> string \<Rightarrow> actor_scope \<Rightarrow> id_error + actor_row option" where
  "by_subject db tenant_id subject scope =
     one_or_none (filter (\<lambda>r. ar_tenant_id r = tenant_id \<and> ar_idp_subject r = Some subject \<and> ar_scope r = scope)
       (idb_actors db))"

definition or_lookup :: "id_error + actor_row option \<Rightarrow> id_error + actor_row option \<Rightarrow> id_error + actor_row option" where
  \<comment> \<open>\<open>if row is None: row = ...\<close>\<close>
  "or_lookup first next = rbind first (\<lambda>r. case r of Some x \<Rightarrow> Inr (Some x) | None \<Rightarrow> next)"

section \<open>Credentials\<close>

definition py_strip :: "string \<Rightarrow> string" where
  \<comment> \<open>\<open>str.strip()\<close> on Latin-1 text\<close>
  "py_strip s = rev (dropWhile (is_space \<circ> of_char) (rev (dropWhile (is_space \<circ> of_char) s)))"

definition lower_char :: "char \<Rightarrow> char" where
  "lower_char c = char_of (to_lower (of_char c))"

definition is_bearer :: "string \<Rightarrow> bool" where
  \<comment> \<open>\<open>raw.lower().startswith("bearer ")\<close>; no Latin-1 character outside A-Z lowers into ASCII\<close>
  "is_bearer raw \<longleftrightarrow> prefix ''bearer '' (map lower_char raw)"

definition bearer_subject :: "settings \<Rightarrow> http_request \<Rightarrow> string option" where
  "bearer_subject st request =
     (case header request ''authorization'' of
        None \<Rightarrow> None
      | Some raw \<Rightarrow>
          if is_bearer raw then
            let token = py_strip (drop 7 raw) in
            if prefix (st_dev_token_prefix st) token then truthy (Some (drop (length (st_dev_token_prefix st)) token))
            else None
          else None)"

definition cookie_subject :: "settings \<Rightarrow> http_request \<Rightarrow> string option" where
  "cookie_subject st request =
     (case cookie request COOKIE_SESSION of
        None \<Rightarrow> None
      | Some c \<Rightarrow>
          if prefix (st_dev_token_prefix st) c then truthy (Some (drop (length (st_dev_token_prefix st)) c)) else None)"

definition bearer_supplied :: "http_request \<Rightarrow> bool" where
  "bearer_supplied request = (case header request ''authorization'' of None \<Rightarrow> False | Some raw \<Rightarrow> is_bearer raw)"

definition cookie_supplied :: "http_request \<Rightarrow> bool" where
  "cookie_supplied request \<longleftrightarrow> cookie request COOKIE_SESSION \<noteq> None"

definition session_subject :: "settings \<Rightarrow> http_request \<Rightarrow> id_error + string option" where
  "session_subject st request =
     (if bearer_supplied request \<and> cookie_supplied request then
        (case (bearer_subject st request, cookie_subject st request) of
           (Some b, Some c) \<Rightarrow> if b \<noteq> c then Inl IdentityConflict else Inr (Some b)
         | _ \<Rightarrow> Inl IdentityConflict)
      else if bearer_supplied request then Inr (bearer_subject st request)
      else if cookie_supplied request then Inr (cookie_subject st request)
      else Inr None)"

definition has_identity_credentials :: "settings \<Rightarrow> http_request \<Rightarrow> bool" where
  "has_identity_credentials st request \<longleftrightarrow>
     bearer_subject st request \<noteq> None \<or> cookie_subject st request \<noteq> None
     \<or> header request H_SPIFFE \<noteq> None \<or> header request H_ACTOR \<noteq> None"

section \<open>Callers nobody knows\<close>

definition latin1_utf8 :: "string \<Rightarrow> string" where
  \<comment> \<open>\<open>str.encode("utf-8")\<close> on Latin-1 text\<close>
  "latin1_utf8 s = concat (map (\<lambda>c. if of_char c < (128 :: nat) then [c]
     else [char_of (192 + of_char c div (64 :: nat)), char_of (128 + of_char c mod (64 :: nat))]) s)"

definition fingerprint :: "(string \<Rightarrow> string) \<Rightarrow> http_request \<Rightarrow> string \<Rightarrow> string" where
  "fingerprint H request tenant_id =
     (let hint = (case header request H_ACTOR of
            Some h \<Rightarrow> h
          | None \<Rightarrow> (case header request ''user-agent'' of Some u \<Rightarrow> u | None \<Rightarrow> ''anonymous''))
      in take 16 (to_hex (H (latin1_utf8 (tenant_id @ ''|'' @ hint)))))"

definition insert_actor :: "id_db \<Rightarrow> actor_row \<Rightarrow> id_error + id_db" where
  \<comment> \<open>the primary key and the unique indexes \<open>actors_idp\<close> and \<open>actors_wl\<close>\<close>
  "insert_actor db row =
     (if \<exists>r \<in> set (idb_actors db). ar_id r = ar_id row \<or> ar_tenant_id r = ar_tenant_id row \<and>
           (ar_idp_subject r \<noteq> None \<and> ar_idp_subject r = ar_idp_subject row
            \<or> ar_workload_id r \<noteq> None \<and> ar_workload_id r = ar_workload_id row)
      then Inl RowRefused else Inr (db\<lparr>idb_actors := idb_actors db @ [row]\<rparr>))"

definition unreg_workload :: "string \<Rightarrow> string" where
  "unreg_workload fp = ''unregistered:'' @ fp"

definition unregistered_row :: "string \<Rightarrow> string \<Rightarrow> actor_row" where
  "unregistered_row tenant_id fp =
     \<lparr>ar_id = ''act_unreg_'' @ fp, ar_tenant_id = tenant_id, ar_scope = ScopeTenant, ar_idp_subject = None,
      ar_workload_id = Some (unreg_workload fp), ar_label = ''unregistered caller '' @ fp,
      ar_role = ''unregistered'', ar_groups = []\<rparr>"

definition unregistered_actor :: "string \<Rightarrow> actor_row \<Rightarrow> ctl_actor" where
  "unregistered_actor tenant_id row =
     \<lparr>ca_id = ar_id row, ca_tenant_id = tenant_id, ca_label = ar_label row, ca_role = ''unregistered'',
      ca_scope = ScopeTenant, ca_groups = [], ca_registered = False, ca_source = UnregisteredSource,
      ca_request_tenant_id = Some tenant_id\<rparr>"

definition synthetic_unregistered ::
  "(string \<Rightarrow> string) \<Rightarrow> id_db \<Rightarrow> string \<Rightarrow> http_request \<Rightarrow> id_error + (ctl_actor \<times> id_db)" where
  "synthetic_unregistered H db tenant_id request =
     (let fp = fingerprint H request tenant_id in
      rbind (by_workload db tenant_id (unreg_workload fp) ScopeTenant) (\<lambda>found.
        case found of
          Some row \<Rightarrow> Inr (unregistered_actor tenant_id row, db)
        | None \<Rightarrow>
            let row = unregistered_row tenant_id fp in
            rbind (insert_actor db row) (\<lambda>db'. Inr (unregistered_actor tenant_id row, db'))))"

section \<open>The seven rungs\<close>

definition rung_workload :: "id_db \<Rightarrow> string \<Rightarrow> string option \<Rightarrow> id_error + actor_row option" where
  "rung_workload db tenant_id spiffe =
     (case spiffe of
        None \<Rightarrow> Inr None
      | Some s \<Rightarrow> or_lookup (by_workload db tenant_id s ScopeTenant)
          (rbind (root_tenant_id db tenant_id) (\<lambda>org. by_workload db org s ScopeOrganisation)))"

definition rung_session :: "id_db \<Rightarrow> string \<Rightarrow> string option \<Rightarrow> id_error + actor_row option" where
  "rung_session db tenant_id subject =
     (case subject of
        None \<Rightarrow> Inr None
      | Some s \<Rightarrow> or_lookup (by_subject db tenant_id s ScopeTenant)
          (rbind (root_tenant_id db tenant_id) (\<lambda>org. by_subject db org s ScopeOrganisation)))"

definition rung_claim :: "id_db \<Rightarrow> string \<Rightarrow> string option \<Rightarrow> id_error + actor_row option" where
  "rung_claim db tenant_id claimed =
     (case claimed of
        None \<Rightarrow> Inr None
      | Some s \<Rightarrow>
          or_lookup (by_subject db tenant_id s ScopeTenant)
            (or_lookup (by_workload db tenant_id s ScopeTenant)
              (rbind (root_tenant_id db tenant_id) (\<lambda>org.
                 or_lookup (by_subject db org s ScopeOrganisation) (by_workload db org s ScopeOrganisation)))))"

definition from_rung_5 ::
  "(string \<Rightarrow> string) \<Rightarrow> id_db \<Rightarrow> string \<Rightarrow> http_request \<Rightarrow> id_error + (ctl_actor \<times> id_db)" where
  "from_rung_5 H db t request =
     rbind (rung_claim db t (header request H_ACTOR)) (\<lambda>row. case row of
       Some r \<Rightarrow> Inr (from_row r InterceptionHeader t, db)
     | None \<Rightarrow> synthetic_unregistered H db t request)"

definition from_rung_3 ::
  "settings \<Rightarrow> (string \<Rightarrow> string) \<Rightarrow> id_db \<Rightarrow> string \<Rightarrow> http_request \<Rightarrow> id_error + (ctl_actor \<times> id_db)" where
  "from_rung_3 st H db t request =
     rbind (session_subject st request) (\<lambda>subject.
     rbind (rung_session db t subject) (\<lambda>row. case row of
       Some r \<Rightarrow> Inr (from_row r Session t, db)
     | None \<Rightarrow> from_rung_5 H db t request))"

definition resolve ::
  "settings \<Rightarrow> (string \<Rightarrow> string) \<Rightarrow> id_db \<Rightarrow> http_request \<Rightarrow> id_error + (ctl_actor \<times> id_db)" where
  "resolve st H db request =
     rbind (resolve_tenant st db request) (\<lambda>t.
     rbind (rung_workload db t (header request H_SPIFFE)) (\<lambda>row. case row of
       Some r \<Rightarrow> Inr (from_row r Mtls t, db)
     | None \<Rightarrow> from_rung_3 st H db t request))"

section \<open>The control-plane gate\<close>

datatype admin_error = AdminAuthenticationRequired | AdminForbidden | AdminIdentity id_error

definition current_security_admin ::
  "settings \<Rightarrow> (string \<Rightarrow> string) \<Rightarrow> id_db \<Rightarrow> http_request \<Rightarrow> admin_error + (ctl_actor \<times> id_db)" where
  "current_security_admin st H db request =
     (if \<not> has_identity_credentials st request then Inl AdminAuthenticationRequired
      else case resolve st H db request of
             Inl e \<Rightarrow> Inl (AdminIdentity e)
           | Inr (actor, db') \<Rightarrow>
               if \<not> ca_registered actor then Inl AdminAuthenticationRequired
               else if ca_role actor \<noteq> ''security_admin'' then Inl AdminForbidden
               else Inr (actor, db'))"

definition authorize_admin_target :: "id_db \<Rightarrow> ctl_actor \<Rightarrow> string \<Rightarrow> admin_error + unit" where
  "authorize_admin_target db actor tenant_id =
     (if \<not> ca_registered actor \<or> ca_role actor \<noteq> ''security_admin'' then Inl AdminForbidden
      else if ca_scope actor = ScopeOrganisation then
        (case root_tenant_id db tenant_id of
           Inl _ \<Rightarrow> Inl AdminForbidden
         | Inr org \<Rightarrow> if org \<noteq> ca_tenant_id actor then Inl AdminForbidden else Inr ())
      else if tenant_id \<noteq> ca_tenant_id actor then Inl AdminForbidden
      else Inr ())"

definition control_access ::
  "settings \<Rightarrow> (string \<Rightarrow> string) \<Rightarrow> id_db \<Rightarrow> http_request \<Rightarrow> string \<Rightarrow> admin_error + (ctl_actor \<times> id_db)" where
  \<comment> \<open>what every control route does before it reads or writes anything\<close>
  "control_access st H db request target =
     rbind (current_security_admin st H db request) (\<lambda>(actor, db').
       rbind (authorize_admin_target db' actor target) (\<lambda>_. Inr (actor, db')))"

section \<open>Login tokens and workload identities\<close>

definition mint_dev_token :: "settings \<Rightarrow> string \<Rightarrow> string" where
  "mint_dev_token st idp_subject = st_dev_token_prefix st @ idp_subject"

definition subject_from_token :: "settings \<Rightarrow> string \<Rightarrow> (string \<times> string) option" where
  \<comment> \<open>the subject and the issuer of the \<open>DevPrincipal\<close>\<close>
  "subject_from_token st token =
     (if \<not> prefix (st_dev_token_prefix st) token then None
      else let subject = py_strip (drop (length (st_dev_token_prefix st)) token) in
           if subject = [] then None else Some (subject, st_oidc_issuer st))"

record workload_identity =
  wi_spiffe_id :: string
  wi_trust_domain :: string
  wi_path :: string

definition domain_char :: "char \<Rightarrow> bool" where
  "domain_char c \<longleftrightarrow> is_lower (of_char c) \<or> is_digit (of_char c) \<or> c \<in> set ''._-''"

definition path_char :: "char \<Rightarrow> bool" where
  "path_char c \<longleftrightarrow> is_alnum (of_char c) \<or> c \<in> set ''._/-''"

definition parse_spiffe :: "string \<Rightarrow> workload_identity option" where
  \<comment> \<open>the trust domain has no slash, so it ends at the first one\<close>
  "parse_spiffe value =
     (let v = py_strip value; rest = drop 9 v; domain = takeWhile (\<lambda>c. c \<noteq> CHR ''/'') rest;
          path = drop (Suc (length domain)) rest in
      if prefix ''spiffe://'' v \<and> domain \<noteq> [] \<and> list_all domain_char domain
         \<and> length domain < length rest \<and> path \<noteq> [] \<and> list_all path_char path
      then Some \<lparr>wi_spiffe_id = v, wi_trust_domain = domain, wi_path = path\<rparr> else None)"

fun from_peer_certificate :: "(string \<times> string) list \<Rightarrow> workload_identity option" where
  \<comment> \<open>the entries of \<open>subjectAltName\<close>; no certificate is no entry\<close>
  "from_peer_certificate [] = None"
| "from_peer_certificate ((key, value) # rest) =
     (if key = ''URI'' \<and> prefix ''spiffe://'' value then parse_spiffe value else from_peer_certificate rest)"

section \<open>Lookups\<close>

lemma one_or_none_Some: "one_or_none xs = Inr (Some x) \<Longrightarrow> xs = [x]"
  by (cases xs rule: one_or_none.cases) auto

lemma one_or_none_None: "one_or_none xs = Inr None \<longleftrightarrow> xs = []"
  by (cases xs rule: one_or_none.cases) auto

lemma by_workload_Some:
  "by_workload db t w sc = Inr (Some r) \<Longrightarrow>
     r \<in> set (idb_actors db) \<and> ar_tenant_id r = t \<and> ar_workload_id r = Some w \<and> ar_scope r = sc"
  unfolding by_workload_def by (drule one_or_none_Some) (auto dest: filter_eq_ConsD)

lemma by_subject_Some:
  "by_subject db t w sc = Inr (Some r) \<Longrightarrow>
     r \<in> set (idb_actors db) \<and> ar_tenant_id r = t \<and> ar_idp_subject r = Some w \<and> ar_scope r = sc"
  unfolding by_subject_def by (drule one_or_none_Some) (auto dest: filter_eq_ConsD)

lemma or_lookup_Some:
  "or_lookup a b = Inr (Some r) \<longleftrightarrow> a = Inr (Some r) \<or> a = Inr None \<and> b = Inr (Some r)"
  by (auto simp: or_lookup_def rbind_Inr_iff split: option.splits)

lemma or_lookup_None: "or_lookup a b = Inr None \<longleftrightarrow> a = Inr None \<and> b = Inr None"
  by (auto simp: or_lookup_def rbind_Inr_iff split: option.splits)

text \<open>Where a row may come from: the selected tenant itself, or the root of its hierarchy.\<close>

definition in_reach :: "id_db \<Rightarrow> string \<Rightarrow> actor_row \<Rightarrow> bool" where
  "in_reach db t r \<longleftrightarrow> r \<in> set (idb_actors db) \<and>
     (ar_scope r = ScopeTenant \<and> ar_tenant_id r = t
      \<or> ar_scope r = ScopeOrganisation \<and> root_tenant_id db t = Inr (ar_tenant_id r))"

lemmas lookup_Some = by_workload_Some by_subject_Some

lemma rung_workload_reach: "rung_workload db t s = Inr (Some r) \<Longrightarrow> in_reach db t r \<and> s \<noteq> None \<and> ar_workload_id r = s"
  by (auto simp: rung_workload_def or_lookup_Some rbind_Inr_iff in_reach_def dest!: lookup_Some split: option.splits)

lemma rung_session_reach: "rung_session db t s = Inr (Some r) \<Longrightarrow> in_reach db t r \<and> s \<noteq> None \<and> ar_idp_subject r = s"
  by (auto simp: rung_session_def or_lookup_Some rbind_Inr_iff in_reach_def dest!: lookup_Some split: option.splits)

lemma rung_claim_reach: "rung_claim db t s = Inr (Some r) \<Longrightarrow> in_reach db t r"
  by (auto simp: rung_claim_def or_lookup_Some rbind_Inr_iff in_reach_def dest!: lookup_Some split: option.splits)

text \<open>The three ways \<open>resolve\<close> can answer with a registered actor, and the fourth.\<close>

lemma from_rung_5_cases:
  assumes "from_rung_5 H db t q = Inr (a, db')"
  obtains r where "rung_claim db t (header q H_ACTOR) = Inr (Some r)" "a = from_row r InterceptionHeader t" "db' = db"
  | "rung_claim db t (header q H_ACTOR) = Inr None" "synthetic_unregistered H db t q = Inr (a, db')"
proof -
  from assms obtain row where "rung_claim db t (header q H_ACTOR) = Inr row"
    "(case row of Some r \<Rightarrow> Inr (from_row r InterceptionHeader t, db)
      | None \<Rightarrow> synthetic_unregistered H db t q) = Inr (a, db')"
    unfolding from_rung_5_def by (rule rbind_InrE)
  with that show thesis by (cases row) simp_all
qed

lemma from_rung_3_cases:
  assumes "from_rung_3 st H db t q = Inr (a, db')"
  obtains sub r where "session_subject st q = Inr sub" "rung_session db t sub = Inr (Some r)"
      "a = from_row r Session t" "db' = db"
  | sub where "session_subject st q = Inr sub" "rung_session db t sub = Inr None"
      "from_rung_5 H db t q = Inr (a, db')"
proof -
  from assms obtain sub where sub: "session_subject st q = Inr sub"
    and "rbind (rung_session db t sub) (\<lambda>row. case row of Some r \<Rightarrow> Inr (from_row r Session t, db)
      | None \<Rightarrow> from_rung_5 H db t q) = Inr (a, db')"
    unfolding from_rung_3_def by (rule rbind_InrE)
  from this(2) obtain row where row: "rung_session db t sub = Inr row"
    and rest: "(case row of Some r \<Rightarrow> Inr (from_row r Session t, db) | None \<Rightarrow> from_rung_5 H db t q) = Inr (a, db')"
    by (rule rbind_InrE)
  show thesis
  proof (cases row)
    case None
    show thesis using that(2) [OF sub] row rest unfolding None option.case by blast
  next
    case (Some r)
    show thesis using that(1) [OF sub] row rest unfolding Some option.case by blast
  qed
qed

lemma resolve_first_cases:
  assumes "resolve st H db q = Inr (a, db')"
  obtains t r where "resolve_tenant st db q = Inr t" "rung_workload db t (header q H_SPIFFE) = Inr (Some r)"
      "a = from_row r Mtls t" "db' = db"
  | t where "resolve_tenant st db q = Inr t" "rung_workload db t (header q H_SPIFFE) = Inr None"
      "from_rung_3 st H db t q = Inr (a, db')"
proof -
  from assms obtain t where t: "resolve_tenant st db q = Inr t"
    and "rbind (rung_workload db t (header q H_SPIFFE)) (\<lambda>row. case row of Some r \<Rightarrow> Inr (from_row r Mtls t, db)
      | None \<Rightarrow> from_rung_3 st H db t q) = Inr (a, db')"
    unfolding resolve_def by (rule rbind_InrE)
  from this(2) obtain row where row: "rung_workload db t (header q H_SPIFFE) = Inr row"
    and rest: "(case row of Some r \<Rightarrow> Inr (from_row r Mtls t, db) | None \<Rightarrow> from_rung_3 st H db t q) = Inr (a, db')"
    by (rule rbind_InrE)
  show thesis
  proof (cases row)
    case None
    show thesis using that(2) [OF t] row rest unfolding None option.case by blast
  next
    case (Some r)
    show thesis using that(1) [OF t] row rest unfolding Some option.case by blast
  qed
qed

lemma resolve_cases:
  assumes "resolve st H db q = Inr (a, db')"
  obtains t r where "resolve_tenant st db q = Inr t" "rung_workload db t (header q H_SPIFFE) = Inr (Some r)"
      "a = from_row r Mtls t" "db' = db"
  | t sub r where "resolve_tenant st db q = Inr t" "rung_workload db t (header q H_SPIFFE) = Inr None"
      "session_subject st q = Inr sub" "rung_session db t sub = Inr (Some r)" "a = from_row r Session t" "db' = db"
  | t sub r where "resolve_tenant st db q = Inr t" "rung_workload db t (header q H_SPIFFE) = Inr None"
      "session_subject st q = Inr sub" "rung_session db t sub = Inr None"
      "rung_claim db t (header q H_ACTOR) = Inr (Some r)" "a = from_row r InterceptionHeader t" "db' = db"
  | t sub where "resolve_tenant st db q = Inr t" "rung_workload db t (header q H_SPIFFE) = Inr None"
      "session_subject st q = Inr sub" "rung_session db t sub = Inr None"
      "rung_claim db t (header q H_ACTOR) = Inr None" "synthetic_unregistered H db t q = Inr (a, db')"
  using assms
proof (cases rule: resolve_first_cases)
  case (1 t r)
  then show ?thesis by (rule that(1))
next
  case (2 t)
  note first = 2(1,2)
  from 2(3) show ?thesis
  proof (cases rule: from_rung_3_cases)
    case (1 sub r)
    then show ?thesis by (rule that(2) [OF first])
  next
    case (2 sub)
    from 2(3) show ?thesis
      by (cases rule: from_rung_5_cases) (rule that(3) [OF first 2(1,2)] that(4) [OF first 2(1,2)], assumption+)+
  qed
qed

lemma from_row_simps [simp]:
  "ca_registered (from_row r src t)" "ca_source (from_row r src t) = src" "ca_role (from_row r src t) = ar_role r"
  "ca_request_tenant_id (from_row r src t) = Some t" "ca_tenant_id (from_row r src t) = ar_tenant_id r"
  "ca_scope (from_row r src t) = ar_scope r" "ca_groups (from_row r src t) = ar_groups r"
  by (simp_all add: from_row_def)

lemma unregistered_actor_simps [simp]:
  "\<not> ca_registered (unregistered_actor t r)" "ca_request_tenant_id (unregistered_actor t r) = Some t"
  "ca_tenant_id (unregistered_actor t r) = t" "ca_role (unregistered_actor t r) = ''unregistered''"
  "ca_groups (unregistered_actor t r) = []" "ca_source (unregistered_actor t r) = UnregisteredSource"
  "ca_scope (unregistered_actor t r) = ScopeTenant"
  by (simp_all add: unregistered_actor_def)

lemma synthetic_unregistered_cases:
  assumes "synthetic_unregistered H db t q = Inr (a, db')"
  obtains r where "by_workload db t (unreg_workload (fingerprint H q t)) ScopeTenant = Inr (Some r)"
      "a = unregistered_actor t r" "db' = db"
  | "by_workload db t (unreg_workload (fingerprint H q t)) ScopeTenant = Inr None"
      "insert_actor db (unregistered_row t (fingerprint H q t)) = Inr db'"
      "a = unregistered_actor t (unregistered_row t (fingerprint H q t))"
proof -
  let ?fp = "fingerprint H q t"
  from assms obtain found where found: "by_workload db t (unreg_workload ?fp) ScopeTenant = Inr found"
    and rest: "(case found of Some row \<Rightarrow> Inr (unregistered_actor t row, db)
      | None \<Rightarrow> rbind (insert_actor db (unregistered_row t ?fp))
          (\<lambda>db'. Inr (unregistered_actor t (unregistered_row t ?fp), db'))) = Inr (a, db')"
    unfolding synthetic_unregistered_def Let_def by (rule rbind_InrE)
  show ?thesis using that found rest by (cases found) (auto simp: rbind_Inr_iff)
qed

lemma insert_actor_Inr:
  "insert_actor db r = Inr db' \<Longrightarrow> db' = db\<lparr>idb_actors := idb_actors db @ [r]\<rparr>"
  by (auto simp: insert_actor_def split: if_splits)

lemma resolve_registered:
  assumes "resolve st H db q = Inr (a, db')" "ca_registered a"
  obtains t r where "resolve_tenant st db q = Inr t" "in_reach db t r" "a = from_row r (ca_source a) t" "db' = db"
  using assms(1)
proof (cases rule: resolve_cases)
  case 1
  then show ?thesis using that rung_workload_reach by fastforce
next
  case 2
  then show ?thesis using that rung_session_reach by fastforce
next
  case 3
  then show ?thesis using that rung_claim_reach by fastforce
next
  case 4
  from 4(6) assms(2) show ?thesis by (cases rule: synthetic_unregistered_cases) auto
qed

section \<open>Nobody is resolved outside the selected organisation\<close>

inductive ancestor :: "tenants \<Rightarrow> string \<Rightarrow> string \<Rightarrow> bool" for ts where
  ancestor_self: "map_of ts t = Some p \<Longrightarrow> ancestor ts t t"
| ancestor_parent: "map_of ts t = Some (Some p) \<Longrightarrow> ancestor ts p r \<Longrightarrow> ancestor ts t r"

definition organisation_of :: "tenants \<Rightarrow> string \<Rightarrow> string \<Rightarrow> bool" where
  \<comment> \<open>\<open>r\<close> is the parentless tenant above \<open>t\<close>\<close>
  "organisation_of ts t r \<longleftrightarrow> ancestor ts t r \<and> map_of ts r = Some None"

lemma ancestor_root_unique:
  "ancestor ts t r \<Longrightarrow> map_of ts r = Some None \<Longrightarrow> organisation_of ts t r' \<Longrightarrow> r = r'"
proof (induction rule: ancestor.induct)
  case (ancestor_self t p)
  from ancestor_self(3) have "ancestor ts t r'" by (simp add: organisation_of_def)
  then show ?case using ancestor_self(2) by (cases rule: ancestor.cases) auto
next
  case (ancestor_parent t p r)
  from ancestor_parent(5) have a: "ancestor ts t r'" and n: "map_of ts r' = Some None"
    by (simp_all add: organisation_of_def)
  from a have "ancestor ts p r'" using ancestor_parent(1) n by (cases rule: ancestor.cases) auto
  with n ancestor_parent show ?case by (simp add: organisation_of_def)
qed

lemma root_loop_organisation: "root_loop ts seen t = Inr r \<Longrightarrow> organisation_of ts t r"
proof (induction ts seen t rule: root_loop.induct)
  case (1 ts seen t)
  from 1(2) have fresh: "t \<notin> set seen" by (simp add: root_loop.simps [of ts seen t] split: if_splits)
  show ?case
  proof (cases "map_of ts t")
    case None
    with 1(2) fresh show ?thesis by (simp add: root_loop.simps [of ts seen t])
  next
    case (Some p)
    show ?thesis
    proof (cases p)
      case None
      with 1(2) fresh Some show ?thesis
        by (auto simp: root_loop.simps [of ts seen t] organisation_of_def intro: ancestor_self)
    next
      case (Some q)
      with 1(2) fresh \<open>map_of ts t = Some p\<close> have "root_loop ts (t # seen) q = Inr r"
        by (simp add: root_loop.simps [of ts seen t])
      with 1(1) [OF fresh \<open>map_of ts t = Some p\<close> Some] have "organisation_of ts q r" by simp
      with Some \<open>map_of ts t = Some p\<close> show ?thesis by (auto simp: organisation_of_def intro: ancestor_parent)
    qed
  qed
qed

lemma root_tenant_organisation: "root_tenant_id db t = Inr r \<Longrightarrow> organisation_of (idb_tenants db) t r"
  unfolding root_tenant_id_def by (rule root_loop_organisation)

lemma resolve_tenant_known: "resolve_tenant st db q = Inr t \<Longrightarrow> map_of (idb_tenants db) t \<noteq> None"
  by (auto simp: resolve_tenant_def rbind_Inr_iff split: option.splits)

lemma in_reach_home:
  "in_reach db t r \<Longrightarrow> r \<in> set (idb_actors db) \<and>
     (if ar_scope r = ScopeOrganisation then organisation_of (idb_tenants db) t (ar_tenant_id r) else ar_tenant_id r = t)"
  by (auto simp: in_reach_def root_tenant_organisation)

lemma resolve_unregistered:
  assumes "resolve st H db q = Inr (a, db')" "\<not> ca_registered a"
  obtains t r where "resolve_tenant st db q = Inr t" "a = unregistered_actor t r"
  using assms(1)
proof (cases rule: resolve_cases)
  case (4 t sub)
  from 4(6) show ?thesis by (cases rule: synthetic_unregistered_cases) (use 4(1) that in blast)+
qed (use assms(2) in auto)

text \<open>C35. No cross-tenant identity. Whatever a request claims, the actor \<open>resolve\<close> returns acts for the
  tenant the request selected, which exists. If the actor is registered, it copies the role, groups and
  home of an actors row that belongs to that tenant or, for an organisation-scoped row, to the parentless
  tenant above it; and the database is unchanged. If it is not, it has the role \<open>unregistered\<close>, no groups,
  and the selected tenant as its home.\<close>

theorem resolve_stays_in_organisation:
  assumes "resolve st H db q = Inr (a, db')"
  shows "\<exists>t. resolve_tenant st db q = Inr t \<and> map_of (idb_tenants db) t \<noteq> None \<and> ca_request_tenant_id a = Some t \<and>
    (if ca_registered a then db' = db \<and> (\<exists>r \<in> set (idb_actors db). a = from_row r (ca_source a) t \<and>
         (if ar_scope r = ScopeOrganisation then organisation_of (idb_tenants db) t (ar_tenant_id r) else ar_tenant_id r = t))
     else ca_role a = ''unregistered'' \<and> ca_groups a = [] \<and> ca_tenant_id a = t)"
proof (cases "ca_registered a")
  case True
  from assms True obtain t r where r: "resolve_tenant st db q = Inr t" "in_reach db t r"
      "a = from_row r (ca_source a) t" "db' = db"
    by (rule resolve_registered)
  have "ca_request_tenant_id a = Some t" using r(3) by (metis from_row_simps(4))
  with r in_reach_home [OF r(2)] resolve_tenant_known [OF r(1)] True show ?thesis by auto
next
  case False
  from assms False obtain t r where "resolve_tenant st db q = Inr t" "a = unregistered_actor t r"
    by (rule resolve_unregistered)
  with resolve_tenant_known show ?thesis by auto
qed

text \<open>C36. The control plane is confined. A request that passes the gate of a control route and its target
  check comes from a row of the actors table with the role \<open>security_admin\<close>, resolved without adding a
  row; the target is the row's own tenant, or the row is organisation-scoped and its home is the
  parentless tenant above the target.\<close>

theorem control_access_is_confined:
  assumes "control_access st H db q target = Inr (a, db')"
  shows "db' = db \<and> (\<exists>t. \<exists>r \<in> set (idb_actors db). a = from_row r (ca_source a) t \<and> ar_role r = ''security_admin'' \<and>
     (if ar_scope r = ScopeOrganisation then organisation_of (idb_tenants db) target (ar_tenant_id r)
      else ar_tenant_id r = target))"
proof -
  from assms have adm: "current_security_admin st H db q = Inr (a, db')"
    and auth: "authorize_admin_target db' a target = Inr ()"
    by (auto simp: control_access_def rbind_Inr_iff)
  from adm have res: "resolve st H db q = Inr (a, db')" and reg: "ca_registered a" and role: "ca_role a = ''security_admin''"
    by (auto simp: current_security_admin_def split: if_splits sum.splits prod.splits)
  from res reg obtain t r where r: "resolve_tenant st db q = Inr t" "in_reach db t r"
      "a = from_row r (ca_source a) t" "db' = db"
    by (rule resolve_registered)
  have fields: "ar_role r = ca_role a" "ar_scope r = ca_scope a" "ar_tenant_id r = ca_tenant_id a"
    using r(3) by (metis from_row_simps)+
  have "if ca_scope a = ScopeOrganisation then organisation_of (idb_tenants db) target (ca_tenant_id a)
      else ca_tenant_id a = target"
    using auth root_tenant_organisation [of db target] unfolding r(4) authorize_admin_target_def
    by (auto split: if_splits sum.splits)
  then have "if ar_scope r = ScopeOrganisation then organisation_of (idb_tenants db) target (ar_tenant_id r)
      else ar_tenant_id r = target" using fields by simp
  moreover have "r \<in> set (idb_actors db)" using in_reach_home [OF r(2)] by blast
  ultimately show ?thesis using fields(1) role r(3,4) by (intro conjI exI [of _ t] bexI [of _ r]) simp_all
qed

text \<open>Two credentials never disagree silently. When the actor comes from a human login, every credential
  the request carries names that actor's subject: a bearer header that is present parses to it and so does a
  session cookie that is present. When both are present and do not parse to one subject, and no workload
  identity is known, the request fails with \<open>IdentityConflict\<close>.\<close>

theorem login_credentials_agree:
  shows "(\<forall>a db'. resolve st H db q = Inr (a, db') \<and> ca_source a = Session \<longrightarrow>
            (\<exists>s. \<exists>r \<in> set (idb_actors db). ca_id a = ar_id r \<and> ar_idp_subject r = Some s
               \<and> (bearer_supplied q \<longrightarrow> bearer_subject st q = Some s)
               \<and> (cookie_supplied q \<longrightarrow> cookie_subject st q = Some s)))
       \<and> (\<forall>t. resolve_tenant st db q = Inr t \<and> rung_workload db t (header q H_SPIFFE) = Inr None
            \<and> bearer_supplied q \<and> cookie_supplied q
            \<and> (bearer_subject st q = None \<or> bearer_subject st q \<noteq> cookie_subject st q)
            \<longrightarrow> resolve st H db q = Inl IdentityConflict)"
proof (intro conjI allI impI, goal_cases)
  case (1 a db')
  then have res: "resolve st H db q = Inr (a, db')" and src: "ca_source a = Session" by simp_all
  from res show ?case
  proof (cases rule: resolve_cases)
    case (1 t r)
    with src show ?thesis by simp
  next
    case (2 t sub r)
    from rung_session_reach [OF 2(4)] obtain s where r: "r \<in> set (idb_actors db)" "ar_idp_subject r = Some s" "sub = Some s"
      by (auto simp: in_reach_def)
    have "(bearer_supplied q \<longrightarrow> bearer_subject st q = Some s) \<and> (cookie_supplied q \<longrightarrow> cookie_subject st q = Some s)"
      using 2(3) r(3) by (auto simp: session_subject_def split: if_splits option.splits)
    moreover have "ca_id a = ar_id r" using 2(5) by (simp add: from_row_def)
    ultimately show ?thesis using r by blast
  next
    case (3 t sub r)
    with src show ?thesis by simp
  next
    case (4 t sub)
    from 4(6) have "ca_source a = UnregisteredSource" by (cases rule: synthetic_unregistered_cases) simp_all
    with src show ?thesis by simp
  qed
next
  case (2 t)
  then have "session_subject st q = Inl IdentityConflict"
    by (auto simp: session_subject_def split: option.splits)
  with 2 show ?case by (simp add: resolve_def from_rung_3_def)
qed

section \<open>The actors table\<close>

definition same_key :: "actor_row \<Rightarrow> actor_row \<Rightarrow> bool" where
  "same_key r s \<longleftrightarrow> ar_id r = ar_id s \<or> ar_tenant_id r = ar_tenant_id s \<and>
     (ar_idp_subject r \<noteq> None \<and> ar_idp_subject r = ar_idp_subject s
      \<or> ar_workload_id r \<noteq> None \<and> ar_workload_id r = ar_workload_id s)"

definition actors_ok :: "id_db \<Rightarrow> bool" where
  \<comment> \<open>what the primary key, the unique indexes and \<open>actor_has_identity\<close> promise\<close>
  "actors_ok db \<longleftrightarrow> sorted_wrt (\<lambda>r s. \<not> same_key r s) (idb_actors db) \<and>
     (\<forall>r \<in> set (idb_actors db). ar_idp_subject r \<noteq> None \<or> ar_workload_id r \<noteq> None)"

lemma one_or_none_filter:
  assumes "sorted_wrt (\<lambda>r s. \<not> same_key r s) rs" "\<And>r s. P r \<Longrightarrow> P s \<Longrightarrow> same_key r s"
  shows "\<exists>x. one_or_none (filter P rs) = Inr x"
proof (cases "filter P rs" rule: one_or_none.cases)
  case (3 x y xs)
  have "sorted_wrt (\<lambda>r s. \<not> same_key r s) (filter P rs)" using assms(1) by (rule sorted_wrt_filter)
  moreover have "P x" "P y" using 3 by (metis filter_eq_ConsD list.set_intros(1,2) mem_Collect_eq set_filter IntD2 Int_iff)+
  ultimately show ?thesis using 3 assms(2) by simp
qed simp_all

lemma lookups_single:
  assumes "actors_ok db"
  shows "by_workload db t w sc \<noteq> Inl e" "by_subject db t w sc \<noteq> Inl e"
  using assms one_or_none_filter [of "idb_actors db" "\<lambda>r. ar_tenant_id r = t \<and> ar_workload_id r = Some w \<and> ar_scope r = sc"]
    one_or_none_filter [of "idb_actors db" "\<lambda>r. ar_tenant_id r = t \<and> ar_idp_subject r = Some w \<and> ar_scope r = sc"]
  by (auto simp: actors_ok_def by_workload_def by_subject_def same_key_def)

lemma insert_actor_ok:
  assumes "actors_ok db" "insert_actor db r = Inr db'" "ar_workload_id r \<noteq> None"
  shows "actors_ok db'"
proof -
  have "\<not> (\<exists>s \<in> set (idb_actors db). same_key s r)"
    using assms(2) by (auto simp: insert_actor_def same_key_def split: if_splits)
  with assms(1,3) insert_actor_Inr [OF assms(2)] show ?thesis
    by (auto simp: actors_ok_def sorted_wrt_append)
qed

lemma resolve_db:
  assumes "resolve st H db q = Inr (a, db')"
  shows "db' = db \<or> (\<exists>t. resolve_tenant st db q = Inr t
     \<and> insert_actor db (unregistered_row t (fingerprint H q t)) = Inr db'
     \<and> a = unregistered_actor t (unregistered_row t (fingerprint H q t)))"
  using assms
proof (cases rule: resolve_cases)
  case (4 t sub)
  from 4(6) show ?thesis by (cases rule: synthetic_unregistered_cases) (use 4(1) in auto)
qed simp_all

lemma unregistered_row_simps [simp]:
  "ar_tenant_id (unregistered_row t fp) = t" "ar_scope (unregistered_row t fp) = ScopeTenant"
  "ar_idp_subject (unregistered_row t fp) = None" "ar_workload_id (unregistered_row t fp) = Some (unreg_workload fp)"
  "ar_role (unregistered_row t fp) = ''unregistered''"
  by (simp_all add: unregistered_row_def)

text \<open>Adding an unregistered row changes no lookup but that of its own workload id.\<close>

lemma lookups_after_insert:
  assumes "insert_actor db (unregistered_row t fp) = Inr db'"
  shows "idb_tenants db' = idb_tenants db"
    and "by_subject db' u s sc = by_subject db u s sc"
    and "by_workload db' u s ScopeOrganisation = by_workload db u s ScopeOrganisation"
    and "s \<noteq> unreg_workload fp \<Longrightarrow> by_workload db' u s sc = by_workload db u s sc"
    and "by_workload db t (unreg_workload fp) ScopeTenant = Inr None \<Longrightarrow>
         by_workload db' t (unreg_workload fp) ScopeTenant = Inr (Some (unregistered_row t fp))"
  using insert_actor_Inr [OF assms]
  by (simp_all add: by_subject_def by_workload_def one_or_none_None)

lemma rungs_after_insert:
  assumes "insert_actor db (unregistered_row t fp) = Inr db'"
  shows "resolve_tenant st db' q = resolve_tenant st db q"
    and "w \<noteq> Some (unreg_workload fp) \<Longrightarrow> rung_workload db' u w = rung_workload db u w"
    and "rung_session db' u sub = rung_session db u sub"
    and "w \<noteq> Some (unreg_workload fp) \<Longrightarrow> rung_claim db' u w = rung_claim db u w"
  using lookups_after_insert(1-4) [OF assms]
  by (cases w; cases sub;
      simp add: resolve_tenant_def root_tenant_id_def rung_workload_def rung_session_def rung_claim_def)+

text \<open>The actors table stays sound and unknown callers are flagged once. A resolution keeps the keys of
  the table unique, so that no later lookup can meet two rows, and adds at most one row, the unregistered
  caller's. Resolving the same request again, where it does not itself present the new row's workload id,
  returns the same actor and adds nothing.\<close>

theorem unknown_caller_is_flagged_once:
  assumes "actors_ok db" "resolve st H db q = Inr (a, db')"
  shows "actors_ok db' \<and> (\<forall>u w sc e. by_workload db' u w sc \<noteq> Inl e \<and> by_subject db' u w sc \<noteq> Inl e)
    \<and> (db' = db \<or> (\<exists>r. idb_actors db' = idb_actors db @ [r] \<and> ar_role r = ''unregistered'' \<and> ca_id a = ar_id r))
    \<and> (\<forall>t. ca_request_tenant_id a = Some t \<and> header q H_SPIFFE \<noteq> Some (unreg_workload (fingerprint H q t))
         \<and> header q H_ACTOR \<noteq> Some (unreg_workload (fingerprint H q t))
         \<longrightarrow> resolve st H db' q = Inr (a, db'))"
proof (intro conjI allI impI, goal_cases)
  case 1
  show ok: ?case using resolve_db [OF assms(2)] insert_actor_ok [OF assms(1)] assms(1) by auto
  case (2 u w sc e)
  show ?case by (rule lookups_single [OF ok])
  case (3 u w sc e)
  show ?case by (rule lookups_single [OF ok])
next
  case 4
  show ?case using resolve_db [OF assms(2)] insert_actor_Inr by (fastforce simp: unregistered_actor_def)
next
  case (5 t)
  from assms(2) show ?case
  proof (cases rule: resolve_cases)
    case (4 u sub)
    from 4(6) show ?thesis
    proof (cases rule: synthetic_unregistered_cases)
      case (1 r)
      with assms(2) show ?thesis by simp
    next
      case 2
      from 2(3) 5 have "u = t" by simp
      note after = rungs_after_insert [OF 2(2), unfolded \<open>u = t\<close>]
      from 2 4(1-5) \<open>u = t\<close> after(1,3) after(2,4) 5 lookups_after_insert(5) [OF 2(2,1)]
      show ?thesis
        by (simp add: resolve_def from_rung_3_def from_rung_5_def synthetic_unregistered_def)
    qed
  qed (use assms(2) in simp_all)
qed

text \<open>
  The row of an unknown caller can be claimed: whoever sends its workload id (the hash of a tenant and a
  user agent) in the interception header is resolved as a registered actor.
\<close>

lemma unregistered_row_can_be_claimed:
  assumes "resolve_tenant st db q = Inr t" "header q H_SPIFFE = None" "session_subject st q = Inr None"
    and "header q H_ACTOR = Some (unreg_workload fp)"
    and "by_subject db t (unreg_workload fp) ScopeTenant = Inr None"
    and "by_workload db t (unreg_workload fp) ScopeTenant = Inr (Some (unregistered_row t fp))"
  shows "resolve st H db q = Inr (from_row (unregistered_row t fp) InterceptionHeader t, db)"
    and "ca_registered (from_row (unregistered_row t fp) InterceptionHeader t)"
  using assms by (simp_all add: resolve_def from_rung_3_def from_rung_5_def rung_workload_def rung_session_def
      rung_claim_def or_lookup_def)

section \<open>Tokens\<close>

lemma dropWhile_hd: "xs = [] \<or> \<not> P (hd xs) \<Longrightarrow> dropWhile P xs = xs"
  by (cases xs) auto

lemma py_strip_id:
  assumes "s \<noteq> []" "\<not> is_space (of_char (hd s))" "\<not> is_space (of_char (last s))"
  shows "py_strip s = s"
  using assms by (simp add: py_strip_def dropWhile_hd hd_rev)

lemma lower_Bearer: "map lower_char ''Bearer '' = ''bearer ''"
  by code_simp

lemma is_bearer_Bearer: "is_bearer (''Bearer '' @ s)"
  unfolding is_bearer_def map_append lower_Bearer by (rule prefixI) (rule refl)

text \<open>A minted token logs its subject in. The token minted for a subject is read back as that subject, by
  the token reader and by the bearer header, provided it neither begins nor ends with white space; and a
  request that carries it and no other credential resolves to the tenant's actor with that subject.\<close>

theorem minted_token_round_trip:
  assumes "subj \<noteq> []" "\<not> is_space (of_char (hd subj))" "\<not> is_space (of_char (last subj))"
    and "\<not> is_space (of_char (hd (mint_dev_token st subj)))"
    and "hq_header q ''authorization'' = Some (''Bearer '' @ mint_dev_token st subj)"
  shows "subject_from_token st (mint_dev_token st subj) = Some (subj, st_oidc_issuer st)
    \<and> bearer_subject st q = Some subj
    \<and> (\<forall>t r. header q H_SPIFFE = None \<and> cookie q COOKIE_SESSION = None \<and> resolve_tenant st db q = Inr t
         \<and> by_subject db t subj ScopeTenant = Inr (Some r)
         \<longrightarrow> resolve st H db q = Inr (from_row r Session t, db))"
proof -
  have tok: "py_strip (mint_dev_token st subj) = mint_dev_token st subj"
    using assms by (intro py_strip_id) (simp_all add: mint_dev_token_def)
  have h: "header q ''authorization'' = Some (''Bearer '' @ mint_dev_token st subj)"
    using assms(5) by (simp add: header_def truthy_def)
  have b: "bearer_subject st q = Some subj"
    using h assms(1) is_bearer_Bearer [of "mint_dev_token st subj"] tok
    by (simp add: bearer_subject_def truthy_def mint_dev_token_def split: list.splits)
  have "bearer_supplied q" unfolding bearer_supplied_def h option.case by (rule is_bearer_Bearer)
  then have "cookie q COOKIE_SESSION = None \<Longrightarrow> session_subject st q = Inr (Some subj)"
    using b by (simp add: session_subject_def cookie_supplied_def)
  with b show ?thesis
    using py_strip_id [OF assms(1-3)] assms(1)
    by (simp add: subject_from_token_def mint_dev_token_def resolve_def from_rung_3_def rung_workload_def
        rung_session_def or_lookup_def)
qed

section \<open>A sample organisation\<close>

definition demo_settings :: settings where
  "demo_settings = \<lparr>st_env = EnvProd, st_default_tenant = ''acme'', st_dev_token_prefix = ''dev:'', st_oidc_issuer = ''iss''\<rparr>"

definition demo_asha :: actor_row where
  "demo_asha = \<lparr>ar_id = ''act_asha'', ar_tenant_id = ''acme-pay'', ar_scope = ScopeTenant, ar_idp_subject = Some ''asha'',
     ar_workload_id = None, ar_label = ''Asha'', ar_role = ''engineer'', ar_groups = [''eng_core'']\<rparr>"

definition demo_admin :: actor_row where
  "demo_admin = \<lparr>ar_id = ''act_root'', ar_tenant_id = ''acme'', ar_scope = ScopeOrganisation, ar_idp_subject = Some ''root'',
     ar_workload_id = None, ar_label = ''Root'', ar_role = ''security_admin'', ar_groups = []\<rparr>"

definition demo_db :: id_db where
  "demo_db = \<lparr>idb_tenants = [(''acme'', None), (''acme-pay'', Some ''acme'')], idb_actors = [demo_asha, demo_admin]\<rparr>"

definition demo_request :: "(string \<times> string) list \<Rightarrow> (string \<times> string) list \<Rightarrow> http_request" where
  "demo_request hs cs = \<lparr>hq_header = map_of ((''x-zerotrace-tenant'', ''acme-pay'') # hs), hq_cookie = map_of cs\<rparr>"

definition demo_admin_request :: http_request where
  "demo_admin_request = demo_request [(''authorization'', ''Bearer dev:root'')] []"

definition demo_stranger :: http_request where
  "demo_stranger = demo_request [(''user-agent'', ''curl'')] []"

definition demo_flagged :: id_db where
  "demo_flagged = demo_db\<lparr>idb_actors := idb_actors demo_db @ [unregistered_row ''acme-pay'' ''61636d652d706179'']\<rparr>"

lemma demo_admin_resolves:
  "resolve demo_settings (\<lambda>x. x) demo_db demo_admin_request = Inr (from_row demo_admin Session ''acme-pay'', demo_db)"
  by code_simp

lemma demo_admin_access:
  "control_access demo_settings (\<lambda>x. x) demo_db demo_admin_request ''acme-pay''
     = Inr (from_row demo_admin Session ''acme-pay'', demo_db)"
  by code_simp

lemma demo_stranger_resolves:
  "resolve demo_settings (\<lambda>x. x) demo_db demo_stranger
     = Inr (unregistered_actor ''acme-pay'' (unregistered_row ''acme-pay'' ''61636d652d706179''), demo_flagged)"
  by code_simp

lemma demo_actors_ok: "actors_ok demo_db"
  by (simp add: actors_ok_def demo_db_def same_key_def demo_asha_def demo_admin_def)

lemma resolve_stays_in_organisation_witness:
  "\<exists>t. resolve_tenant demo_settings demo_db demo_admin_request = Inr t
     \<and> ca_request_tenant_id (from_row demo_admin Session ''acme-pay'') = Some t"
  using resolve_stays_in_organisation [OF demo_admin_resolves] by blast

lemma control_access_is_confined_witness:
  "\<exists>r \<in> set (idb_actors demo_db). ar_role r = ''security_admin''"
  using control_access_is_confined [OF demo_admin_access] by blast

lemma unknown_caller_is_flagged_once_witness:
  "actors_ok demo_flagged
   \<and> resolve demo_settings (\<lambda>x. x) demo_flagged demo_stranger
     = Inr (unregistered_actor ''acme-pay'' (unregistered_row ''acme-pay'' ''61636d652d706179''), demo_flagged)"
proof -
  have "header demo_stranger H_SPIFFE = None" "header demo_stranger H_ACTOR = None" by code_simp+
  then show ?thesis
    using unknown_caller_is_flagged_once [OF demo_actors_ok demo_stranger_resolves] by simp
qed

definition demo_conflict :: http_request where
  "demo_conflict = demo_request [(''authorization'', ''Bearer dev:root'')] [(''zt_session'', ''dev:asha'')]"

lemma login_credentials_agree_witness:
  "resolve demo_settings (\<lambda>x. x) demo_db demo_conflict = Inl IdentityConflict"
proof -
  have "resolve_tenant demo_settings demo_db demo_conflict = Inr ''acme-pay''"
    "rung_workload demo_db ''acme-pay'' (header demo_conflict H_SPIFFE) = Inr None"
    "bearer_supplied demo_conflict" "cookie_supplied demo_conflict"
    "bearer_subject demo_settings demo_conflict \<noteq> cookie_subject demo_settings demo_conflict"
    by code_simp+
  with login_credentials_agree [of demo_settings "\<lambda>x. x" demo_db demo_conflict] show ?thesis by blast
qed

lemma minted_token_round_trip_witness:
  "bearer_subject demo_settings demo_admin_request = Some ''root''"
proof -
  have "hq_header demo_admin_request ''authorization'' = Some (''Bearer '' @ mint_dev_token demo_settings ''root'')"
    "\<not> is_space (of_char (hd (mint_dev_token demo_settings ''root'')))"
    "\<not> is_space (of_char (hd ''root''))" "\<not> is_space (of_char (last ''root''))"
    by code_simp+
  with minted_token_round_trip [of "''root''" demo_settings demo_admin_request demo_db "\<lambda>x. x"] show ?thesis by simp
qed

end
