(* ===== verification/StubPolicy.thy ===== *)
theory StubPolicy
  imports Contracts
begin

text \<open>
  The gateway's stand-in policy (\<^verbatim>\<open>gateway/base/policy.py\<close>): family defaults, inbound clearance per class, and
  the loop that raises the action over the findings that may enforce. \<open>origins\<close> is the dictionary from span
  paths to origins.
\<close>

section \<open>Tables\<close>

fun FAMILY_DEFAULTS :: "family \<Rightarrow> action" where
  "FAMILY_DEFAULTS CREDENTIAL = Block"
| "FAMILY_DEFAULTS INDIA_ID = Tokenize"
| "FAMILY_DEFAULTS FINANCIAL = Tokenize"
| "FAMILY_DEFAULTS CONTACT = Tokenize"
| "FAMILY_DEFAULTS PERSON_DATA = Tokenize"
| "FAMILY_DEFAULTS SENSITIVE_CATEGORY = Mask"
| "FAMILY_DEFAULTS LOW_CONFIDENCE = Warn"
| "FAMILY_DEFAULTS COMPOSITE = Tokenize"
| "FAMILY_DEFAULTS RESERVED = Allow"

definition CLEARANCE :: "entity_class \<Rightarrow> string list option" where
  "CLEARANCE c = (case c of
       SECURITY_FINDING \<Rightarrow> Some [''security'', ''eng_platform'']
     | INCIDENT_REPORT \<Rightarrow> Some [''security'', ''eng_platform'']
     | INFRA_SECRET \<Rightarrow> Some [''security'', ''eng_platform'']
     | SOURCE_CODE_RESTRICTED \<Rightarrow> Some [''eng_core'']
     | CUSTOMER_DATA \<Rightarrow> Some [''support'', ''security'']
     | HR_RECORD \<Rightarrow> Some [''hr'']
     | LEGAL_PRIVILEGED \<Rightarrow> Some [''legal'']
     | FINANCIAL_RECORD \<Rightarrow> Some [''finance'']
     | _ \<Rightarrow> None)"

definition NO_TOKENIZE_CHANNELS :: "channel set" where
  "NO_TOKENIZE_CHANNELS = {ChCli, ChMcp}"

section \<open>Deciding\<close>

record stub_client =
  sc_policy_version :: int
  sc_default :: action

definition skips :: "actor \<Rightarrow> leg \<Rightarrow> (pystr \<Rightarrow> origin option) \<Rightarrow> finding \<Rightarrow> bool" where
  \<comment> \<open>the three \<open>continue\<close>s of the loop\<close>
  "skips actor leg origins f \<longleftrightarrow> f_advisory f
     \<or> \<not> may_enforce (case origins (f_path f) of Some src \<Rightarrow> src | None \<Rightarrow> OUser) (f_family f)
     \<or> leg = Inbound \<and> (case CLEARANCE (f_class f) of None \<Rightarrow> False
          | Some cleared \<Rightarrow> list_ex (\<lambda>g. g \<in> set (a_groups actor)) cleared)"

definition candidate :: "actor \<Rightarrow> finding \<Rightarrow> action" where
  "candidate actor f =
     (let c = FAMILY_DEFAULTS (family_of (f_class f)) in
      if c = Tokenize \<and> (f_class f \<in> NEVER_TOKENIZE \<or> a_channel actor \<in> NO_TOKENIZE_CHANNELS) then Block else c)"

fun stub_loop :: "actor \<Rightarrow> leg \<Rightarrow> (pystr \<Rightarrow> origin option) \<Rightarrow> nat \<Rightarrow> action \<times> nat option \<Rightarrow> finding list
    \<Rightarrow> action \<times> nat option" where
  "stub_loop actor leg origins i st [] = st"
| "stub_loop actor leg origins i (action, fired) (f # fs) =
     stub_loop actor leg origins (Suc i)
       (if skips actor leg origins f then (action, fired)
        else if rank action < rank (candidate actor f) then (candidate actor f, Some i)
        else (action, fired)) fs"

definition stub_decide :: "stub_client \<Rightarrow> actor \<Rightarrow> finding list \<Rightarrow> leg \<Rightarrow> (pystr \<Rightarrow> origin option) \<Rightarrow> decision" where
  \<comment> \<open>the parameters \<open>risk\<close> and \<open>destination\<close> are not read\<close>
  "stub_decide client actor findings leg origins =
     (case stub_loop actor leg origins 0 (sc_default client, None) findings of (action, fired) \<Rightarrow>
        \<lparr>d_action = action, d_rule_index = fired, d_policy_version = sc_policy_version client,
         d_exception_applied = False, d_reason = Some ''StubPolicyClient''\<rparr>)"

section \<open>What it decides\<close>

definition live :: "actor \<Rightarrow> leg \<Rightarrow> (pystr \<Rightarrow> origin option) \<Rightarrow> finding list \<Rightarrow> action list" where
  "live actor leg origins fs = map (candidate actor) (filter (\<lambda>f. \<not> skips actor leg origins f) fs)"

lemma stub_loop_max: "fst (stub_loop actor leg origins i (act, fired) fs) = foldl max act (live actor leg origins fs)"
  by (induction fs arbitrary: i act fired) (auto simp: live_def max_def action_order not_le intro: rank_inj dest: rank_inj)

lemma stub_loop_fired:
  "snd (stub_loop actor leg origins i (act, fired) fs) = (if foldl max act (live actor leg origins fs) = act then fired
     else Some (i + length (takeWhile (\<lambda>f. skips actor leg origins f
        \<or> candidate actor f \<noteq> foldl max act (live actor leg origins fs)) fs)))"
proof (induction fs arbitrary: i act fired)
  case Nil
  show ?case by (simp add: live_def)
next
  case (Cons f fs)
  show ?case
  proof (cases "skips actor leg origins f")
    case True
    then have "live actor leg origins (f # fs) = live actor leg origins fs" by (simp add: live_def)
    with True Cons show ?thesis by simp
  next
    case False
    let ?c = "candidate actor f" and ?l = "live actor leg origins fs"
    have live: "live actor leg origins (f # fs) = ?c # ?l" using False by (simp add: live_def)
    show ?thesis
    proof (cases "rank act < rank ?c")
      case True
      then have m: "max act ?c = ?c" "act < ?c" by (simp_all add: max_def action_order)
      have "?c \<le> foldl max ?c ?l" using foldl_max_ge by blast
      with m have "foldl max ?c ?l \<noteq> act" by auto
      with False True live m Cons [of "Suc i" ?c "Some i"] show ?thesis by simp
    next
      case small: False
      then have m: "max act ?c = act" "?c \<le> act" by (auto simp: max_def action_order intro: rank_inj)
      have "act \<le> foldl max act ?l" using foldl_max_ge by blast
      with m have "foldl max act ?l \<noteq> act \<Longrightarrow> ?c \<noteq> foldl max act ?l" by auto
      with False small live m Cons [of "Suc i" act fired] show ?thesis by simp
    qed
  qed
qed

lemma stub_decide_simps:
  "d_action (stub_decide client actor fs leg origins) = fst (stub_loop actor leg origins 0 (sc_default client, None) fs)"
  "d_rule_index (stub_decide client actor fs leg origins) = snd (stub_loop actor leg origins 0 (sc_default client, None) fs)"
  by (simp_all add: stub_decide_def split: prod.split)

lemma foldl_max_cases: "foldl max (a :: 'a :: linorder) xs = a \<or> foldl max a xs \<in> set xs"
proof (induction xs arbitrary: a)
  case (Cons x xs)
  from Cons [of "max a x"] show ?case by (auto simp: max_def split: if_splits)
qed simp

text \<open>The stand-in decides the lattice maximum: its action is the strongest of the default and the actions
  of the findings that count - not advisory, allowed to enforce where they stand, and on the inbound leg not
  of a class the actor is cleared for - and the rule it names is the first finding that reaches it, if the
  default does not. Unless the default says so, it never answers \<open>tokenize\<close> for a credential or to a channel
  whose output is written to disk.\<close>

theorem stub_decides_maximum:
  "d_action (stub_decide client actor fs leg origins) = foldl max (sc_default client) (live actor leg origins fs)
   \<and> d_rule_index (stub_decide client actor fs leg origins) =
       (if d_action (stub_decide client actor fs leg origins) = sc_default client then None
        else Some (length (takeWhile (\<lambda>f. skips actor leg origins f
               \<or> candidate actor f \<noteq> d_action (stub_decide client actor fs leg origins)) fs)))
   \<and> (d_action (stub_decide client actor fs leg origins) = Tokenize \<and> sc_default client \<noteq> Tokenize
       \<longrightarrow> a_channel actor \<notin> {ChCli, ChMcp} \<and> (\<exists>f \<in> set fs. \<not> skips actor leg origins f \<and> candidate actor f = Tokenize
            \<and> f_class f \<notin> NEVER_TOKENIZE))"
proof (intro conjI impI, goal_cases)
  case 1
  show act: ?case by (simp only: stub_decide_simps stub_loop_max)
  case 2
  show ?case unfolding act by (simp add: stub_decide_simps stub_loop_fired)
next
  case 3
  have "foldl max (sc_default client) (live actor leg origins fs) = Tokenize"
    using 3 by (simp add: stub_decide_simps stub_loop_max)
  with 3 foldl_max_cases [of "sc_default client" "live actor leg origins fs"]
  have "Tokenize \<in> set (live actor leg origins fs)" by auto
  then have "a_channel actor \<notin> NO_TOKENIZE_CHANNELS"
    by (auto simp: live_def candidate_def Let_def split: if_splits)
  then show ?case by (simp add: NO_TOKENIZE_CHANNELS_def)
next
  case 4
  have "foldl max (sc_default client) (live actor leg origins fs) = Tokenize"
    using 4 by (simp add: stub_decide_simps stub_loop_max)
  with 4 foldl_max_cases [of "sc_default client" "live actor leg origins fs"]
  have "Tokenize \<in> set (live actor leg origins fs)" by auto
  then obtain f where "f \<in> set fs" "\<not> skips actor leg origins f" "candidate actor f = Tokenize" by (auto simp: live_def)
  moreover from this(3) have "f_class f \<notin> NEVER_TOKENIZE" by (auto simp: candidate_def Let_def split: if_splits)
  ultimately show ?case by blast
qed

definition demo_email :: finding where
  "demo_email = \<lparr>f_path = [], f_start = 0, f_end = 1, f_class = EMAIL, f_conf = 1, f_leg = Outbound, f_detector_id = None,
     f_detector = [], f_stage = ''S0'', f_tier = DETERMINISTIC, f_advisory = False\<rparr>"

lemma stub_decides_maximum_witness:
  "\<exists>f \<in> set [demo_email]. f_class f \<notin> NEVER_TOKENIZE"
proof -
  let ?actor = "\<lparr>a_id = [], a_tenant_id = [], a_role = [], a_groups = [], a_channel = ChHttp, a_session_id = None\<rparr>"
  have "d_action (stub_decide \<lparr>sc_policy_version = 0, sc_default = Allow\<rparr> ?actor [demo_email] Outbound Map.empty) = Tokenize"
    by (simp add: stub_decide_def skips_def candidate_def demo_email_def may_enforce_iff origin_sets f_family_def
        family_of_def never_tokenize_iff NO_TOKENIZE_CHANNELS_def)
  with stub_decides_maximum [of "\<lparr>sc_policy_version = 0, sc_default = Allow\<rparr>" ?actor "[demo_email]" Outbound Map.empty]
  show ?thesis by auto
qed

end
