(* ===== verification/Spec2Isabelle.thy ===== *)
theory Spec2Isabelle
  imports DataPlane JsonLeaves JsonCorners ToolHook PolicyPublish PromptHook KvLedger SessionRisk GwLedger Redact PathSafe Identity Checker StubPolicy
begin

text \<open>
  ZeroTrace keeps confidential data out of AI requests. The repository holds two Python programs.

  The gateway (\<^verbatim>\<open>src/gateway\<close>) sits in front of a model provider. A request body becomes a tree of
  text spans; a checker runs a pack of detectors over the tree; a policy turns the findings into one
  action; redaction rewrites the body; a hash-chained ledger records the decision, without values.

  The control plane (\<^verbatim>\<open>src/Control-DB/zerotrace\<close>) resolves who is calling and for which tenant, keeps the
  versioned policies of an organisation and of its business units, decides findings against them, and
  keeps two cross-anchored hash chains per tenant as evidence of policy changes and of decisions.

  \<^bold>\<open>Which theory models what.\<close> Names follow the source; a method is a function on the record of its
  object's state; an exception is the \<open>Inl\<close> of a sum; a lock or a database transaction makes one
  operation one step.

  \<^item> \<open>ZtPrelude\<close>: slices, substring search, splitting, character classes, the result monad \<open>rbind\<close>.
  \<^item> \<open>EntityClasses\<close>, \<open>Contracts\<close> (\<^verbatim>\<open>gateway/contracts/entity_classes.py\<close>, \<^verbatim>\<open>types.py\<close>): the closed vocabulary
    of classes and families; origins, the action lattice (a \<open>linorder\<close>), tiers, findings, decisions.
  \<^item> \<open>PyText\<close>: UTF-8 and JSON string escapes, as Python's \<open>str\<close>, \<open>bytes\<close> and \<open>json\<close> have them.
  \<^item> \<open>SpanModel\<close> (\<^verbatim>\<open>gateway/spans/model.py\<close>): spans, edits, \<open>replace\<close>, the byte-splice serialiser; lemmas on
    well-formed trees and on weaving patches, up to \<open>serialise_replaces_only_edited_strings\<close>.
  \<^item> \<open>JsonSpan\<close>, \<open>JsonLeaves\<close>, \<open>JsonCorners\<close> (\<^verbatim>\<open>gateway/spans/jsonspan.py\<close>): the scanner that finds the strings of a body
    and of the documents inside them; its trees are what \<open>SpanModel\<close> needs, it ends, and no string of a document
    that is written down is missed. Calls are counted by fuel, of which three units per byte are enough, and
    the interpreter's frames are counted approximately. \<open>JsonCorners\<close> holds what it does at the corners.
  \<^item> \<open>PathSafe\<close> (\<^verbatim>\<open>gateway/spans/pathsafe.py\<close>) and \<open>Derive\<close> (\<^verbatim>\<open>gateway/vault/derive.py\<close>): what a written path
    and a token reveal.
  \<^item> \<open>SpanCache\<close> (\<^verbatim>\<open>gateway/base/cache.py\<close>): the locale \<open>span_cache\<close> states what the checker relies on; the LRU
    and the null cache are its interpretations, and the LRU refines a map that forgets nothing.
  \<^item> \<open>Scanner\<close> (\<^verbatim>\<open>gateway/base/budget.py\<close>, \<^verbatim>\<open>detector.py\<close>, \<^verbatim>\<open>scanner.py\<close>): deadlines, detector validation, the
    fallback automata, pack building, whole and chunked scans, deduplication; lemmas on completeness of
    the automata, of the chunks and of the confirmed candidates, and on termination.
  \<^item> \<open>Checker\<close> (\<^verbatim>\<open>gateway/base/checker.py\<close>): scanning a tree through the cache, the verdict, the fail
    stances; \<open>scan_ref\<close> is the scan without a cache that the cached one is proved equal to.
  \<^item> \<open>StubPolicy\<close> (\<^verbatim>\<open>gateway/base/policy.py\<close>) and \<open>Redact\<close> (\<^verbatim>\<open>gateway/redact.py\<close>): the stand-in policy; planning and
    applying replacements and verifying what is dispatched.
  \<^item> \<open>JsonValue\<close>, \<open>HashChain\<close>: canonical JSON and its injectivity; hash chains over an arbitrary digest, and
    what two chains with one head have in common.
  \<^item> \<open>GwLedger\<close> (\<^verbatim>\<open>gateway/ledger/chain.py\<close>): payload refusal, memory and file store, append and verify.
  \<^item> \<open>LedgerRecords\<close>, \<open>DualChain\<close> (\<^verbatim>\<open>zerotrace/ledger/records.py\<close>, \<^verbatim>\<open>chain.py\<close>, the tables of \<^verbatim>\<open>db/models.py\<close>): the
    record schemas; the dual ledger with its cross-anchors and policy bindings.
  \<^item> \<open>PolicySchema\<close>, \<open>PolicyEngine\<close> (\<^verbatim>\<open>zerotrace/policy/schema.py\<close>, \<^verbatim>\<open>engine.py\<close>): policies, the two-layer
    decision with clamping, clearance and exceptions, the publish-time check of a business unit.
  \<^item> \<open>Identity\<close> (\<^verbatim>\<open>zerotrace/identity\<close>, \<^verbatim>\<open>gateway/deps.py\<close>): tenant selection, the rungs of actor resolution,
    unknown callers, tokens, the control-plane gate.

  \<^item> \<open>PolicyCache\<close>, \<open>PolicyStore\<close>, \<open>PolicyHistory\<close>, \<open>PolicyPublish\<close> (\<^verbatim>\<open>zerotrace/policy/store.py\<close>): the cache of
    policies over a Redis that may fail (locale \<open>blob_cache\<close>), loading both layers, conditional publish and
    rollback; an inductive step relation over publishes, loads, decisions and evictions with its invariant,
    and what a loaded or published policy guarantees.
  \<^item> \<open>SpanPaths\<close>, \<open>CpRedact\<close> (\<^verbatim>\<open>zerotrace/spans/paths.py\<close>, \<^verbatim>\<open>gateway/redact.py\<close>): addresses inside a payload, edits,
    and the check of the bytes against the edits, with what it establishes and what it does not.
  \<^item> \<open>DataPlane\<close> (\<^verbatim>\<open>zerotrace/gateway/routes_dataplane.py\<close>, \<^verbatim>\<open>policy/exceptions.py\<close>, \<^verbatim>\<open>detect/stub.py\<close>, \<^verbatim>\<open>upstream.py\<close>): one
    request from the policies to the answer. A run returns the committed tables, the answer, and what was sent
    with the tables committed at that moment, so that the order of evidence, dispatch and delivery can be stated;
    \<open>messages_cases\<close> lists the ends a request can meet. Which database call fails is a field of the environment.
  \<^item> \<open>CallState\<close>, \<open>Daemon\<close> (\<^verbatim>\<open>gateway/base/window.py\<close>, \<^verbatim>\<open>gateway/daemon.py\<close>, \<^verbatim>\<open>hooks/zt_pretool.py\<close>): the state
    carried between prompts and tool calls, and the answers given with it; credentials split over requests
    are seen whole, and the state stays within its bounds.
  \<^item> \<open>SessionRisk\<close> (\<^verbatim>\<open>gateway/base/risk.py\<close>): decaying counters per session, their score and band.
  \<^item> \<open>PromptVerdict\<close>, \<open>PromptHook\<close> (\<^verbatim>\<open>gateway/check.py\<close>, \<^verbatim>\<open>hooks/zt_check.py\<close>): the answer to a check and the
    hook that acts on it, with the daemon or the embedded checker behind it, the role's gate, and the tail of
    the last prompts; what a denied and an allowed prompt imply.
  \<^item> \<open>KvStore\<close>, \<open>KvLedger\<close> (\<^verbatim>\<open>zerotrace/store/kv.py\<close>, \<^verbatim>\<open>ledger.py\<close>): the memory and the file store, both
    interpretations of the locale \<open>kv_store\<close>; the dual ledger written against it, proved over the memory store
    and carried to the file store by its view; a write of the file always succeeds. \<open>SampleCodec\<close> is a JSON codec
    the witnesses use.

  \<^item> \<open>PartAStore\<close>, \<open>PartAContext\<close>, \<open>PartAHistory\<close> (\<^verbatim>\<open>gateway/part_a/store.py\<close>, \<^verbatim>\<open>control.py\<close>, \<^verbatim>\<open>context.py\<close>): the control
    plane inside the gateway: tenants, actors and policies over the key-value store, resolving, deciding and
    recording a request, and histories of requests, administration and attaching, after which each answer
    stands in a ledger that verifies.
  \<^item> \<open>Retrieval\<close>, \<open>ReadGate\<close> (\<^verbatim>\<open>gateway/part_a/retrieval.py\<close>, \<^verbatim>\<open>session.py\<close>, \<^verbatim>\<open>reading.py\<close>): the guard on retrieved
    documents, and the decisions of the hooks on prompts and reads of a logged-in person.
  \<^item> \<open>ReadPaths\<close>, \<open>ToolHook\<close> (\<^verbatim>\<open>gateway/part_a/reading.py\<close>, \<^verbatim>\<open>hooks/zt_pretool.py\<close>, \<open>check_read\<close> of \<^verbatim>\<open>gateway/daemon.py\<close>):
    the files a tool call would read, through the words of a shell line; the tool hook, with the daemon or in
    its own process, and what a call that runs went through.

  \<^bold>\<open>Parameters.\<close> SHA-256 and HMAC are arbitrary functions; no injectivity is assumed, and a theorem that
  needs it ends in an exhibited collision instead. YAML, pydantic's coercion of one field, \<open>json.loads\<close> of a
  whole body, Unicode's tables, the regular-expression engine, pyahocorasick and the clock are parameters as
  well; a theorem
  that uses one states the documented behaviour it relies on as a hypothesis.

  \<^bold>\<open>Representation.\<close> Gateway text is a list of code points and its bytes lists of numbers below 256;
  identifiers and ledger strings of the control plane are HOL strings, read as UTF-8 bytes. Python's
  integers are \<open>nat\<close> or \<open>int\<close>; confidences are rationals. Scanning is bounded by fuel, because a text can be
  chunked into itself: \<open>length text + 3\<close> units are enough when the limits fit together (\<open>limits_fit\<close>), and
  \<open>scan_recurses_for_ever\<close> shows what happens when they do not.

  \<^bold>\<open>Not modelled.\<close> The HTTP and command-line front ends, the sockets and processes of hooks and daemon, attach
  layer and shim (I/O), the detectors whose substance is a table of regular expressions, the learned and
  language-model stages, the HTTP calls to a hosted control plane, logging,
  configuration, migrations, demos, benchmarks and tests; the control routes but for their access check, and
  operating-system errors when the key-value file is written. Threads are not modelled: the checker runs one
  scan at a time, and timings are carried only where a deadline decides a branch.
\<close>

end
